(* ===== verification/Prelude.thy ===== *)
theory Prelude
  imports Main "HOL-Library.Word"
begin

text \<open>
  Vocabulary shared by the component theories: the machine integer types of the
  sources, the errors that C leaves undefined (made explicit as values), the
  result monad that threads them, C strings (NUL-free character lists) with the
  \<open>string.h\<close> functions the program calls, and list lemmas.
\<close>

unbundle bit_operations_syntax

subsection \<open>Machine integers\<close>

type_synonym u8 = "8 word"
type_synonym u16 = "16 word"
type_synonym u32 = "32 word"
type_synonym u64 = "64 word"

subsection \<open>Undefined behaviour as a value\<close>

text \<open>
  A C expression whose behaviour the language leaves undefined is modelled as a value
  of the left summand, so that a memory-safety property is a property of the result.
  \<open>Diverges\<close> is the result of a loop that has used up its fuel.
\<close>

datatype ub = NullPointer | OutOfBounds | UseAfterFree | InvalidFree | DivisionByZero | Uninitialised | Diverges

text \<open>The collection of rules that invert a successful run of a monadic definition.\<close>

named_theorems result_iff

definition bindR :: "'e + 'a \<Rightarrow> ('a \<Rightarrow> 'e + 'b) \<Rightarrow> 'e + 'b" where
  "bindR m f = (case m of Inl e \<Rightarrow> Inl e | Inr a \<Rightarrow> f a)"

lemma bindR_simps [simp]:
  "bindR (Inl e) f = Inl e"
  "bindR (Inr a) f = f a"
  by (simp_all add: bindR_def)

lemma bindR_Inr_iff [result_iff]:
  "bindR m f = Inr b \<longleftrightarrow> (\<exists>a. m = Inr a \<and> f a = Inr b)"
  by (cases m) simp_all

lemma bindR_Inl_iff:
  "bindR m f = Inl e \<longleftrightarrow> m = Inl e \<or> (\<exists>a. m = Inr a \<and> f a = Inl e)"
  by (cases m) simp_all

lemma bindR_cong [fundef_cong]:
  "m = m' \<Longrightarrow> (\<And>a. m' = Inr a \<Longrightarrow> f a = f' a) \<Longrightarrow> bindR m f = bindR m' f'"
  by (cases m') simp_all

definition guardR :: "bool \<Rightarrow> 'e \<Rightarrow> 'e + unit" where
  "guardR b e = (if b then Inr () else Inl e)"

lemma guardR_simps [simp]:
  "guardR True e = Inr ()"
  "guardR False e = Inl e"
  by (simp_all add: guardR_def)

lemma guardR_Inr_iff [result_iff]: "guardR b e = Inr u \<longleftrightarrow> b"
  by (simp add: guardR_def)

subsection \<open>Characters\<close>

text \<open>A C \<open>char\<close> is an HOL \<open>char\<close>; its code is the value of the corresponding byte.\<close>

abbreviation code :: "char \<Rightarrow> nat" where
  "code c \<equiv> of_char c"

definition NUL :: char where "NUL = CHR 0x00"
definition LF :: char where "LF = CHR 0x0A"
definition CR :: char where "CR = CHR 0x0D"

lemma ctrl_distinct [simp]:
  "NUL \<noteq> LF" "LF \<noteq> NUL" "NUL \<noteq> CR" "CR \<noteq> NUL" "LF \<noteq> CR" "CR \<noteq> LF"
  by (simp_all add: NUL_def LF_def CR_def)

definition isspace :: "char \<Rightarrow> bool" where
  "isspace c \<longleftrightarrow> code c = (32::nat) \<or> (9 \<le> (code c :: nat) \<and> (code c :: nat) \<le> 13)"

definition isgraph :: "char \<Rightarrow> bool" where
  "isgraph c \<longleftrightarrow> 33 \<le> (code c :: nat) \<and> (code c :: nat) \<le> 126"

definition isdigit :: "char \<Rightarrow> bool" where
  "isdigit c \<longleftrightarrow> 48 \<le> (code c :: nat) \<and> (code c :: nat) \<le> 57"

definition isxdigit :: "char \<Rightarrow> bool" where
  "isxdigit c \<longleftrightarrow> isdigit c \<or> (65 \<le> (code c :: nat) \<and> (code c :: nat) \<le> 70)
     \<or> (97 \<le> (code c :: nat) \<and> (code c :: nat) \<le> 102)"

definition tolower :: "char \<Rightarrow> char" where
  "tolower c = (if 65 \<le> (code c :: nat) \<and> (code c :: nat) \<le> 90
                then char_of ((code c :: nat) + 32) else c)"

lemma char_code_inject: "code c = (code d :: nat) \<longleftrightarrow> c = d"
  by simp

subsection \<open>C strings\<close>

text \<open>
  The text held by a NUL-terminated array is the list of the characters before the
  terminator.  \<open>bounded n s\<close> is what \<open>snprintf(dst, n, "%s", s)\<close> leaves in \<open>dst\<close>, and
  what the pair \<open>strncpy(dst, s, n); dst[n - 1] = 0\<close> leaves there.
\<close>

definition cstring :: "string \<Rightarrow> bool" where
  "cstring s \<longleftrightarrow> NUL \<notin> set s"

definition bounded :: "nat \<Rightarrow> string \<Rightarrow> string" where
  "bounded n s = take (n - 1) s"

definition strncmp_eq :: "nat \<Rightarrow> string \<Rightarrow> string \<Rightarrow> bool" where
  "strncmp_eq n s t \<longleftrightarrow> take n s = take n t"

fun strchr :: "string \<Rightarrow> char \<Rightarrow> nat option" where
  "strchr [] c = None"
| "strchr (x # xs) c = (if x = c then Some 0 else map_option Suc (strchr xs c))"

lemma length_bounded [simp]: "0 < n \<Longrightarrow> length (bounded n s) < n"
  by (simp add: bounded_def min_def) linarith

lemma bounded_id [simp]: "length s < n \<Longrightarrow> bounded n s = s"
  by (simp add: bounded_def)

lemma set_bounded: "set (bounded n s) \<subseteq> set s"
  by (simp add: bounded_def set_take_subset)

lemma bounded_bounded [simp]: "bounded n (bounded n s) = bounded n s"
  by (simp add: bounded_def)

lemma strncmp_eq_refl [simp]: "strncmp_eq n s s"
  by (simp add: strncmp_eq_def)

lemma strncmp_eq_short:
  "length s < n \<Longrightarrow> strncmp_eq n s t \<longleftrightarrow> s = t"
proof (cases "length t < n")
  case True
  then show "length s < n \<Longrightarrow> ?thesis" by (simp add: strncmp_eq_def)
next
  case False
  then show "length s < n \<Longrightarrow> ?thesis"
    unfolding strncmp_eq_def by (metis length_take min.absorb2 not_le take_all less_imp_le)
qed

lemma strchr_None_iff: "strchr s c = None \<longleftrightarrow> c \<notin> set s"
  by (induction s) auto

lemma strchr_append:
  "c \<notin> set s \<Longrightarrow> strchr (s @ c # t) c = Some (length s)"
  by (induction s) auto

lemma strchr_Some_less: "strchr s c = Some i \<Longrightarrow> i < length s"
  by (induction s arbitrary: i) (auto split: if_splits)

lemma strchr_Some_nth: "strchr s c = Some i \<Longrightarrow> s ! i = c"
  by (induction s arbitrary: i) (auto split: if_splits)

lemma strchr_takeWhile:
  "c \<in> set s \<Longrightarrow> strchr s c = Some (length (takeWhile (\<lambda>x. x \<noteq> c) s))"
  by (induction s) auto

subsection \<open>Lists used as arrays\<close>

text \<open>\<open>write_at buf i xs\<close> is \<open>memcpy(buf + i, xs, length xs)\<close> on an array wide enough.\<close>

definition write_at :: "'a list \<Rightarrow> nat \<Rightarrow> 'a list \<Rightarrow> 'a list" where
  "write_at buf i xs = take i buf @ xs @ drop (i + length xs) buf"

lemma length_write_at [simp]:
  "i + length xs \<le> length buf \<Longrightarrow> length (write_at buf i xs) = length buf"
  by (simp add: write_at_def)

lemma take_write_at [simp]:
  "i \<le> length buf \<Longrightarrow> take i (write_at buf i xs) = take i buf"
  by (simp add: write_at_def)

lemma drop_write_at:
  "i \<le> length buf \<Longrightarrow> drop i (write_at buf i xs) = xs @ drop (i + length xs) buf"
  by (simp add: write_at_def)

lemma takeWhile_neq_append_Cons:
  "c \<notin> set xs \<Longrightarrow> takeWhile (\<lambda>x. x \<noteq> c) (xs @ c # ys) = xs"
  by (induction xs) auto

lemma takeWhile_neq_none: "c \<notin> set xs \<Longrightarrow> takeWhile (\<lambda>x. x \<noteq> c) xs = xs"
  by (induction xs) auto

end
