(* ===== verification/VmcGroups.thy ===== *)
theory VmcGroups
  imports VmcTables
begin

text \<open>
  The lookup of \<open>src/src/vmc_groups.c\<close>: \<open>getGroupIdForTitleId\<close> walks the dictionary group by
  group and, in a group, the first \<open>titleCount\<close> entries of its table.  Reading an entry
  past the end of a table is the error \<open>OutOfBounds\<close>.
\<close>

subsection \<open>The lookup\<close>

fun title_loop :: "string \<Rightarrow> string list \<Rightarrow> nat \<Rightarrow> ub + bool" where
  "title_loop titleId ids 0 = Inr False"
| "title_loop titleId [] (Suc n) = Inl OutOfBounds"
| "title_loop titleId (i # ids) (Suc n) =
     (if titleId = i then Inr True else title_loop titleId ids n)"

fun group_loop :: "string \<Rightarrow> memory_card_group list \<Rightarrow> ub + string option" where
  "group_loop titleId [] = Inr None"
| "group_loop titleId (g # gs) =
     bindR (title_loop titleId (titleIds g) (titleCount g))
       (\<lambda>found. if found then Inr (Some (groupId g)) else group_loop titleId gs)"

definition getGroupIdForTitleId :: "string option \<Rightarrow> ub + string option" where
  "getGroupIdForTitleId titleId =
     (case titleId of
        None \<Rightarrow> Inr None
      | Some t \<Rightarrow> bindR (group_loop t allMemoryCardGroups)
          (\<lambda>r. Inr (Some (case r of Some g \<Rightarrow> g | None \<Rightarrow> t))))"

subsection \<open>Walking a table\<close>

lemma title_loop_in_bounds:
  "n \<le> length ids \<Longrightarrow> title_loop t ids n = Inr (t \<in> set (take n ids))"
  by (induction t ids n rule: title_loop.induct) auto

lemma title_loop_past_end:
  "length ids < n \<Longrightarrow> title_loop t ids n = (if t \<in> set ids then Inr True else Inl OutOfBounds)"
  by (induction t ids n rule: title_loop.induct) auto

lemma group_loop_append:
  "group_loop t (gs @ hs) =
     bindR (group_loop t gs) (\<lambda>r. case r of Some g \<Rightarrow> Inr (Some g) | None \<Rightarrow> group_loop t hs)"
proof (induction gs)
  case (Cons g gs)
  then show ?case by (cases "title_loop t (titleIds g) (titleCount g)") auto
qed simp

lemma find_append:
  "find P (xs @ ys) = (case find P xs of Some x \<Rightarrow> Some x | None \<Rightarrow> find P ys)"
  by (induction xs) auto

text \<open>A dictionary whose counts are those of its tables is searched without a fault.\<close>

locale vmc_dictionary =
  fixes groups :: "memory_card_group list"
  assumes counts_match: "g \<in> set groups \<Longrightarrow> titleCount g = length (titleIds g)"
begin

lemma lookup_first:
  "group_loop t groups = Inr (map_option groupId (find (\<lambda>g. t \<in> set (titleIds g)) groups))"
  using counts_match
proof (induction groups)
  case (Cons g gs)
  have "title_loop t (titleIds g) (titleCount g) = Inr (t \<in> set (titleIds g))"
    using Cons.prems by (simp add: title_loop_in_bounds)
  moreover have "group_loop t gs = Inr (map_option groupId (find (\<lambda>g. t \<in> set (titleIds g)) gs))"
    using Cons.prems by (intro Cons.IH) simp
  ultimately show ?case by simp
qed simp

end

lemmas dictionary_counts = allMemoryCardGroups_def vmc_counts

lemma good_counts:
  "list_all (\<lambda>g. titleCount g = length (titleIds g)) (take 71 allMemoryCardGroups)"
  by (simp add: dictionary_counts)

lemma count_72: "count_XEBP_100_72 = length titles_XEBP_100_72"
  by (simp add: vmc_counts titles_XEBP_100_71_def titles_XEBP_100_72_def)

lemma dictionary_split:
  "allMemoryCardGroups =
     take 72 allMemoryCardGroups @ allMemoryCardGroups ! 72 # drop 73 allMemoryCardGroups"
  by (simp add: id_take_nth_drop allMemoryCardGroups_def)

interpretation vmc: vmc_dictionary "take 72 allMemoryCardGroups"
proof
  fix g assume "g \<in> set (take 72 allMemoryCardGroups)"
  moreover have "take 72 allMemoryCardGroups =
      take 71 allMemoryCardGroups
        @ [\<lparr>groupId = ''XEBP_100.72'', titleIds = titles_XEBP_100_72, titleCount = count_XEBP_100_72\<rparr>]"
    by (simp add: allMemoryCardGroups_def)
  ultimately show "titleCount g = length (titleIds g)"
    using good_counts by (auto simp: list_all_iff count_72)
qed

lemma group_73:
  "title_loop t (titleIds (allMemoryCardGroups ! 72)) (titleCount (allMemoryCardGroups ! 72)) =
     (if t \<in> set (titleIds (allMemoryCardGroups ! 72)) then Inr True else Inl OutOfBounds)"
  by (rule title_loop_past_end)
    (simp add: dictionary_counts titles_XEBP_100_71_def titles_XEBP_100_73_def)

text \<open>
  C4. The complete behaviour of the lookup.  A title listed in one of the first 73 groups gets
  the id of the first of them that lists it.  For every other title the walk reaches
  group XEBP_100.73, whose count (3) is that of another table while its table has two
  entries, and reads past the end of the table: neither the titles of the 24 groups behind it
  nor the documented fallback to the title itself is ever reached.
\<close>
theorem vmc_lookup:
  "getGroupIdForTitleId (Some t) =
     (case find (\<lambda>g. t \<in> set (titleIds g)) (take 73 allMemoryCardGroups) of
        Some g \<Rightarrow> Inr (Some (groupId g))
      | None \<Rightarrow> Inl OutOfBounds)"
proof -
  let ?A = "allMemoryCardGroups" and ?in = "\<lambda>g. t \<in> set (titleIds g)"
  have "take 73 ?A = take 72 ?A @ [?A ! 72]"
    by (simp add: allMemoryCardGroups_def)
  then have f: "find ?in (take 73 ?A) =
      (case find ?in (take 72 ?A) of Some g \<Rightarrow> Some g | None \<Rightarrow> find ?in [?A ! 72])"
    by (simp only: find_append)
  have "group_loop t ?A =
      bindR (group_loop t (take 72 ?A))
        (\<lambda>r. case r of Some g \<Rightarrow> Inr (Some g) | None \<Rightarrow> group_loop t (?A ! 72 # drop 73 ?A))"
    by (subst dictionary_split) (rule group_loop_append)
  then show ?thesis
    by (auto simp: getGroupIdForTitleId_def vmc.lookup_first f group_73 split: option.split)
qed

text \<open>A title of the hidden group XEBP_100.74: listed in the dictionary, never found.\<close>

lemma vmc_hidden_title:
  "getGroupIdForTitleId (Some ''SLUS_206.36'') = Inl OutOfBounds"
  by code_simp

end
