(* ===== verification/IoMan.thy ===== *)
theory IoMan
  imports Prelude
begin

text \<open>
  The asynchronous request queue of \<open>src/src/ioman.c\<close>: a singly linked list of requests with
  a head (\<open>gReqList\<close>) and an end pointer (\<open>gReqEnd\<close>), a table of handlers, two
  semaphores and a worker thread.  The heap is explicit (\<open>mem\<close>), so that freeing, linking and
  dereferencing are the code's.  The first part models the operations one call at a time
  and shows that they implement a first-in first-out list; the second part interleaves
  them with the worker thread, one step per section between two semaphore operations.
\<close>

subsection \<open>State\<close>

type_synonym addr = nat

record 'd io_request =
  rtype :: int
  data :: 'd
  rnext :: "addr option"

record ('h, 'd) ioman =
  mem :: "addr \<Rightarrow> 'd io_request option"
  gReqList :: "addr option"
  gReqEnd :: "addr option"
  gRequestHandlers :: "(int \<times> 'h) list"
  gProcSema :: nat
  gEndSema :: nat
  isIOBlocked :: bool
  isIORunning :: bool
  gIOTerminate :: bool

definition MAX_IO_HANDLERS :: nat where "MAX_IO_HANDLERS = 64"
definition IO_OK :: int where "IO_OK = 0"
definition IO_ERR_TOO_MANY_HANDLERS :: int where "IO_ERR_TOO_MANY_HANDLERS = -2"
definition IO_ERR_DUPLICIT_HANDLER :: int where "IO_ERR_DUPLICIT_HANDLER = -3"
definition IO_ERR_INVALID_HANDLER :: int where "IO_ERR_INVALID_HANDLER = -4"
definition IO_ERR_IO_BLOCKED :: int where "IO_ERR_IO_BLOCKED = -5"

lemmas io_codes = IO_OK_def IO_ERR_TOO_MANY_HANDLERS_def IO_ERR_DUPLICIT_HANDLER_def
  IO_ERR_INVALID_HANDLER_def IO_ERR_IO_BLOCKED_def

text \<open>
  A call ends normally, faults, or waits for a semaphore that is not available: in a
  run of one thread nothing will ever signal it.
\<close>

datatype io_stop = Fault ub | WouldBlock

definition waitProc :: "('h, 'd) ioman \<Rightarrow> io_stop + ('h, 'd) ioman" where
  "waitProc s = (if 0 < gProcSema s then Inr (s\<lparr>gProcSema := gProcSema s - 1\<rparr>) else Inl WouldBlock)"

definition signalProc :: "('h, 'd) ioman \<Rightarrow> ('h, 'd) ioman" where
  "signalProc s = s\<lparr>gProcSema := min 1 (gProcSema s + 1)\<rparr>"

definition waitEnd :: "('h, 'd) ioman \<Rightarrow> io_stop + ('h, 'd) ioman" where
  "waitEnd s = (if 0 < gEndSema s then Inr (s\<lparr>gEndSema := gEndSema s - 1\<rparr>) else Inl WouldBlock)"

definition signalEnd :: "('h, 'd) ioman \<Rightarrow> ('h, 'd) ioman" where
  "signalEnd s = s\<lparr>gEndSema := min 1 (gEndSema s + 1)\<rparr>"

lemmas sema_defs = waitProc_def signalProc_def waitEnd_def signalEnd_def

text \<open>Reading a request through a pointer, and writing one.\<close>

definition deref :: "('h, 'd) ioman \<Rightarrow> addr \<Rightarrow> io_stop + 'd io_request" where
  "deref s a = (case mem s a of None \<Rightarrow> Inl (Fault UseAfterFree) | Some r \<Rightarrow> Inr r)"

definition poke :: "addr \<Rightarrow> ('d io_request \<Rightarrow> 'd io_request) \<Rightarrow> ('h, 'd) ioman \<Rightarrow> io_stop + ('h, 'd) ioman" where
  "poke a f s = bindR (deref s a) (\<lambda>r. Inr (s\<lparr>mem := (mem s)(a \<mapsto> f r)\<rparr>))"

lemma deref_Inr_iff [result_iff]: "deref s a = Inr r \<longleftrightarrow> mem s a = Some r"
  by (simp add: deref_def split: option.split)

subsection \<open>Handlers\<close>

definition ioRegisterHandler ::
    "int \<Rightarrow> 'h option \<Rightarrow> ('h, 'd) ioman \<Rightarrow> io_stop + (int \<times> ('h, 'd) ioman)" where
  "ioRegisterHandler type handler s0 =
     bindR (waitProc s0) (\<lambda>s.
       case handler of
         None \<Rightarrow> Inr (IO_ERR_INVALID_HANDLER, s)
       | Some h \<Rightarrow>
           if MAX_IO_HANDLERS \<le> length (gRequestHandlers s) then Inr (IO_ERR_TOO_MANY_HANDLERS, s)
           else if list_ex (\<lambda>e. fst e = type) (gRequestHandlers s) then Inr (IO_ERR_DUPLICIT_HANDLER, s)
           else Inr (IO_OK, signalProc (s\<lparr>gRequestHandlers := gRequestHandlers s @ [(type, h)]\<rparr>)))"

fun handler_loop :: "int \<Rightarrow> (int \<times> 'h) list \<Rightarrow> 'h option" where
  "handler_loop type [] = None"
| "handler_loop type (e # es) = (if fst e = type then Some (snd e) else handler_loop type es)"

definition ioGetHandler :: "int \<Rightarrow> ('h, 'd) ioman \<Rightarrow> 'h option" where
  "ioGetHandler type s = handler_loop type (gRequestHandlers s)"

text \<open>The call \<open>ioProcessRequest\<close> makes: the handler and its argument, if there is a handler.\<close>

definition ioProcessRequest :: "addr option \<Rightarrow> ('h, 'd) ioman \<Rightarrow> io_stop + ('h \<times> 'd) option" where
  "ioProcessRequest req s =
     (case req of
        None \<Rightarrow> Inr None
      | Some a \<Rightarrow> bindR (deref s a) (\<lambda>r. Inr (map_option (\<lambda>h. (h, data r)) (ioGetHandler (rtype r) s))))"

subsection \<open>Queue operations\<close>

text \<open>
  \<open>malloc\<close> is the argument \<open>p\<close>: the pointer the allocator returned and what the fresh block
  holds.  The first half of \<open>ioPutRequest\<close>'s critical section links the block (\<open>put_link\<close>), the
  second half fills it (\<open>put_fill\<close>).
\<close>

definition put_link ::
    "(addr \<times> 'd io_request) option \<Rightarrow> ('h, 'd) ioman \<Rightarrow> io_stop + (addr option \<times> ('h, 'd) ioman)" where
  "put_link p s =
     (let s1 = (case p of None \<Rightarrow> s | Some (a, junk) \<Rightarrow> s\<lparr>mem := (mem s)(a \<mapsto> junk)\<rparr>);
          q = map_option fst p
      in case gReqEnd s of
           None \<Rightarrow> Inr (q, s1\<lparr>gReqList := q, gReqEnd := q\<rparr>)
         | Some e \<Rightarrow> bindR (poke e (\<lambda>r. r\<lparr>rnext := q\<rparr>) s1) (\<lambda>s2. Inr (q, s2\<lparr>gReqEnd := q\<rparr>)))"

definition put_fill :: "int \<Rightarrow> 'd \<Rightarrow> addr option \<Rightarrow> ('h, 'd) ioman \<Rightarrow> io_stop + ('h, 'd) ioman" where
  "put_fill type d q s =
     (case q of
        None \<Rightarrow> Inl (Fault NullPointer)
      | Some a \<Rightarrow> poke a (\<lambda>r. r\<lparr>rnext := None, rtype := type, data := d\<rparr>) s)"

definition ioPutRequest ::
    "(addr \<times> 'd io_request) option \<Rightarrow> int \<Rightarrow> 'd \<Rightarrow> ('h, 'd) ioman \<Rightarrow> io_stop + (int \<times> ('h, 'd) ioman)" where
  "ioPutRequest p type d s =
     (if isIOBlocked s then Inr (IO_ERR_IO_BLOCKED, s)
      else if ioGetHandler type s = None then Inr (IO_ERR_INVALID_HANDLER, s)
      else bindR (waitEnd s) (\<lambda>s.
           bindR (put_link p s) (\<lambda>(q, s).
           bindR (put_fill type d q s) (\<lambda>s. Inr (IO_OK, signalEnd s)))))"

text \<open>What the worker does with a processed request, under \<open>gEndSemaId\<close>.\<close>

definition worker_unlink :: "addr \<Rightarrow> ('h, 'd) ioman \<Rightarrow> io_stop + ('h, 'd) ioman" where
  "worker_unlink req s0 =
     bindR (waitEnd s0) (\<lambda>s.
     bindR (deref s req) (\<lambda>r.
       let s1 = s\<lparr>gReqList := rnext r, mem := (mem s)(req := None)\<rparr>;
           s2 = (if gReqList s1 = None then s1\<lparr>gReqEnd := None\<rparr> else s1)
       in Inr (signalEnd s2)))"

text \<open>One round of the worker's inner loop: the head request is processed, then unlinked.\<close>

definition worker_round :: "('h, 'd) ioman \<Rightarrow> io_stop + (('h \<times> 'd) option \<times> ('h, 'd) ioman)" where
  "worker_round s =
     (case gReqList s of
        None \<Rightarrow> Inr (None, s)
      | Some req \<Rightarrow>
          bindR (ioProcessRequest (Some req) s) (\<lambda>call.
          bindR (worker_unlink req s) (\<lambda>s'. Inr (call, s'))))"

fun remove_loop :: "nat \<Rightarrow> int \<Rightarrow> addr option \<Rightarrow> addr option \<Rightarrow> int \<Rightarrow> ('h, 'd) ioman
    \<Rightarrow> io_stop + (int \<times> ('h, 'd) ioman)" where
  "remove_loop fuel type None prev count s = Inr (count, s)"
| "remove_loop 0 type (Some req) prev count s = Inl (Fault Diverges)"
| "remove_loop (Suc fuel) type (Some req) prev count s =
     bindR (deref s req) (\<lambda>r.
       if rtype r = type
       then bindR (case prev of None \<Rightarrow> Inr s | Some l \<Rightarrow> poke l (\<lambda>x. x\<lparr>rnext := rnext r\<rparr>) s) (\<lambda>s1.
            let s2 = (if Some req = gReqList s1 then s1\<lparr>gReqList := rnext r\<rparr> else s1);
                s3 = (if Some req = gReqEnd s2 then s2\<lparr>gReqEnd := prev\<rparr> else s2);
                s4 = s3\<lparr>mem := (mem s3)(req := None)\<rparr>
            in remove_loop fuel type (rnext r) prev (count + 1) s4)
       else remove_loop fuel type (rnext r) (Some req) count s)"

definition ioRemoveRequests :: "nat \<Rightarrow> int \<Rightarrow> ('h, 'd) ioman \<Rightarrow> io_stop + (int \<times> ('h, 'd) ioman)" where
  "ioRemoveRequests fuel type s0 =
     bindR (waitProc s0) (\<lambda>s. bindR (waitEnd s) (\<lambda>s.
     bindR (remove_loop fuel type (gReqList s) None 0 s) (\<lambda>(count, s).
       Inr (count, signalProc (signalEnd s)))))"

fun count_loop :: "nat \<Rightarrow> addr option \<Rightarrow> int \<Rightarrow> ('h, 'd) ioman \<Rightarrow> io_stop + int" where
  "count_loop fuel None count s = Inr count"
| "count_loop 0 (Some req) count s = Inl (Fault Diverges)"
| "count_loop (Suc fuel) (Some req) count s =
     bindR (deref s req) (\<lambda>r. count_loop fuel (rnext r) (count + 1) s)"

definition ioGetPendingRequestCount :: "nat \<Rightarrow> ('h, 'd) ioman \<Rightarrow> io_stop + (int \<times> ('h, 'd) ioman)" where
  "ioGetPendingRequestCount fuel s0 =
     (let req = gReqList s0
      in bindR (waitProc s0) (\<lambda>s. bindR (count_loop fuel req 0 s) (\<lambda>n. Inr (n, signalProc s))))"

definition ioHasPendingRequests :: "('h, 'd) ioman \<Rightarrow> int" where
  "ioHasPendingRequests s = (if gReqList s \<noteq> None then 1 else 0)"

definition ioEnd :: "('h, 'd) ioman \<Rightarrow> ('h, 'd) ioman" where
  "ioEnd s = s\<lparr>gIOTerminate := True\<rparr>"

text \<open>The requests that are left when the worker ends are freed without a lock.\<close>

fun drain_loop :: "nat \<Rightarrow> ('h, 'd) ioman \<Rightarrow> io_stop + ('h, 'd) ioman" where
  "drain_loop 0 s = (if gReqList s = None then Inr s else Inl (Fault Diverges))"
| "drain_loop (Suc fuel) s =
     (case gReqList s of
        None \<Rightarrow> Inr s
      | Some req \<Rightarrow> bindR (deref s req) (\<lambda>r.
          drain_loop fuel (s\<lparr>gReqList := rnext r, mem := (mem s)(req := None)\<rparr>)))"

definition worker_exit :: "nat \<Rightarrow> ('h, 'd) ioman \<Rightarrow> io_stop + ('h, 'd) ioman" where
  "worker_exit fuel s = bindR (drain_loop fuel s) (\<lambda>s. Inr (s\<lparr>isIORunning := False\<rparr>))"

definition IO_CUSTOM_SIMPLEACTION :: int where "IO_CUSTOM_SIMPLEACTION = 1"

text \<open>
  \<open>ioInit\<close>: both semaphores start at one and the simple action handler (here \<open>simple\<close>) is
  registered for \<open>IO_CUSTOM_SIMPLEACTION\<close>.
\<close>

definition ioInit :: "'h \<Rightarrow> ('h, 'd) ioman \<Rightarrow> io_stop + ('h, 'd) ioman" where
  "ioInit simple s0 =
     (let s = s0\<lparr>gIOTerminate := False, gRequestHandlers := [], gReqList := None, gReqEnd := None,
                 gProcSema := 1, gEndSema := 1\<rparr>
      in bindR (ioRegisterHandler IO_CUSTOM_SIMPLEACTION (Some simple) s) (\<lambda>(_, s). Inr (s\<lparr>isIORunning := True\<rparr>)))"

subsection \<open>The list in the heap\<close>

text \<open>\<open>seg m p as q\<close>: following \<open>next\<close> from \<open>p\<close> visits the addresses \<open>as\<close> and arrives at \<open>q\<close>.\<close>

primrec seg :: "(addr \<Rightarrow> 'd io_request option) \<Rightarrow> addr option \<Rightarrow> addr list \<Rightarrow> addr option \<Rightarrow> bool" where
  "seg m p [] q \<longleftrightarrow> p = q"
| "seg m p (a # as) q \<longleftrightarrow> p = Some a \<and> (\<exists>r. m a = Some r \<and> seg m (rnext r) as q)"

definition end_of :: "addr list \<Rightarrow> addr option" where
  "end_of as = (if as = [] then None else Some (last as))"

definition queue :: "('h, 'd) ioman \<Rightarrow> addr list \<Rightarrow> bool" where
  "queue s as \<longleftrightarrow>
     seg (mem s) (gReqList s) as None \<and> distinct as \<and> gReqEnd s = end_of as \<and> dom (mem s) = set as"

definition request :: "(addr \<Rightarrow> 'd io_request option) \<Rightarrow> addr \<Rightarrow> int \<times> 'd" where
  "request m a = (rtype (the (m a)), data (the (m a)))"

definition pending :: "('h, 'd) ioman \<Rightarrow> (int \<times> 'd) list \<Rightarrow> bool" where
  "pending s xs \<longleftrightarrow> (\<exists>as. queue s as \<and> xs = map (request (mem s)) as)"

lemma end_of_simps [simp]:
  "end_of [] = None" "end_of (as @ [a]) = Some a" "end_of [a] = Some a"
  "end_of as = None \<longleftrightarrow> as = []"
  by (simp_all add: end_of_def)

lemma end_of_append: "bs \<noteq> [] \<Longrightarrow> end_of (as @ bs) = end_of bs"
  by (simp add: end_of_def)

lemma seg_append: "seg m p (as @ bs) q \<longleftrightarrow> (\<exists>x. seg m p as x \<and> seg m x bs q)"
  by (induction as arbitrary: p) auto

lemma seg_dom: "seg m p as q \<Longrightarrow> a \<in> set as \<Longrightarrow> \<exists>r. m a = Some r"
  by (induction as arbitrary: p) auto

lemma seg_cong: "\<lbrakk>\<And>a. a \<in> set as \<Longrightarrow> m' a = m a\<rbrakk> \<Longrightarrow> seg m' p as q = seg m p as q"
  by (induction as arbitrary: p) auto

lemma seg_head: "seg m p as q \<Longrightarrow> p = (if as = [] then q else Some (hd as))"
  by (cases as) auto

lemma seg_unique: "seg m p as None \<Longrightarrow> seg m p bs None \<Longrightarrow> as = bs"
proof (induction as arbitrary: p bs)
  case Nil
  then show ?case by (cases bs) auto
next
  case (Cons a as)
  then show ?case by (cases bs) auto
qed

lemma queue_unique: "queue s as \<Longrightarrow> queue s bs \<Longrightarrow> as = bs"
  by (auto simp: queue_def dest: seg_unique)

lemma pending_unique: "pending s xs \<Longrightarrow> pending s ys \<Longrightarrow> xs = ys"
  unfolding pending_def by (metis queue_unique)

subsection \<open>Putting a request\<close>

text \<open>The list in the middle of a put: the new block is linked and not filled yet.\<close>

lemma put_link_queue:
  assumes "queue s as" "mem s a = None"
  shows "\<exists>s'. put_link (Some (a, junk)) s = Inr (Some a, s')
      \<and> (\<exists>r. mem s' a = Some r) \<and> seg (mem s') (gReqList s') as (Some a)
      \<and> distinct (as @ [a]) \<and> gReqEnd s' = Some a \<and> dom (mem s') = set (as @ [a])
      \<and> (\<forall>b \<in> set as. request (mem s') b = request (mem s) b)
      \<and> s' = s\<lparr>mem := mem s', gReqList := gReqList s', gReqEnd := Some a\<rparr>"
proof (cases as rule: rev_cases)
  case Nil
  with assms show ?thesis by (simp add: queue_def put_link_def Let_def)
next
  case (snoc bs e)
  from assms(1) obtain r where s: "seg (mem s) (gReqList s) bs (Some e)" "mem s e = Some r" "rnext r = None"
    "distinct (bs @ [e])" "gReqEnd s = Some e" "dom (mem s) = insert e (set bs)"
    by (auto simp: queue_def snoc seg_append)
  have ne: "a \<noteq> e" "a \<notin> set bs" using assms(2) s seg_dom [OF s(1)] by force+
  let ?m = "(mem s)(a \<mapsto> junk, e \<mapsto> r\<lparr>rnext := Some a\<rparr>)"
  have "seg ?m (gReqList s) bs (Some e)"
    using s(1) ne s(4) by (subst seg_cong [where m = "mem s"]) auto
  then have "seg ?m (gReqList s) as (Some a)" by (auto simp: snoc seg_append)
  moreover have "\<forall>b \<in> set as. request ?m b = request (mem s) b"
    using ne s(2,4) by (auto simp: snoc request_def)
  moreover have "dom ?m = set (as @ [a])" using s(6) by (auto simp: snoc)
  ultimately show ?thesis
    using s ne by (simp add: put_link_def poke_def deref_def snoc Let_def insert_commute insert_absorb2)
qed

lemma put_fill_queue:
  assumes "mem s a = Some r" "seg (mem s) (gReqList s) as (Some a)" "distinct (as @ [a])" "gReqEnd s = Some a"
    "dom (mem s) = set (as @ [a])"
  shows "\<exists>s'. put_fill type d (Some a) s = Inr s' \<and> queue s' (as @ [a])
      \<and> map (request (mem s')) (as @ [a]) = map (request (mem s)) as @ [(type, d)]
      \<and> s' = s\<lparr>mem := mem s'\<rparr>"
proof -
  let ?m = "(mem s)(a \<mapsto> r\<lparr>rnext := None, rtype := type, data := d\<rparr>)"
  have "seg ?m (gReqList s) as (Some a)"
    using assms(2,3) by (subst seg_cong [where m = "mem s"]) auto
  then have "seg ?m (gReqList s) (as @ [a]) None" by (auto simp: seg_append)
  moreover have "map (request ?m) as = map (request (mem s)) as"
    using assms(3) by (auto simp: request_def)
  ultimately show ?thesis
    using assms by (simp add: put_fill_def poke_def deref_def queue_def) (simp add: request_def)
qed

text \<open>The call completes without a fault and appends the request.\<close>

definition same_but_queue :: "('h, 'd) ioman \<Rightarrow> ('h, 'd) ioman \<Rightarrow> bool" where
  "same_but_queue s s' \<longleftrightarrow> s' = s\<lparr>mem := mem s', gReqList := gReqList s', gReqEnd := gReqEnd s'\<rparr>"

lemma same_but_queueD:
  assumes "same_but_queue s s'"
  shows "gRequestHandlers s' = gRequestHandlers s" "gProcSema s' = gProcSema s" "gEndSema s' = gEndSema s"
    "isIOBlocked s' = isIOBlocked s" "isIORunning s' = isIORunning s" "gIOTerminate s' = gIOTerminate s"
  by (subst assms [unfolded same_but_queue_def], simp)+

lemma ioPutRequest_queue:
  assumes "queue s as" "mem s a = None" "gEndSema s = 1" "\<not> isIOBlocked s" "ioGetHandler type s \<noteq> None"
  shows "\<exists>s'. ioPutRequest (Some (a, junk)) type d s = Inr (IO_OK, s') \<and> queue s' (as @ [a])
      \<and> map (request (mem s')) (as @ [a]) = map (request (mem s)) as @ [(type, d)] \<and> same_but_queue s s'"
proof -
  let ?s = "s\<lparr>gEndSema := 0\<rparr>"
  have "queue ?s as" "mem ?s a = None" using assms(1,2) by (simp_all add: queue_def)
  from put_link_queue [OF this, of junk] obtain s1 r where 1:
    "put_link (Some (a, junk)) ?s = Inr (Some a, s1)" "mem s1 a = Some r"
    "seg (mem s1) (gReqList s1) as (Some a)" "distinct (as @ [a])" "gReqEnd s1 = Some a"
    "dom (mem s1) = set (as @ [a])" "\<forall>b \<in> set as. request (mem s1) b = request (mem s) b"
    "s1 = ?s\<lparr>mem := mem s1, gReqList := gReqList s1, gReqEnd := Some a\<rparr>" by auto
  from put_fill_queue [OF 1(2-6), of type d] obtain s2 where 2:
    "put_fill type d (Some a) s1 = Inr s2" "queue s2 (as @ [a])"
    "map (request (mem s2)) (as @ [a]) = map (request (mem s1)) as @ [(type, d)]" "s2 = s1\<lparr>mem := mem s2\<rparr>"
    by auto
  have "ioPutRequest (Some (a, junk)) type d s = Inr (IO_OK, signalEnd s2)"
    using assms(3-5) 1(1) 2(1) by (auto simp: ioPutRequest_def waitEnd_def)
  moreover have "queue (signalEnd s2) (as @ [a])" using 2(2) by (simp add: queue_def signalEnd_def)
  moreover have "same_but_queue s (signalEnd s2)"
    using 1(8) 2(4) assms(3)
    by (cases s; cases s1; cases s2) (simp add: same_but_queue_def signalEnd_def)
  moreover have "map (request (mem (signalEnd s2))) (as @ [a]) = map (request (mem s)) as @ [(type, d)]"
    using 2(3) 1(7) by (simp add: signalEnd_def)
  ultimately show ?thesis by blast
qed

subsection \<open>Taking the head request\<close>

lemma worker_unlink_queue:
  assumes "queue s (a # as)" "gEndSema s = 1"
  shows "\<exists>s'. worker_unlink a s = Inr s' \<and> queue s' as
      \<and> map (request (mem s')) as = map (request (mem s)) as \<and> same_but_queue s s'"
proof -
  from assms(1) obtain r where s: "gReqList s = Some a" "mem s a = Some r" "seg (mem s) (rnext r) as None"
    "distinct as" "a \<notin> set as" "gReqEnd s = end_of (a # as)" "dom (mem s) = insert a (set as)"
    by (auto simp: queue_def)
  let ?m = "(mem s)(a := None)"
  have seg: "seg ?m (rnext r) as None" using s(3,5) by (subst seg_cong [where m = "mem s"]) auto
  have m: "map (request ?m) as = map (request (mem s)) as" using s(5) by (auto simp: request_def)
  have d: "dom ?m = set as" using s(5,7) by auto
  have e: "as = [] \<Longrightarrow> ?m = Map.empty" using d by (metis dom_eq_empty_conv empty_set)
  have r: "rnext r = None \<longleftrightarrow> as = []" using seg_head [OF s(3)] by (simp split: if_splits)
  then show ?thesis
    using s(1,2,4,6) seg m d e assms(2)
    by (cases "as = []") (simp_all add: worker_unlink_def waitEnd_def deref_def queue_def signalEnd_def
        same_but_queue_def end_of_def Let_def del: map_eq_conv)
qed

subsection \<open>Removing requests of a type\<close>

lemma remove_loop_queue:
  assumes "length rs \<le> fuel"
    "seg (mem s) (gReqList s) ks req" "seg (mem s) req rs None" "distinct (ks @ rs)"
    "gReqEnd s = end_of (ks @ rs)" "dom (mem s) = set (ks @ rs)"
  shows "\<exists>s'. remove_loop fuel type req (end_of ks) n s =
        Inr (n + int (length (filter (\<lambda>a. rtype (the (mem s a)) = type) rs)), s')
      \<and> queue s' (ks @ filter (\<lambda>a. rtype (the (mem s a)) \<noteq> type) rs)
      \<and> (\<forall>a \<in> set (ks @ filter (\<lambda>a. rtype (the (mem s a)) \<noteq> type) rs).
            request (mem s') a = request (mem s) a)
      \<and> same_but_queue s s'"
  using assms
proof (induction rs arbitrary: fuel s ks req n)
  case Nil
  then show ?case by (simp add: queue_def seg_append same_but_queue_def)
next
  case (Cons a rs)
  from Cons.prems obtain f where f: "fuel = Suc f" "length rs \<le> f" by (cases fuel) auto
  from Cons.prems(3) obtain r where r: "req = Some a" "mem s a = Some r" "seg (mem s) (rnext r) rs None" by auto
  have a: "a \<notin> set ks" "a \<notin> set rs" "distinct ks" "distinct rs" "set ks \<inter> set rs = {}"
    using Cons.prems(4) by auto
  show ?case
  proof (cases "rtype r = type")
    case False
    have "seg (mem s) (gReqList s) (ks @ [a]) (rnext r)" using Cons.prems(2) r by (auto simp: seg_append)
    from Cons.IH [OF f(2) this r(3), of n] Cons.prems(4-6) False f(1) r(1,2)
    show ?thesis by (simp add: deref_def)
  next
    case True
    define s1 where "s1 = s\<lparr>mem := (case end_of ks of None \<Rightarrow> mem s
        | Some l \<Rightarrow> (mem s)(l \<mapsto> (the (mem s l))\<lparr>rnext := rnext r\<rparr>))(a := None),
        gReqList := (if ks = [] then rnext r else gReqList s),
        gReqEnd := (if rs = [] then end_of ks else gReqEnd s)\<rparr>"
    have keep: "b \<noteq> a \<Longrightarrow> b \<notin> set ks \<Longrightarrow> mem s1 b = mem s b" for b
      by (cases ks rule: rev_cases) (auto simp: s1_def)
    have keep': "b \<noteq> a \<Longrightarrow> request (mem s1) b = request (mem s) b" if "set ks \<subseteq> dom (mem s)" for b
      using that by (cases ks rule: rev_cases) (auto simp: s1_def request_def)
    have ksd: "set ks \<subseteq> dom (mem s)" using Cons.prems(6) by auto
    have seg1: "seg (mem s1) (gReqList s1) ks (rnext r)"
    proof (cases ks rule: rev_cases)
      case Nil
      then show ?thesis by (simp add: s1_def)
    next
      case (snoc bs l)
      then obtain x where x: "seg (mem s) (gReqList s) bs (Some l)" "mem s l = Some x"
        using Cons.prems(2) by (auto simp: seg_append)
      then have "seg (mem s1) (gReqList s) bs (Some l)"
        using a snoc by (subst seg_cong [where m = "mem s"]) (auto simp: s1_def)
      then show ?thesis using a(1) x(2) by (auto simp: snoc seg_append s1_def)
    qed
    have kr: "mem s1 b = mem s b" if "b \<in> set rs" for b
    proof (rule keep)
      show "b \<noteq> a" "b \<notin> set ks" using that a(2,5) by auto
    qed
    have seg2: "seg (mem s1) (rnext r) rs None"
      using r(3) kr by (subst seg_cong [where m = "mem s"]) auto
    have end1: "gReqEnd s1 = end_of (ks @ rs)"
      using Cons.prems(5) by (cases "rs = []") (simp_all add: s1_def end_of_def)
    have dom1: "dom (mem s1) = set (ks @ rs)"
      using Cons.prems(6) a by (cases ks rule: rev_cases) (auto simp: s1_def)
    have same1: "same_but_queue s s1" by (simp add: same_but_queue_def s1_def)
    have step: "remove_loop fuel type req (end_of ks) n s = remove_loop f type (rnext r) (end_of ks) (n + 1) s1"
    proof -
      have h: "Some a = gReqList s \<longleftrightarrow> ks = []"
        using seg_head [OF Cons.prems(2)] a(1) r(1) by (cases ks) auto
      have e: "Some a = gReqEnd s \<longleftrightarrow> rs = []"
        using Cons.prems(5) a(2) by (auto simp: end_of_def)
      show ?thesis
      proof (cases ks rule: rev_cases)
        case Nil
        then have "gReqList s = Some a" using h by simp
        then show ?thesis unfolding r(1) f(1) using r(2) True e Nil
          by (cases "rs = []"; cases s) (auto simp: deref_def s1_def Let_def)
      next
        case (snoc bs l)
        then obtain x where "mem s l = Some x" using Cons.prems(2) by (auto simp: seg_append)
        then show ?thesis unfolding r(1) f(1) using r(2) True h e snoc
          by (cases "rs = []"; cases s) (auto simp: deref_def poke_def s1_def Let_def)
      qed
    qed
    have rt: "rtype (the (mem s1 b)) = rtype (the (mem s b))" if "b \<in> set rs" for b
      using kr [OF that] by simp
    have flt: "filter (\<lambda>b. rtype (the (mem s1 b)) = type) rs = filter (\<lambda>b. rtype (the (mem s b)) = type) rs"
      "filter (\<lambda>b. rtype (the (mem s1 b)) \<noteq> type) rs = filter (\<lambda>b. rtype (the (mem s b)) \<noteq> type) rs"
      using rt by (auto cong: filter_cong)
    have "distinct (ks @ rs)" using a by simp
    from Cons.IH [OF f(2) seg1 seg2 this end1 dom1, of "n + 1"] obtain s' where s':
      "remove_loop f type (rnext r) (end_of ks) (n + 1) s1 =
         Inr (n + 1 + int (length (filter (\<lambda>b. rtype (the (mem s b)) = type) rs)), s')"
      "queue s' (ks @ filter (\<lambda>b. rtype (the (mem s b)) \<noteq> type) rs)"
      "\<forall>b \<in> set (ks @ filter (\<lambda>b. rtype (the (mem s b)) \<noteq> type) rs). request (mem s') b = request (mem s1) b"
      "same_but_queue s1 s'" unfolding flt by blast
    have "\<forall>b \<in> set (ks @ filter (\<lambda>b. rtype (the (mem s b)) \<noteq> type) rs). request (mem s') b = request (mem s) b"
    proof
      fix b assume b: "b \<in> set (ks @ filter (\<lambda>b. rtype (the (mem s b)) \<noteq> type) rs)"
      then have "b \<noteq> a" using a(1,2) by auto
      then show "request (mem s') b = request (mem s) b" using s'(3) keep' [OF ksd] b by simp
    qed
    moreover have "same_but_queue s s'"
      using same1 s'(4) by (cases s; cases s1; cases s') (simp add: same_but_queue_def)
    ultimately show ?thesis using step s'(1,2) True r(2) by (intro exI [of _ s']) simp
  qed
qed

lemma filter_requests:
  "filter (\<lambda>x. P (fst x)) (map (request m) as) = map (request m) (filter (\<lambda>a. P (rtype (the (m a)))) as)"
  by (induction as) (auto simp: request_def)

lemma ioRemoveRequests_pending:
  assumes "pending s xs" "gProcSema s = 1" "gEndSema s = 1" "card (dom (mem s)) \<le> fuel"
  shows "\<exists>s'. ioRemoveRequests fuel type s = Inr (int (length (filter (\<lambda>x. fst x = type) xs)), s')
      \<and> pending s' (filter (\<lambda>x. fst x \<noteq> type) xs) \<and> same_but_queue s s'"
proof -
  from assms(1) obtain as where as: "queue s as" "xs = map (request (mem s)) as" by (auto simp: pending_def)
  let ?s = "s\<lparr>gProcSema := 0, gEndSema := 0\<rparr>"
  have "length as \<le> fuel" using assms(4) as(1) by (simp add: queue_def distinct_card)
  moreover have "seg (mem ?s) (gReqList ?s) [] (gReqList s)" by simp
  moreover have "seg (mem ?s) (gReqList s) as None" "distinct ([] @ as)" "gReqEnd ?s = end_of ([] @ as)"
    "dom (mem ?s) = set ([] @ as)" using as(1) by (simp_all add: queue_def)
  ultimately obtain s' where s':
    "remove_loop fuel type (gReqList s) (end_of []) 0 ?s =
       Inr (0 + int (length (filter (\<lambda>a. rtype (the (mem ?s a)) = type) as)), s')"
    "queue s' ([] @ filter (\<lambda>a. rtype (the (mem ?s a)) \<noteq> type) as)"
    "\<forall>a \<in> set ([] @ filter (\<lambda>a. rtype (the (mem ?s a)) \<noteq> type) as). request (mem s') a = request (mem ?s) a"
    "same_but_queue ?s s'" using remove_loop_queue [of as fuel ?s "[]" "gReqList s" type 0] by blast
  let ?r = "signalProc (signalEnd s')"
  have "ioRemoveRequests fuel type s = Inr (int (length (filter (\<lambda>x. fst x = type) xs)), ?r)"
    using s'(1) assms(2,3)
    by (simp add: ioRemoveRequests_def sema_defs as(2) filter_requests [of "\<lambda>t. t = type"])
  moreover have "pending ?r (filter (\<lambda>x. fst x \<noteq> type) xs)"
    using s'(2,3) unfolding pending_def as(2)
    by (intro exI [of _ "filter (\<lambda>a. rtype (the (mem s a)) \<noteq> type) as"])
      (simp add: filter_requests [of "\<lambda>t. t \<noteq> type"] queue_def signalProc_def signalEnd_def)
  moreover have "same_but_queue s ?r"
    using s'(4) assms(2,3) by (cases s; cases s') (simp add: same_but_queue_def signalProc_def signalEnd_def)
  ultimately show ?thesis by blast
qed

lemma count_loop_seg:
  "seg (mem s) p as None \<Longrightarrow> length as \<le> fuel \<Longrightarrow> count_loop fuel p n s = Inr (n + int (length as))"
proof (induction as arbitrary: p fuel n)
  case (Cons a as)
  then show ?case by (cases fuel) (auto simp: deref_def)
qed simp

lemma ioGetPendingRequestCount_pending:
  assumes "pending s xs" "gProcSema s = 1" "card (dom (mem s)) \<le> fuel"
  shows "ioGetPendingRequestCount fuel s = Inr (int (length xs), s)"
proof -
  from assms(1) obtain as where as: "queue s as" "xs = map (request (mem s)) as" by (auto simp: pending_def)
  have "length as \<le> fuel" using assms(3) as(1) by (simp add: queue_def distinct_card)
  then have "count_loop fuel (gReqList s) 0 (s\<lparr>gProcSema := 0\<rparr>) = Inr (int (length as))"
    using count_loop_seg [of "s\<lparr>gProcSema := 0\<rparr>" "gReqList s" as fuel 0] as(1) by (simp add: queue_def)
  then show ?thesis
    using assms(2) as(2) by (cases s) (simp add: ioGetPendingRequestCount_def sema_defs Let_def)
qed

lemma ioHasPendingRequests_pending: "pending s xs \<Longrightarrow> ioHasPendingRequests s = (if xs = [] then 0 else 1)"
  by (auto simp: pending_def queue_def ioHasPendingRequests_def dest!: seg_head split: if_splits)

lemma worker_round_pending:
  assumes "pending s (x # xs)" "gEndSema s = 1"
  shows "\<exists>s'. worker_round s = Inr (map_option (\<lambda>h. (h, snd x)) (ioGetHandler (fst x) s), s')
      \<and> pending s' xs \<and> same_but_queue s s'"
proof -
  from assms(1) obtain a as where as: "queue s (a # as)" "x = request (mem s) a" "xs = map (request (mem s)) as"
    by (auto simp: pending_def)
  then obtain r where r: "gReqList s = Some a" "mem s a = Some r" by (auto simp: queue_def)
  from worker_unlink_queue [OF as(1) assms(2)] obtain s' where s':
    "worker_unlink a s = Inr s'" "queue s' as" "map (request (mem s')) as = map (request (mem s)) as"
    "same_but_queue s s'" by blast
  have "worker_round s = Inr (map_option (\<lambda>h. (h, snd x)) (ioGetHandler (fst x) s), s')"
    using r s'(1) by (simp add: worker_round_def ioProcessRequest_def deref_def as(2) request_def)
  moreover have "pending s' xs" using s'(2,3) unfolding pending_def as(3) by metis
  ultimately show ?thesis using s'(4) by blast
qed

lemma worker_round_idle: "pending s [] \<Longrightarrow> worker_round s = Inr (None, s)"
  by (auto simp: pending_def queue_def worker_round_def)

lemma drain_loop_queue:
  assumes "seg (mem s) (gReqList s) as None" "distinct as" "dom (mem s) = set as" "length as \<le> fuel"
  shows "drain_loop fuel s = Inr (s\<lparr>gReqList := None, mem := Map.empty\<rparr>)"
  using assms
proof (induction as arbitrary: fuel s)
  case Nil
  then show ?case by (cases fuel; cases s) auto
next
  case (Cons a as)
  from Cons.prems obtain f r where f: "fuel = Suc f" "length as \<le> f" "gReqList s = Some a" "mem s a = Some r"
    "seg (mem s) (rnext r) as None" "a \<notin> set as" by (cases fuel) auto
  let ?s = "s\<lparr>gReqList := rnext r, mem := (mem s)(a := None)\<rparr>"
  have a1: "seg (mem ?s) (gReqList ?s) as None"
    using f(5,6) by simp (subst seg_cong [where m = "mem s"], auto)
  have a2: "dom (mem ?s) = set as" using Cons.prems(3) f(6) by auto
  have "drain_loop f ?s = Inr (?s\<lparr>gReqList := None, mem := Map.empty\<rparr>)"
    by (rule Cons.IH [OF a1 _ a2 f(2)]) (use Cons.prems(2) in simp)
  then show ?case using f(1,3,4) by (simp add: deref_def)
qed

subsection \<open>The queue as a list\<close>

text \<open>
  The contract of the queue, over a list: \<open>run_cmds\<close> performs a sequence of calls on
  any implementation of the four operations and collects what they return; the
  specification is the same sequence on \<open>io_spec\<close>.
\<close>

datatype 'd io_cmd = Put int 'd | Round | Remove int | Count
datatype 'c io_obs = PutResult int | Called 'c | Removed int | Counted int

record ('h, 'd) io_spec =
  waiting :: "(int \<times> 'd) list"
  table :: "(int \<times> 'h) list"
  blocked :: bool

definition spec_put :: "int \<Rightarrow> 'd \<Rightarrow> ('h, 'd) io_spec \<Rightarrow> io_stop + (int \<times> ('h, 'd) io_spec)" where
  "spec_put type d a =
     (if blocked a then Inr (IO_ERR_IO_BLOCKED, a)
      else if map_of (table a) type = None then Inr (IO_ERR_INVALID_HANDLER, a)
      else Inr (IO_OK, a\<lparr>waiting := waiting a @ [(type, d)]\<rparr>))"

definition spec_round :: "('h, 'd) io_spec \<Rightarrow> io_stop + (('h \<times> 'd) option \<times> ('h, 'd) io_spec)" where
  "spec_round a =
     (case waiting a of
        [] \<Rightarrow> Inr (None, a)
      | x # xs \<Rightarrow> Inr (map_option (\<lambda>h. (h, snd x)) (map_of (table a) (fst x)), a\<lparr>waiting := xs\<rparr>))"

definition spec_remove :: "int \<Rightarrow> ('h, 'd) io_spec \<Rightarrow> io_stop + (int \<times> ('h, 'd) io_spec)" where
  "spec_remove type a =
     Inr (int (length (filter (\<lambda>x. fst x = type) (waiting a))),
          a\<lparr>waiting := filter (\<lambda>x. fst x \<noteq> type) (waiting a)\<rparr>)"

definition spec_count :: "('h, 'd) io_spec \<Rightarrow> io_stop + (int \<times> ('h, 'd) io_spec)" where
  "spec_count a = Inr (int (length (waiting a)), a)"

lemmas spec_defs = spec_put_def spec_round_def spec_remove_def spec_count_def

fun run_cmds :: "(int \<Rightarrow> 'd \<Rightarrow> 's \<Rightarrow> 'e + (int \<times> 's)) \<Rightarrow> ('s \<Rightarrow> 'e + ('c \<times> 's)) \<Rightarrow> (int \<Rightarrow> 's \<Rightarrow> 'e + (int \<times> 's))
    \<Rightarrow> ('s \<Rightarrow> 'e + (int \<times> 's)) \<Rightarrow> 'd io_cmd list \<Rightarrow> 's \<Rightarrow> 'e + ('c io_obs list \<times> 's)" where
  "run_cmds put rnd rmv cnt [] s = Inr ([], s)"
| "run_cmds put rnd rmv cnt (c # cs) s =
     bindR (case c of
        Put t d \<Rightarrow> bindR (put t d s) (\<lambda>(r, s). Inr (PutResult r, s))
      | Round \<Rightarrow> bindR (rnd s) (\<lambda>(r, s). Inr (Called r, s))
      | Remove t \<Rightarrow> bindR (rmv t s) (\<lambda>(r, s). Inr (Removed r, s))
      | Count \<Rightarrow> bindR (cnt s) (\<lambda>(r, s). Inr (Counted r, s)))
     (\<lambda>(ob, s). bindR (run_cmds put rnd rmv cnt cs s) (\<lambda>(obs, s). Inr (ob # obs, s)))"

locale request_queue =
  fixes put :: "int \<Rightarrow> 'd \<Rightarrow> 's \<Rightarrow> io_stop + (int \<times> 's)"
    and rnd :: "'s \<Rightarrow> io_stop + (('h \<times> 'd) option \<times> 's)"
    and rmv :: "int \<Rightarrow> 's \<Rightarrow> io_stop + (int \<times> 's)"
    and cnt :: "'s \<Rightarrow> io_stop + (int \<times> 's)"
    and rel :: "'s \<Rightarrow> ('h, 'd) io_spec \<Rightarrow> bool"
  assumes put_sim: "rel s a \<Longrightarrow> spec_put t d a = Inr (r, a') \<Longrightarrow> \<exists>s'. put t d s = Inr (r, s') \<and> rel s' a'"
    and rnd_sim: "rel s a \<Longrightarrow> spec_round a = Inr (c, a') \<Longrightarrow> \<exists>s'. rnd s = Inr (c, s') \<and> rel s' a'"
    and rmv_sim: "rel s a \<Longrightarrow> spec_remove t a = Inr (r, a') \<Longrightarrow> \<exists>s'. rmv t s = Inr (r, s') \<and> rel s' a'"
    and cnt_sim: "rel s a \<Longrightarrow> spec_count a = Inr (r, a') \<Longrightarrow> \<exists>s'. cnt s = Inr (r, s') \<and> rel s' a'"
begin

lemma run_sim:
  "rel s a \<Longrightarrow> run_cmds spec_put spec_round spec_remove spec_count cs a = Inr (obs, a') \<Longrightarrow>
     \<exists>s'. run_cmds put rnd rmv cnt cs s = Inr (obs, s') \<and> rel s' a'"
proof (induction cs arbitrary: s a obs)
  case (Cons c cs)
  from Cons.prems(2) obtain ob a1 obs1 where 1:
    "run_cmds spec_put spec_round spec_remove spec_count [c] a = Inr ([ob], a1)"
    "run_cmds spec_put spec_round spec_remove spec_count cs a1 = Inr (obs1, a')" "obs = ob # obs1"
    by (cases c) (auto simp: result_iff)
  have "\<exists>s1. run_cmds put rnd rmv cnt [c] s = Inr ([ob], s1) \<and> rel s1 a1"
    using 1(1) put_sim [OF Cons.prems(1)] rnd_sim [OF Cons.prems(1)] rmv_sim [OF Cons.prems(1)]
      cnt_sim [OF Cons.prems(1)]
    by (cases c) (fastforce simp: result_iff)+
  then obtain s1 where 2: "run_cmds put rnd rmv cnt [c] s = Inr ([ob], s1)" "rel s1 a1" by blast
  from Cons.IH [OF 2(2) 1(2)] obtain s' where "run_cmds put rnd rmv cnt cs s1 = Inr (obs1, s')" "rel s' a'"
    by blast
  then show ?case using 2(1) 1(3) by (cases c) (auto simp: result_iff)
qed simp

end

text \<open>
  The heap implementation: blocks come from an allocator, and a loop over the list gets as
  much fuel as there are live requests.
\<close>

type_synonym 'd allocator = "(addr \<Rightarrow> 'd io_request option) \<Rightarrow> addr \<times> 'd io_request"

definition heap_put :: "'d allocator \<Rightarrow> int \<Rightarrow> 'd \<Rightarrow> ('h, 'd) ioman \<Rightarrow> io_stop + (int \<times> ('h, 'd) ioman)" where
  "heap_put alloc t d s = ioPutRequest (Some (alloc (mem s))) t d s"

definition heap_remove :: "int \<Rightarrow> ('h, 'd) ioman \<Rightarrow> io_stop + (int \<times> ('h, 'd) ioman)" where
  "heap_remove t s = ioRemoveRequests (card (dom (mem s))) t s"

definition heap_count :: "('h, 'd) ioman \<Rightarrow> io_stop + (int \<times> ('h, 'd) ioman)" where
  "heap_count s = ioGetPendingRequestCount (card (dom (mem s))) s"

definition implements :: "('h, 'd) ioman \<Rightarrow> ('h, 'd) io_spec \<Rightarrow> bool" where
  "implements s a \<longleftrightarrow> pending s (waiting a) \<and> gRequestHandlers s = table a \<and> isIOBlocked s = blocked a
     \<and> gProcSema s = 1 \<and> gEndSema s = 1"

locale malloc =
  fixes alloc :: "'d allocator"
  assumes fresh: "finite (dom m) \<Longrightarrow> m (fst (alloc m)) = None"

lemma handler_loop_map_of: "handler_loop t hs = map_of hs t"
  by (induction hs) auto

lemma pending_finite: "pending s xs \<Longrightarrow> finite (dom (mem s))"
  by (auto simp: pending_def queue_def)

lemma malloc_request_queue:
  fixes alloc :: "'d allocator"
  assumes "malloc alloc"
  shows "request_queue (heap_put alloc) worker_round heap_remove heap_count implements"
proof
  fix s :: "('h, 'd) ioman" and a t d r a'
  assume a: "implements s a" "spec_put t d a = Inr (r, a')"
  obtain b junk where b: "alloc (mem s) = (b, junk)" by fastforce
  have h: "ioGetHandler t s = map_of (table a) t"
    using a(1) by (simp add: ioGetHandler_def handler_loop_map_of implements_def)
  show "\<exists>s'. heap_put alloc t d s = Inr (r, s') \<and> implements s' a'"
  proof (cases "blocked a \<or> map_of (table a) t = None")
    case True
    then show ?thesis using a h
      by (auto simp: heap_put_def ioPutRequest_def implements_def spec_put_def b split: if_splits)
  next
    case False
    from a(1) obtain as where as: "queue s as" "waiting a = map (request (mem s)) as"
      by (auto simp: implements_def pending_def)
    have "mem s b = None"
      using malloc.fresh [OF assms, of "mem s"] as(1) b by (simp add: queue_def)
    from ioPutRequest_queue [OF as(1) this, of t junk d] False a(1) h obtain s' where s':
      "ioPutRequest (Some (b, junk)) t d s = Inr (IO_OK, s')" "queue s' (as @ [b])"
      "map (request (mem s')) (as @ [b]) = map (request (mem s)) as @ [(t, d)]" "same_but_queue s s'"
      by (auto simp: implements_def)
    have "pending s' (waiting a @ [(t, d)])" using s'(2,3) as(2) unfolding pending_def by metis
    then have "implements s' (a\<lparr>waiting := waiting a @ [(t, d)]\<rparr>)"
      using a(1) same_but_queueD [OF s'(4)] by (simp add: implements_def)
    then show ?thesis using False a(2) s'(1) by (auto simp: heap_put_def spec_put_def b)
  qed
next
  fix s :: "('h, 'd) ioman" and a c a'
  assume a: "implements s a" "spec_round a = Inr (c, a')"
  show "\<exists>s'. worker_round s = Inr (c, s') \<and> implements s' a'"
  proof (cases "waiting a")
    case Nil
    then show ?thesis using a worker_round_idle [of s] by (auto simp: implements_def spec_round_def)
  next
    case (Cons x xs)
    with a(1) worker_round_pending [of s x xs] obtain s' where s':
      "worker_round s = Inr (map_option (\<lambda>h. (h, snd x)) (ioGetHandler (fst x) s), s')" "pending s' xs"
      "same_but_queue s s'" by (auto simp: implements_def)
    then show ?thesis using a Cons same_but_queueD [OF s'(3)]
      by (auto simp: implements_def spec_round_def ioGetHandler_def handler_loop_map_of)
  qed
next
  fix s :: "('h, 'd) ioman" and a t r a'
  assume a: "implements s a" "spec_remove t a = Inr (r, a')"
  then obtain s' where s': "heap_remove t s = Inr (r, s')" "pending s' (waiting a')" "same_but_queue s s'"
    using ioRemoveRequests_pending [of s "waiting a" "card (dom (mem s))" t]
    by (auto simp: heap_remove_def implements_def spec_remove_def)
  then show "\<exists>s'. heap_remove t s = Inr (r, s') \<and> implements s' a'"
    using a same_but_queueD [OF s'(3)] by (auto simp: implements_def spec_remove_def)
next
  fix s :: "('h, 'd) ioman" and a r a'
  assume "implements s a" "spec_count a = Inr (r, a')"
  then show "\<exists>s'. heap_count s = Inr (r, s') \<and> implements s' a'"
    by (auto simp: heap_count_def implements_def spec_count_def ioGetPendingRequestCount_pending)
qed

sublocale malloc \<subseteq> heap: request_queue "heap_put alloc" worker_round heap_remove heap_count implements
  by (rule malloc_request_queue) (rule malloc_axioms)

definition first_free :: "'d io_request \<Rightarrow> 'd allocator" where
  "first_free junk m = (LEAST a. m a = None, junk)"

interpretation first_free: malloc "first_free junk"
proof
  fix m :: "addr \<Rightarrow> 'a io_request option" assume "finite (dom m)"
  then obtain a where "a \<notin> dom m" using ex_new_if_finite infinite_UNIV_nat by blast
  then show "m (fst (first_free junk m)) = None"
    unfolding first_free_def by (simp add: domIff) (metis (mono_tags, lifting) LeastI)
qed

subsection \<open>Properties\<close>

lemma spec_run_total: "\<exists>obs a'. run_cmds spec_put spec_round spec_remove spec_count cs a = Inr (obs, a')"
proof (induction cs arbitrary: a)
  case (Cons c cs)
  have "\<exists>ob a1. run_cmds spec_put spec_round spec_remove spec_count [c] a = Inr ([ob], a1)"
    by (cases c) (auto simp: spec_defs split: list.split)
  then obtain ob a1 where 1: "run_cmds spec_put spec_round spec_remove spec_count [c] a = Inr ([ob], a1)" by blast
  obtain obs a' where "run_cmds spec_put spec_round spec_remove spec_count cs a1 = Inr (obs, a')"
    using Cons.IH by blast
  with 1 show ?case by (cases c) (auto simp: result_iff)
qed simp

lemma ioInit_implements:
  assumes "mem s0 = Map.empty"
  shows "\<exists>s. ioInit simple s0 = Inr s
      \<and> implements s \<lparr>waiting = [], table = [(IO_CUSTOM_SIMPLEACTION, simple)], blocked = isIOBlocked s0\<rparr>"
  using assms
  by (simp add: ioInit_def ioRegisterHandler_def sema_defs MAX_IO_HANDLERS_def implements_def pending_def queue_def)

text \<open>
  C5. The linked list implements a queue: any sequence of puts, worker rounds, removals by
  type and counts, from a state that represents a list of waiting requests, runs without
  a memory fault, without blocking and without leaking or losing a block, and every call
  returns what it returns on the list: requests come out in the order they went in, a put
  with no handler or while blocked is refused and changes nothing.
\<close>
theorem io_queue_refines:
  assumes "\<forall>m. finite (dom m) \<longrightarrow> m (fst (alloc m)) = None" "implements s a"
  shows "\<exists>obs s' a'. run_cmds spec_put spec_round spec_remove spec_count cs a = Inr (obs, a')
      \<and> run_cmds (heap_put alloc) worker_round heap_remove heap_count cs s = Inr (obs, s')
      \<and> implements s' a'"
proof -
  obtain obs a' where spec: "run_cmds spec_put spec_round spec_remove spec_count cs a = Inr (obs, a')"
    using spec_run_total by blast
  have "malloc alloc" by unfold_locales (use assms(1) in blast)
  from request_queue.run_sim [OF malloc_request_queue [OF this] assms(2) spec] spec
  show ?thesis by blast
qed

definition io_demo :: "(char, nat) ioman" where
  "io_demo = \<lparr>mem = Map.empty, gReqList = None, gReqEnd = None, gRequestHandlers = [(7, CHR ''h'')],
     gProcSema = 1, gEndSema = 1, isIOBlocked = False, isIORunning = True, gIOTerminate = False\<rparr>"

theorem io_queue_refines_witness:
  "\<exists>s'. run_cmds (heap_put (first_free \<lparr>rtype = 0, data = 0, rnext = Some 5\<rparr>)) worker_round heap_remove heap_count
      [Put 7 10, Put 7 20, Put 8 30, Round, Count, Round, Round] io_demo =
      Inr ([PutResult IO_OK, PutResult IO_OK, PutResult IO_ERR_INVALID_HANDLER, Called (Some (CHR ''h'', 10)),
        Counted 1, Called (Some (CHR ''h'', 20)), Called None], s')"
proof -
  let ?a = "\<lparr>waiting = [], table = [(7, CHR ''h'')], blocked = False\<rparr> :: (char, nat) io_spec"
  have "implements io_demo ?a" by (simp add: implements_def pending_def queue_def io_demo_def)
  moreover have "\<forall>m :: addr \<Rightarrow> nat io_request option. finite (dom m) \<longrightarrow>
      m (fst (first_free \<lparr>rtype = 0, data = 0, rnext = Some 5\<rparr> m)) = None"
    using first_free.fresh by blast
  ultimately show ?thesis
    using io_queue_refines [of "first_free \<lparr>rtype = 0, data = 0, rnext = Some 5\<rparr>" io_demo ?a "[Put 7 10, Put 7 20, Put 8 30, Round, Count, Round, Round]"]
    by (fastforce simp: spec_defs)
qed

text \<open>
  A registration that fails (no handler, table full, type already registered) returns its
  error code without signalling \<open>gProcSemaId\<close>: from then on every registration, removal
  and count waits forever.
\<close>
theorem register_failure_blocks:
  assumes "gProcSema s = 1"
    and "handler = None \<or> MAX_IO_HANDLERS \<le> length (gRequestHandlers s) \<or> type \<in> fst ` set (gRequestHandlers s)"
  shows "\<exists>err s'. ioRegisterHandler type handler s = Inr (err, s') \<and> err \<noteq> IO_OK
      \<and> ioRegisterHandler t h s' = Inl WouldBlock
      \<and> ioRemoveRequests fuel t s' = Inl WouldBlock
      \<and> ioGetPendingRequestCount fuel s' = Inl WouldBlock"
  using assms
  by (cases handler)
    (auto simp: ioRegisterHandler_def ioRemoveRequests_def ioGetPendingRequestCount_def sema_defs io_codes
      list_ex_iff Let_def)

theorem register_failure_blocks_witness:
  "\<exists>err s'. ioRegisterHandler 7 (Some CHR ''g'') io_demo = Inr (err, s') \<and> err \<noteq> IO_OK
      \<and> ioRegisterHandler 8 (Some CHR ''g'') s' = Inl WouldBlock
      \<and> ioRemoveRequests 0 8 s' = Inl WouldBlock
      \<and> ioGetPendingRequestCount 0 s' = Inl WouldBlock"
proof -
  have "gProcSema io_demo = 1" "7 \<in> fst ` set (gRequestHandlers io_demo)" by (simp_all add: io_demo_def)
  then show ?thesis
    using register_failure_blocks [of io_demo "Some CHR ''g''" 7 8 "Some CHR ''g''" 0] by blast
qed

text \<open>
  When the worker ends, the requests that were left are all freed and the head is reset.
\<close>
theorem worker_exit_frees:
  assumes "pending s xs" "card (dom (mem s)) \<le> fuel"
  shows "worker_exit fuel s = Inr (s\<lparr>gReqList := None, mem := Map.empty, isIORunning := False\<rparr>)"
proof -
  from assms(1) obtain as where "queue s as" "xs = map (request (mem s)) as" by (auto simp: pending_def)
  moreover from this assms(2) have "length as \<le> fuel" by (simp add: queue_def distinct_card)
  ultimately have "drain_loop fuel s = Inr (s\<lparr>gReqList := None, mem := Map.empty\<rparr>)"
    by (intro drain_loop_queue) (auto simp: queue_def)
  then show ?thesis by (simp add: worker_exit_def)
qed

theorem worker_exit_frees_witness:
  "worker_exit 1 (io_demo\<lparr>mem := [3 \<mapsto> \<lparr>rtype = 7, data = 1, rnext = None\<rparr>], gReqList := Some 3, gReqEnd := Some 3\<rparr>)
     = Inr (io_demo\<lparr>gReqList := None, gReqEnd := Some 3, isIORunning := False\<rparr>)"
proof -
  let ?s = "io_demo\<lparr>mem := [3 \<mapsto> \<lparr>rtype = 7, data = 1, rnext = None\<rparr>], gReqList := Some 3, gReqEnd := Some 3\<rparr>"
  have "pending ?s [(7, 1)]"
    unfolding pending_def by (intro exI [of _ "[3]"]) (simp add: queue_def request_def)
  from worker_exit_frees [OF this, of 1] show ?thesis by (simp add: io_demo_def)
qed

end
