(* ===== verification/IoThreads.thy ===== *)
theory IoThreads
  imports IoMan
begin

text \<open>
  The threads of \<open>src/src/ioman.c\<close>: any number of client threads inside \<open>ioPutRequest\<close>,
  \<open>ioRemoveRequests\<close>, \<open>ioRegisterHandler\<close>, \<open>ioBlockOps\<close>, \<open>ioGetPendingRequestCount\<close> or \<open>ioEnd\<close>, and the worker
  \<open>ioWorkerThread\<close> with its end.  A step is what one thread does between two points where another can
  see the shared state: the check before the lock, linking the block, filling it, one
  section of the worker, one block of a count.  A put is split in two because the worker, a count and the draining
  read the list without holding \<open>gEndSemaId\<close>.  A run ends when the worker has deleted the semaphores.
\<close>

subsection \<open>State and steps\<close>

datatype worker = Asleep | Looking | Running addr | Draining | Ended

text \<open>
  \<open>ready\<close>: puts that have passed their checks and wait for \<open>gEndSemaId\<close>; \<open>filling\<close>: the put that
  holds it and has linked its block.  \<open>counts\<close>: counts that have read \<open>gReqList\<close> and wait for \<open>gProcSemaId\<close>; \<open>counting\<close>: the
  count that holds it, with the block it looks at and the number so far.  \<open>log\<close> is what the worker read from the requests it has
  processed.  \<open>order\<close> (what clients put, in order of linking, less what was removed), \<open>taken\<close> (what was put into the
  requests that the worker has processed) and \<open>early\<close> (the positions of those that it processed before they were filled)
  are only observed.
\<close>

record ('h, 'd) threads =
  io :: "('h, 'd) ioman"
  ready :: "(int \<times> 'd) list"
  filling :: "(addr \<times> int \<times> 'd) option"
  counts :: "addr option list"
  counting :: "(addr option \<times> int) option"
  wpc :: worker
  wakeup :: bool
  log :: "(int \<times> 'd) list"
  order :: "(int \<times> 'd) list"
  taken :: "(int \<times> 'd) list"
  early :: "nat set"

text \<open>What is, or will be, in a block of the list.\<close>

definition intended :: "('h, 'd) ioman \<Rightarrow> (addr \<times> int \<times> 'd) option \<Rightarrow> addr \<Rightarrow> int \<times> 'd" where
  "intended i f a = (case f of Some (b, x) \<Rightarrow> if a = b then x else request (mem i) a | None \<Rightarrow> request (mem i) a)"

inductive step :: "('h, 'd) threads \<Rightarrow> ('h, 'd) threads \<Rightarrow> bool" where
  put_check:
    "\<lbrakk>\<not> isIOBlocked (io s); ioGetHandler t (io s) \<noteq> None\<rbrakk>
     \<Longrightarrow> step s (s\<lparr>ready := ready s @ [(t, d)]\<rparr>)"
| put_link:
    "\<lbrakk>(t, d) \<in> set (ready s); waitEnd (io s) = Inr i; mem i a = None; put_link (Some (a, junk)) i = Inr (Some a, i')\<rbrakk>
     \<Longrightarrow> step s (s\<lparr>io := i', ready := remove1 (t, d) (ready s), filling := Some (a, t, d),
                  order := order s @ [(t, d)]\<rparr>)"
| put_fill:
    "\<lbrakk>filling s = Some (a, t, d); put_fill t d (Some a) (io s) = Inr i\<rbrakk>
     \<Longrightarrow> step s (s\<lparr>io := signalEnd i, filling := None, wakeup := True\<rparr>)"
| worker_wake:
    "\<lbrakk>wpc s = Asleep; wakeup s; \<not> gIOTerminate (io s); waitProc (io s) = Inr i\<rbrakk>
     \<Longrightarrow> step s (s\<lparr>io := i, wpc := Looking, wakeup := False\<rparr>)"
| worker_leave:
    "\<lbrakk>wpc s = Asleep; wakeup s; gIOTerminate (io s)\<rbrakk> \<Longrightarrow> step s (s\<lparr>wpc := Draining, wakeup := False\<rparr>)"
| worker_take:
    "\<lbrakk>wpc s = Looking; gReqList (io s) = Some a; \<not> gIOTerminate (io s); deref (io s) a = Inr r\<rbrakk>
     \<Longrightarrow> step s (s\<lparr>wpc := Running a, log := log s @ [(rtype r, data r)], taken := taken s @ [intended (io s) (filling s) a],
                  early := (if map_option fst (filling s) = Some a then insert (length (log s)) (early s) else early s)\<rparr>)"
| worker_break:
    "\<lbrakk>wpc s = Looking; gReqList (io s) \<noteq> None; gIOTerminate (io s)\<rbrakk>
     \<Longrightarrow> step s (s\<lparr>io := signalProc (io s), wpc := Draining\<rparr>)"
| worker_done:
    "\<lbrakk>wpc s = Running a; worker_unlink a (io s) = Inr i\<rbrakk>
     \<Longrightarrow> step s (s\<lparr>io := i, wpc := Looking\<rparr>)"
| worker_sleep:
    "\<lbrakk>wpc s = Looking; gReqList (io s) = None\<rbrakk>
     \<Longrightarrow> step s (s\<lparr>io := signalProc (io s), wpc := (if gIOTerminate (io s) then Draining else Asleep)\<rparr>)"
| worker_drain:
    "\<lbrakk>wpc s = Draining; gReqList (io s) = Some a; deref (io s) a = Inr r\<rbrakk>
     \<Longrightarrow> step s (s\<lparr>io := (io s)\<lparr>gReqList := rnext r, mem := (mem (io s))(a := None)\<rparr>\<rparr>)"
| worker_end:
    "\<lbrakk>wpc s = Draining; gReqList (io s) = None\<rbrakk> \<Longrightarrow> step s (s\<lparr>io := (io s)\<lparr>isIORunning := False\<rparr>, wpc := Ended\<rparr>)"
| remove:
    "\<lbrakk>heap_remove t (io s) = Inr (n, i)\<rbrakk>
     \<Longrightarrow> step s (s\<lparr>io := i, order := take (length (taken s)) (order s)
                    @ filter (\<lambda>x. fst x \<noteq> t) (drop (length (taken s)) (order s))\<rparr>)"
| register:
    "\<lbrakk>ioRegisterHandler t h (io s) = Inr (err, i)\<rbrakk> \<Longrightarrow> step s (s\<lparr>io := i\<rparr>)"
| set_block:
    "step s (s\<lparr>io := (io s)\<lparr>isIOBlocked := b\<rparr>\<rparr>)"
| terminate:
    "step s (s\<lparr>io := ioEnd (io s), wakeup := True\<rparr>)"
| count_head:
    "step s (s\<lparr>counts := counts s @ [gReqList (io s)]\<rparr>)"
| count_lock:
    "\<lbrakk>p \<in> set (counts s); waitProc (io s) = Inr i\<rbrakk> \<Longrightarrow> step s (s\<lparr>io := i, counts := remove1 p (counts s), counting := Some (p, 0)\<rparr>)"
| count_next:
    "\<lbrakk>counting s = Some (Some a, n); deref (io s) a = Inr r\<rbrakk> \<Longrightarrow> step s (s\<lparr>counting := Some (rnext r, n + 1)\<rparr>)"
| count_done:
    "\<lbrakk>counting s = Some (None, n)\<rbrakk> \<Longrightarrow> step s (s\<lparr>io := signalProc (io s), counting := None\<rparr>)"

inductive_cases stepE: "step s s'"

inductive reach :: "('h, 'd) threads \<Rightarrow> ('h, 'd) threads \<Rightarrow> bool" where
  reach_refl: "reach s s"
| reach_step: "reach s t \<Longrightarrow> wpc t \<noteq> Ended \<Longrightarrow> step t u \<Longrightarrow> reach s u"

definition start :: "('h, 'd) ioman \<Rightarrow> ('h, 'd) threads" where
  "start i = \<lparr>io = i, ready = [], filling = None, counts = [], counting = None, wpc = Asleep, wakeup = False, log = [], order = [],
     taken = [], early = {}\<rparr>"

subsection \<open>Invariant\<close>

definition list_ok :: "('h, 'd) ioman \<Rightarrow> (addr \<times> int \<times> 'd) option \<Rightarrow> addr list \<Rightarrow> bool" where
  "list_ok i f as =
     (case f of
        None \<Rightarrow> queue i as \<and> gEndSema i = 1
      | Some (a, _) \<Rightarrow> (\<exists>bs. as = bs @ [a] \<and> seg (mem i) (gReqList i) bs (Some a)) \<and> distinct as
          \<and> gReqEnd i = Some a \<and> dom (mem i) = set as \<and> gEndSema i = 0)"

definition left :: "worker \<Rightarrow> addr list \<Rightarrow> addr list" where
  "left w as = (case w of Running _ \<Rightarrow> tl as | _ \<Rightarrow> as)"

definition handled :: "('h, 'd) ioman \<Rightarrow> int \<times> 'd \<Rightarrow> bool" where
  "handled i x \<longleftrightarrow> fst x \<in> fst ` set (gRequestHandlers i)"

definition inv_at :: "('h, 'd) threads \<Rightarrow> addr list \<Rightarrow> bool" where
  "inv_at s as \<longleftrightarrow> list_ok (io s) (filling s) as
     \<and> (\<forall>a. wpc s = Running a \<longrightarrow> as \<noteq> [] \<and> hd as = a)
     \<and> (wpc s \<noteq> Asleep \<longrightarrow> gProcSema (io s) = 0) \<and> gProcSema (io s) \<le> 1
     \<and> (counting s \<noteq> None \<longrightarrow> gProcSema (io s) = 0 \<and> wpc s = Asleep)
     \<and> order s = taken s @ map (intended (io s) (filling s)) (left (wpc s) as)
     \<and> (\<forall>x \<in> set (ready s) \<union> set (order s). handled (io s) x)"

text \<open>What holds of the observations, also while the worker drains the list.\<close>

definition seen :: "('h, 'd) threads \<Rightarrow> bool" where
  "seen s \<longleftrightarrow> length (log s) = length (taken s) \<and> (\<forall>k < length (log s). k \<notin> early s \<longrightarrow> log s ! k = taken s ! k)
     \<and> (\<exists>xs. order s = taken s @ xs) \<and> (\<forall>x \<in> set (taken s). handled (io s) x)"

definition ending :: "worker \<Rightarrow> bool" where
  "ending w \<longleftrightarrow> w = Draining \<or> w = Ended"

lemmas inv_defs = inv_at_def list_ok_def intended_def left_def handled_def

lemma list_ok_head: "list_ok i f as \<Longrightarrow> gReqList i = (if as = [] then None else Some (hd as))"
  by (cases f) (auto simp: list_ok_def queue_def dest!: seg_head split: if_splits)

lemma list_ok_mem: "list_ok i f as \<Longrightarrow> a \<in> set as \<Longrightarrow> \<exists>r. mem i a = Some r"
  by (cases f) (auto simp: list_ok_def queue_def)

lemma handler_loop_None: "handler_loop t hs = None \<longleftrightarrow> t \<notin> fst ` set hs"
  by (simp add: handler_loop_map_of map_of_eq_None_iff)

lemma inv_start:
  assumes "implements i a" "waiting a = []"
  shows "inv_at (start i) []"
  using assms by (auto simp: inv_defs start_def implements_def pending_def)

lemma inv_link:
  assumes "inv_at s as" "(t, d) \<in> set (ready s)" "waitEnd (io s) = Inr i" "mem i a = None"
    "put_link (Some (a, junk)) i = Inr (Some a, i')"
  shows "inv_at (s\<lparr>io := i', ready := remove1 (t, d) (ready s), filling := Some (a, t, d),
                  order := order s @ [(t, d)]\<rparr>) (as @ [a])"
proof -
  have i: "i = (io s)\<lparr>gEndSema := gEndSema (io s) - 1\<rparr>" "0 < gEndSema (io s)"
    using assms(3) by (auto simp: waitEnd_def split: if_splits)
  have f: "filling s = None" "queue (io s) as" "gEndSema (io s) = 1"
    using assms(1) i(2) by (auto simp: inv_at_def list_ok_def split: option.splits)
  have "queue i as" using f(2) i(1) by (simp add: queue_def)
  from put_link_queue [OF this assms(4), of junk] assms(5) have l:
    "seg (mem i') (gReqList i') as (Some a)" "distinct (as @ [a])" "gReqEnd i' = Some a"
    "dom (mem i') = set (as @ [a])" "\<forall>b \<in> set as. request (mem i') b = request (mem (io s)) b"
    "i' = i\<lparr>mem := mem i', gReqList := gReqList i', gReqEnd := Some a\<rparr>" using i(1) by auto
  have g: "gEndSema i' = 0" "gProcSema i' = gProcSema (io s)" "gRequestHandlers i' = gRequestHandlers (io s)"
    by (subst l(6), simp add: i(1) f(3))+
  have r: "\<forall>b \<in> set as. intended i' (Some (a, t, d)) b = intended (io s) (filling s) b"
    using l(2,5) by (auto simp: intended_def f(1))
  have "set (left w as) \<subseteq> set as" for w
    by (cases as) (auto simp: left_def split: worker.splits)
  then have m: "map (intended i' (Some (a, t, d))) (left (wpc s) as) = map (intended (io s) (filling s)) (left (wpc s) as)"
    using r by (auto intro!: map_cong)
  have lf: "left (wpc s) (as @ [a]) = left (wpc s) as @ [a]"
    using assms(1) by (cases "wpc s") (auto simp: inv_at_def left_def)
  have "\<forall>x \<in> set (remove1 (t, d) (ready s)) \<union> set (order s @ [(t, d)]). handled i' x"
  proof -
    have "handled i' = handled (io s)" by (simp add: fun_eq_iff handled_def g(3))
    then show ?thesis using assms(1,2) set_remove1_subset [of "(t, d)" "ready s"] by (auto simp: inv_at_def)
  qed
  moreover have "order s @ [(t, d)] = taken s @ map (intended i' (Some (a, t, d))) (left (wpc s) (as @ [a]))"
    using assms(1) unfolding inv_at_def lf map_append m by (simp add: intended_def)
  moreover have "list_ok i' (Some (a, t, d)) (as @ [a])" using l(1-4) g(1) by (simp add: list_ok_def)
  moreover have "\<forall>b. wpc s = Running b \<longrightarrow> hd (as @ [a]) = b" using assms(1) by (auto simp: inv_at_def)
  ultimately show ?thesis using assms(1) g(2) by (simp add: inv_at_def)
qed

lemma inv_fill:
  assumes "inv_at s as" "filling s = Some (a, t, d)" "put_fill t d (Some a) (io s) = Inr i"
  shows "inv_at (s\<lparr>io := signalEnd i, filling := None, wakeup := True\<rparr>) as"
proof -
  from assms(1,2) obtain bs where b: "as = bs @ [a]" "seg (mem (io s)) (gReqList (io s)) bs (Some a)"
    "distinct (bs @ [a])" "gReqEnd (io s) = Some a" "dom (mem (io s)) = set (bs @ [a])" "gEndSema (io s) = 0"
    by (auto simp: inv_at_def list_ok_def)
  then obtain r where "mem (io s) a = Some r" by auto
  from put_fill_queue [OF this b(2-5), of t d] assms(3) have i: "queue i as"
    "map (request (mem i)) as = map (request (mem (io s))) bs @ [(t, d)]" "i = (io s)\<lparr>mem := mem i\<rparr>"
    by (auto simp: b(1))
  have g: "gEndSema i = 0" "gProcSema i = gProcSema (io s)" "gRequestHandlers i = gRequestHandlers (io s)"
    by (subst i(3), simp add: b(6))+
  have "map (intended (io s) (filling s)) as = map (request (mem i)) as"
    using b(3) by (simp add: i(2)) (auto simp: b(1) intended_def assms(2))
  then have "map (intended (io s) (filling s)) (left w as) = map (intended (signalEnd i) None) (left w as)" for w
    by (cases w; cases as) (auto simp: left_def intended_def signalEnd_def)
  moreover have "list_ok (signalEnd i) None as" using i(1) g(1) by (simp add: list_ok_def queue_def signalEnd_def)
  moreover have "handled (signalEnd i) = handled (io s)" by (simp add: fun_eq_iff handled_def signalEnd_def g(3))
  moreover have "gProcSema (signalEnd i) = gProcSema (io s)" by (simp add: signalEnd_def g(2))
  ultimately show ?thesis using assms(1) by (simp add: inv_at_def)
qed

lemma list_ok_proc:
  "list_ok (i\<lparr>gProcSema := n\<rparr>) = list_ok i" "intended (i\<lparr>gProcSema := n\<rparr>) = intended i" "handled (i\<lparr>gProcSema := n\<rparr>) = handled i"
  by (simp_all add: fun_eq_iff list_ok_def intended_def handled_def queue_def split: option.split)

lemma inv_wake:
  assumes "inv_at s as" "wpc s = Asleep" "waitProc (io s) = Inr i"
  shows "inv_at (s\<lparr>io := i, wpc := Looking, wakeup := False\<rparr>) as"
  using assms by (auto simp: inv_at_def waitProc_def list_ok_proc left_def split: if_splits)

lemma poke_handlers: "poke a f i = Inr j \<Longrightarrow> gRequestHandlers j = gRequestHandlers i"
  by (auto simp: poke_def bindR_Inr_iff)

lemma remove_loop_handlers: "remove_loop fuel t p q n i = Inr (m, j) \<Longrightarrow> gRequestHandlers j = gRequestHandlers i"
proof (induction fuel arbitrary: p q n i)
  case 0
  then show ?case by (cases p) simp_all
next
  case (Suc fuel)
  show ?case
  proof (cases p)
    case None
    then show ?thesis using Suc.prems by simp
  next
    case (Some a)
    obtain r where r: "deref i a = Inr r" using Suc.prems Some by (auto simp: bindR_Inr_iff)
    show ?thesis
    proof (cases "rtype r = t")
      case False
      then show ?thesis using Suc.prems Suc.IH Some r by simp
    next
      case True
      obtain k where k: "(case q of None \<Rightarrow> Inr i | Some l \<Rightarrow> poke l (\<lambda>x. x\<lparr>rnext := rnext r\<rparr>) i) = Inr k"
        using Suc.prems Some r True by (auto simp: bindR_Inr_iff)
      then have h: "gRequestHandlers k = gRequestHandlers i" by (auto dest: poke_handlers split: option.splits)
      from Suc.prems obtain i' q' n' where "remove_loop fuel t (rnext r) q' n' i' = Inr (m, j)" "gRequestHandlers i' = gRequestHandlers k"
        unfolding Some using r True k by (simp add: Let_def split: if_splits)
      then show ?thesis using Suc.IH h by metis
    qed
  qed
qed

lemma heap_remove_handlers: "heap_remove t i = Inr (n, j) \<Longrightarrow> gRequestHandlers j = gRequestHandlers i"
  by (auto simp: heap_remove_def ioRemoveRequests_def sema_defs bindR_Inr_iff dest!: remove_loop_handlers split: if_splits)

lemma inv_take:
  assumes "inv_at s as" "wpc s = Looking" "gReqList (io s) = Some a"
  shows "inv_at (s\<lparr>wpc := Running a, log := l, taken := taken s @ [intended (io s) (filling s) a], early := e\<rparr>) as"
proof -
  have "list_ok (io s) (filling s) as" using assms(1) by (simp add: inv_at_def)
  from list_ok_head [OF this] assms(3) obtain xs where as: "as = a # xs"
    by (cases as) simp_all
  then show ?thesis using assms(1,2) by (auto simp: inv_at_def left_def)
qed

lemma inv_done:
  assumes "inv_at s as" "wpc s = Running a" "worker_unlink a (io s) = Inr i"
  shows "inv_at (s\<lparr>io := i, wpc := Looking\<rparr>) (tl as)"
proof -
  have e: "0 < gEndSema (io s)"
    using assms(3) by (auto simp: worker_unlink_def waitEnd_def bindR_Inr_iff split: if_splits)
  then have f: "filling s = None" "queue (io s) as" "gEndSema (io s) = 1"
    using assms(1) by (auto simp: inv_at_def list_ok_def split: option.splits)
  have as: "as = a # tl as" using assms(1,2) by (cases as) (auto simp: inv_at_def)
  from worker_unlink_queue [of "io s" a "tl as"] f(2,3) as assms(3) have i: "queue i (tl as)"
    "map (request (mem i)) (tl as) = map (request (mem (io s))) (tl as)" "same_but_queue (io s) i" by auto
  have m: "map (intended i None) (tl as) = map (intended (io s) None) (tl as)"
    using i(2) by (simp add: intended_def)
  have "handled i = handled (io s)" by (simp add: fun_eq_iff handled_def same_but_queueD [OF i(3)])
  then show ?thesis
    using assms(1,2) i(1) m f same_but_queueD [OF i(3)] by (simp add: inv_at_def list_ok_def left_def)
qed

lemma inv_sleep:
  assumes "inv_at s as" "wpc s = Looking" "gReqList (io s) = None"
  shows "inv_at (s\<lparr>io := signalProc (io s), wpc := Asleep\<rparr>) as"
  using assms by (auto simp: inv_at_def signalProc_def list_ok_proc left_def)

lemma inv_count_lock:
  assumes "inv_at s as" "waitProc (io s) = Inr i"
  shows "inv_at (s\<lparr>io := i, counts := c, counting := Some (p, 0)\<rparr>) as"
  using assms by (auto simp: inv_at_def waitProc_def list_ok_proc split: if_splits)

lemma inv_count_done:
  assumes "inv_at s as" "counting s = Some x"
  shows "inv_at (s\<lparr>io := signalProc (io s), counting := None\<rparr>) as"
  using assms by (auto simp: inv_at_def signalProc_def list_ok_proc)

lemma inv_terminate: "inv_at s as \<Longrightarrow> inv_at (s\<lparr>io := ioEnd (io s), wakeup := True\<rparr>) as"
proof -
  have "list_ok (ioEnd (io s)) = list_ok (io s)" "intended (ioEnd (io s)) = intended (io s)" "handled (ioEnd (io s)) = handled (io s)"
    by (simp_all add: fun_eq_iff ioEnd_def list_ok_def intended_def handled_def queue_def split: option.split)
  then show "inv_at s as \<Longrightarrow> ?thesis" by (simp add: inv_at_def) (simp add: ioEnd_def)
qed

lemma inv_remove:
  assumes "inv_at s as" "heap_remove t (io s) = Inr (n, i)"
  shows "\<exists>bs. inv_at (s\<lparr>io := i, order := take (length (taken s)) (order s)
                    @ filter (\<lambda>x. fst x \<noteq> t) (drop (length (taken s)) (order s))\<rparr>) bs"
proof -
  have e: "0 < gProcSema (io s)" "0 < gEndSema (io s)"
    using assms(2) by (auto simp: heap_remove_def ioRemoveRequests_def sema_defs bindR_Inr_iff split: if_splits)
  then have f: "filling s = None" "queue (io s) as" "gEndSema (io s) = 1" "gProcSema (io s) = 1" "wpc s = Asleep" "counting s = None"
    using assms(1) by (cases "counting s"; auto simp: inv_at_def list_ok_def split: option.splits)+
  let ?xs = "map (request (mem (io s))) as"
  have "pending (io s) ?xs" using f(2) by (auto simp: pending_def)
  from ioRemoveRequests_pending [OF this f(4,3) le_refl, of t] assms(2) obtain bs where b:
    "queue i bs" "filter (\<lambda>x. fst x \<noteq> t) ?xs = map (request (mem i)) bs" "same_but_queue (io s) i"
    by (auto simp: heap_remove_def pending_def)
  have "handled i = handled (io s)" by (simp add: fun_eq_iff handled_def same_but_queueD [OF b(3)])
  moreover have o: "order s = taken s @ ?xs"
    using assms(1) f(1,5) by (simp add: inv_at_def left_def intended_def)
  have n: "intended i None = request (mem i)" by (simp add: fun_eq_iff intended_def)
  have "take (length (taken s)) (order s) @ filter (\<lambda>x. fst x \<noteq> t) (drop (length (taken s)) (order s)) =
      taken s @ map (intended i None) (left Asleep bs)" unfolding n using b(2) by (simp add: o left_def)
  moreover have "set (take (length (taken s)) (order s) @ filter (\<lambda>x. fst x \<noteq> t) (drop (length (taken s)) (order s))) \<subseteq> set (order s)"
    by (auto dest: in_set_takeD in_set_dropD)
  then have "\<forall>x \<in> set (ready s) \<union> set (take (length (taken s)) (order s)
       @ filter (\<lambda>x. fst x \<noteq> t) (drop (length (taken s)) (order s))). handled (io s) x" using assms(1) unfolding inv_at_def by blast
  ultimately have
    "take (length (taken s)) (order s) @ filter (\<lambda>x. fst x \<noteq> t) (drop (length (taken s)) (order s)) =
       taken s @ map (intended i None) (left Asleep bs)"
    "\<forall>x \<in> set (ready s) \<union> set (take (length (taken s)) (order s)
       @ filter (\<lambda>x. fst x \<noteq> t) (drop (length (taken s)) (order s))). handled i x" by simp_all
  then have "inv_at (s\<lparr>io := i, order := take (length (taken s)) (order s)
                    @ filter (\<lambda>x. fst x \<noteq> t) (drop (length (taken s)) (order s))\<rparr>) bs"
    using f b(1) same_but_queueD(2,3) [OF b(3)] by (simp add: inv_at_def list_ok_def)
  then show ?thesis by blast
qed

lemma inv_register:
  assumes "inv_at s as" "ioRegisterHandler t h (io s) = Inr (err, i)"
  shows "inv_at (s\<lparr>io := i\<rparr>) as"
proof -
  have "0 < gProcSema (io s)"
    using assms(2) by (auto simp: ioRegisterHandler_def waitProc_def bindR_Inr_iff split: if_splits)
  then have w: "wpc s = Asleep" "counting s = None" using assms(1) by (cases "counting s"; auto simp: inv_at_def)+
  have i: "mem i = mem (io s)" "gReqList i = gReqList (io s)" "gReqEnd i = gReqEnd (io s)"
    "gEndSema i = gEndSema (io s)" "gProcSema i \<le> 1" "set (gRequestHandlers (io s)) \<subseteq> set (gRequestHandlers i)"
    using assms by (auto simp: ioRegisterHandler_def sema_defs inv_at_def split: if_splits option.splits)
  have "list_ok i (filling s) as = list_ok (io s) (filling s) as"
    "intended i (filling s) = intended (io s) (filling s)"
    by (simp_all add: list_ok_def queue_def intended_def i fun_eq_iff split: option.split)
  moreover have "handled (io s) x \<Longrightarrow> handled i x" for x using i(6) by (auto simp: handled_def)
  ultimately show ?thesis using assms(1) w i(5) by (auto simp: inv_at_def)
qed

lemma inv_block: "inv_at s as \<Longrightarrow> inv_at (s\<lparr>io := (io s)\<lparr>isIOBlocked := b\<rparr>\<rparr>) as"
proof -
  let ?i = "(io s)\<lparr>isIOBlocked := b\<rparr>"
  have "list_ok ?i = list_ok (io s)" "intended ?i = intended (io s)" "handled ?i = handled (io s)"
    by (simp_all add: fun_eq_iff list_ok_def intended_def handled_def queue_def split: option.split)
  then show "inv_at s as \<Longrightarrow> ?thesis" by (simp add: inv_at_def)
qed

lemma inv_check:
  "inv_at s as \<Longrightarrow> ioGetHandler t (io s) \<noteq> None \<Longrightarrow> inv_at (s\<lparr>ready := ready s @ [(t, d)]\<rparr>) as"
  by (auto simp: inv_at_def handled_def ioGetHandler_def handler_loop_None)

lemma inv_frame: "inv_at s as \<Longrightarrow> inv_at (s\<lparr>counts := c\<rparr>) as" "inv_at s as \<Longrightarrow> counting s \<noteq> None \<Longrightarrow> inv_at (s\<lparr>counting := x\<rparr>) as"
  by (simp_all add: inv_at_def)

lemma inv_step: "step s s' \<Longrightarrow> inv_at s as \<Longrightarrow> \<not> ending (wpc s) \<Longrightarrow> ending (wpc s') \<or> (\<exists>as'. inv_at s' as')"
proof (induction rule: step.induct)
  case worker_take then show ?case using inv_take by blast
next
  case worker_sleep then show ?case using inv_sleep by (auto simp: ending_def)
qed (auto simp: ending_def intro: inv_check inv_link inv_fill inv_wake inv_done inv_remove inv_register inv_block inv_terminate
      inv_count_lock inv_count_done inv_frame)

lemma handlers_kept:
  assumes "step s s'" "handled (io s) x" shows "handled (io s') x"
  using assms
proof cases
  case (put_link t d i a junk i')
  then show ?thesis using assms(2) by (auto simp: handled_def waitEnd_def put_link_def poke_def deref_def Let_def split: if_splits option.splits)
next
  case (put_fill a t d i)
  then show ?thesis using assms(2) by (auto simp: handled_def signalEnd_def put_fill_def poke_def deref_def split: option.splits)
next
  case (worker_done a i)
  then show ?thesis using assms(2) by (auto simp: handled_def sema_defs worker_unlink_def deref_def Let_def split: option.splits if_splits)
next
  case (remove t n i)
  then show ?thesis using assms(2) by (auto simp: handled_def heap_remove_handlers)
next
  case (register t h err i)
  then show ?thesis using assms(2) by (auto simp: handled_def ioRegisterHandler_def sema_defs split: if_splits option.splits)
qed (auto simp: handled_def sema_defs ioEnd_def split: if_splits)

lemma seen_step:
  assumes "step s s'" "seen s" "\<not> ending (wpc s) \<longrightarrow> (\<exists>as. inv_at s as)"
  shows "seen s'"
proof -
  have h: "\<forall>x. handled (io s) x \<longrightarrow> handled (io s') x" using handlers_kept [OF assms(1)] by blast
  show ?thesis using assms(1)
  proof cases
    case (worker_take a r)
    then obtain as where inv: "inv_at s as" using assms(3) by (auto simp: ending_def)
    then have ok: "list_ok (io s) (filling s) as" by (simp add: inv_at_def)
    from list_ok_head [OF ok] worker_take obtain xs where as: "as = a # xs" by (cases as) simp_all
    have o: "order s = taken s @ [intended (io s) (filling s) a] @ map (intended (io s) (filling s)) xs"
      using inv worker_take by (simp add: inv_at_def left_def as)
    have "map_option fst (filling s) \<noteq> Some a \<Longrightarrow> intended (io s) (filling s) a = (rtype r, data r)"
      using worker_take by (auto simp: intended_def deref_Inr_iff request_def split: option.split)
    then show ?thesis using assms(2) o inv worker_take
      by (auto simp: seen_def inv_at_def nth_append less_Suc_eq)
  next
    case (put_link t d i a junk i')
    then show ?thesis using assms(2) h by (auto simp: seen_def)
  next
    case (remove t n i)
    then show ?thesis using assms(2) h by (auto simp: seen_def)
  qed (use assms(2) h in \<open>auto simp: seen_def\<close>)
qed

lemma ending_step: "step s s' \<Longrightarrow> ending (wpc s) \<Longrightarrow> ending (wpc s')"
  by (induction rule: step.induct) (auto simp: ending_def)

lemma reach_inv:
  assumes "reach s s'" "inv_at s as" "seen s" "\<not> ending (wpc s)"
  shows "seen s' \<and> (\<not> ending (wpc s') \<longrightarrow> (\<exists>as. inv_at s' as))"
  using assms
proof (induction rule: reach.induct)
  case (reach_step s t u)
  then show ?case using seen_step [of t u] inv_step [of t u] ending_step [of t u] by blast
qed auto

lemma start_seen: "seen (start i)" "\<not> ending (wpc (start i))"
  by (simp_all add: seen_def start_def ending_def)

subsection \<open>Properties\<close>

text \<open>
  C6. First in, first out under every interleaving: the requests that the worker has processed are a prefix of what was put (less what was
  removed), each with a registered handler and each as it was put, unless the worker took it before the put had filled it; and until the
  worker ends, nothing is left over when the queue is empty, and while it sleeps the rest is exactly the list in the heap.
\<close>
theorem io_threads_fifo:
  assumes "implements i a" "waiting a = []" "reach (start i) s"
  shows "\<exists>xs. order s = taken s @ xs \<and> length (log s) = length (taken s)
      \<and> (\<forall>k < length (log s). k \<notin> early s \<longrightarrow> log s ! k = taken s ! k)
      \<and> (\<forall>x \<in> set (taken s). ioGetHandler (fst x) (io s) \<noteq> None)
      \<and> (\<not> ending (wpc s) \<and> gReqList (io s) = None \<longrightarrow> xs = [])
      \<and> (filling s = None \<and> wpc s = Asleep \<longrightarrow> pending (io s) xs)"
proof -
  note inv = reach_inv [OF assms(3) inv_start [OF assms(1,2)] start_seen]
  then have o: "length (log s) = length (taken s)" "\<forall>k < length (log s). k \<notin> early s \<longrightarrow> log s ! k = taken s ! k"
      "\<exists>xs. order s = taken s @ xs" "\<forall>x \<in> set (taken s). ioGetHandler (fst x) (io s) \<noteq> None"
    by (auto simp: seen_def handled_def ioGetHandler_def handler_loop_None)
  show ?thesis
  proof (cases "ending (wpc s)")
    case True
    then show ?thesis using o by (auto simp: ending_def)
  next
    case False
    then obtain as where as: "inv_at s as" using inv by blast
    let ?xs = "map (intended (io s) (filling s)) (left (wpc s) as)"
    have "gReqList (io s) = None \<longrightarrow> ?xs = []"
      using as list_ok_head [of "io s" "filling s" as] by (auto simp: inv_at_def left_def split: if_splits worker.splits)
    moreover have "filling s = None \<and> wpc s = Asleep \<longrightarrow> pending (io s) ?xs"
      using as by (auto simp: inv_defs pending_def)
    moreover have "order s = taken s @ ?xs" using as by (simp add: inv_at_def)
    ultimately show ?thesis using o by (intro exI [of _ ?xs] conjI) auto
  qed
qed

text \<open>
  C7. Until the worker ends, no interleaving makes a put, a removal or the worker touch freed memory: in every reachable state
  the head request can be read, the put that is under way can fill its block, the
  worker can unlink the request it is processing and a removal can walk the list.  (A count can touch freed memory,
  \<open>pending_count_faults\<close>, and so can a put once the worker drains the list, \<open>drain_faults\<close>.)
\<close>
theorem io_threads_no_fault:
  assumes "implements i a" "waiting a = []" "reach (start i) s" "\<not> ending (wpc s)"
  shows "(\<forall>p. gReqList (io s) = Some p \<longrightarrow> (\<exists>r. deref (io s) p = Inr r))
      \<and> (\<forall>p t d. filling s = Some (p, t, d) \<longrightarrow> (\<exists>j. put_fill t d (Some p) (io s) = Inr j))
      \<and> (\<forall>p e. wpc s = Running p \<longrightarrow> worker_unlink p (io s) \<noteq> Inl (Fault e))
      \<and> (\<forall>t e. heap_remove t (io s) \<noteq> Inl (Fault e))
      \<and> (\<forall>p junk i e. waitEnd (io s) = Inr i \<longrightarrow> put_link (Some (p, junk)) i \<noteq> Inl (Fault e))"
proof -
  obtain as where inv: "inv_at s as" using reach_inv [OF assms(3) inv_start [OF assms(1,2)] start_seen] assms(4) by blast
  then have ok: "list_ok (io s) (filling s) as" by (simp add: inv_at_def)
  have head: "gReqList (io s) = Some p \<Longrightarrow> p \<in> set as" for p
    using list_ok_head [OF ok] by (cases as) auto
  have "\<exists>r. deref (io s) p = Inr r" if "gReqList (io s) = Some p" for p
    using list_ok_mem [OF ok head [OF that]] by (auto simp: deref_def)
  moreover have "\<exists>j. put_fill t d (Some p) (io s) = Inr j" if "filling s = Some (p, t, d)" for p t d
  proof -
    have "p \<in> set as" using ok that by (auto simp: list_ok_def)
    from list_ok_mem [OF ok this] show ?thesis by (auto simp: put_fill_def poke_def deref_def)
  qed
  moreover have "worker_unlink p (io s) \<noteq> Inl (Fault e)" if "wpc s = Running p" for p e
  proof -
    have "p \<in> set as" using inv that by (cases as) (auto simp: inv_at_def)
    from list_ok_mem [OF ok this] show ?thesis by (auto simp: worker_unlink_def waitEnd_def deref_def Let_def)
  qed
  moreover have "heap_remove t (io s) \<noteq> Inl (Fault e)" for t e
  proof (cases "gProcSema (io s) = 0 \<or> gEndSema (io s) = 0")
    case True
    then show ?thesis by (auto simp: heap_remove_def ioRemoveRequests_def sema_defs)
  next
    case False
    then have "filling s = None" "gProcSema (io s) = 1" "gEndSema (io s) = 1" "queue (io s) as"
      using inv by (auto simp: inv_at_def list_ok_def split: option.splits)
    moreover from this have "pending (io s) (map (request (mem (io s))) as)" by (auto simp: pending_def)
    ultimately show ?thesis
      using ioRemoveRequests_pending [of "io s" _ "card (dom (mem (io s)))" t] by (fastforce simp: heap_remove_def)
  qed
  moreover have "put_link (Some (p, junk)) i \<noteq> Inl (Fault e)" if "waitEnd (io s) = Inr i" for p junk i e
  proof -
    have i: "i = (io s)\<lparr>gEndSema := gEndSema (io s) - 1\<rparr>" "0 < gEndSema (io s)" using that by (auto simp: waitEnd_def split: if_splits)
    then have "queue (io s) as" using ok by (auto simp: list_ok_def split: option.splits)
    then have "\<exists>r. mem (io s) x = Some r" if "gReqEnd (io s) = Some x" for x
      using that by (cases as rule: rev_cases) (auto simp: queue_def)
    then show ?thesis by (auto simp: i(1) put_link_def poke_def deref_def Let_def split: option.splits)
  qed
  ultimately show ?thesis by blast
qed

text \<open>
  A state in which a failed registration has taken the semaphore of a sleeping worker:
  the worker never runs again.
\<close>

definition stuck :: "('h, 'd) threads \<Rightarrow> bool" where
  "stuck s \<longleftrightarrow> ending (wpc s) \<or> wpc s = Asleep \<and> gProcSema (io s) = 0 \<and> counting s = None"

lemma put_link_gProcSema: "put_link p i = Inr (q, i') \<Longrightarrow> gProcSema i' = gProcSema i"
  by (auto simp: put_link_def poke_def deref_def Let_def split: option.splits)

lemma put_fill_gProcSema: "put_fill t d q i = Inr i' \<Longrightarrow> gProcSema i' = gProcSema i"
  by (auto simp: put_fill_def poke_def deref_def split: option.splits)

lemma stuck_step: "step s s' \<Longrightarrow> stuck s \<Longrightarrow> stuck s' \<and> log s' = log s"
  by (induction rule: step.induct)
    (auto simp: stuck_def ending_def ioEnd_def sema_defs heap_remove_def ioRemoveRequests_def ioRegisterHandler_def
      split: if_splits dest!: put_link_gProcSema put_fill_gProcSema)

lemma stuck_reach: "reach s s' \<Longrightarrow> stuck s \<Longrightarrow> stuck s' \<and> log s' = log s"
  by (induction rule: reach.induct) (auto dest: stuck_step)

text \<open>
  After a registration that returned an error, no request is ever processed again,
  whatever the threads do.
\<close>
theorem register_failure_stops_worker:
  assumes "implements i a" "waiting a = []" "reach (start i) s"
    and "ioRegisterHandler t h (io s) = Inr (err, j)" "err \<noteq> IO_OK" "reach (s\<lparr>io := j\<rparr>) s'"
  shows "log s' = log s \<and> (wpc s' = Asleep \<or> ending (wpc s'))"
proof -
  have "0 < gProcSema (io s) \<and> gProcSema j = gProcSema (io s) - 1"
    using assms(4,5) by (auto simp: ioRegisterHandler_def waitProc_def split: if_splits option.splits)
  moreover have "\<not> ending (wpc s) \<longrightarrow> (\<exists>as. inv_at s as)" using reach_inv [OF assms(3) inv_start [OF assms(1,2)] start_seen] by blast
  ultimately have "stuck (s\<lparr>io := j\<rparr>)" by (cases "counting s"; auto simp: stuck_def inv_at_def)
  from stuck_reach [OF assms(6) this] show ?thesis by (auto simp: stuck_def)
qed

text \<open>
  \<open>ioBlockOps(1)\<close> returns when the flag is set and the queue is empty.  If no put was past its
  checks at that moment, then as long as the flag stays set no put gets in and the
  worker processes nothing.
\<close>
theorem blocked_quiet:
  assumes "isIOBlocked (io s)" "ready s = []" "filling s = None" "ioHasPendingRequests (io s) = 0"
    and "gReqEnd (io s) = None" "step s s'" "isIOBlocked (io s')" "\<forall>p. wpc s \<noteq> Running p"
  shows "log s' = log s \<and> ready s' = [] \<and> filling s' = None \<and> ioHasPendingRequests (io s') = 0
      \<and> gReqEnd (io s') = None \<and> (\<forall>p. wpc s' \<noteq> Running p)"
proof -
  have e: "gReqList (io s) = None" using assms(4) by (simp add: ioHasPendingRequests_def split: if_splits)
  show ?thesis
    using assms(6,1-5,7,8) e
  proof cases
    case (remove t n i)
    then show ?thesis using e assms(2-5,8)
      by (auto simp: heap_remove_def ioRemoveRequests_def sema_defs ioHasPendingRequests_def split: if_splits)
  next
    case (register t h err i)
    then show ?thesis using e assms(2-5,8)
      by (auto simp: ioRegisterHandler_def sema_defs ioHasPendingRequests_def split: if_splits option.splits)
  qed (auto simp: waitProc_def signalProc_def ioEnd_def ioHasPendingRequests_def split: if_splits)
qed

subsection \<open>Runs\<close>

text \<open>A run in which one request is put and processed.\<close>

definition io_junk :: "nat io_request" where
  "io_junk = \<lparr>rtype = 99, data = 4095, rnext = Some 77\<rparr>"

definition st_served :: "(char, nat) threads" where
  "st_served = (start (io_demo\<lparr>mem := [0 \<mapsto> \<lparr>rtype = 7, data = 10, rnext = None\<rparr>],
      gReqList := Some 0, gReqEnd := Some 0, gProcSema := 0\<rparr>))
     \<lparr>wpc := Running 0, log := [(7, 10)], order := [(7, 10)], taken := [(7, 10)]\<rparr>"

lemmas run_simps = start_def io_demo_def io_junk_def sema_defs put_link_def put_fill_def poke_def deref_def
  ioGetHandler_def worker_unlink_def intended_def request_def ioEnd_def Let_def

lemma reach_served: "reach (start io_demo) st_served"
proof -
  let ?i1 = "io_demo\<lparr>mem := [0 \<mapsto> io_junk], gReqList := Some 0, gReqEnd := Some 0, gEndSema := 0\<rparr>"
  let ?i2 = "?i1\<lparr>mem := [0 \<mapsto> \<lparr>rtype = 7, data = 10, rnext = None\<rparr>]\<rparr>"
  let ?s1 = "(start io_demo)\<lparr>ready := ready (start io_demo) @ [(7, 10)]\<rparr>"
  let ?s2 = "?s1\<lparr>io := ?i1, ready := remove1 (7, 10) (ready ?s1), filling := Some (0, 7, 10), order := order ?s1 @ [(7, 10)]\<rparr>"
  let ?s3 = "?s2\<lparr>io := signalEnd ?i2, filling := None, wakeup := True\<rparr>"
  let ?s4 = "?s3\<lparr>io := (io ?s3)\<lparr>gProcSema := 0\<rparr>, wpc := Looking, wakeup := False\<rparr>"
  let ?s5 = "?s4\<lparr>wpc := Running 0, log := log ?s4 @ [(7, 10)], taken := taken ?s4 @ [intended (io ?s4) (filling ?s4) 0],
      early := (if map_option fst (filling ?s4) = Some 0 then insert (length (log ?s4)) (early ?s4) else early ?s4)\<rparr>"
  have "reach (start io_demo) ?s1"
    by (rule reach_step [OF reach_refl _ put_check]) (simp_all add: run_simps)
  then have "reach (start io_demo) ?s2"
    by (rule reach_step [OF _ _ put_link [where i = "io_demo\<lparr>gEndSema := 0\<rparr>" and junk = io_junk]])
      (simp_all add: run_simps)
  then have "reach (start io_demo) ?s3"
    by (rule reach_step [OF _ _ put_fill [where a = 0 and t = 7 and d = 10]]) (simp_all add: run_simps)
  then have "reach (start io_demo) ?s4"
    by (rule reach_step [OF _ _ worker_wake]) (simp_all add: run_simps)
  then have "reach (start io_demo) ?s5"
    by (rule reach_step [OF _ _ worker_take [where r = "\<lparr>rtype = 7, data = 10, rnext = None\<rparr>",
          unfolded io_request.select_convs]]) (simp_all add: run_simps)
  then show ?thesis by (simp add: st_served_def run_simps)
qed

lemma demo_implements:
  "implements io_demo \<lparr>waiting = [], table = [(7, CHR ''h'')], blocked = False\<rparr>"
  by (simp add: implements_def pending_def queue_def io_demo_def)

theorem io_threads_fifo_witness:
  "\<exists>xs. order st_served = taken st_served @ xs \<and> length (log st_served) = length (taken st_served)
      \<and> (\<forall>k < length (log st_served). k \<notin> early st_served \<longrightarrow> log st_served ! k = taken st_served ! k)
      \<and> (\<forall>x \<in> set (taken st_served). ioGetHandler (fst x) (io st_served) \<noteq> None)
      \<and> (\<not> ending (wpc st_served) \<and> gReqList (io st_served) = None \<longrightarrow> xs = [])
      \<and> (filling st_served = None \<and> wpc st_served = Asleep \<longrightarrow> pending (io st_served) xs)"
  by (rule io_threads_fifo [OF demo_implements _ reach_served]) simp

theorem io_threads_no_fault_witness:
  "wpc st_served = Running 0 \<and> (\<forall>e. worker_unlink 0 (io st_served) \<noteq> Inl (Fault e))"
proof -
  have "wpc st_served = Running 0" by (simp add: st_served_def)
  with io_threads_no_fault [OF demo_implements _ reach_served] show ?thesis by (simp add: ending_def)
qed

theorem register_failure_stops_worker_witness:
  "\<exists>j. ioRegisterHandler 7 None io_demo = Inr (IO_ERR_INVALID_HANDLER, j)
      \<and> log ((start io_demo)\<lparr>io := j\<rparr>) = [] \<and> wpc ((start io_demo)\<lparr>io := j\<rparr>) = Asleep"
proof -
  let ?j = "io_demo\<lparr>gProcSema := 0\<rparr>"
  have j: "ioRegisterHandler 7 None io_demo = Inr (IO_ERR_INVALID_HANDLER, ?j)"
    by (simp add: ioRegisterHandler_def waitProc_def io_demo_def)
  then have "ioRegisterHandler 7 None (io (start io_demo)) = Inr (IO_ERR_INVALID_HANDLER, ?j)"
    by (simp add: start_def)
  from register_failure_stops_worker [OF demo_implements _ reach_refl this _ reach_refl]
  have "log ((start io_demo)\<lparr>io := ?j\<rparr>) = log (start io_demo) \<and> (wpc ((start io_demo)\<lparr>io := ?j\<rparr>) = Asleep \<or> ending (wpc ((start io_demo)\<lparr>io := ?j\<rparr>)))"
    by (simp add: io_codes)
  with j show ?thesis by (simp add: start_def)
qed

theorem blocked_quiet_witness:
  "let s = start (io_demo\<lparr>isIOBlocked := True\<rparr>); s' = s\<lparr>io := (io s)\<lparr>isIOBlocked := True\<rparr>\<rparr>
   in log s' = log s \<and> ioHasPendingRequests (io s') = 0"
proof -
  let ?s = "start (io_demo\<lparr>isIOBlocked := True\<rparr>)"
  let ?t = "?s\<lparr>io := (io ?s)\<lparr>isIOBlocked := True\<rparr>\<rparr>"
  have "step ?s ?t" by (rule set_block)
  then have "log ?t = log ?s \<and> ready ?t = [] \<and> filling ?t = None \<and> ioHasPendingRequests (io ?t) = 0
      \<and> gReqEnd (io ?t) = None \<and> (\<forall>p. wpc ?t \<noteq> Running p)"
    by (intro blocked_quiet) (simp_all add: start_def io_demo_def ioHasPendingRequests_def)
  then show ?thesis by (simp add: Let_def)
qed

text \<open>
  A put that was past its checks when \<open>ioBlockOps(1)\<close> returned still gets in: the flag is set and
  the queue is empty, and afterwards a request is queued and processed.
\<close>

lemma block_race:
  "\<exists>s s'. reach (start io_demo) s \<and> isIOBlocked (io s) \<and> ioHasPendingRequests (io s) = 0
     \<and> step s s' \<and> isIOBlocked (io s') \<and> ioHasPendingRequests (io s') = 1"
proof -
  let ?s1 = "(start io_demo)\<lparr>ready := ready (start io_demo) @ [(7, 10)]\<rparr>"
  let ?s2 = "?s1\<lparr>io := (io ?s1)\<lparr>isIOBlocked := True\<rparr>\<rparr>"
  let ?i = "(io ?s2)\<lparr>mem := [0 \<mapsto> io_junk], gReqList := Some 0, gReqEnd := Some 0, gEndSema := 0\<rparr>"
  let ?s3 = "?s2\<lparr>io := ?i, ready := remove1 (7, 10) (ready ?s2), filling := Some (0, 7, 10), order := order ?s2 @ [(7, 10)]\<rparr>"
  have "reach (start io_demo) ?s1"
    by (rule reach_step [OF reach_refl _ put_check]) (simp_all add: run_simps)
  then have "reach (start io_demo) ?s2" by (rule reach_step [OF _ _ set_block]) (simp add: run_simps)
  moreover have "step ?s2 ?s3"
    by (rule put_link [where i = "(io ?s2)\<lparr>gEndSema := 0\<rparr>" and junk = io_junk]) (simp_all add: run_simps)
  moreover have "isIOBlocked (io ?s2) \<and> ioHasPendingRequests (io ?s2) = 0 \<and> isIOBlocked (io ?s3)
      \<and> ioHasPendingRequests (io ?s3) = 1"
    by (simp add: run_simps ioHasPendingRequests_def)
  ultimately show ?thesis by blast
qed

text \<open>
  The worker looks at \<open>gReqList\<close> without \<open>gEndSemaId\<close>: if a put into the empty queue is interrupted
  between linking and filling its block, the worker takes the block as the allocator left it.
\<close>

lemma unfilled_block_processed:
  "\<exists>s. reach (start io_demo) s \<and> early s = {1} \<and> log s = [(7, 10), (99, 4095)] \<and> order s = [(7, 10), (7, 20)]"
proof -
  let ?i1 = "(io st_served)\<lparr>mem := Map.empty, gReqList := None, gReqEnd := None\<rparr>"
  let ?s1 = "st_served\<lparr>io := ?i1, wpc := Looking\<rparr>"
  let ?s2 = "?s1\<lparr>ready := ready ?s1 @ [(7, 20)]\<rparr>"
  let ?i3 = "?i1\<lparr>mem := [0 \<mapsto> io_junk], gReqList := Some 0, gReqEnd := Some 0, gEndSema := 0\<rparr>"
  let ?s3 = "?s2\<lparr>io := ?i3, ready := remove1 (7, 20) (ready ?s2), filling := Some (0, 7, 20), order := order ?s2 @ [(7, 20)]\<rparr>"
  let ?s4 = "?s3\<lparr>wpc := Running 0, log := log ?s3 @ [(rtype io_junk, data io_junk)], taken := taken ?s3 @ [intended (io ?s3) (filling ?s3) 0],
      early := (if map_option fst (filling ?s3) = Some 0 then insert (length (log ?s3)) (early ?s3) else early ?s3)\<rparr>"
  have "reach (start io_demo) ?s1"
    by (rule reach_step [OF reach_served _ worker_done [where a = 0]]) (simp_all add: st_served_def run_simps)
  then have "reach (start io_demo) ?s2"
    by (rule reach_step [OF _ _ put_check]) (simp_all add: st_served_def run_simps)
  then have "reach (start io_demo) ?s3"
    by (rule reach_step [OF _ _ put_link [where i = "?i1\<lparr>gEndSema := 0\<rparr>" and junk = io_junk]])
      (simp_all add: st_served_def run_simps)
  then have "reach (start io_demo) ?s4"
    by (rule reach_step [OF _ _ worker_take [where r = io_junk and a = 0]])
      (simp_all add: st_served_def run_simps)
  moreover have "early ?s4 = {1} \<and> log ?s4 = [(7, 10), (99, 4095)] \<and> order ?s4 = [(7, 10), (7, 20)]"
    by (simp add: st_served_def run_simps)
  ultimately show ?thesis by blast
qed

text \<open>
  \<open>ioGetPendingRequestCount\<close> reads \<open>gReqList\<close> before it waits for \<open>gProcSemaId\<close>, which the worker holds while it frees blocks: the
  count then starts at a block that is gone.
\<close>

lemma pending_count_faults:
  "\<exists>s p n. reach (start io_demo) s \<and> \<not> ending (wpc s) \<and> counting s = Some (Some p, n) \<and> deref (io s) p = Inl (Fault UseAfterFree)"
proof -
  let ?s1 = "st_served\<lparr>counts := counts st_served @ [gReqList (io st_served)]\<rparr>"
  let ?i2 = "(io st_served)\<lparr>mem := Map.empty, gReqList := None, gReqEnd := None\<rparr>"
  let ?s2 = "?s1\<lparr>io := ?i2, wpc := Looking\<rparr>"
  let ?s3 = "?s2\<lparr>io := signalProc ?i2, wpc := Asleep\<rparr>"
  let ?s4 = "?s3\<lparr>io := ?i2, counts := remove1 (Some 0) (counts ?s3), counting := Some (Some 0, 0)\<rparr>"
  have "reach (start io_demo) ?s1" by (rule reach_step [OF reach_served _ count_head]) (simp add: st_served_def)
  then have "reach (start io_demo) ?s2"
    by (rule reach_step [OF _ _ worker_done [where a = 0]]) (simp_all add: st_served_def run_simps)
  then have "reach (start io_demo) ?s3"
    using reach_step [OF _ _ worker_sleep, of "start io_demo" ?s2] by (simp add: st_served_def run_simps)
  then have "reach (start io_demo) ?s4"
    by (rule reach_step [OF _ _ count_lock [where p = "Some 0"]]) (simp_all add: st_served_def run_simps)
  moreover have "deref (io ?s4) 0 = Inl (Fault UseAfterFree)" "\<not> ending (wpc ?s4)" by (simp_all add: deref_def ending_def)
  ultimately show ?thesis by (intro exI [of _ ?s4] exI [of _ 0] exI [of _ 0]) simp
qed

text \<open>
  At its end the worker drains the list without a lock: it frees the block of a put that is being filled, and goes on at what that block
  held before.
\<close>

lemma drain_faults:
  "\<exists>s p t d. reach (start io_demo) s \<and> wpc s = Draining \<and> filling s = Some (p, t, d) \<and> put_fill t d (Some p) (io s) = Inl (Fault UseAfterFree)
     \<and> (\<exists>q. gReqList (io s) = Some q \<and> deref (io s) q = Inl (Fault UseAfterFree))"
proof -
  let ?i1 = "io_demo\<lparr>mem := [0 \<mapsto> io_junk], gReqList := Some 0, gReqEnd := Some 0, gEndSema := 0\<rparr>"
  let ?s1 = "(start io_demo)\<lparr>ready := ready (start io_demo) @ [(7, 10)]\<rparr>"
  let ?s2 = "?s1\<lparr>io := ?i1, ready := remove1 (7, 10) (ready ?s1), filling := Some (0, 7, 10), order := order ?s1 @ [(7, 10)]\<rparr>"
  let ?s3 = "?s2\<lparr>io := ioEnd (io ?s2), wakeup := True\<rparr>"
  let ?s4 = "?s3\<lparr>wpc := Draining, wakeup := False\<rparr>"
  let ?s5 = "?s4\<lparr>io := (io ?s4)\<lparr>gReqList := rnext io_junk, mem := (mem (io ?s4))(0 := None)\<rparr>\<rparr>"
  have "reach (start io_demo) ?s1" by (rule reach_step [OF reach_refl _ put_check]) (simp_all add: run_simps)
  then have "reach (start io_demo) ?s2"
    by (rule reach_step [OF _ _ put_link [where i = "io_demo\<lparr>gEndSema := 0\<rparr>" and junk = io_junk]]) (simp_all add: run_simps)
  then have "reach (start io_demo) ?s3" by (rule reach_step [OF _ _ terminate]) (simp add: run_simps)
  then have "reach (start io_demo) ?s4" by (rule reach_step [OF _ _ worker_leave]) (simp_all add: run_simps)
  then have "reach (start io_demo) ?s5" by (rule reach_step [OF _ _ worker_drain [where a = 0 and r = io_junk]]) (simp_all add: run_simps)
  moreover have "put_fill 7 10 (Some 0) (io ?s5) = Inl (Fault UseAfterFree)" "deref (io ?s5) 77 = Inl (Fault UseAfterFree)" "gReqList (io ?s5) = Some 77"
    by (simp_all add: run_simps)
  ultimately show ?thesis by (intro exI [of _ ?s5] exI [of _ 0] exI [of _ 7] exI [of _ 10]) auto
qed

end
