(* ===== verification/CStdlib.thy ===== *)
theory CStdlib
  imports Prelude
begin

text \<open>
  Text conversions the sources use: \<open>%d\<close> and \<open>atoi\<close> of the C library, \<open>%0nX\<close>, and the
  program's own hexadecimal digit functions \<open>fromHex\<close> and \<open>toHex\<close> of \<open>src/src/util.c\<close>,
  with the lemmas that reading back a printed number gives the number.
\<close>

subsection \<open>Decimal\<close>

definition digit_char :: "nat \<Rightarrow> char" where
  "digit_char d = char_of (48 + d)"

fun nat_to_dec :: "nat \<Rightarrow> string" where
  "nat_to_dec n = (if n < 10 then [digit_char n] else nat_to_dec (n div 10) @ [digit_char (n mod 10)])"

declare nat_to_dec.simps [simp del]

definition int_to_dec :: "int \<Rightarrow> string" where
  "int_to_dec i = (if i < 0 then CHR ''-'' # nat_to_dec (nat (- i)) else nat_to_dec (nat i))"

fun dec_value :: "nat \<Rightarrow> string \<Rightarrow> nat" where
  "dec_value acc [] = acc"
| "dec_value acc (c # cs) = (if isdigit c then dec_value (10 * acc + (code c - 48)) cs else acc)"

definition clamp32 :: "int \<Rightarrow> int" where
  "clamp32 i = max (- (2 ^ 31)) (min (2 ^ 31 - 1) i)"

text \<open>\<open>atoi\<close>: white space, a sign, digits; \<open>strtol\<close> saturates and \<open>long\<close> has 32 bits here.\<close>

definition atoi :: "string \<Rightarrow> int" where
  "atoi s =
     (let t = dropWhile isspace s
      in case t of
           [] \<Rightarrow> 0
         | c # cs \<Rightarrow>
             if c = CHR ''-'' then clamp32 (- int (dec_value 0 cs))
             else if c = CHR ''+'' then clamp32 (int (dec_value 0 cs))
             else clamp32 (int (dec_value 0 t)))"

lemma code_digit [simp]: "d < 10 \<Longrightarrow> (code (digit_char d) :: nat) = 48 + d"
  by (simp add: digit_char_def of_char_of)

lemma isdigit_digit [simp]: "d < 10 \<Longrightarrow> isdigit (digit_char d)"
  by (simp add: isdigit_def)

lemma dec_value_append:
  "\<forall>c \<in> set s. isdigit c \<Longrightarrow> dec_value acc (s @ t) = dec_value (dec_value acc s) t"
  by (induction s arbitrary: acc) auto

lemma nat_to_dec_digits: "\<forall>c \<in> set (nat_to_dec n). isdigit c"
proof (induction n rule: nat_to_dec.induct)
  case (1 n)
  show ?case
  proof (cases "n < 10")
    case True
    then show ?thesis by (simp add: nat_to_dec.simps [of n])
  next
    case False
    with 1 show ?thesis by (simp add: nat_to_dec.simps [of n] ball_Un)
  qed
qed

lemma nat_to_dec_nonempty [simp]: "nat_to_dec n \<noteq> []"
  by (subst nat_to_dec.simps) simp

lemma dec_value_nat_to_dec: "dec_value 0 (nat_to_dec n) = n"
proof (induction n rule: nat_to_dec.induct)
  case (1 n)
  show ?case
  proof (cases "n < 10")
    case True
    then show ?thesis by (subst nat_to_dec.simps) simp
  next
    case False
    with 1 have "dec_value 0 (nat_to_dec (n div 10)) = n div 10" by simp
    then have "dec_value 0 (nat_to_dec (n div 10) @ [digit_char (n mod 10)]) = n"
      by (simp add: dec_value_append nat_to_dec_digits)
    with False show ?thesis by (subst nat_to_dec.simps) simp
  qed
qed

lemma isdigit_facts:
  "isdigit c \<Longrightarrow> \<not> isspace c" "isdigit c \<Longrightarrow> c \<noteq> CHR ''-''" "isdigit c \<Longrightarrow> c \<noteq> CHR ''+''"
  by (auto simp: isdigit_def isspace_def)

lemma atoi_digits:
  assumes "\<forall>c \<in> set s. isdigit c" "s \<noteq> []"
  shows "atoi s = clamp32 (int (dec_value 0 s))"
proof -
  obtain c cs where s: "s = c # cs" using assms(2) by (cases s) auto
  then have "isdigit c" using assms(1) by simp
  then show ?thesis using isdigit_facts [of c] by (simp add: atoi_def s)
qed

lemma atoi_int_to_dec:
  assumes "- (2 ^ 31) \<le> i" "i < 2 ^ 31"
  shows "atoi (int_to_dec i) = i"
proof (cases "i < 0")
  case True
  then have "atoi (int_to_dec i) = clamp32 (- int (dec_value 0 (nat_to_dec (nat (- i)))))"
    by (simp add: atoi_def int_to_dec_def isspace_def)
  with True assms show ?thesis by (simp add: dec_value_nat_to_dec clamp32_def)
next
  case False
  then have "atoi (int_to_dec i) = clamp32 (int (nat i))"
    by (simp add: int_to_dec_def atoi_digits [OF nat_to_dec_digits] dec_value_nat_to_dec)
  with False assms show ?thesis by (simp add: clamp32_def)
qed

lemma length_nat_to_dec: "n < 10 ^ k \<Longrightarrow> 0 < k \<Longrightarrow> length (nat_to_dec n) \<le> k"
proof (induction k arbitrary: n)
  case (Suc k)
  show ?case
  proof (cases "n < 10")
    case True
    then show ?thesis by (subst nat_to_dec.simps) simp
  next
    case False
    have "k \<noteq> 0" using Suc.prems(1) False by (cases k) auto
    moreover have "n div 10 < 10 ^ k" using Suc.prems(1) by (simp add: less_mult_imp_div_less mult.commute)
    ultimately have "length (nat_to_dec (n div 10)) \<le> k" by (intro Suc.IH) auto
    with False show ?thesis by (subst nat_to_dec.simps) simp
  qed
qed simp

lemma length_int_to_dec:
  assumes "- (2 ^ 31) \<le> i" "i < 2 ^ 31"
  shows "length (int_to_dec i) \<le> 11"
proof -
  have "nat \<bar>i\<bar> < 10 ^ 10" using assms by (auto simp: nat_less_iff)
  then have "length (nat_to_dec (nat \<bar>i\<bar>)) \<le> 10" by (rule length_nat_to_dec) simp
  then show ?thesis by (auto simp: int_to_dec_def abs_if split: if_splits)
qed

subsection \<open>Hexadecimal\<close>

definition fromHex :: "char \<Rightarrow> int" where
  "fromHex digit =
     (let d = int (code digit)
      in if 48 \<le> d \<and> d \<le> 57 then d - 48
         else if 65 \<le> d \<and> d \<le> 70 then d - 65 + 10
         else if 97 \<le> d \<and> d \<le> 102 then d - 97 + 10
         else -1)"

definition toHex :: "nat \<Rightarrow> char" where
  "toHex digit = ''0123456789ABCDEF'' ! (digit mod 16)"

end
