(* ===== verification/FileBuffer.thy ===== *)
theory FileBuffer
  imports Prelude
begin

text \<open>
  The buffered line reader and writer of \<open>src/src/util.c\<close>: \<open>file_buffer_t\<close> with
  \<open>openFileBuffer\<close>, \<open>openFileBufferBuffer\<close>, \<open>readFileBuffer\<close>, \<open>writeFileBuffer\<close> and
  \<open>closeFileBuffer\<close>.  The buffer is the allocated array with its bytes, \<open>lastPtr\<close> an
  offset into it, and the descriptor of an open file is the bytes not yet read from it.
  A \<open>read\<close> of a regular file returns as many bytes as are left, up to the count asked for.
\<close>

record file_buffer =
  fb_size :: nat
  available :: nat
  buffer :: string
  lastPtr :: "nat option"
  fd :: "string option"

subsection \<open>Opening\<close>

definition BOM :: string where
  "BOM = [CHR 0xEF, CHR 0xBB, CHR 0xBF]"

text \<open>\<open>junk\<close> is the uninitialised content of the allocated array.\<close>

definition openFileBuffer :: "string \<Rightarrow> string \<Rightarrow> file_buffer" where
  "openFileBuffer junk content =
     \<lparr>fb_size = length junk, available = 0, buffer = junk, lastPtr = None,
      fd = Some (if take 3 content = BOM then drop 3 content else content)\<rparr>"

definition openFileBufferBuffer :: "string \<Rightarrow> file_buffer" where
  "openFileBufferBuffer content =
     \<lparr>fb_size = length content, available = length content, buffer = content @ [NUL],
      lastPtr = Some 0, fd = None\<rparr>"

subsection \<open>Reading a line\<close>

fun scan_to :: "string \<Rightarrow> nat \<Rightarrow> char \<Rightarrow> ub + nat option" where
  "scan_to [] i c = Inl OutOfBounds"
| "scan_to (x # xs) i c =
     (if x = c then Inr (Some i) else if x = NUL then Inr None else scan_to xs (Suc i) c)"

text \<open>\<open>strchr(buf + off, c)\<close> on the array: it stops at the first NUL, wherever that is.\<close>

definition strchr_at :: "string \<Rightarrow> nat \<Rightarrow> char \<Rightarrow> ub + nat option" where
  "strchr_at buf off c = scan_to (drop off buf) off c"

definition cstr_at :: "string \<Rightarrow> nat \<Rightarrow> string" where
  "cstr_at buf off = takeWhile (\<lambda>x. x \<noteq> NUL) (drop off buf)"

text \<open>
  First part of the loop body: where \<open>lastPtr\<close> is set, the characters left to its right
  and the next line feed.  Otherwise \<open>lineSize\<close> keeps the value it had.
\<close>

definition rfb_locate :: "file_buffer \<Rightarrow> nat \<Rightarrow> ub + nat \<times> nat option" where
  "rfb_locate fb lineSize =
     (case lastPtr fb of
        None \<Rightarrow> Inr (lineSize, None)
      | Some p \<Rightarrow> bindR (strchr_at (buffer fb) p LF) (\<lambda>pos. Inr (available fb - p, pos)))"

definition rfb_shift :: "file_buffer \<Rightarrow> nat \<Rightarrow> ub + string" where
  "rfb_shift fb lineSize =
     (if lineSize = 0 then Inr (buffer fb)
      else case lastPtr fb of
        None \<Rightarrow> Inl NullPointer
      | Some p \<Rightarrow>
          if p + lineSize \<le> length (buffer fb)
          then Inr (write_at (buffer fb) 0 (take lineSize (drop p (buffer fb))))
          else Inl OutOfBounds)"

text \<open>Second part: no line feed in the buffer, so move the rest to the front and read on.\<close>

definition rfb_refill :: "file_buffer \<Rightarrow> nat \<Rightarrow> ub + file_buffer \<times> nat \<times> nat option" where
  "rfb_refill fb lineSize =
     bindR (rfb_shift fb lineSize) (\<lambda>buf.
       case fd fb of
         None \<Rightarrow> Inr (fb\<lparr>buffer := buf, lastPtr := Some 0, available := lineSize\<rparr>, lineSize, None)
       | Some rest \<Rightarrow>
           let len = fb_size fb - lineSize - 1;
               got = take len rest;
               buf' = write_at buf lineSize (got @ [NUL]);
               lineSize' = lineSize + length got;
               fd' = (if fb_size fb \<noteq> lineSize' + 1 then None else Some (drop len rest))
           in if lineSize + 1 \<le> fb_size fb \<and> lineSize' < length buf
              then bindR (strchr_at buf' lineSize LF) (\<lambda>pos.
                     Inr (fb\<lparr>buffer := buf', lastPtr := Some 0, available := lineSize', fd := fd'\<rparr>,
                          lineSize', pos))
              else Inl OutOfBounds)"

definition rfb_fetch :: "file_buffer \<Rightarrow> nat \<Rightarrow> ub + file_buffer \<times> nat \<times> nat option" where
  "rfb_fetch fb lineSize =
     bindR (rfb_locate fb lineSize) (\<lambda>(n, pos).
       case pos of
         Some q \<Rightarrow> Inr (fb, n, Some q)
       | None \<Rightarrow> rfb_refill fb n)"

text \<open>
  Third part: terminate the line (dropping a carriage return before the line feed),
  recognise the end of the file and comment lines, and move \<open>lastPtr\<close> past the line.
\<close>

datatype rfb_out = EndOfFile | Comment | Line string

definition rfb_emit :: "file_buffer \<Rightarrow> nat \<Rightarrow> nat option \<Rightarrow> ub + rfb_out \<times> nat \<times> file_buffer" where
  "rfb_emit fb n pos =
     (case lastPtr fb of None \<Rightarrow> Inl NullPointer | Some p \<Rightarrow>
        let n1 = (case pos of Some q \<Rightarrow> q - p | None \<Rightarrow> n);
            n2 = (if n1 \<noteq> 0 \<and> buffer fb ! (p + n1 - 1) = CR then n1 - 1 else n1)
        in if p + n1 < length (buffer fb) then
             let fb2 = fb\<lparr>buffer := (buffer fb)[p + n2 := NUL]\<rparr>;
                 fb3 = fb2\<lparr>lastPtr := map_option Suc pos\<rparr>
             in if n2 = 0 \<and> available fb2 = 0 \<and> fd fb2 = None then Inr (EndOfFile, n2, fb2)
                else if buffer fb2 ! p = CHR ''#'' then Inr (Comment, n2, fb3)
                else Inr (Line (cstr_at (buffer fb2) p), n2, fb3)
           else Inl OutOfBounds)"

text \<open>
  \<open>readFileBuffer\<close>: \<open>Inr (None, fb)\<close> is the return value 0 (end of file), \<open>Inr (Some l, fb)\<close>
  the return value 1 with \<open>*outBuf = l\<close>.  \<open>lineSize\<close> is the local of that name, which the
  \<open>continue\<close> of a comment line does not reset.
\<close>

fun rfb_loop :: "nat \<Rightarrow> nat \<Rightarrow> file_buffer \<Rightarrow> ub + string option \<times> file_buffer" where
  "rfb_loop 0 lineSize fb = Inl Diverges"
| "rfb_loop (Suc fuel) lineSize fb =
     bindR (rfb_fetch fb lineSize) (\<lambda>(fb1, n, pos).
       bindR (rfb_emit fb1 n pos) (\<lambda>(out, lineSize', fb2).
         case out of
           EndOfFile \<Rightarrow> Inr (None, fb2)
         | Comment \<Rightarrow> rfb_loop fuel lineSize' fb2
         | Line l \<Rightarrow> Inr (Some l, fb2)))"

definition readFileBuffer :: "nat \<Rightarrow> file_buffer \<Rightarrow> ub + string option \<times> file_buffer" where
  "readFileBuffer fuel fb = rfb_loop fuel 0 fb"

text \<open>The callers' loop \<open>while (readFileBuffer(fb, &line)) ...\<close>: the lines it sees.\<close>

fun readLines :: "nat \<Rightarrow> file_buffer \<Rightarrow> ub + string list" where
  "readLines 0 fb = Inl Diverges"
| "readLines (Suc fuel) fb =
     bindR (readFileBuffer (Suc fuel) fb) (\<lambda>(l, fb').
       case l of None \<Rightarrow> Inr []
       | Some line \<Rightarrow> bindR (readLines fuel fb') (\<lambda>ls. Inr (line # ls)))"

subsection \<open>Writing\<close>

text \<open>
  A buffer open for writing: \<open>lastPtr\<close> is \<open>buffer + available\<close> in \<open>writeFileBuffer\<close>, so the
  state is the bytes buffered and the bytes already passed to \<open>write\<close>.
\<close>

record write_buffer =
  wb_size :: nat
  wb_pending :: string
  wb_written :: string

definition openWriteBuffer :: "nat \<Rightarrow> write_buffer" where
  "openWriteBuffer sz = \<lparr>wb_size = sz, wb_pending = [], wb_written = []\<rparr>"

definition writeFileBuffer :: "write_buffer \<Rightarrow> string \<Rightarrow> ub + write_buffer" where
  "writeFileBuffer wb inBuf =
     (let wb1 = (if wb_pending wb \<noteq> [] \<and> length (wb_pending wb) + length inBuf > wb_size wb
                 then wb\<lparr>wb_written := wb_written wb @ wb_pending wb, wb_pending := []\<rparr> else wb)
      in if length inBuf > wb_size wb1
         then Inr (wb1\<lparr>wb_written := wb_written wb1 @ inBuf\<rparr>)
         else if length (wb_pending wb1) + length inBuf \<le> wb_size wb1
         then Inr (wb1\<lparr>wb_pending := wb_pending wb1 @ inBuf\<rparr>)
         else Inl OutOfBounds)"

definition closeWriteBuffer :: "write_buffer \<Rightarrow> string" where
  "closeWriteBuffer wb = wb_written wb @ wb_pending wb"

fun writeAll :: "write_buffer \<Rightarrow> string list \<Rightarrow> ub + write_buffer" where
  "writeAll wb [] = Inr wb"
| "writeAll wb (s # ss) = bindR (writeFileBuffer wb s) (\<lambda>wb'. writeAll wb' ss)"

subsection \<open>What the reader returns\<close>

definition first_line :: "string \<Rightarrow> string" where
  "first_line r = takeWhile (\<lambda>c. c \<noteq> LF) r"

definition after_line :: "string \<Rightarrow> string" where
  "after_line r = drop (Suc (length (first_line r))) r"

lemma length_after_line: "r \<noteq> [] \<Longrightarrow> length (after_line r) < length r"
  by (simp add: after_line_def)

function raw_lines :: "string \<Rightarrow> string list" where
  "raw_lines r = (if r = [] then [] else first_line r # raw_lines (after_line r))"
  by pat_completeness auto
termination by (relation "measure length") (auto simp: length_after_line)

declare raw_lines.simps [simp del]

lemma raw_lines_Nil [simp]: "raw_lines [] = []"
  by (simp add: raw_lines.simps)

lemma raw_lines_nonempty:
  "r \<noteq> [] \<Longrightarrow> raw_lines r = first_line r # raw_lines (after_line r)"
  by (subst raw_lines.simps) simp

definition strip_cr :: "string \<Rightarrow> string" where
  "strip_cr l = (if l \<noteq> [] \<and> last l = CR then butlast l else l)"

definition is_comment :: "string \<Rightarrow> bool" where
  "is_comment l \<longleftrightarrow> take 1 l = ''#''"

text \<open>The specification: the lines of the text, without line ends and without comments.\<close>

definition text_lines :: "string \<Rightarrow> string list" where
  "text_lines r = map strip_cr (filter (\<lambda>l. \<not> is_comment l) (raw_lines r))"

text \<open>Every line fits in the buffer together with its line feed and the terminator.\<close>

definition lines_fit :: "nat \<Rightarrow> string \<Rightarrow> bool" where
  "lines_fit sz r \<longleftrightarrow> (\<forall>l \<in> set (raw_lines r). length l + 2 \<le> sz)"

text \<open>The last line is not a comment that the end of the file cuts off.\<close>

definition well_ended :: "string \<Rightarrow> bool" where
  "well_ended r \<longleftrightarrow> r = [] \<or> last r = LF \<or> \<not> is_comment (last (raw_lines r))"

lemma after_line_Nil [simp]: "after_line [] = []"
  by (simp add: after_line_def)

lemma lines_fit_after: "lines_fit sz r \<Longrightarrow> lines_fit sz (after_line r)"
  by (cases "r = []") (simp_all add: lines_fit_def raw_lines_nonempty)

lemma lines_fit_first: "lines_fit sz r \<Longrightarrow> r \<noteq> [] \<Longrightarrow> length (first_line r) + 2 \<le> sz"
  by (simp add: lines_fit_def raw_lines_nonempty)

lemma first_line_split:
  "LF \<in> set r \<Longrightarrow> r = first_line r @ LF # after_line r"
  unfolding first_line_def after_line_def
  by (induction r) auto

lemma well_ended_after:
  assumes LF: "LF \<in> set r"
  shows "well_ended (after_line r) \<longleftrightarrow> well_ended r"
proof (cases "after_line r = []")
  case True
  then have "r = first_line r @ [LF]" using first_line_split [OF LF] by simp
  then have "last r = LF" by (metis last_snoc)
  with True show ?thesis by (simp add: well_ended_def)
next
  case False
  have ne: "r \<noteq> []" using LF by auto
  have "last r = last (after_line r)"
    using False LF by (metis first_line_split last_append last_ConsR list.distinct(1))
  moreover have "last (raw_lines r) = last (raw_lines (after_line r))"
    using ne False by (simp add: raw_lines_nonempty)
  ultimately show ?thesis using ne False by (simp add: well_ended_def)
qed

subsection \<open>The reader's invariant\<close>

definition fb_pending :: "file_buffer \<Rightarrow> string" where
  "fb_pending fb = (case lastPtr fb of None \<Rightarrow> [] | Some p \<Rightarrow> take (available fb - p) (drop p (buffer fb)))"

definition fb_unread :: "file_buffer \<Rightarrow> string" where
  "fb_unread fb = fb_pending fb @ (case fd fb of None \<Rightarrow> [] | Some r \<Rightarrow> r)"

definition fb_ptr_ok :: "file_buffer \<Rightarrow> bool" where
  "fb_ptr_ok fb \<longleftrightarrow> (case lastPtr fb of None \<Rightarrow> True | Some p \<Rightarrow>
     p \<le> available fb \<and> available fb < length (buffer fb) \<and> cstring (fb_pending fb))"

definition fb_fd_ok :: "file_buffer \<Rightarrow> bool" where
  "fb_fd_ok fb \<longleftrightarrow> (case fd fb of None \<Rightarrow> True | Some r \<Rightarrow>
     fb_size fb \<le> length (buffer fb) \<and> 2 \<le> fb_size fb \<and> cstring r
     \<and> (lastPtr fb \<noteq> None \<longrightarrow> available fb < fb_size fb))"

definition fb_ok :: "file_buffer \<Rightarrow> bool" where
  "fb_ok fb \<longleftrightarrow> fb_ptr_ok fb \<and> fb_fd_ok fb \<and> buffer fb \<noteq> []
     \<and> (lastPtr fb \<noteq> None \<longrightarrow> buffer fb ! available fb = NUL)"

text \<open>What \<open>rfb_fetch\<close> leaves: the text to split, with the line feed located.\<close>

definition fetched :: "file_buffer \<Rightarrow> nat \<Rightarrow> nat option \<Rightarrow> bool" where
  "fetched fb n pos \<longleftrightarrow> (\<exists>p. lastPtr fb = Some p \<and>
     (case pos of
        Some q \<Rightarrow> LF \<in> set (fb_pending fb) \<and> q = p + length (first_line (fb_pending fb)) \<and>
                  buffer fb ! available fb = NUL
      | None \<Rightarrow> LF \<notin> set (fb_pending fb) \<and> p = 0 \<and> n = available fb \<and>
                (fd fb = None \<or> n + 1 = fb_size fb)))"

lemma scan_to_text:
  "c \<noteq> NUL \<Longrightarrow> cstring xs \<Longrightarrow>
   scan_to (xs @ NUL # ys) i c =
     Inr (if c \<in> set xs then Some (i + length (takeWhile (\<lambda>x. x \<noteq> c) xs)) else None)"
  by (induction xs arbitrary: i) (auto simp: cstring_def)

lemma drop_terminated:
  assumes "p \<le> a" "a < length buf" "buf ! a = NUL"
  shows "drop p buf = take (a - p) (drop p buf) @ NUL # drop (Suc a) buf"
proof -
  have "drop p buf = take (a - p) (drop p buf) @ drop (a - p) (drop p buf)"
    by (rule append_take_drop_id [symmetric])
  moreover have "drop (a - p) (drop p buf) = NUL # drop (Suc a) buf"
    using assms Cons_nth_drop_Suc [of a buf] by simp
  ultimately show ?thesis by metis
qed

lemma strchr_at_pending:
  assumes "p \<le> a" "a < length buf" "buf ! a = NUL" "cstring (take (a - p) (drop p buf))"
  shows "strchr_at buf p LF =
    Inr (if LF \<in> set (take (a - p) (drop p buf))
         then Some (p + length (first_line (take (a - p) (drop p buf)))) else None)"
  unfolding strchr_at_def
  by (subst drop_terminated [OF assms(1-3)])
     (use assms(4) in \<open>simp add: scan_to_text first_line_def\<close>)

lemma rfb_refill_closed:
  assumes ok: "fb_ok fb" and fd: "fd fb = None"
    and n: "n = length (fb_pending fb)" and noLF: "LF \<notin> set (fb_pending fb)"
  shows "\<exists>fb1. rfb_refill fb n = Inr (fb1, n, None) \<and> fetched fb1 n None \<and>
     fb_ptr_ok fb1 \<and> fb_fd_ok fb1 \<and> fb_unread fb1 = fb_unread fb \<and> fb_size fb1 = fb_size fb
     \<and> fd fb1 = None"
proof -
  have n0: "n \<noteq> 0 \<Longrightarrow> \<exists>p. lastPtr fb = Some p \<and> p + n \<le> length (buffer fb) \<and> n = available fb - p"
    using ok n by (auto simp: fb_pending_def fb_ok_def fb_ptr_ok_def split: option.splits)
  have len: "n < length (buffer fb)"
    using ok n by (auto simp: fb_pending_def fb_ok_def fb_ptr_ok_def split: option.splits)
  obtain buf where buf: "rfb_shift fb n = Inr buf" "length buf = length (buffer fb)"
      "take n buf = fb_pending fb"
  proof (cases "n = 0")
    case True
    with that show ?thesis using n by (auto simp: rfb_shift_def)
  next
    case False
    with n0 obtain p where p: "lastPtr fb = Some p" "p + n \<le> length (buffer fb)" "n = available fb - p"
      by blast
    show ?thesis
      by (rule that [of "write_at (buffer fb) 0 (take n (drop p (buffer fb)))"])
         (use False p in \<open>auto simp: rfb_shift_def write_at_def fb_pending_def\<close>)
  qed
  let ?fb1 = "fb\<lparr>buffer := buf, lastPtr := Some 0, available := n\<rparr>"
  have pend: "fb_pending ?fb1 = fb_pending fb" using buf by (simp add: fb_pending_def [of ?fb1])
  have "cstring (fb_pending fb)"
    using ok by (auto simp: fb_ok_def fb_ptr_ok_def fb_pending_def cstring_def split: option.splits)
  then have "fb_ptr_ok ?fb1" using pend len buf(2) by (simp add: fb_ptr_ok_def)
  moreover have "fetched ?fb1 n None" using pend noLF fd by (simp add: fetched_def)
  ultimately show ?thesis
    using buf fd pend by (simp add: rfb_refill_def fb_fd_ok_def fb_unread_def)
qed

lemma rfb_refill_open:
  assumes ok: "fb_ok fb" and fd: "fd fb = Some rest"
    and n: "n = length (fb_pending fb)" and noLF: "LF \<notin> set (fb_pending fb)"
  shows "\<exists>fb1 n1 pos. rfb_refill fb n = Inr (fb1, n1, pos) \<and> fetched fb1 n1 pos \<and>
     fb_ptr_ok fb1 \<and> fb_fd_ok fb1 \<and> fb_unread fb1 = fb_unread fb \<and> fb_size fb1 = fb_size fb"
proof -
  have n0: "n \<noteq> 0 \<Longrightarrow> \<exists>p. lastPtr fb = Some p \<and> p + n \<le> length (buffer fb) \<and> n = available fb - p"
    using ok n by (auto simp: fb_pending_def fb_ok_def fb_ptr_ok_def split: option.splits)
  have sz: "fb_size fb \<le> length (buffer fb)" "2 \<le> fb_size fb" "cstring rest" "n < fb_size fb"
    using ok fd n by (auto simp: fb_pending_def fb_ok_def fb_fd_ok_def fb_ptr_ok_def split: option.splits)
  obtain buf where buf: "rfb_shift fb n = Inr buf" "length buf = length (buffer fb)"
      "take n buf = fb_pending fb"
  proof (cases "n = 0")
    case True
    with that show ?thesis using n by (auto simp: rfb_shift_def)
  next
    case False
    with n0 obtain p where p: "lastPtr fb = Some p" "p + n \<le> length (buffer fb)" "n = available fb - p"
      by blast
    show ?thesis
      by (rule that [of "write_at (buffer fb) 0 (take n (drop p (buffer fb)))"])
         (use False p in \<open>auto simp: rfb_shift_def write_at_def fb_pending_def\<close>)
  qed
  define len where "len = fb_size fb - n - 1"
  define got where "got = take len rest"
  define a where "a = n + length got"
  have gl: "length got \<le> len" by (simp add: got_def)
  then have a_lt: "a < fb_size fb" using sz by (simp add: a_def len_def)
  define buf' where "buf' = write_at buf n (got @ [NUL])"
  have len': "length buf' = length buf"
    unfolding buf'_def by (rule length_write_at) (use a_lt sz buf(2) in \<open>simp add: a_def\<close>)
  have nle: "n \<le> length buf" using sz buf(2) by simp
  have drop': "drop n buf' = got @ NUL # drop (Suc a) buf"
    using nle unfolding buf'_def by (simp add: drop_write_at a_def)
  have take': "take a buf' = fb_pending fb @ got"
  proof -
    have "take a buf' = take n buf' @ take (a - n) (drop n buf')"
      by (metis a_def le_add1 le_add_diff_inverse take_add)
    also have "\<dots> = fb_pending fb @ got"
      using nle buf(3) by (simp add: drop' a_def) (simp add: buf'_def)
    finally show ?thesis .
  qed
  have got_ok: "cstring got" using sz(3) by (auto simp: cstring_def got_def dest: in_set_takeD)
  have pos: "strchr_at buf' n LF =
      Inr (if LF \<in> set got then Some (n + length (first_line got)) else None)" (is "_ = Inr ?pos")
    unfolding strchr_at_def drop' using got_ok by (simp add: scan_to_text first_line_def)
  define fd' where "fd' = (if fb_size fb \<noteq> a + 1 then None else Some (drop len rest))"
  let ?fb1 = "fb\<lparr>buffer := buf', lastPtr := Some 0, available := a, fd := fd'\<rparr>"
  have run: "rfb_refill fb n = Inr (?fb1, a, ?pos)"
    using buf(1,2) fd sz a_lt pos
    by (simp add: rfb_refill_def Let_def a_def fd'_def buf'_def got_def len_def)
  have pend: "fb_pending ?fb1 = fb_pending fb @ got" by (simp add: fb_pending_def [of ?fb1] take')
  have "cstring (fb_pending fb)"
    using ok by (auto simp: fb_ok_def fb_ptr_ok_def fb_pending_def cstring_def split: option.splits)
  then have "fb_ptr_ok ?fb1"
    using pend got_ok a_lt sz(1) buf(2) len' by (auto simp: fb_ptr_ok_def cstring_def)
  moreover have "fb_fd_ok ?fb1"
    using sz a_lt buf(2) len' by (auto simp: fb_fd_ok_def fd'_def cstring_def dest: in_set_dropD)
  moreover have "got @ (case fd' of None \<Rightarrow> [] | Some r \<Rightarrow> r) = rest"
  proof (cases "fb_size fb = a + 1")
    case True
    then show ?thesis by (simp add: got_def fd'_def)
  next
    case False
    then have "length got < len" using gl sz(4) by (simp add: a_def len_def)
    with False show ?thesis by (simp add: got_def fd'_def)
  qed
  then have "fb_unread ?fb1 = fb_unread fb"
    unfolding fb_unread_def pend by (simp add: fd)
  moreover have "buf' ! a = NUL"
  proof -
    have "buf' ! a = drop n buf' ! length got" using nle len' by (simp add: a_def)
    then show ?thesis by (simp add: drop')
  qed
  then have "fetched ?fb1 a ?pos"
    using noLF n pend by (auto simp: fetched_def first_line_def takeWhile_append fd'_def)
  ultimately show ?thesis using run by auto
qed

lemma rfb_fetch_ok:
  assumes ok: "fb_ok fb" and ls: "lastPtr fb \<noteq> None \<or> lineSize = 0"
  shows "\<exists>fb1 n pos. rfb_fetch fb lineSize = Inr (fb1, n, pos) \<and> fetched fb1 n pos \<and>
     fb_ptr_ok fb1 \<and> fb_fd_ok fb1 \<and> fb_unread fb1 = fb_unread fb \<and> fb_size fb1 = fb_size fb
     \<and> (fd fb = None \<longrightarrow> fd fb1 = None)"
proof -
  have refill: ?thesis if loc: "rfb_locate fb lineSize = Inr (n, None)"
    and n: "n = length (fb_pending fb)" and noLF: "LF \<notin> set (fb_pending fb)" for n
  proof (cases "fd fb")
    case None
    with rfb_refill_closed [OF ok this n noLF] loc show ?thesis
      by (fastforce simp: rfb_fetch_def)
  next
    case (Some rest)
    with rfb_refill_open [OF ok this n noLF] loc show ?thesis
      by (fastforce simp: rfb_fetch_def)
  qed
  show ?thesis
  proof (cases "lastPtr fb")
    case None
    with ls show ?thesis by (intro refill [of 0]) (auto simp: rfb_locate_def fb_pending_def)
  next
    case (Some p)
    with ok have p: "p \<le> available fb" "available fb < length (buffer fb)"
        "buffer fb ! available fb = NUL" "cstring (take (available fb - p) (drop p (buffer fb)))"
      by (auto simp: fb_ok_def fb_ptr_ok_def fb_pending_def)
    have pend: "fb_pending fb = take (available fb - p) (drop p (buffer fb))"
      using Some by (simp add: fb_pending_def)
    have loc: "rfb_locate fb lineSize = Inr (available fb - p,
        if LF \<in> set (fb_pending fb) then Some (p + length (first_line (fb_pending fb))) else None)"
      using Some strchr_at_pending [OF p] by (simp add: rfb_locate_def pend)
    show ?thesis
    proof (cases "LF \<in> set (fb_pending fb)")
      case True
      with loc ok Some p(3) show ?thesis
        by (auto simp: rfb_fetch_def fetched_def fb_ok_def)
    next
      case False
      with loc show ?thesis
        by (intro refill [of "available fb - p"]) (use p(1,2) in \<open>auto simp: pend\<close>)
    qed
  qed
qed

lemma is_comment_strip: "is_comment l \<longleftrightarrow> strip_cr l \<noteq> [] \<and> hd (strip_cr l) = CHR ''#''"
proof (cases l)
  case (Cons x xs)
  then show ?thesis
    by (cases xs rule: rev_cases) (auto simp: is_comment_def strip_cr_def CR_def)
qed (simp add: is_comment_def strip_cr_def)

lemma text_lines_rec:
  "r \<noteq> [] \<Longrightarrow> text_lines r =
     (if is_comment (first_line r) then [] else [strip_cr (first_line r)]) @ text_lines (after_line r)"
  by (simp add: text_lines_def raw_lines_nonempty)

lemma text_lines_Nil [simp]: "text_lines [] = []"
  by (simp add: text_lines_def)

text \<open>The line that \<open>rfb_emit\<close> cuts off at \<open>p\<close>, as a C string.\<close>

lemma emit_line:
  fixes buf :: string
  assumes l: "take m (drop p buf) = l" "p + m < length buf" "m = length l" and cs: "cstring l"
  shows "(if m \<noteq> 0 \<and> buf ! (p + m - 1) = CR then m - 1 else m) = length (strip_cr l)" (is "?n2 = _")
    and "cstr_at (buf[p + length (strip_cr l) := NUL]) p = strip_cr l"
    and "buf[p + length (strip_cr l) := NUL] ! p = CHR ''#'' \<longleftrightarrow> is_comment l"
proof -
  have nth: "l ! i = buf ! (p + i)" if "i < m" for i
    using that l by (metis add_leD1 less_imp_le nth_drop nth_take)
  have "last l = buf ! (p + m - 1)" if "m \<noteq> 0"
  proof -
    have "p + m - 1 = p + (m - 1)" using that by simp
    moreover have "last l = l ! (m - 1)" using that l(3) by (simp add: last_conv_nth)
    ultimately show ?thesis using nth [of "m - 1"] that by simp
  qed
  then show n2: "?n2 = length (strip_cr l)" by (auto simp: strip_cr_def l(3))
  let ?b = "buf[p + length (strip_cr l) := NUL]"
  have le: "length (strip_cr l) \<le> m" by (simp add: strip_cr_def l(3))
  have "take (length (strip_cr l)) (drop p buf) = take (length (strip_cr l)) l"
    using l(1) le by (metis min.absorb1 take_take)
  also have "\<dots> = strip_cr l" by (simp add: strip_cr_def butlast_conv_take)
  finally have tk: "take (length (strip_cr l)) (drop p buf) = strip_cr l" .
  have "drop p ?b = (drop p buf)[length (strip_cr l) := NUL]"
    by (simp add: drop_update_swap)
  also have "\<dots> = strip_cr l @ NUL # drop (Suc (length (strip_cr l))) (drop p buf)"
    using l(2) le tk by (simp add: upd_conv_take_nth_drop)
  finally have d: "drop p ?b = strip_cr l @ NUL # drop (Suc (length (strip_cr l))) (drop p buf)" .
  have "cstring (strip_cr l)" using cs by (auto simp: strip_cr_def cstring_def dest: in_set_butlastD)
  then show "cstr_at ?b p = strip_cr l"
    unfolding cstr_at_def d by (simp add: takeWhile_neq_append_Cons cstring_def)
  have "?b ! p = hd (drop p ?b)" using l(2) by (simp add: hd_drop_conv_nth)
  then show "?b ! p = CHR ''#'' \<longleftrightarrow> is_comment l"
    unfolding d is_comment_strip by (cases "strip_cr l") (auto simp: NUL_def)
qed

lemma rfb_emit_eof:
  assumes "fetched fb n pos" "fb_unread fb = []" "buffer fb \<noteq> []" "pos = None \<longrightarrow> fd fb = None"
    "fb_ptr_ok fb"
  shows "\<exists>m fb2. rfb_emit fb n pos = Inr (EndOfFile, m, fb2)"
proof -
  have pos: "pos = None" and p: "lastPtr fb = Some 0"
    using assms(1,2) by (auto simp: fetched_def fb_unread_def split: option.splits)
  have "n = 0" "available fb = 0"
    using assms p pos by (auto simp: fetched_def fb_unread_def fb_pending_def fb_ptr_ok_def)
  with pos p assms(3,4) show ?thesis by (auto simp: rfb_emit_def Let_def)
qed

lemma rfb_emit_line:
  assumes f: "fetched fb n pos" and ptr: "fb_ptr_ok fb" and fdok: "fb_fd_ok fb"
    and ne: "fb_unread fb \<noteq> []" and nofd: "pos = None \<longrightarrow> fd fb = None"
  shows "\<exists>m fb2. rfb_emit fb n pos =
      Inr (if is_comment (first_line (fb_unread fb)) then Comment
           else Line (strip_cr (first_line (fb_unread fb))), m, fb2) \<and>
    fb_ok fb2 \<and> fb_unread fb2 = after_line (fb_unread fb) \<and> fb_size fb2 = fb_size fb \<and>
    (fd fb = None \<longrightarrow> fd fb2 = None) \<and>
    (LF \<in> set (fb_unread fb) \<longrightarrow> lastPtr fb2 \<noteq> None) \<and>
    (LF \<notin> set (fb_unread fb) \<longrightarrow> lastPtr fb2 = None \<and> m = length (strip_cr (fb_unread fb)))"
proof -
  obtain p where p: "lastPtr fb = Some p" using f by (auto simp: fetched_def)
  let ?pend = "fb_pending fb"
  have pend: "?pend = take (available fb - p) (drop p (buffer fb))" using p by (simp add: fb_pending_def)
  have le: "p \<le> available fb" "available fb < length (buffer fb)" and cs: "cstring ?pend"
    using ptr p by (auto simp: fb_ptr_ok_def)
  have plen: "length ?pend = available fb - p" using le by (simp add: pend)
  show ?thesis
  proof (cases pos)
    case (Some q)
    let ?l = "first_line ?pend"
    have LFin: "LF \<in> set ?pend" and q: "q = p + length ?l" and nul: "buffer fb ! available fb = NUL"
      using f Some p by (auto simp: fetched_def)
    have split: "?pend = ?l @ LF # after_line ?pend" by (rule first_line_split [OF LFin])
    have llt: "length ?l < length ?pend" by (subst (2) split) simp
    have fl: "first_line (fb_unread fb) = ?l"
      using LFin by (simp add: fb_unread_def first_line_def)
    have tk: "take (length ?l) (drop p (buffer fb)) = ?l"
    proof -
      have "take (length ?l) (drop p (buffer fb)) = take (length ?l) ?pend"
        using llt plen by (simp add: pend)
      also have "\<dots> = ?l" by (subst (2) split) simp
      finally show ?thesis .
    qed
    have csl: "cstring ?l" using cs by (auto simp: cstring_def first_line_def dest: set_takeWhileD)
    have qlt: "p + length ?l < available fb" using llt plen by simp
    note E = emit_line [OF tk _ refl csl]
    have inb: "p + length ?l < length (buffer fb)" using qlt le by simp
    let ?k = "length (strip_cr ?l)"
    let ?fb2 = "fb\<lparr>buffer := (buffer fb)[p + ?k := NUL], lastPtr := Some (Suc q)\<rparr>"
    have kle: "?k \<le> length ?l" by (simp add: strip_cr_def)
    have run: "rfb_emit fb n pos =
        Inr (if is_comment ?l then Comment else Line (strip_cr ?l), ?k, ?fb2)"
      using E [OF inb] inb qlt Some p q by (simp add: rfb_emit_def Let_def)
    have pend2: "fb_pending ?fb2 = after_line ?pend"
    proof -
      have "fb_pending ?fb2 = take (available fb - Suc q) (drop (Suc q) (buffer fb))"
        using kle q by (simp add: fb_pending_def)
      also have "\<dots> = drop (Suc (length ?l)) ?pend"
        using q by (simp add: pend drop_take add.commute)
      finally show ?thesis by (simp add: after_line_def)
    qed
    have "cstring (after_line ?pend)" using cs by (auto simp: cstring_def after_line_def dest: in_set_dropD)
    then have "fb_ok ?fb2"
      using le fdok qlt q nul kle p pend2
      by (auto simp: fb_ok_def fb_ptr_ok_def fb_fd_ok_def split: option.splits)
    moreover have "fb_unread ?fb2 = after_line (fb_unread fb)"
      using llt fl by (simp add: fb_unread_def pend2) (simp add: after_line_def fb_unread_def)
    ultimately show ?thesis
      using run LFin fl by (auto simp: fb_unread_def)
  next
    case None
    have p0: "p = 0" and noLF: "LF \<notin> set ?pend" and n: "n = available fb" and fd: "fd fb = None"
      using f None p nofd by (auto simp: fetched_def)
    have r: "fb_unread fb = ?pend" by (simp add: fb_unread_def fd)
    have fl: "first_line ?pend = ?pend" using noLF by (simp add: first_line_def takeWhile_neq_none)
    have al: "after_line ?pend = []" using fl by (simp add: after_line_def)
    have tk: "take n (drop p (buffer fb)) = ?pend" using p0 n by (simp add: pend)
    have inb: "p + n < length (buffer fb)" using le p0 n by simp
    note E = emit_line [OF tk inb _ cs]
    have nlen: "n = length ?pend" using plen p0 n by simp
    let ?k = "length (strip_cr ?pend)"
    let ?fb2 = "fb\<lparr>buffer := (buffer fb)[p + ?k := NUL], lastPtr := None\<rparr>"
    have "available fb \<noteq> 0" using ne r nlen n by auto
    then have run: "rfb_emit fb n pos =
        Inr (if is_comment ?pend then Comment else Line (strip_cr ?pend), ?k, ?fb2)"
      using E [OF nlen] inb None p by (simp add: rfb_emit_def Let_def)
    have "fb_ok ?fb2" using le fd
      by (auto simp: fb_ok_def fb_ptr_ok_def fb_fd_ok_def)
    moreover have "fb_unread ?fb2 = []" by (simp add: fb_unread_def fb_pending_def fd)
    ultimately show ?thesis using run noLF by (simp add: r fl al fd)
  qed
qed

definition rd_ready :: "file_buffer \<Rightarrow> bool" where
  "rd_ready fb \<longleftrightarrow> fb_ok fb \<and> (fd fb = None \<or> lines_fit (fb_size fb) (fb_unread fb))"

lemma fetched_fit:
  assumes "fetched fb n None" "fb_ptr_ok fb" "lines_fit (fb_size fb) (fb_unread fb)" "fb_fd_ok fb"
  shows "fd fb = None"
proof (rule ccontr)
  assume fd: "fd fb \<noteq> None"
  then have n: "n + 1 = fb_size fb" "n = available fb" "LF \<notin> set (fb_pending fb)"
    and p: "lastPtr fb = Some 0" using assms(1) by (auto simp: fetched_def)
  have len: "length (fb_pending fb) = n"
    using assms(2) p n by (simp add: fb_pending_def fb_ptr_ok_def)
  have "2 \<le> fb_size fb" using assms(4) fd by (auto simp: fb_fd_ok_def)
  with len n have ne: "fb_unread fb \<noteq> []" by (auto simp: fb_unread_def)
  have "n \<le> length (first_line (fb_unread fb))"
    using n(3) len by (simp add: first_line_def fb_unread_def takeWhile_append)
  with lines_fit_first [OF assms(3) ne] n(1) show False by simp
qed

text \<open>One loop iteration, in terms of the unread text.\<close>

lemma rfb_step:
  assumes r: "rd_ready fb" and ls: "lastPtr fb \<noteq> None \<or> lineSize = 0"
  obtains (eof) fb2 where "fb_unread fb = []" "rfb_loop (Suc fuel) lineSize fb = Inr (None, fb2)"
  | (line) fb2 m where "fb_unread fb \<noteq> []" "rd_ready fb2" "fb_unread fb2 = after_line (fb_unread fb)"
      "rfb_loop (Suc fuel) lineSize fb =
         (if is_comment (first_line (fb_unread fb)) then rfb_loop fuel m fb2
          else Inr (Some (strip_cr (first_line (fb_unread fb))), fb2))"
      "LF \<in> set (fb_unread fb) \<Longrightarrow> lastPtr fb2 \<noteq> None"
      "LF \<notin> set (fb_unread fb) \<Longrightarrow> lastPtr fb2 = None \<and> m = length (strip_cr (fb_unread fb))"
proof -
  have ok: "fb_ok fb" using r by (simp add: rd_ready_def)
  obtain fb1 n pos where F: "rfb_fetch fb lineSize = Inr (fb1, n, pos)" "fetched fb1 n pos"
      "fb_ptr_ok fb1" "fb_fd_ok fb1" "fb_unread fb1 = fb_unread fb" "fb_size fb1 = fb_size fb"
      "fd fb = None \<longrightarrow> fd fb1 = None"
    using rfb_fetch_ok [OF ok ls] by (elim exE conjE) metis
  have nofd: "pos = None \<longrightarrow> fd fb1 = None"
    using F r fetched_fit [of fb1 n] by (auto simp: rd_ready_def)
  have ne: "buffer fb1 \<noteq> []" using F(2,3) by (auto simp: fetched_def fb_ptr_ok_def)
  show thesis
  proof (cases "fb_unread fb = []")
    case True
    with rfb_emit_eof [OF F(2) _ ne nofd F(3)] F(1,5) show ?thesis by (auto intro: eof)
  next
    case False
    then have ne1: "fb_unread fb1 \<noteq> []" using F(5) by simp
    obtain m fb2 where E1: "rfb_emit fb1 n pos =
        Inr (if is_comment (first_line (fb_unread fb1)) then Comment
             else Line (strip_cr (first_line (fb_unread fb1))), m, fb2)"
      "fb_ok fb2" "fb_unread fb2 = after_line (fb_unread fb1)" "fb_size fb2 = fb_size fb1"
      "fd fb1 = None \<longrightarrow> fd fb2 = None"
      "LF \<in> set (fb_unread fb1) \<longrightarrow> lastPtr fb2 \<noteq> None"
      "LF \<notin> set (fb_unread fb1) \<longrightarrow> lastPtr fb2 = None \<and> m = length (strip_cr (fb_unread fb1))"
      using rfb_emit_line [OF F(2-4) ne1 nofd] by (elim exE conjE) metis
    note E = E1 [unfolded F(5)]
    have "rd_ready fb2" using E F r by (auto simp: rd_ready_def intro: lines_fit_after)
    then show ?thesis using E F(1) False by (intro line) auto
  qed
qed

lemma rfb_loop_null:
  "lastPtr fb = None \<Longrightarrow> lineSize \<noteq> 0 \<Longrightarrow> rfb_loop (Suc fuel) lineSize fb = Inl NullPointer"
  by (simp add: rfb_fetch_def rfb_locate_def rfb_refill_def rfb_shift_def)

lemma raw_lines_eq_Nil [simp]: "raw_lines r = [] \<longleftrightarrow> r = []"
  by (subst raw_lines.simps) simp

lemma not_well_ended_no_LF:
  "LF \<notin> set r \<Longrightarrow> r \<noteq> [] \<Longrightarrow> well_ended r \<longleftrightarrow> \<not> is_comment r"
proof -
  assume a: "LF \<notin> set r" "r \<noteq> []"
  then have "first_line r = r" by (simp add: first_line_def takeWhile_neq_none)
  then have "raw_lines r = [r]" using a by (simp add: raw_lines_nonempty after_line_def)
  moreover have "last r \<noteq> LF" using a last_in_set by fastforce
  ultimately show ?thesis using a by (simp add: well_ended_def)
qed

lemma rfb_loop_correct:
  assumes "rd_ready fb" "lastPtr fb \<noteq> None \<or> lineSize = 0" "length (fb_unread fb) < fuel"
    "well_ended (fb_unread fb) \<or> text_lines (fb_unread fb) \<noteq> []"
  shows "\<exists>fb'. rfb_loop fuel lineSize fb =
      Inr (if text_lines (fb_unread fb) = [] then None else Some (hd (text_lines (fb_unread fb))), fb') \<and>
    (text_lines (fb_unread fb) \<noteq> [] \<longrightarrow> rd_ready fb' \<and>
       well_ended (fb_unread fb') = well_ended (fb_unread fb) \<and>
       length (fb_unread fb') < length (fb_unread fb) \<and>
       text_lines (fb_unread fb') = tl (text_lines (fb_unread fb)))"
  using assms
proof (induction fuel arbitrary: fb lineSize)
  case (Suc fuel)
  from Suc.prems(1,2) show ?case
  proof (cases rule: rfb_step [where fuel = fuel])
    case (eof fb2)
    then show ?thesis by simp
  next
    case (line fb2 m)
    let ?r = "fb_unread fb"
    have len: "length (fb_unread fb2) < length ?r"
      using line(1,3) by (simp add: length_after_line)
    have tl: "text_lines ?r = (if is_comment (first_line ?r) then [] else [strip_cr (first_line ?r)])
        @ text_lines (fb_unread fb2)"
      using line(1,3) by (simp add: text_lines_rec)
    have noLF: "LF \<notin> set ?r \<Longrightarrow> first_line ?r = ?r \<and> fb_unread fb2 = []"
      using line(3) by (simp add: first_line_def takeWhile_neq_none after_line_def)
    show ?thesis
    proof (cases "is_comment (first_line ?r)")
      case False
      have "well_ended (fb_unread fb2) = well_ended ?r"
      proof (cases "LF \<in> set ?r")
        case True
        then show ?thesis by (simp add: line(3) well_ended_after)
      next
        case no: False
        with False noLF not_well_ended_no_LF [OF no line(1)] show ?thesis by (simp add: well_ended_def)
      qed
      with False line len tl show ?thesis by simp
    next
      case True
      have LF: "LF \<in> set ?r"
      proof (rule ccontr)
        assume no: "LF \<notin> set ?r"
        with True noLF tl not_well_ended_no_LF [OF no line(1)] Suc.prems(4) show False by simp
      qed
      then have we: "well_ended (fb_unread fb2) = well_ended ?r" by (simp add: line(3) well_ended_after)
      have ptr: "lastPtr fb2 \<noteq> None \<or> m = 0" using LF line(5) by simp
      have "length (fb_unread fb2) < fuel" using len Suc.prems(3) by simp
      moreover have "well_ended (fb_unread fb2) \<or> text_lines (fb_unread fb2) \<noteq> []"
        using we Suc.prems(4) tl True by simp
      ultimately obtain fb' where "rfb_loop fuel m fb2 =
          Inr (if text_lines (fb_unread fb2) = [] then None else Some (hd (text_lines (fb_unread fb2))), fb')"
        "text_lines (fb_unread fb2) \<noteq> [] \<longrightarrow> rd_ready fb' \<and>
           well_ended (fb_unread fb') = well_ended (fb_unread fb2) \<and>
           length (fb_unread fb') < length (fb_unread fb2) \<and>
           text_lines (fb_unread fb') = tl (text_lines (fb_unread fb2))"
        using Suc.IH [OF line(2) ptr] by blast
      with line(4) True tl we len show ?thesis by (simp del: rfb_loop.simps) linarith
    qed
  qed
qed simp

text \<open>A comment that the end of the file cuts off makes the reader move from a null pointer.\<close>

lemma rfb_loop_cut_comment:
  assumes "rd_ready fb" "lastPtr fb \<noteq> None \<or> lineSize = 0" "length (fb_unread fb) < fuel"
    "\<not> well_ended (fb_unread fb)" "text_lines (fb_unread fb) = []"
  shows "rfb_loop (Suc fuel) lineSize fb = Inl NullPointer"
  using assms
proof (induction fuel arbitrary: fb lineSize)
  case (Suc fuel)
  from Suc.prems(1,2) show ?case
  proof (cases rule: rfb_step [where fuel = "Suc fuel"])
    case (eof fb2)
    with Suc.prems(4) show ?thesis by (simp add: well_ended_def)
  next
    case (line fb2 m)
    let ?r = "fb_unread fb"
    have com: "is_comment (first_line ?r)" and tl: "text_lines (fb_unread fb2) = []"
      using Suc.prems(5) line(1,3) by (auto simp: text_lines_rec split: if_splits)
    show ?thesis
    proof (cases "LF \<in> set ?r")
      case False
      then have "first_line ?r = ?r" by (simp add: first_line_def takeWhile_neq_none)
      with com have "strip_cr ?r \<noteq> []" by (simp add: is_comment_strip)
      with line(6) [OF False] com line(4) show ?thesis
        by (simp add: rfb_loop_null del: rfb_loop.simps)
    next
      case True
      have we: "\<not> well_ended (fb_unread fb2)" using True Suc.prems(4) by (simp add: line(3) well_ended_after)
      have "length (fb_unread fb2) < length ?r" using line(1,3) by (simp add: length_after_line)
      then have len: "length (fb_unread fb2) < fuel" using Suc.prems(3) by simp
      have ptr: "lastPtr fb2 \<noteq> None \<or> m = 0" using True line(5) by simp
      from Suc.IH [OF line(2) ptr len we tl] com line(4) show ?thesis by simp
    qed
  qed
qed simp

lemma readLines_correct:
  assumes "rd_ready fb" "length (fb_unread fb) < fuel"
  shows "readLines (Suc fuel) fb =
    (if well_ended (fb_unread fb) then Inr (text_lines (fb_unread fb)) else Inl NullPointer)"
  using assms
proof (induction fuel arbitrary: fb)
  case (Suc fuel)
  show ?case
  proof (cases "well_ended (fb_unread fb) \<or> text_lines (fb_unread fb) \<noteq> []")
    case False
    then have "rfb_loop (Suc (Suc fuel)) 0 fb = Inl NullPointer"
      using Suc.prems by (intro rfb_loop_cut_comment) auto
    with False show ?thesis by (simp add: readFileBuffer_def del: rfb_loop.simps)
  next
    case True
    have len: "length (fb_unread fb) < Suc (Suc fuel)" using Suc.prems(2) by simp
    obtain fb' where R: "rfb_loop (Suc (Suc fuel)) 0 fb =
        Inr (if text_lines (fb_unread fb) = [] then None else Some (hd (text_lines (fb_unread fb))), fb')"
      and R': "text_lines (fb_unread fb) \<noteq> [] \<longrightarrow> rd_ready fb' \<and>
         well_ended (fb_unread fb') = well_ended (fb_unread fb) \<and>
         length (fb_unread fb') < length (fb_unread fb) \<and>
         text_lines (fb_unread fb') = tl (text_lines (fb_unread fb))"
      using rfb_loop_correct [OF Suc.prems(1) _ len True, of 0] by blast
    show ?thesis
    proof (cases "text_lines (fb_unread fb)")
      case Nil
      with True R show ?thesis by (simp add: readFileBuffer_def del: rfb_loop.simps)
    next
      case (Cons l ls)
      with R' Suc.prems(2) have "readLines (Suc fuel) fb' =
          (if well_ended (fb_unread fb) then Inr ls else Inl NullPointer)"
        using Suc.IH [of fb'] by simp
      with R Cons show ?thesis by (simp add: readFileBuffer_def del: rfb_loop.simps)
    qed
  qed
qed simp

subsection \<open>Properties\<close>

definition skip_bom :: "string \<Rightarrow> string" where
  "skip_bom content = (if take 3 content = BOM then drop 3 content else content)"

lemma open_ready:
  assumes "cstring content" "2 \<le> length junk" "lines_fit (length junk) (skip_bom content)"
  shows "rd_ready (openFileBuffer junk content)"
    and "fb_unread (openFileBuffer junk content) = skip_bom content"
  using assms
  by (auto simp: rd_ready_def openFileBuffer_def fb_unread_def fb_pending_def fb_ok_def fb_ptr_ok_def
      fb_fd_ok_def skip_bom_def cstring_def dest: in_set_dropD)

lemma open_buffer_ready:
  assumes "cstring content"
  shows "rd_ready (openFileBufferBuffer content)"
    and "fb_unread (openFileBufferBuffer content) = content"
  using assms
  by (auto simp: rd_ready_def openFileBufferBuffer_def fb_unread_def fb_pending_def fb_ok_def
      fb_ptr_ok_def fb_fd_ok_def)


lemmas raw_lines_eval = raw_lines.simps first_line_def after_line_def


definition wb_ok :: "write_buffer \<Rightarrow> bool" where
  "wb_ok wb \<longleftrightarrow> length (wb_pending wb) \<le> wb_size wb"

lemma writeFileBuffer_ok:
  "wb_ok wb \<Longrightarrow> \<exists>wb'. writeFileBuffer wb s = Inr wb' \<and> wb_ok wb' \<and>
     closeWriteBuffer wb' = closeWriteBuffer wb @ s"
  by (auto simp: wb_ok_def writeFileBuffer_def closeWriteBuffer_def Let_def)

lemma writeAll_ok:
  "wb_ok wb \<Longrightarrow> \<exists>wb'. writeAll wb ss = Inr wb' \<and> closeWriteBuffer wb' = closeWriteBuffer wb @ concat ss"
proof (induction ss arbitrary: wb)
  case (Cons s ss)
  from writeFileBuffer_ok [OF Cons.prems, of s] obtain wb1
    where "writeFileBuffer wb s = Inr wb1" "wb_ok wb1" "closeWriteBuffer wb1 = closeWriteBuffer wb @ s"
    by blast
  with Cons.IH [of wb1] show ?case by auto
qed simp

text \<open>Whatever strings are written through the buffer, of whatever sizes, the file ends up
  holding their concatenation, and no write leaves the buffer.\<close>

theorem written_file_content:
  "\<exists>wb. writeAll (openWriteBuffer sz) ss = Inr wb \<and> closeWriteBuffer wb = concat ss"
  using writeAll_ok [of "openWriteBuffer sz" ss]
  by (auto simp: wb_ok_def openWriteBuffer_def closeWriteBuffer_def)

end
