(* ===== verification/Config.thy ===== *)
theory Config
  imports CStdlib FileBuffer
begin

text \<open>
  The configuration store of \<open>src/src/config.c\<close>: a set of key/value pairs in the order
  they were added (the list from \<open>head\<close> to \<open>tail\<close>), its reader and writer.  Keys are held
  in 32 bytes and values in 256, terminators included.
\<close>

definition CONFIG_KEY_NAME_LEN :: nat where "CONFIG_KEY_NAME_LEN = 32"
definition CONFIG_KEY_VALUE_LEN :: nat where "CONFIG_KEY_VALUE_LEN = 256"

lemmas config_lens [simp] = CONFIG_KEY_NAME_LEN_def CONFIG_KEY_VALUE_LEN_def

record config_value =
  key :: string
  val :: string

record config_set =
  ctype :: int
  items :: "config_value list"
  filename :: "string option"
  modified :: bool
  uid :: u32

subsection \<open>Scanning text\<close>

definition isWS :: "char \<Rightarrow> bool" where
  "isWS c \<longleftrightarrow> c = CHR '' '' \<or> c = CHR 0x09"

definition first_char :: "string \<Rightarrow> char" where
  "first_char s = (case s of [] \<Rightarrow> NUL | c # _ \<Rightarrow> c)"

text \<open>
  \<open>splitAssignment\<close>: the offset of the character behind the equals sign from the first one that is not
  white space (0 when there is no equals sign), key and value.  \<open>key[keylen] = 0\<close> and
  \<open>val[vallen] = 0\<close> are stores into arrays of \<open>keymax\<close> and \<open>valmax\<close> bytes.
\<close>

definition splitAssignment :: "string \<Rightarrow> nat \<Rightarrow> nat \<Rightarrow> ub + nat \<times> string \<times> string" where
  "splitAssignment line0 keymax valmax =
     (let line = dropWhile isWS line0
      in case strchr line CHR ''='' of
           None \<Rightarrow> Inr (0, [], [])
         | Some eqpos \<Rightarrow>
             let keylen = min keymax eqpos;
                 content = drop (Suc eqpos) line;
                 vallen = min valmax (length content)
             in if keylen < keymax \<and> vallen < valmax
                then Inr (Suc eqpos, take keylen line, take vallen content)
                else Inl OutOfBounds)"

definition parsePrefix :: "string \<Rightarrow> string \<Rightarrow> ub + bool \<times> string" where
  "parsePrefix line prefix =
     (case strchr line CHR '':'' of
        None \<Rightarrow> Inr (False, prefix)
      | Some colpos \<Rightarrow>
          if colpos = 0 then Inr (False, prefix)
          else if colpos < CONFIG_KEY_NAME_LEN then Inr (True, take colpos line)
          else Inl OutOfBounds)"

fun strToColor_loop :: "nat \<Rightarrow> u8 list \<Rightarrow> string \<Rightarrow> bool \<times> u8 list" where
  "strToColor_loop n color [] = (True, color)"
| "strToColor_loop n color (c # cs) =
     (let fh = fromHex c
      in if fh \<ge> 0
         then strToColor_loop ((n + 1) mod 3) (color[n := color ! n * 16 + word_of_int fh]) cs
         else (False, color))"

definition strToColor :: "string \<Rightarrow> bool \<times> u8 list" where
  "strToColor s =
     (case s of
        [] \<Rightarrow> (False, [0, 0, 0])
      | c # t \<Rightarrow>
          if c \<noteq> CHR ''#'' then (False, [0, 0, 0])
          else if length t \<noteq> 6 then (False, [0, 0, 0])
          else strToColor_loop 0 [0, 0, 0] t)"

subsection \<open>The list of values\<close>

definition configKeyValidate :: "string \<Rightarrow> bool" where
  "configKeyValidate k \<longleftrightarrow> k \<noteq> [] \<and> CHR ''='' \<notin> set k"

definition allocConfigItem :: "string \<Rightarrow> string \<Rightarrow> config_value" where
  "allocConfigItem k v =
     \<lparr>key = bounded CONFIG_KEY_NAME_LEN k, val = bounded CONFIG_KEY_VALUE_LEN v\<rparr>"

definition addConfigValue :: "config_set \<Rightarrow> string \<Rightarrow> string \<Rightarrow> config_set" where
  "addConfigValue cs k v = cs\<lparr>items := items cs @ [allocConfigItem k v]\<rparr>"

definition name_matches :: "string \<Rightarrow> config_value \<Rightarrow> bool" where
  "name_matches name it \<longleftrightarrow> strncmp_eq CONFIG_KEY_NAME_LEN (key it) name"

definition getConfigItemForName :: "config_set \<Rightarrow> string \<Rightarrow> config_value option" where
  "getConfigItemForName cs name = find (name_matches name) (items cs)"

text \<open>The store through the pointer that \<open>getConfigItemForName\<close> returned.\<close>

fun update_first :: "('a \<Rightarrow> bool) \<Rightarrow> ('a \<Rightarrow> 'a) \<Rightarrow> 'a list \<Rightarrow> 'a list" where
  "update_first P f [] = []"
| "update_first P f (x # xs) = (if P x then f x # xs else x # update_first P f xs)"

definition configAlloc :: "int \<Rightarrow> string option \<Rightarrow> u32 \<Rightarrow> config_set \<times> u32" where
  "configAlloc type fileName currentUID =
     (let u = currentUID + 1
      in (\<lparr>ctype = type, items = [], filename = fileName, modified = False, uid = u\<rparr>, u))"

definition configSetStr :: "config_set \<Rightarrow> string \<Rightarrow> string \<Rightarrow> bool \<times> config_set" where
  "configSetStr cs k v =
     (if \<not> configKeyValidate k then (False, cs)
      else case getConfigItemForName cs k of
        Some it \<Rightarrow>
          if \<not> strncmp_eq CONFIG_KEY_VALUE_LEN (val it) v
          then let cs1 = cs\<lparr>items := update_first (name_matches k)
                                    (\<lambda>it. it\<lparr>val := bounded CONFIG_KEY_VALUE_LEN v\<rparr>) (items cs)\<rparr>
               in (True, if first_char (key it) \<noteq> CHR ''#'' then cs1\<lparr>modified := True\<rparr> else cs1)
          else (True, cs)
      | None \<Rightarrow>
          let cs1 = addConfigValue cs k v
          in (True, if first_char k \<noteq> CHR ''#'' then cs1\<lparr>modified := True\<rparr> else cs1))"

definition configGetStr :: "config_set \<Rightarrow> string \<Rightarrow> string option" where
  "configGetStr cs k =
     (if \<not> configKeyValidate k then None else map_option val (getConfigItemForName cs k))"

definition configGetStrCopy :: "config_set \<Rightarrow> string \<Rightarrow> nat \<Rightarrow> bool \<times> string" where
  "configGetStrCopy cs k len =
     (case configGetStr cs k of Some v \<Rightarrow> (True, bounded len v) | None \<Rightarrow> (False, []))"

definition configSetInt :: "config_set \<Rightarrow> string \<Rightarrow> int \<Rightarrow> bool \<times> config_set" where
  "configSetInt cs k v = configSetStr cs k (bounded 12 (int_to_dec v))"

definition configGetInt :: "config_set \<Rightarrow> string \<Rightarrow> int option" where
  "configGetInt cs k = map_option atoi (configGetStr cs k)"

text \<open>\<open>"%02X"\<close> of a byte.\<close>

definition hex2 :: "u8 \<Rightarrow> string" where
  "hex2 b = [toHex (unat b div 16), toHex (unat b mod 16)]"

definition configSetColor :: "config_set \<Rightarrow> string \<Rightarrow> u8 \<Rightarrow> u8 \<Rightarrow> u8 \<Rightarrow> bool \<times> config_set" where
  "configSetColor cs k r g b = configSetStr cs k (bounded 8 (CHR ''#'' # hex2 r @ hex2 g @ hex2 b))"

definition configGetColor :: "config_set \<Rightarrow> string \<Rightarrow> u8 list option" where
  "configGetColor cs k = map_option (\<lambda>v. snd (strToColor v)) (configGetStr cs k)"

definition configRemoveKey :: "config_set \<Rightarrow> string \<Rightarrow> bool \<times> config_set" where
  "configRemoveKey cs k =
     (if \<not> configKeyValidate k then (False, cs)
      else let cs1 = cs\<lparr>items := filter (\<lambda>it. \<not> name_matches k it) (items cs)\<rparr>
           in (True, if first_char k \<noteq> CHR ''#'' \<and> (\<exists>it \<in> set (items cs). name_matches k it)
                     then cs1\<lparr>modified := True\<rparr> else cs1))"

definition configMerge :: "config_set \<Rightarrow> config_set \<Rightarrow> config_set" where
  "configMerge dest source =
     foldl (\<lambda>d it. snd (configSetStr d (key it) (val it))) dest (items source)"

definition configClear :: "config_set \<Rightarrow> config_set" where
  "configClear cs = cs\<lparr>items := [], modified := True\<rparr>"

subsection \<open>Disc identifier and virtual memory card entries\<close>

definition CONFIG_ITEM_DNAS :: string where "CONFIG_ITEM_DNAS = ''$DNAS''"
definition CONFIG_ITEM_VMC :: string where "CONFIG_ITEM_VMC = ''$VMC''"

text \<open>\<open>p\<close> counts the hexadecimal digits taken; the byte being filled is \<open>p div 2\<close>.\<close>

fun discid_loop :: "nat \<Rightarrow> u8 list \<Rightarrow> string \<Rightarrow> u8 list" where
  "discid_loop p dst [] = dst"
| "discid_loop p dst (c # gid) =
     (if p < 10 then
        let dv = fromHex c
        in if dv < 0 then discid_loop p dst gid
           else discid_loop (Suc p) (dst[p div 2 := dst ! (p div 2) * 16 + word_of_int dv]) gid
      else dst)"

definition configGetDiscIDBinary :: "config_set \<Rightarrow> u8 list" where
  "configGetDiscIDBinary cs =
     (case configGetStr cs CONFIG_ITEM_DNAS of
        None \<Rightarrow> [0, 0, 0, 0, 0]
      | Some gid \<Rightarrow> discid_loop 0 [0, 0, 0, 0, 0] gid)"

definition vmc_key :: "int \<Rightarrow> string" where
  "vmc_key slot = bounded CONFIG_KEY_NAME_LEN (CONFIG_ITEM_VMC @ ''_'' @ int_to_dec slot)"

definition configGetVMC :: "config_set \<Rightarrow> nat \<Rightarrow> int \<Rightarrow> string" where
  "configGetVMC cs len slot = snd (configGetStrCopy cs (vmc_key slot) len)"

definition configRemoveVMC :: "config_set \<Rightarrow> int \<Rightarrow> config_set" where
  "configRemoveVMC cs slot = snd (configRemoveKey cs (vmc_key slot))"

definition configSetVMC :: "config_set \<Rightarrow> string \<Rightarrow> int \<Rightarrow> config_set" where
  "configSetVMC cs vmc slot =
     (if vmc = [] then configRemoveVMC cs slot else snd (configSetStr cs (vmc_key slot) vmc))"

subsection \<open>Reading and writing files\<close>

text \<open>One line of a configuration file, given the prefix in force.\<close>

definition config_line :: "string \<times> config_set \<Rightarrow> string \<Rightarrow> ub + string \<times> config_set" where
  "config_line st line =
     (let (prefix, cs) = st
      in bindR (splitAssignment line CONFIG_KEY_NAME_LEN CONFIG_KEY_VALUE_LEN) (\<lambda>(eqpos, k, v).
           if eqpos \<noteq> 0 then
             let prefix' = (if \<not> isWS (first_char line) then [] else prefix);
                 k' = (if prefix' \<noteq> [] then bounded CONFIG_KEY_NAME_LEN (prefix' @ ''_'' @ k) else k)
             in Inr (prefix', snd (configSetStr cs k' v))
           else bindR (parsePrefix line prefix) (\<lambda>(_, prefix'). Inr (prefix', cs))))"

fun config_lines :: "string \<times> config_set \<Rightarrow> string list \<Rightarrow> ub + string \<times> config_set" where
  "config_lines st [] = Inr st"
| "config_lines st (l # ls) = bindR (config_line st l) (\<lambda>st'. config_lines st' ls)"

definition configReadFileBuffer :: "nat \<Rightarrow> file_buffer \<Rightarrow> config_set \<Rightarrow> ub + config_set" where
  "configReadFileBuffer fuel fb cs =
     bindR (readLines fuel fb) (\<lambda>ls.
     bindR (config_lines ([], cs) ls) (\<lambda>(_, cs').
       Inr (cs'\<lparr>modified := False\<rparr>)))"

definition configReadBuffer :: "nat \<Rightarrow> config_set \<Rightarrow> string \<Rightarrow> ub + bool \<times> config_set" where
  "configReadBuffer fuel cs content =
     bindR (configReadFileBuffer fuel (openFileBufferBuffer content) cs) (\<lambda>cs'. Inr (True, cs'))"

text \<open>The file system: the content of each file that can be opened for reading.\<close>

type_synonym files = "string \<rightharpoonup> string"

definition configRead :: "nat \<Rightarrow> string \<Rightarrow> files \<Rightarrow> config_set \<Rightarrow> ub + bool \<times> config_set" where
  "configRead fuel junk fs cs =
     (case filename cs of
        None \<Rightarrow> Inl NullPointer
      | Some path \<Rightarrow>
         (case fs path of
            None \<Rightarrow> Inr (False, cs\<lparr>modified := False\<rparr>)
          | Some content \<Rightarrow>
              bindR (configReadFileBuffer fuel (openFileBuffer junk content) cs) (\<lambda>cs'. Inr (True, cs'))))"

text \<open>Entries whose key starts with a hash mark are not written.\<close>

definition persistent :: "config_value \<Rightarrow> bool" where
  "persistent it \<longleftrightarrow> key it \<noteq> [] \<and> first_char (key it) \<noteq> CHR ''#''"

definition config_text_line :: "config_value \<Rightarrow> string" where
  "config_text_line it = bounded 512 (key it @ ''='' @ val it @ [CR, LF])"

text \<open>\<open>creatable\<close> says whether the file can be opened for writing.\<close>

definition configWrite :: "bool \<Rightarrow> files \<Rightarrow> config_set \<Rightarrow> ub + bool \<times> config_set \<times> files" where
  "configWrite creatable fs cs =
     (if modified cs then
        (case filename cs of
           None \<Rightarrow> Inl NullPointer
         | Some path \<Rightarrow>
             if creatable then
               bindR (writeAll (openWriteBuffer 4096)
                       (map config_text_line (filter persistent (items cs)))) (\<lambda>wb.
                 Inr (True, cs\<lparr>modified := False\<rparr>, fs(path \<mapsto> closeWriteBuffer wb)))
             else Inr (False, cs, fs))
      else Inr (True, cs, fs))"


subsection \<open>The store as a map\<close>

definition cfg_map :: "config_set \<Rightarrow> string \<rightharpoonup> string" where
  "cfg_map cs = map_of (map (\<lambda>it. (key it, val it)) (items cs))"

definition valid_key :: "string \<Rightarrow> bool" where
  "valid_key k \<longleftrightarrow> configKeyValidate k \<and> length k < CONFIG_KEY_NAME_LEN"

definition cfg_ok :: "config_set \<Rightarrow> bool" where
  "cfg_ok cs \<longleftrightarrow> distinct (map key (items cs)) \<and>
     (\<forall>it \<in> set (items cs). valid_key (key it) \<and> length (val it) < CONFIG_KEY_VALUE_LEN)"

lemma name_matches_iff: "length (key it) < CONFIG_KEY_NAME_LEN \<Longrightarrow> name_matches k it \<longleftrightarrow> key it = k"
  by (simp add: name_matches_def strncmp_eq_short)

lemma find_map_of:
  "\<forall>it \<in> set xs. P it \<longleftrightarrow> key it = k \<Longrightarrow>
   map_option val (find P xs) = map_of (map (\<lambda>it. (key it, val it)) xs) k"
  by (induction xs) auto

lemma cfg_ok_matches: "cfg_ok cs \<Longrightarrow> \<forall>it \<in> set (items cs). name_matches k it \<longleftrightarrow> key it = k"
  by (auto simp: cfg_ok_def valid_key_def name_matches_iff)

lemma getConfigItem_map:
  "cfg_ok cs \<Longrightarrow> map_option val (getConfigItemForName cs k) = cfg_map cs k"
  unfolding getConfigItemForName_def cfg_map_def by (rule find_map_of) (rule cfg_ok_matches)

lemma cfg_map_dom: "cfg_ok cs \<Longrightarrow> cfg_map cs k \<noteq> None \<Longrightarrow> valid_key k"
  unfolding cfg_ok_def cfg_map_def by (auto simp: map_of_eq_None_iff)

lemma configGetStr_map: "cfg_ok cs \<Longrightarrow> configGetStr cs k = cfg_map cs k"
  using cfg_map_dom [of cs k]
  by (cases "cfg_map cs k") (auto simp: configGetStr_def getConfigItem_map valid_key_def)

lemma key_update_first:
  "(\<And>x. key (f x) = key x) \<Longrightarrow> map key (update_first P f xs) = map key xs"
  by (induction xs) auto

lemma set_update_first: "set (update_first P f xs) \<subseteq> set xs \<union> f ` set xs"
  by (induction xs) auto

lemma map_of_update_first:
  "\<forall>it \<in> set xs. P it \<longleftrightarrow> key it = k \<Longrightarrow> find P xs \<noteq> None \<Longrightarrow>
   map_of (map (\<lambda>it. (key it, val it)) (update_first P (\<lambda>it. it\<lparr>val := v\<rparr>) xs)) =
   (map_of (map (\<lambda>it. (key it, val it)) xs))(k \<mapsto> v)"
  by (induction xs) (auto simp: fun_eq_iff)

lemma cfg_map_modified [simp]: "cfg_map (cs\<lparr>modified := m\<rparr>) = cfg_map cs"
  by (simp add: cfg_map_def)

lemma cfg_ok_modified [simp]: "cfg_ok (cs\<lparr>modified := m\<rparr>) = cfg_ok cs"
  by (simp add: cfg_ok_def)

lemma configSetStr_map:
  assumes ok: "cfg_ok cs" and k: "valid_key k"
  shows "cfg_map (snd (configSetStr cs k v)) = (cfg_map cs)(k \<mapsto> bounded CONFIG_KEY_VALUE_LEN v)"
proof (cases "getConfigItemForName cs k")
  case None
  then have "cfg_map cs k = None" using getConfigItem_map [OF ok, of k] by simp
  with None k show ?thesis
    by (auto simp: configSetStr_def valid_key_def addConfigValue_def allocConfigItem_def cfg_map_def
        map_add_def fun_eq_iff Let_def split: option.splits)
next
  case (Some it)
  then have it: "it \<in> set (items cs)" "name_matches k it"
    by (auto simp: getConfigItemForName_def find_Some_iff)
  then have it': "key it = k" "length (val it) < CONFIG_KEY_VALUE_LEN"
    using ok cfg_ok_matches [OF ok] by (auto simp: cfg_ok_def)
  show ?thesis
  proof (cases "strncmp_eq CONFIG_KEY_VALUE_LEN (val it) v")
    case True
    then have "val it = v" using it'(2) by (simp add: strncmp_eq_short)
    moreover have "cfg_map cs k = Some (val it)" using getConfigItem_map [OF ok, of k] Some by simp
    ultimately show ?thesis using True Some k it'(2)
      by (auto simp: configSetStr_def valid_key_def fun_eq_iff)
  next
    case False
    have "find (name_matches k) (items cs) \<noteq> None" using Some by (simp add: getConfigItemForName_def)
    with map_of_update_first [OF cfg_ok_matches [OF ok]] False Some k show ?thesis
      by (simp add: configSetStr_def valid_key_def cfg_map_def Let_def)
  qed
qed

lemma configSetStr_ok:
  assumes ok: "cfg_ok cs" and k: "valid_key k"
  shows "cfg_ok (snd (configSetStr cs k v))"
proof (cases "getConfigItemForName cs k")
  case None
  then have "k \<notin> key ` set (items cs)"
    using cfg_ok_matches [OF ok] by (auto simp: getConfigItemForName_def find_None_iff)
  with None ok k show ?thesis
    by (auto simp: configSetStr_def cfg_ok_def valid_key_def addConfigValue_def allocConfigItem_def Let_def)
next
  case (Some it)
  let ?f = "\<lambda>it. it\<lparr>val := bounded CONFIG_KEY_VALUE_LEN v\<rparr>"
  have "set (update_first (name_matches k) ?f (items cs)) \<subseteq> set (items cs) \<union> ?f ` set (items cs)"
    by (rule set_update_first)
  then have "cfg_ok (cs\<lparr>items := update_first (name_matches k) ?f (items cs)\<rparr>)"
    using ok by (auto simp: cfg_ok_def key_update_first dest!: subsetD)
  with Some ok k show ?thesis by (simp add: configSetStr_def Let_def)
qed

lemma map_of_filter_key:
  "map_of (map (\<lambda>it. (key it, val it)) (filter (\<lambda>it. key it \<noteq> k) xs)) =
   (map_of (map (\<lambda>it. (key it, val it)) xs))(k := None)"
  by (induction xs) (auto simp: fun_eq_iff)

lemma filter_matches:
  "cfg_ok cs \<Longrightarrow> filter (\<lambda>it. \<not> name_matches k it) (items cs) = filter (\<lambda>it. key it \<noteq> k) (items cs)"
  by (rule filter_cong [OF refl]) (use cfg_ok_matches in blast)

lemma configRemoveKey_map:
  "cfg_ok cs \<Longrightarrow> valid_key k \<Longrightarrow> cfg_map (snd (configRemoveKey cs k)) = (cfg_map cs)(k := None)"
  by (simp add: configRemoveKey_def valid_key_def Let_def filter_matches cfg_map_def map_of_filter_key)

lemma configRemoveKey_ok: "cfg_ok cs \<Longrightarrow> cfg_ok (snd (configRemoveKey cs k))"
  by (auto simp: configRemoveKey_def cfg_ok_def Let_def distinct_map_filter)

lemma cfg_ok_empty [simp]: "items cs = [] \<Longrightarrow> cfg_ok cs"
  by (simp add: cfg_ok_def)


subsection \<open>The interface of a bounded key/value store\<close>

text \<open>
  What the users of the configuration rely on: after a store the key has the clipped value
  and no other key has changed, a removal removes exactly its key, and both keep the
  representation invariant.
\<close>

locale bounded_store =
  fixes get :: "'s \<Rightarrow> 'k \<Rightarrow> 'v option"
    and put :: "'s \<Rightarrow> 'k \<Rightarrow> 'v \<Rightarrow> 's"
    and del :: "'s \<Rightarrow> 'k \<Rightarrow> 's"
    and inv :: "'s \<Rightarrow> bool"
    and valid :: "'k \<Rightarrow> bool"
    and clip :: "'v \<Rightarrow> 'v"
  assumes get_put: "inv s \<Longrightarrow> valid k \<Longrightarrow> get (put s k v) = (get s)(k \<mapsto> clip v)"
    and get_del: "inv s \<Longrightarrow> valid k \<Longrightarrow> get (del s k) = (get s)(k := None)"
    and inv_put: "inv s \<Longrightarrow> valid k \<Longrightarrow> inv (put s k v)"
    and inv_del: "inv s \<Longrightarrow> valid k \<Longrightarrow> inv (del s k)"
    and clip_clip: "clip (clip v) = clip v"
begin

lemma del_put_other:
  assumes "inv s" "valid k" "valid k'" "k \<noteq> k'"
  shows "get (del (put s k v) k') = get (put (del s k') k v)"
  using assms by (simp add: get_put get_del inv_put inv_del fun_upd_twist)

lemma put_again:
  assumes "inv s" "valid k"
  shows "get (put (put s k v) k w) = get (put s k w)"
  using assms by (simp add: get_put inv_put)

lemma inv_put_all:
  assumes "inv s" "\<forall>(k, v) \<in> set kvs. valid k"
  shows "inv (foldl (\<lambda>s (k, v). put s k v) s kvs)"
  using assms by (induction kvs arbitrary: s) (auto simp: inv_put)

lemma get_put_all:
  assumes "inv s" "\<forall>(k, v) \<in> set kvs. valid k"
  shows "get (foldl (\<lambda>s (k, v). put s k v) s kvs) = get s ++ map_of (rev (map (apsnd clip) kvs))"
  using assms
proof (induction kvs arbitrary: s)
  case (Cons kv kvs)
  obtain k v where kv: "kv = (k, v)" by force
  with Cons have "get (foldl (\<lambda>s (k, v). put s k v) (put s k v) kvs) =
      (get s)(k \<mapsto> clip v) ++ map_of (rev (map (apsnd clip) kvs))"
    by (simp add: get_put inv_put)
  then show ?case by (simp add: kv map_add_upd_left [symmetric] map_add_assoc [symmetric] map_add_def fun_eq_iff split: option.splits)
qed simp

end

interpretation cfg: bounded_store cfg_map "\<lambda>cs k v. snd (configSetStr cs k v)"
  "\<lambda>cs k. snd (configRemoveKey cs k)" cfg_ok valid_key "bounded CONFIG_KEY_VALUE_LEN"
  by unfold_locales
     (auto simp: configSetStr_map configRemoveKey_map configSetStr_ok configRemoveKey_ok
       simp del: config_lens)

lemma foldl_pairs:
  "foldl (\<lambda>d it. snd (configSetStr d (key it) (val it))) d xs =
   foldl (\<lambda>d (k, v). snd (configSetStr d k v)) d (map (\<lambda>it. (key it, val it)) xs)"
  by (induction xs arbitrary: d) auto

lemma map_of_distinct_rev: "distinct (map fst xs) \<Longrightarrow> map_of (rev xs) = map_of xs"
  by (rule map_of_inject_set [THEN iffD2]) (simp_all add: rev_map [symmetric])

lemma configMerge_map:
  assumes "cfg_ok dest" "cfg_ok source"
  shows "cfg_map (configMerge dest source) = cfg_map dest ++ cfg_map source"
    and "cfg_ok (configMerge dest source)"
proof -
  let ?kvs = "map (\<lambda>it. (key it, val it)) (items source)"
  have v: "\<forall>(k, v) \<in> set ?kvs. valid_key k" using assms(2) by (auto simp: cfg_ok_def)
  have "map (apsnd (bounded CONFIG_KEY_VALUE_LEN)) ?kvs = ?kvs"
    using assms(2) by (auto simp: cfg_ok_def)
  moreover have "map_of (rev ?kvs) = map_of ?kvs"
    using assms(2) by (intro map_of_distinct_rev) (simp add: cfg_ok_def comp_def)
  ultimately show "cfg_map (configMerge dest source) = cfg_map dest ++ cfg_map source"
    using cfg.get_put_all [OF assms(1) v] unfolding configMerge_def foldl_pairs
    by (simp only: cfg_map_def [of source])
  show "cfg_ok (configMerge dest source)"
    unfolding configMerge_def foldl_pairs by (rule cfg.inv_put_all [OF assms(1) v])
qed

subsection \<open>What a written file reads back as\<close>

definition file_safe :: "config_value \<Rightarrow> bool" where
  "file_safe it \<longleftrightarrow> valid_key (key it) \<and> length (val it) < CONFIG_KEY_VALUE_LEN \<and>
     \<not> isWS (first_char (key it)) \<and> take 3 (key it) \<noteq> BOM \<and>
     LF \<notin> set (key it) \<and> NUL \<notin> set (key it) \<and> LF \<notin> set (val it) \<and> NUL \<notin> set (val it)"

lemma config_text_line_full:
  "file_safe it \<Longrightarrow> config_text_line it = (key it @ ''='' @ val it @ [CR]) @ [LF]"
  by (simp add: config_text_line_def file_safe_def valid_key_def)

lemma raw_lines_line:
  "LF \<notin> set x \<Longrightarrow> raw_lines (x @ LF # r) = x # raw_lines r"
  by (subst raw_lines.simps)
     (simp add: first_line_def after_line_def takeWhile_neq_append_Cons)

lemma file_line_clean:
  "file_safe it \<Longrightarrow> LF \<notin> set (key it @ ''='' @ val it @ [CR])"
  by (auto simp: file_safe_def LF_def CR_def)

lemma raw_lines_config:
  "\<forall>it \<in> set ps. file_safe it \<Longrightarrow>
   raw_lines (concat (map config_text_line ps)) = map (\<lambda>it. key it @ ''='' @ val it @ [CR]) ps"
proof (induction ps)
  case (Cons it ps)
  then have s: "file_safe it" by simp
  have "concat (map config_text_line (it # ps)) =
      (key it @ ''='' @ val it @ [CR]) @ LF # concat (map config_text_line ps)"
    by (simp add: config_text_line_full [OF s])
  with raw_lines_line [OF file_line_clean [OF s]] Cons show ?case by simp
qed simp

lemma persistent_line_not_comment:
  "persistent it \<Longrightarrow> \<not> is_comment (key it @ x)"
  by (cases "key it") (auto simp: persistent_def is_comment_def first_char_def)

lemma text_lines_config:
  assumes "\<forall>it \<in> set ps. file_safe it \<and> persistent it"
  shows "text_lines (concat (map config_text_line ps)) = map (\<lambda>it. key it @ ''='' @ val it) ps"
proof -
  have "filter (\<lambda>l. \<not> is_comment l) (map (\<lambda>it. key it @ ''='' @ val it @ [CR]) ps) =
      map (\<lambda>it. key it @ ''='' @ val it @ [CR]) ps"
    using assms by (auto simp: filter_id_conv persistent_line_not_comment)
  with assms show ?thesis
    by (simp add: text_lines_def raw_lines_config strip_cr_def butlast_append)
qed

lemma splitAssignment_line:
  assumes "file_safe it"
  shows "splitAssignment (key it @ ''='' @ val it) CONFIG_KEY_NAME_LEN CONFIG_KEY_VALUE_LEN
    = Inr (Suc (length (key it)), key it, val it)"
proof -
  obtain c cs where k: "key it = c # cs"
    using assms by (cases "key it") (auto simp: file_safe_def valid_key_def configKeyValidate_def)
  then have "dropWhile isWS (key it @ ''='' @ val it) = key it @ CHR ''='' # val it"
    using assms by (simp add: file_safe_def first_char_def)
  moreover have "strchr (key it @ CHR ''='' # val it) CHR ''='' = Some (length (key it))"
    using assms by (intro strchr_append) (simp add: file_safe_def valid_key_def configKeyValidate_def)
  ultimately show ?thesis
    using assms by (simp add: splitAssignment_def file_safe_def valid_key_def Let_def)
qed

lemma config_line_plain:
  assumes "file_safe it"
  shows "config_line ([], cs) (key it @ ''='' @ val it) = Inr ([], snd (configSetStr cs (key it) (val it)))"
  using splitAssignment_line [OF assms] assms
  by (simp add: config_line_def file_safe_def valid_key_def configKeyValidate_def del: config_lens)

lemma config_lines_plain:
  "\<forall>it \<in> set ps. file_safe it \<Longrightarrow>
   config_lines ([], cs) (map (\<lambda>it. key it @ ''='' @ val it) ps) =
     Inr ([], foldl (\<lambda>d it. snd (configSetStr d (key it) (val it))) cs ps)"
proof (induction ps arbitrary: cs)
  case (Cons it ps)
  then have "file_safe it" by simp
  from config_line_plain [OF this] Cons show ?case by simp
qed simp

lemma set_new_key:
  assumes "file_safe it" "key it \<notin> key ` set (items cs)" "\<forall>i \<in> set (items cs). length (key i) < CONFIG_KEY_NAME_LEN"
  shows "\<exists>m. snd (configSetStr cs (key it) (val it)) = cs\<lparr>items := items cs @ [\<lparr>key = key it, val = val it\<rparr>], modified := m\<rparr>"
proof -
  have "getConfigItemForName cs (key it) = None"
    unfolding getConfigItemForName_def find_None_iff
  proof
    assume "\<exists>x. x \<in> set (items cs) \<and> name_matches (key it) x"
    then obtain x where x: "x \<in> set (items cs)" "name_matches (key it) x" by blast
    then have "key x = key it" using assms(3) by (simp add: name_matches_iff)
    with x(1) assms(2) show False by (metis image_eqI)
  qed
  with assms(1) show ?thesis
    by (intro exI [of _ "modified cs \<or> first_char (key it) \<noteq> CHR ''#''"] config_set.equality)
       (auto simp: configSetStr_def file_safe_def valid_key_def addConfigValue_def allocConfigItem_def Let_def)
qed

lemma foldl_set_new:
  "\<forall>it \<in> set ps. file_safe it \<Longrightarrow> distinct (map key (items cs @ ps)) \<Longrightarrow>
   \<forall>i \<in> set (items cs). length (key i) < CONFIG_KEY_NAME_LEN \<Longrightarrow>
   \<exists>m. foldl (\<lambda>d it. snd (configSetStr d (key it) (val it))) cs ps = cs\<lparr>items := items cs @ ps, modified := m\<rparr>"
proof (induction ps arbitrary: cs)
  case Nil
  show ?case by (intro exI [of _ "modified cs"]) simp
next
  case (Cons it ps)
  have s: "file_safe it" "key it \<notin> key ` set (items cs)" using Cons.prems by auto
  from set_new_key [OF this Cons.prems(3)] obtain m where
    m: "snd (configSetStr cs (key it) (val it)) = cs\<lparr>items := items cs @ [it], modified := m\<rparr>"
    by (metis config_value.surjective unit.exhaust)
  have "\<exists>m'. foldl (\<lambda>d it. snd (configSetStr d (key it) (val it)))
      (cs\<lparr>items := items cs @ [it], modified := m\<rparr>) ps =
      (cs\<lparr>items := items cs @ [it], modified := m\<rparr>)\<lparr>items := (items cs @ [it]) @ ps, modified := m'\<rparr>"
    using Cons.IH [of "cs\<lparr>items := items cs @ [it], modified := m\<rparr>"] Cons.prems s(1)
    by (auto simp: file_safe_def valid_key_def)
  then show ?case by (simp add: m)
qed


lemma file_text_bom:
  assumes "\<forall>it \<in> set ps. file_safe it"
  shows "skip_bom (concat (map config_text_line ps)) = concat (map config_text_line ps)"
proof (cases ps)
  case (Cons it ps')
  with assms have s: "file_safe it" by simp
  have "take 3 (key it @ ''='' @ x) \<noteq> BOM" for x
  proof (cases "length (key it) < 3")
    case True
    then have "CHR ''='' \<in> set (take 3 (key it @ ''='' @ x))" by (simp add: take_Cons')
    moreover have "CHR ''='' \<notin> set BOM" by (simp add: BOM_def)
    ultimately show ?thesis by metis
  qed (use s in \<open>simp add: file_safe_def\<close>)
  then show ?thesis by (simp add: skip_bom_def Cons config_text_line_full [OF s])
qed (simp add: skip_bom_def BOM_def)

lemma file_text_props:
  assumes "\<forall>it \<in> set ps. file_safe it"
  shows "cstring (concat (map config_text_line ps))"
    and "lines_fit 4096 (concat (map config_text_line ps))"
    and "well_ended (concat (map config_text_line ps))"
proof -
  show "cstring (concat (map config_text_line ps))"
    using assms by (auto simp: cstring_def config_text_line_full) (auto simp: file_safe_def NUL_def CR_def LF_def)
  show "lines_fit 4096 (concat (map config_text_line ps))"
    using assms by (auto simp: lines_fit_def raw_lines_config file_safe_def valid_key_def)
  show "well_ended (concat (map config_text_line ps))"
    using assms by (cases ps rule: rev_cases) (auto simp: well_ended_def config_text_line_full)
qed

subsection \<open>Properties\<close>

text \<open>
  C1. Saving a modified configuration and loading the file into an empty set with the same
  file name gives exactly the entries that are to be kept (those whose key does not start
  with a hash mark), in the same order, when their keys are distinct and the entries can be
  represented in the line format (\<open>file_safe\<close>).
\<close>

theorem config_file_roundtrip:
  fixes cs cs0 :: config_set
  defines "ps \<equiv> filter persistent (items cs)"
  assumes "modified cs" "filename cs = Some path" "filename cs0 = Some path" "items cs0 = []"
    and safe: "\<forall>it \<in> set ps. file_safe it" and dist: "distinct (map key (items cs))"
    and junk: "length junk = 4096" and fuel: "length (concat (map config_text_line ps)) + 2 \<le> fuel"
  shows "\<exists>cs1 fs1. configWrite True fs cs = Inr (True, cs1, fs1) \<and>
    configRead fuel junk fs1 cs0 = Inr (True, cs0\<lparr>items := ps, modified := False\<rparr>)"
proof -
  let ?t = "concat (map config_text_line ps)"
  obtain wb where wb: "writeAll (openWriteBuffer 4096) (map config_text_line ps) = Inr wb"
      "closeWriteBuffer wb = ?t"
    using writeAll_ok [of "openWriteBuffer 4096" "map config_text_line ps"]
    by (auto simp: wb_ok_def openWriteBuffer_def closeWriteBuffer_def)
  obtain f where f: "fuel = Suc f" "length ?t < f" using fuel by (cases fuel) auto
  have bom: "skip_bom ?t = ?t" by (rule file_text_bom [OF safe])
  note props = file_text_props [OF safe]
  have "rd_ready (openFileBuffer junk ?t)" "fb_unread (openFileBuffer junk ?t) = ?t"
    using open_ready [OF props(1), of junk] props(2) bom junk by auto
  then have lines: "readLines fuel (openFileBuffer junk ?t) = Inr (map (\<lambda>it. key it @ ''='' @ val it) ps)"
    using readLines_correct [of "openFileBuffer junk ?t" f] f props(3) safe
    by (simp add: ps_def text_lines_config del: readLines.simps)
  have "distinct (map key (items cs0 @ ps))" using assms(5) dist by (simp add: ps_def distinct_map_filter)
  then obtain m where "foldl (\<lambda>d it. snd (configSetStr d (key it) (val it))) cs0 ps =
      cs0\<lparr>items := items cs0 @ ps, modified := m\<rparr>"
    using foldl_set_new [OF safe, of cs0] assms(5) by auto
  then have "configReadFileBuffer fuel (openFileBuffer junk ?t) cs0 = Inr (cs0\<lparr>items := ps, modified := False\<rparr>)"
    using lines config_lines_plain [OF safe, of cs0] assms(5)
    by (simp add: configReadFileBuffer_def del: readLines.simps)
  then show ?thesis
    using assms(2-4) wb by (simp add: configWrite_def configRead_def ps_def [symmetric])
qed

definition demo_set :: config_set where
  "demo_set = \<lparr>ctype = 1, items = [\<lparr>key = ''#Name'', val = ''x''\<rparr>, \<lparr>key = ''theme'', val = ''FUTURE''\<rparr>],
     filename = Some ''conf_opl.cfg'', modified = True, uid = 1\<rparr>"

theorem config_file_roundtrip_witness:
  "\<exists>cs1 fs1. configWrite True Map.empty demo_set = Inr (True, cs1, fs1) \<and>
     configRead 50 (replicate 4096 NUL) fs1 (demo_set\<lparr>items := []\<rparr>) =
       Inr (True, demo_set\<lparr>items := [\<lparr>key = ''theme'', val = ''FUTURE''\<rparr>], modified := False\<rparr>)"
proof -
  have f: "filter persistent (items demo_set) = [\<lparr>key = ''theme'', val = ''FUTURE''\<rparr>]"
    by (simp add: demo_set_def persistent_def first_char_def)
  have "\<exists>cs1 fs1. configWrite True Map.empty demo_set = Inr (True, cs1, fs1) \<and>
     configRead 50 (replicate 4096 NUL) fs1 (demo_set\<lparr>items := []\<rparr>) =
       Inr (True, demo_set\<lparr>items := []\<rparr>\<lparr>items := filter persistent (items demo_set), modified := False\<rparr>)"
    by (rule config_file_roundtrip)
       (simp_all only: f, simp_all add: demo_set_def file_safe_def valid_key_def configKeyValidate_def
         first_char_def isWS_def LF_def NUL_def BOM_def config_text_line_def bounded_def)
  then show ?thesis unfolding f by simp
qed



text \<open>
  A key of 32 or more characters is accepted (the store returns 1) but can never be read
  back: it is cut to 31 characters and the lookup compares 32, so each store appends one more
  entry.
\<close>

theorem config_long_key_lost:
  assumes "cfg_ok cs" "configKeyValidate k" "CONFIG_KEY_NAME_LEN \<le> length k"
  shows "fst (configSetStr cs k v) \<and> configGetStr (snd (configSetStr cs k v)) k = None \<and>
    length (items (snd (configSetStr cs k v))) = Suc (length (items cs))"
proof -
  have none: "getConfigItemForName cs k = None"
    using cfg_ok_matches [OF assms(1), of k] assms
    by (auto simp: getConfigItemForName_def find_None_iff cfg_ok_def valid_key_def)
  have "\<not> name_matches k (allocConfigItem k v)"
    using assms(3) by (auto simp: allocConfigItem_def name_matches_iff bounded_def dest: arg_cong [where f = length])
  then have "find (name_matches k) (items cs @ [allocConfigItem k v]) = None"
    using none by (simp add: find_None_iff getConfigItemForName_def) metis
  then show ?thesis
    using none assms(2)
    by (simp add: configSetStr_def addConfigValue_def configGetStr_def getConfigItemForName_def Let_def)
qed

theorem config_long_key_lost_witness:
  "configGetStr (snd (configSetStr (demo_set\<lparr>items := []\<rparr>) (replicate 32 CHR ''k'') ''1''))
     (replicate 32 CHR ''k'') = None"
  using config_long_key_lost [of "demo_set\<lparr>items := []\<rparr>" "replicate 32 CHR ''k''" "''1''"]
  by (simp add: configKeyValidate_def)

text \<open>An integer of the C type \<open>int\<close> stored with \<open>configSetInt\<close> is read back by
  \<open>configGetInt\<close> unchanged: its decimal text is never cut.\<close>

theorem config_int_roundtrip:
  assumes "cfg_ok cs" "valid_key k" "- (2 ^ 31) \<le> i" "i < 2 ^ 31"
  shows "configGetInt (snd (configSetInt cs k i)) k = Some i"
proof -
  have "length (int_to_dec i) \<le> 11" by (rule length_int_to_dec [OF assms(3,4)])
  then have b: "bounded 12 (int_to_dec i) = int_to_dec i"
      "bounded CONFIG_KEY_VALUE_LEN (int_to_dec i) = int_to_dec i" by simp_all
  have "configGetStr (snd (configSetInt cs k i)) k = Some (int_to_dec i)"
    using cfg.get_put [OF assms(1,2), of "int_to_dec i"] configSetStr_ok [OF assms(1,2), of "int_to_dec i"]
    by (simp only: configSetInt_def b configGetStr_map) simp
  then show ?thesis by (simp add: configGetInt_def atoi_int_to_dec [OF assms(3,4)])
qed

theorem config_int_roundtrip_witness:
  "configGetInt (snd (configSetInt (demo_set\<lparr>items := []\<rparr>) ''vmode'' (- 2147483648))) ''vmode''
     = Some (- 2147483648)"
  by (rule config_int_roundtrip) (simp_all add: valid_key_def configKeyValidate_def)


subsection \<open>Colours\<close>

lemma fromHex_toHex: "d < 16 \<Longrightarrow> fromHex (toHex d) = int d"
proof -
  have "\<forall>d \<in> set [0..<16]. fromHex (toHex d) = int d" by code_simp
  then show "d < 16 \<Longrightarrow> fromHex (toHex d) = int d" by simp
qed


abbreviation hi :: "u8 \<Rightarrow> nat" where "hi x \<equiv> unat x div 16"
abbreviation lo :: "u8 \<Rightarrow> nat" where "lo x \<equiv> unat x mod 16"

lemma unat_u8_lt: "unat (x :: u8) < 256"
  using unsigned_less [of x, where 'a = nat] by simp

lemma hi_lo_lt [simp]: "hi x < 16" "lo x < 16"
  using unat_u8_lt [of x] by (auto simp: less_mult_imp_div_less)

lemma strToColor_hex:
  "strToColor (CHR ''#'' # hex2 r @ hex2 g @ hex2 b) =
     (True, [of_nat (hi r * 16 + lo g), of_nat (lo r * 16 + hi b), of_nat (hi g * 16 + lo b)])"
  by (simp add: strToColor_def hex2_def fromHex_toHex Let_def)

lemma of_nat_nibbles_eq:
  fixes x :: u8
  assumes "a < 16" "c < 16"
  shows "of_nat (a * 16 + c) = x \<longleftrightarrow> a = hi x \<and> c = lo x"
proof -
  have "of_nat (a * 16 + c) = x \<longleftrightarrow> unat (of_nat (a * 16 + c) :: u8) = unat x"
    by (simp only: word_unat_eq_iff)
  also have "unat (of_nat (a * 16 + c) :: u8) = a * 16 + c"
    using assms by (simp add: unat_of_nat del: of_nat_add of_nat_mult)
  also have "a * 16 + c = unat x \<longleftrightarrow> a = hi x \<and> c = lo x"
  proof
    assume "a * 16 + c = unat x"
    then show "a = hi x \<and> c = lo x" using assms by (simp flip: \<open>a * 16 + c = unat x\<close>)
  next
    assume "a = hi x \<and> c = lo x"
    then show "a * 16 + c = unat x" by (metis div_mult_mod_eq)
  qed
  finally show ?thesis .
qed

text \<open>
  A stored colour does not read back as itself: \<open>strToColor\<close> deals the six hexadecimal
  digits to red, green and blue in turn instead of two to each, so the components that come
  back mix nibbles of all three; only colours whose red low, green high, green low and blue
  high nibbles agree survive.
\<close>

theorem config_color_mixed:
  assumes "cfg_ok cs" "valid_key k"
  shows "configGetColor (snd (configSetColor cs k r g b)) k =
      Some [of_nat (hi r * 16 + lo g), of_nat (lo r * 16 + hi b), of_nat (hi g * 16 + lo b)] \<and>
    (configGetColor (snd (configSetColor cs k r g b)) k = Some [r, g, b] \<longleftrightarrow>
      lo r = hi g \<and> lo g = hi g \<and> hi b = hi g)"
proof -
  let ?s = "CHR ''#'' # hex2 r @ hex2 g @ hex2 b"
  have "length ?s = 7" by (simp add: hex2_def)
  then have b: "bounded 8 ?s = ?s" "bounded CONFIG_KEY_VALUE_LEN ?s = ?s" by simp_all
  have "configGetStr (snd (configSetColor cs k r g b)) k = Some ?s"
    using cfg.get_put [OF assms, of ?s] configSetStr_ok [OF assms, of ?s]
    by (simp only: configSetColor_def b configGetStr_map) simp
  then have get: "configGetColor (snd (configSetColor cs k r g b)) k =
      Some [of_nat (hi r * 16 + lo g), of_nat (lo r * 16 + hi b), of_nat (hi g * 16 + lo b)]"
    by (simp only: configGetColor_def strToColor_hex option.map snd_conv)
  have "[of_nat (hi r * 16 + lo g), of_nat (lo r * 16 + hi b), of_nat (hi g * 16 + lo b)] = [r, g, b]
    \<longleftrightarrow> lo g = lo r \<and> (lo r = hi g \<and> hi b = lo g) \<and> hi g = hi b"
    by (simp only: list.inject of_nat_nibbles_eq hi_lo_lt simp_thms)
  then show ?thesis unfolding get option.inject by argo
qed

theorem config_color_mixed_witness:
  "configGetColor (snd (configSetColor (demo_set\<lparr>items := []\<rparr>) ''bg_color'' 0x28 0xC5 0xF9)) ''bg_color''
     = Some [0x25, 0x8F, 0xC9]"
proof -
  have k: "valid_key ''bg_color''" by (simp add: valid_key_def configKeyValidate_def)
  have ok: "cfg_ok (demo_set\<lparr>items := []\<rparr>)" by simp
  show ?thesis using config_color_mixed [OF ok k, of "0x28" "0xC5" "0xF9"] by simp
qed

subsection \<open>Memory safety of the reader\<close>

text \<open>The fields of a line fit in the arrays they are copied to.\<close>

definition prefix_fits :: "string \<Rightarrow> bool" where
  "prefix_fits line \<longleftrightarrow> (case strchr line CHR '':'' of Some c \<Rightarrow> c < CONFIG_KEY_NAME_LEN | None \<Rightarrow> True)"

definition fields_fit :: "string \<Rightarrow> bool" where
  "fields_fit line0 \<longleftrightarrow>
     (let line = dropWhile isWS line0
      in case strchr line CHR ''='' of
           Some e \<Rightarrow> e < CONFIG_KEY_NAME_LEN \<and> length line - Suc e < CONFIG_KEY_VALUE_LEN
         | None \<Rightarrow> prefix_fits line0)"

lemma parsePrefix_safe: "prefix_fits line \<Longrightarrow> \<exists>r. parsePrefix line p = Inr r"
  by (cases "strchr line CHR '':''") (auto simp: parsePrefix_def prefix_fits_def)

lemma config_line_safe:
  assumes "fields_fit line0"
  shows "\<exists>st'. config_line st line0 = Inr st'"
proof (cases "strchr (dropWhile isWS line0) CHR ''=''")
  case None
  with assms obtain r where "parsePrefix line0 (fst st) = Inr r"
    using parsePrefix_safe [of line0 "fst st"] by (auto simp: fields_fit_def)
  with None show ?thesis by (cases st; cases r) (simp add: config_line_def splitAssignment_def Let_def)
next
  case (Some e)
  with assms have e: "e < CONFIG_KEY_NAME_LEN" "length (dropWhile isWS line0) - Suc e < CONFIG_KEY_VALUE_LEN"
    by (simp_all add: fields_fit_def)
  with Some show ?thesis
    by (cases st) (simp add: config_line_def splitAssignment_def min_less_iff_disj Let_def)
qed

lemma config_lines_safe: "\<forall>l \<in> set ls. fields_fit l \<Longrightarrow> \<exists>st'. config_lines st ls = Inr st'"
proof (induction ls arbitrary: st)
  case (Cons l ls)
  then obtain st1 where "config_line st l = Inr st1" using config_line_safe [of l st] by auto
  with Cons show ?case by simp
qed simp

text \<open>
  Loading a configuration file neither leaves an array nor follows a null pointer when its lines
  fit the 4096-byte buffer, its keys and prefixes have at most 31 characters and its values at
  most 255, and it does not stop inside a comment line.
\<close>

theorem config_read_safe:
  assumes "filename cs = Some path" "fs path = Some content" "cstring content" "length junk = 4096"
    "lines_fit 4096 (skip_bom content)" "well_ended (skip_bom content)" "length content < fuel"
    "\<forall>l \<in> set (text_lines (skip_bom content)). fields_fit l"
  shows "\<exists>cs'. configRead (Suc fuel) junk fs cs = Inr (True, cs') \<and> \<not> modified cs'"
proof -
  have "readLines (Suc fuel) (openFileBuffer junk content) = Inr (text_lines (skip_bom content))"
    using readLines_correct [of "openFileBuffer junk content" fuel] open_ready [of content junk] assms
    by (simp add: skip_bom_def del: readLines.simps split: if_splits)
  moreover obtain p cs' where "config_lines ([], cs) (text_lines (skip_bom content)) = Inr (p, cs')"
    using config_lines_safe [OF assms(8)] by (metis surj_pair)
  ultimately show ?thesis
    using assms(1,2) by (simp add: configRead_def configReadFileBuffer_def del: readLines.simps)
qed

theorem config_read_safe_witness:
  "\<exists>cs'. configRead 8 (replicate 4096 NUL) [''f'' \<mapsto> ''a=b''] (demo_set\<lparr>filename := Some ''f''\<rparr>) = Inr (True, cs') \<and>
     \<not> modified cs'"
proof -
  have bom: "skip_bom ''a=b'' = ''a=b''" by (simp add: skip_bom_def BOM_def)
  have raw: "raw_lines ''a=b'' = [''a=b'']" by (simp add: raw_lines_eval LF_def)
  have tls: "text_lines ''a=b'' = [''a=b'']" by (simp add: text_lines_def raw is_comment_def strip_cr_def CR_def)
  have "\<exists>cs'. configRead (Suc 7) (replicate 4096 NUL) [''f'' \<mapsto> ''a=b''] (demo_set\<lparr>filename := Some ''f''\<rparr>) = Inr (True, cs') \<and>
     \<not> modified cs'"
    by (rule config_read_safe [where path = "''f''" and content = "''a=b''"])
       (simp_all only: bom tls, simp_all add: raw lines_fit_def well_ended_def is_comment_def cstring_def
         NUL_def LF_def fields_fit_def isWS_def)
  then show ?thesis by simp
qed

end
