(* ===== verification/Cheats.thy ===== *)
theory Cheats
  imports Config
begin

text \<open>
  The cheat files of \<open>src/src/cheatman.c\<close>: the line scanner, the parser that fills
  \<open>gCheats\<close>, and \<open>set_cheats_list\<close>, which flattens the enabled cheats into the address/value
  list handed to the in-game engine.  The text buffer is the list of its bytes with the
  terminating NUL; running past it is \<open>OutOfBounds\<close>.
\<close>

subsection \<open>Data\<close>

record code_t =
  addr :: u32
  val :: u32

record cheat_entry =
  name :: string
  codes :: "code_t list"
  enabled :: bool

definition MAX_HOOKS :: nat where "MAX_HOOKS = 5"
definition MAX_CODES :: nat where "MAX_CODES = 250"
definition MAX_CHEATLIST :: nat where "MAX_CHEATLIST = MAX_HOOKS * 2 + MAX_CODES * 2"
definition CHEAT_NAME_MAX :: nat where "CHEAT_NAME_MAX = 128"
definition CODE_DIGITS :: nat where "CODE_DIGITS = 16"
definition CHEAT_LINE_MAX :: nat where "CHEAT_LINE_MAX = 255"

lemma cheat_consts [simp]:
  "MAX_CODES = 250" "MAX_CHEATLIST = 510" "CHEAT_NAME_MAX = 128" "CODE_DIGITS = 16" "CHEAT_LINE_MAX = 255"
  by (simp_all add: MAX_HOOKS_def MAX_CODES_def MAX_CHEATLIST_def CHEAT_NAME_MAX_def CODE_DIGITS_def CHEAT_LINE_MAX_def)

subsection \<open>Recognising and reading a code\<close>

fun is_cheat_loop :: "nat \<Rightarrow> string \<Rightarrow> bool" where
  "is_cheat_loop i [] \<longleftrightarrow> i = CODE_DIGITS"
| "is_cheat_loop i (c # s) \<longleftrightarrow>
     (if isxdigit c then (if CODE_DIGITS < i + 1 then False else is_cheat_loop (i + 1) s)
      else if \<not> isspace c then False
      else is_cheat_loop i s)"

definition is_cheat_code :: "string \<Rightarrow> bool" where
  "is_cheat_code s = is_cheat_loop 0 s"

text \<open>The number \<open>%08X\<close> reads from hexadecimal digits.\<close>

fun hex_value :: "nat \<Rightarrow> string \<Rightarrow> nat" where
  "hex_value acc [] = acc"
| "hex_value acc (c # cs) = hex_value (16 * acc + nat (fromHex c)) cs"

text \<open>
  \<open>digits\<close> has \<open>CODE_DIGITS\<close> bytes, so \<open>digits[i]\<close>, where the terminator goes, is behind the array when
  \<open>i\<close> is \<open>CODE_DIGITS\<close>.
\<close>

definition make_code :: "string \<Rightarrow> ub + code_t" where
  "make_code s =
     (let digits = filter isxdigit s; i = length digits
      in if CODE_DIGITS \<le> i then Inl OutOfBounds
         else if i \<le> 8 then Inl Uninitialised
         else Inr \<lparr>addr = of_nat (hex_value 0 (take 8 digits)),
                   val = of_nat (hex_value 0 (take 8 (drop 8 digits)))\<rparr>)"

definition parse_line :: "string \<Rightarrow> ub + code_t" where
  "parse_line line =
     (if is_cheat_code line then make_code line else Inr \<lparr>addr = 0, val = 0\<rparr>)"

subsection \<open>Preparing a line\<close>

definition is_cmt_str :: "string \<Rightarrow> bool" where
  "is_cmt_str s \<longleftrightarrow> (2 \<le> length s \<and> take 2 s = ''//'') \<or> (s \<noteq> [] \<and> hd s = CHR ''#'')"

fun term_str :: "string \<Rightarrow> (string \<Rightarrow> bool) \<Rightarrow> string" where
  "term_str [] callback = []"
| "term_str (c # s) callback = (if callback (c # s) then [] else c # term_str s callback)"

definition is_empty_str :: "string \<Rightarrow> bool" where
  "is_empty_str s \<longleftrightarrow> \<not> list_ex isgraph s"

definition is_empty_substr :: "string \<Rightarrow> nat \<Rightarrow> bool" where
  "is_empty_substr s count \<longleftrightarrow> \<not> list_ex isgraph (take count s)"

definition trim_str :: "string \<Rightarrow> int \<times> string" where
  "trim_str s =
     (if is_empty_str s then (-1, s)
      else let first = length (takeWhile isspace s);
               last' = length s - 1 - length (takeWhile isspace (rev s));
               slen = last' - first + 1
           in (int slen, take slen (drop first s)))"

subsection \<open>The parser\<close>

record parse_state =
  gCheats :: "cheat_entry list"
  cheat_index :: int
  code_index :: nat
  temp_name :: string

text \<open>What \<open>parse_buf\<close> does with a screened line.\<close>

definition parse_entry :: "string \<Rightarrow> parse_state \<Rightarrow> ub + parse_state" where
  "parse_entry line st =
     (if \<not> is_cheat_code line \<and> 0 < length line
      then Inr (st\<lparr>temp_name := bounded (CHEAT_NAME_MAX + 1) line, code_index := 0\<rparr>)
      else bindR (parse_line line) (\<lambda>c.
        if addr c = 0 \<and> val c = 0 then Inr st
        else bindR
          (if cheat_index st < int MAX_CODES \<and> temp_name st \<noteq> []
           then let k = cheat_index st + 1
                in if int (length (gCheats st)) \<le> k then Inl OutOfBounds
                   else Inr (st\<lparr>cheat_index := k,
                                gCheats := (gCheats st)[nat k := (gCheats st ! nat k)
                                  \<lparr>name := bounded (CHEAT_NAME_MAX + 1) (temp_name st), enabled := True\<rparr>],
                                temp_name := []\<rparr>)
           else Inr st)
        (\<lambda>st. if 0 \<le> cheat_index st \<and> code_index st < MAX_CHEATLIST
              then let k = nat (cheat_index st); e = gCheats st ! k
                   in Inr (st\<lparr>gCheats := (gCheats st)[k := e\<lparr>codes := (codes e)[code_index st := c]\<rparr>],
                              code_index := code_index st + 1\<rparr>)
              else Inr st)))"

text \<open>
  The loop over the buffer.  \<open>buf\<close> is what is left of the allocation; a line that has no line
  feed advances past the terminator.
\<close>

fun parse_loop :: "string \<Rightarrow> parse_state \<Rightarrow> ub + parse_state" where
  "parse_loop [] st = Inl OutOfBounds"
| "parse_loop (c # cs) st =
     (if c = NUL then Inr st
      else let buf = c # cs;
               s = takeWhile (\<lambda>x. x \<noteq> NUL) buf;
               len = (case strchr s LF of None \<Rightarrow> length s
                      | Some n \<Rightarrow> if CHEAT_LINE_MAX < n then CHEAT_LINE_MAX else n)
           in bindR
                (if \<not> is_empty_substr s len
                 then if CHEAT_LINE_MAX < len then Inl OutOfBounds
                      else parse_entry (snd (trim_str (term_str (take len s) is_cmt_str))) st
                 else Inr st)
                (\<lambda>st. parse_loop (drop (len + 1) buf) st))"

definition blank_entry :: cheat_entry where
  "blank_entry = \<lparr>name = [], codes = replicate MAX_CHEATLIST \<lparr>addr = 0, val = 0\<rparr>, enabled = False\<rparr>"

definition parse_buf :: "string \<Rightarrow> cheat_entry list \<Rightarrow> ub + cheat_entry list" where
  "parse_buf buf cheats =
     bindR (parse_loop buf \<lparr>gCheats = cheats, cheat_index = -1, code_index = 0, temp_name = []\<rparr>)
       (\<lambda>st. Inr (gCheats st))"

text \<open>The file is the contents \<open>open\<close>, \<open>lseek\<close> and \<open>read\<close> deliver, or \<open>None\<close> when one of them fails.\<close>

definition read_text_file :: "string option \<Rightarrow> nat \<Rightarrow> string option" where
  "read_text_file file maxsize =
     (case file of
        None \<Rightarrow> None
      | Some content \<Rightarrow> if 0 < maxsize \<and> maxsize < length content then None else Some (content @ [NUL]))"

definition load_cheats :: "int \<Rightarrow> string option \<Rightarrow> ub + (int \<times> cheat_entry list)" where
  "load_cheats gCheatMode file =
     (let cheats = replicate MAX_CODES blank_entry
      in case read_text_file file 0 of
           None \<Rightarrow> Inr (-1, cheats)
         | Some buf \<Rightarrow> bindR (parse_buf buf cheats)
             (\<lambda>cheats. Inr (if gCheatMode = 0 then 0 else 1, cheats)))"

subsection \<open>The list for the engine\<close>

fun list_codes :: "nat \<Rightarrow> code_t list \<Rightarrow> u32 list \<times> nat \<Rightarrow> u32 list \<times> nat" where
  "list_codes 0 cs (l, n) = (l, n)"
| "list_codes (Suc j) [] (l, n) = (l, n)"
| "list_codes (Suc j) (c # cs) (l, n) =
     (if addr c = 0 then (l, n)
      else if n + 2 \<le> MAX_CHEATLIST then list_codes j cs (l[n := addr c, Suc n := val c], n + 2)
      else (l, n))"

fun list_cheats :: "cheat_entry list \<Rightarrow> u32 list \<times> nat \<Rightarrow> u32 list \<times> nat" where
  "list_cheats [] ln = ln"
| "list_cheats (e # es) ln =
     list_cheats es (if enabled e then list_codes MAX_CHEATLIST (codes e) ln else ln)"

definition set_cheats_list :: "cheat_entry list \<Rightarrow> u32 list" where
  "set_cheats_list cheats =
     (let (l, n) = list_cheats cheats (replicate MAX_CHEATLIST 0, 0)
      in if n < MAX_CHEATLIST then l[n := 0, Suc n := 0] else l[n - 2 := 0, n - 1 := 0])"

subsection \<open>Settings\<close>

definition CONFIG_ITEM_CHEATSSOURCE :: string where "CONFIG_ITEM_CHEATSSOURCE = ''$CheatsSource''"
definition CONFIG_ITEM_ENABLECHEAT :: string where "CONFIG_ITEM_ENABLECHEAT = ''$EnableCheat''"
definition CONFIG_ITEM_CHEATMODE :: string where "CONFIG_ITEM_CHEATMODE = ''$CheatMode''"

text \<open>The result is \<open>(gCheatSource, gEnableCheat, gCheatMode)\<close>; a failed read leaves a variable alone.\<close>

definition InitCheatsConfig :: "config_set \<Rightarrow> config_set \<Rightarrow> int \<times> int \<times> int" where
  "InitCheatsConfig configSet configGame =
     (let load = (\<lambda>cs. case configGetInt cs CONFIG_ITEM_ENABLECHEAT of
             None \<Rightarrow> (0, 0)
           | Some e \<Rightarrow> if e = 0 then (0, 0)
               else (e, case configGetInt cs CONFIG_ITEM_CHEATMODE of None \<Rightarrow> 0 | Some m \<Rightarrow> m))
      in case configGetInt configSet CONFIG_ITEM_CHEATSSOURCE of
           Some src \<Rightarrow> (src, load configSet)
         | None \<Rightarrow> (0, load configGame))"

subsection \<open>Lines\<close>

declare parse_loop.simps [simp del]

text \<open>The lines as the scanner cuts them: behind 255 characters of a line one is dropped, and what follows is a line of its own.\<close>

fun scan_lines :: "string \<Rightarrow> string list" where
  "scan_lines [] = []"
| "scan_lines (c # cs) =
     (let s = takeWhile (\<lambda>x. x \<noteq> LF) (c # cs); len = min CHEAT_LINE_MAX (length s)
      in take len s # scan_lines (drop len cs))"

definition screened :: "string \<Rightarrow> string" where
  "screened l = snd (trim_str (term_str l is_cmt_str))"

text \<open>The lines that are codes once comments and white space around them are gone.\<close>

definition code_lines :: "string \<Rightarrow> string list" where
  "code_lines f = filter is_cheat_code (map screened (filter (list_ex isgraph) (scan_lines f)))"

lemma is_cheat_loop_count: "is_cheat_loop i s \<Longrightarrow> i + length (filter isxdigit s) = CODE_DIGITS"
  by (induction i s rule: is_cheat_loop.induct) (auto split: if_splits)

lemma make_code_overrun: "is_cheat_code s \<Longrightarrow> make_code s = Inl OutOfBounds"
  using is_cheat_loop_count [of 0 s] by (simp add: is_cheat_code_def make_code_def Let_def)

lemma parse_entry_code: "is_cheat_code l \<Longrightarrow> parse_entry l st = Inl OutOfBounds"
  by (simp add: parse_entry_def parse_line_def make_code_overrun)

lemma parse_entry_other: "\<not> is_cheat_code l \<Longrightarrow> \<exists>st'. parse_entry l st = Inr st' \<and> gCheats st' = gCheats st"
  by (auto simp: parse_entry_def parse_line_def)

lemma parse_loop_step:
  assumes "buf \<noteq> []" "hd buf \<noteq> NUL" "takeWhile (\<lambda>x. x \<noteq> NUL) buf = s"
    "(case strchr s LF of None \<Rightarrow> length s | Some n \<Rightarrow> if CHEAT_LINE_MAX < n then CHEAT_LINE_MAX else n) = len"
  shows "parse_loop buf st =
     bindR (if \<not> is_empty_substr s len
            then if CHEAT_LINE_MAX < len then Inl OutOfBounds
                 else parse_entry (snd (trim_str (term_str (take len s) is_cmt_str))) st
            else Inr st)
       (parse_loop (drop (len + 1) buf))"
proof -
  obtain c cs where b: "buf = c # cs" using assms(1) by (cases buf) auto
  have "c \<noteq> NUL" using assms(2) by (simp add: b)
  then show ?thesis
    unfolding b using assms(3,4) by (subst parse_loop.simps(2)) (simp only: if_False Let_def b)
qed

lemma parse_loop_codes:
  assumes "NUL \<notin> set f" "f = [] \<or> last f = LF"
  shows "if code_lines f = [] then (\<exists>st'. parse_loop (f @ [NUL]) st = Inr st' \<and> gCheats st' = gCheats st)
    else parse_loop (f @ [NUL]) st = Inl OutOfBounds"
  using assms
proof (induction f arbitrary: st rule: scan_lines.induct)
  case 1
  then show ?case by (simp add: code_lines_def parse_loop.simps)
next
  case (2 c cs)
  define s where "s = takeWhile (\<lambda>x. x \<noteq> LF) (c # cs)"
  define len where "len = min CHEAT_LINE_MAX (length s)"
  define l where "l = take len s"
  have c: "c \<noteq> NUL" using 2(2) by (metis list.set_intros(1))
  have nul: "takeWhile (\<lambda>x. x \<noteq> NUL) ((c # cs) @ [NUL]) = c # cs" using 2(2) c by (simp add: takeWhile_neq_append_Cons)
  have lf: "LF \<in> set (c # cs)" using 2(3) by (metis last_in_set list.distinct(1))
  have n: "length s < length (c # cs)" unfolding s_def by (rule strchr_Some_less [OF strchr_takeWhile [OF lf]])
  have "(case strchr (c # cs) LF of None \<Rightarrow> length (c # cs) | Some n \<Rightarrow> if CHEAT_LINE_MAX < n then CHEAT_LINE_MAX else n) = len"
    unfolding strchr_takeWhile [OF lf] s_def [symmetric] by (simp add: len_def)
  note step = parse_loop_step [OF _ _ nul this, of st, simplified append_Cons list.sel(1) not_False_eq_True]
  have t: "take len (c # cs) = l"
    unfolding l_def s_def by (metis len_def min.cobounded2 s_def takeWhile_eq_take take_take min.absorb1)
  have le: "len \<le> 255" "len < length (c # cs)" using n by (simp_all add: len_def)
  have e: "is_empty_substr (c # cs) len \<longleftrightarrow> \<not> list_ex isgraph l" unfolding is_empty_substr_def t ..
  have d: "drop (len + 1) (c # cs @ [NUL]) = drop len cs @ [NUL]" using le(2) by simp
  have run: "parse_loop ((c # cs) @ [NUL]) st = bindR (if list_ex isgraph l then parse_entry (screened l) st else Inr st) (parse_loop (drop len cs @ [NUL]))"
    using step c le(1) unfolding e t d by (simp add: screened_def)
  have rest: "NUL \<notin> set (drop len cs)" using 2(2) by (auto dest: in_set_dropD)
  have rest': "drop len cs = [] \<or> last (drop len cs) = LF"
  proof (cases "len < length cs")
    case True
    then have "cs \<noteq> []" by auto
    then show ?thesis using 2(3) True by (simp add: last_drop)
  qed simp
  note IH = 2(1) [OF s_def len_def rest rest']
  have lines: "code_lines (c # cs) = (if list_ex isgraph l \<and> is_cheat_code (screened l) then [screened l] else []) @ code_lines (drop len cs)"
    unfolding code_lines_def scan_lines.simps Let_def s_def [symmetric] len_def [symmetric] l_def [symmetric] by simp
  show ?case
  proof (cases "list_ex isgraph l \<and> is_cheat_code (screened l)")
    case True
    then show ?thesis unfolding run lines by (simp add: parse_entry_code)
  next
    case False
    then obtain st1 where "(if list_ex isgraph l then parse_entry (screened l) st else Inr st) = Inr st1" "gCheats st1 = gCheats st"
      using parse_entry_other [of "screened l" st] by (cases "list_ex isgraph l") auto
    then show ?thesis unfolding run lines using IH [of st1] False by auto
  qed
qed

subsection \<open>Properties of the parser\<close>

text \<open>
  C8. No cheat can be read without leaving an array: of a file whose last line is complete, \<open>load_cheats\<close> returns exactly when none of its lines is a
  code, and then without any cheat; the first line that is one makes \<open>make_code\<close> store the terminator of its 16 digits behind \<open>digits\<close>.
\<close>
theorem cheat_file_overruns:
  assumes "NUL \<notin> set f" "f = [] \<or> last f = LF"
  shows "load_cheats mode (Some f) =
    (if code_lines f = [] then Inr (if mode = 0 then 0 else 1, replicate MAX_CODES blank_entry) else Inl OutOfBounds)"
  using parse_loop_codes [OF assms, of "\<lparr>gCheats = replicate MAX_CODES blank_entry, cheat_index = - 1, code_index = 0, temp_name = []\<rparr>"]
  by (auto simp: load_cheats_def read_text_file_def parse_buf_def split: if_splits)

theorem cheat_file_overruns_witness:
  "load_cheats 0 (Some (''Lives'' @ [LF] @ '' 10B8DAFA 00003F00 // all'' @ [LF])) = Inl OutOfBounds
    \<and> load_cheats 1 (Some (''Lives'' @ [LF] @ ''# none'' @ [LF])) = Inr (1, replicate MAX_CODES blank_entry)"
proof -
  have "code_lines (''Lives'' @ [LF] @ '' 10B8DAFA 00003F00 // all'' @ [LF]) = [''10B8DAFA 00003F00'']"
    "code_lines (''Lives'' @ [LF] @ ''# none'' @ [LF]) = []" by code_simp+
  then show ?thesis
    using cheat_file_overruns [of "''Lives'' @ [LF] @ '' 10B8DAFA 00003F00 // all'' @ [LF]" 0] cheat_file_overruns [of "''Lives'' @ [LF] @ ''# none'' @ [LF]" 1]
    by (simp add: NUL_def LF_def)
qed

lemma bindR_fails: "\<forall>a. \<exists>e. g a = Inl e \<Longrightarrow> \<exists>e. bindR m g = Inl e"
  by (cases m) auto

text \<open>
  A file whose last line has no line feed is read past its end: the scanner steps over the
  terminator, whatever the file contains.
\<close>
theorem cheat_no_final_newline:
  assumes "f \<noteq> []" "NUL \<notin> set f" "last f \<noteq> LF"
  shows "\<exists>e. load_cheats mode (Some f) = Inl e"
proof -
  have "\<exists>e. parse_loop (f @ [NUL]) st = Inl e" for st
    using assms
  proof (induction "length f" arbitrary: f st rule: less_induct)
    case less
    then obtain c cs where fc: "f = c # cs" by (cases f) auto
    have c: "c \<noteq> NUL" using less.prems(2) fc by auto
    have s: "takeWhile (\<lambda>x. x \<noteq> NUL) (f @ [NUL]) = f"
      using less.prems(2) by (simp add: takeWhile_neq_append_Cons)
    let ?len = "case strchr f LF of None \<Rightarrow> length f | Some n \<Rightarrow> if CHEAT_LINE_MAX < n then CHEAT_LINE_MAX else n"
    have tail: "\<exists>e. parse_loop (drop (?len + 1) (f @ [NUL])) st' = Inl e" for st'
    proof (cases "strchr f LF")
      case None
      then show ?thesis by (simp add: parse_loop.simps)
    next
      case (Some n)
      have n: "n < length f" "f ! n = LF"
        by (rule strchr_Some_less [OF Some], rule strchr_Some_nth [OF Some])
      have len: "?len \<le> n" using Some by simp
      have "n \<noteq> length f - 1" using n less.prems(1,3) by (auto simp: last_conv_nth)
      then have k: "?len + 1 < length f" using n(1) len by simp
      have "\<exists>e. parse_loop (drop (?len + 1) f @ [NUL]) st' = Inl e"
      proof (rule less.hyps)
        show "length (drop (?len + 1) f) < length f" "drop (?len + 1) f \<noteq> []"
          "last (drop (?len + 1) f) \<noteq> LF" using k less.prems(3) by simp_all
        show "NUL \<notin> set (drop (?len + 1) f)" using less.prems(2) by (meson in_set_dropD)
      qed
      then show ?thesis using k by simp
    qed
    show ?case
    proof -
      have eq: "parse_loop (f @ [NUL]) st =
          bindR (if \<not> is_empty_substr f ?len
                 then if CHEAT_LINE_MAX < ?len then Inl OutOfBounds
                      else parse_entry (snd (trim_str (term_str (take ?len f) is_cmt_str))) st
                 else Inr st)
            (parse_loop (drop (?len + 1) (f @ [NUL])))"
        by (rule parse_loop_step [OF _ _ s refl]) (use c fc in simp_all)
      show ?thesis unfolding eq by (rule bindR_fails) (rule allI, rule tail)
    qed
  qed
  then obtain e where "parse_loop (f @ [NUL])
      \<lparr>gCheats = replicate 250 blank_entry, cheat_index = - 1, code_index = 0, temp_name = []\<rparr> = Inl e" by blast
  then show ?thesis by (simp add: load_cheats_def read_text_file_def parse_buf_def)
qed

theorem cheat_no_final_newline_witness:
  "\<exists>e. load_cheats 0 (Some ''Lives'') = Inl e"
  by (rule cheat_no_final_newline) (simp_all add: NUL_def LF_def)

subsection \<open>The list for the engine\<close>

definition pairs_of :: "cheat_entry list \<Rightarrow> code_t list" where
  "pairs_of cheats =
     concat (map (\<lambda>e. takeWhile (\<lambda>c. addr c \<noteq> 0) (take MAX_CHEATLIST (codes e))) (filter enabled cheats))"

definition flat :: "code_t list \<Rightarrow> u32 list" where
  "flat cs = concat (map (\<lambda>c. [addr c, val c]) cs)"

definition filled :: "code_t list \<Rightarrow> u32 list \<times> nat" where
  "filled qs = (flat (take 255 qs) @ replicate (510 - 2 * length (take 255 qs)) 0, 2 * length (take 255 qs))"

lemma length_flat [simp]: "length (flat cs) = 2 * length cs"
  by (induction cs) (simp_all add: flat_def)

lemma flat_append: "flat (cs @ ds) = flat cs @ flat ds"
  by (simp add: flat_def)

lemma filled_full: "255 \<le> length qs \<Longrightarrow> filled (qs @ cs) = filled qs"
  by (simp add: filled_def)

lemma filled_snoc:
  assumes "length qs < 255"
  shows "filled (qs @ [c]) = ((fst (filled qs))[2 * length qs := addr c, Suc (2 * length qs) := val c], 2 * length qs + 2)"
proof -
  define k where "k = 508 - 2 * length qs"
  have k: "510 - 2 * length qs = Suc (Suc k)" unfolding k_def using assms by arith
  have k': "510 - Suc (Suc (2 * length qs)) = k" unfolding k_def by arith
  show ?thesis using assms k k' by (simp add: filled_def flat_append list_update_append) (simp add: flat_def)
qed

lemma list_codes_filled:
  "list_codes j cs (filled qs) = filled (qs @ takeWhile (\<lambda>c. addr c \<noteq> 0) (take j cs))"
proof (induction cs arbitrary: j qs)
  case Nil
  then show ?case by (cases j; cases "filled qs") auto
next
  case (Cons c cs)
  show ?case
  proof (cases "j = 0 \<or> addr c = 0")
    case True
    then show ?thesis by (cases j; cases "filled qs") auto
  next
    case False
    then obtain i where i: "j = Suc i" "addr c \<noteq> 0" by (cases j) auto
    show ?thesis
    proof (cases "length qs < 255")
      case True
      then have "list_codes j (c # cs) (filled qs) = list_codes i cs (filled (qs @ [c]))"
        using i by (cases "filled qs") (simp add: filled_snoc, simp add: filled_def)
      then show ?thesis using Cons.IH i by simp
    next
      case False
      then have "snd (filled qs) = 510" by (simp add: filled_def)
      then have "list_codes j (c # cs) (filled qs) = filled qs" using i by (cases "filled qs") simp
      then show ?thesis using False by (simp add: filled_full)
    qed
  qed
qed

lemma list_cheats_filled: "list_cheats es (filled qs) = filled (qs @ pairs_of es)"
proof (induction es arbitrary: qs)
  case Nil
  then show ?case by (simp add: pairs_of_def)
next
  case (Cons e es)
  then show ?case by (simp add: list_codes_filled pairs_of_def)
qed

text \<open>
  What the engine gets: the codes of the enabled cheats in order, each cheat up to its first
  code with address zero, at most 254 of them, then zeros; in particular the list always has
  its 510 words and is always terminated by a zero pair.
\<close>
theorem engine_list:
  "set_cheats_list cheats =
     flat (take 254 (pairs_of cheats)) @ replicate (510 - 2 * length (take 254 (pairs_of cheats))) 0"
proof -
  let ?p = "pairs_of cheats"
  have "filled [] = (replicate 510 0, 0)" by (simp add: filled_def flat_def)
  then have l: "list_cheats cheats (replicate 510 0, 0) = filled ?p"
    using list_cheats_filled [of cheats "[]"] by simp
  show ?thesis
  proof (cases "length ?p < 255")
    case True
    have z: "(replicate m (0::u32))[i := 0] = replicate m 0" for m i
      by (cases "i < m") (simp_all add: list_update_same_conv list_update_beyond)
    show ?thesis using True by (simp add: set_cheats_list_def l filled_def list_update_append z)
  next
    case False
    then obtain c where c: "take 255 ?p = take 254 ?p @ [c]"
      using take_Suc_conv_app_nth [of 254 ?p] by auto
    then have "filled ?p = (flat (take 254 ?p) @ [addr c, val c], 510)"
      using False by (simp add: filled_def flat_append) (simp add: flat_def)
    then show ?thesis using False
      by (simp add: set_cheats_list_def l list_update_append numeral_2_eq_2)
  qed
qed

end
