(* ===== verification/CheatApi.thy ===== *)
theory CheatApi
  imports Cheats
begin

text \<open>
  The set-up of the cheat engine beside the running game (\<open>src/ee_core/src/cheat_api.c\<close>): the list that the front end has made is
  sorted into hooks and codes, in the arrays of \<open>cheat_engine.S\<close>.
\<close>

text \<open>The variables that the engine in assembly works on; the arrays have two words for each entry.\<close>

record cheat_engine =
  numhooks :: nat
  numcodes :: nat
  hooklist :: "u32 list"
  codelist :: "u32 list"

definition store2 :: "nat \<Rightarrow> u32 \<Rightarrow> u32 \<Rightarrow> u32 list \<Rightarrow> ub + u32 list" where
  "store2 i a v xs = (if i + 1 < length xs then Inr (xs[i := a, i + 1 := v]) else Inl OutOfBounds)"

definition is_hook :: "bool \<Rightarrow> u32 \<Rightarrow> bool" where
  "is_hook nextCodeCanBeHook a = (a AND 0xfe000000 = 0x90000000 \<and> nextCodeCanBeHook)"

definition no_hook_next :: "u32 \<Rightarrow> bool" where
  "no_hook_next a = (a AND 0xf0000000 = 0x40000000 \<or> a AND 0xf0000000 = 0x30000000)"

function setup_loop :: "u32 list \<Rightarrow> nat \<Rightarrow> nat \<Rightarrow> nat \<Rightarrow> bool \<Rightarrow> cheat_engine \<Rightarrow> ub + nat \<times> nat \<times> cheat_engine" where
  "setup_loop gCheatList i j k nextCodeCanBeHook e =
     (if i < MAX_CHEATLIST
      then if i + 1 < length gCheatList
           then let a = gCheatList ! i; v = gCheatList ! (i + 1)
                in if a = 0 \<and> v = 0 then Inr (j, k, e)
                   else if is_hook nextCodeCanBeHook a
                   then bindR (store2 j (a AND 0x01FFFFFC) v (hooklist e)) (\<lambda>xs.
                          setup_loop gCheatList (i + 2) (j + 2) k (\<not> no_hook_next a) (e\<lparr>hooklist := xs\<rparr>))
                   else bindR (store2 k a v (codelist e)) (\<lambda>xs.
                          setup_loop gCheatList (i + 2) j (k + 2) (\<not> no_hook_next a) (e\<lparr>codelist := xs\<rparr>))
           else Inl OutOfBounds
      else Inr (j, k, e))"
  by pat_completeness auto
termination
  by (relation "measure (\<lambda>(_, i, _). MAX_CHEATLIST - i)") auto

declare setup_loop.simps [simp del]

definition SetupCheats :: "u32 list \<Rightarrow> cheat_engine \<Rightarrow> ub + cheat_engine" where
  "SetupCheats gCheatList e =
     bindR (setup_loop gCheatList 0 0 0 True e) (\<lambda>(j, k, e). Inr (e\<lparr>numhooks := j div 2, numcodes := k div 2\<rparr>))"

subsection \<open>Hooks and codes\<close>

text \<open>Which codes are hooks: the one behind a code of type 3 or 4 is data of that code.\<close>

fun hooks_of :: "bool \<Rightarrow> code_t list \<Rightarrow> code_t list" where
  "hooks_of ok [] = []"
| "hooks_of ok (c # cs) =
     (if is_hook ok (addr c) then c\<lparr>addr := addr c AND 0x01FFFFFC\<rparr> # hooks_of (\<not> no_hook_next (addr c)) cs
      else hooks_of (\<not> no_hook_next (addr c)) cs)"

fun codes_of :: "bool \<Rightarrow> code_t list \<Rightarrow> code_t list" where
  "codes_of ok [] = []"
| "codes_of ok (c # cs) =
     (if is_hook ok (addr c) then codes_of (\<not> no_hook_next (addr c)) cs else c # codes_of (\<not> no_hook_next (addr c)) cs)"

lemma flat_Cons: "flat (c # cs) = addr c # val c # flat cs"
  by (simp add: flat_def)

lemma store2_next: "j + 2 * Suc n \<le> length xs \<Longrightarrow> store2 j a v xs = Inr (take j xs @ a # v # drop (j + 2) xs)"
proof -
  assume l: "j + 2 * Suc n \<le> length xs"
  define t d where "t = take j xs" and "d = drop (j + 2) xs"
  have t: "length t = j" using l by (simp add: t_def)
  have "drop j xs = xs ! j # xs ! (j + 1) # d" using l Cons_nth_drop_Suc [of j xs] Cons_nth_drop_Suc [of "Suc j" xs] by (simp add: d_def)
  then have "xs = t @ xs ! j # xs ! (j + 1) # d" using append_take_drop_id [of j xs] by (simp add: t_def)
  then have "xs[j := a, j + 1 := v] = (t @ xs ! j # xs ! (j + 1) # d)[j := a, j + 1 := v]" by simp
  then show ?thesis using l t by (simp add: store2_def list_update_append t_def d_def)
qed

lemma drop_pair: "drop i xs = a # v # ys \<Longrightarrow> i + 1 < length xs \<and> xs ! i = a \<and> xs ! (i + 1) = v \<and> drop (i + 2) xs = ys"
proof -
  assume d: "drop i xs = a # v # ys"
  have l: "length xs - i = Suc (Suc (length ys))" using arg_cong [OF d, of length] by simp
  have "drop (i + 2) xs = drop 2 (drop i xs)" by (simp add: add.commute)
  moreover have "xs ! i = drop i xs ! 0" "xs ! (i + 1) = drop i xs ! 1" using l by simp_all
  ultimately show ?thesis using l d by simp
qed

text \<open>What the loop does with the codes that are left in the list.\<close>

lemma setup_loop_sorts:
  "\<lbrakk>drop i l = flat cs @ 0 # 0 # z; \<forall>c \<in> set cs. addr c \<noteq> 0; i + 2 * length cs < MAX_CHEATLIST;
    j \<le> length (hooklist e); k \<le> length (codelist e)\<rbrakk>
   \<Longrightarrow> setup_loop l i j k ok e =
     (if j + 2 * length (hooks_of ok cs) \<le> length (hooklist e) \<and> k + 2 * length (codes_of ok cs) \<le> length (codelist e)
      then Inr (j + 2 * length (hooks_of ok cs), k + 2 * length (codes_of ok cs),
        e\<lparr>hooklist := write_at (hooklist e) j (flat (hooks_of ok cs)), codelist := write_at (codelist e) k (flat (codes_of ok cs))\<rparr>)
      else Inl OutOfBounds)"
proof (induction cs arbitrary: i j k ok e)
  case Nil
  have d: "drop i l = 0 # 0 # z" using Nil.prems(1) by (simp add: flat_def)
  then show ?case using Nil.prems drop_pair [OF d] by (subst setup_loop.simps) (simp add: flat_def write_at_def Let_def)
next
  case (Cons c cs)
  have d: "drop i l = addr c # val c # flat cs @ 0 # 0 # z" using Cons.prems(1) by (simp add: flat_Cons)
  note dp = drop_pair [OF d]
  have a: "addr c \<noteq> 0" "\<forall>c \<in> set cs. addr c \<noteq> 0" "i < MAX_CHEATLIST" "i + 2 + 2 * length cs < MAX_CHEATLIST" using Cons.prems(2,3) by simp_all
  define ok' where "ok' = (\<not> no_hook_next (addr c))"
  show ?case
  proof (cases "is_hook ok (addr c)")
    case True
    define xs where "xs = take j (hooklist e) @ (addr c AND 0x01FFFFFC) # val c # drop (j + 2) (hooklist e)"
    have step: "setup_loop l i j k ok e = bindR (store2 j (addr c AND 0x01FFFFFC) (val c) (hooklist e)) (\<lambda>xs.
        setup_loop l (i + 2) (j + 2) k ok' (e\<lparr>hooklist := xs\<rparr>))"
      using dp a True by (subst setup_loop.simps) (simp add: ok'_def Let_def)
    show ?thesis
    proof (cases "j + 2 \<le> length (hooklist e)")
      case room: True
      then have s: "store2 j (addr c AND 0x01FFFFFC) (val c) (hooklist e) = Inr xs" using store2_next [of j 0] by (simp add: xs_def)
      have lx: "length xs = length (hooklist e)" using room by (simp add: xs_def)
      have w: "write_at xs (j + 2) (flat h) = write_at (hooklist e) j (flat (c\<lparr>addr := addr c AND 0x01FFFFFC\<rparr> # h))" for h
        using room Cons.prems(4) by (simp add: xs_def write_at_def flat_Cons ac_simps)
      have "j + 2 \<le> length (hooklist (e\<lparr>hooklist := xs\<rparr>))" "k \<le> length (codelist (e\<lparr>hooklist := xs\<rparr>))" using room lx Cons.prems(5) by simp_all
      from Cons.IH [OF conjunct2 [OF conjunct2 [OF conjunct2 [OF dp]]] a(2,4) this, of ok'] show ?thesis
        using True w lx by (simp add: step s ok'_def [symmetric] add.assoc [symmetric])
    next
      case False
      then show ?thesis using True by (simp add: step store2_def)
    qed
  next
    case no: False
    define xs where "xs = take k (codelist e) @ addr c # val c # drop (k + 2) (codelist e)"
    have step: "setup_loop l i j k ok e = bindR (store2 k (addr c) (val c) (codelist e)) (\<lambda>xs.
        setup_loop l (i + 2) j (k + 2) ok' (e\<lparr>codelist := xs\<rparr>))"
      using dp a no by (subst setup_loop.simps) (simp add: ok'_def Let_def)
    show ?thesis
    proof (cases "k + 2 \<le> length (codelist e)")
      case room: True
      then have s: "store2 k (addr c) (val c) (codelist e) = Inr xs" using store2_next [of k 0] by (simp add: xs_def)
      have lx: "length xs = length (codelist e)" using room by (simp add: xs_def)
      have w: "write_at xs (k + 2) (flat h) = write_at (codelist e) k (flat (c # h))" for h
        using room Cons.prems(5) by (simp add: xs_def write_at_def flat_Cons ac_simps)
      have "j \<le> length (hooklist (e\<lparr>codelist := xs\<rparr>))" "k + 2 \<le> length (codelist (e\<lparr>codelist := xs\<rparr>))" using room lx Cons.prems(4) by simp_all
      from Cons.IH [OF conjunct2 [OF conjunct2 [OF conjunct2 [OF dp]]] a(2,4) this, of ok'] show ?thesis
        using no w lx by (simp add: step s ok'_def [symmetric] add.assoc [symmetric])
    next
      case False
      then show ?thesis using no by (simp add: step store2_def)
    qed
  qed
qed

lemma pairs_nonzero: "\<forall>c \<in> set (pairs_of cheats). addr c \<noteq> 0"
  by (auto simp: pairs_of_def dest: set_takeWhileD)

text \<open>What the list for the engine has room for.\<close>

definition sent_codes :: "cheat_entry list \<Rightarrow> code_t list" where
  "sent_codes cheats = take 254 (pairs_of cheats)"

text \<open>
  C34. From the cheats that the player has enabled to the engine beside the game.  Of the codes of the enabled cheats, each cheat up to its
  first code with the address 0, the list has room for the first 254; the others do not arrive.  These 254 (or fewer) arrive, sorted
  into hooks and codes in their order, exactly when at most 5 of them are hooks and at most 250 are not; otherwise the set-up writes behind
  an array.
\<close>

theorem cheats_reach_engine:
  assumes "length (hooklist e) = 2 * MAX_HOOKS" "length (codelist e) = 2 * MAX_CODES"
  shows "SetupCheats (set_cheats_list cheats) e =
    (if length (hooks_of True (sent_codes cheats)) \<le> 5 \<and> length (codes_of True (sent_codes cheats)) \<le> 250
     then Inr (e\<lparr>hooklist := flat (hooks_of True (sent_codes cheats)) @ drop (2 * length (hooks_of True (sent_codes cheats))) (hooklist e),
                codelist := flat (codes_of True (sent_codes cheats)) @ drop (2 * length (codes_of True (sent_codes cheats))) (codelist e),
                numhooks := length (hooks_of True (sent_codes cheats)), numcodes := length (codes_of True (sent_codes cheats))\<rparr>)
     else Inl OutOfBounds)"
proof -
  define cs where "cs = sent_codes cheats"
  have l: "length cs \<le> 254" by (simp add: cs_def sent_codes_def)
  define z where "z = replicate (508 - 2 * length cs) (0 :: u32)"
  have "510 - 2 * length cs = Suc (Suc (508 - 2 * length cs))" using l by linarith
  then have g: "drop 0 (set_cheats_list cheats) = flat cs @ 0 # 0 # z" by (simp add: engine_list cs_def sent_codes_def z_def)
  have nz: "\<forall>c \<in> set cs. addr c \<noteq> 0" using pairs_nonzero [of cheats] by (auto simp: cs_def sent_codes_def dest: in_set_takeD)
  have b: "0 + 2 * length cs < MAX_CHEATLIST" using l by simp
  show ?thesis unfolding SetupCheats_def setup_loop_sorts [OF g nz b le0 le0]
    cs_def [symmetric] using assms by (simp add: write_at_def MAX_HOOKS_def)
qed

definition engine_example :: cheat_engine where
  "engine_example = \<lparr>numhooks = 0, numcodes = 0, hooklist = replicate 10 0, codelist = replicate 500 0\<rparr>"

definition two_cheats :: "cheat_entry list" where
  "two_cheats = [\<lparr>name = ''Lives'', codes = [\<lparr>addr = 0x90100000, val = 1\<rparr>, \<lparr>addr = 0x20200000, val = 99\<rparr>, \<lparr>addr = 0, val = 0\<rparr>], enabled = True\<rparr>]"

theorem cheats_reach_engine_witness:
  "SetupCheats (set_cheats_list two_cheats) engine_example
    = Inr \<lparr>numhooks = 1, numcodes = 1, hooklist = [0x00100000, 1] @ replicate 8 0, codelist = [0x20200000, 99] @ replicate 498 0\<rparr>"
proof -
  have "sent_codes two_cheats = [\<lparr>addr = 0x90100000, val = 1\<rparr>, \<lparr>addr = 0x20200000, val = 99\<rparr>]"
    by (simp add: sent_codes_def pairs_of_def two_cheats_def)
  moreover have "hooks_of True [\<lparr>addr = 0x90100000, val = 1\<rparr>, \<lparr>addr = 0x20200000, val = 99\<rparr>] = [\<lparr>addr = 0x00100000, val = 1\<rparr>]"
    by code_simp
  moreover have "codes_of True [\<lparr>addr = 0x90100000, val = 1\<rparr>, \<lparr>addr = 0x20200000, val = 99\<rparr>] = [\<lparr>addr = 0x20200000, val = 99\<rparr>]"
    by code_simp
  moreover have "length (hooklist engine_example) = 2 * MAX_HOOKS" "length (codelist engine_example) = 2 * MAX_CODES"
    by (simp_all add: engine_example_def MAX_HOOKS_def)
  ultimately show ?thesis using cheats_reach_engine [of engine_example two_cheats]
    by (simp only:) (simp add: engine_example_def flat_def)
qed

end
