(* ===== verification/History.thy ===== *)
theory History
  imports Prelude
begin

text \<open>
  The play history of \<open>src/src/OSDHistory.c\<close>: the 21 records of the system's history file, the
  update made when a game is started, and the file name taken from its boot path.  What the
  memory card, the clock and \<open>rand\<close> deliver is an argument; \<open>rand\<close> is the list of the values it
  returns, in order (running out of them is \<open>Diverges\<close>).
\<close>

subsection \<open>Records\<close>

definition MAX_HISTORY_ENTRIES :: nat where "MAX_HISTORY_ENTRIES = 21"

lemma max_entries [simp]: "MAX_HISTORY_ENTRIES = 21" by (simp add: MAX_HISTORY_ENTRIES_def)

text \<open>\<open>name\<close> is the whole array of 16 characters.\<close>

record history_entry =
  name :: "char list"
  LaunchCount :: u8
  bitmask :: u8
  ShiftAmount :: u8
  padding :: u8
  DateStamp :: u16

definition OSD_HISTORY_GET_YEAR :: "u16 \<Rightarrow> u16" where
  "OSD_HISTORY_GET_YEAR datestamp = drop_bit 9 datestamp AND 0x7F"

definition OSD_HISTORY_GET_MONTH :: "u16 \<Rightarrow> u16" where
  "OSD_HISTORY_GET_MONTH datestamp = drop_bit 5 datestamp AND 0xF"

definition OSD_HISTORY_GET_DATE :: "u16 \<Rightarrow> u16" where
  "OSD_HISTORY_GET_DATE datestamp = datestamp AND 0x1F"

definition OSD_HISTORY_SET_DATE :: "u16 \<Rightarrow> u16 \<Rightarrow> u16 \<Rightarrow> u16" where
  "OSD_HISTORY_SET_DATE year month date = push_bit 9 year OR push_bit 5 (month AND 0xF) OR (date AND 0x1F)"

text \<open>The clock is read as a decoded triple (year, month, day).\<close>

definition GetTimestamp :: "u16 \<times> u16 \<times> u16 \<Rightarrow> u16" where
  "GetTimestamp clock = (case clock of (y, m, d) \<Rightarrow> OSD_HISTORY_SET_DATE y m d)"

subsection \<open>Updating the record of a known title\<close>

text \<open>The text in an array that need not be terminated.\<close>

definition array_str :: "char list \<Rightarrow> string" where
  "array_str a = takeWhile (\<lambda>x. x \<noteq> NUL) a"

text \<open>\<open>while ((bitmask >> (value = rand() % 6)) & 1);\<close>\<close>

fun pick_bit :: "u8 \<Rightarrow> nat list \<Rightarrow> ub + (nat \<times> nat list)" where
  "pick_bit m [] = Inl Diverges"
| "pick_bit m (r # rs) = (if bit m (r mod 6) then pick_bit m rs else Inr (r mod 6, rs))"

text \<open>\<open>NewLaunchCount\<close>\<close>

definition next_launch :: "u8 \<Rightarrow> nat" where
  "next_launch c = (let n = unat c + 1 in if 0x80 \<le> n then 0x7F else n)"

definition count_launch :: "u16 \<Rightarrow> nat list \<Rightarrow> history_entry \<Rightarrow> ub + (history_entry \<times> nat list)" where
  "count_launch now rs e0 =
     (let e = e0\<lparr>DateStamp := now\<rparr>
      in if bitmask e AND 0x3F \<noteq> 0x3F
         then let n = next_launch (LaunchCount e)
              in bindR (if 14 \<le> n \<and> (n - 14) mod 10 = 0
                        then bindR (pick_bit (bitmask e) rs) (\<lambda>(value, rs).
                          Inr (e\<lparr>ShiftAmount := of_nat value, bitmask := bitmask e OR push_bit value 1\<rparr>, rs))
                        else Inr (e, rs))
                   (\<lambda>(e, rs). Inr (e\<lparr>LaunchCount := of_nat n\<rparr>, rs))
         else if LaunchCount e < 0x3F then Inr (e\<lparr>LaunchCount := LaunchCount e + 1\<rparr>, rs)
         else Inr (e\<lparr>LaunchCount := bitmask e AND 0x3F, ShiftAmount := 7\<rparr>, rs))"

subsection \<open>Scanning the records\<close>

record scan =
  LeastUsedRecord :: nat
  LeastUsedRecordLaunchCount :: nat
  LeastUsedRecordTimestamp :: nat
  IsNewRecord :: bool

definition INT_MAX :: nat where "INT_MAX = 2147483647"

definition scan_init :: scan where
  "scan_init = \<lparr>LeastUsedRecord = 0, LeastUsedRecordLaunchCount = INT_MAX,
                LeastUsedRecordTimestamp = INT_MAX, IsNewRecord = True\<rparr>"

definition scan_least :: "nat \<Rightarrow> history_entry \<Rightarrow> scan \<Rightarrow> scan" where
  "scan_least i e s0 =
     (let s = (if unat (LaunchCount e) < LeastUsedRecordLaunchCount s0
               then s0\<lparr>LeastUsedRecord := i, LeastUsedRecordLaunchCount := unat (LaunchCount e)\<rparr> else s0)
      in if LeastUsedRecordLaunchCount s = unat (LaunchCount e) \<and> unat (DateStamp e) < LeastUsedRecordTimestamp s
         then s\<lparr>LeastUsedRecordTimestamp := unat (DateStamp e), LeastUsedRecord := i\<rparr> else s)"

fun hist_scan :: "string \<Rightarrow> u16 \<Rightarrow> nat \<Rightarrow> history_entry list \<Rightarrow> nat list \<Rightarrow> scan
    \<Rightarrow> ub + (history_entry list \<times> nat list \<times> scan)" where
  "hist_scan nm now i [] rs s = Inr ([], rs, s)"
| "hist_scan nm now i (e # es) rs s0 =
     (let s = scan_least i e s0; hit = strncmp_eq 16 (array_str (name e)) nm
      in bindR (if hit then count_launch now rs e else Inr (e, rs)) (\<lambda>(e', rs).
         bindR (hist_scan nm now (Suc i) es rs (if hit then s\<lparr>IsNewRecord := False\<rparr> else s))
           (\<lambda>(es', rs, s). Inr (e' # es', rs, s))))"

subsection \<open>Adding a record\<close>

definition is_blank :: "history_entry \<Rightarrow> bool" where
  "is_blank e \<longleftrightarrow> name e ! 0 = NUL"

definition BlankSlotList :: "history_entry list \<Rightarrow> nat list" where
  "BlankSlotList es = filter (\<lambda>i. is_blank (es ! i)) [0..<length es]"

definition NumSlotsUsed :: "history_entry list \<Rightarrow> nat" where
  "NumSlotsUsed es = length (filter (\<lambda>e. \<not> is_blank e \<and> ShiftAmount e = 7) es)"

text \<open>\<open>strncpy(NewEntry->name, name, 15)\<close> pads with NULs and leaves the last character.\<close>

definition set_name :: "string \<Rightarrow> char list \<Rightarrow> char list" where
  "set_name nm old = take 15 nm @ replicate (15 - length nm) NUL @ drop 15 old"

definition new_entry :: "string \<Rightarrow> u16 \<Rightarrow> history_entry \<Rightarrow> history_entry" where
  "new_entry nm now e = e\<lparr>name := set_name nm (name e), LaunchCount := 1, bitmask := 1, ShiftAmount := 0, DateStamp := now\<rparr>"

text \<open>The new table, and the record that goes to \<open>history.old\<close>.\<close>

definition insert_record :: "string \<Rightarrow> u16 \<Rightarrow> nat \<Rightarrow> nat list \<Rightarrow> history_entry list
    \<Rightarrow> ub + (history_entry list \<times> history_entry option)" where
  "insert_record nm now least rs es =
     (if NumSlotsUsed es = MAX_HISTORY_ENTRIES then Inr (es, None)
      else if BlankSlotList es \<noteq> []
      then (case rs of
              [] \<Rightarrow> Inl Diverges
            | r # _ \<Rightarrow> let k = BlankSlotList es ! (r mod length (BlankSlotList es))
                       in Inr (es[k := new_entry nm now (es ! k)], None))
      else Inr (es[least := new_entry nm now (es ! least)], Some (es ! least)))"

definition update_history :: "string \<Rightarrow> u16 \<Rightarrow> nat list \<Rightarrow> history_entry list
    \<Rightarrow> ub + (history_entry list \<times> history_entry option)" where
  "update_history nm now rs es =
     bindR (hist_scan nm now 0 es rs scan_init) (\<lambda>(es', rs', s).
       if IsNewRecord s then insert_record nm now (LeastUsedRecord s) rs' es' else Inr (es', None))"

text \<open>
  What the card delivers: the slots with a formatted PS2 card, the result of reading the history
  file, the region letter, the results of creating the folder and of writing.
\<close>

record card_env =
  slot_ok :: "nat \<Rightarrow> bool"
  load_result :: int
  load_entries :: "history_entry list"
  region_letter :: char
  create_result :: int
  save_result :: int
  clock :: "u16 \<times> u16 \<times> u16"

definition blank_record :: history_entry where
  "blank_record = \<lparr>name = replicate 16 NUL, LaunchCount = 0, bitmask = 0, ShiftAmount = 0, padding = 0, DateStamp = 0\<rparr>"

text \<open>The result code, the table written (if one is) and the record appended to \<open>history.old\<close>.\<close>

definition AddHistoryRecord :: "card_env \<Rightarrow> nat list \<Rightarrow> string
    \<Rightarrow> ub + (int \<times> history_entry list option \<times> history_entry option)" where
  "AddHistoryRecord env rs nm =
     (if \<not> slot_ok env 0 \<and> \<not> slot_ok env 1 then Inr (-1, None, None)
      else if load_result env \<noteq> 0 \<and> region_letter env = CHR ''R'' then Inr (-2, None, None)
      else if load_result env \<noteq> 0 \<and> create_result env \<noteq> 0 then Inr (create_result env, None, None)
      else let es = (if load_result env \<noteq> 0 then replicate MAX_HISTORY_ENTRIES blank_record else load_entries env)
           in bindR (update_history nm (GetTimestamp (clock env)) rs es) (\<lambda>(es', old).
                Inr (save_result env, Some es', old)))"

subsection \<open>The file name in a boot path\<close>

definition is_separator :: "char \<Rightarrow> bool" where
  "is_separator c \<longleftrightarrow> c = CHR 0x5C \<or> c = CHR '':'' \<or> c = CHR ''/''"

text \<open>The position of the last separator at index 1 or more: the loop stops at \<open>i > 0\<close>.\<close>

fun last_separator :: "string \<Rightarrow> nat \<Rightarrow> nat" where
  "last_separator path 0 = 0"
| "last_separator path (Suc i) =
     (if Suc i < length path \<and> is_separator (path ! Suc i) then Suc i else last_separator path i)"

text \<open>
  \<open>filename\<close> is a parameter of type \<open>char *\<close>, so \<open>sizeof(filename)\<close> is the size of a pointer, 4;
  \<open>room\<close> is the size of the caller's array.
\<close>

definition GetBootFilename :: "nat \<Rightarrow> string \<Rightarrow> ub + string" where
  "GetBootFilename room path =
     (let i = last_separator path (length path); len = length path
      in if i = 0 then Inr (take 3 path)
         else let len' = (if 2 < len \<and> path ! (len - 1) = CHR ''1'' \<and> path ! (len - 2) = CHR '';'' then len - 2 else len)
                         - (i + 1)
              in if room \<le> len' then Inl OutOfBounds else Inr (take len' (drop (i + 1) path)))"

definition AddHistoryRecordUsingFullPath :: "card_env \<Rightarrow> nat list \<Rightarrow> string
    \<Rightarrow> ub + (int \<times> history_entry list option \<times> history_entry option)" where
  "AddHistoryRecordUsingFullPath env rs path =
     bindR (GetBootFilename 17 path) (\<lambda>filename. AddHistoryRecord env rs filename)"

subsection \<open>Dates\<close>

lemma bit_small:
  fixes x :: u16
  assumes "x < 2 ^ k" "bit x n" shows "n < k"
  using less_mask_eq [OF assms(1)] assms(2) by (metis bit_and_iff bit_mask_iff)

lemma masks:
  "(0x7F :: u16) = mask 7" "(0xF :: u16) = mask 4" "(0x1F :: u16) = mask 5"
  by (simp_all add: mask_eq_exp_minus_1)

text \<open>
  The packed date stamp gives back the year since 2000, the month and the day.
\<close>
theorem date_roundtrip:
  assumes "y < 128" "m < 16" "d < 32"
  shows "OSD_HISTORY_GET_YEAR (OSD_HISTORY_SET_DATE y m d) = y
      \<and> OSD_HISTORY_GET_MONTH (OSD_HISTORY_SET_DATE y m d) = m
      \<and> OSD_HISTORY_GET_DATE (OSD_HISTORY_SET_DATE y m d) = d"
proof -
  have y: "bit y n \<Longrightarrow> n < 7" and m: "bit m n \<Longrightarrow> n < 4" and d: "bit d n \<Longrightarrow> n < 5" for n
    using bit_small [of y 7 n] bit_small [of m 4 n] bit_small [of d 5 n] assms by simp_all
  have "OSD_HISTORY_GET_YEAR (OSD_HISTORY_SET_DATE y m d) = y"
    by (rule bit_word_eqI) (auto simp: OSD_HISTORY_GET_YEAR_def OSD_HISTORY_SET_DATE_def masks bit_simps dest: y)
  moreover have "OSD_HISTORY_GET_MONTH (OSD_HISTORY_SET_DATE y m d) = m"
    by (rule bit_word_eqI) (auto simp: OSD_HISTORY_GET_MONTH_def OSD_HISTORY_SET_DATE_def masks bit_simps dest: m)
  moreover have "OSD_HISTORY_GET_DATE (OSD_HISTORY_SET_DATE y m d) = d"
    by (rule bit_word_eqI) (auto simp: OSD_HISTORY_GET_DATE_def OSD_HISTORY_SET_DATE_def masks bit_simps dest: d)
  ultimately show ?thesis by blast
qed

theorem date_roundtrip_witness:
  "OSD_HISTORY_GET_YEAR (OSD_HISTORY_SET_DATE 25 12 31) = 25
      \<and> OSD_HISTORY_GET_MONTH (OSD_HISTORY_SET_DATE 25 12 31) = 12
      \<and> OSD_HISTORY_GET_DATE (OSD_HISTORY_SET_DATE 25 12 31) = 31"
  by (rule date_roundtrip) simp_all

subsection \<open>Counting a launch\<close>

lemma pick_bit_Inr:
  "pick_bit m rs = Inr (v, rs') \<Longrightarrow> v < 6 \<and> \<not> bit m v"
  by (induction m rs rule: pick_bit.induct) (auto split: if_splits)

lemma pick_bit_total:
  "v < 6 \<Longrightarrow> \<not> bit m v \<Longrightarrow> v \<in> (\<lambda>r. r mod 6) ` set rs \<Longrightarrow> \<exists>r. pick_bit m rs = Inr r"
  by (induction m rs rule: pick_bit.induct) auto

lemma low_bits_full: "(m :: u8) AND 0x3F = 0x3F \<longleftrightarrow> (\<forall>v < 6. bit m v)"
proof -
  have k: "(0x3F :: u8) = mask 6" by (simp add: mask_eq_exp_minus_1)
  show ?thesis
  proof
    assume a: "m AND 0x3F = 0x3F"
    show "\<forall>v < 6. bit m v"
    proof (intro allI impI)
      fix v :: nat assume "v < 6"
      then have "bit (0x3F :: u8) v" by (simp add: k bit_mask_iff)
      then show "bit m v" using a by (metis bit_and_iff)
    qed
  next
    assume "\<forall>v < 6. bit m v"
    then show "m AND 0x3F = 0x3F" by (intro bit_word_eqI) (auto simp: k bit_simps)
  qed
qed

lemma count_launch_name: "count_launch now rs e = Inr (e', rs') \<Longrightarrow> name e' = name e \<and> DateStamp e' = now"
  by (auto simp: count_launch_def Let_def result_iff split: if_splits)

lemma unat_of_small: "k \<le> 127 \<Longrightarrow> unat (of_nat k :: u8) = k"
  by (simp add: unat_of_nat)

text \<open>
  Starting a known title: the record keeps its name, gets the date, its launch count goes up by
  one and is capped at 127 (while one of the six low bits is unset), and a bit is set only
  at the 14th, 24th, ... launch: then exactly one of the six unset bits, whose number is
  remembered.  The search for that bit ends as soon as \<open>rand\<close> has hit every residue.
\<close>
theorem launch_counted:
  assumes "bitmask e AND 0x3F \<noteq> 0x3F" "{..<6} \<subseteq> (\<lambda>r. r mod 6) ` set rs"
  shows "\<exists>e' rs'. count_launch now rs e = Inr (e', rs') \<and> name e' = name e \<and> DateStamp e' = now
     \<and> unat (LaunchCount e') = min 127 (unat (LaunchCount e) + 1)
     \<and> (if 14 \<le> unat (LaunchCount e') \<and> unat (LaunchCount e') mod 10 = 4
        then \<exists>v < 6. \<not> bit (bitmask e) v \<and> bitmask e' = bitmask e OR push_bit v 1 \<and> ShiftAmount e' = of_nat v
        else bitmask e' = bitmask e \<and> ShiftAmount e' = ShiftAmount e)"
proof -
  define n where "n = next_launch (LaunchCount e)"
  obtain v where v: "v < 6" "\<not> bit (bitmask e) v" using assms(1) low_bits_full by blast
  then have "v \<in> (\<lambda>r. r mod 6) ` set rs" using assms(2) by auto
  from pick_bit_total [OF v this] obtain w rs1 where w: "pick_bit (bitmask e) rs = Inr (w, rs1)" by auto
  have n: "min 127 (unat (LaunchCount e) + 1) = n"
    by (simp add: n_def next_launch_def Let_def min_def)
  have u: "unat (of_nat n :: u8) = n" by (rule unat_of_small) (simp flip: n)
  have m: "14 \<le> n \<and> (n - 14) mod 10 = 0 \<longleftrightarrow> 14 \<le> n \<and> n mod 10 = 4" by presburger
  show ?thesis
  proof (cases "14 \<le> n \<and> n mod 10 = 4")
    case True
    then have "count_launch now rs e = Inr (e\<lparr>DateStamp := now, ShiftAmount := of_nat w,
        bitmask := bitmask e OR push_bit w 1, LaunchCount := of_nat n\<rparr>, rs1)"
      using assms(1) w m by (simp add: count_launch_def Let_def n_def [symmetric])
    then show ?thesis using True pick_bit_Inr [OF w] u unfolding n by auto
  next
    case False
    then have "count_launch now rs e = Inr (e\<lparr>DateStamp := now, LaunchCount := of_nat n\<rparr>, rs)"
      using assms(1) m by (auto simp: count_launch_def Let_def n_def [symmetric])
    then show ?thesis using False u unfolding n by auto
  qed
qed

theorem launch_counted_witness:
  "\<exists>e' rs'. count_launch 7 [0, 1, 2, 3, 4, 5] (blank_record\<lparr>LaunchCount := 13, bitmask := 1\<rparr>) = Inr (e', rs')
     \<and> LaunchCount e' = 14 \<and> (\<exists>v < 6. \<not> bit (1 :: u8) v \<and> bitmask e' = 1 OR push_bit v 1)"
proof -
  let ?e = "blank_record\<lparr>LaunchCount := 13, bitmask := 1\<rparr>"
  have "{..<6} \<subseteq> (\<lambda>r. r mod 6) ` set [0, 1, 2, 3, 4, 5 :: nat]"
    by (auto simp: image_iff)
  moreover have "bitmask ?e AND 0x3F \<noteq> 0x3F" by simp
  ultimately obtain e' rs' where e: "count_launch 7 [0, 1, 2, 3, 4, 5] ?e = Inr (e', rs')"
    "unat (LaunchCount e') = min 127 (unat (LaunchCount ?e) + 1)"
    "if 14 \<le> unat (LaunchCount e') \<and> unat (LaunchCount e') mod 10 = 4
     then \<exists>v < 6. \<not> bit (bitmask ?e) v \<and> bitmask e' = bitmask ?e OR push_bit v 1 \<and> ShiftAmount e' = of_nat v
     else bitmask e' = bitmask ?e \<and> ShiftAmount e' = ShiftAmount ?e"
    using launch_counted [of ?e "[0, 1, 2, 3, 4, 5]" 7] by blast
  then have n: "unat (LaunchCount e') = 14" by simp
  then have "LaunchCount e' = 14" by (simp add: word_unat_eq_iff)
  moreover have "\<exists>v < 6. \<not> bit (1 :: u8) v \<and> bitmask e' = 1 OR push_bit v 1"
    using e(3) unfolding n by simp blast
  ultimately show ?thesis using e(1) by blast
qed

subsection \<open>Looking through the table\<close>

definition hit :: "string \<Rightarrow> history_entry \<Rightarrow> bool" where
  "hit nm e \<longleftrightarrow> strncmp_eq 16 (array_str (name e)) nm"

lemma IsNewRecord_scan_least [simp]: "IsNewRecord (scan_least i e s) = IsNewRecord s"
  by (simp add: scan_least_def Let_def)

lemma hist_scan_Inr:
  assumes "hist_scan nm now i es rs s = Inr (es', rs', s')"
  shows "length es' = length es \<and> (IsNewRecord s' \<longleftrightarrow> IsNewRecord s \<and> \<not> list_ex (hit nm) es)
     \<and> (\<forall>k < length es. name (es' ! k) = name (es ! k)
          \<and> (if hit nm (es ! k) then DateStamp (es' ! k) = now else es' ! k = es ! k))"
  using assms
proof (induction es arbitrary: i rs s es')
  case (Cons e es)
  from Cons.prems obtain e' rs1 es1 where e:
    "(if hit nm e then count_launch now rs e else Inr (e, rs)) = Inr (e', rs1)"
    "hist_scan nm now (Suc i) es rs1 (if hit nm e then (scan_least i e s)\<lparr>IsNewRecord := False\<rparr> else scan_least i e s)
       = Inr (es1, rs', s')" "es' = e' # es1"
    by (auto simp: Let_def hit_def result_iff simp del: if_split)
  have h: "name e' = name e \<and> (if hit nm e then DateStamp e' = now else e' = e)"
    using e(1) count_launch_name [of now rs e e' rs1] by (auto split: if_splits)
  with Cons.IH [OF e(2)] show ?case
    by (auto simp: e(3) less_Suc_eq_0_disj split: if_splits)
qed simp

lemma hist_scan_new:
  assumes "\<not> list_ex (hit nm) es"
  shows "\<exists>s'. hist_scan nm now i es rs s = Inr (es, rs, s')"
  using assms
proof (induction es arbitrary: i s)
  case (Cons e es)
  then obtain s' where "hist_scan nm now (Suc i) es rs (scan_least i e s) = Inr (es, rs, s')" by fastforce
  with Cons.prems show ?case by (simp add: Let_def hit_def)
qed simp

text \<open>The least used record: the smallest launch count of the table.\<close>

definition scan_inv :: "history_entry list \<Rightarrow> scan \<Rightarrow> bool" where
  "scan_inv es s \<longleftrightarrow>
     (es \<noteq> [] \<longrightarrow> LeastUsedRecord s < length es
        \<and> unat (LaunchCount (es ! LeastUsedRecord s)) = LeastUsedRecordLaunchCount s)
     \<and> (es = [] \<longrightarrow> LeastUsedRecordLaunchCount s = INT_MAX)
     \<and> (\<forall>e \<in> set es. LeastUsedRecordLaunchCount s \<le> unat (LaunchCount e))"

lemma scan_least_inv:
  assumes "scan_inv es s"
  shows "scan_inv (es @ [e]) (scan_least (length es) e s)"
proof -
  have "unat (LaunchCount e) < INT_MAX"
    using unsigned_less [where 'a = nat, of "LaunchCount e"] by (simp add: INT_MAX_def)
  with assms show ?thesis
    by (cases "es = []") (auto simp: scan_inv_def scan_least_def Let_def nth_append)
qed

lemma hist_scan_least:
  assumes "\<not> list_ex (hit nm) es" "scan_inv ds s" "hist_scan nm now (length ds) es rs s = Inr (es', rs', s')"
  shows "scan_inv (ds @ es) s'"
  using assms
proof (induction es arbitrary: ds s es')
  case (Cons e es)
  from Cons.prems(1,3) obtain es1 where
    "hist_scan nm now (length (ds @ [e])) es rs (scan_least (length ds) e s) = Inr (es1, rs', s')"
    by (auto simp: Let_def hit_def result_iff)
  from Cons.IH [OF _ scan_least_inv [OF Cons.prems(2)] this] Cons.prems(1) show ?case by simp
qed simp

lemma blank_slots: "set (BlankSlotList es) = {i. i < length es \<and> is_blank (es ! i)}"
  by (auto simp: BlankSlotList_def)

lemma set_name_hit:
  assumes "length nm \<le> 15" "cstring nm" "length old = 16" "old ! 15 = NUL"
  shows "array_str (set_name nm old) = nm"
proof -
  have "drop 15 old = [NUL]" using assms(3,4) by (simp add: Cons_nth_drop_Suc [symmetric])
  then have "set_name nm old = nm @ replicate (Suc (15 - length nm)) NUL"
    using assms(1) by (simp add: set_name_def flip: replicate_append_same)
  then show ?thesis using assms(2) by (simp add: array_str_def takeWhile_neq_append_Cons cstring_def)
qed



text \<open>
  A title that is in the table: no record is lost, moved or renamed, the records of other titles
  are unchanged, those of the title carry the new date, and nothing goes to the old-history
  file.
\<close>
theorem history_known:
  assumes "list_ex (hit nm) es" "update_history nm now rs es = Inr (es', old)"
  shows "old = None \<and> length es' = length es
     \<and> (\<forall>k < length es. name (es' ! k) = name (es ! k)
          \<and> (if hit nm (es ! k) then DateStamp (es' ! k) = now else es' ! k = es ! k))"
proof -
  obtain es1 rs1 s where s: "hist_scan nm now 0 es rs scan_init = Inr (es1, rs1, s)"
    "(if IsNewRecord s then insert_record nm now (LeastUsedRecord s) rs1 es1 else Inr (es1, None)) = Inr (es', old)"
    using assms(2) by (auto simp: update_history_def bindR_Inr_iff)
  from hist_scan_Inr [OF s(1)] assms(1) s(2) show ?thesis by auto
qed

definition demo_record :: history_entry where
  "demo_record = blank_record\<lparr>name := ''SLUS_200.02'' @ replicate 5 NUL, LaunchCount := 3, bitmask := 1\<rparr>"

theorem history_known_witness:
  "\<exists>e. update_history ''SLUS_200.02'' 7 [] [demo_record, blank_record] = Inr ([e, blank_record], None)
     \<and> DateStamp e = 7 \<and> name e = name demo_record"
proof -
  let ?e = "demo_record\<lparr>DateStamp := 7, LaunchCount := 4\<rparr>"
  have h: "hit ''SLUS_200.02'' demo_record" "\<not> hit ''SLUS_200.02'' blank_record"
    by (simp_all add: hit_def demo_record_def blank_record_def array_str_def strncmp_eq_def NUL_def)
  have "count_launch 7 [] demo_record = Inr (?e, [])"
    by (simp add: count_launch_def demo_record_def blank_record_def next_launch_def Let_def)
  then have u: "update_history ''SLUS_200.02'' 7 [] [demo_record, blank_record] = Inr ([?e, blank_record], None)"
    using h by (simp add: update_history_def hit_def [symmetric] scan_init_def Let_def)
  have "list_ex (hit ''SLUS_200.02'') [demo_record, blank_record]" using h by simp
  from history_known [OF this u] have "DateStamp ?e = 7 \<and> name ?e = name demo_record" by simp
  with u show ?thesis by blast
qed

subsection \<open>Boot paths\<close>

lemma last_separator_found:
  assumes "pre \<noteq> []" "is_separator sep" "\<forall>c \<in> set rest. \<not> is_separator c"
  shows "last_separator (pre @ sep # rest) (length pre + k) = length pre"
proof (induction k)
  case 0
  have "(pre @ sep # rest) ! length pre = sep" by simp
  then show ?case using assms(1,2) by (cases "length pre") auto
next
  case (Suc k)
  have "\<not> (Suc (length pre + k) < length (pre @ sep # rest) \<and> is_separator ((pre @ sep # rest) ! Suc (length pre + k)))"
    using assms(3) by (auto simp: nth_append)
  then show ?case using Suc by simp
qed

lemma last_separator_none:
  "\<forall>c \<in> set (tl path). \<not> is_separator c \<Longrightarrow> last_separator path n = 0"
proof (induction n)
  case (Suc n)
  have "\<not> (Suc n < length path \<and> is_separator (path ! Suc n))"
    using Suc.prems by (cases path) auto
  then show ?case using Suc by simp
qed simp

text \<open>
  The file name of a full boot path \<open>device:...\name;1\<close>: what follows the last separator, without
  the version \<open>;1\<close>.
\<close>
theorem boot_filename:
  assumes "pre \<noteq> []" "is_separator sep" "\<forall>c \<in> set (nm @ suffix). \<not> is_separator c"
    and "suffix = '';1'' \<or> (suffix = [] \<and> (length nm < 2 \<or> drop (length nm - 2) nm \<noteq> '';1''))"
    and "length nm < room"
  shows "GetBootFilename room (pre @ sep # nm @ suffix) = Inr nm"
proof -
  let ?p = "pre @ sep # nm @ suffix"
  have i: "last_separator ?p (length ?p) = length pre"
    using last_separator_found [OF assms(1-3), of "length ?p - length pre"] by simp
  have cut: "(if 2 < length ?p \<and> ?p ! (length ?p - 1) = CHR ''1'' \<and> ?p ! (length ?p - 2) = CHR '';''
              then length ?p - 2 else length ?p) - (length pre + 1) = length nm"
  proof (cases "suffix = []")
    case False
    then have "suffix = '';1''" using assms(4) by blast
    moreover from this have "?p ! (length ?p - 1) = CHR ''1''" "?p ! (length ?p - 2) = CHR '';''"
      by (simp_all add: nth_append)
    ultimately show ?thesis by simp
  next
    case True
    have "\<not> (?p ! (length ?p - 1) = CHR ''1'' \<and> ?p ! (length ?p - 2) = CHR '';'')"
    proof (cases nm rule: rev_cases)
      case Nil
      then show ?thesis using assms(2) True by (auto simp: nth_append is_separator_def)
    next
      case (snoc ys y)
      show ?thesis
      proof (cases ys rule: rev_cases)
        case Nil
        then show ?thesis using assms(2) True snoc by (auto simp: nth_append is_separator_def)
      next
        case (snoc zs z)
        then show ?thesis using assms(4) True \<open>nm = ys @ [y]\<close> by (auto simp: nth_append)
      qed
    qed
    then show ?thesis using True by auto
  qed
  have "drop (length pre + 1) ?p = nm @ suffix" by simp
  then show ?thesis
    unfolding GetBootFilename_def Let_def i cut using assms(1,5) by simp
qed

theorem boot_filename_witness:
  "GetBootFilename 17 (''cdrom0:'' @ CHR 0x5C # ''SLUS_200.02'' @ '';1'') = Inr ''SLUS_200.02''"
  by (rule boot_filename) (simp_all add: is_separator_def)

text \<open>
  A path that is only a file name is cut to three characters: the bound is the size of the
  pointer \<open>filename\<close>, not of the array.
\<close>
theorem bare_filename_cut:
  assumes "\<forall>c \<in> set (tl path). \<not> is_separator c"
  shows "GetBootFilename room path = Inr (take 3 path)"
  using last_separator_none [OF assms] by (simp add: GetBootFilename_def)

theorem bare_filename_cut_witness:
  "GetBootFilename 17 ''SLUS_200.02'' = Inr ''SLU''"
  by (subst bare_filename_cut) (simp_all add: is_separator_def)

end
