(* ===== verification/Submenu.thy ===== *)
theory Submenu
  imports Prelude "HOL-Library.Multiset" "HOL-Library.List_Lexorder"
begin

text \<open>
  The submenus of \<open>src/src/menusys.c\<close> (the game lists): doubly linked lists in a heap, with
  append, removal by id, destruction and \<open>submenuSort\<close>.  The sort is followed pointer by pointer and
  shown to be a stable sort by the case-insensitive title.
\<close>

subsection \<open>Data\<close>

type_synonym ptr = "nat option"

record submenu_item =
  icon_id :: int
  title :: string
  text_id :: int
  id_of :: int

text \<open>\<open>submenu_list_t\<close> and \<open>menu_list_t\<close> differ only in the type of their item.\<close>

record 'a list_node =
  item :: 'a
  prev :: ptr
  succ :: ptr

type_synonym 'a dheap = "nat \<Rightarrow> 'a list_node option"
type_synonym heap = "submenu_item dheap"

definition node :: "'a dheap \<Rightarrow> nat \<Rightarrow> ub + 'a list_node" where
  "node h a = (case h a of None \<Rightarrow> Inl UseAfterFree | Some n \<Rightarrow> Inr n)"

definition set_prev :: "nat \<Rightarrow> ptr \<Rightarrow> 'a dheap \<Rightarrow> ub + 'a dheap" where
  "set_prev a p h = bindR (node h a) (\<lambda>n. Inr (h(a \<mapsto> n\<lparr>prev := p\<rparr>)))"

definition set_succ :: "nat \<Rightarrow> ptr \<Rightarrow> 'a dheap \<Rightarrow> ub + 'a dheap" where
  "set_succ a p h = bindR (node h a) (\<lambda>n. Inr (h(a \<mapsto> n\<lparr>succ := p\<rparr>)))"

lemmas access_defs = node_def set_prev_def set_succ_def

subsection \<open>Titles\<close>

text \<open>\<open>_l\<close> is the text of the current language.\<close>

definition submenuItemGetText :: "(int \<Rightarrow> string) \<Rightarrow> submenu_item \<Rightarrow> string" where
  "submenuItemGetText l it = (if 0 \<le> text_id it then l (text_id it) else title it)"

fun strcasecmp :: "string \<Rightarrow> string \<Rightarrow> int" where
  "strcasecmp [] [] = 0"
| "strcasecmp [] (d # ds) = - int (code (tolower d))"
| "strcasecmp (c # cs) [] = int (code (tolower c))"
| "strcasecmp (c # cs) (d # ds) =
     (if tolower c = tolower d then strcasecmp cs ds
      else int (code (tolower c)) - int (code (tolower d)))"

text \<open>Titles up to case, in dictionary order.\<close>

datatype folded = Folded (codes: "nat list")

instantiation folded :: linorder
begin

definition less_eq_folded :: "folded \<Rightarrow> folded \<Rightarrow> bool" where
  "less_eq_folded a b \<longleftrightarrow> codes a \<le> codes b"

definition less_folded :: "folded \<Rightarrow> folded \<Rightarrow> bool" where
  "less_folded a b \<longleftrightarrow> codes a < codes b"

instance
  by standard (auto simp: less_eq_folded_def less_folded_def folded.expand)

end

definition fold_case :: "string \<Rightarrow> folded" where
  "fold_case s = Folded (map (\<lambda>c. of_char (tolower c)) s)"

lemma tolower_NUL: "c \<noteq> NUL \<Longrightarrow> 0 < (code (tolower c) :: nat)"
proof -
  assume "c \<noteq> NUL"
  then have "(code c :: nat) \<noteq> code NUL" by simp
  then have "0 < (code c :: nat)" by (simp add: NUL_def)
  then show ?thesis by (auto simp: tolower_def of_char_of)
qed

lemma strcasecmp_pos:
  "cstring s \<Longrightarrow> cstring t \<Longrightarrow> 0 < strcasecmp s t \<longleftrightarrow> fold_case t < fold_case s"
proof (induction s t rule: strcasecmp.induct)
  case (4 c cs d ds)
  have "(code (tolower c) :: nat) = code (tolower d) \<longleftrightarrow> tolower c = tolower d" by (rule char_code_inject)
  with 4 show ?case by (auto simp: fold_case_def less_folded_def cstring_def)
qed (auto simp: fold_case_def less_folded_def cstring_def tolower_NUL)

subsection \<open>Building and destroying\<close>

text \<open>A fresh block \<open>a\<close>; the theme's cache arrays of an item are not part of the model.\<close>

definition submenuAllocItem :: "nat \<Rightarrow> submenu_item \<Rightarrow> heap \<Rightarrow> heap" where
  "submenuAllocItem a it h = h(a \<mapsto> \<lparr>item = it, prev = None, succ = None\<rparr>)"

fun to_end :: "nat \<Rightarrow> 'a dheap \<Rightarrow> nat \<Rightarrow> ub + nat" where
  "to_end 0 h cur = Inl Diverges"
| "to_end (Suc fuel) h cur =
     bindR (node h cur) (\<lambda>n. case succ n of None \<Rightarrow> Inr cur | Some nx \<Rightarrow> to_end fuel h nx)"

text \<open>The result is the list pointer, the new item and the heap.\<close>

definition submenuAppendItem :: "nat \<Rightarrow> nat \<Rightarrow> submenu_item \<Rightarrow> ptr \<Rightarrow> heap \<Rightarrow> ub + (ptr \<times> nat \<times> heap)" where
  "submenuAppendItem fuel a it submenu h =
     (case submenu of
        None \<Rightarrow> Inr (Some a, a, submenuAllocItem a it h)
      | Some s \<Rightarrow>
          bindR (to_end fuel h s) (\<lambda>cur.
          bindR (set_succ cur (Some a) (submenuAllocItem a it h)) (\<lambda>h.
          bindR (set_prev a (Some cur) h) (\<lambda>h. Inr (submenu, a, h)))))"

text \<open>\<open>submenuRemoveItem\<close>: the pointer \<open>prev\<close> of the item behind a removed one is left as it is.\<close>

fun remove_items :: "nat \<Rightarrow> int \<Rightarrow> ptr \<Rightarrow> ptr \<Rightarrow> ptr \<Rightarrow> heap \<Rightarrow> ub + (ptr \<times> heap)" where
  "remove_items fuel i submenu pv None h = Inr (submenu, h)"
| "remove_items 0 i submenu pv (Some cur) h = Inl Diverges"
| "remove_items (Suc fuel) i submenu pv (Some cur) h =
     bindR (node h cur) (\<lambda>n.
       if id_of (item n) = i
       then bindR (case pv of None \<Rightarrow> Inr h | Some p \<Rightarrow> set_succ p (succ n) h) (\<lambda>h.
            remove_items fuel i (if submenu = Some cur then succ n else submenu) pv (succ n) (h(cur := None)))
       else remove_items fuel i submenu (Some cur) (succ n) h)"

definition submenuRemoveItem :: "nat \<Rightarrow> ptr \<Rightarrow> int \<Rightarrow> heap \<Rightarrow> ub + (ptr \<times> heap)" where
  "submenuRemoveItem fuel submenu i h = remove_items fuel i submenu None submenu h"

fun submenuDestroy :: "nat \<Rightarrow> ptr \<Rightarrow> heap \<Rightarrow> ub + heap" where
  "submenuDestroy fuel None h = Inr h"
| "submenuDestroy 0 (Some cur) h = Inl Diverges"
| "submenuDestroy (Suc fuel) (Some cur) h =
     bindR (node h cur) (\<lambda>n. submenuDestroy fuel (succ n) (h(cur := None)))"

subsection \<open>Sorting\<close>

definition swap :: "nat \<Rightarrow> nat \<Rightarrow> 'a dheap \<Rightarrow> ub + 'a dheap" where
  "swap a b h =
     bindR (node h a) (\<lambda>na. bindR (node h b) (\<lambda>nb.
       let pa = prev na; nxb = succ nb
       in bindR (set_succ a nxb h) (\<lambda>h. bindR (set_prev b pa h) (\<lambda>h.
          bindR (set_succ b (Some a) h) (\<lambda>h. bindR (set_prev a (Some b) h) (\<lambda>h.
          bindR (case pa of None \<Rightarrow> Inr h | Some p \<Rightarrow> set_succ p (Some b) h) (\<lambda>h.
                 case nxb of None \<Rightarrow> Inr h | Some n \<Rightarrow> set_prev n (Some a) h)))))))"

text \<open>The inner loop: the result is the heap, the head and \<open>sorted\<close>.\<close>

fun sort_pass :: "(int \<Rightarrow> string) \<Rightarrow> nat \<Rightarrow> nat \<Rightarrow> nat \<Rightarrow> bool \<Rightarrow> heap \<Rightarrow> ub + (nat \<times> bool \<times> heap)" where
  "sort_pass l 0 head tip srt h = Inl Diverges"
| "sort_pass l (Suc fuel) head tip srt h =
     bindR (node h tip) (\<lambda>nt.
       case succ nt of
         None \<Rightarrow> Inr (head, srt, h)
       | Some nxt \<Rightarrow>
           bindR (node h nxt) (\<lambda>nn.
             if 0 < strcasecmp (submenuItemGetText l (item nt)) (submenuItemGetText l (item nn))
             then bindR (swap tip nxt h) (\<lambda>h.
                    sort_pass l fuel (if tip = head then nxt else head) tip False h)
             else sort_pass l fuel head nxt srt h))"

fun sort_loop :: "(int \<Rightarrow> string) \<Rightarrow> nat \<Rightarrow> nat \<Rightarrow> nat \<Rightarrow> heap \<Rightarrow> ub + (nat \<times> heap)" where
  "sort_loop l passes 0 head h = Inl Diverges"
| "sort_loop l passes (Suc fuel) head h =
     bindR (sort_pass l passes head head True h) (\<lambda>(head, srt, h).
       if srt then Inr (head, h) else sort_loop l passes fuel head h)"

text \<open>\<open>passes\<close> bounds the steps of one pass, \<open>fuel\<close> the number of passes.\<close>

definition submenuSort :: "(int \<Rightarrow> string) \<Rightarrow> nat \<Rightarrow> nat \<Rightarrow> ptr \<Rightarrow> heap \<Rightarrow> ub + (ptr \<times> heap)" where
  "submenuSort l passes fuel submenu h =
     (case submenu of
        None \<Rightarrow> Inr (None, h)
      | Some s \<Rightarrow> bindR (node h s) (\<lambda>n.
          if succ n = None then Inr (submenu, h)
          else bindR (sort_loop l passes fuel s h) (\<lambda>(head, h). Inr (Some head, h))))"

subsection \<open>Doubly linked segments\<close>

text \<open>
  \<open>dseg h pr p as pl q\<close>: the nodes \<open>as\<close> are linked both ways; the first has \<open>prev\<close> \<open>pr\<close> and is reached
  by \<open>p\<close>, the last is \<open>pl\<close> and its \<open>succ\<close> is \<open>q\<close>.
\<close>

primrec dseg :: "'a dheap \<Rightarrow> ptr \<Rightarrow> ptr \<Rightarrow> nat list \<Rightarrow> ptr \<Rightarrow> ptr \<Rightarrow> bool" where
  "dseg h pr p [] pl q \<longleftrightarrow> p = q \<and> pr = pl"
| "dseg h pr p (a # as) pl q \<longleftrightarrow>
     p = Some a \<and> (\<exists>n. h a = Some n \<and> prev n = pr \<and> dseg h (Some a) (succ n) as pl q)"

definition dlist :: "'a dheap \<Rightarrow> ptr \<Rightarrow> nat list \<Rightarrow> bool" where
  "dlist h p as \<longleftrightarrow> distinct as \<and> (\<exists>pl. dseg h None p as pl None)"

text \<open>The items held by the nodes of a list, whatever the links.\<close>

definition same_items :: "'a dheap \<Rightarrow> 'a dheap \<Rightarrow> bool" where
  "same_items h h' \<longleftrightarrow> (\<forall>a. map_option item (h' a) = map_option item (h a))"

lemma same_items_refl [simp]: "same_items h h"
  by (simp add: same_items_def)

lemma same_items_forth:
  assumes "same_items h h'" "h a = Some n"
  shows "\<exists>n'. h' a = Some n' \<and> item n' = item n"
proof -
  have "map_option item (h' a) = Some (item n)" using assms by (simp add: same_items_def)
  then show ?thesis by (cases "h' a") auto
qed

lemma same_items_back:
  assumes "same_items h h'" "h' a = Some n'"
  shows "\<exists>n. h a = Some n \<and> item n = item n'"
  using same_items_forth [of h' h a n'] assms by (simp add: same_items_def)

lemma same_items_trans: "same_items h1 h2 \<Longrightarrow> same_items h2 h3 \<Longrightarrow> same_items h1 h3"
  by (simp add: same_items_def)

lemma dseg_append: "dseg h pr p (as @ bs) pl q \<longleftrightarrow> (\<exists>m x. dseg h pr p as m x \<and> dseg h m x bs pl q)"
  by (induction as arbitrary: pr p) auto

lemma dseg_cong: "(\<And>a. a \<in> set as \<Longrightarrow> h' a = h a) \<Longrightarrow> dseg h' pr p as pl q = dseg h pr p as pl q"
  by (induction as arbitrary: pr p) auto

lemma dseg_dom: "dseg h pr p as pl q \<Longrightarrow> a \<in> set as \<Longrightarrow> \<exists>n. h a = Some n"
  by (induction as arbitrary: pr p) auto

lemma dseg_head: "dseg h pr p as pl q \<Longrightarrow> as \<noteq> [] \<Longrightarrow> p = Some (hd as)"
  by (cases as) auto

lemma dseg_last: "dseg h pr p (as @ [a]) pl q \<longleftrightarrow>
    pl = Some a \<and> (\<exists>m n. dseg h pr p as m (Some a) \<and> h a = Some n \<and> prev n = m \<and> succ n = q)"
  by (auto simp: dseg_append)

subsection \<open>Exchanging two neighbours\<close>

lemma swap_run:
  assumes "h a = Some na" "h b = Some nb" "a \<noteq> b" "succ na = Some b" "prev nb = Some a"
    "\<forall>p. prev na = Some p \<longrightarrow> p \<noteq> a \<and> p \<noteq> b \<and> h p \<noteq> None"
    "\<forall>q. succ nb = Some q \<longrightarrow> q \<noteq> a \<and> q \<noteq> b \<and> h q \<noteq> None \<and> prev na \<noteq> Some q"
  shows "\<exists>h'. swap a b h = Inr h' \<and> same_items h h'
      \<and> h' a = Some (na\<lparr>succ := succ nb, prev := Some b\<rparr>)
      \<and> h' b = Some (nb\<lparr>prev := prev na, succ := Some a\<rparr>)
      \<and> (\<forall>p n. prev na = Some p \<and> h p = Some n \<longrightarrow> h' p = Some (n\<lparr>succ := Some b\<rparr>))
      \<and> (\<forall>q n. succ nb = Some q \<and> h q = Some n \<longrightarrow> h' q = Some (n\<lparr>prev := Some a\<rparr>))
      \<and> (\<forall>x. x \<noteq> a \<and> x \<noteq> b \<and> prev na \<noteq> Some x \<and> succ nb \<noteq> Some x \<longrightarrow> h' x = h x)"
  using assms
  by (cases "prev na"; cases "succ nb")
    (auto simp: swap_def access_defs same_items_def Let_def)

lemma dseg_prev: "dseg h pr p as pl q \<Longrightarrow> pl = (if as = [] then pr else Some (last as))"
  by (induction as arbitrary: pr p) auto

text \<open>Redirecting the last \<open>succ\<close>, or the first \<open>prev\<close>, of a segment.\<close>

lemma dseg_redirect_last:
  assumes "dseg h pr p as pl q" "distinct as"
    "\<forall>x \<in> set as. pl \<noteq> Some x \<longrightarrow> h' x = h x"
    "\<forall>x n. as \<noteq> [] \<and> pl = Some x \<and> h x = Some n \<longrightarrow> h' x = Some (n\<lparr>succ := q'\<rparr>)"
  shows "dseg h' pr (if as = [] then q' else p) as pl q'"
proof (cases as rule: rev_cases)
  case Nil
  then show ?thesis using assms(1) by simp
next
  case (snoc bs b)
  with assms(1) obtain m n where b: "pl = Some b" "dseg h pr p bs m (Some b)" "h b = Some n" "prev n = m"
    by (auto simp: dseg_last)
  have "dseg h' pr p bs m (Some b)"
    using b(2) assms(2,3) by (subst dseg_cong [where h = h]) (auto simp: snoc b(1))
  then show ?thesis using assms(4) b by (simp add: snoc dseg_last)
qed

lemma dseg_redirect_first:
  assumes "dseg h pr p as pl q" "distinct as"
    "\<forall>x \<in> set as. p \<noteq> Some x \<longrightarrow> h' x = h x"
    "\<forall>x n. as \<noteq> [] \<and> p = Some x \<and> h x = Some n \<longrightarrow> h' x = Some (n\<lparr>prev := pr'\<rparr>)"
  shows "dseg h' pr' p as (if as = [] then pr' else pl) q"
proof (cases as)
  case Nil
  then show ?thesis using assms(1) by simp
next
  case (Cons b bs)
  with assms(1) obtain n where b: "p = Some b" "h b = Some n" "dseg h (Some b) (succ n) bs pl q" by auto
  have "dseg h' (Some b) (succ n) bs pl q"
    using b(3) assms(2,3) by (subst dseg_cong [where h = h]) (auto simp: Cons b(1))
  then show ?thesis using assms(4) b by (simp add: Cons)
qed

lemma swap_dlist:
  assumes "dlist h p (xs @ a # b # ys)"
  shows "\<exists>h'. swap a b h = Inr h' \<and> same_items h h'
      \<and> dlist h' (if xs = [] then Some b else p) (xs @ b # a # ys)"
proof -
  from assms obtain pl m na nb where d: "distinct (xs @ a # b # ys)" "dseg h None p xs m (Some a)"
    "h a = Some na" "prev na = m" "succ na = Some b" "h b = Some nb" "prev nb = Some a"
    "dseg h (Some b) (succ nb) ys pl None"
    by (auto simp: dlist_def dseg_append)
  have m: "m = (if xs = [] then None else Some (last xs))" using dseg_prev [OF d(2)] by simp
  have q: "ys \<noteq> [] \<Longrightarrow> succ nb = Some (hd ys)" "ys = [] \<Longrightarrow> succ nb = None"
    using d(8) dseg_head [OF d(8)] by auto
  have 1: "\<forall>p. prev na = Some p \<longrightarrow> p \<noteq> a \<and> p \<noteq> b \<and> h p \<noteq> None"
    using d(1,2,4) m dseg_dom [OF d(2)] by (auto split: if_splits)
  have 2: "\<forall>q. succ nb = Some q \<longrightarrow> q \<noteq> a \<and> q \<noteq> b \<and> h q \<noteq> None \<and> prev na \<noteq> Some q"
    using d(1,4,8) m q dseg_dom [OF d(8)] by (cases ys; cases xs rule: rev_cases) auto
  have "a \<noteq> b" using d(1) by simp
  from swap_run [OF d(3,6) this d(5,7) 1 2] obtain h' where h': "swap a b h = Inr h'" "same_items h h'"
    "h' a = Some (na\<lparr>succ := succ nb, prev := Some b\<rparr>)"
    "h' b = Some (nb\<lparr>prev := prev na, succ := Some a\<rparr>)"
    "\<And>p n. prev na = Some p \<Longrightarrow> h p = Some n \<Longrightarrow> h' p = Some (n\<lparr>succ := Some b\<rparr>)"
    "\<And>q n. succ nb = Some q \<Longrightarrow> h q = Some n \<Longrightarrow> h' q = Some (n\<lparr>prev := Some a\<rparr>)"
    "\<And>x. x \<noteq> a \<Longrightarrow> x \<noteq> b \<Longrightarrow> prev na \<noteq> Some x \<Longrightarrow> succ nb \<noteq> Some x \<Longrightarrow> h' x = h x"
    by blast
  have "dseg h' None (if xs = [] then Some b else p) xs m (Some b)"
  proof (rule dseg_redirect_last [OF d(2)])
    show "\<forall>x \<in> set xs. m \<noteq> Some x \<longrightarrow> h' x = h x"
      using d(1,4) q by (intro ballI impI h'(7)) (cases ys; auto)+
    show "\<forall>x n. xs \<noteq> [] \<and> m = Some x \<and> h x = Some n \<longrightarrow> h' x = Some (n\<lparr>succ := Some b\<rparr>)"
      using h'(5) d(4) by blast
  qed (use d(1) in simp)
  moreover have "dseg h' (Some a) (succ nb) ys (if ys = [] then Some a else pl) None"
  proof (rule dseg_redirect_first [OF d(8)])
    show "\<forall>x \<in> set ys. succ nb \<noteq> Some x \<longrightarrow> h' x = h x"
    proof (intro ballI impI)
      fix x assume x: "x \<in> set ys" "succ nb \<noteq> Some x"
      have "xs \<noteq> [] \<Longrightarrow> last xs \<noteq> x" using x(1) d(1) last_in_set [of xs] by (metis Int_iff distinct_append
          emptyE list.set_intros(2))
      then have "prev na \<noteq> Some x" using d(4) m by (cases "xs = []") auto
      then show "h' x = h x" using x d(1) by (intro h'(7)) auto
    qed
    show "\<forall>x n. ys \<noteq> [] \<and> succ nb = Some x \<and> h x = Some n \<longrightarrow> h' x = Some (n\<lparr>prev := Some a\<rparr>)"
      using h'(6) by blast
  qed (use d(1) in simp)
  ultimately have "dseg h' None (if xs = [] then Some b else p) (xs @ b # a # ys) (if ys = [] then Some a else pl) None"
    using h'(3,4) d(4) unfolding dseg_append by (intro exI [of _ m] exI [of _ "Some b"]) simp
  moreover have "distinct (xs @ b # a # ys)" using d(1) by auto
  ultimately show ?thesis using h'(1,2) by (auto simp: dlist_def)
qed

subsection \<open>Bubble sort on lists\<close>

fun bpass :: "('a \<Rightarrow> 'k::linorder) \<Rightarrow> 'a \<Rightarrow> 'a list \<Rightarrow> 'a list \<times> bool" where
  "bpass k t [] = ([t], False)"
| "bpass k t (y # ys) =
     (if k y < k t then (y # fst (bpass k t ys), True)
      else (t # fst (bpass k y ys), snd (bpass k y ys)))"

fun inversions :: "('a \<Rightarrow> 'k::linorder) \<Rightarrow> 'a list \<Rightarrow> nat" where
  "inversions k [] = 0"
| "inversions k (x # xs) = length (filter (\<lambda>y. k y < k x) xs) + inversions k xs"

lemma mset_bpass: "mset (fst (bpass k t ys)) = add_mset t (mset ys)"
  by (induction k t ys rule: bpass.induct) auto

lemma bpass_filter: "filter (\<lambda>x. k x = c) (fst (bpass k t ys)) = filter (\<lambda>x. k x = c) (t # ys)"
  by (induction k t ys rule: bpass.induct) auto

lemma bpass_nonempty [simp]: "fst (bpass k t ys) \<noteq> []"
  by (cases ys) simp_all

lemma bpass_sorted: "\<not> snd (bpass k t ys) \<Longrightarrow> sorted (map k (t # ys)) \<and> fst (bpass k t ys) = t # ys"
  by (induction k t ys rule: bpass.induct) (auto split: if_splits intro: order_trans)

lemma length_filter_mset: "mset xs = mset ys \<Longrightarrow> length (filter P xs) = length (filter P ys)"
  by (metis mset_filter size_mset)

lemma bpass_inversions:
  "inversions k (fst (bpass k t ys)) \<le> inversions k (t # ys)
   \<and> (snd (bpass k t ys) \<longrightarrow> inversions k (fst (bpass k t ys)) < inversions k (t # ys))"
proof (induction ys arbitrary: t)
  case (Cons y ys)
  have m: "mset (fst (bpass k x ys)) = mset (x # ys)" for x by (simp add: mset_bpass)
  show ?case
  proof (cases "k y < k t")
    case True
    then have "length (filter (\<lambda>z. k z < k y) (fst (bpass k t ys))) = length (filter (\<lambda>z. k z < k y) ys)"
      using length_filter_mset [OF m [of t], of "\<lambda>z. k z < k y"] by simp
    then show ?thesis using True Cons.IH [of t] by simp
  next
    case False
    have "length (filter (\<lambda>z. k z < k t) (fst (bpass k y ys))) = length (filter (\<lambda>z. k z < k t) (y # ys))"
      by (rule length_filter_mset [OF m])
    then show ?thesis using False Cons.IH [of y] by simp
  qed
qed simp

lemma inversions_bound: "inversions k xs \<le> length xs * length xs"
proof (induction xs)
  case (Cons x xs)
  have "length (filter (\<lambda>y. k y < k x) xs) \<le> length xs" by (rule length_filter_le)
  moreover have "length (x # xs) * length (x # xs) = length xs * length xs + 2 * length xs + 1" by simp
  ultimately show ?case using Cons unfolding inversions.simps by linarith
qed simp

lemma inversions_cong: "(\<And>x. x \<in> set xs \<Longrightarrow> k' x = k x) \<Longrightarrow> inversions k' xs = inversions k xs"
proof (induction xs)
  case (Cons x xs)
  have "filter (\<lambda>y. k' y < k' x) xs = filter (\<lambda>y. k y < k x) xs" using Cons.prems by (auto intro!: filter_cong)
  with Cons show ?case by simp
qed simp

subsection \<open>The sort on the heap\<close>

definition key :: "(int \<Rightarrow> string) \<Rightarrow> heap \<Rightarrow> nat \<Rightarrow> folded" where
  "key l h a = fold_case (submenuItemGetText l (item (the (h a))))"

text \<open>Every title is a C string (it holds no NUL).\<close>

definition titles_ok :: "(int \<Rightarrow> string) \<Rightarrow> heap \<Rightarrow> bool" where
  "titles_ok l h \<longleftrightarrow> (\<forall>a n. h a = Some n \<longrightarrow> cstring (submenuItemGetText l (item n)))"

lemma same_items_titles: "same_items h h' \<Longrightarrow> titles_ok l h \<Longrightarrow> titles_ok l h'"
  unfolding titles_ok_def by (metis same_items_back)

lemma same_items_key: "same_items h h' \<Longrightarrow> h a = Some n \<Longrightarrow> key l h' a = key l h a"
  by (auto simp: key_def dest: same_items_forth)

lemma bpass_cong: "(\<And>x. x \<in> set (t # ys) \<Longrightarrow> k' x = k x) \<Longrightarrow> bpass k' t ys = bpass k t ys"
proof (induction ys arbitrary: t)
  case (Cons y ys)
  have "bpass k' t ys = bpass k t ys" "bpass k' y ys = bpass k y ys"
    using Cons.prems by (auto intro!: Cons.IH)
  with Cons.prems show ?case by simp
qed simp

lemma sort_pass_dlist:
  assumes "dlist h (Some head) (xs @ t # ys)" "head = hd (xs @ [t])" "titles_ok l h" "length ys < fuel"
  shows "\<exists>h'. sort_pass l fuel head t srt h =
        Inr (hd (xs @ fst (bpass (key l h) t ys)), srt \<and> \<not> snd (bpass (key l h) t ys), h')
      \<and> dlist h' (Some (hd (xs @ fst (bpass (key l h) t ys)))) (xs @ fst (bpass (key l h) t ys))
      \<and> same_items h h'"
  using assms
proof (induction ys arbitrary: h head xs t srt fuel)
  case Nil
  then obtain f where f: "fuel = Suc f" by (cases fuel) auto
  from Nil.prems(1) obtain n where "h t = Some n" "succ n = None"
    by (auto simp: dlist_def dseg_last)
  then show ?case using Nil.prems by (auto simp: f node_def)
next
  case (Cons y ys)
  then obtain f where f: "fuel = Suc f" "length ys < f" by (cases fuel) auto
  from Cons.prems(1) obtain nt ny where n: "h t = Some nt" "succ nt = Some y" "h y = Some ny"
    by (auto simp: dlist_def dseg_append)
  have c: "0 < strcasecmp (submenuItemGetText l (item nt)) (submenuItemGetText l (item ny))
      \<longleftrightarrow> key l h y < key l h t"
    using Cons.prems(3) n by (subst strcasecmp_pos) (auto simp: titles_ok_def key_def)
  show ?case
  proof (cases "key l h y < key l h t")
    case True
    from swap_dlist [OF Cons.prems(1)] obtain h1 where h1: "swap t y h = Inr h1" "same_items h h1"
      "dlist h1 (if xs = [] then Some y else Some head) (xs @ y # t # ys)" by blast
    have hd: "(if t = head then y else head) = hd ((xs @ [y]) @ [t])"
      using Cons.prems(1,2) by (cases xs) (auto simp: dlist_def)
    have d1: "dlist h1 (Some (hd ((xs @ [y]) @ [t]))) ((xs @ [y]) @ t # ys)"
      using h1(3) Cons.prems(2) by (cases xs) auto
    have dom: "\<exists>n. h x = Some n" if "x \<in> set (t # ys)" for x
      using Cons.prems(1) that dseg_dom by (fastforce simp: dlist_def)
    have k: "bpass (key l h1) t ys = bpass (key l h) t ys"
      using same_items_key [OF h1(2)] dom by (intro bpass_cong) blast
    from Cons.IH [OF d1 refl same_items_titles [OF h1(2) Cons.prems(3)] f(2), of False] obtain h' where h':
      "sort_pass l f (hd ((xs @ [y]) @ [t])) t False h1 = Inr (hd ((xs @ [y]) @ fst (bpass (key l h) t ys)), False, h')"
      "dlist h' (Some (hd ((xs @ [y]) @ fst (bpass (key l h) t ys)))) ((xs @ [y]) @ fst (bpass (key l h) t ys))"
      "same_items h1 h'" unfolding k by auto
    show ?thesis
      using h' h1(1,2) n c True hd by (intro exI [of _ h']) (auto simp: f(1) node_def intro: same_items_trans)
  next
    case False
    have d: "dlist h (Some head) ((xs @ [t]) @ y # ys)" "head = hd ((xs @ [t]) @ [y])"
      using Cons.prems(1,2) by (cases xs; simp)+
    from Cons.IH [OF d Cons.prems(3) f(2), of srt] show ?thesis
      using n c False by (simp add: f(1) node_def)
  qed
qed

text \<open>What sorting means: the same nodes, in order of the titles, equal titles in their old order.\<close>

definition stable_sorted :: "('a \<Rightarrow> 'k::linorder) \<Rightarrow> 'a list \<Rightarrow> 'a list \<Rightarrow> bool" where
  "stable_sorted k as bs \<longleftrightarrow>
     mset bs = mset as \<and> sorted (map k bs) \<and> (\<forall>c. filter (\<lambda>x. k x = c) bs = filter (\<lambda>x. k x = c) as)"

lemma stable_sorted_cong:
  assumes "stable_sorted k' as' bs" "\<forall>x \<in> set as. k' x = k x" "mset as' = mset as"
    "\<forall>c. filter (\<lambda>x. k x = c) as' = filter (\<lambda>x. k x = c) as"
  shows "stable_sorted k as bs"
proof -
  have s: "set as' = set as" "set bs = set as"
    using assms(1,3) by (metis set_mset_mset stable_sorted_def)+
  have "map k bs = map k' bs" using assms(2) s(2) by simp
  then have "sorted (map k bs)" using assms(1) by (simp only: stable_sorted_def)
  moreover have "filter (\<lambda>x. k x = c) bs = filter (\<lambda>x. k' x = c) bs"
    "filter (\<lambda>x. k x = c) as' = filter (\<lambda>x. k' x = c) as'" for c
    using assms(2) s by (auto intro!: filter_cong)
  ultimately show ?thesis using assms by (simp add: stable_sorted_def)
qed

lemma sort_loop_dlist:
  assumes "dlist h (Some head) as" "as \<noteq> []" "titles_ok l h" "length as \<le> passes" "inversions (key l h) as < fuel"
  shows "\<exists>h' head' bs. sort_loop l passes fuel head h = Inr (head', h') \<and> dlist h' (Some head') bs
      \<and> stable_sorted (key l h) as bs \<and> same_items h h'"
  using assms
proof (induction fuel arbitrary: h head as)
  case (Suc fuel)
  from Suc.prems(2) obtain t ys where as: "as = t # ys" by (cases as) auto
  have hd: "head = t" using Suc.prems(1) by (auto simp: dlist_def as)
  let ?b = "bpass (key l h) t ys"
  have "dlist h (Some head) ([] @ t # ys)" "head = hd ([] @ [t])" "length ys < passes"
    using Suc.prems(1,4) hd by (simp_all add: as)
  from sort_pass_dlist [OF this(1,2) Suc.prems(3) this(3), of True] obtain h1 where h1:
    "sort_pass l passes head head True h = Inr (hd (fst ?b), \<not> snd ?b, h1)"
    "dlist h1 (Some (hd (fst ?b))) (fst ?b)" "same_items h h1" by (auto simp: hd)
  show ?case
  proof (cases "snd ?b")
    case False
    then show ?thesis
      using h1 bpass_sorted [OF False] by (intro exI [of _ h1] exI [of _ "hd (fst ?b)"] exI [of _ "fst ?b"])
        (simp add: stable_sorted_def as)
  next
    case True
    have dom: "\<exists>n. h x = Some n" if "x \<in> set as" for x
      using Suc.prems(1) that dseg_dom by (fastforce simp: dlist_def)
    have k: "key l h1 x = key l h x" if "x \<in> set as" for x
      using same_items_key [OF h1(3)] dom [OF that] by blast
    have set: "set (fst ?b) = set as" by (metis as mset_bpass mset.simps(2) set_mset_mset)
    have "inversions (key l h1) (fst ?b) = inversions (key l h) (fst ?b)"
      by (rule inversions_cong) (use k set in blast)
    then have "inversions (key l h1) (fst ?b) < fuel"
      using bpass_inversions [of "key l h" t ys] True Suc.prems(5) by (simp add: as)
    moreover have "length (fst ?b) \<le> passes"
      using Suc.prems(4) mset_bpass [of "key l h" t ys] by (metis as mset.simps(2) size_mset)
    ultimately obtain h' head' bs where h': "sort_loop l passes fuel (hd (fst ?b)) h1 = Inr (head', h')"
      "dlist h' (Some head') bs" "stable_sorted (key l h1) (fst ?b) bs" "same_items h1 h'"
      using Suc.IH [OF h1(2) _ same_items_titles [OF h1(3) Suc.prems(3)]] by auto
    have "stable_sorted (key l h) as bs"
      by (rule stable_sorted_cong [OF h'(3)])
        (use k mset_bpass [of "key l h" t ys] bpass_filter [of "key l h" _ t ys] in \<open>auto simp: as\<close>)
    then show ?thesis using h' h1 True by (auto intro: same_items_trans)
  qed
qed simp

text \<open>
  C10. \<open>submenuSort\<close> ends without touching freed memory and leaves a well linked list (both
  directions) of the same items, in case-insensitive dictionary order of the titles on
  screen; items with equal titles keep their order.
\<close>
theorem submenuSort_correct:
  assumes "dlist h p as" "titles_ok l h" "length as \<le> passes" "length as * length as < fuel"
  shows "\<exists>h' p' bs. submenuSort l passes fuel p h = Inr (p', h') \<and> dlist h' p' bs
     \<and> stable_sorted (key l h) as bs \<and> same_items h h'"
proof (cases as)
  case Nil
  then have "p = None" using assms(1) by (simp add: dlist_def)
  then show ?thesis using assms(1) by (intro exI [of _ h] exI [of _ p] exI [of _ as])
    (simp add: submenuSort_def stable_sorted_def Nil)
next
  case (Cons a bs)
  then obtain n where n: "p = Some a" "h a = Some n" using assms(1) by (auto simp: dlist_def)
  show ?thesis
  proof (cases "succ n = None")
    case True
    then have "bs = []" using assms(1) n Cons by (cases bs) (auto simp: dlist_def)
    then show ?thesis using True assms(1) n by (intro exI [of _ h] exI [of _ p] exI [of _ as])
      (simp add: submenuSort_def stable_sorted_def Cons node_def)
  next
    case False
    have "inversions (key l h) as < fuel"
      using inversions_bound [of "key l h" as] assms(4) by linarith
    then show ?thesis
      using sort_loop_dlist [of h a as l passes fuel] assms n False Cons
      by (auto simp: submenuSort_def node_def)
  qed
qed

definition demo_heap :: heap where
  "demo_heap =
     [1 \<mapsto> \<lparr>item = \<lparr>icon_id = 0, title = ''zelda'', text_id = -1, id_of = 1\<rparr>, prev = None, succ = Some 2\<rparr>,
      2 \<mapsto> \<lparr>item = \<lparr>icon_id = 0, title = ''Ape Escape'', text_id = -1, id_of = 2\<rparr>, prev = Some 1, succ = Some 3\<rparr>,
      3 \<mapsto> \<lparr>item = \<lparr>icon_id = 0, title = ''ape escape'', text_id = -1, id_of = 3\<rparr>, prev = Some 2, succ = None\<rparr>]"

lemma demo_dlist: "dlist demo_heap (Some 1) [1, 2, 3]"
  by (simp add: dlist_def demo_heap_def)

theorem submenuSort_correct_witness:
  "\<exists>h' p' bs. submenuSort (\<lambda>_. []) 3 10 (Some 1) demo_heap = Inr (p', h') \<and> dlist h' p' bs
     \<and> mset bs = {#1, 2, 3#} \<and> hd bs = 2"
proof -
  have "titles_ok (\<lambda>_. []) demo_heap"
    by (auto simp: titles_ok_def demo_heap_def submenuItemGetText_def cstring_def NUL_def split: if_splits)
  from submenuSort_correct [OF demo_dlist this, of 3 10] obtain h' p' bs where
    r: "submenuSort (\<lambda>_. []) 3 10 (Some 1) demo_heap = Inr (p', h')" "dlist h' p' bs"
      "stable_sorted (key (\<lambda>_. []) demo_heap) [1, 2, 3] bs" by auto
  let ?k = "key (\<lambda>_. []) demo_heap"
  have k: "?k 1 = fold_case ''zelda''" "?k 2 = fold_case ''Ape Escape''" "?k 3 = ?k 2" "?k 2 < ?k 1"
    by (simp_all add: key_def demo_heap_def submenuItemGetText_def fold_case_def tolower_def less_folded_def)
  have f: "filter (\<lambda>x. ?k x = ?k 2) bs = [2, 3]" and m: "mset bs = {#1, 2, 3#}" and srt: "sorted (map ?k bs)"
    using r(3) k by (auto simp: stable_sorted_def)
  have ne: "bs \<noteq> []" using m by auto
  have "hd bs \<in> {1, 2, 3}" using m ne by (metis hd_in_set set_mset_mset set_mset_add_mset_insert set_mset_empty)
  moreover have "hd bs \<noteq> 1"
  proof
    assume "hd bs = 1"
    moreover have "2 \<in> set bs" using m by (metis set_mset_mset set_mset_add_mset_insert insertI1 insertI2)
    ultimately have "?k 1 \<le> ?k 2" using srt ne by (cases bs) auto
    with k(4) show False by simp
  qed
  moreover have "hd bs \<noteq> 3" using f k(3) ne by (cases bs) auto
  ultimately show ?thesis using r(1,2) m by blast
qed

subsection \<open>Appending\<close>

lemma to_end_dseg:
  assumes "dseg h pr (Some c) (c # as) pl None" "length as < fuel"
  shows "to_end fuel h c = Inr (last (c # as))"
  using assms
proof (induction as arbitrary: c pr fuel)
  case Nil
  then show ?case by (cases fuel) (auto simp: node_def)
next
  case (Cons a as)
  then obtain f where f: "fuel = Suc f" "length as < f" by (cases fuel) auto
  from Cons.prems(1) obtain n where n: "h c = Some n" "succ n = Some a" "dseg h (Some c) (Some a) (a # as) pl None"
    by auto
  from Cons.IH [OF n(3) f(2)] n(1,2) show ?case by (simp add: f(1) node_def)
qed

text \<open>
  Appending puts the new item at the end of the list, linked both ways, and changes no other item.
\<close>
theorem submenuAppend_correct:
  assumes "dlist h p as" "h a = None" "length as \<le> fuel"
  shows "\<exists>h' p'. submenuAppendItem fuel a it p h = Inr (p', a, h') \<and> dlist h' p' (as @ [a])
     \<and> (\<forall>b. map_option item (h' b) = (if b = a then Some it else map_option item (h b)))"
proof (cases as rule: rev_cases)
  case Nil
  then have "p = None" using assms(1) by (simp add: dlist_def)
  then show ?thesis using assms(2)
    by (auto simp: submenuAppendItem_def submenuAllocItem_def dlist_def Nil)
next
  case (snoc bs z)
  then obtain m n where d: "distinct (bs @ [z])" "dseg h None p bs m (Some z)" "h z = Some n" "prev n = m" "succ n = None"
    using assms(1) by (auto simp: dlist_def dseg_last)
  have "as \<noteq> []" using snoc by simp
  then obtain c cs where c: "as = c # cs" by (cases as) auto
  then have p: "p = Some c" using assms(1) by (auto simp: dlist_def)
  have "dseg h None (Some c) (c # cs) (Some z) None" using d p by (simp add: c [symmetric] snoc dseg_last)
  moreover have "length cs < fuel" using assms(3) c by simp
  ultimately have "to_end fuel h c = Inr z"
    using to_end_dseg [of h None c cs "Some z" fuel] by (simp add: c [symmetric] snoc)
  let ?h = "h(a \<mapsto> \<lparr>item = it, prev = Some z, succ = None\<rparr>, z \<mapsto> n\<lparr>succ := Some a\<rparr>)"
  have az: "a \<noteq> z" "a \<notin> set bs" using assms(2) d(3) dseg_dom [OF d(2)] by fastforce+
  have run: "submenuAppendItem fuel a it p h = Inr (p, a, ?h)"
    using \<open>to_end fuel h c = Inr z\<close> az d(3)
    by (simp add: submenuAppendItem_def submenuAllocItem_def p access_defs fun_upd_twist)
  have "dseg ?h None p bs m (Some z)"
    using d(1,2) az by (subst dseg_cong [where h = h]) auto
  then have "dlist ?h p (as @ [a])"
    using d az by (auto simp: dlist_def snoc dseg_append)
  moreover have "\<forall>b. map_option item (?h b) = (if b = a then Some it else map_option item (h b))"
    using az d(3) by auto
  ultimately show ?thesis using run by blast
qed

theorem submenuAppend_correct_witness:
  "\<exists>h' p'. submenuAppendItem 3 4 \<lparr>icon_id = 0, title = ''Ico'', text_id = -1, id_of = 4\<rparr> (Some 1) demo_heap = Inr (p', 4, h')
     \<and> dlist h' p' [1, 2, 3, 4]"
  using submenuAppend_correct [OF demo_dlist, of 4 3 "\<lparr>icon_id = 0, title = ''Ico'', text_id = -1, id_of = 4\<rparr>"]
  by (auto simp: demo_heap_def)

subsection \<open>Removing\<close>

text \<open>Removing an inner item leaves the next item's \<open>prev\<close> pointing to the freed block.\<close>

lemma submenuRemove_dangling:
  assumes "submenuRemoveItem 3 (Some 1) 2 demo_heap = Inr (p', h')"
  shows "p' = Some 1 \<and> h' 2 = None \<and> (\<exists>n. h' 3 = Some n \<and> prev n = Some 2)"
  using assms by (auto simp: submenuRemoveItem_def demo_heap_def access_defs eval_nat_numeral)

end
