(* ===== verification/MenuNav.thy ===== *)
theory MenuNav
  imports Submenu
begin

text \<open>
  Moving through the menus of \<open>src/src/menusys.c\<close>: the cursor and the page of the selected
  item list (\<open>menuNextV\<close> and its relatives) and the row of menus with its visibility
  flags (\<open>menuAppendItem\<close>, \<open>refreshMenuPosition\<close>, \<open>menuNextH\<close>, \<open>menuPrevH\<close>, \<open>menuSetSelectedItem\<close>).  Sound
  effects are left out.  A fuel that is at least the length of the list is enough for every loop.
\<close>

subsection \<open>The cursor in an item list\<close>

record view =
  submenu :: ptr
  current :: ptr
  pagestart :: ptr

text \<open>\<open>while (--itms && cur->next) cur = cur->next;\<close> and the same with \<open>prev\<close>.\<close>

fun walk_next :: "nat \<Rightarrow> int \<Rightarrow> nat \<Rightarrow> heap \<Rightarrow> ub + nat" where
  "walk_next 0 itms cur h = Inl Diverges"
| "walk_next (Suc fuel) itms cur h =
     (if itms - 1 = 0 then Inr cur
      else bindR (node h cur) (\<lambda>n. case succ n of
             None \<Rightarrow> Inr cur
           | Some nx \<Rightarrow> walk_next fuel (itms - 1) nx h))"

fun walk_prev :: "nat \<Rightarrow> int \<Rightarrow> nat \<Rightarrow> heap \<Rightarrow> ub + nat" where
  "walk_prev 0 itms cur h = Inl Diverges"
| "walk_prev (Suc fuel) itms cur h =
     (if itms - 1 = 0 then Inr cur
      else bindR (node h cur) (\<lambda>n. case prev n of
             None \<Rightarrow> Inr cur
           | Some pv \<Rightarrow> walk_prev fuel (itms - 1) pv h))"

text \<open>Is \<open>target\<close> among the items of the page that starts at \<open>cur\<close>?\<close>

fun on_page :: "nat \<Rightarrow> int \<Rightarrow> ptr \<Rightarrow> ptr \<Rightarrow> heap \<Rightarrow> ub + bool" where
  "on_page 0 itms cur target h = Inl Diverges"
| "on_page (Suc fuel) itms cur target h =
     (if itms - 1 = 0 then Inr False
      else case cur of
             None \<Rightarrow> Inr False
           | Some c \<Rightarrow> if target = cur then Inr True
               else bindR (node h c) (\<lambda>n. on_page fuel (itms - 1) (succ n) target h))"

definition menuFirstPage :: "view \<Rightarrow> view" where
  "menuFirstPage v = (if current v = None then v else v\<lparr>current := submenu v, pagestart := submenu v\<rparr>)"

definition menuLastPage :: "nat \<Rightarrow> int \<Rightarrow> heap \<Rightarrow> view \<Rightarrow> ub + view" where
  "menuLastPage fuel displayedItems h v =
     (case current v of
        None \<Rightarrow> Inr v
      | Some cur \<Rightarrow>
          bindR (to_end fuel h cur) (\<lambda>last.
          bindR (walk_prev fuel displayedItems last h) (\<lambda>start.
            Inr (v\<lparr>current := Some last, pagestart := Some start\<rparr>))))"

definition menuNextV :: "nat \<Rightarrow> int \<Rightarrow> heap \<Rightarrow> view \<Rightarrow> ub + view" where
  "menuNextV fuel displayedItems h v =
     (case current v of
        None \<Rightarrow> Inr (menuFirstPage v)
      | Some cur \<Rightarrow> bindR (node h cur) (\<lambda>n. case succ n of
            None \<Rightarrow> Inr (menuFirstPage v)
          | Some nx \<Rightarrow>
              bindR (on_page fuel (displayedItems + 1) (pagestart v) (Some nx) h) (\<lambda>found.
                Inr (if found then v\<lparr>current := Some nx\<rparr>
                     else v\<lparr>current := Some nx, pagestart := Some nx\<rparr>))))"

definition menuPrevV :: "nat \<Rightarrow> int \<Rightarrow> heap \<Rightarrow> view \<Rightarrow> ub + view" where
  "menuPrevV fuel displayedItems h v =
     (case current v of
        None \<Rightarrow> menuLastPage fuel displayedItems h v
      | Some cur \<Rightarrow> bindR (node h cur) (\<lambda>n. case prev n of
            None \<Rightarrow> menuLastPage fuel displayedItems h v
          | Some pv \<Rightarrow>
              if pagestart v = Some cur
              then bindR (walk_prev fuel (displayedItems + 1) cur h) (\<lambda>start.
                     Inr (v\<lparr>current := Some pv, pagestart := Some start\<rparr>))
              else Inr (v\<lparr>current := Some pv\<rparr>)))"

definition menuNextPage :: "nat \<Rightarrow> int \<Rightarrow> heap \<Rightarrow> view \<Rightarrow> ub + view" where
  "menuNextPage fuel displayedItems h v =
     (case pagestart v of
        None \<Rightarrow> Inr (menuFirstPage v)
      | Some cur \<Rightarrow> bindR (node h cur) (\<lambda>n. case succ n of
            None \<Rightarrow> Inr (menuFirstPage v)
          | Some _ \<Rightarrow> bindR (walk_next fuel (displayedItems + 1) cur h) (\<lambda>c.
              Inr (v\<lparr>current := Some c, pagestart := Some c\<rparr>))))"

definition menuPrevPage :: "nat \<Rightarrow> int \<Rightarrow> heap \<Rightarrow> view \<Rightarrow> ub + view" where
  "menuPrevPage fuel displayedItems h v =
     (case pagestart v of
        None \<Rightarrow> menuLastPage fuel displayedItems h v
      | Some cur \<Rightarrow> bindR (node h cur) (\<lambda>n. case prev n of
            None \<Rightarrow> menuLastPage fuel displayedItems h v
          | Some _ \<Rightarrow> bindR (walk_prev fuel (displayedItems + 1) cur h) (\<lambda>c.
              Inr (v\<lparr>current := Some c, pagestart := Some c\<rparr>))))"

subsection \<open>Positions in a list\<close>

lemma dlist_nth:
  assumes "dlist h p as" "i < length as"
  shows "\<exists>n. h (as ! i) = Some n \<and> succ n = (if Suc i < length as then Some (as ! Suc i) else None)
     \<and> prev n = (if i = 0 then None else Some (as ! (i - 1)))"
proof -
  obtain pl where d: "dseg h None p as pl None" using assms(1) by (auto simp: dlist_def)
  have "as = take i as @ as ! i # drop (Suc i) as" using assms(2) by (rule id_take_nth_drop)
  with d obtain m x where s: "dseg h None p (take i as) m x" "dseg h m x (as ! i # drop (Suc i) as) pl None"
    by (metis dseg_append)
  then obtain n where n: "h (as ! i) = Some n" "prev n = m" "dseg h (Some (as ! i)) (succ n) (drop (Suc i) as) pl None"
    by auto
  have "m = (if i = 0 then None else Some (as ! (i - 1)))"
    using dseg_prev [OF s(1)] assms(2) by (cases i) (auto simp: take_Suc_conv_app_nth)
  moreover have "succ n = (if Suc i < length as then Some (as ! Suc i) else None)"
  proof (cases "Suc i < length as")
    case True
    then show ?thesis using dseg_head [OF n(3)] by (simp add: hd_drop_conv_nth)
  next
    case False
    then show ?thesis using n(3) by simp
  qed
  ultimately show ?thesis using n by blast
qed

lemma walk_next_nth:
  assumes "dlist h p as" "i < length as" "length as - i \<le> fuel" "1 \<le> m"
  shows "walk_next fuel (int m) (as ! i) h = Inr (as ! min (i + m - 1) (length as - 1))"
  using assms(2-)
proof (induction m arbitrary: i fuel)
  case (Suc m)
  then obtain f where f: "fuel = Suc f" by (cases fuel) auto
  obtain n where n: "h (as ! i) = Some n" "succ n = (if Suc i < length as then Some (as ! Suc i) else None)"
    using dlist_nth [OF assms(1) Suc.prems(1)] by blast
  show ?case
  proof (cases "m = 0")
    case True
    moreover have "i \<le> length as - 1" using Suc.prems(1) by simp
    ultimately show ?thesis by (simp add: f min_def)
  next
    case False
    show ?thesis
    proof (cases "Suc i < length as")
      case True
      then have "walk_next f (int m) (as ! Suc i) h = Inr (as ! min (Suc i + m - 1) (length as - 1))"
        using Suc.prems(2) False f by (intro Suc.IH) auto
      then show ?thesis using n True False by (simp add: f node_def)
    next
      case False
      then have "i = length as - 1" using Suc.prems(1) by simp
      then show ?thesis using n False \<open>m \<noteq> 0\<close> by (simp add: f node_def min_def)
    qed
  qed
qed simp

lemma walk_prev_nth:
  assumes "dlist h p as" "i < length as" "i < fuel" "1 \<le> m"
  shows "walk_prev fuel (int m) (as ! i) h = Inr (as ! (i - (m - 1)))"
  using assms(2-)
proof (induction m arbitrary: i fuel)
  case (Suc m)
  then obtain f where f: "fuel = Suc f" by (cases fuel) auto
  obtain n where n: "h (as ! i) = Some n" "prev n = (if i = 0 then None else Some (as ! (i - 1)))"
    using dlist_nth [OF assms(1) Suc.prems(1)] by blast
  show ?case
  proof (cases "m = 0 \<or> i = 0")
    case True
    then show ?thesis using n by (auto simp: f node_def)
  next
    case False
    then have "walk_prev f (int m) (as ! (i - 1)) h = Inr (as ! (i - 1 - (m - 1)))"
      using Suc.prems f by (intro Suc.IH) auto
    moreover have "i - 1 - (m - 1) = i - m" using False by simp
    ultimately show ?thesis using n False by (simp add: f node_def)
  qed
qed simp

lemma on_page_nth:
  assumes "dlist h p as" "j < length as" "k < length as" "j \<le> k" "length as - j < fuel" "1 \<le> m"
  shows "on_page fuel (int m) (Some (as ! j)) (Some (as ! k)) h = Inr (k < j + (m - 1))"
  using assms(2-)
proof (induction m arbitrary: j fuel)
  case (Suc m)
  then obtain f where f: "fuel = Suc f" by (cases fuel) auto
  have d: "distinct as" using assms(1) by (simp add: dlist_def)
  obtain n where n: "h (as ! j) = Some n" "succ n = (if Suc j < length as then Some (as ! Suc j) else None)"
    using dlist_nth [OF assms(1) Suc.prems(1)] by blast
  show ?case
  proof (cases "m = 0 \<or> k = j")
    case True
    then show ?thesis using Suc.prems(3) by (auto simp: f)
  next
    case False
    then have j: "j < k" "Suc j < length as" "as ! k \<noteq> as ! j"
      using Suc.prems(1-3) d by (auto simp: nth_eq_iff_index_eq)
    then have "on_page f (int m) (Some (as ! Suc j)) (Some (as ! k)) h = Inr (k < Suc j + (m - 1))"
      using Suc.prems f False by (intro Suc.IH) auto
    then show ?thesis using n j False by (auto simp: f node_def)
  qed
qed simp

lemma to_end_nth:
  assumes "dlist h p as" "i < length as" "length as - i \<le> fuel"
  shows "to_end fuel h (as ! i) = Inr (as ! (length as - 1))"
  using assms(2-)
proof (induction fuel arbitrary: i)
  case (Suc f)
  obtain n where n: "h (as ! i) = Some n" "succ n = (if Suc i < length as then Some (as ! Suc i) else None)"
    using dlist_nth [OF assms(1) Suc.prems(1)] by blast
  show ?case
  proof (cases "Suc i < length as")
    case True
    then have "to_end f h (as ! Suc i) = Inr (as ! (length as - 1))" using Suc.prems by (intro Suc.IH) auto
    then show ?thesis using n True by (simp add: node_def)
  next
    case False
    then have "i = length as - 1" using Suc.prems(1) by simp
    then show ?thesis using n False by (simp add: node_def)
  qed
qed simp

text \<open>The cursor is at position \<open>i\<close> and its page, of \<open>n\<close> items, starts at \<open>j\<close>.\<close>

definition shows_at :: "nat list \<Rightarrow> nat \<Rightarrow> view \<Rightarrow> nat \<Rightarrow> nat \<Rightarrow> bool" where
  "shows_at as n v i j \<longleftrightarrow> i < length as \<and> submenu v = Some (as ! 0) \<and> current v = Some (as ! i)
     \<and> pagestart v = Some (as ! j) \<and> j \<le> i \<and> i < j + n"

lemma first_page_shows:
  "shows_at as n v i j \<Longrightarrow> 1 \<le> n \<Longrightarrow> shows_at as n (menuFirstPage v) 0 0"
  by (auto simp: shows_at_def menuFirstPage_def)

lemma last_page_shows:
  assumes "dlist h p as" "shows_at as n v i j" "1 \<le> n" "length as < fuel"
  shows "\<exists>v' j'. menuLastPage fuel (int n) h v = Inr v' \<and> shows_at as n v' (length as - 1) j'"
proof -
  have i: "i < length as" "current v = Some (as ! i)" using assms(2) by (simp_all add: shows_at_def)
  have "to_end fuel h (as ! i) = Inr (as ! (length as - 1))" using to_end_nth [OF assms(1) i(1)] assms(4) by simp
  moreover have "walk_prev fuel (int n) (as ! (length as - 1)) h = Inr (as ! (length as - 1 - (n - 1)))"
    using walk_prev_nth [OF assms(1), of "length as - 1" fuel n] i(1) assms(3,4) by simp
  ultimately have "menuLastPage fuel (int n) h v =
      Inr (v\<lparr>current := Some (as ! (length as - 1)), pagestart := Some (as ! (length as - 1 - (n - 1)))\<rparr>)"
    using i by (simp add: menuLastPage_def)
  moreover have "shows_at as n (v\<lparr>current := Some (as ! (length as - 1)), pagestart := Some (as ! (length as - 1 - (n - 1)))\<rparr>)
      (length as - 1) (length as - 1 - (n - 1))"
    using assms(2,3) i by (auto simp: shows_at_def)
  ultimately show ?thesis by blast
qed

lemma next_item_shows:
  assumes "dlist h p as" "shows_at as n v i j" "1 \<le> n" "length as < fuel"
  shows "\<exists>v' j'. menuNextV fuel (int n) h v = Inr v' \<and> shows_at as n v' (if Suc i < length as then Suc i else 0) j'"
proof -
  have v: "i < length as" "current v = Some (as ! i)" "pagestart v = Some (as ! j)" "j \<le> i" "i < j + n"
    using assms(2) by (simp_all add: shows_at_def)
  obtain nd where nd: "h (as ! i) = Some nd" "succ nd = (if Suc i < length as then Some (as ! Suc i) else None)"
    using dlist_nth [OF assms(1) v(1)] by blast
  show ?thesis
  proof (cases "Suc i < length as")
    case True
    then have "on_page fuel (int (n + 1)) (Some (as ! j)) (Some (as ! Suc i)) h = Inr (Suc i < j + (n + 1 - 1))"
      using v assms(4) by (intro on_page_nth [OF assms(1)]) auto
    then have p: "on_page fuel (int n + 1) (pagestart v) (Some (as ! Suc i)) h = Inr (Suc i < j + n)"
      using v by (simp add: add.commute)
    show ?thesis
    proof (cases "Suc i < j + n")
      case in_page: True
      then have "menuNextV fuel (int n) h v = Inr (v\<lparr>current := Some (as ! Suc i)\<rparr>)"
        using v nd True p by (simp add: menuNextV_def node_def)
      moreover have "shows_at as n (v\<lparr>current := Some (as ! Suc i)\<rparr>) (Suc i) j"
        using assms(2) True in_page by (auto simp: shows_at_def)
      ultimately show ?thesis using True by auto
    next
      case False
      then have "menuNextV fuel (int n) h v = Inr (v\<lparr>current := Some (as ! Suc i), pagestart := Some (as ! Suc i)\<rparr>)"
        using v nd True p by (simp add: menuNextV_def node_def)
      moreover have "shows_at as n (v\<lparr>current := Some (as ! Suc i), pagestart := Some (as ! Suc i)\<rparr>) (Suc i) (Suc i)"
        using assms(2,3) True by (auto simp: shows_at_def)
      ultimately show ?thesis using True by auto
    qed
  next
    case False
    then show ?thesis using v nd first_page_shows [OF assms(2,3)] by (auto simp: menuNextV_def node_def)
  qed
qed

lemma prev_item_shows:
  assumes "dlist h p as" "shows_at as n v i j" "1 \<le> n" "length as < fuel"
  shows "\<exists>v' j'. menuPrevV fuel (int n) h v = Inr v' \<and> shows_at as n v' (if i = 0 then length as - 1 else i - 1) j'"
proof -
  have v: "i < length as" "current v = Some (as ! i)" "pagestart v = Some (as ! j)" "j \<le> i" "i < j + n"
    using assms(2) by (simp_all add: shows_at_def)
  have d: "distinct as" using assms(1) by (simp add: dlist_def)
  obtain nd where nd: "h (as ! i) = Some nd" "prev nd = (if i = 0 then None else Some (as ! (i - 1)))"
    using dlist_nth [OF assms(1) v(1)] by blast
  show ?thesis
  proof (cases "i = 0")
    case True
    then show ?thesis using v nd last_page_shows [OF assms] by (simp add: menuPrevV_def node_def)
  next
    case False
    have w: "walk_prev fuel (1 + int n) (as ! i) h = Inr (as ! (i - n))"
      using walk_prev_nth [OF assms(1) v(1), of fuel "n + 1"] v assms(4) by simp
    show ?thesis
    proof (cases "j = i")
      case True
      then have "menuPrevV fuel (int n) h v = Inr (v\<lparr>current := Some (as ! (i - 1)), pagestart := Some (as ! (i - n))\<rparr>)"
        using v nd w False by (simp add: menuPrevV_def node_def add.commute)
      moreover have "shows_at as n (v\<lparr>current := Some (as ! (i - 1)), pagestart := Some (as ! (i - n))\<rparr>) (i - 1) (i - n)"
        using assms(2,3) False by (auto simp: shows_at_def)
      ultimately show ?thesis using False by auto
    next
      case ne: False
      then have "as ! j \<noteq> as ! i" using v d by (simp add: nth_eq_iff_index_eq)
      then have "menuPrevV fuel (int n) h v = Inr (v\<lparr>current := Some (as ! (i - 1))\<rparr>)"
        using v nd False by (simp add: menuPrevV_def node_def)
      moreover have "shows_at as n (v\<lparr>current := Some (as ! (i - 1))\<rparr>) (i - 1) j"
        using assms(2) False ne by (auto simp: shows_at_def)
      ultimately show ?thesis using False by auto
    qed
  qed
qed

lemma page_shows:
  assumes "dlist h p as" "shows_at as n v i j" "1 \<le> n" "length as < fuel"
  shows "\<exists>v' k. menuNextPage fuel (int n) h v = Inr v' \<and> shows_at as n v' k k
       \<and> k = (if Suc j < length as then min (j + n) (length as - 1) else 0)"
    "\<exists>v' k' k. menuPrevPage fuel (int n) h v = Inr v' \<and> shows_at as n v' k' k
       \<and> k' = (if j = 0 then length as - 1 else j - n)"
proof -
  have v: "j < length as" "pagestart v = Some (as ! j)" "submenu v = Some (as ! 0)"
    using assms(2) by (auto simp: shows_at_def)
  obtain nd where nd: "h (as ! j) = Some nd" "succ nd = (if Suc j < length as then Some (as ! Suc j) else None)"
    "prev nd = (if j = 0 then None else Some (as ! (j - 1)))"
    using dlist_nth [OF assms(1) v(1)] by blast
  have f: "walk_next fuel (int n + 1) (as ! j) h = Inr (as ! min (j + n) (length as - 1))"
    using walk_next_nth [OF assms(1) v(1), of fuel "n + 1"] assms(4) by (simp add: add.commute)
  have b: "walk_prev fuel (int n + 1) (as ! j) h = Inr (as ! (j - n))"
    using walk_prev_nth [OF assms(1) v(1), of fuel "n + 1"] v(1) assms(4) by (simp add: add.commute)
  have at: "shows_at as n (v\<lparr>current := Some (as ! k), pagestart := Some (as ! k)\<rparr>) k k" if "k < length as" for k
    using that assms(3) v(3) by (simp add: shows_at_def)
  show "\<exists>v' k. menuNextPage fuel (int n) h v = Inr v' \<and> shows_at as n v' k k
       \<and> k = (if Suc j < length as then min (j + n) (length as - 1) else 0)"
  proof (cases "Suc j < length as")
    case True
    have "shows_at as n (v\<lparr>current := Some (as ! min (j + n) (length as - 1)),
        pagestart := Some (as ! min (j + n) (length as - 1))\<rparr>) (min (j + n) (length as - 1)) (min (j + n) (length as - 1))"
      by (rule at) (use True in auto)
    then show ?thesis using True v nd f by (simp add: menuNextPage_def node_def)
  next
    case False
    then show ?thesis using v nd first_page_shows [OF assms(2,3)] by (simp add: menuNextPage_def node_def)
  qed
  show "\<exists>v' k' k. menuPrevPage fuel (int n) h v = Inr v' \<and> shows_at as n v' k' k
       \<and> k' = (if j = 0 then length as - 1 else j - n)"
  proof (cases "j = 0")
    case True
    then show ?thesis using v nd last_page_shows [OF assms] by (simp add: menuPrevPage_def node_def)
  next
    case False
    have "j - n < length as" using v(1) by simp
    from at [OF this] show ?thesis using False v nd b by (auto simp: menuPrevPage_def node_def)
  qed
qed

text \<open>
  The cursor stays on the page: from any state in which the page of \<open>n\<close> items shows the cursor,
  every movement (next, previous, page down, page up, first, last) ends, reaches the item
  it should (wrapping around at both ends) and leaves a page that shows it.
\<close>
theorem cursor_on_page:
  assumes "dlist h p as" "shows_at as n v i j" "1 \<le> n" "length as < fuel"
  shows "(\<exists>v' j'. menuNextV fuel (int n) h v = Inr v' \<and> shows_at as n v' (if Suc i < length as then Suc i else 0) j')
    \<and> (\<exists>v' j'. menuPrevV fuel (int n) h v = Inr v' \<and> shows_at as n v' (if i = 0 then length as - 1 else i - 1) j')
    \<and> (\<exists>v' k. menuNextPage fuel (int n) h v = Inr v' \<and> shows_at as n v' k k
         \<and> k = (if Suc j < length as then min (j + n) (length as - 1) else 0))
    \<and> (\<exists>v' k' k. menuPrevPage fuel (int n) h v = Inr v' \<and> shows_at as n v' k' k
         \<and> k' = (if j = 0 then length as - 1 else j - n))
    \<and> shows_at as n (menuFirstPage v) 0 0
    \<and> (\<exists>v' j'. menuLastPage fuel (int n) h v = Inr v' \<and> shows_at as n v' (length as - 1) j')"
  using next_item_shows [OF assms] prev_item_shows [OF assms] page_shows [OF assms]
    first_page_shows [OF assms(2,3)] last_page_shows [OF assms] by blast

theorem cursor_on_page_witness:
  "\<exists>v' j'. menuPrevV 4 2 demo_heap \<lparr>submenu = Some 1, current = Some 1, pagestart = Some 1\<rparr> = Inr v'
     \<and> shows_at [1, 2, 3] 2 v' 2 j'"
proof -
  have "shows_at [1, 2, 3] 2 \<lparr>submenu = Some 1, current = Some 1, pagestart = Some 1\<rparr> 0 0"
    by (simp add: shows_at_def)
  from cursor_on_page [OF demo_dlist this, of 4] show ?thesis by (simp add: numeral_2_eq_2)
qed

subsection \<open>The row of menus\<close>

text \<open>A menu: is it drawn, and which \<open>menu_item_t\<close> it is.\<close>

record menu_item =
  visible :: int
  ident :: nat

record menus =
  menu :: ptr
  selected_item :: ptr
  mheap :: "menu_item dheap"

definition menuAppendItem :: "nat \<Rightarrow> nat \<Rightarrow> menu_item \<Rightarrow> menus \<Rightarrow> ub + menus" where
  "menuAppendItem fuel a it s =
     (let h = (mheap s)(a \<mapsto> \<lparr>item = it, prev = None, succ = None\<rparr>)
      in case menu s of
           None \<Rightarrow> Inr (s\<lparr>menu := Some a, selected_item := Some a, mheap := h\<rparr>)
         | Some m \<Rightarrow>
             bindR (to_end fuel (mheap s) m) (\<lambda>cur.
             bindR (set_succ cur (Some a) h) (\<lambda>h.
             bindR (set_prev a (Some cur) h) (\<lambda>h. Inr (s\<lparr>mheap := h\<rparr>)))))"

text \<open>\<open>while (cur->item->visible == 0 && cur->next) cur = cur->next;\<close>\<close>

fun skip_hidden :: "nat \<Rightarrow> nat \<Rightarrow> menu_item dheap \<Rightarrow> ub + nat" where
  "skip_hidden 0 cur h = Inl Diverges"
| "skip_hidden (Suc fuel) cur h =
     bindR (node h cur) (\<lambda>n.
       if visible (item n) = 0
       then (case succ n of None \<Rightarrow> Inr cur | Some nx \<Rightarrow> skip_hidden fuel nx h)
       else Inr cur)"

definition refreshMenuPosition :: "nat \<Rightarrow> menus \<Rightarrow> ub + menus" where
  "refreshMenuPosition fuel s =
     (case menu s of
        None \<Rightarrow> Inr s
      | Some m \<Rightarrow>
          bindR (skip_hidden fuel m (mheap s)) (\<lambda>cur.
          bindR (node (mheap s) cur) (\<lambda>n.
            Inr (s\<lparr>selected_item := if visible (item n) = 0 then menu s else Some cur\<rparr>))))"

text \<open>\<open>while (p != NULL && p->item->visible == 0) p = p->next;\<close> in a direction \<open>dir\<close>.\<close>

fun next_visible :: "(menu_item list_node \<Rightarrow> ptr) \<Rightarrow> nat \<Rightarrow> ptr \<Rightarrow> menu_item dheap \<Rightarrow> ub + ptr" where
  "next_visible dir fuel None h = Inr None"
| "next_visible dir 0 (Some cur) h = Inl Diverges"
| "next_visible dir (Suc fuel) (Some cur) h =
     bindR (node h cur) (\<lambda>n. if visible (item n) = 0 then next_visible dir fuel (dir n) h else Inr (Some cur))"

definition move_h :: "(menu_item list_node \<Rightarrow> ptr) \<Rightarrow> nat \<Rightarrow> menus \<Rightarrow> ub + menus" where
  "move_h dir fuel s =
     (case selected_item s of
        None \<Rightarrow> Inl NullPointer
      | Some sel \<Rightarrow>
          bindR (node (mheap s) sel) (\<lambda>n.
          bindR (next_visible dir fuel (dir n) (mheap s)) (\<lambda>p.
            Inr (if p = None then s else s\<lparr>selected_item := p\<rparr>))))"

definition menuNextH :: "nat \<Rightarrow> menus \<Rightarrow> ub + menus" where
  "menuNextH = move_h succ"

definition menuPrevH :: "nat \<Rightarrow> menus \<Rightarrow> ub + menus" where
  "menuPrevH = move_h prev"

fun find_ident :: "nat \<Rightarrow> nat \<Rightarrow> ptr \<Rightarrow> menu_item dheap \<Rightarrow> ub + ptr" where
  "find_ident fuel i None h = Inr None"
| "find_ident 0 i (Some itm) h = Inl Diverges"
| "find_ident (Suc fuel) i (Some itm) h =
     bindR (node h itm) (\<lambda>n. if ident (item n) = i then Inr (Some itm) else find_ident fuel i (succ n) h)"

definition menuSetSelectedItem :: "nat \<Rightarrow> nat \<Rightarrow> menus \<Rightarrow> ub + menus" where
  "menuSetSelectedItem fuel i s =
     bindR (find_ident fuel i (menu s) (mheap s)) (\<lambda>p.
       Inr (if p = None then s else s\<lparr>selected_item := p\<rparr>))"

text \<open>Is the menu at address \<open>a\<close> drawn?\<close>

definition shown :: "menu_item dheap \<Rightarrow> nat \<Rightarrow> bool" where
  "shown h a \<longleftrightarrow> visible (item (the (h a))) \<noteq> 0"

lemma shown_at: "h a = Some n \<Longrightarrow> shown h a \<longleftrightarrow> visible (item n) \<noteq> 0"
  by (simp add: shown_def)

lemma next_visible_succ:
  assumes "dlist h p as" "i \<le> length as" "length as - i \<le> fuel"
  shows "next_visible succ fuel (if i < length as then Some (as ! i) else None) h = Inr (find (shown h) (drop i as))"
  using assms(2-)
proof (induction fuel arbitrary: i)
  case (Suc f)
  show ?case
  proof (cases "i < length as")
    case True
    obtain n where n: "h (as ! i) = Some n" "succ n = (if Suc i < length as then Some (as ! Suc i) else None)"
      using dlist_nth [OF assms(1) True] by blast
    have "next_visible succ f (succ n) h = Inr (find (shown h) (drop (Suc i) as))"
      unfolding n(2) using Suc.prems True by (intro Suc.IH) auto
    moreover have "drop i as = as ! i # drop (Suc i) as" using True by (simp add: Cons_nth_drop_Suc)
    ultimately show ?thesis using n(1) True by (simp add: node_def shown_at)
  qed simp
qed simp

lemma next_visible_prev:
  assumes "dlist h p as" "i \<le> length as" "i \<le> fuel"
  shows "next_visible prev fuel (if i = 0 then None else Some (as ! (i - 1))) h = Inr (find (shown h) (rev (take i as)))"
  using assms(2-)
proof (induction fuel arbitrary: i)
  case (Suc f)
  show ?case
  proof (cases i)
    case (Suc k)
    then have k: "k < length as" using Suc.prems by simp
    obtain n where n: "h (as ! k) = Some n" "prev n = (if k = 0 then None else Some (as ! (k - 1)))"
      using dlist_nth [OF assms(1) k] by blast
    have "next_visible prev f (prev n) h = Inr (find (shown h) (rev (take k as)))"
      unfolding n(2) using Suc.prems Suc by (intro Suc.IH) auto
    moreover have "rev (take i as) = as ! k # rev (take k as)" using k Suc by (simp add: take_Suc_conv_app_nth)
    ultimately show ?thesis using n(1) Suc by (simp add: node_def shown_at)
  qed simp
qed simp

lemma skip_hidden_nth:
  assumes "dlist h p as" "i < length as" "length as - i \<le> fuel"
  shows "skip_hidden fuel (as ! i) h = Inr (case find (shown h) (drop i as) of Some a \<Rightarrow> a | None \<Rightarrow> last as)"
  using assms(2-)
proof (induction fuel arbitrary: i)
  case (Suc f)
  obtain n where n: "h (as ! i) = Some n" "succ n = (if Suc i < length as then Some (as ! Suc i) else None)"
    using dlist_nth [OF assms(1) Suc.prems(1)] by blast
  have d: "drop i as = as ! i # drop (Suc i) as" using Suc.prems(1) by (simp add: Cons_nth_drop_Suc)
  show ?case
  proof (cases "Suc i < length as")
    case True
    then have "skip_hidden f (as ! Suc i) h =
        Inr (case find (shown h) (drop (Suc i) as) of Some a \<Rightarrow> a | None \<Rightarrow> last as)"
      using Suc.prems by (intro Suc.IH) auto
    then show ?thesis using n d True by (simp add: node_def shown_at)
  next
    case False
    then have "last as = as ! i" using Suc.prems(1) by (cases as rule: rev_cases) (auto simp: nth_append less_Suc_eq)
    then show ?thesis using n d False by (simp add: node_def shown_at)
  qed
qed simp

text \<open>
  Left and right go to the nearest menu that is drawn on that side and stay where they are if
  there is none; after a change of visibility the first menu that is drawn is selected, or the
  first menu of all if none is drawn.
\<close>
theorem menu_row_moves:
  assumes "dlist (mheap s) (menu s) as" "i < length as" "selected_item s = Some (as ! i)" "length as \<le> fuel"
  shows "menuNextH fuel s = Inr (case find (shown (mheap s)) (drop (Suc i) as) of
        None \<Rightarrow> s | Some a \<Rightarrow> s\<lparr>selected_item := Some a\<rparr>)
    \<and> menuPrevH fuel s = Inr (case find (shown (mheap s)) (rev (take i as)) of
        None \<Rightarrow> s | Some a \<Rightarrow> s\<lparr>selected_item := Some a\<rparr>)
    \<and> refreshMenuPosition fuel s = Inr (case find (shown (mheap s)) as of
        None \<Rightarrow> s\<lparr>selected_item := menu s\<rparr> | Some a \<Rightarrow> s\<lparr>selected_item := Some a\<rparr>)"
proof -
  let ?h = "mheap s"
  obtain n where n: "?h (as ! i) = Some n" "succ n = (if Suc i < length as then Some (as ! Suc i) else None)"
    "prev n = (if i = 0 then None else Some (as ! (i - 1)))"
    using dlist_nth [OF assms(1,2)] by blast
  have "next_visible succ fuel (succ n) ?h = Inr (find (shown ?h) (drop (Suc i) as))"
    unfolding n(2) using assms(2,4) by (intro next_visible_succ [OF assms(1)]) auto
  then have 1: "menuNextH fuel s = Inr (case find (shown ?h) (drop (Suc i) as) of
        None \<Rightarrow> s | Some a \<Rightarrow> s\<lparr>selected_item := Some a\<rparr>)"
    using n(1) assms(3) by (simp add: menuNextH_def move_h_def node_def split: option.split)
  have "next_visible prev fuel (prev n) ?h = Inr (find (shown ?h) (rev (take i as)))"
    unfolding n(3) using assms(2,4) by (intro next_visible_prev [OF assms(1)]) auto
  then have 2: "menuPrevH fuel s = Inr (case find (shown ?h) (rev (take i as)) of
        None \<Rightarrow> s | Some a \<Rightarrow> s\<lparr>selected_item := Some a\<rparr>)"
    using n(1) assms(3) by (simp add: menuPrevH_def move_h_def node_def split: option.split)
  have p: "menu s = Some (as ! 0)" using assms(1,2) by (cases as) (auto simp: dlist_def)
  have ne: "0 < length as" using assms(2) by linarith
  have sk: "skip_hidden fuel (as ! 0) ?h = Inr (case find (shown ?h) as of Some a \<Rightarrow> a | None \<Rightarrow> last as)"
    using skip_hidden_nth [OF assms(1) ne, of fuel] assms(4) by simp
  have vis: "a \<in> set as \<Longrightarrow> \<exists>n. ?h a = Some n" for a
    using assms(1) dseg_dom by (fastforce simp: dlist_def)
  have "last as \<in> set as" using assms(2) by (cases as) auto
  then have 3: "refreshMenuPosition fuel s = Inr (case find (shown ?h) as of
        None \<Rightarrow> s\<lparr>selected_item := menu s\<rparr> | Some a \<Rightarrow> s\<lparr>selected_item := Some a\<rparr>)"
  proof (cases "find (shown ?h) as")
    case None
    obtain m where m: "?h (last as) = Some m" using vis \<open>last as \<in> set as\<close> by blast
    then have "visible (item m) = 0" using None \<open>last as \<in> set as\<close> by (auto simp: find_None_iff shown_def)
    then show ?thesis using None sk p m by (simp add: refreshMenuPosition_def node_def)
  next
    case (Some a)
    then have a: "a \<in> set as" "shown ?h a" by (auto simp: find_Some_iff)
    then obtain m where "?h a = Some m" using vis by blast
    then show ?thesis using Some sk p a(2) by (simp add: refreshMenuPosition_def node_def shown_def)
  qed
  show ?thesis using 1 2 3 by blast
qed

definition demo_menus :: menus where
  "demo_menus = \<lparr>menu = Some 1, selected_item = Some 1, mheap =
     [1 \<mapsto> \<lparr>item = \<lparr>visible = 1, ident = 1\<rparr>, prev = None, succ = Some 2\<rparr>,
      2 \<mapsto> \<lparr>item = \<lparr>visible = 0, ident = 2\<rparr>, prev = Some 1, succ = Some 3\<rparr>,
      3 \<mapsto> \<lparr>item = \<lparr>visible = 1, ident = 3\<rparr>, prev = Some 2, succ = None\<rparr>]\<rparr>"

theorem menu_row_moves_witness:
  "menuNextH 3 demo_menus = Inr (demo_menus\<lparr>selected_item := Some 3\<rparr>)"
proof -
  have "dlist (mheap demo_menus) (menu demo_menus) [1, 2, 3]" by (simp add: dlist_def demo_menus_def)
  from menu_row_moves [OF this, of 0 3] show ?thesis by (simp add: demo_menus_def shown_def)
qed

end
