(* ===== verification/Zso.thy ===== *)
theory Zso
  imports Prelude
begin

text \<open>
  The reader of compressed disc images (ZSO) of \<open>src/modules/isofs/zso.c\<close> and the raw read
  below it of \<open>src/src/zso.c\<close>.  An image is the function from byte positions to bytes (whatever
  lies behind the end of the file is arbitrary); a caller's buffer is a byte list.
  \<open>LZ4_decompress_fast\<close> is the parameter \<open>lz4\<close>, which maps the contents of the temporary
  buffer to the 2048 bytes it writes.
\<close>

type_synonym image = "nat \<Rightarrow> u8"

definition bytes_at :: "image \<Rightarrow> nat \<Rightarrow> nat \<Rightarrow> u8 list" where
  "bytes_at img pos n = map img [pos..<pos + n]"

lemma length_bytes_at [simp]: "length (bytes_at img pos n) = n"
  by (simp add: bytes_at_def)

lemma bytes_at_append: "bytes_at img pos m @ bytes_at img (pos + m) n = bytes_at img pos (m + n)"
proof -
  have "[pos..<pos + (m + n)] = [pos..<pos + m] @ [pos + m..<pos + m + n]"
    using upt_add_eq_append [of pos "pos + m" n] by (simp add: add.assoc)
  then show ?thesis by (simp add: bytes_at_def add.assoc)
qed

lemma take_bytes_at: "m \<le> n \<Longrightarrow> take m (bytes_at img pos n) = bytes_at img pos m"
  by (simp add: bytes_at_def take_map)

lemma drop_bytes_at: "m \<le> n \<Longrightarrow> drop m (bytes_at img pos n) = bytes_at img (pos + m) (n - m)"
  by (simp add: bytes_at_def drop_map)

subsection \<open>Seeking and raw reads\<close>

definition INT_MAX :: nat where "INT_MAX = 2147483647"
definition SEEK_STEP :: nat where "SEEK_STEP = INT_MAX div 2048"

lemma seek_consts [simp]: "SEEK_STEP = 1048575"
  by (simp add: SEEK_STEP_def INT_MAX_def)

text \<open>
  \<open>longLseek\<close>: the offsets handed to \<open>lseek\<close>, the first absolute, the others relative.  Each
  is an \<open>int\<close>.
\<close>

function seek_steps :: "nat \<Rightarrow> nat list" where
  "seek_steps remaining =
     (if remaining = 0 then []
      else let toSeek = (if SEEK_STEP < remaining then SEEK_STEP else remaining)
           in toSeek * 2048 # seek_steps (remaining - toSeek))"
  by auto
termination by (relation "measure id") auto

declare seek_steps.simps [simp del]

definition longLseek :: "nat \<Rightarrow> nat list" where
  "longLseek lba =
     (if SEEK_STEP < lba then SEEK_STEP * 2048 # seek_steps (lba - SEEK_STEP) else [lba * 2048])"

text \<open>The block and the offset in it at which a raw read starts.\<close>

definition raw_lba :: "nat \<Rightarrow> nat \<Rightarrow> nat" where
  "raw_lba offset shift = offset div (2048 div 2 ^ shift)"

definition raw_pos :: "nat \<Rightarrow> nat \<Rightarrow> nat" where
  "raw_pos offset shift = (offset * 2 ^ shift mod 2 ^ 32) mod 2048"

definition ReadHDDSectors :: "image \<Rightarrow> nat \<Rightarrow> nat \<Rightarrow> u8 list" where
  "ReadHDDSectors img lba n = concat (map (\<lambda>k. bytes_at img ((lba * 4 + k) * 512) 512) [0..<n * 4])"

text \<open>
  \<open>read_raw_data\<close>.  The result is the bytes stored at \<open>addr\<close> and the new contents of
  \<open>ziso_tmp_buf\<close>, through which the hard disk branch reads the first and the last block.
\<close>

definition read_raw_hdd :: "image \<Rightarrow> nat \<Rightarrow> nat \<Rightarrow> nat \<Rightarrow> u8 list \<Rightarrow> u8 list \<times> u8 list" where
  "read_raw_hdd img size0 offset shift tmp0 =
     (let lba0 = raw_lba offset shift; pos = raw_pos offset shift;
          r0 = (if pos \<noteq> 0 then min size0 (2048 - pos) else 0);
          tmp1 = (if pos \<noteq> 0 then ReadHDDSectors img lba0 1 else tmp0);
          part0 = (if pos \<noteq> 0 then take r0 (drop pos tmp1) else []);
          size1 = size0 - r0;
          lba1 = (if pos \<noteq> 0 then lba0 + 1 else lba0);
          n_blocks = (if size1 mod 2048 \<noteq> 0 then size1 div 2048 + 1 else size1 div 2048);
          whole = (if 1 < n_blocks then n_blocks - 1 else 0);
          part1 = ReadHDDSectors img lba1 whole;
          size2 = size1 - 2048 * whole;
          tmp2 = (if size2 \<noteq> 0 then ReadHDDSectors img (lba1 + whole) 1 else tmp1);
          part2 = (if size2 \<noteq> 0 then take size2 tmp2 else [])
      in (part0 @ part1 @ part2, tmp2))"

definition read_raw_file :: "image \<Rightarrow> nat \<Rightarrow> nat \<Rightarrow> nat \<Rightarrow> u8 list \<Rightarrow> u8 list \<times> u8 list" where
  "read_raw_file img len offset shift tmp =
     (bytes_at img (sum_list (longLseek (raw_lba offset shift)) + raw_pos offset shift) len, tmp)"

subsection \<open>The compressed reader\<close>

definition ZISO_IDX_MAX_ENTRIES :: nat where "ZISO_IDX_MAX_ENTRIES = 257"

lemma idx_max [simp]: "ZISO_IDX_MAX_ENTRIES = 257" by (simp add: ZISO_IDX_MAX_ENTRIES_def)

record ziso_header =
  total_bytes :: u64
  align :: nat

text \<open>
  The globals.  A buffer that has not been allocated is the empty list; \<open>ziso_idx_start_block\<close>
  is \<open>None\<close> for -1.
\<close>

record ziso =
  ziso_idx_cache :: "u32 list"
  ziso_idx_start_block :: "nat option"
  ziso_align :: nat
  ziso_total_block :: nat
  ziso_tmp_buf :: "u8 list"

text \<open>\<open>mem\<close> and \<open>idx\<close> are the contents of the memory that \<open>ziso_alloc\<close> returns, empty for a failure.\<close>

definition ziso_init :: "ziso_header \<Rightarrow> u8 list \<Rightarrow> u32 list \<Rightarrow> ziso \<Rightarrow> ziso" where
  "ziso_init header mem idx z0 =
     (let lo = ucast (total_bytes header) :: u32; hi = ucast (drop_bit 32 (total_bytes header)) :: u32;
          z = z0\<lparr>ziso_align := align header, ziso_idx_start_block := None,
                 ziso_total_block := unat (drop_bit 11 lo OR push_bit 21 (hi AND 0x7FF))\<rparr>
      in if ziso_tmp_buf z = []
         then if mem \<noteq> [] then z\<lparr>ziso_tmp_buf := mem, ziso_idx_cache := idx\<rparr> else z
         else z)"

text \<open>Reading an array of little-endian words, and the offset field of an index word.\<close>

definition le32 :: "u8 \<Rightarrow> u8 \<Rightarrow> u8 \<Rightarrow> u8 \<Rightarrow> u32" where
  "le32 b0 b1 b2 b3 = ucast b0 OR push_bit 8 (ucast b1) OR push_bit 16 (ucast b2) OR push_bit 24 (ucast b3)"

definition u32_array :: "u8 list \<Rightarrow> nat \<Rightarrow> u32 list" where
  "u32_array bs n = map (\<lambda>k. le32 (bs ! (4 * k)) (bs ! (4 * k + 1)) (bs ! (4 * k + 2)) (bs ! (4 * k + 3))) [0..<n]"

definition refresh_index :: "(nat \<Rightarrow> nat \<Rightarrow> nat \<Rightarrow> u8 list \<Rightarrow> u8 list \<times> u8 list) \<Rightarrow> nat \<Rightarrow> nat \<Rightarrow> ziso \<Rightarrow> ziso" where
  "refresh_index raw lsn count z =
     (if (case ziso_idx_start_block z of
            None \<Rightarrow> True
          | Some s \<Rightarrow> lsn < s \<or> s + ZISO_IDX_MAX_ENTRIES - 1 \<le> lsn + count)
      then let (bs, tmp) = raw (ZISO_IDX_MAX_ENTRIES * 4) ((lsn * 4 + 24) mod 2 ^ 32) 0 (ziso_tmp_buf z)
           in z\<lparr>ziso_idx_cache := u32_array bs ZISO_IDX_MAX_ENTRIES,
                ziso_idx_start_block := Some lsn, ziso_tmp_buf := tmp\<rparr>
      else z)"

definition cached :: "ziso \<Rightarrow> nat \<Rightarrow> ub + u32" where
  "cached z block =
     (case ziso_idx_start_block z of
        None \<Rightarrow> Inl OutOfBounds
      | Some s \<Rightarrow> if s \<le> block \<and> block - s < length (ziso_idx_cache z)
                   then Inr (ziso_idx_cache z ! (block - s)) else Inl OutOfBounds)"

definition block_size :: "nat \<Rightarrow> u32 \<Rightarrow> u32 \<Rightarrow> nat" where
  "block_size al o_start o_end = unat (push_bit al ((o_end AND 0x7FFFFFFF) - (o_start AND 0x7FFFFFFF)))"

text \<open>
  One block: \<open>c\<close> and \<open>a\<close> are the indices of \<open>c_buff\<close> and \<open>addr\<close> in the buffer.  \<open>memcpy\<close> copies
  upwards, which is what its callers need here: the two ranges may overlap.
\<close>

definition put_block :: "(u8 list \<Rightarrow> u8 list) \<Rightarrow> u32 \<Rightarrow> nat \<Rightarrow> nat \<Rightarrow> nat \<Rightarrow> u8 list \<Rightarrow> ziso \<Rightarrow> u8 list \<times> ziso" where
  "put_block lz4 b_offset b_size c a buf z =
     (let r = min b_size 2048; src = take r (drop c buf)
      in if b_offset AND 0x80000000 = 0
         then let tmp = write_at (ziso_tmp_buf z) 0 src
              in (write_at buf a (lz4 tmp), z\<lparr>ziso_tmp_buf := tmp\<rparr>)
         else (write_at buf a src, z))"

fun block_loop :: "(u8 list \<Rightarrow> u8 list) \<Rightarrow> nat \<Rightarrow> nat \<Rightarrow> nat \<Rightarrow> nat \<Rightarrow> u8 list \<Rightarrow> ziso \<Rightarrow> ub + (u8 list \<times> ziso)" where
  "block_loop lz4 0 cur c a buf z = Inr (buf, z)"
| "block_loop lz4 (Suc n) cur c a buf z =
     bindR (cached z cur) (\<lambda>b_offset. bindR (cached z (cur + 1)) (\<lambda>b_end.
       let b_size = block_size (ziso_align z) b_offset b_end;
           (buf, z) = put_block lz4 b_offset b_size c a buf z
       in block_loop lz4 n (cur + 1) (c + b_size) (a + 2048) buf z))"

definition ziso_read_sector :: "(u8 list \<Rightarrow> u8 list) \<Rightarrow> (nat \<Rightarrow> nat \<Rightarrow> nat \<Rightarrow> u8 list \<Rightarrow> u8 list \<times> u8 list)
    \<Rightarrow> u8 list \<Rightarrow> nat \<Rightarrow> nat \<Rightarrow> ziso \<Rightarrow> ub + (nat \<times> u8 list \<times> ziso)" where
  "ziso_read_sector lz4 raw buf lsn count0 z0 =
     (if ziso_total_block z0 \<le> lsn then Inr (0, buf, z0)
      else let count = (if ziso_total_block z0 < (lsn + count0) mod 2 ^ 32 then ziso_total_block z0 - lsn else count0);
               z = refresh_index raw lsn count z0
           in bindR (cached z lsn) (\<lambda>ws. bindR (cached z (lsn + count)) (\<lambda>we.
                let compressed_size = block_size (ziso_align z) ws we
                in if count * 2048 < compressed_size \<or> length buf < count * 2048 then Inl OutOfBounds
                   else let c = count * 2048 - compressed_size;
                            (bs, tmp) = raw compressed_size (unat (ws AND 0x7FFFFFFF)) (ziso_align z) (ziso_tmp_buf z)
                        in bindR (block_loop lz4 count lsn c 0 (write_at buf c bs) (z\<lparr>ziso_tmp_buf := tmp\<rparr>))
                             (\<lambda>(buf, z). Inr (count, buf, z)))))"

subsection \<open>Raw reads\<close>

lemma seek_steps_sum: "sum_list (seek_steps n) = n * 2048 \<and> (\<forall>x \<in> set (seek_steps n). x \<le> INT_MAX)"
proof (induction n rule: seek_steps.induct)
  case (1 n)
  show ?case
  proof (cases "n = 0")
    case True
    then show ?thesis by (simp add: seek_steps.simps [of 0])
  next
    case False
    let ?t = "if SEEK_STEP < n then SEEK_STEP else n"
    have u: "seek_steps n = ?t * 2048 # seek_steps (n - ?t)" using False by (subst seek_steps.simps) (simp add: Let_def)
    have "?t \<le> n" "?t * 2048 \<le> INT_MAX" by (simp_all add: INT_MAX_def)
    moreover have "sum_list (seek_steps (n - ?t)) = (n - ?t) * 2048 \<and> (\<forall>x \<in> set (seek_steps (n - ?t)). x \<le> INT_MAX)"
      using 1 False by simp
    ultimately show ?thesis unfolding u by (simp add: diff_mult_distrib)
  qed
qed

lemma raw_address:
  assumes "shift \<le> 11"
  shows "raw_lba offset shift * 2048 + raw_pos offset shift = offset * 2 ^ shift"
proof -
  have p: "(2048 :: nat) = 2 ^ shift * 2 ^ (11 - shift)" using assms by (simp flip: power_add)
  have d: "(2048 :: nat) div 2 ^ shift = 2 ^ (11 - shift)" unfolding p by (rule nonzero_mult_div_cancel_left) simp
  have "offset * 2 ^ shift div 2048 = offset div 2 ^ (11 - shift)" unfolding p by (simp add: mult.commute [of offset])
  then have l: "raw_lba offset shift = offset * 2 ^ shift div 2048" by (simp add: raw_lba_def d)
  have "(offset * 2 ^ shift) mod 2 ^ 32 mod 2048 = offset * 2 ^ shift mod 2048"
    by (simp add: mod_mod_cancel)
  then have "raw_pos offset shift = offset * 2 ^ shift mod 2048" by (simp add: raw_pos_def)
  with l show ?thesis by simp
qed

lemma ReadHDDSectors_bytes: "ReadHDDSectors img lba n = bytes_at img (lba * 2048) (n * 2048)"
proof -
  have "concat (map (\<lambda>k. bytes_at img ((lba * 4 + k) * 512) 512) [0..<m]) = bytes_at img (lba * 2048) (m * 512)" for m
  proof (induction m)
    case (Suc m)
    have e: "(lba * 4 + m) * 512 = lba * 2048 + m * 512" and s: "Suc m * 512 = m * 512 + 512" by simp_all
    show ?case unfolding s using Suc bytes_at_append [of img "lba * 2048" "m * 512" 512] by (simp add: e mult.commute [of lba])
  qed (simp add: bytes_at_def)
  from this [of "n * 4"] show ?thesis by (simp add: ReadHDDSectors_def mult.assoc)
qed

lemma raw_bytes_correct:
  assumes "shift \<le> 11"
  shows "fst (read_raw_file img len offset shift tmp) = bytes_at img (offset * 2 ^ shift) len
    \<and> fst (read_raw_hdd img len offset shift tmp) = bytes_at img (offset * 2 ^ shift) len
    \<and> (\<forall>x \<in> set (longLseek (raw_lba offset shift)). x \<le> INT_MAX)"
proof -
  let ?lba = "raw_lba offset shift" and ?pos = "raw_pos offset shift"
  have pos: "?pos < 2048" by (simp add: raw_pos_def)
  have addr: "?lba * 2048 + ?pos = offset * 2 ^ shift" by (rule raw_address [OF assms])
  have seek: "sum_list (longLseek ?lba) = ?lba * 2048 \<and> (\<forall>x \<in> set (longLseek ?lba). x \<le> INT_MAX)"
    using seek_steps_sum [of "?lba - SEEK_STEP"] by (auto simp: longLseek_def INT_MAX_def diff_mult_distrib)
  have hdd: "fst (read_raw_hdd img len offset shift tmp) = bytes_at img (?lba * 2048 + ?pos) len"
  proof -
    define r0 where "r0 = (if ?pos \<noteq> 0 then min len (2048 - ?pos) else 0)"
    define lba1 where "lba1 = (if ?pos \<noteq> 0 then ?lba + 1 else ?lba)"
    define size1 where "size1 = len - r0"
    define nb where "nb = (if size1 mod 2048 \<noteq> 0 then size1 div 2048 + 1 else size1 div 2048)"
    define whole where "whole = (if 1 < nb then nb - 1 else 0)"
    define size2 where "size2 = size1 - 2048 * whole"
    have w: "2048 * whole \<le> size1" "size2 \<le> 2048"
      unfolding size2_def whole_def nb_def by (auto split: if_splits)
    have r0: "r0 \<le> len" "size1 \<noteq> 0 \<Longrightarrow> ?lba * 2048 + ?pos + r0 = lba1 * 2048"
      unfolding r0_def lba1_def size1_def using pos by (auto split: if_splits)
    define tmp1 where "tmp1 = (if ?pos \<noteq> 0 then ReadHDDSectors img ?lba 1 else tmp)"
    define tmp2 where "tmp2 = (if size2 \<noteq> 0 then ReadHDDSectors img (lba1 + whole) 1 else tmp1)"
    have part0: "(if ?pos \<noteq> 0 then take r0 (drop ?pos tmp1) else []) = bytes_at img (?lba * 2048 + ?pos) r0"
      using pos by (auto simp: ReadHDDSectors_bytes drop_bytes_at take_bytes_at r0_def tmp1_def) (simp add: bytes_at_def)
    have "ReadHDDSectors img lba1 whole @ (if size2 \<noteq> 0 then take size2 tmp2 else []) = bytes_at img (lba1 * 2048) size1"
      using w bytes_at_append [of img "lba1 * 2048" "whole * 2048" size2]
      by (auto simp: ReadHDDSectors_bytes take_bytes_at tmp2_def size2_def add_mult_distrib mult.commute)
    then have rest: "ReadHDDSectors img lba1 whole @ (if size2 \<noteq> 0 then take size2 tmp2 else [])
        = bytes_at img (?lba * 2048 + ?pos + r0) size1"
      using r0(2) by (cases "size1 = 0") (auto simp: bytes_at_def)
    have "fst (read_raw_hdd img len offset shift tmp) = bytes_at img (?lba * 2048 + ?pos) r0 @ bytes_at img (?lba * 2048 + ?pos + r0) size1"
      unfolding read_raw_hdd_def Let_def r0_def [symmetric] lba1_def [symmetric] size1_def [symmetric]
        nb_def [symmetric] whole_def [symmetric] size2_def [symmetric] tmp1_def [symmetric] tmp2_def [symmetric] part0 rest fst_conv ..
    also have "\<dots> = bytes_at img (?lba * 2048 + ?pos) len"
      using r0(1) by (simp add: bytes_at_append size1_def)
    finally show ?thesis .
  qed
  show ?thesis using seek hdd addr by (simp add: read_raw_file_def)
qed

lemma raw_tmp_length:
  "length tmp = 2048 \<Longrightarrow> length (snd (read_raw_hdd img len offset shift tmp)) = 2048"
  "snd (read_raw_file img len offset shift tmp) = tmp"
  by (simp_all add: read_raw_hdd_def read_raw_file_def Let_def ReadHDDSectors_bytes)

subsection \<open>The index\<close>

definition index_word :: "image \<Rightarrow> nat \<Rightarrow> u32" where
  "index_word img i = le32 (img (24 + 4 * i)) (img (24 + 4 * i + 1)) (img (24 + 4 * i + 2)) (img (24 + 4 * i + 3))"

text \<open>The offset of a block in units of \<open>1 << align\<close>, and its stored size in bytes.\<close>

definition block_off :: "image \<Rightarrow> nat \<Rightarrow> nat" where
  "block_off img i = unat (index_word img i AND 0x7FFFFFFF)"

definition stored_size :: "image \<Rightarrow> nat \<Rightarrow> nat \<Rightarrow> nat" where
  "stored_size img al i = (block_off img (i + 1) - block_off img i) * 2 ^ al"

text \<open>
  The image stores the sectors \<open>sector 0\<close>, ..., \<open>sector (nblocks - 1)\<close>: offsets ascend, no block is
  stored in more than 2048 bytes, a raw block is the sector itself, and the decompressor makes the
  sector of any input that begins with a compressed block.
\<close>

definition stores :: "(u8 list \<Rightarrow> u8 list) \<Rightarrow> image \<Rightarrow> nat \<Rightarrow> nat \<Rightarrow> (nat \<Rightarrow> u8 list) \<Rightarrow> bool" where
  "stores lz4 img al nblocks sector =
     (al \<le> 11 \<and> (\<forall>i<nblocks. block_off img i \<le> block_off img (i + 1) \<and> stored_size img al i \<le> 2048
        \<and> length (sector i) = 2048
        \<and> (let stored = bytes_at img (block_off img i * 2 ^ al) (stored_size img al i)
           in if index_word img i AND 0x80000000 = 0
              then \<forall>tmp. length tmp = 2048 \<and> take (length stored) tmp = stored \<longrightarrow> lz4 tmp = sector i
              else stored = sector i)))"

text \<open>The cached part of the index is the index of the image.\<close>

definition index_ok :: "image \<Rightarrow> ziso \<Rightarrow> bool" where
  "index_ok img z =
     (case ziso_idx_start_block z of
        None \<Rightarrow> True
      | Some s \<Rightarrow> ziso_idx_cache z = map (\<lambda>k. index_word img (s + k)) [0..<ZISO_IDX_MAX_ENTRIES])"

lemma nth_bytes_at: "k < n \<Longrightarrow> bytes_at img pos n ! k = img (pos + k)"
  by (simp add: bytes_at_def)

lemma u32_array_index:
  "u32_array (bytes_at img (lsn * 4 + 24) (n * 4)) n = map (\<lambda>k. index_word img (lsn + k)) [0..<n]"
  by (auto simp: u32_array_def index_word_def nth_bytes_at algebra_simps intro!: map_cong)

lemma cached_ok:
  assumes "index_ok img z" "ziso_idx_start_block z = Some s" "s \<le> i" "i < s + ZISO_IDX_MAX_ENTRIES"
  shows "cached z i = Inr (index_word img i)"
  using assms by (simp add: cached_def index_ok_def)

lemma stored_size_range:
  assumes st: "stores lz4 img al nblocks sector" and "a + n \<le> nblocks"
  shows "block_off img a \<le> block_off img (a + n) \<and> (block_off img (a + n) - block_off img a) * 2 ^ al \<le> n * 2048"
  using assms(2)
proof (induction n)
  case (Suc n)
  have b: "block_off img (a + n) \<le> block_off img (a + n + 1)" "stored_size img al (a + n) \<le> 2048"
    using st Suc.prems by (auto simp: stores_def Let_def)
  have "(block_off img (a + n + 1) - block_off img a) * 2 ^ al
      = (block_off img (a + n) - block_off img a) * 2 ^ al + stored_size img al (a + n)"
    using Suc b(1) by (simp add: stored_size_def flip: add_mult_distrib)
  with Suc b show ?case by simp
qed simp

lemma block_size_eq:
  assumes "unat (v AND 0x7FFFFFFF) \<le> unat (w AND 0x7FFFFFFF)"
    and "(unat (w AND 0x7FFFFFFF) - unat (v AND 0x7FFFFFFF)) * 2 ^ al < 2 ^ 32"
  shows "block_size al v w = (unat (w AND 0x7FFFFFFF) - unat (v AND 0x7FFFFFFF)) * 2 ^ al"
proof -
  let ?v = "v AND 0x7FFFFFFF" and ?w = "w AND 0x7FFFFFFF"
  have d: "unat (?w - ?v) = unat ?w - unat ?v" using assms(1) by (simp add: unat_sub word_le_nat_alt)
  have "push_bit al (?w - ?v) = of_nat (unat (?w - ?v) * 2 ^ al)" by (simp add: push_bit_eq_mult)
  then have "block_size al v w = take_bit 32 ((unat ?w - unat ?v) * 2 ^ al)"
    unfolding block_size_def d by (simp only: unsigned_of_nat) simp
  then show ?thesis using assms(2) by (simp add: take_bit_nat_eq_self)
qed

lemma block_size_image:
  assumes "stores lz4 img al nblocks sector" "a + n \<le> nblocks" "n \<le> 2097151"
  shows "block_size al (index_word img a) (index_word img (a + n)) = (block_off img (a + n) - block_off img a) * 2 ^ al"
  using stored_size_range [OF assms(1,2)] assms(3)
  by (subst block_size_eq) (auto simp: block_off_def)

subsection \<open>The block loop\<close>

lemma put_block_sector:
  assumes st: "stores lz4 img al nblocks sector" and i: "i < nblocks"
    and tmp: "length (ziso_tmp_buf z) = 2048"
    and here: "take (stored_size img al i) (drop c buf) = bytes_at img (block_off img i * 2 ^ al) (stored_size img al i)"
  shows "\<exists>tmp. length tmp = 2048
    \<and> put_block lz4 (index_word img i) (stored_size img al i) c a buf z = (write_at buf a (sector i), z\<lparr>ziso_tmp_buf := tmp\<rparr>)"
proof -
  let ?n = "stored_size img al i" and ?s = "bytes_at img (block_off img i * 2 ^ al) (stored_size img al i)"
  have n: "?n \<le> 2048" and S: "if index_word img i AND 0x80000000 = 0
      then \<forall>tmp. length tmp = 2048 \<and> take (length ?s) tmp = ?s \<longrightarrow> lz4 tmp = sector i else ?s = sector i"
    using st i by (simp_all add: stores_def Let_def)
  have m: "min ?n 2048 = ?n" using n by simp
  show ?thesis
  proof (cases "index_word img i AND 0x80000000 = 0")
    case True
    let ?t = "write_at (ziso_tmp_buf z) 0 ?s"
    have l: "length ?t = 2048" using n tmp by (simp add: write_at_def)
    have "take (length ?s) ?t = ?s" by (simp add: write_at_def)
    with l S True have "lz4 ?t = sector i" by (simp del: length_bytes_at)
    with l True show ?thesis unfolding put_block_def m here Let_def by (intro exI [of _ ?t]) simp
  next
    case False
    with S have e: "?s = sector i" by simp
    show ?thesis unfolding put_block_def m here Let_def e using False tmp
      by (intro exI [of _ "ziso_tmp_buf z"]) simp
  qed
qed

lemma index_ok_tmp [simp]: "index_ok img (z\<lparr>ziso_tmp_buf := tmp\<rparr>) = index_ok img z"
  by (simp add: index_ok_def split: option.split)

text \<open>
  The unread part of the compressed data ends where the buffer's \<open>n\<close> remaining sectors end, so that
  writing a sector never reaches it.
\<close>

lemma block_loop_sectors:
  assumes st: "stores lz4 img al nblocks sector"
  shows "\<lbrakk>cur + n \<le> nblocks; n \<le> 2097151; index_ok img z; ziso_align z = al; length (ziso_tmp_buf z) = 2048;
      ziso_idx_start_block z = Some s; s \<le> cur; cur + n < s + ZISO_IDX_MAX_ENTRIES;
      a + n * 2048 \<le> length buf; c + (block_off img (cur + n) - block_off img cur) * 2 ^ al = a + n * 2048;
      take ((block_off img (cur + n) - block_off img cur) * 2 ^ al) (drop c buf)
        = bytes_at img (block_off img cur * 2 ^ al) ((block_off img (cur + n) - block_off img cur) * 2 ^ al)\<rbrakk>
    \<Longrightarrow> \<exists>tmp. length tmp = 2048 \<and> block_loop lz4 n cur c a buf z
        = Inr (take a buf @ concat (map sector [cur..<cur + n]) @ drop (a + n * 2048) buf, z\<lparr>ziso_tmp_buf := tmp\<rparr>)"
proof (induction n arbitrary: cur c a buf z)
  case 0
  then show ?case by (intro exI [of _ "ziso_tmp_buf z"]) simp
next
  case (Suc n)
  note P = Suc.prems
  let ?rem = "(block_off img (cur + Suc n) - block_off img cur) * 2 ^ al"
  define b where "b = stored_size img al cur"
  define rest where "rest = (block_off img (cur + 1 + n) - block_off img (cur + 1)) * 2 ^ al"
  have i: "cur < nblocks" using P(1) by simp
  have one: "block_off img cur \<le> block_off img (cur + 1)" "b \<le> 2048" "length (sector cur) = 2048"
    using st i unfolding stores_def Let_def b_def by auto
  have more: "block_off img (cur + 1) \<le> block_off img (cur + 1 + n)" "rest \<le> n * 2048"
    using stored_size_range [OF st, of "cur + 1" n] P(1) by (simp_all add: rest_def)
  have rem: "?rem = b + rest"
    using one(1) more(1) by (simp add: b_def rest_def stored_size_def flip: add_mult_distrib)
  have pos: "block_off img cur * 2 ^ al + b = block_off img (cur + 1) * 2 ^ al"
    using one(1) by (simp add: b_def stored_size_def flip: add_mult_distrib)
  have data: "take (b + rest) (drop c buf) = bytes_at img (block_off img cur * 2 ^ al) (b + rest)"
    using P(11) unfolding rem .
  have here: "take b (drop c buf) = bytes_at img (block_off img cur * 2 ^ al) b"
    using arg_cong [OF data, of "take b"] by (simp add: take_bytes_at min_def)
  have there: "take rest (drop (c + b) buf) = bytes_at img (block_off img (cur + 1) * 2 ^ al) rest"
    unfolding pos [symmetric] using arg_cong [OF data, of "drop b"] by (simp add: drop_bytes_at drop_take add.commute)
  obtain tmp where t: "length tmp = 2048"
    "put_block lz4 (index_word img cur) b c a buf z = (write_at buf a (sector cur), z\<lparr>ziso_tmp_buf := tmp\<rparr>)"
    using put_block_sector [OF st i P(5) here [unfolded b_def]] unfolding b_def by blast
  have bs: "block_size al (index_word img cur) (index_word img (cur + 1)) = b"
    using block_size_image [OF st, of cur 1] i by (simp add: b_def stored_size_def)
  let ?buf = "write_at buf a (sector cur)" and ?z = "z\<lparr>ziso_tmp_buf := tmp\<rparr>"
  have cc: "cached z cur = Inr (index_word img cur)" "cached z (cur + 1) = Inr (index_word img (cur + 1))"
    using P(3,6,7,8) by (auto intro: cached_ok)
  have step: "block_loop lz4 (Suc n) cur c a buf z = block_loop lz4 n (cur + 1) (c + b) (a + 2048) ?buf ?z"
    using cc bs t(2) P(4) by simp
  have l: "a + 2048 \<le> length buf" using P(9) by simp
  have gap: "a + 2048 \<le> c + b" using P(10) rem more(2) by simp
  have keep: "drop k ?buf = drop k buf" if "a + 2048 \<le> k" for k
    using that l one(3) by (simp add: write_at_def)
  have front: "take (a + 2048) ?buf = take a buf @ sector cur"
    using l one(3) by (simp add: write_at_def)
  have "\<exists>tmp'. length tmp' = 2048 \<and> block_loop lz4 n (cur + 1) (c + b) (a + 2048) ?buf ?z
      = Inr (take (a + 2048) ?buf @ concat (map sector [cur + 1..<cur + 1 + n]) @ drop (a + 2048 + n * 2048) ?buf, ?z\<lparr>ziso_tmp_buf := tmp'\<rparr>)"
  proof (rule Suc.IH)
    show "a + 2048 + n * 2048 \<le> length ?buf" using P(9) l one(3) by simp
    show "c + b + (block_off img (cur + 1 + n) - block_off img (cur + 1)) * 2 ^ al = a + 2048 + n * 2048"
      using P(10) rem by (simp add: rest_def)
    show "take ((block_off img (cur + 1 + n) - block_off img (cur + 1)) * 2 ^ al) (drop (c + b) ?buf)
        = bytes_at img (block_off img (cur + 1) * 2 ^ al) ((block_off img (cur + 1 + n) - block_off img (cur + 1)) * 2 ^ al)"
      using there keep [OF gap] by (simp add: rest_def)
  qed (use P t(1) in simp_all)
  then obtain tmp' where "length tmp' = 2048" "block_loop lz4 n (cur + 1) (c + b) (a + 2048) ?buf ?z
      = Inr (take (a + 2048) ?buf @ concat (map sector [cur + 1..<cur + 1 + n]) @ drop (a + 2048 + n * 2048) ?buf, ?z\<lparr>ziso_tmp_buf := tmp'\<rparr>)"
    by blast
  moreover have "[cur..<cur + Suc n] = cur # [cur + 1..<cur + 1 + n]" by (simp add: upt_conv_Cons)
  ultimately show ?case unfolding step front by (intro exI [of _ tmp']) (simp add: keep add.commute [of c b] add.assoc)
qed

subsection \<open>Reading sectors\<close>

text \<open>The contract of \<open>read_raw_data\<close>, which every user of the reader implements.\<close>

locale raw_device =
  fixes img :: image
    and raw :: "nat \<Rightarrow> nat \<Rightarrow> nat \<Rightarrow> u8 list \<Rightarrow> u8 list \<times> u8 list"
  assumes raw_bytes: "shift \<le> 11 \<Longrightarrow> fst (raw len offset shift tmp) = bytes_at img (offset * 2 ^ shift) len"
    and raw_tmp: "length tmp = 2048 \<Longrightarrow> length (snd (raw len offset shift tmp)) = 2048"
begin

lemma refresh_index_ok:
  assumes "index_ok img z" "length (ziso_tmp_buf z) = 2048" "lsn * 4 + 24 < 2 ^ 32" "n \<le> 256"
  shows "\<exists>s z'. refresh_index raw lsn n z = z' \<and> index_ok img z' \<and> ziso_idx_start_block z' = Some s
    \<and> s \<le> lsn \<and> lsn + n < s + ZISO_IDX_MAX_ENTRIES \<and> length (ziso_tmp_buf z') = 2048
    \<and> ziso_align z' = ziso_align z \<and> ziso_total_block z' = ziso_total_block z"
proof (cases "case ziso_idx_start_block z of None \<Rightarrow> True
          | Some s \<Rightarrow> lsn < s \<or> s + ZISO_IDX_MAX_ENTRIES - 1 \<le> lsn + n")
  case True
  obtain bs tmp where r: "raw (ZISO_IDX_MAX_ENTRIES * 4) ((lsn * 4 + 24) mod 2 ^ 32) 0 (ziso_tmp_buf z) = (bs, tmp)" by fastforce
  have "bs = bytes_at img (lsn * 4 + 24) (ZISO_IDX_MAX_ENTRIES * 4)"
    using raw_bytes [of 0 "ZISO_IDX_MAX_ENTRIES * 4" "(lsn * 4 + 24) mod 2 ^ 32" "ziso_tmp_buf z"] assms(3)
    unfolding r by simp
  moreover have "length tmp = 2048"
    using raw_tmp [OF assms(2), of "ZISO_IDX_MAX_ENTRIES * 4" "(lsn * 4 + 24) mod 2 ^ 32" 0] unfolding r by simp
  ultimately show ?thesis using True assms(4)
    unfolding refresh_index_def r by (simp add: index_ok_def u32_array_index del: idx_max) simp
next
  case False
  then show ?thesis using assms by (auto simp: refresh_index_def split: option.splits)
qed

text \<open>\<open>n\<close> is the number of sectors that the image has left.\<close>

lemma read_sector_ok:
  assumes st: "stores lz4 img (ziso_align z) (ziso_total_block z) sector"
    and z: "index_ok img z" "length (ziso_tmp_buf z) = 2048"
    and lsn: "lsn < ziso_total_block z" "ziso_total_block z \<le> 2 ^ 30 - 6" and cnt: "count \<le> 256"
    and buf: "count * 2048 \<le> length buf"
  defines "n \<equiv> min count (ziso_total_block z - lsn)"
  shows "\<exists>z'. ziso_read_sector lz4 raw buf lsn count z
      = Inr (n, concat (map sector [lsn..<lsn + n]) @ drop (n * 2048) buf, z')
    \<and> index_ok img z' \<and> length (ziso_tmp_buf z') = 2048
    \<and> ziso_align z' = ziso_align z \<and> ziso_total_block z' = ziso_total_block z"
proof -
  let ?al = "ziso_align z"
  have nn: "n \<le> 256" "lsn + n \<le> ziso_total_block z" "n * 2048 \<le> length buf"
    using cnt lsn(1) buf by (auto simp: n_def)
  have nc: "(if ziso_total_block z < (lsn + count) mod 2 ^ 32 then ziso_total_block z - lsn else count) = n"
    using lsn cnt by (auto simp: n_def min_def)
  obtain s z1 where z1: "refresh_index raw lsn n z = z1" "index_ok img z1" "ziso_idx_start_block z1 = Some s"
    "s \<le> lsn" "lsn + n < s + ZISO_IDX_MAX_ENTRIES" "length (ziso_tmp_buf z1) = 2048"
    "ziso_align z1 = ?al" "ziso_total_block z1 = ziso_total_block z"
    using refresh_index_ok [OF z, of lsn n] lsn nn(1) by auto
  define total where "total = (block_off img (lsn + n) - block_off img lsn) * 2 ^ ?al"
  have total: "total \<le> n * 2048" using stored_size_range [OF st nn(2)] by (simp add: total_def)
  have size: "block_size ?al (index_word img lsn) (index_word img (lsn + n)) = total"
    using block_size_image [OF st nn(2)] nn(1) by (simp add: total_def)
  obtain bs tmp where r: "raw total (block_off img lsn) ?al (ziso_tmp_buf z1) = (bs, tmp)" by fastforce
  have al: "?al \<le> 11" using st by (simp add: stores_def)
  have bs: "bs = bytes_at img (block_off img lsn * 2 ^ ?al) total"
    using raw_bytes [OF al, of total "block_off img lsn" "ziso_tmp_buf z1"] unfolding r by simp
  have tmp: "length tmp = 2048" using raw_tmp [OF z1(6), of total "block_off img lsn" ?al] unfolding r by simp
  let ?c = "n * 2048 - total" and ?z = "z1\<lparr>ziso_tmp_buf := tmp\<rparr>"
  let ?buf = "write_at buf ?c bs"
  have lb: "?c + length bs \<le> length buf" using bs total nn(3) by simp
  have "\<exists>tmp'. length tmp' = 2048 \<and> block_loop lz4 n lsn ?c 0 ?buf ?z
      = Inr (take 0 ?buf @ concat (map sector [lsn..<lsn + n]) @ drop (0 + n * 2048) ?buf, ?z\<lparr>ziso_tmp_buf := tmp'\<rparr>)"
  proof (rule block_loop_sectors [OF st nn(2)])
    show "take ((block_off img (lsn + n) - block_off img lsn) * 2 ^ ?al) (drop ?c ?buf)
        = bytes_at img (block_off img lsn * 2 ^ ?al) ((block_off img (lsn + n) - block_off img lsn) * 2 ^ ?al)"
      using lb by (simp add: drop_write_at bs flip: total_def)
    show "?c + (block_off img (lsn + n) - block_off img lsn) * 2 ^ ?al = 0 + n * 2048"
      using total by (simp flip: total_def)
  qed (use z1 tmp nn lb in simp_all)
  moreover have "drop (n * 2048) ?buf = drop (n * 2048) buf"
    using total nn(3) by (simp add: write_at_def bs)
  ultimately obtain tmp' where loop: "length tmp' = 2048"
    "block_loop lz4 n lsn ?c 0 ?buf ?z = Inr (concat (map sector [lsn..<lsn + n]) @ drop (n * 2048) buf, ?z\<lparr>ziso_tmp_buf := tmp'\<rparr>)"
    by auto
  have c: "cached z1 lsn = Inr (index_word img lsn)" "cached z1 (lsn + n) = Inr (index_word img (lsn + n))"
    using z1 by (auto intro: cached_ok)
  have "ziso_read_sector lz4 raw buf lsn count z
      = Inr (n, concat (map sector [lsn..<lsn + n]) @ drop (n * 2048) buf, ?z\<lparr>ziso_tmp_buf := tmp'\<rparr>)"
    using lsn(1) total nn(3) c size r loop(2) z1(7)
    unfolding ziso_read_sector_def nc Let_def z1(1) by (simp add: block_off_def)
  then show ?thesis using z1 loop(1) by auto
qed

end

interpretation file_reader: raw_device img "read_raw_file img" for img
  by unfold_locales (simp_all add: raw_bytes_correct raw_tmp_length)

interpretation hdd_reader: raw_device img "read_raw_hdd img" for img
  by unfold_locales (simp_all add: raw_bytes_correct raw_tmp_length)

subsection \<open>Properties\<close>

text \<open>
  A raw read delivers exactly the bytes of the image at \<open>offset << shift\<close>, from a file and from
  hard disk sectors, for every alignment shift up to 11; positions beyond 2 GB are reached by seeks
  whose offsets all fit an \<open>int\<close>.
\<close>
theorem raw_read_correct:
  assumes "shift \<le> 11"
  shows "fst (read_raw_file img len offset shift tmp) = bytes_at img (offset * 2 ^ shift) len
    \<and> fst (read_raw_hdd img len offset shift tmp) = bytes_at img (offset * 2 ^ shift) len
    \<and> (\<forall>x \<in> set (longLseek (raw_lba offset shift)). x \<le> INT_MAX)"
  using raw_bytes_correct [OF assms] .

theorem raw_read_correct_witness:
  "fst (read_raw_hdd (\<lambda>k. of_nat k) 5000 700 3 []) = bytes_at (\<lambda>k. of_nat k) 5600 5000"
  using raw_read_correct [of 3 "\<lambda>k. of_nat k" 5000 700 "[]"] by simp


text \<open>
  C11. A read of up to 256 sectors of a compressed image, from a file or from the hard disk, delivers
  as many sectors as the image has from there on, each the sector that the image stores, in place: the
  compressed data lie in the same buffer and are never overwritten before they are read, and nothing
  behind the delivered sectors changes.  The state stays fit for the next read, whichever part of the
  index is cached.
\<close>
theorem zso_read_correct:
  assumes st: "stores lz4 img (ziso_align z) (ziso_total_block z) sector"
    and z: "index_ok img z" "length (ziso_tmp_buf z) = 2048"
    and lsn: "lsn < ziso_total_block z" "ziso_total_block z \<le> 2 ^ 30 - 6"
    and count: "count \<le> 256" "count * 2048 \<le> length buf"
    and n: "n = min count (ziso_total_block z - lsn)"
    and raw: "raw = read_raw_file img \<or> raw = read_raw_hdd img"
  shows "\<exists>z'. ziso_read_sector lz4 raw buf lsn count z
      = Inr (n, concat (map sector [lsn..<lsn + n]) @ drop (n * 2048) buf, z')
    \<and> index_ok img z' \<and> length (ziso_tmp_buf z') = 2048
    \<and> ziso_align z' = ziso_align z \<and> ziso_total_block z' = ziso_total_block z"
  using raw unfolding n
  by (auto intro: file_reader.read_sector_ok [OF st z lsn count] hdd_reader.read_sector_ok [OF st z lsn count])

text \<open>An image of a raw sector at byte 100 and a sector of equal bytes, compressed to one byte.\<close>

definition sample_image :: image where
  "sample_image p =
     (if p = 24 then 100 else if p = 27 then 0x80 else if p = 28 then 0x64 else if p = 29 then 8
      else if p = 32 then 0x65 else if p = 33 then 8 else if p < 100 then 0 else of_nat p)"

definition sample_sector :: "nat \<Rightarrow> u8 list" where
  "sample_sector i = (if i = 0 then bytes_at sample_image 100 2048 else replicate 2048 (sample_image 2148))"

lemma sample_index:
  "index_word sample_image 0 = 0x80000064" "index_word sample_image (Suc 0) = 0x864" "index_word sample_image 2 = 0x865"
  by (simp_all add: index_word_def sample_image_def le32_def)

lemma sample_stores: "stores (\<lambda>tmp. replicate 2048 (hd tmp)) sample_image 0 2 sample_sector"
proof -
  have o: "block_off sample_image 0 = 100" "block_off sample_image (Suc 0) = 2148" "block_off sample_image 2 = 2149"
    by (simp_all add: block_off_def sample_index)
  have s: "stored_size sample_image 0 0 = 2048" "stored_size sample_image 0 1 = 1"
    using o by (simp_all add: stored_size_def numeral_2_eq_2)
  have one: "hd tmp = sample_image 2148" if "length tmp = 2048" "take 1 tmp = bytes_at sample_image 2148 1" for tmp
    using that by (cases tmp) (simp_all add: bytes_at_def)
  have l: "length (sample_sector i) = 2048" for i by (simp add: sample_sector_def)
  have two: "(\<forall>i<2. P i) \<longleftrightarrow> P 0 \<and> P (Suc 0)" for P :: "nat \<Rightarrow> bool" by (auto simp: less_Suc_eq numeral_2_eq_2)
  have s1: "sample_sector (Suc 0) = replicate 2048 (sample_image 2148)" "sample_sector 0 = bytes_at sample_image 100 2048"
    by (simp_all add: sample_sector_def)
  have first: "block_off sample_image 0 \<le> block_off sample_image (0 + 1) \<and> stored_size sample_image 0 0 \<le> 2048"
    and second: "block_off sample_image (Suc 0) \<le> block_off sample_image (Suc 0 + 1) \<and> stored_size sample_image 0 (Suc 0) \<le> 2048"
    using o s by (simp_all add: numeral_2_eq_2)
  show ?thesis unfolding stores_def two Let_def
    using first second l one s o sample_index by (simp add: s1)
qed

definition sample_state :: ziso where
  "sample_state = ziso_init \<lparr>total_bytes = 4096, align = 0\<rparr> (replicate 2048 0) []
     \<lparr>ziso_idx_cache = [], ziso_idx_start_block = None, ziso_align = 0, ziso_total_block = 0, ziso_tmp_buf = []\<rparr>"

lemma sample_state_simps:
  "ziso_align sample_state = 0" "ziso_total_block sample_state = 2" "length (ziso_tmp_buf sample_state) = 2048"
  "index_ok sample_image sample_state"
  by (simp_all add: sample_state_def ziso_init_def Let_def index_ok_def)

theorem zso_read_correct_witness:
  "\<exists>z'. ziso_read_sector (\<lambda>tmp. replicate 2048 (hd tmp)) (read_raw_hdd sample_image) (replicate 6144 7) 0 3 sample_state
    = Inr (2, sample_sector 0 @ sample_sector 1 @ replicate 2048 7, z')"
proof -
  have r: "[0..<0 + 2] = [0, 1 :: nat]" by (simp add: upt_rec)
  have d: "drop (2 * 2048) (replicate 6144 7) = replicate 2048 (7 :: u8)" by simp
  show ?thesis
    using zso_read_correct [where sector = sample_sector and n = 2 and lsn = 0 and count = 3 and buf = "replicate 6144 7"
        and ?lz4.0 = "\<lambda>tmp. replicate 2048 (hd tmp)" and raw = "read_raw_hdd sample_image" and z = sample_state and img = sample_image]
      sample_stores sample_state_simps(4) unfolding sample_state_simps(1-3) r d by auto
qed

text \<open>
  The number of blocks is the image's size in sectors, for every image below 8 TB, and the
  cached index is dropped.
\<close>

lemma ziso_init_total:
  assumes "unat (total_bytes header) < 2 ^ 43"
  shows "ziso_total_block (ziso_init header mem idx z) = unat (total_bytes header) div 2048
    \<and> ziso_idx_start_block (ziso_init header mem idx z) = None"
proof -
  define t where "t = total_bytes header"
  have m: "(0x7FF :: u32) = mask 11" by (simp add: mask_eq_exp_minus_1)
  have w: "drop_bit 11 (ucast t :: u32) OR push_bit 21 ((ucast (drop_bit 32 t) :: u32) AND 0x7FF) = ucast (drop_bit 11 t)"
    unfolding m by (rule bit_word_eqI) (auto simp: bit_simps)
  have "unat (drop_bit 11 t) = unat t div 2048" 
    using unsigned_less [where 'a = nat, of t] unfolding unsigned_drop_bit_eq by (simp add: drop_bit_eq_div take_bit_nat_eq_self)
  moreover have "unat (ucast (drop_bit 11 t) :: u32) = take_bit 32 (unat (drop_bit 11 t))" by (simp add: unsigned_ucast_eq)
  moreover have "unat t div 2048 < 2 ^ 32" using assms by (simp add: t_def)
  ultimately have "unat (ucast (drop_bit 11 t) :: u32) = unat t div 2048" by (simp add: take_bit_nat_eq_self)
  then show ?thesis using w by (simp add: ziso_init_def Let_def t_def)
qed

end
