(* ===== verification/DirToc.thy ===== *)
theory DirToc
  imports Zso
begin

text \<open>
  What the two readers of ISO 9660 directories share (\<open>src/modules/isofs/isofs.c\<close> and
  \<open>src/modules/iopcore/cdvdman/searchfile.c\<close>): the records of a directory as they lie in a sector, the way both take a
  path apart, and what it is for a directory on a disc to have given entries.
\<close>

subsection \<open>Records\<close>

text \<open>The value of an \<open>int\<close> that holds a 32-bit pattern.\<close>

definition to_int :: "nat \<Rightarrow> int" where
  "to_int n = sint (of_nat n :: u32)"

lemma to_int_small: "n < 2 ^ 31 \<Longrightarrow> to_int n = int n"
  by (simp add: to_int_def signed_of_nat signed_take_bit_int_eq_self)

definition trimspaces :: "string \<Rightarrow> string" where
  "trimspaces s = rev (dropWhile (\<lambda>c. c = CHR '' '' \<or> c = CHR ''.'') (rev s))"

definition u32_at :: "u8 list \<Rightarrow> nat \<Rightarrow> nat" where
  "u32_at b i = unat (le32 (b ! i) (b ! (i + 1)) (b ! (i + 2)) (b ! (i + 3)))"

record dirTocEntry =
  fileLBA :: nat
  fileSize :: nat
  fileProperties :: u8

definition entry_at :: "u8 list \<Rightarrow> nat \<Rightarrow> dirTocEntry" where
  "entry_at b pos = \<lparr>fileLBA = u32_at b (pos + 2), fileSize = u32_at b (pos + 10), fileProperties = b ! (pos + 25)\<rparr>"

text \<open>\<open>length\<close> is a \<open>short\<close>.\<close>

definition record_length :: "u8 list \<Rightarrow> nat \<Rightarrow> int" where
  "record_length b pos = sint (ucast (b ! pos) OR push_bit 8 (ucast (b ! (pos + 1))) :: u16)"

subsection \<open>Paths\<close>

definition skip_slashes :: "string \<Rightarrow> string" where
  "skip_slashes p = dropWhile (\<lambda>c. c = CHR 0x5C) (dropWhile (\<lambda>c. c = CHR ''/'') p)"

definition find_slash :: "string \<Rightarrow> nat option" where
  "find_slash p = (case strchr p (CHR ''/'') of None \<Rightarrow> strchr p (CHR 0x5C) | Some k \<Rightarrow> Some k)"

definition strrchr :: "string \<Rightarrow> char \<Rightarrow> nat option" where
  "strrchr s c = map_option (\<lambda>k. length s - 1 - k) (strchr (rev s) c)"

fun join :: "char \<Rightarrow> string list \<Rightarrow> string" where
  "join sep [] = []"
| "join sep [c] = c"
| "join sep (c # c' # cs) = c @ sep # join sep (c' # cs)"

text \<open>A name that can stand between slashes.\<close>

definition plain_name :: "string \<Rightarrow> bool" where
  "plain_name c = (c \<noteq> [] \<and> set c \<inter> {CHR ''/'', CHR 0x5C, NUL} = {})"

lemma skip_slashes_join:
  assumes "plain_name c" "sep = CHR ''/'' \<or> sep = CHR 0x5C"
  shows "skip_slashes (replicate n (CHR ''/'') @ replicate m (CHR 0x5C) @ join sep (c # cs)) = join sep (c # cs)"
proof -
  obtain a c' where c: "c = a # c'" "a \<noteq> CHR ''/''" "a \<noteq> CHR 0x5C" using assms(1) by (cases c) (auto simp: plain_name_def)
  obtain r where j: "join sep (c # cs) = a # r" using c(1) by (cases cs) auto
  have d: "P x \<Longrightarrow> dropWhile P (replicate k x @ xs) = dropWhile P xs" for P k and x :: char and xs
    by (induction k) auto
  show ?thesis unfolding skip_slashes_def j using c(2,3) by (cases m) (simp_all add: d)
qed

lemma find_slash_join:
  assumes "\<forall>x \<in> set (c # cs). plain_name x" "sep = CHR ''/'' \<or> sep = CHR 0x5C"
  shows "find_slash (join sep (c # cs)) = (if cs = [] then None else Some (length c))"
proof -
  have no: "strchr s x = None" if "x \<notin> set s" for s x using that by (simp add: strchr_None_iff)
  have set_join: "set (join sep xs) \<subseteq> insert sep (\<Union> (set ` set xs))" for xs
    by (induction sep xs rule: join.induct) auto
  show ?thesis
  proof (cases cs)
    case Nil
    then show ?thesis using assms(1) by (simp add: find_slash_def no plain_name_def)
  next
    case (Cons c' cs')
    have sl: "CHR ''/'' \<notin> set (join sep (c # cs))" if "sep \<noteq> CHR ''/''"
      using set_join [of "c # cs"] that assms(1) by (auto simp: plain_name_def)
    have "sep \<notin> set c" using assms by (auto simp: plain_name_def)
    then have "strchr (join sep (c # cs)) sep = Some (length c)" using Cons by (simp add: strchr_append)
    then show ?thesis using assms(2) sl Cons by (auto simp: find_slash_def no)
  qed
qed

lemma strrchr_last: "x \<notin> set ys \<Longrightarrow> strrchr (xs @ x # ys) x = Some (length xs)"
  by (simp add: strrchr_def strchr_append)

lemma join_last: "cs \<noteq> [] \<Longrightarrow> \<exists>xs. sep # join sep cs = xs @ sep # last cs"
proof (induction sep cs rule: join.induct)
  case (3 sep c c' cs)
  then obtain xs where "sep # join sep (c' # cs) = xs @ sep # last (c' # cs)" by auto
  then have "sep # join sep (c # c' # cs) = (sep # c @ xs) @ sep # last (c # c' # cs)" by simp
  then show ?case by blast
qed auto

lemma trimspaces_id: "s \<noteq> [] \<Longrightarrow> last s \<notin> {CHR '' '', CHR ''.''} \<Longrightarrow> trimspaces s = s"
  by (cases s rule: rev_cases) (auto simp: trimspaces_def)

subsection \<open>Directories on a disc\<close>

lemma of_char_u8_inject: "(of_char c :: u8) = of_char d \<longleftrightarrow> c = d"
proof -
  have "unat (of_char c :: u8) = of_char c" for c
    using of_char_of [where 'a = nat] by (simp add: of_char_def)
  then show ?thesis by (metis of_char_eq_iff)
qed

lemma of_char_0: "(0 :: u8) = of_char c \<longleftrightarrow> c = NUL"
  using of_char_u8_inject [of NUL c] by (auto simp: NUL_def)

text \<open>What becomes of a record: the file that was looked for, a directory on the way to it, or nothing.\<close>

datatype scan = Found dirTocEntry | Descend dirTocEntry | NotHere

text \<open>A name in a record: the characters up to a NUL.\<close>

definition name_in :: "string \<Rightarrow> u8 list \<Rightarrow> bool" where
  "name_in nm bs = (NUL \<notin> set nm \<and> length nm < length bs \<and> take (length nm) bs = map of_char nm \<and> bs ! length nm = 0)"

type_synonym entry = "string \<times> dirTocEntry"

text \<open>The records of a sector from a position on.\<close>

fun block_lists :: "u8 list \<Rightarrow> nat \<Rightarrow> entry list \<Rightarrow> bool" where
  "block_lists b pos [] = (2016 \<le> pos \<or> record_length b pos = 0)"
| "block_lists b pos ((nm, e) # es) =
     (pos < 2016 \<and> 0 < record_length b pos \<and> b ! (pos + 32) \<noteq> 0 \<and> name_in nm (drop (pos + 33) b)
      \<and> e = entry_at b pos \<and> block_lists b (pos + nat (record_length b pos)) es)"

definition is_dir :: "dirTocEntry \<Rightarrow> bool" where
  "is_dir e = (fileProperties e AND 2 \<noteq> 0)"

text \<open>The image that consists of the given sectors, uncompressed.\<close>

definition plain :: "(nat \<Rightarrow> u8 list) \<Rightarrow> image" where
  "plain sector k = sector (k div 2048) ! (k mod 2048)"

lemma plain_sector: "length (sector i) = 2048 \<Longrightarrow> bytes_at (plain sector) (i * 2048) 2048 = sector i"
  by (intro nth_equalityI) (simp_all add: nth_bytes_at plain_def)

text \<open>A directory of \<open>sz\<close> bytes at \<open>lba\<close> with these entries.\<close>

definition dir_lists :: "nat \<Rightarrow> (nat \<Rightarrow> u8 list) \<Rightarrow> nat \<Rightarrow> nat \<Rightarrow> entry list \<Rightarrow> bool" where
  "dir_lists nblocks sector lba sz es =
     (\<exists>bss. es = concat bss \<and> length bss = (sz + 2047) div 2048 \<and> sz < 2 ^ 31 \<and> lba + length bss \<le> nblocks
        \<and> (\<forall>k<length bss. block_lists (sector (lba + k)) 0 (bss ! k)))"

end
