(* ===== verification/Isofs.thy ===== *)
theory Isofs
  imports DirToc
begin

text \<open>
  The ISO 9660 driver of \<open>src/modules/isofs/isofs.c\<close>: mounting an image (plain or compressed),
  finding a file by its path in the directory records, and reading it.  The semaphore, which makes
  the operations exclude each other, and the registration of the driver are not modelled; the
  operations are the atomic functions below.
\<close>

subsection \<open>State\<close>

text \<open>\<open>owner\<close> is the pointer \<open>f\<close> to the file that uses the handle.\<close>

record FHANDLE =
  owner :: "nat option"
  fh_lsn :: nat
  filesize :: nat
  position :: nat

definition closed_handle :: FHANDLE where
  "closed_handle = \<lparr>owner = None, fh_lsn = 0, filesize = 0, position = 0\<rparr>"

definition MAX_FDHANDLES :: nat where "MAX_FDHANDLES = 4"

record layer_info =
  maxLBA :: nat
  rootDirtocLBA :: nat
  rootDirtocLength :: nat

text \<open>An open image file: its bytes and its length.  \<open>fd\<close> is \<open>None\<close> for -1.\<close>

type_synonym image_file = "image \<times> nat"

record MountData =
  fd :: "image_file option"
  layer_info0 :: layer_info
  layer_info1 :: layer_info
  cdvdman_fdhandles :: "FHANDLE list"

text \<open>\<open>cdEmuRead\<close> tells which function the pointer is set to; \<open>ziso_state\<close> are the globals of \<open>zso.c\<close>.\<close>

datatype sector_reader = cdEmuReadRaw | cdEmuReadCompressed

record isofs =
  MountPoint :: MountData
  cdEmuRead :: sector_reader
  ziso_state :: ziso
  cdvdman_buf :: "u8 list"
  cdvdman_fs_buf :: "u8 list"

definition EIO :: int where "EIO = 5"
definition ENOENT :: int where "ENOENT = 2"
definition EBUSY :: int where "EBUSY = 16"
definition EINVAL :: int where "EINVAL = 22"
definition EMFILE :: int where "EMFILE = 24"
definition EBADFD :: int where "EBADFD = 81"

subsection \<open>Sectors\<close>

text \<open>
  Reading \<open>count\<close> sectors to the front of a buffer, through the pointer.  The result is the return
  value, the buffer and the reader's state.
\<close>

definition read_file :: "image_file \<Rightarrow> nat \<Rightarrow> nat \<Rightarrow> u8 list" where
  "read_file m pos n = bytes_at (fst m) pos (min n (snd m - pos))"

definition emu_read :: "(u8 list \<Rightarrow> u8 list) \<Rightarrow> sector_reader \<Rightarrow> image_file \<Rightarrow> ziso \<Rightarrow> nat \<Rightarrow> nat \<Rightarrow> u8 list
    \<Rightarrow> ub + int \<times> u8 list \<times> ziso" where
  "emu_read lz4 r m z n0 count buf =
     (case r of
        cdEmuReadRaw \<Rightarrow>
          let bs = read_file m (sum_list (longLseek n0)) (count * 2048)
          in if length buf < length bs then Inl OutOfBounds
             else Inr (if length bs = count * 2048 then 0 else - EIO, write_at buf 0 bs, z)
      | cdEmuReadCompressed \<Rightarrow>
          bindR (ziso_read_sector lz4 (read_raw_file (fst m)) buf n0 count z) (\<lambda>(n, buf, z).
            Inr (if n = count then 0 else - EIO, buf, z)))"

text \<open>A call of \<open>cdEmuRead\<close> in the driver's state.\<close>

definition sector_read :: "(u8 list \<Rightarrow> u8 list) \<Rightarrow> isofs \<Rightarrow> nat \<Rightarrow> nat \<Rightarrow> u8 list \<Rightarrow> ub + int \<times> u8 list \<times> isofs" where
  "sector_read lz4 st n count buf =
     (case fd (MountPoint st) of
        None \<Rightarrow> Inr (- EIO, buf, st)
      | Some m \<Rightarrow> bindR (emu_read lz4 (cdEmuRead st) m (ziso_state st) n count buf) (\<lambda>(r, buf, z).
          Inr (r, buf, st\<lparr>ziso_state := z\<rparr>)))"

subsection \<open>Directory records\<close>

text \<open>\<open>strcmp(dirname, filename) == 0\<close>, which reads the buffer up to the first difference.\<close>

fun same_name :: "string \<Rightarrow> u8 list \<Rightarrow> ub + bool" where
  "same_name s [] = Inl OutOfBounds"
| "same_name [] (b # bs) = Inr (b = 0)"
| "same_name (c # s) (b # bs) = (if b = of_char c then same_name s bs else Inr False)"

text \<open>
  The first component of a path, with the version appended when it is the last one; the rest is
  \<open>None\<close> when there is no slash.
\<close>

definition dirname_size :: nat where "dirname_size = 40"

definition correct_filename :: "string \<Rightarrow> string" where
  "correct_filename s =
     (case strchr s (CHR ''.'') of
        None \<Rightarrow> s
      | Some k \<Rightarrow> let q = k + 1 + length (takeWhile (\<lambda>c. c \<noteq> CHR '';'') (take 3 (drop (k + 1) s)))
                  in if q + 3 < dirname_size then take q s @ '';1'' else s)"

definition path_head :: "string \<Rightarrow> (string \<times> string option) option" where
  "path_head p0 =
     (let p = skip_slashes p0
      in case find_slash p of
           Some len \<Rightarrow> if dirname_size \<le> len then None else Some (take len p, Some (drop (len + 1) p))
         | None \<Rightarrow> if dirname_size \<le> length p then None else Some (correct_filename p, None))"

text \<open>One sector of a directory.\<close>

fun scan_block :: "nat \<Rightarrow> u8 list \<Rightarrow> string \<Rightarrow> bool \<Rightarrow> int \<Rightarrow> ub + scan" where
  "scan_block 0 b dirname slash tocPos = Inl Diverges"
| "scan_block (Suc fuel) b dirname slash tocPos =
     (let pos = nat tocPos
      in if tocPos < 0 \<or> length b < pos + 33 then Inl OutOfBounds
         else if record_length b pos = 0 then Inr NotHere
         else if b ! (pos + 32) \<noteq> 0
         then bindR (same_name dirname (drop (pos + 33) b)) (\<lambda>same.
                if same \<and> \<not> slash then Inr (Found (entry_at b pos))
                else if same \<and> fileProperties (entry_at b pos) AND 2 \<noteq> 0 then Inr (Descend (entry_at b pos))
                else let tocPos = tocPos + record_length b pos
                     in if tocPos < 2016 then scan_block fuel b dirname slash tocPos else Inr NotHere)
         else if tocPos < 2016 then scan_block fuel b dirname slash tocPos else Inr NotHere)"

text \<open>The sectors of a directory.  The result of reading a sector is not looked at.\<close>

function search_toc :: "(u8 list \<Rightarrow> u8 list) \<Rightarrow> nat \<Rightarrow> string \<Rightarrow> bool \<Rightarrow> nat \<Rightarrow> int \<Rightarrow> isofs \<Rightarrow> ub + scan \<times> isofs" where
  "search_toc lz4 fuel dirname slash tocLBA tocLength st =
     (if 0 < tocLength
      then bindR (sector_read lz4 st tocLBA 1 (cdvdman_buf st)) (\<lambda>(r, buf, st).
             let st = st\<lparr>cdvdman_buf := buf\<rparr>
             in bindR (scan_block fuel buf dirname slash 0) (\<lambda>s.
                  if s = NotHere then search_toc lz4 fuel dirname slash (tocLBA + 1) (tocLength - 2048) st
                  else Inr (s, st)))
      else Inr (NotHere, st))"
  by auto
termination by (relation "measure (\<lambda>(lz4, fuel, dirname, slash, tocLBA, tocLength, st). nat tocLength)") auto

declare search_toc.simps [simp del]

definition sceCdReadDvdDualInfo :: "isofs \<Rightarrow> bool \<times> nat" where
  "sceCdReadDvdDualInfo st =
     (if 0 < maxLBA (layer_info1 (MountPoint st)) then (True, maxLBA (layer_info0 (MountPoint st))) else (False, 0))"

lemma path_head_shorter: "path_head p = Some (d, Some q) \<Longrightarrow> length q < length p"
proof -
  assume a: "path_head p = Some (d, Some q)"
  have l: "length (skip_slashes p) \<le> length p"
    unfolding skip_slashes_def by (meson le_trans length_dropWhile_le)
  obtain k where k: "find_slash (skip_slashes p) = Some k" "q = drop (k + 1) (skip_slashes p)"
    using a by (auto simp: path_head_def Let_def split: option.splits if_splits)
  have "k < length (skip_slashes p)"
    using k(1) strchr_Some_less by (auto simp: find_slash_def split: option.splits)
  then show ?thesis using k(2) l by simp
qed

function locatefile :: "(u8 list \<Rightarrow> u8 list) \<Rightarrow> nat \<Rightarrow> string \<Rightarrow> nat \<Rightarrow> int \<Rightarrow> int \<Rightarrow> isofs
    \<Rightarrow> ub + dirTocEntry option \<times> isofs" where
  "locatefile lz4 fuel p tocLBA tocLength layer st =
     (case path_head p of
        None \<Rightarrow> Inr (None, st)
      | Some (dirname, rest) \<Rightarrow>
          bindR (search_toc lz4 fuel dirname (rest \<noteq> None) tocLBA tocLength st) (\<lambda>(s, st).
            case s of
              NotHere \<Rightarrow> Inr (None, st)
            | Found e \<Rightarrow> Inr (Some e, st)
            | Descend e \<Rightarrow>
                (case rest of
                   None \<Rightarrow> Inl NullPointer
                 | Some q \<Rightarrow>
                     locatefile lz4 fuel q
                       (if layer \<noteq> 0 then (fileLBA e + snd (sceCdReadDvdDualInfo st)) mod 2 ^ 32 else fileLBA e)
                       (to_int (fileSize e)) layer st)))"
  by auto
termination
  by (relation "measure (\<lambda>(lz4, fuel, p, tocLBA, tocLength, layer, st). length p)") (auto dest: path_head_shorter)

declare locatefile.simps [simp del]

subsection \<open>Operations\<close>

record cd_file =
  cd_lsn :: nat
  cd_size :: nat
  cd_name :: string

definition layer_of :: "isofs \<Rightarrow> int \<Rightarrow> layer_info" where
  "layer_of st layer = (if layer = 0 then layer_info0 (MountPoint st) else layer_info1 (MountPoint st))"

definition findfile :: "(u8 list \<Rightarrow> u8 list) \<Rightarrow> nat \<Rightarrow> string \<Rightarrow> int \<Rightarrow> isofs \<Rightarrow> ub + cd_file option \<times> isofs" where
  "findfile lz4 fuel name layer st =
     (let path = trimspaces (bounded 256 name)
      in if 2 \<le> layer \<or> rootDirtocLBA (layer_of st layer) = 0 then Inr (None, st)
         else bindR (locatefile lz4 fuel path (rootDirtocLBA (layer_of st layer))
                       (to_int (rootDirtocLength (layer_of st layer))) layer st) (\<lambda>(e, st).
           case e of
             None \<Rightarrow> Inr (None, st)
           | Some e \<Rightarrow>
               let n = (if layer \<noteq> 0 then (fileLBA e + snd (sceCdReadDvdDualInfo st)) mod 2 ^ 32 else fileLBA e)
               in case strrchr name (CHR 0x5C) of
                    None \<Rightarrow> Inl NullPointer
                  | Some k \<Rightarrow> if 16 \<le> length (drop (k + 1) name) then Inl OutOfBounds
                              else Inr (Some \<lparr>cd_lsn = n, cd_size = fileSize e, cd_name = drop (k + 1) name\<rparr>, st)))"

fun getfilefreeslot :: "FHANDLE list \<Rightarrow> nat option" where
  "getfilefreeslot [] = None"
| "getfilefreeslot (fh # fhs) = (if owner fh = None then Some 0 else map_option Suc (getfilefreeslot fhs))"

text \<open>\<open>iop_file_t\<close>; \<open>privdata\<close> is the index of a handle.\<close>

record iop_file =
  file_ptr :: nat
  unit_no :: int
  mode :: int
  privdata :: "nat option"

definition set_handle :: "nat \<Rightarrow> FHANDLE \<Rightarrow> isofs \<Rightarrow> isofs" where
  "set_handle i fh st =
     st\<lparr>MountPoint := (MountPoint st)\<lparr>cdvdman_fdhandles := (cdvdman_fdhandles (MountPoint st))[i := fh]\<rparr>\<rparr>"

definition IsofsOpen :: "(u8 list \<Rightarrow> u8 list) \<Rightarrow> nat \<Rightarrow> iop_file \<Rightarrow> string \<Rightarrow> isofs \<Rightarrow> ub + int \<times> iop_file \<times> isofs" where
  "IsofsOpen lz4 fuel f name st =
     (if fd (MountPoint st) = None then Inr (- EBADFD, f, st)
      else case getfilefreeslot (cdvdman_fdhandles (MountPoint st)) of
             None \<Rightarrow> Inr (- EMFILE, f, st)
           | Some i \<Rightarrow>
               bindR (findfile lz4 fuel name (unit_no f) st) (\<lambda>(cd, st).
                 case cd of
                   None \<Rightarrow> Inr (- ENOENT, f, st)
                 | Some cd \<Rightarrow>
                     Inr (0, f\<lparr>privdata := Some i, mode := (if mode f = 0 then 1 else mode f)\<rparr>,
                       set_handle i \<lparr>owner = Some (file_ptr f), fh_lsn = cd_lsn cd, filesize = cd_size cd, position = 0\<rparr> st)))"

definition IsofsClose :: "iop_file \<Rightarrow> isofs \<Rightarrow> int \<times> isofs" where
  "IsofsClose f st = (case privdata f of None \<Rightarrow> (0, st) | Some i \<Rightarrow> (0, set_handle i closed_handle st))"

text \<open>
  \<open>IsofsRead\<close>: the rest of a sector, whole sectors, the beginning of a sector.  A part is the bytes
  that it adds to the buffer; \<open>rest\<close> is the buffer from the current address on.
\<close>

definition read_size :: "FHANDLE \<Rightarrow> int \<Rightarrow> int" where
  "read_size fh sz =
     (if int (filesize fh) < (int (position fh) + sz) mod 2 ^ 32
      then to_int ((filesize fh + 2 ^ 32 - position fh) mod 2 ^ 32) else sz)"

definition read_head :: "(u8 list \<Rightarrow> u8 list) \<Rightarrow> FHANDLE \<Rightarrow> nat \<Rightarrow> u8 list \<Rightarrow> isofs \<Rightarrow> ub + nat \<times> u8 list \<times> isofs" where
  "read_head lz4 fh sz buf st =
     (let offset = position fh mod 2048
      in if offset = 0 then Inr (0, buf, st)
         else let nbytes = min sz (2048 - offset)
              in bindR (sector_read lz4 st (fh_lsn fh + position fh div 2048) 1 (cdvdman_fs_buf st)) (\<lambda>(r, b, st).
                   if length buf < nbytes \<or> length b < offset + nbytes then Inl OutOfBounds
                   else Inr (nbytes, write_at buf 0 (take nbytes (drop offset b)), st\<lparr>cdvdman_fs_buf := b\<rparr>)))"

definition read_middle :: "(u8 list \<Rightarrow> u8 list) \<Rightarrow> FHANDLE \<Rightarrow> nat \<Rightarrow> nat \<Rightarrow> u8 list \<Rightarrow> isofs \<Rightarrow> ub + nat \<times> u8 list \<times> isofs" where
  "read_middle lz4 fh pos sz rest st =
     (let nsectors = sz div 2048
      in if nsectors = 0 then Inr (0, rest, st)
         else bindR (sector_read lz4 st (fh_lsn fh + pos div 2048) nsectors rest) (\<lambda>(r, rest, st).
                Inr (nsectors * 2048, rest, st)))"

definition read_tail :: "(u8 list \<Rightarrow> u8 list) \<Rightarrow> FHANDLE \<Rightarrow> nat \<Rightarrow> nat \<Rightarrow> u8 list \<Rightarrow> isofs \<Rightarrow> ub + nat \<times> u8 list \<times> isofs" where
  "read_tail lz4 fh pos nbytes rest st =
     (if nbytes = 0 then Inr (0, rest, st)
      else bindR (sector_read lz4 st (fh_lsn fh + pos div 2048) 1 (cdvdman_fs_buf st)) (\<lambda>(r, b, st).
             if length rest < nbytes \<or> length b < nbytes then Inl OutOfBounds
             else Inr (nbytes, write_at rest 0 (take nbytes b), st\<lparr>cdvdman_fs_buf := b\<rparr>)))"

definition read_parts :: "(u8 list \<Rightarrow> u8 list) \<Rightarrow> FHANDLE \<Rightarrow> nat \<Rightarrow> u8 list \<Rightarrow> isofs \<Rightarrow> ub + nat \<times> u8 list \<times> isofs" where
  "read_parts lz4 fh sz buf st =
     bindR (read_head lz4 fh sz buf st) (\<lambda>(n1, buf1, st).
       bindR (read_middle lz4 fh (position fh + n1) (sz - n1) (drop n1 buf1) st) (\<lambda>(n2, buf2, st).
         bindR (read_tail lz4 fh (position fh + n1 + n2) (sz - n1 - n2) (drop n2 buf2) st) (\<lambda>(n3, buf3, st).
           Inr (n1 + n2 + n3, take n1 buf1 @ take n2 buf2 @ buf3, st))))"

definition IsofsRead :: "(u8 list \<Rightarrow> u8 list) \<Rightarrow> iop_file \<Rightarrow> u8 list \<Rightarrow> int \<Rightarrow> isofs \<Rightarrow> ub + int \<times> u8 list \<times> isofs" where
  "IsofsRead lz4 f buf sz st =
     (case privdata f of
        None \<Rightarrow> Inl NullPointer
      | Some i \<Rightarrow>
          let fh = cdvdman_fdhandles (MountPoint st) ! i; sz = read_size fh sz
          in if sz \<le> 0 then Inr (0, buf, st)
             else bindR (read_parts lz4 fh (nat sz) buf st) (\<lambda>(n, buf, st).
                    Inr (int n, buf, set_handle i (fh\<lparr>position := position fh + n\<rparr>) st)))"

datatype whence = SEEK_SET | SEEK_CUR | SEEK_END | SEEK_OTHER

text \<open>Comparisons of an \<open>int\<close> with the \<open>u32\<close> size are unsigned.\<close>

definition IsofsLseek :: "iop_file \<Rightarrow> int \<Rightarrow> whence \<Rightarrow> isofs \<Rightarrow> ub + int \<times> isofs" where
  "IsofsLseek f offset whence st =
     (case privdata f of
        None \<Rightarrow> Inl NullPointer
      | Some i \<Rightarrow>
          let fh = cdvdman_fdhandles (MountPoint st) ! i; u = (\<lambda>x::int. nat (x mod 2 ^ 32));
              seek = (\<lambda>r::int. Inr (r, set_handle i (fh\<lparr>position := min (u r) (filesize fh)\<rparr>) st))
          in case whence of
               SEEK_CUR \<Rightarrow> let r = to_int (u (int (position fh) + offset))
                           in if filesize fh < u r then Inr (- EINVAL, st) else seek r
             | SEEK_SET \<Rightarrow> if filesize fh < u offset then Inr (- EINVAL, st) else seek offset
             | SEEK_END \<Rightarrow> seek (to_int (u (int (filesize fh) - offset)))
             | SEEK_OTHER \<Rightarrow> Inr (- EINVAL, st))"

definition ZSO_MAGIC :: nat where "ZSO_MAGIC = 0x4F53495A"

text \<open>The header of an image; \<open>mem\<close> and \<open>idx\<close> are the buffers for \<open>ziso_init\<close>.\<close>

definition header_at :: "u8 list \<Rightarrow> ziso_header" where
  "header_at b = \<lparr>total_bytes = of_nat (u32_at b 8) OR push_bit 32 (of_nat (u32_at b 12)), align = unat (b ! 21)\<rparr>"

definition ProbeZISO :: "u8 list \<Rightarrow> u32 list \<Rightarrow> image_file \<Rightarrow> isofs \<Rightarrow> isofs" where
  "ProbeZISO mem idx m st =
     (let b = read_file m 0 32
      in if length b = 32 \<and> u32_at b 0 = ZSO_MAGIC
         then st\<lparr>ziso_state := ziso_init (header_at b) mem idx (ziso_state st), cdEmuRead := cdEmuReadCompressed\<rparr>
         else st\<lparr>cdEmuRead := cdEmuReadRaw\<rparr>)"

definition set_fd :: "image_file option \<Rightarrow> isofs \<Rightarrow> isofs" where
  "set_fd m st = st\<lparr>MountPoint := (MountPoint st)\<lparr>fd := m\<rparr>\<rparr>"

definition ProbeISO9660 :: "(u8 list \<Rightarrow> u8 list) \<Rightarrow> u8 list \<Rightarrow> u32 list \<Rightarrow> image_file \<Rightarrow> nat \<Rightarrow> isofs
    \<Rightarrow> ub + int \<times> layer_info option \<times> isofs" where
  "ProbeISO9660 lz4 mem idx m sector st =
     (let prev_fd = fd (MountPoint st)
      in bindR (sector_read lz4 (ProbeZISO mem idx m (set_fd (Some m) st)) sector 1 (cdvdman_buf st)) (\<lambda>(r, b, st).
           let st = set_fd prev_fd (st\<lparr>cdvdman_buf := b\<rparr>)
           in if r \<noteq> 0 then Inr (EIO, None, st)
              else if b ! 0 = 1 \<and> take 5 (drop 1 b) = map of_char ''CD001''
              then Inr (0, Some \<lparr>maxLBA = u32_at b 0x50, rootDirtocLBA = fileLBA (entry_at b 0x9c),
                     rootDirtocLength = fileSize (entry_at b 0x9c)\<rparr>, st)
              else Inr (EINVAL, None, st)))"

definition no_layer :: layer_info where
  "no_layer = \<lparr>maxLBA = 0, rootDirtocLBA = 0, rootDirtocLength = 0\<rparr>"

text \<open>\<open>dev\<close> is the result of \<open>open\<close>: an error code or the image.\<close>

definition IsofsMount :: "(u8 list \<Rightarrow> u8 list) \<Rightarrow> u8 list \<Rightarrow> u32 list \<Rightarrow> int + image_file \<Rightarrow> isofs \<Rightarrow> ub + int \<times> isofs" where
  "IsofsMount lz4 mem idx dev st0 =
     (if fd (MountPoint st0) \<noteq> None then Inr (- EBUSY, st0)
      else let st = st0\<lparr>MountPoint := \<lparr>fd = None, layer_info0 = no_layer, layer_info1 = no_layer,
                          cdvdman_fdhandles = replicate MAX_FDHANDLES closed_handle\<rparr>\<rparr>
           in case dev of
                Inl err \<Rightarrow> Inr (err, st)
              | Inr m \<Rightarrow> bindR (ProbeISO9660 lz4 mem idx m 16 st) (\<lambda>(result, li, st).
                  case li of
                    None \<Rightarrow> Inr (result, st)
                  | Some li \<Rightarrow> Inr (result, set_fd (Some m) (st\<lparr>MountPoint := (MountPoint st)\<lparr>layer_info0 := li\<rparr>\<rparr>))))"

definition IsofsUmount :: "isofs \<Rightarrow> int \<times> isofs" where
  "IsofsUmount st = (if fd (MountPoint st) = None then (- EBADFD, st) else (0, set_fd None st))"

subsection \<open>Reading sectors of a mounted image\<close>

text \<open>The mounted image, plain or compressed, provides these sectors.\<close>

definition provides :: "(u8 list \<Rightarrow> u8 list) \<Rightarrow> isofs \<Rightarrow> nat \<Rightarrow> (nat \<Rightarrow> u8 list) \<Rightarrow> bool" where
  "provides lz4 st nblocks sector =
     ((\<forall>i<nblocks. length (sector i) = 2048) \<and>
      (case fd (MountPoint st) of
         None \<Rightarrow> False
       | Some m \<Rightarrow>
           (case cdEmuRead st of
              cdEmuReadRaw \<Rightarrow> nblocks * 2048 \<le> snd m \<and> (\<forall>i<nblocks. bytes_at (fst m) (i * 2048) 2048 = sector i)
            | cdEmuReadCompressed \<Rightarrow>
                stores lz4 (fst m) (ziso_align (ziso_state st)) nblocks sector
                \<and> nblocks = ziso_total_block (ziso_state st) \<and> nblocks \<le> 2 ^ 30 - 6
                \<and> index_ok (fst m) (ziso_state st) \<and> length (ziso_tmp_buf (ziso_state st)) = 2048)))"

definition buffers_ok :: "isofs \<Rightarrow> bool" where
  "buffers_ok st = (length (cdvdman_buf st) = 2048 \<and> length (cdvdman_fs_buf st) = 2048)"

lemma longLseek_sum: "sum_list (longLseek lba) = lba * 2048"
  using seek_steps_sum [of "lba - SEEK_STEP"] by (auto simp: longLseek_def diff_mult_distrib)

lemma bytes_at_sectors:
  "(\<And>i. a \<le> i \<Longrightarrow> i < a + n \<Longrightarrow> bytes_at img (i * 2048) 2048 = sector i)
   \<Longrightarrow> concat (map sector [a..<a + n]) = bytes_at img (a * 2048) (n * 2048)"
proof (induction n)
  case (Suc n)
  have "bytes_at img (a * 2048 + n * 2048) 2048 = sector (a + n)"
    using Suc.prems [of "a + n"] by (simp add: add_mult_distrib)
  moreover have "concat (map sector [a..<a + n]) = bytes_at img (a * 2048) (n * 2048)" using Suc by simp
  ultimately show ?case using bytes_at_append [of img "a * 2048" "n * 2048" 2048] by (simp add: add.commute)
qed (simp add: bytes_at_def)

lemma sector_read_ok:
  assumes pr: "provides lz4 st nblocks sector" and n: "a + n \<le> nblocks" "0 < n" "n * 2048 \<le> length buf"
    and few: "cdEmuRead st = cdEmuReadCompressed \<Longrightarrow> n \<le> 256"
  shows "\<exists>z. sector_read lz4 st a n buf
      = Inr (0, bytes_at (plain sector) (a * 2048) (n * 2048) @ drop (n * 2048) buf, st\<lparr>ziso_state := z\<rparr>)
    \<and> provides lz4 (st\<lparr>ziso_state := z\<rparr>) nblocks sector"
proof -
  obtain m where m: "fd (MountPoint st) = Some m" using pr by (auto simp: provides_def split: option.splits)
  have l: "\<forall>i<nblocks. length (sector i) = 2048" using pr by (simp add: provides_def)
  have pl: "concat (map sector [a..<a + n]) = bytes_at (plain sector) (a * 2048) (n * 2048)"
    using l n(1) by (intro bytes_at_sectors plain_sector) simp
  show ?thesis
  proof (cases "cdEmuRead st")
    case cdEmuReadRaw
    then have raw: "nblocks * 2048 \<le> snd m" "\<forall>i<nblocks. bytes_at (fst m) (i * 2048) 2048 = sector i"
      using pr m by (auto simp: provides_def)
    have "(a + n) * 2048 \<le> snd m" using raw(1) n(1) by (meson le_trans mult_le_mono1)
    then have "n * 2048 \<le> snd m - a * 2048" by (simp add: add_mult_distrib)
    then have rf: "read_file m (a * 2048) (n * 2048) = bytes_at (plain sector) (a * 2048) (n * 2048)"
      using bytes_at_sectors [of a n "fst m" sector] raw(2) n(1) pl by (simp add: read_file_def)
    show ?thesis using m cdEmuReadRaw pr n(3) unfolding sector_read_def emu_read_def longLseek_sum rf
      by (intro exI [of _ "ziso_state st"]) (simp add: rf write_at_def Let_def)
  next
    case cdEmuReadCompressed
    then have z: "stores lz4 (fst m) (ziso_align (ziso_state st)) (ziso_total_block (ziso_state st)) sector"
      "nblocks = ziso_total_block (ziso_state st)" "nblocks \<le> 2 ^ 30 - 6"
      "index_ok (fst m) (ziso_state st)" "length (ziso_tmp_buf (ziso_state st)) = 2048"
      using pr m by (auto simp: provides_def)
    have mn: "min n (ziso_total_block (ziso_state st) - a) = n" using z(2) n(1) by simp
    obtain z' where z': "ziso_read_sector lz4 (read_raw_file (fst m)) buf a n (ziso_state st)
        = Inr (n, bytes_at (plain sector) (a * 2048) (n * 2048) @ drop (n * 2048) buf, z')"
      "index_ok (fst m) z'" "length (ziso_tmp_buf z') = 2048"
      "ziso_align z' = ziso_align (ziso_state st)" "ziso_total_block z' = ziso_total_block (ziso_state st)"
      using file_reader.read_sector_ok [OF z(1,4,5), of a n buf] z(2,3) n few [OF cdEmuReadCompressed]
      unfolding mn pl by auto
    then show ?thesis using m cdEmuReadCompressed z l
      by (intro exI [of _ z']) (simp add: sector_read_def emu_read_def provides_def)
  qed
qed

lemma provides_simps [simp]:
  "provides lz4 (st\<lparr>cdvdman_fs_buf := b\<rparr>) nblocks sector = provides lz4 st nblocks sector"
  "provides lz4 (st\<lparr>cdvdman_buf := b\<rparr>) nblocks sector = provides lz4 st nblocks sector"
  "provides lz4 (set_handle i fh st) nblocks sector = provides lz4 st nblocks sector"
  by (simp_all add: provides_def set_handle_def cong: option.case_cong sector_reader.case_cong)

subsection \<open>Reading a file\<close>

text \<open>What the steps of a read leave alone.\<close>

definition same_mount :: "isofs \<Rightarrow> isofs \<Rightarrow> bool" where
  "same_mount st st' = (MountPoint st' = MountPoint st \<and> cdEmuRead st' = cdEmuRead st \<and> cdvdman_buf st' = cdvdman_buf st
     \<and> length (cdvdman_fs_buf st') = length (cdvdman_fs_buf st))"

lemma one_sector:
  assumes pr: "provides lz4 st nblocks sector" and k: "L * 2048 + pos < nblocks * 2048"
    and b: "length (cdvdman_fs_buf st) = 2048"
  shows "\<exists>z. sector_read lz4 st (L + pos div 2048) 1 (cdvdman_fs_buf st)
      = Inr (0, bytes_at (plain sector) (L * 2048 + pos div 2048 * 2048) 2048, st\<lparr>ziso_state := z\<rparr>)
    \<and> provides lz4 (st\<lparr>ziso_state := z\<rparr>) nblocks sector"
proof -
  have "L + pos div 2048 + 1 \<le> nblocks" using k by linarith
  then show ?thesis using sector_read_ok [OF pr, of "L + pos div 2048" 1 "cdvdman_fs_buf st"] b
    by (simp add: add_mult_distrib)
qed

lemma read_head_ok:
  assumes pr: "provides lz4 st nblocks sector" and b: "length (cdvdman_fs_buf st) = 2048"
    and k: "fh_lsn fh * 2048 + position fh + sz \<le> nblocks * 2048" "0 < sz" "sz \<le> length buf"
  defines "n \<equiv> (if position fh mod 2048 = 0 then 0 else min sz (2048 - position fh mod 2048))"
  shows "\<exists>st'. read_head lz4 fh sz buf st
      = Inr (n, bytes_at (plain sector) (fh_lsn fh * 2048 + position fh) n @ drop n buf, st')
    \<and> provides lz4 st' nblocks sector \<and> same_mount st st'"
proof (cases "position fh mod 2048 = 0")
  case True
  then show ?thesis using pr by (intro exI [of _ st]) (simp add: read_head_def n_def bytes_at_def same_mount_def)
next
  case False
  define P where "P = position fh"
  have nn: "P mod 2048 + n \<le> 2048" "n \<le> length buf" using k(3) by (auto simp: n_def P_def)
  obtain z where z: "sector_read lz4 st (fh_lsn fh + P div 2048) 1 (cdvdman_fs_buf st)
      = Inr (0, bytes_at (plain sector) (fh_lsn fh * 2048 + P div 2048 * 2048) 2048, st\<lparr>ziso_state := z\<rparr>)"
    "provides lz4 (st\<lparr>ziso_state := z\<rparr>) nblocks sector"
    using one_sector [OF pr, of "fh_lsn fh" P] k b by (auto simp: P_def)
  let ?b = "bytes_at (plain sector) (fh_lsn fh * 2048 + P div 2048 * 2048) 2048"
  have e: "take n (drop (P mod 2048) ?b) = bytes_at (plain sector) (fh_lsn fh * 2048 + P) n"
    using nn(1) by (simp add: drop_bytes_at take_bytes_at add.assoc)
  show ?thesis using z nn e False b k(3)
    by (intro exI [of _ "st\<lparr>ziso_state := z, cdvdman_fs_buf := ?b\<rparr>"])
      (simp add: read_head_def P_def n_def write_at_def same_mount_def Let_def)
qed

lemma read_middle_ok:
  assumes pr: "provides lz4 st nblocks sector" and pos: "pos mod 2048 = 0 \<or> sz < 2048"
    and k: "fh_lsn fh * 2048 + pos + sz \<le> nblocks * 2048" "sz \<le> length buf"
    and few: "cdEmuRead st = cdEmuReadCompressed \<Longrightarrow> sz div 2048 \<le> 256"
  shows "\<exists>st'. read_middle lz4 fh pos sz buf st
      = Inr (sz div 2048 * 2048, bytes_at (plain sector) (fh_lsn fh * 2048 + pos) (sz div 2048 * 2048)
               @ drop (sz div 2048 * 2048) buf, st')
    \<and> provides lz4 st' nblocks sector \<and> same_mount st st'"
proof (cases "sz div 2048 = 0")
  case True
  then show ?thesis using pr by (intro exI [of _ st]) (simp add: read_middle_def bytes_at_def same_mount_def)
next
  case False
  then have p: "pos div 2048 * 2048 = pos" using pos by auto
  have "fh_lsn fh + pos div 2048 + sz div 2048 \<le> nblocks" using k(1) p by linarith
  moreover have "sz div 2048 * 2048 \<le> length buf" using k(2) by linarith
  ultimately obtain z where "sector_read lz4 st (fh_lsn fh + pos div 2048) (sz div 2048) buf
      = Inr (0, bytes_at (plain sector) (fh_lsn fh * 2048 + pos) (sz div 2048 * 2048) @ drop (sz div 2048 * 2048) buf,
          st\<lparr>ziso_state := z\<rparr>)"
    "provides lz4 (st\<lparr>ziso_state := z\<rparr>) nblocks sector"
    using sector_read_ok [OF pr, of "fh_lsn fh + pos div 2048" "sz div 2048" buf] False few
    by (auto simp: add_mult_distrib p)
  then show ?thesis using False
    by (intro exI [of _ "st\<lparr>ziso_state := z\<rparr>"]) (simp add: read_middle_def same_mount_def Let_def)
qed

lemma read_tail_ok:
  assumes pr: "provides lz4 st nblocks sector" and b: "length (cdvdman_fs_buf st) = 2048" and pos: "pos mod 2048 = 0 \<or> n = 0"
    and k: "fh_lsn fh * 2048 + pos + n \<le> nblocks * 2048" "n \<le> length buf" "n < 2048"
  shows "\<exists>st'. read_tail lz4 fh pos n buf st
      = Inr (n, bytes_at (plain sector) (fh_lsn fh * 2048 + pos) n @ drop n buf, st')
    \<and> provides lz4 st' nblocks sector \<and> same_mount st st'"
proof (cases "n = 0")
  case True
  then show ?thesis using pr by (intro exI [of _ st]) (simp add: read_tail_def bytes_at_def same_mount_def)
next
  case False
  then have p: "pos div 2048 * 2048 = pos" using pos by auto
  obtain z where z: "sector_read lz4 st (fh_lsn fh + pos div 2048) 1 (cdvdman_fs_buf st)
      = Inr (0, bytes_at (plain sector) (fh_lsn fh * 2048 + pos) 2048, st\<lparr>ziso_state := z\<rparr>)"
    "provides lz4 (st\<lparr>ziso_state := z\<rparr>) nblocks sector"
    using one_sector [OF pr, of "fh_lsn fh" pos] k b False p by auto
  show ?thesis using z k False b
    by (intro exI [of _ "st\<lparr>ziso_state := z, cdvdman_fs_buf := bytes_at (plain sector) (fh_lsn fh * 2048 + pos) 2048\<rparr>"])
      (simp add: read_tail_def write_at_def same_mount_def take_bytes_at)
qed

lemma sector_rest: "p + (2048 - p mod 2048) = (p div 2048 + 1) * (2048 :: nat)"
proof -
  define d m where "d = p div 2048" and "m = p mod 2048"
  have "p = d * 2048 + m" "m < 2048" by (simp_all add: d_def m_def)
  then show ?thesis unfolding d_def [symmetric] m_def [symmetric] by simp
qed

lemma read_parts_ok:
  assumes pr: "provides lz4 st nblocks sector" and b: "length (cdvdman_fs_buf st) = 2048"
    and k: "fh_lsn fh * 2048 + position fh + sz \<le> nblocks * 2048" "0 < sz" "sz \<le> length buf"
    and few: "cdEmuRead st = cdEmuReadCompressed \<Longrightarrow> sz div 2048 \<le> 256"
  shows "\<exists>st'. read_parts lz4 fh sz buf st
      = Inr (sz, bytes_at (plain sector) (fh_lsn fh * 2048 + position fh) sz @ drop sz buf, st')
    \<and> provides lz4 st' nblocks sector \<and> same_mount st st'"
proof -
  let ?P = "position fh" and ?B = "bytes_at (plain sector)" and ?L = "fh_lsn fh * 2048"
  define n1 where "n1 = (if ?P mod 2048 = 0 then 0 else min sz (2048 - ?P mod 2048))"
  define n2 where "n2 = (sz - n1) div 2048 * 2048"
  define n3 where "n3 = sz - n1 - n2"
  have "n1 \<le> sz" by (simp add: n1_def)
  moreover have "n3 = (sz - n1) mod 2048" unfolding n3_def n2_def by (rule minus_div_mult_eq_mod)
  moreover have "n2 \<le> sz - n1" by (simp add: n2_def)
  ultimately have n: "n1 \<le> sz" "n1 + n2 + n3 = sz" "n3 < 2048" by (simp_all add: n3_def)
  have al: "(?P + n1) mod 2048 = 0 \<or> sz - n1 < 2048" "(?P + n1 + n2) mod 2048 = 0 \<or> n3 = 0"
  proof -
    have "(?P + n1) mod 2048 = 0 \<or> n1 = sz"
    proof (cases "?P mod 2048 = 0 \<or> sz \<le> 2048 - ?P mod 2048")
      case False
      then have "n1 = 2048 - ?P mod 2048" by (simp add: n1_def)
      then have "?P + n1 = (?P div 2048 + 1) * 2048" using sector_rest [of ?P] by simp
      then show ?thesis by (metis mod_mult_self2_is_0)
    qed (auto simp: n1_def)
    then show "(?P + n1) mod 2048 = 0 \<or> sz - n1 < 2048" "(?P + n1 + n2) mod 2048 = 0 \<or> n3 = 0"
      by (auto simp: n2_def n3_def mod_add_eq)
  qed
  obtain s1 where 1: "read_head lz4 fh sz buf st = Inr (n1, ?B (?L + ?P) n1 @ drop n1 buf, s1)"
    "provides lz4 s1 nblocks sector" "same_mount st s1"
    using read_head_ok [OF pr b k] unfolding n1_def by blast
  obtain s2 where 2: "read_middle lz4 fh (?P + n1) (sz - n1) (drop n1 buf) s1
      = Inr (n2, ?B (?L + (?P + n1)) n2 @ drop n2 (drop n1 buf), s2)"
    "provides lz4 s2 nblocks sector" "same_mount s1 s2"
  proof -
    have "(sz - n1) div 2048 \<le> 256" if "cdEmuRead s1 = cdEmuReadCompressed"
      using few that 1(3) by (auto simp: same_mount_def intro: le_trans [OF div_le_mono])
    moreover have "?L + (?P + n1) + (sz - n1) \<le> nblocks * 2048" "sz - n1 \<le> length (drop n1 buf)" using k n(1) by auto
    ultimately show ?thesis using read_middle_ok [OF 1(2) al(1), of fh "drop n1 buf"] that unfolding n2_def by blast
  qed
  obtain s3 where 3: "read_tail lz4 fh (?P + n1 + n2) n3 (drop n2 (drop n1 buf)) s2
      = Inr (n3, ?B (?L + (?P + n1 + n2)) n3 @ drop n3 (drop n2 (drop n1 buf)), s3)"
    "provides lz4 s3 nblocks sector" "same_mount s2 s3"
  proof -
    have "length (cdvdman_fs_buf s2) = 2048" using 1(3) 2(3) b by (simp add: same_mount_def)
    moreover have "?L + (?P + n1 + n2) + n3 \<le> nblocks * 2048" "n3 \<le> length (drop n2 (drop n1 buf))" using k n by auto
    ultimately show ?thesis
      using read_tail_ok [OF 2(2) _ al(2), of fh "drop n2 (drop n1 buf)"] n(3) that by blast
  qed
  have "?B (?L + ?P) n1 @ ?B (?L + (?P + n1)) n2 @ ?B (?L + (?P + n1 + n2)) n3 = ?B (?L + ?P) sz"
    using n(2) bytes_at_append [of "plain sector" "?L + ?P + n1" n2 n3] bytes_at_append [of "plain sector" "?L + ?P" n1 "n2 + n3"]
    by (simp add: add.assoc)
  moreover have "drop n3 (drop n2 (drop n1 buf)) = drop sz buf" using n(2) by (simp add: add.commute add.left_commute)
  moreover have after: "drop n (?B p n @ xs) = xs" for n p xs by simp
  ultimately have "read_parts lz4 fh sz buf st = Inr (sz, ?B (?L + ?P) sz @ drop sz buf, s3)"
    unfolding read_parts_def 1(1) bindR_simps prod.case after 2(1) n3_def [symmetric] 3(1) n(2) by simp
  then show ?thesis using 3 2 1 by (auto simp: same_mount_def)
qed

lemma read_size_min:
  assumes "position fh \<le> filesize fh" "filesize fh < 2 ^ 31" "0 \<le> sz" "sz < 2 ^ 31"
  shows "read_size fh sz = int (min (nat sz) (filesize fh - position fh))"
proof -
  have "(int (position fh) + sz) mod 2 ^ 32 = int (position fh) + sz" using assms by simp
  moreover have "(filesize fh + 2 ^ 32 - position fh) mod 2 ^ 32 = filesize fh - position fh"
  proof -
    have "filesize fh + 2 ^ 32 - position fh = filesize fh - position fh + 2 ^ 32" using assms(1) by simp
    then show ?thesis using assms(2) by (simp only: mod_add_self2) simp
  qed
  ultimately show ?thesis using assms to_int_small [of "filesize fh - position fh"] by (auto simp: read_size_def)
qed

lemma set_handle_simps [simp]:
  "cdvdman_fdhandles (MountPoint (set_handle i fh st)) = (cdvdman_fdhandles (MountPoint st))[i := fh]"
  "fd (MountPoint (set_handle i fh st)) = fd (MountPoint st)"
  "layer_info0 (MountPoint (set_handle i fh st)) = layer_info0 (MountPoint st)"
  "cdEmuRead (set_handle i fh st) = cdEmuRead st"
  "cdvdman_buf (set_handle i fh st) = cdvdman_buf st" "cdvdman_fs_buf (set_handle i fh st) = cdvdman_fs_buf st"
  by (simp_all add: set_handle_def)

text \<open>\<open>n\<close> is the number of bytes left, at most the requested size.\<close>

lemma IsofsRead_ok:
  assumes pr: "provides lz4 st nblocks sector" and b: "buffers_ok st"
    and fh: "privdata f = Some i" "i < length (cdvdman_fdhandles (MountPoint st))" "cdvdman_fdhandles (MountPoint st) ! i = fh"
    and pos: "position fh \<le> filesize fh" "filesize fh < 2 ^ 31" "fh_lsn fh * 2048 + filesize fh \<le> nblocks * 2048"
    and sz: "0 \<le> sz" "sz < 2 ^ 31" and n: "n = min (nat sz) (filesize fh - position fh)" "n \<le> length buf"
    and few: "cdEmuRead st = cdEmuReadCompressed \<Longrightarrow> n div 2048 \<le> 256"
  shows "\<exists>st'. IsofsRead lz4 f buf sz st
      = Inr (int n, bytes_at (plain sector) (fh_lsn fh * 2048 + position fh) n @ drop n buf, st')
    \<and> provides lz4 st' nblocks sector \<and> buffers_ok st'
    \<and> cdvdman_fdhandles (MountPoint st') = (cdvdman_fdhandles (MountPoint st))[i := fh\<lparr>position := position fh + n\<rparr>]"
proof (cases "n = 0")
  case True
  have "(cdvdman_fdhandles (MountPoint st))[i := fh\<lparr>position := position fh\<rparr>] = cdvdman_fdhandles (MountPoint st)"
    using fh(3) by (metis FHANDLE.surjective FHANDLE.update_convs(4) list_update_id)
  then show ?thesis using True pr b fh read_size_min [OF pos(1,2) sz] n(1)
    by (intro exI [of _ st]) (simp add: IsofsRead_def bytes_at_def)
next
  case False
  have rs: "read_size fh sz = int n" using read_size_min [OF pos(1,2) sz] n(1) by simp
  have "fh_lsn fh * 2048 + position fh + n \<le> nblocks * 2048" using n(1) pos by simp
  with read_parts_ok [OF pr, of fh n buf] b False n(2) few obtain st' where
    st': "read_parts lz4 fh n buf st = Inr (n, bytes_at (plain sector) (fh_lsn fh * 2048 + position fh) n @ drop n buf, st')"
    "provides lz4 st' nblocks sector" "same_mount st st'" by (auto simp: buffers_ok_def)
  show ?thesis using st' fh False b rs
    by (intro exI [of _ "set_handle i (fh\<lparr>position := position fh + n\<rparr>) st'"])
      (auto simp: IsofsRead_def Let_def same_mount_def buffers_ok_def)
qed

subsection \<open>Directories\<close>

text \<open>The first record that matches.\<close>

fun pick :: "string \<Rightarrow> bool \<Rightarrow> entry list \<Rightarrow> scan" where
  "pick d slash [] = NotHere"
| "pick d slash ((nm, e) # es) =
     (if nm = d \<and> \<not> slash then Found e else if nm = d \<and> is_dir e then Descend e else pick d slash es)"

lemma pick_append: "pick d slash (es @ fs) = (if pick d slash es = NotHere then pick d slash fs else pick d slash es)"
  by (induction d slash es rule: pick.induct) auto

lemma same_name_ok: "name_in nm bs \<Longrightarrow> NUL \<notin> set d \<Longrightarrow> same_name d bs = Inr (d = nm)"
proof (induction d arbitrary: nm bs)
  case Nil
  then show ?case
    using of_char_0 by (cases bs; cases nm) (auto simp: name_in_def)
next
  case (Cons c d)
  obtain b bs' where bs: "bs = b # bs'" using Cons.prems(1) by (cases bs) (auto simp: name_in_def)
  show ?case
  proof (cases nm)
    case Nil
    then show ?thesis using Cons.prems bs of_char_0 [of c] by (auto simp: name_in_def)
  next
    case (Cons e nm')
    then have "name_in nm' bs'" "b = of_char e" using \<open>name_in nm bs\<close> bs by (auto simp: name_in_def)
    then show ?thesis using Cons.IH [of nm' bs'] Cons.prems(2) bs Cons by (simp add: of_char_u8_inject)
  qed
qed

lemma scan_block_ok:
  "\<lbrakk>block_lists b pos es; pos < 2016; length b = 2048; 2016 - pos < fuel; NUL \<notin> set d\<rbrakk>
   \<Longrightarrow> scan_block fuel b d slash (int pos) = Inr (pick d slash es)"
proof (induction es arbitrary: pos fuel)
  case Nil
  then show ?case by (cases fuel) auto
next
  case (Cons e es)
  obtain nm t where e: "e = (nm, t)" by (cases e)
  obtain k where k: "fuel = Suc k" using Cons.prems(4) by (cases fuel) auto
  define l where "l = record_length b pos"
  define pos' where "pos' = pos + nat l"
  have B: "0 < l" "b ! (pos + 32) \<noteq> 0" "name_in nm (drop (pos + 33) b)" "t = entry_at b pos" "block_lists b pos' es"
    using Cons.prems(1) by (simp_all add: e l_def pos'_def)
  have n: "same_name d (drop (pos + 33) b) = Inr (d = nm)" by (rule same_name_ok [OF B(3) Cons.prems(5)])
  have p: "int pos + l = int pos'" using B(1) by (simp add: pos'_def)
  have next_ok: "(if int pos' < 2016 then scan_block k b d slash (int pos') else Inr NotHere) = Inr (pick d slash es)"
  proof (cases "int pos' < 2016")
    case True
    have "2016 - pos' < k" using Cons.prems(2,4) k B(1) by (simp add: pos'_def)
    then show ?thesis using Cons.IH [OF B(5)] True Cons.prems(3,5) by simp
  next
    case False
    then have "es = []" using B(5) by (cases es) auto
    then show ?thesis using False by simp
  qed
  have nx: "pos' < 2016 \<Longrightarrow> scan_block k b d slash (int pos') = Inr (pick d slash es)"
    "\<not> pos' < 2016 \<Longrightarrow> pick d slash es = NotHere" using next_ok by auto
  show ?case using nx B(1,2,4) Cons.prems(2,3) unfolding k scan_block.simps e pick.simps
    by (auto simp: n p is_dir_def Let_def simp flip: l_def)
qed

text \<open>What looking for a file leaves alone.\<close>

definition same_files :: "isofs \<Rightarrow> isofs \<Rightarrow> bool" where
  "same_files st st' = (MountPoint st' = MountPoint st \<and> cdEmuRead st' = cdEmuRead st \<and> (buffers_ok st \<longrightarrow> buffers_ok st'))"

lemma search_toc_blocks:
  "\<lbrakk>provides lz4 st nblocks sector; buffers_ok st; lba + length bss \<le> nblocks; length bss = nat ((len + 2047) div 2048);
    \<forall>k<length bss. block_lists (sector (lba + k)) 0 (bss ! k); NUL \<notin> set d; 2016 < fuel\<rbrakk>
   \<Longrightarrow> \<exists>st'. search_toc lz4 fuel d slash lba len st = Inr (pick d slash (concat bss), st')
     \<and> provides lz4 st' nblocks sector \<and> same_files st st'"
proof (induction bss arbitrary: lba len st)
  case Nil
  then have "len \<le> 0" by auto
  then show ?case using Nil.prems(1) by (subst search_toc.simps) (simp add: same_files_def)
next
  case (Cons es bss)
  have len: "0 < len" "length bss = nat ((len - 2048 + 2047) div 2048)" using Cons.prems(4) by auto
  have sec: "length (sector lba) = 2048" using Cons.prems(1,3) by (simp add: provides_def)
  obtain z where z: "sector_read lz4 st lba 1 (cdvdman_buf st) = Inr (0, sector lba, st\<lparr>ziso_state := z\<rparr>)"
    "provides lz4 (st\<lparr>ziso_state := z\<rparr>) nblocks sector"
    using sector_read_ok [OF Cons.prems(1), of lba 1 "cdvdman_buf st"] Cons.prems(2,3) plain_sector [of sector lba, OF sec]
    by (auto simp: buffers_ok_def)
  have scan: "scan_block fuel (sector lba) d slash 0 = Inr (pick d slash es)"
    using scan_block_ok [of "sector lba" 0 es fuel d slash] Cons.prems(5-7) sec by auto
  let ?st = "st\<lparr>ziso_state := z, cdvdman_buf := sector lba\<rparr>"
  have st: "provides lz4 ?st nblocks sector" "buffers_ok ?st" "same_files st ?st"
    using z(2) Cons.prems(2) sec by (simp_all add: buffers_ok_def same_files_def)
  show ?case
  proof (cases "pick d slash es = NotHere")
    case True
    have "\<forall>k<length bss. block_lists (sector (lba + 1 + k)) 0 (bss ! k)"
      using Cons.prems(5) by (metis (no_types, lifting) Suc_eq_plus1 Suc_mono add.assoc add.commute length_Cons nth_Cons_Suc)
    from Cons.IH [OF st(1,2) _ len(2) this Cons.prems(6,7)] Cons.prems(3) obtain st' where
      "search_toc lz4 fuel d slash (lba + 1) (len - 2048) ?st = Inr (pick d slash (concat bss), st')"
      "provides lz4 st' nblocks sector" "same_files ?st st'" by auto
    then show ?thesis using True len(1) z(1) scan st
      by (subst search_toc.simps) (auto simp: pick_append same_files_def Let_def)
  next
    case False
    then show ?thesis using len(1) z(1) scan st
      by (subst search_toc.simps) (auto simp: pick_append Let_def)
  qed
qed

lemma search_toc_ok:
  assumes "provides lz4 st nblocks sector" "buffers_ok st" "dir_lists nblocks sector lba sz es" "NUL \<notin> set d" "2016 < fuel"
  shows "\<exists>st'. search_toc lz4 fuel d slash lba (int sz) st = Inr (pick d slash es, st')
     \<and> provides lz4 st' nblocks sector \<and> same_files st st'"
proof -
  obtain bss where b: "es = concat bss" "length bss = (sz + 2047) div 2048" "lba + length bss \<le> nblocks"
    "\<forall>k<length bss. block_lists (sector (lba + k)) 0 (bss ! k)" using assms(3) by (auto simp: dir_lists_def)
  have "length bss = nat ((int sz + 2047) div 2048)" unfolding b(2) by (simp add: nat_div_distrib nat_add_distrib)
  then show ?thesis using search_toc_blocks [OF assms(1,2) b(3) _ b(4) assms(4,5)] b(1) by simp
qed

subsection \<open>Paths\<close>

text \<open>
  Looking up a list of names in a tree of directories: all but the last must be directories, the last
  is looked up with its version number.  \<open>contents\<close> gives the entries of the directory of the given
  size at the given block.
\<close>

fun resolve :: "(nat \<Rightarrow> nat \<Rightarrow> entry list) \<Rightarrow> nat \<Rightarrow> nat \<Rightarrow> string list \<Rightarrow> dirTocEntry option" where
  "resolve contents lba sz [] = None"
| "resolve contents lba sz [c] =
     (case pick (correct_filename c) False (contents lba sz) of Found e \<Rightarrow> Some e | _ \<Rightarrow> None)"
| "resolve contents lba sz (c # c' # cs) =
     (case pick c True (contents lba sz) of
        Descend e \<Rightarrow> resolve contents (fileLBA e) (fileSize e) (c' # cs) | _ \<Rightarrow> None)"

definition tree_on_disc :: "nat \<Rightarrow> (nat \<Rightarrow> u8 list) \<Rightarrow> (nat \<Rightarrow> nat \<Rightarrow> entry list) \<Rightarrow> (nat \<times> nat) set \<Rightarrow> bool" where
  "tree_on_disc nblocks sector contents dirs =
     (\<forall>(lba, sz) \<in> dirs. dir_lists nblocks sector lba sz (contents lba sz)
        \<and> (\<forall>(nm, e) \<in> set (contents lba sz). is_dir e \<longrightarrow> (fileLBA e, fileSize e) \<in> dirs))"

definition component :: "string \<Rightarrow> bool" where
  "component c = (plain_name c \<and> length c < 40)"

lemma path_head_join:
  assumes "\<forall>x \<in> set (c # cs). component x" "sep = CHR ''/'' \<or> sep = CHR 0x5C"
  shows "path_head (replicate n (CHR ''/'') @ replicate m (CHR 0x5C) @ join sep (c # cs))
    = Some (if cs = [] then (correct_filename c, None) else (c, Some (join sep cs)))"
proof -
  have p: "\<forall>x \<in> set (c # cs). plain_name x" using assms(1) by (simp add: component_def)
  then have "plain_name c" by simp
  then show ?thesis using assms
    unfolding path_head_def Let_def skip_slashes_join [OF \<open>plain_name c\<close> assms(2)] find_slash_join [OF p assms(2)]
    by (cases cs) (auto simp: dirname_size_def component_def plain_name_def)
qed

lemma pick_Descend: "pick d slash es = Descend e \<Longrightarrow> slash \<and> is_dir e \<and> (d, e) \<in> set es"
  by (induction d slash es rule: pick.induct) (auto split: if_splits)

lemma pick_Found: "pick d slash es = Found e \<Longrightarrow> \<not> slash \<and> (d, e) \<in> set es"
  by (induction d slash es rule: pick.induct) (auto split: if_splits)

lemma correct_filename_cstring: "NUL \<notin> set c \<Longrightarrow> NUL \<notin> set (correct_filename c)"
  by (auto simp: correct_filename_def Let_def NUL_def dest: in_set_takeD split: option.splits)

lemma locatefile_ok:
  "\<lbrakk>provides lz4 st nblocks sector; buffers_ok st; tree_on_disc nblocks sector contents dirs; (lba, sz) \<in> dirs;
    \<forall>c \<in> set cs. component c; cs \<noteq> []; sep = CHR ''/'' \<or> sep = CHR 0x5C; 2016 < fuel\<rbrakk>
   \<Longrightarrow> \<exists>st'. locatefile lz4 fuel (replicate n (CHR ''/'') @ replicate m (CHR 0x5C) @ join sep cs) lba (int sz) 0 st
        = Inr (resolve contents lba sz cs, st')
     \<and> provides lz4 st' nblocks sector \<and> same_files st st'"
proof (induction contents lba sz cs arbitrary: n m st rule: resolve.induct)
  case (2 contents lba sz c)
  have d: "dir_lists nblocks sector lba sz (contents lba sz)" using 2(3,4) by (auto simp: tree_on_disc_def)
  have "NUL \<notin> set (correct_filename c)" using 2(5) by (intro correct_filename_cstring) (simp add: component_def plain_name_def)
  from search_toc_ok [OF 2(1,2) d this 2(8), of False] obtain st' where s:
    "search_toc lz4 fuel (correct_filename c) False lba (int sz) st = Inr (pick (correct_filename c) False (contents lba sz), st')"
    "provides lz4 st' nblocks sector" "same_files st st'" by blast
  have "path_head (replicate n (CHR ''/'') @ replicate m (CHR 0x5C) @ join sep [c]) = Some (correct_filename c, None)"
    using path_head_join [of c "[]" sep n m] 2(5,7) by simp
  then show ?case using s
    by (subst locatefile.simps) (auto dest: pick_Descend split: scan.split)
next
  case (3 contents lba sz c c' cs)
  have d: "dir_lists nblocks sector lba sz (contents lba sz)" using 3(4,5) by (auto simp: tree_on_disc_def)
  have "NUL \<notin> set c" using 3(6) by (simp add: component_def plain_name_def)
  from search_toc_ok [OF 3(2,3) d this 3(9), of True] obtain st' where s:
    "search_toc lz4 fuel c True lba (int sz) st = Inr (pick c True (contents lba sz), st')"
    "provides lz4 st' nblocks sector" "same_files st st'" by blast
  have h: "path_head (replicate n (CHR ''/'') @ replicate m (CHR 0x5C) @ join sep (c # c' # cs)) = Some (c, Some (join sep (c' # cs)))"
    using path_head_join [of c "c' # cs" sep n m] 3(6,8) by simp
  show ?case
  proof (cases "pick c True (contents lba sz)")
    case (Descend e)
    have e: "(fileLBA e, fileSize e) \<in> dirs"
      using pick_Descend [OF Descend] 3(4,5) by (auto simp: tree_on_disc_def)
    then have "fileSize e < 2 ^ 31" using 3(4) by (auto simp: tree_on_disc_def dir_lists_def)
    then have "to_int (fileSize e) = int (fileSize e)" by (rule to_int_small)
    moreover from 3(1) [OF Descend s(2) _ 3(4) e, of 0 0] 3(3,6-9) s(3) obtain st'' where
      "locatefile lz4 fuel (join sep (c' # cs)) (fileLBA e) (int (fileSize e)) 0 st' =
        Inr (resolve contents (fileLBA e) (fileSize e) (c' # cs), st'')"
      "provides lz4 st'' nblocks sector" "same_files st' st''" by (auto simp: same_files_def)
    ultimately show ?thesis using h s Descend
      by (subst locatefile.simps) (auto simp: same_files_def)
  next
    case (Found e)
    then show ?thesis using pick_Found by blast
  next
    case NotHere
    then show ?thesis using h s by (subst locatefile.simps) simp
  qed
qed simp

text \<open>A mounted image with a tree of directories, and a path that the driver takes as it stands.\<close>

definition mounted_tree :: "(u8 list \<Rightarrow> u8 list) \<Rightarrow> isofs \<Rightarrow> nat \<Rightarrow> (nat \<Rightarrow> u8 list) \<Rightarrow> (nat \<Rightarrow> nat \<Rightarrow> entry list) \<Rightarrow> bool" where
  "mounted_tree lz4 st nblocks sector contents =
     (provides lz4 st nblocks sector \<and> buffers_ok st \<and> rootDirtocLBA (layer_info0 (MountPoint st)) \<noteq> 0
      \<and> (\<exists>dirs. tree_on_disc nblocks sector contents dirs
           \<and> (rootDirtocLBA (layer_info0 (MountPoint st)), rootDirtocLength (layer_info0 (MountPoint st))) \<in> dirs))"

definition path_ok :: "char \<Rightarrow> string list \<Rightarrow> bool" where
  "path_ok sep cs = (cs \<noteq> [] \<and> (\<forall>c \<in> set cs. component c) \<and> length (join sep cs) < 255
     \<and> last (join sep cs) \<notin> {CHR '' '', CHR ''.''})"

abbreviation resolve_path :: "isofs \<Rightarrow> (nat \<Rightarrow> nat \<Rightarrow> entry list) \<Rightarrow> string list \<Rightarrow> dirTocEntry option" where
  "resolve_path st contents cs \<equiv>
     resolve contents (rootDirtocLBA (layer_info0 (MountPoint st))) (rootDirtocLength (layer_info0 (MountPoint st))) cs"

lemma findfile_located:
  assumes mt: "mounted_tree lz4 st nblocks sector contents" and pa: "path_ok sep cs"
    and sep: "sep = CHR ''/'' \<or> sep = CHR 0x5C" and fuel: "2016 < fuel"
  shows "\<exists>st'. findfile lz4 fuel (sep # join sep cs) 0 st =
      (case resolve_path st contents cs of
         None \<Rightarrow> Inr (None, st')
       | Some e \<Rightarrow>
           (case strrchr (sep # join sep cs) (CHR 0x5C) of
              None \<Rightarrow> Inl NullPointer
            | Some k \<Rightarrow> if 16 \<le> length (drop k (join sep cs)) then Inl OutOfBounds
                else Inr (Some \<lparr>cd_lsn = fileLBA e, cd_size = fileSize e, cd_name = drop k (join sep cs)\<rparr>, st')))
     \<and> provides lz4 st' nblocks sector \<and> same_files st st'"
proof -
  have cs: "cs \<noteq> []" "\<forall>c \<in> set cs. component c" "length (join sep cs) < 255" using pa by (simp_all add: path_ok_def)
  have ne: "join sep cs \<noteq> []" using cs by (cases "(sep, cs)" rule: join.cases) (auto simp: component_def plain_name_def)
  have p: "trimspaces (bounded 256 (sep # join sep cs)) = sep # join sep cs"
    using cs(3) pa ne by (subst bounded_id) (simp_all add: trimspaces_id path_ok_def)
  let ?li = "layer_info0 (MountPoint st)"
  obtain dirs where d: "provides lz4 st nblocks sector" "buffers_ok st" "rootDirtocLBA ?li \<noteq> 0"
    "tree_on_disc nblocks sector contents dirs" "(rootDirtocLBA ?li, rootDirtocLength ?li) \<in> dirs"
    using mt by (auto simp: mounted_tree_def)
  have "rootDirtocLength ?li < 2 ^ 31" using d(4,5) by (auto simp: tree_on_disc_def dir_lists_def)
  then have len: "to_int (rootDirtocLength ?li) = int (rootDirtocLength ?li)" by (rule to_int_small)
  note L = locatefile_ok [OF d(1,2,4,5) cs(2,1) sep fuel]
  from L [of 1 0] L [of 0 1] sep obtain st' where
    "locatefile lz4 fuel (sep # join sep cs) (rootDirtocLBA ?li) (int (rootDirtocLength ?li)) 0 st
       = Inr (resolve_path st contents cs, st')" "provides lz4 st' nblocks sector" "same_files st st'" by auto
  then show ?thesis using d(3)
    by (intro exI [of _ st']) (simp add: findfile_def layer_of_def p len split: option.split)
qed

subsection \<open>Properties\<close>

lemma open_backslash:
  assumes mt: "mounted_tree lz4 st nblocks sector contents" and pa: "path_ok (CHR 0x5C) cs"
    and f: "unit_no f = 0" and slot: "getfilefreeslot (cdvdman_fdhandles (MountPoint st)) = Some i" and fuel: "2016 < fuel"
  shows "\<exists>st'. provides lz4 st' nblocks sector \<and> buffers_ok st'
    \<and> (case resolve_path st contents cs of
         None \<Rightarrow> IsofsOpen lz4 fuel f (CHR 0x5C # join (CHR 0x5C) cs) st = Inr (- ENOENT, f, st')
           \<and> MountPoint st' = MountPoint st
       | Some e \<Rightarrow> if 16 \<le> length (last cs) then IsofsOpen lz4 fuel f (CHR 0x5C # join (CHR 0x5C) cs) st = Inl OutOfBounds
           else IsofsOpen lz4 fuel f (CHR 0x5C # join (CHR 0x5C) cs) st
             = Inr (0, f\<lparr>privdata := Some i, mode := (if mode f = 0 then 1 else mode f)\<rparr>, st')
           \<and> cdvdman_fdhandles (MountPoint st') = (cdvdman_fdhandles (MountPoint st))
               [i := \<lparr>owner = Some (file_ptr f), fh_lsn = fileLBA e, filesize = fileSize e, position = 0\<rparr>])"
proof -
  have cs: "cs \<noteq> []" "component (last cs)" using pa by (auto simp: path_ok_def)
  obtain xs where xs: "CHR 0x5C # join (CHR 0x5C) cs = xs @ CHR 0x5C # last cs" using join_last [OF cs(1)] by blast
  have r: "strrchr (CHR 0x5C # join (CHR 0x5C) cs) (CHR 0x5C) = Some (length xs)"
    unfolding xs by (rule strrchr_last) (use cs(2) in \<open>simp add: component_def plain_name_def\<close>)
  have "drop (length xs) (join (CHR 0x5C) cs) = drop (Suc (length xs)) (xs @ CHR 0x5C # last cs)" unfolding xs [symmetric] by simp
  then have nm: "drop (length xs) (join (CHR 0x5C) cs) = last cs" by simp
  obtain st' where F: "findfile lz4 fuel (CHR 0x5C # join (CHR 0x5C) cs) 0 st =
      (case resolve_path st contents cs of
         None \<Rightarrow> Inr (None, st')
       | Some e \<Rightarrow> if 16 \<le> length (last cs) then Inl OutOfBounds
           else Inr (Some \<lparr>cd_lsn = fileLBA e, cd_size = fileSize e, cd_name = last cs\<rparr>, st'))"
    "provides lz4 st' nblocks sector" "same_files st st'"
    using findfile_located [OF mt pa _ fuel] unfolding r nm option.case by blast
  have fd: "fd (MountPoint st) \<noteq> None" using mt by (auto simp: mounted_tree_def provides_def split: option.splits)
  have b: "buffers_ok st'" "MountPoint st' = MountPoint st" using F(3) mt by (auto simp: same_files_def mounted_tree_def)
  show ?thesis
  proof (cases "resolve_path st contents cs")
    case None
    then show ?thesis using F b fd slot f by (intro exI [of _ st']) (auto simp: IsofsOpen_def)
  next
    case (Some e)
    then show ?thesis using F b fd slot f
      by (intro exI [of _ "set_handle i \<lparr>owner = Some (file_ptr f), fh_lsn = fileLBA e, filesize = fileSize e, position = 0\<rparr> st'"])
        (auto simp: IsofsOpen_def buffers_ok_def)
  qed
qed

lemma open_slash:
  assumes mt: "mounted_tree lz4 st nblocks sector contents" and pa: "path_ok (CHR ''/'') cs"
    and f: "unit_no f = 0" and slot: "getfilefreeslot (cdvdman_fdhandles (MountPoint st)) = Some i" and fuel: "2016 < fuel"
  shows "\<exists>st'. provides lz4 st' nblocks sector \<and> buffers_ok st'
    \<and> (case resolve_path st contents cs of
         None \<Rightarrow> IsofsOpen lz4 fuel f (CHR ''/'' # join (CHR ''/'') cs) st = Inr (- ENOENT, f, st') \<and> MountPoint st' = MountPoint st
       | Some e \<Rightarrow> IsofsOpen lz4 fuel f (CHR ''/'' # join (CHR ''/'') cs) st = Inl NullPointer)"
proof -
  have "set (join sep xs) \<subseteq> insert sep (\<Union> (set ` set xs))" for sep xs
    by (induction sep xs rule: join.induct) auto
  then have "CHR 0x5C \<notin> set (CHR ''/'' # join (CHR ''/'') cs)"
    using pa by (fastforce simp: path_ok_def component_def plain_name_def)
  then have r: "strrchr (CHR ''/'' # join (CHR ''/'') cs) (CHR 0x5C) = None"
    by (simp add: strrchr_def strchr_None_iff)
  obtain st' where F: "findfile lz4 fuel (CHR ''/'' # join (CHR ''/'') cs) 0 st =
      (case resolve_path st contents cs of None \<Rightarrow> Inr (None, st') | Some e \<Rightarrow> Inl NullPointer)"
    "provides lz4 st' nblocks sector" "same_files st st'"
    using findfile_located [OF mt pa _ fuel] unfolding r option.case by blast
  moreover have "fd (MountPoint st) \<noteq> None" using mt by (auto simp: mounted_tree_def provides_def split: option.splits)
  moreover have "buffers_ok st'" "MountPoint st' = MountPoint st" using F(3) mt by (auto simp: same_files_def mounted_tree_def)
  ultimately show ?thesis using slot f by (intro exI [of _ st']) (auto simp: IsofsOpen_def split: option.splits)
qed

text \<open>
  C13. Opening a file of a mounted image by its path asks what the tree of directories says, whatever
  the image (plain or compressed), and every loop ends: a path that leads to no entry gives \<open>-ENOENT\<close> and changes no
  handle.  Of an entry that exists, a path with backslashes gives the first free handle the block and size, the last name being looked up
  with its version number, as long as that name has at most 15 characters (a longer one is copied over its array); a path with slashes makes the
  code read through a null pointer, since the name is taken from behind the last backslash.
\<close>
theorem isofs_open_resolves:
  assumes mt: "mounted_tree lz4 st nblocks sector contents" and sep: "sep = CHR 0x5C \<or> sep = CHR ''/''" and pa: "path_ok sep cs"
    and f: "unit_no f = 0" and slot: "getfilefreeslot (cdvdman_fdhandles (MountPoint st)) = Some i" and fuel: "2016 < fuel"
  shows "\<exists>st'. provides lz4 st' nblocks sector \<and> buffers_ok st'
    \<and> (case resolve_path st contents cs of
         None \<Rightarrow> IsofsOpen lz4 fuel f (sep # join sep cs) st = Inr (- ENOENT, f, st') \<and> MountPoint st' = MountPoint st
       | Some e \<Rightarrow>
           if sep = CHR ''/'' then IsofsOpen lz4 fuel f (sep # join sep cs) st = Inl NullPointer
           else if 16 \<le> length (last cs) then IsofsOpen lz4 fuel f (sep # join sep cs) st = Inl OutOfBounds
           else IsofsOpen lz4 fuel f (sep # join sep cs) st
             = Inr (0, f\<lparr>privdata := Some i, mode := (if mode f = 0 then 1 else mode f)\<rparr>, st')
           \<and> cdvdman_fdhandles (MountPoint st') = (cdvdman_fdhandles (MountPoint st))
               [i := \<lparr>owner = Some (file_ptr f), fh_lsn = fileLBA e, filesize = fileSize e, position = 0\<rparr>])"
proof (cases "sep = CHR ''/''")
  case True
  then show ?thesis using open_slash [OF mt pa [unfolded True] f slot fuel] by (cases "resolve_path st contents cs") simp_all
next
  case False
  with sep have s: "sep = CHR 0x5C" by simp
  have n: "(CHR 0x5C = CHR ''/'') = False" by simp
  show ?thesis unfolding s n if_False by (rule open_backslash [OF mt pa [unfolded s] f slot fuel])
qed



subsection \<open>Mounting\<close>

definition is_zso :: "image_file \<Rightarrow> bool" where
  "is_zso m = (32 \<le> snd m \<and> u32_at (bytes_at (fst m) 0 32) 0 = ZSO_MAGIC)"

text \<open>The file holds these sectors, as they are or compressed.\<close>

definition image_holds :: "(u8 list \<Rightarrow> u8 list) \<Rightarrow> image_file \<Rightarrow> nat \<Rightarrow> (nat \<Rightarrow> u8 list) \<Rightarrow> bool" where
  "image_holds lz4 m nblocks sector =
     ((\<forall>i<nblocks. length (sector i) = 2048) \<and>
      (if is_zso m
       then let h = header_at (bytes_at (fst m) 0 32)
            in stores lz4 (fst m) (align h) nblocks sector \<and> nblocks = unat (total_bytes h) div 2048 \<and> nblocks \<le> 2 ^ 30 - 6
       else nblocks * 2048 \<le> snd m \<and> (\<forall>i<nblocks. bytes_at (fst m) (i * 2048) 2048 = sector i)))"

definition volume_descriptor :: "u8 list \<Rightarrow> bool" where
  "volume_descriptor b = (b ! 0 = 1 \<and> take 5 (drop 1 b) = map of_char ''CD001'')"

text \<open>The buffers of \<open>zso.c\<close>: allocated before, or by this mount.\<close>

definition ziso_buffers :: "u8 list \<Rightarrow> isofs \<Rightarrow> bool" where
  "ziso_buffers mem st = (length (ziso_tmp_buf (ziso_state st)) = 2048 \<or> (ziso_tmp_buf (ziso_state st) = [] \<and> length mem = 2048))"

lemma provides_cong:
  "fd (MountPoint st) = fd (MountPoint st') \<Longrightarrow> cdEmuRead st = cdEmuRead st' \<Longrightarrow> ziso_state st = ziso_state st'
   \<Longrightarrow> provides lz4 st nblocks sector = provides lz4 st' nblocks sector"
  by (simp only: provides_def)

lemma set_fd_simps [simp]:
  "fd (MountPoint (set_fd m st)) = m" "cdEmuRead (set_fd m st) = cdEmuRead st" "ziso_state (set_fd m st) = ziso_state st"
  "cdvdman_buf (set_fd m st) = cdvdman_buf st" "cdvdman_fs_buf (set_fd m st) = cdvdman_fs_buf st"
  "cdvdman_fdhandles (MountPoint (set_fd m st)) = cdvdman_fdhandles (MountPoint st)"
  "layer_info0 (MountPoint (set_fd m st)) = layer_info0 (MountPoint st)"
  by (simp_all add: set_fd_def)

lemma probe_provides:
  assumes "image_holds lz4 m nblocks sector" "ziso_buffers mem st"
  shows "provides lz4 (ProbeZISO mem idx m (set_fd (Some m) st)) nblocks sector"
proof (cases "is_zso m")
  case True
  then have r: "read_file m 0 32 = bytes_at (fst m) 0 32" by (simp add: read_file_def is_zso_def)
  let ?h = "header_at (bytes_at (fst m) 0 32)"
  have h: "stores lz4 (fst m) (align ?h) nblocks sector" "nblocks = unat (total_bytes ?h) div 2048" "nblocks \<le> 2 ^ 30 - 6"
    using assms(1) unfolding image_holds_def Let_def if_P [OF True] by blast+
  let ?z = "ziso_init ?h mem idx (ziso_state st)"
  have "unat (total_bytes ?h) < 2 ^ 43" using h(2,3) by simp
  then have i: "ziso_total_block ?z = nblocks" "ziso_idx_start_block ?z = None" "ziso_align ?z = align ?h"
    "length (ziso_tmp_buf ?z) = 2048"
    using ziso_init_total assms(2) h(2) by (auto simp: ziso_buffers_def ziso_init_def Let_def)
  have "ProbeZISO mem idx m (set_fd (Some m) st) = (set_fd (Some m) st)\<lparr>ziso_state := ?z, cdEmuRead := cdEmuReadCompressed\<rparr>"
    using True r by (simp add: ProbeZISO_def is_zso_def)
  moreover have "\<forall>i<nblocks. length (sector i) = 2048" using assms(1) by (simp add: image_holds_def)
  ultimately show ?thesis using h(1,3) i by (simp add: provides_def index_ok_def)
next
  case False
  have "min 32 (snd m) = 32 \<longleftrightarrow> 32 \<le> snd m" by auto
  then have "ProbeZISO mem idx m (set_fd (Some m) st) = (set_fd (Some m) st)\<lparr>cdEmuRead := cdEmuReadRaw\<rparr>"
    using False by (auto simp: ProbeZISO_def is_zso_def read_file_def Let_def)
  then show ?thesis using assms(1) False by (simp add: provides_def image_holds_def)
qed

text \<open>
  Mounting an image file, plain or compressed, with a volume descriptor in sector 16 succeeds:
  the sectors of the image are then what the driver reads, the root directory is the one of the
  descriptor, and all handles are closed.  A second mount is refused until the image is unmounted.
\<close>
theorem isofs_mount:
  assumes "image_holds lz4 m nblocks sector" "16 < nblocks" "volume_descriptor (sector 16)"
    and "fd (MountPoint st) = None" "buffers_ok st" "ziso_buffers mem st"
  shows "\<exists>st'. IsofsMount lz4 mem idx (Inr m) st = Inr (0, st') \<and> provides lz4 st' nblocks sector \<and> buffers_ok st'
    \<and> layer_info0 (MountPoint st') = \<lparr>maxLBA = u32_at (sector 16) 0x50, rootDirtocLBA = fileLBA (entry_at (sector 16) 0x9c),
        rootDirtocLength = fileSize (entry_at (sector 16) 0x9c)\<rparr>
    \<and> cdvdman_fdhandles (MountPoint st') = replicate MAX_FDHANDLES closed_handle
    \<and> IsofsMount lz4 mem idx dev st' = Inr (- EBUSY, st') \<and> fd (MountPoint (snd (IsofsUmount st'))) = None"
proof -
  let ?st = "st\<lparr>MountPoint := \<lparr>fd = None, layer_info0 = no_layer, layer_info1 = no_layer,
                          cdvdman_fdhandles = replicate MAX_FDHANDLES closed_handle\<rparr>\<rparr>"
  let ?p = "ProbeZISO mem idx m (set_fd (Some m) ?st)"
  have "ziso_buffers mem ?st" using assms(6) by (simp add: ziso_buffers_def)
  from probe_provides [OF assms(1) this, of idx] have p: "provides lz4 ?p nblocks sector" .
  have b: "cdvdman_buf ?p = cdvdman_buf st" "cdvdman_fs_buf ?p = cdvdman_fs_buf st" "MountPoint ?p = MountPoint (set_fd (Some m) ?st)"
    by (simp_all add: ProbeZISO_def Let_def)
  have sec: "length (sector 16) = 2048" using assms(1,2) by (simp add: image_holds_def)
  obtain z where z: "sector_read lz4 ?p 16 1 (cdvdman_buf st) = Inr (0, sector 16, ?p\<lparr>ziso_state := z\<rparr>)"
    "provides lz4 (?p\<lparr>ziso_state := z\<rparr>) nblocks sector"
    using sector_read_ok [OF p, of 16 1 "cdvdman_buf st"] assms(2,5) plain_sector [of sector 16, OF sec]
    by (auto simp: buffers_ok_def)
  let ?li = "\<lparr>maxLBA = u32_at (sector 16) 0x50, rootDirtocLBA = fileLBA (entry_at (sector 16) 0x9c),
        rootDirtocLength = fileSize (entry_at (sector 16) 0x9c)\<rparr>"
  let ?q = "?p\<lparr>ziso_state := z, cdvdman_buf := sector 16\<rparr>"
  let ?st' = "set_fd (Some m) ((set_fd None ?q)\<lparr>MountPoint := (MountPoint (set_fd None ?q))\<lparr>layer_info0 := ?li\<rparr>\<rparr>)"
  have "ProbeISO9660 lz4 mem idx m 16 ?st = Inr (0, Some ?li, set_fd None ?q)"
    using z(1) assms(3) by (simp add: ProbeISO9660_def volume_descriptor_def set_fd_def)
  then have "IsofsMount lz4 mem idx (Inr m) st = Inr (0, ?st')" using assms(4) by (simp add: IsofsMount_def Let_def)
  moreover have "provides lz4 ?st' nblocks sector"
    using z(2) by (rule provides_cong [THEN iffD1, rotated 3]) (simp_all add: b(3))
  moreover have "buffers_ok ?st'" using b assms(5) sec by (simp add: buffers_ok_def)
  ultimately show ?thesis using b(3) by (intro exI [of _ ?st']) (simp add: IsofsMount_def IsofsUmount_def)
qed

subsection \<open>A concrete image\<close>

definition demo_dir :: "u8 list" where
  "demo_dir = [40, 0, 19, 0, 0, 0, 0, 0, 0, 19, 0xB8, 0x0B, 0, 0, 0, 0, 0x0B, 0xB8, 0, 0, 0, 0, 0, 0, 0, 0,
     0, 0, 0, 0, 0, 0, 5, 65, 46, 66, 59, 49, 0, 0] @ replicate 2008 0"

definition demo_volume :: "u8 list" where
  "demo_volume = [1, 67, 68, 48, 48, 49] @ replicate 74 0 @ [32] @ replicate 75 0
     @ [34, 0, 18, 0, 0, 0, 0, 0, 0, 18, 0, 8, 0, 0] @ replicate 1878 0"

definition demo_sector :: "nat \<Rightarrow> u8 list" where
  "demo_sector i = (if i = 16 then demo_volume else if i = 18 then demo_dir
     else if i = 20 then 40 # replicate 2047 0 else replicate 2048 (of_nat i))"

definition demo_file :: dirTocEntry where "demo_file = \<lparr>fileLBA = 19, fileSize = 3000, fileProperties = 0\<rparr>"

definition demo_contents :: "nat \<Rightarrow> nat \<Rightarrow> entry list" where
  "demo_contents lba sz = [(''A.B;1'', demo_file)]"

definition demo_mount :: isofs where
  "demo_mount = \<lparr>MountPoint = \<lparr>fd = Some (plain demo_sector, 65536), layer_info0 = \<lparr>maxLBA = 32, rootDirtocLBA = 18, rootDirtocLength = 2048\<rparr>,
       layer_info1 = no_layer, cdvdman_fdhandles = replicate MAX_FDHANDLES closed_handle\<rparr>,
     cdEmuRead = cdEmuReadRaw, ziso_state = sample_state, cdvdman_buf = replicate 2048 0, cdvdman_fs_buf = replicate 2048 0\<rparr>"

lemma demo_sector_length: "length (demo_sector i) = 2048"
  by (simp add: demo_sector_def demo_dir_def demo_volume_def)

lemma demo_provides: "provides lz4 demo_mount 32 demo_sector" "buffers_ok demo_mount"
  by (simp_all add: provides_def buffers_ok_def demo_mount_def demo_sector_length plain_sector)

lemma demo_block: "block_lists demo_dir 0 [(''A.B;1'', demo_file)]"
  by (simp add: demo_dir_def name_in_def NUL_def record_length_def entry_at_def demo_file_def u32_at_def le32_def nth_append of_char_def)

lemma demo_tree: "mounted_tree lz4 demo_mount 32 demo_sector demo_contents"
proof -
  have "dir_lists 32 demo_sector 18 2048 (demo_contents 18 2048)"
    unfolding dir_lists_def demo_contents_def
    by (intro exI [of _ "[[(''A.B;1'', demo_file)]]"]) (use demo_block in \<open>simp add: demo_sector_def\<close>)
  then have "tree_on_disc 32 demo_sector demo_contents {(18, 2048)}"
    by (simp add: tree_on_disc_def demo_contents_def is_dir_def demo_file_def)
  then show ?thesis using demo_provides by (auto simp: mounted_tree_def demo_mount_def)
qed

lemma four_handles: "replicate MAX_FDHANDLES x = [x, x, x, x]"
  by (simp add: MAX_FDHANDLES_def eval_nat_numeral)

lemma demo_slot: "getfilefreeslot (cdvdman_fdhandles (MountPoint demo_mount)) = Some 0"
  by (simp add: demo_mount_def four_handles closed_handle_def)

lemma demo_resolve: "resolve_path demo_mount demo_contents [''A.B'']= Some demo_file"
  by (simp add: demo_contents_def correct_filename_def dirname_size_def Let_def)

theorem isofs_open_resolves_witness:
  "\<exists>st'. IsofsOpen id 2017 \<lparr>file_ptr = 7, unit_no = 0, mode = 0, privdata = None\<rparr> (CHR 0x5C # ''A.B'') demo_mount
    = Inr (0, \<lparr>file_ptr = 7, unit_no = 0, mode = 1, privdata = Some 0\<rparr>, st')
    \<and> cdvdman_fdhandles (MountPoint st') ! 0 = \<lparr>owner = Some 7, fh_lsn = 19, filesize = 3000, position = 0\<rparr>
    \<and> IsofsOpen id 2017 \<lparr>file_ptr = 7, unit_no = 0, mode = 0, privdata = None\<rparr> (CHR ''/'' # ''A.B'') demo_mount = Inl NullPointer"
proof -
  have p: "path_ok (CHR 0x5C) [''A.B'']" "path_ok (CHR ''/'') [''A.B'']" by (simp_all add: path_ok_def component_def plain_name_def NUL_def)
  note o = isofs_open_resolves [OF demo_tree _ _ _ demo_slot, of _ _ "\<lparr>file_ptr = 7, unit_no = 0, mode = 0, privdata = None\<rparr>" 2017 id]
  have "IsofsOpen id 2017 \<lparr>file_ptr = 7, unit_no = 0, mode = 0, privdata = None\<rparr> (CHR ''/'' # ''A.B'') demo_mount = Inl NullPointer"
    using o [OF _ p(2)] demo_resolve by auto
  then show ?thesis using o [OF _ p(1)] demo_resolve by (auto simp: demo_file_def demo_mount_def MAX_FDHANDLES_def)
qed



lemma demo_holds: "image_holds lz4 (plain demo_sector, 65536) 32 demo_sector"
proof -
  have "plain demo_sector k = 0" if "k < 2048" for k using that by (simp add: plain_def demo_sector_def)
  then have "u32_at (bytes_at (plain demo_sector) 0 32) 0 = 0"
    by (simp add: u32_at_def nth_bytes_at le32_def)
  then show ?thesis by (simp add: image_holds_def is_zso_def ZSO_MAGIC_def demo_sector_length plain_sector)
qed

theorem isofs_mount_witness:
  "\<exists>st'. IsofsMount id (replicate 2048 0) [] (Inr (plain demo_sector, 65536)) (set_fd None demo_mount) = Inr (0, st')
    \<and> rootDirtocLBA (layer_info0 (MountPoint st')) = 18"
proof -
  have v: "volume_descriptor (demo_sector 16)" "fileLBA (entry_at (demo_sector 16) 0x9c) = 18"
    by (simp_all add: volume_descriptor_def demo_sector_def demo_volume_def entry_at_def u32_at_def le32_def of_char_def nth_append)
  from isofs_mount [OF demo_holds _ v(1), of "set_fd None demo_mount" "replicate 2048 0" id "[]" "Inl 0"] show ?thesis
    using demo_provides(2) v(2) by (auto simp: ziso_buffers_def buffers_ok_def demo_mount_def sample_state_simps)
qed

end
