(* ===== verification/Atlas.thy ===== *)
theory Atlas
  imports Prelude
begin

text \<open>
  The texture atlas of \<open>src/src/atlas.c\<close>: rectangles of one texture are handed out by splitting
  free ones (a binary tree), and pictures (glyphs) are copied into them.  The allocator and
  \<open>gsKit_texture_size\<close> are not modelled: \<open>atlasNew\<close> gets the zeroed texture memory.
\<close>

text \<open>\<open>Nil\<close> is the null pointer; the arguments of \<open>Alloc\<close> are \<open>x\<close>, \<open>y\<close>, \<open>w\<close>, \<open>h\<close>, \<open>leaf1\<close>, \<open>leaf2\<close>.\<close>

datatype atlas_allocation = Nil | Alloc nat nat nat nat atlas_allocation atlas_allocation

definition allocNew :: "nat \<Rightarrow> nat \<Rightarrow> nat \<Rightarrow> nat \<Rightarrow> atlas_allocation" where
  "allocNew x y width height = Alloc x y width height Nil Nil"

text \<open>The result is the position of the node found, and the tree with that node split.\<close>

fun allocPlace :: "atlas_allocation \<Rightarrow> nat \<Rightarrow> nat \<Rightarrow> ub + (nat \<times> nat) option \<times> atlas_allocation" where
  "allocPlace Nil width height = Inl NullPointer"
| "allocPlace (Alloc x y w h leaf1 leaf2) width height =
     (if \<not> (width \<le> w \<and> height \<le> h) then Inr (None, Alloc x y w h leaf1 leaf2)
      else if leaf1 = Nil \<and> leaf2 = Nil
      then let dx = w - width; dy = h - height
           in if dx < dy
              then Inr (Some (x, y), Alloc x y w h (allocNew (x + width) y dx height) (allocNew x (y + height) w dy))
              else Inr (Some (x, y), Alloc x y w h (allocNew x (y + height) width dy) (allocNew (x + width) y dx h))
      else bindR (allocPlace leaf1 width height) (\<lambda>(p, leaf1).
             if p \<noteq> None then Inr (p, Alloc x y w h leaf1 leaf2)
             else bindR (allocPlace leaf2 width height) (\<lambda>(p, leaf2). Inr (p, Alloc x y w h leaf1 leaf2))))"

datatype psm = GS_PSM_CT32 | GS_PSM_CT24 | GS_PSM_CT16 | GS_PSM_CT16S | GS_PSM_T8 | GS_PSM_OTHER

fun pixelSize :: "psm \<Rightarrow> nat" where
  "pixelSize GS_PSM_CT32 = 4"
| "pixelSize GS_PSM_CT24 = 4"
| "pixelSize GS_PSM_CT16 = 2"
| "pixelSize GS_PSM_CT16S = 2"
| "pixelSize GS_PSM_T8 = 1"
| "pixelSize GS_PSM_OTHER = 0"

record atlas =
  allocation :: atlas_allocation
  PSM :: psm
  Mem :: "u8 list"

definition atlasNew :: "nat \<Rightarrow> nat \<Rightarrow> psm \<Rightarrow> nat \<Rightarrow> atlas" where
  "atlasNew width height p txtsize = \<lparr>allocation = allocNew 0 0 width height, PSM = p, Mem = replicate txtsize 0\<rparr>"

fun alloc_w :: "atlas_allocation \<Rightarrow> nat" where
  "alloc_w Nil = 0"
| "alloc_w (Alloc x y w h leaf1 leaf2) = w"

text \<open>The rows that are left to copy, with the two byte offsets.\<close>

fun copy_rows :: "nat \<Rightarrow> nat \<Rightarrow> nat \<Rightarrow> nat \<Rightarrow> nat \<Rightarrow> u8 list \<Rightarrow> u8 list \<Rightarrow> ub + u8 list" where
  "copy_rows 0 stride rowsize data src surf mem = Inr mem"
| "copy_rows (Suc n) stride rowsize data src surf mem =
     (if length mem < data + rowsize \<or> length surf < src + rowsize then Inl OutOfBounds
      else copy_rows n stride rowsize (data + stride) (src + rowsize) surf
             (write_at mem data (take rowsize (drop src surf))))"

definition atlasCopyData :: "atlas \<Rightarrow> nat \<times> nat \<Rightarrow> nat \<Rightarrow> nat \<Rightarrow> u8 list \<Rightarrow> ub + atlas" where
  "atlasCopyData at al width height surf =
     (let ps = pixelSize (PSM at); W = alloc_w (allocation at)
      in if ps = 0 then Inr at
         else bindR (copy_rows height (ps * W) (width * ps) (ps * (snd al * W + fst al)) 0 surf (Mem at))
                (\<lambda>mem. Inr (at\<lparr>Mem := mem\<rparr>)))"

definition atlasPlace :: "atlas \<Rightarrow> nat \<Rightarrow> nat \<Rightarrow> u8 list option \<Rightarrow> ub + (nat \<times> nat) option \<times> atlas" where
  "atlasPlace at width height surf =
     (case surf of
        None \<Rightarrow> Inr (None, at)
      | Some s \<Rightarrow> bindR (allocPlace (allocation at) ((width + 1) mod 2 ^ 32) ((height + 1) mod 2 ^ 32)) (\<lambda>(p, tree).
          let at = at\<lparr>allocation := tree\<rparr>
          in case p of
               None \<Rightarrow> Inr (None, at)
             | Some al \<Rightarrow> bindR (atlasCopyData at al width height s) (\<lambda>at. Inr (Some al, at))))"

text \<open>A sequence of pictures.\<close>

fun place_all :: "(nat \<times> nat \<times> u8 list) list \<Rightarrow> atlas \<Rightarrow> ub + (nat \<times> nat) option list \<times> atlas" where
  "place_all [] at = Inr ([], at)"
| "place_all ((w, h, s) # ps) at =
     bindR (atlasPlace at w h (Some s)) (\<lambda>(p, at). bindR (place_all ps at) (\<lambda>(rs, at). Inr (p # rs, at)))"

subsection \<open>Regions\<close>

definition rect :: "nat \<Rightarrow> nat \<Rightarrow> nat \<Rightarrow> nat \<Rightarrow> (nat \<times> nat) set" where
  "rect x y w h = {x..<x + w} \<times> {y..<y + h}"

text \<open>The free points of a tree, and its free nodes.\<close>

fun free :: "atlas_allocation \<Rightarrow> (nat \<times> nat) set" where
  "free Nil = {}"
| "free (Alloc x y w h leaf1 leaf2) =
     (if leaf1 = Nil \<and> leaf2 = Nil then rect x y w h else free leaf1 \<union> free leaf2)"

fun free_sizes :: "atlas_allocation \<Rightarrow> (nat \<times> nat) list" where
  "free_sizes Nil = []"
| "free_sizes (Alloc x y w h leaf1 leaf2) =
     (if leaf1 = Nil \<and> leaf2 = Nil then [(w, h)] else free_sizes leaf1 @ free_sizes leaf2)"

text \<open>Both leaves or none; the leaves lie in the node and do not overlap.\<close>

fun inside :: "atlas_allocation \<Rightarrow> nat \<Rightarrow> nat \<Rightarrow> nat \<Rightarrow> nat \<Rightarrow> bool" where
  "inside Nil X Y W H = False"
| "inside (Alloc x y w h leaf1 leaf2) X Y W H = (X \<le> x \<and> Y \<le> y \<and> x + w \<le> X + W \<and> y + h \<le> Y + H)"

fun tree_ok :: "atlas_allocation \<Rightarrow> bool" where
  "tree_ok Nil = False"
| "tree_ok (Alloc x y w h leaf1 leaf2) =
     ((leaf1 = Nil \<and> leaf2 = Nil)
      \<or> (tree_ok leaf1 \<and> tree_ok leaf2 \<and> inside leaf1 x y w h \<and> inside leaf2 x y w h
         \<and> free leaf1 \<inter> free leaf2 = {}))"

lemma free_inside: "tree_ok t \<Longrightarrow> inside t X Y W H \<Longrightarrow> free t \<subseteq> rect X Y W H"
proof (induction t arbitrary: X Y W H)
  case (Alloc x y w h l1 l2)
  have "rect x y w h \<subseteq> rect X Y W H" using Alloc.prems(2) by (auto simp: rect_def)
  moreover have "free l1 \<subseteq> rect x y w h \<and> free l2 \<subseteq> rect x y w h" if "\<not> (l1 = Nil \<and> l2 = Nil)"
    using Alloc that by auto
  ultimately show ?case by auto
qed simp

lemma sizes_inside: "tree_ok t \<Longrightarrow> inside t X Y W H \<Longrightarrow> (a, b) \<in> set (free_sizes t) \<Longrightarrow> a \<le> W \<and> b \<le> H"
proof (induction t arbitrary: X Y W H)
  case (Alloc x y w h l1 l2)
  have "w \<le> W" "h \<le> H" using Alloc.prems(2) by auto
  moreover have "a \<le> w \<and> b \<le> h"
    using Alloc.IH(1) [of x y w h] Alloc.IH(2) [of x y w h] Alloc.prems by (auto split: if_splits)
  ultimately show ?case by simp
qed simp

text \<open>
  A request is granted exactly when a free node is large enough.  It gets free points only, which
  are then not free any more; the tree stays well formed and in its place.
\<close>

definition granted :: "atlas_allocation \<Rightarrow> nat \<Rightarrow> nat \<Rightarrow> (nat \<times> nat) option \<Rightarrow> atlas_allocation \<Rightarrow> bool" where
  "granted t a b p t' =
     (case p of
        None \<Rightarrow> t' = t \<and> (\<forall>(u, v) \<in> set (free_sizes t). \<not> (a \<le> u \<and> b \<le> v))
      | Some (x, y) \<Rightarrow> rect x y a b \<subseteq> free t \<and> free t' = free t - rect x y a b
          \<and> (\<exists>(u, v) \<in> set (free_sizes t). a \<le> u \<and> b \<le> v))"

lemma allocPlace_ok:
  "tree_ok t \<Longrightarrow> \<exists>p t'. allocPlace t a b = Inr (p, t') \<and> tree_ok t' \<and> alloc_w t' = alloc_w t
     \<and> (\<forall>X Y W H. inside t' X Y W H = inside t X Y W H) \<and> granted t a b p t'"
proof (induction t)
  case (Alloc x y w h l1 l2)
  show ?case
  proof (cases "a \<le> w \<and> b \<le> h")
    case False
    have "\<not> (a \<le> u \<and> b \<le> v)" if "(u, v) \<in> set (free_sizes (Alloc x y w h l1 l2))" for u v
      using sizes_inside [OF Alloc.prems, of x y w h] that False by force
    then have "granted (Alloc x y w h l1 l2) a b None (Alloc x y w h l1 l2)"
      by (auto simp: granted_def simp del: free_sizes.simps)
    then show ?thesis using False Alloc.prems by (intro exI [of _ None] exI [of _ "Alloc x y w h l1 l2"]) auto
  next
    case fits: True
    show ?thesis
    proof (cases "l1 = Nil \<and> l2 = Nil")
      case True
      then show ?thesis using fits by (auto simp: granted_def allocNew_def Let_def rect_def)
    next
      case False
      then have ok: "tree_ok l1" "tree_ok l2" "inside l1 x y w h" "inside l2 x y w h" "free l1 \<inter> free l2 = {}"
        using Alloc.prems by auto
      obtain p l1' where 1: "allocPlace l1 a b = Inr (p, l1')" "tree_ok l1'" "\<forall>X Y W H. inside l1' X Y W H = inside l1 X Y W H"
        and p: "granted l1 a b p l1'" using Alloc.IH(1) [OF ok(1)] by blast
      obtain q l2' where 2: "allocPlace l2 a b = Inr (q, l2')" "tree_ok l2'" "\<forall>X Y W H. inside l2' X Y W H = inside l2 X Y W H"
        and q: "granted l2 a b q l2'" using Alloc.IH(2) [OF ok(2)] by blast
      have nil: "l1' \<noteq> Nil" "l2' \<noteq> Nil" "l1 \<noteq> Nil" "l2 \<noteq> Nil" using 1(2) 2(2) ok by auto
      show ?thesis
      proof (cases p)
        case (Some xy)
        obtain X Y where [simp]: "xy = (X, Y)" by (cases xy)
        have f: "rect X Y a b \<subseteq> free l1" "free l1' = free l1 - rect X Y a b"
          "\<exists>(u, v) \<in> set (free_sizes l1). a \<le> u \<and> b \<le> v" using p Some by (auto simp: granted_def)
        have "granted (Alloc x y w h l1 l2) a b p (Alloc x y w h l1' l2)"
          using f ok(5) nil Some by (auto simp: granted_def)
        moreover have "tree_ok (Alloc x y w h l1' l2)" using 1 f ok nil by auto
        moreover have "allocPlace (Alloc x y w h l1 l2) a b = Inr (p, Alloc x y w h l1' l2)"
          using fits nil(3,4) 1(1) Some by simp
        ultimately show ?thesis by (intro exI [of _ p] exI [of _ "Alloc x y w h l1' l2"]) simp
      next
        case None
        have e: "l1' = l1" "\<forall>(u, v) \<in> set (free_sizes l1). \<not> (a \<le> u \<and> b \<le> v)"
          using p None by (auto simp: granted_def)
        have "granted (Alloc x y w h l1 l2) a b q (Alloc x y w h l1 l2') \<and> tree_ok (Alloc x y w h l1 l2')"
          using q e(2) ok nil 2 by (cases q) (auto simp: granted_def)
        moreover have "allocPlace (Alloc x y w h l1 l2) a b = Inr (q, Alloc x y w h l1 l2')"
          using fits nil(3,4) 1(1) 2(1) None e(1) by simp
        ultimately show ?thesis by (intro exI [of _ q] exI [of _ "Alloc x y w h l1 l2'"]) simp
      qed
    qed
  qed
qed simp

subsection \<open>Pixels\<close>

text \<open>The bytes of the picture of \<open>w\<close> by \<open>h\<close> pixels at \<open>(x, y)\<close>, row by row.\<close>

definition picture :: "atlas \<Rightarrow> nat \<Rightarrow> nat \<Rightarrow> nat \<Rightarrow> nat \<Rightarrow> u8 list" where
  "picture at x y w h =
     (let ps = pixelSize (PSM at)
      in concat (map (\<lambda>r. take (w * ps) (drop (ps * ((y + r) * alloc_w (allocation at) + x)) (Mem at))) [0..<h]))"

lemma write_at_other:
  assumes "i + length xs \<le> length buf" "j + n \<le> i \<or> i + length xs \<le> j"
  shows "take n (drop j (write_at buf i xs)) = take n (drop j buf)"
  using assms(2)
proof
  assume "j + n \<le> i"
  then show ?thesis using assms(1) by (simp add: write_at_def take_drop add.commute min_def) 
next
  assume "i + length xs \<le> j"
  then show ?thesis using assms(1) by (simp add: write_at_def)
qed

lemma copy_rows_ok:
  "\<lbrakk>rowsize \<le> stride; h = 0 \<or> data + (h - 1) * stride + rowsize \<le> length mem; src + h * rowsize \<le> length surf\<rbrakk>
   \<Longrightarrow> \<exists>mem'. copy_rows h stride rowsize data src surf mem = Inr mem' \<and> length mem' = length mem
     \<and> (\<forall>r<h. take rowsize (drop (data + r * stride) mem') = take rowsize (drop (src + r * rowsize) surf))
     \<and> (\<forall>j n. (\<forall>r<h. j + n \<le> data + r * stride \<or> data + r * stride + rowsize \<le> j)
          \<longrightarrow> take n (drop j mem') = take n (drop j mem))"
proof (induction h arbitrary: data src mem)
  case (Suc h)
  let ?row = "take rowsize (drop src surf)" and ?m = "write_at mem data (take rowsize (drop src surf))"
  have l: "length ?row = rowsize" "data + rowsize \<le> length mem" "src + rowsize \<le> length surf"
    using Suc.prems by auto
  have "h = 0 \<or> data + stride + (h - 1) * stride + rowsize \<le> length ?m"
    using Suc.prems(2) l by (cases h) auto
  then obtain mem' where m: "copy_rows h stride rowsize (data + stride) (src + rowsize) surf ?m = Inr mem'"
      "length mem' = length ?m"
      "\<forall>r<h. take rowsize (drop (data + stride + r * stride) mem') = take rowsize (drop (src + rowsize + r * rowsize) surf)"
      "\<forall>j n. (\<forall>r<h. j + n \<le> data + stride + r * stride \<or> data + stride + r * stride + rowsize \<le> j)
          \<longrightarrow> take n (drop j mem') = take n (drop j ?m)"
    using Suc.IH [of "data + stride" ?m "src + rowsize"] Suc.prems by auto
  have first: "take rowsize (drop data mem') = ?row"
  proof -
    have "\<forall>r<h. data + rowsize \<le> data + stride + r * stride" using Suc.prems(1) by (simp add: trans_le_add1)
    then have "take rowsize (drop data mem') = take rowsize (drop data ?m)" using m(4) by blast
    then show ?thesis using l by (simp add: drop_write_at)
  qed
  have "take rowsize (drop (data + r * stride) mem') = take rowsize (drop (src + r * rowsize) surf)" if "r < Suc h" for r
    using that first m(3) by (cases r) (auto simp: add.assoc)
  moreover have "take n (drop j mem') = take n (drop j mem)"
    if other: "\<forall>r<Suc h. j + n \<le> data + r * stride \<or> data + r * stride + rowsize \<le> j" for j n
  proof -
    have "\<forall>r<h. j + n \<le> data + stride + r * stride \<or> data + stride + r * stride + rowsize \<le> j"
      using other by (auto simp: add.assoc dest: spec [of _ "Suc _"])
    then have "take n (drop j mem') = take n (drop j ?m)" using m(4) by blast
    also have "\<dots> = take n (drop j mem)"
      using other [rule_format, of 0] l by (intro write_at_other) auto
    finally show ?thesis .
  qed
  ultimately show ?case using m(1,2) l by (intro exI [of _ mem']) auto
qed simp

definition atlas_ok :: "nat \<Rightarrow> nat \<Rightarrow> atlas \<Rightarrow> bool" where
  "atlas_ok W H at = (tree_ok (allocation at) \<and> inside (allocation at) 0 0 W H \<and> alloc_w (allocation at) = W
     \<and> pixelSize (PSM at) * (W * H) \<le> length (Mem at))"

text \<open>Two rectangles without a common point, the first of which is not empty, share no row of bytes.\<close>

lemma rows_apart:
  fixes W :: nat
  assumes apart: "rect x y (w + 1) (h + 1) \<inter> rect x' y' w' h' = {}" and "0 < w'" "r < h" "r' < h'"
    and "x + w + 1 \<le> W" "x' + w' \<le> W"
  shows "ps * ((y' + r') * W + x') + w' * ps \<le> ps * ((y + r) * W + x)
    \<or> ps * ((y + r) * W + x) + w * ps \<le> ps * ((y' + r') * W + x')"
proof -
  have "(y' + r') * W + x' + w' \<le> (y + r) * W + x \<or> (y + r) * W + x + w \<le> (y' + r') * W + x'"
  proof (cases "y + r" "y' + r'" rule: linorder_cases)
    case less
    then have "(y + r + 1) * W \<le> (y' + r') * W" by (intro mult_right_mono) auto
    then show ?thesis using assms(5) by simp
  next
    case greater
    then have "(y' + r' + 1) * W \<le> (y + r) * W" by (intro mult_right_mono) auto
    then show ?thesis using assms(6) by simp
  next
    case equal
    have "x + w + 1 \<le> x' \<or> x' + w' \<le> x"
    proof (rule ccontr)
      assume c: "\<not> ?thesis"
      have "(max x x', y + r) \<in> rect x y (w + 1) (h + 1)" using c assms(2-4) by (auto simp: rect_def)
      moreover have "(max x x', y + r) \<in> rect x' y' w' h'" unfolding equal using c assms(2-4) by (auto simp: rect_def)
      ultimately show False using apart by blast
    qed
    then show ?thesis unfolding equal by auto
  qed
  then have "ps * ((y' + r') * W + x' + w') \<le> ps * ((y + r) * W + x) \<or> ps * ((y + r) * W + x + w) \<le> ps * ((y' + r') * W + x')"
    by (auto intro: mult_le_mono2)
  then show ?thesis by (simp add: add_mult_distrib2 mult.commute)
qed

lemma concat_rows: "length s = n * k \<Longrightarrow> concat (map (\<lambda>r. take k (drop (r * k) s)) [0..<n]) = s"
proof (induction n arbitrary: s)
  case (Suc n)
  have "concat (map (\<lambda>r. take k (drop (r * k) (drop k s))) [0..<n]) = drop k s"
    by (rule Suc.IH) (use Suc.prems in simp)
  then have "concat (map (\<lambda>r. take k (drop (Suc r * k) s)) [0..<n]) = drop k s" by (simp add: add.commute)
  then show ?case by (simp add: upt_conv_Cons map_Suc_upt [symmetric] comp_def del: upt_Suc)
qed simp

lemma copy_ok:
  assumes ok: "atlas_ok W H at" and "length s = w * h * pixelSize (PSM at)"
    and al: "x + w + 1 \<le> W" "y + h + 1 \<le> H"
  shows "\<exists>at'. atlasCopyData at (x, y) w h s = Inr at' \<and> atlas_ok W H at' \<and> PSM at' = PSM at
    \<and> allocation at' = allocation at \<and> picture at' x y w h = s
    \<and> (\<forall>x' y' w' h'. x' + w' \<le> W \<and> rect x y (w + 1) (h + 1) \<inter> rect x' y' w' h' = {}
         \<longrightarrow> picture at' x' y' w' h' = picture at x' y' w' h')"
proof (cases "pixelSize (PSM at) = 0")
  case True
  then show ?thesis using assms by (intro exI [of _ at]) (simp add: atlasCopyData_def picture_def)
next
  case False
  define ps where "ps = pixelSize (PSM at)"
  have W: "alloc_w (allocation at) = W" "ps * (W * H) \<le> length (Mem at)" using ok by (simp_all add: atlas_ok_def ps_def)
  let ?d = "ps * (y * W + x)"
  have d: "?d + r * (ps * W) = ps * ((y + r) * W + x)" for r by (simp add: algebra_simps)
  have "?d + (h - 1) * (ps * W) + w * ps \<le> length (Mem at)" if "h \<noteq> 0"
  proof -
    have "(y + (h - 1)) * W + x + w \<le> (y + (h - 1) + 1) * W" using al by simp
    also have "\<dots> \<le> H * W" using al(2) that by (intro mult_right_mono) auto
    finally have "ps * ((y + (h - 1)) * W + x + w) \<le> ps * (W * H)" by (simp add: mult.commute)
    then show ?thesis using W(2) d [of "h - 1"] by (simp add: algebra_simps)
  qed
  moreover have "w * ps \<le> ps * W" using al by (simp add: mult.commute)
  ultimately obtain mem' where m: "copy_rows h (ps * W) (w * ps) ?d 0 s (Mem at) = Inr mem'" "length mem' = length (Mem at)"
    "\<forall>r<h. take (w * ps) (drop (?d + r * (ps * W)) mem') = take (w * ps) (drop (r * (w * ps)) s)"
    "\<forall>j n. (\<forall>r<h. j + n \<le> ?d + r * (ps * W) \<or> ?d + r * (ps * W) + w * ps \<le> j) \<longrightarrow> take n (drop j mem') = take n (drop j (Mem at))"
    using copy_rows_ok [of "w * ps" "ps * W" h ?d "Mem at" 0 s] assms(2) by (auto simp: ps_def mult.commute mult.left_commute)
  let ?at = "at\<lparr>Mem := mem'\<rparr>"
  have pic: "picture a x' y' w' h' = concat (map (\<lambda>r. take (w' * ps) (drop (ps * ((y' + r) * W + x')) (Mem a))) [0..<h'])"
    if "a = at \<or> a = ?at" for a x' y' w' h'
    using that W(1) by (auto simp: picture_def ps_def Let_def)
  have "atlasCopyData at (x, y) w h s = Inr ?at"
    using False m(1) W(1) by (simp add: atlasCopyData_def ps_def)
  moreover have "picture ?at x y w h = s"
  proof -
    have "picture ?at x y w h = concat (map (\<lambda>r. take (w * ps) (drop (r * (w * ps)) s)) [0..<h])"
      unfolding pic [of ?at, simplified] using m(3) by (intro arg_cong [of _ _ concat] map_cong) (simp_all add: d)
    also have "\<dots> = s" using assms(2) by (intro concat_rows) (simp add: ps_def mult.commute mult.left_commute)
    finally show ?thesis .
  qed
  moreover have "picture ?at x' y' w' h' = picture at x' y' w' h'"
    if "x' + w' \<le> W" "rect x y (w + 1) (h + 1) \<inter> rect x' y' w' h' = {}" for x' y' w' h'
  proof (cases "w' = 0")
    case False
    have "take (w' * ps) (drop (ps * ((y' + r') * W + x')) mem') = take (w' * ps) (drop (ps * ((y' + r') * W + x')) (Mem at))"
      if "r' < h'" for r'
      using rows_apart [OF \<open>_ = {}\<close>, of _ r' W ps] False that \<open>x' + w' \<le> W\<close> al(1)
      by (intro m(4) [rule_format]) (auto simp: d)
    then show ?thesis unfolding pic [of at, simplified] pic [of ?at, simplified]
      by (intro arg_cong [of _ _ concat] map_cong) simp_all
  qed (simp add: picture_def)
  moreover have "atlas_ok W H ?at" using ok m(2) by (simp add: atlas_ok_def)
  ultimately show ?thesis by (intro exI [of _ ?at]) simp
qed

subsection \<open>Sequences of placements\<close>

lemma place_ok:
  assumes ok: "atlas_ok W H at" and "w < 2 ^ 31" "h < 2 ^ 31" and s: "length s = w * h * pixelSize (PSM at)"
  shows "\<exists>p at'. atlasPlace at w h (Some s) = Inr (p, at') \<and> atlas_ok W H at' \<and> PSM at' = PSM at
    \<and> granted (allocation at) (w + 1) (h + 1) p (allocation at')
    \<and> (case p of
         None \<Rightarrow> at' = at
       | Some (x, y) \<Rightarrow> x + w + 1 \<le> W \<and> y + h + 1 \<le> H \<and> picture at' x y w h = s
           \<and> (\<forall>x' y' w' h'. x' + w' \<le> W \<and> rect x y (w + 1) (h + 1) \<inter> rect x' y' w' h' = {}
                \<longrightarrow> picture at' x' y' w' h' = picture at x' y' w' h'))"
proof -
  obtain p t where t: "allocPlace (allocation at) (w + 1) (h + 1) = Inr (p, t)" "tree_ok t" "alloc_w t = W"
    "inside t 0 0 W H" "granted (allocation at) (w + 1) (h + 1) p t"
    using allocPlace_ok [of "allocation at" "w + 1" "h + 1"] ok by (auto simp: atlas_ok_def)
  have m: "(w + 1) mod 2 ^ 32 = w + 1" "(h + 1) mod 2 ^ 32 = h + 1" using assms(2,3) by simp_all
  let ?at = "at\<lparr>allocation := t\<rparr>"
  have ok': "atlas_ok W H ?at" using ok t by (simp add: atlas_ok_def)
  have pl: "atlasPlace at w h (Some s) = (case p of None \<Rightarrow> Inr (None, ?at)
      | Some al \<Rightarrow> bindR (atlasCopyData ?at al w h s) (\<lambda>at. Inr (Some al, at)))"
    unfolding atlasPlace_def option.case m t(1) bindR_simps by (simp add: Let_def)
  show ?thesis
  proof (cases p)
    case None
    then have "t = allocation at" using t(5) by (simp add: granted_def)
    then have "?at = at" by simp
    then show ?thesis using None pl ok t(5) \<open>t = _\<close> by (intro exI [of _ None] exI [of _ at]) simp
  next
    case (Some xy)
    obtain x y where xy: "xy = (x, y)" by (cases xy)
    have "rect x y (w + 1) (h + 1) \<subseteq> free (allocation at)" using t(5) Some xy by (simp add: granted_def)
    also have "\<dots> \<subseteq> rect 0 0 W H" using ok by (intro free_inside) (simp_all add: atlas_ok_def)
    finally have "rect x y (w + 1) (h + 1) \<subseteq> rect 0 0 W H" .
    moreover have "(x + w, y + h) \<in> rect x y (w + 1) (h + 1)" by (simp add: rect_def)
    ultimately have "(x + w, y + h) \<in> rect 0 0 W H" by blast
    then have al: "x + w + 1 \<le> W" "y + h + 1 \<le> H" by (auto simp: rect_def)
    have pics: "picture ?at x' y' w' h' = picture at x' y' w' h'" for x' y' w' h'
      using t(3) ok by (simp add: picture_def atlas_ok_def)
    from copy_ok [OF ok' _ al, of s] s obtain at' where "atlasCopyData ?at (x, y) w h s = Inr at'" "atlas_ok W H at'"
      "PSM at' = PSM at" "allocation at' = t" "picture at' x y w h = s"
      "\<forall>x' y' w' h'. x' + w' \<le> W \<and> rect x y (w + 1) (h + 1) \<inter> rect x' y' w' h' = {}
         \<longrightarrow> picture at' x' y' w' h' = picture at x' y' w' h'"
      by (auto simp: pics)
    then show ?thesis using pl Some xy t(5) al by (intro exI [of _ "Some (x, y)"] exI [of _ at']) simp
  qed
qed

text \<open>The rectangles given to a sequence of requests, margins included.\<close>

fun slot :: "nat \<times> nat \<times> u8 list \<Rightarrow> (nat \<times> nat) option \<Rightarrow> (nat \<times> nat) set" where
  "slot (w, h, s) None = {}"
| "slot (w, h, s) (Some (x, y)) = rect x y (w + 1) (h + 1)"

fun shown :: "atlas \<Rightarrow> nat \<times> nat \<times> u8 list \<Rightarrow> (nat \<times> nat) option \<Rightarrow> bool" where
  "shown at (w, h, s) None = True"
| "shown at (w, h, s) (Some (x, y)) = (picture at x y w h = s)"

definition request_ok :: "psm \<Rightarrow> nat \<times> nat \<times> u8 list \<Rightarrow> bool" where
  "request_ok p r = (case r of (w, h, s) \<Rightarrow> w < 2 ^ 31 \<and> h < 2 ^ 31 \<and> length s = w * h * pixelSize p)"

lemma place_all_ok:
  "\<lbrakk>atlas_ok W H at; \<forall>r \<in> set reqs. request_ok (PSM at) r\<rbrakk>
   \<Longrightarrow> \<exists>rs at'. place_all reqs at = Inr (rs, at') \<and> atlas_ok W H at' \<and> PSM at' = PSM at \<and> list_all2 (shown at') reqs rs
     \<and> sorted_wrt (\<lambda>A B. A \<inter> B = {}) (map2 slot reqs rs) \<and> (\<forall>A \<in> set (map2 slot reqs rs). A \<subseteq> free (allocation at))
     \<and> (\<forall>x y w h. x + w \<le> W \<and> free (allocation at) \<inter> rect x y w h = {} \<longrightarrow> picture at' x y w h = picture at x y w h)"
proof (induction reqs arbitrary: at)
  case Nil
  then show ?case by simp
next
  case (Cons r reqs)
  obtain w h s where r: "r = (w, h, s)" by (cases r)
  have rq: "w < 2 ^ 31" "h < 2 ^ 31" "length s = w * h * pixelSize (PSM at)" using Cons.prems(2) by (simp_all add: r request_ok_def)
  obtain p at1 where 1: "atlasPlace at w h (Some s) = Inr (p, at1)" "atlas_ok W H at1" "PSM at1 = PSM at"
    "granted (allocation at) (w + 1) (h + 1) p (allocation at1)"
    and c: "case p of None \<Rightarrow> at1 = at
       | Some (x, y) \<Rightarrow> x + w + 1 \<le> W \<and> y + h + 1 \<le> H \<and> picture at1 x y w h = s
           \<and> (\<forall>x' y' w' h'. x' + w' \<le> W \<and> rect x y (w + 1) (h + 1) \<inter> rect x' y' w' h' = {}
                \<longrightarrow> picture at1 x' y' w' h' = picture at x' y' w' h')"
    using place_ok [OF Cons.prems(1) rq] by blast
  obtain rs at' where 2: "place_all reqs at1 = Inr (rs, at') \<and> atlas_ok W H at' \<and> PSM at' = PSM at1" "list_all2 (shown at') reqs rs"
     "sorted_wrt (\<lambda>A B. A \<inter> B = {}) (map2 slot reqs rs)" "\<forall>A \<in> set (map2 slot reqs rs). A \<subseteq> free (allocation at1)"
     "\<forall>x y w h. x + w \<le> W \<and> free (allocation at1) \<inter> rect x y w h = {} \<longrightarrow> picture at' x y w h = picture at1 x y w h"
    using Cons.IH [OF 1(2)] Cons.prems(2) 1(3) by auto
  have fr: "slot r p \<subseteq> free (allocation at)" "free (allocation at1) = free (allocation at) - slot r p"
    using 1(4) by (auto simp: r granted_def split: option.splits)
  have "shown at' r p"
  proof (cases p)
    case (Some xy)
    obtain x y where xy: "xy = (x, y)" by (cases xy)
    have "free (allocation at1) \<inter> rect x y w h = {}"
      using fr(2) Some xy by (auto simp: r rect_def)
    then have "picture at' x y w h = picture at1 x y w h" using 2(5) c Some xy by simp
    then show ?thesis using c Some xy by (simp add: r)
  qed (simp add: r)
  moreover have "picture at' x' y' w' h' = picture at x' y' w' h'"
    if "x' + w' \<le> W" "free (allocation at) \<inter> rect x' y' w' h' = {}" for x' y' w' h'
  proof -
    have "free (allocation at1) \<inter> rect x' y' w' h' = {}" using that fr(2) by blast
    then have "picture at' x' y' w' h' = picture at1 x' y' w' h'" using 2(5) that(1) by blast
    also have "\<dots> = picture at x' y' w' h'"
    proof (cases p)
      case (Some xy)
      obtain x y where xy: "xy = (x, y)" by (cases xy)
      have "rect x y (w + 1) (h + 1) \<inter> rect x' y' w' h' = {}" using fr(1) that(2) Some xy by (auto simp: r)
      then show ?thesis using c Some xy that(1) by simp
    qed (use c in simp)
    finally show ?thesis .
  qed
  moreover have "\<forall>A \<in> set (map2 slot reqs rs). slot r p \<inter> A = {} \<and> A \<subseteq> free (allocation at)"
    using 2(4) fr(2) by blast
  ultimately show ?case using 1(1,3) 2 fr(1) by (intro exI [of _ "p # rs"] exI [of _ at']) (simp add: r)
qed

text \<open>
  C12. However many pictures are placed in a new atlas, nothing is read or written outside its memory
  and the pictures; every picture that got a place is found there at the end, unchanged by all later
  ones; the places, with their margin of a pixel, lie in the texture and do not overlap.  A picture
  is refused exactly when no free rectangle of the tree is large enough, and then nothing changes.
\<close>
theorem atlas_pictures:
  assumes "pixelSize p * (W * H) \<le> txtsize" "\<forall>r \<in> set (req # reqs). request_ok p r"
  shows "\<exists>rs at. place_all reqs (atlasNew W H p txtsize) = Inr (rs, at) \<and> list_all2 (shown at) reqs rs
    \<and> sorted_wrt (\<lambda>A B. A \<inter> B = {}) (map2 slot reqs rs) \<and> (\<forall>A \<in> set (map2 slot reqs rs). A \<subseteq> rect 0 0 W H)
    \<and> (case req of (w, h, s) \<Rightarrow>
         if \<exists>(u, v) \<in> set (free_sizes (allocation at)). w < u \<and> h < v
         then \<exists>xy at'. atlasPlace at w h (Some s) = Inr (Some xy, at')
         else atlasPlace at w h (Some s) = Inr (None, at))"
proof -
  let ?at0 = "atlasNew W H p txtsize"
  have new: "atlas_ok W H ?at0" "PSM ?at0 = p" "free (allocation ?at0) = rect 0 0 W H"
    using assms(1) by (simp_all add: atlas_ok_def atlasNew_def allocNew_def)
  from place_all_ok [OF new(1), of reqs] assms(2) obtain rs at where
    run: "place_all reqs ?at0 = Inr (rs, at)" "atlas_ok W H at" "PSM at = p" "list_all2 (shown at) reqs rs"
    "sorted_wrt (\<lambda>A B. A \<inter> B = {}) (map2 slot reqs rs)" "\<forall>A \<in> set (map2 slot reqs rs). A \<subseteq> rect 0 0 W H"
    by (auto simp: new)
  obtain w h s where r: "req = (w, h, s)" by (cases req)
  have rq: "w < 2 ^ 31" "h < 2 ^ 31" "length s = w * h * pixelSize (PSM at)"
    using assms(2) by (simp_all add: r request_ok_def run(3))
  from place_ok [OF run(2) rq] obtain q at' where q: "atlasPlace at w h (Some s) = Inr (q, at')"
    "granted (allocation at) (w + 1) (h + 1) q (allocation at')" "q = None \<Longrightarrow> at' = at"
    by (auto split: option.splits)
  have "if \<exists>(u, v) \<in> set (free_sizes (allocation at)). w < u \<and> h < v
         then \<exists>xy at'. atlasPlace at w h (Some s) = Inr (Some xy, at')
         else atlasPlace at w h (Some s) = Inr (None, at)"
    using q by (cases q) (auto simp: granted_def Suc_le_eq)
  then show ?thesis using run by (intro exI [of _ rs] exI [of _ at]) (simp add: r)
qed

theorem atlas_pictures_witness:
  "\<exists>rs at. place_all [(1, 1, [7]), (2, 1, [8, 9]), (9, 9, replicate 81 1)] (atlasNew 8 4 GS_PSM_T8 32) = Inr (rs, at)
    \<and> list_all2 (shown at) [(1, 1, [7]), (2, 1, [8, 9]), (9, 9, replicate 81 1)] rs"
proof -
  have "\<forall>r \<in> set ((0, 0, []) # [(1, 1, [7]), (2, 1, [8, 9]), (9, 9, replicate 81 1)]). request_ok GS_PSM_T8 r"
    by (simp add: request_ok_def)
  from atlas_pictures [of GS_PSM_T8 8 4 32, OF _ this] show ?thesis by auto
qed

end
