(* ===== verification/McSys.thy ===== *)
theory McSys
  imports Prelude
begin

text \<open>
  Helpers of the memory card emulation, \<open>src/modules/mcemu/mcemu_sys.c\<close> and the table of
  \<open>mcemu_var.c\<close>: export tables, and the two check sums of the card protocol.  The error correcting
  code is shown to locate a flipped bit.
\<close>

subsection \<open>Export tables\<close>

text \<open>An export table is an array of function pointers that ends with a null pointer.\<close>

definition GetExportTableSize :: "nat option list option \<Rightarrow> nat" where
  "GetExportTableSize table = (case table of None \<Rightarrow> 0 | Some t \<Rightarrow> length (takeWhile (\<lambda>e. e \<noteq> None) t))"

definition GetExportEntry :: "nat option list option \<Rightarrow> nat \<Rightarrow> nat option" where
  "GetExportEntry table entry =
     (case table of None \<Rightarrow> None | Some t \<Rightarrow> if entry < GetExportTableSize table then t ! entry else None)"

definition HookExportEntry :: "nat option list option \<Rightarrow> nat \<Rightarrow> nat \<Rightarrow> nat option \<times> nat option list option" where
  "HookExportEntry table entry func =
     (case table of
        None \<Rightarrow> (None, table)
      | Some t \<Rightarrow> if entry < GetExportTableSize table then (t ! entry, Some (t[entry := Some func])) else (None, table))"

subsection \<open>Check sums\<close>

definition GetInt :: "u8 list \<Rightarrow> u32" where
  "GetInt p = ucast (p ! 0) OR push_bit 8 (ucast (p ! 1)) OR push_bit 16 (ucast (p ! 2)) OR push_bit 24 (ucast (p ! 3))"

definition CalculateEDC :: "u8 list \<Rightarrow> u8" where
  "CalculateEDC buf = foldl (XOR) 0 buf"

definition xortable :: "u8 list" where
  "xortable = [0x00, 0x87, 0x96, 0x11, 0xA5, 0x22, 0x33, 0xB4, 0xB4, 0x33, 0x22, 0xA5, 0x11, 0x96, 0x87, 0x00,
     0xC3, 0x44, 0x55, 0xD2, 0x66, 0xE1, 0xF0, 0x77, 0x77, 0xF0, 0xE1, 0x66, 0xD2, 0x55, 0x44, 0xC3,
     0xD2, 0x55, 0x44, 0xC3, 0x77, 0xF0, 0xE1, 0x66, 0x66, 0xE1, 0xF0, 0x77, 0xC3, 0x44, 0x55, 0xD2,
     0x11, 0x96, 0x87, 0x00, 0xB4, 0x33, 0x22, 0xA5, 0xA5, 0x22, 0x33, 0xB4, 0x00, 0x87, 0x96, 0x11,
     0xE1, 0x66, 0x77, 0xF0, 0x44, 0xC3, 0xD2, 0x55, 0x55, 0xD2, 0xC3, 0x44, 0xF0, 0x77, 0x66, 0xE1,
     0x22, 0xA5, 0xB4, 0x33, 0x87, 0x00, 0x11, 0x96, 0x96, 0x11, 0x00, 0x87, 0x33, 0xB4, 0xA5, 0x22,
     0x33, 0xB4, 0xA5, 0x22, 0x96, 0x11, 0x00, 0x87, 0x87, 0x00, 0x11, 0x96, 0x22, 0xA5, 0xB4, 0x33,
     0xF0, 0x77, 0x66, 0xE1, 0x55, 0xD2, 0xC3, 0x44, 0x44, 0xC3, 0xD2, 0x55, 0xE1, 0x66, 0x77, 0xF0,
     0xF0, 0x77, 0x66, 0xE1, 0x55, 0xD2, 0xC3, 0x44, 0x44, 0xC3, 0xD2, 0x55, 0xE1, 0x66, 0x77, 0xF0,
     0x33, 0xB4, 0xA5, 0x22, 0x96, 0x11, 0x00, 0x87, 0x87, 0x00, 0x11, 0x96, 0x22, 0xA5, 0xB4, 0x33,
     0x22, 0xA5, 0xB4, 0x33, 0x87, 0x00, 0x11, 0x96, 0x96, 0x11, 0x00, 0x87, 0x33, 0xB4, 0xA5, 0x22,
     0xE1, 0x66, 0x77, 0xF0, 0x44, 0xC3, 0xD2, 0x55, 0x55, 0xD2, 0xC3, 0x44, 0xF0, 0x77, 0x66, 0xE1,
     0x11, 0x96, 0x87, 0x00, 0xB4, 0x33, 0x22, 0xA5, 0xA5, 0x22, 0x33, 0xB4, 0x00, 0x87, 0x96, 0x11,
     0xD2, 0x55, 0x44, 0xC3, 0x77, 0xF0, 0xE1, 0x66, 0x66, 0xE1, 0xF0, 0x77, 0xC3, 0x44, 0x55, 0xD2,
     0xC3, 0x44, 0x55, 0xD2, 0x66, 0xE1, 0xF0, 0x77, 0x77, 0xF0, 0xE1, 0x66, 0xD2, 0x55, 0x44, 0xC3,
     0x00, 0x87, 0x96, 0x11, 0xA5, 0x22, 0x33, 0xB4, 0xB4, 0x33, 0x22, 0xA5, 0x11, 0x96, 0x87, 0x00]"

text \<open>The loop: \<open>c1\<close>, \<open>c2\<close>, \<open>c3\<close> are \<open>int\<close>s.\<close>

fun ecc_loop :: "u8 list \<Rightarrow> u32 \<Rightarrow> u32 \<times> u32 \<times> u32 \<Rightarrow> u32 \<times> u32 \<times> u32" where
  "ecc_loop [] i c = c"
| "ecc_loop (p # ps) i (c1, c2, c3) =
     (let b = xortable ! unat p; c1 = c1 XOR ucast b
      in if b AND 0x80 \<noteq> 0 then ecc_loop ps (i + 1) (c1, c2 XOR NOT i, c3 XOR i)
         else ecc_loop ps (i + 1) (c1, c2, c3))"

definition CalculateECC :: "u8 list \<Rightarrow> u8 list" where
  "CalculateECC buf =
     (let (c1, c2, c3) = ecc_loop (take 0x80 buf) 0 (0, 0, 0)
      in [ucast (NOT c1) AND 0x77, ucast (NOT c2) AND 0x7F, ucast (NOT c3) AND 0x7F])"

lemma length_CalculateECC [simp]: "length (CalculateECC buf) = 3"
  by (simp add: CalculateECC_def split: prod.split)

subsection \<open>The error correcting code\<close>

text \<open>The table is linear: an entry is the sum of the entries of the bits of its index.\<close>

definition basis :: "nat \<Rightarrow> u8" where
  "basis k = [0x87, 0x96, 0xA5, 0xB4, 0xC3, 0xD2, 0xE1, 0xF0] ! k"

definition pick_bit :: "u8 \<Rightarrow> nat \<Rightarrow> u8" where
  "pick_bit b k = (if bit b k then basis k else 0)"

definition linear :: "u8 \<Rightarrow> u8" where
  "linear b = pick_bit b 0 XOR pick_bit b 1 XOR pick_bit b 2 XOR pick_bit b 3
     XOR pick_bit b 4 XOR pick_bit b 5 XOR pick_bit b 6 XOR pick_bit b 7"

lemma table_linear_all: "list_all (\<lambda>n. xortable ! n = linear (of_nat n)) [0..<256]"
  by code_simp

lemma table_linear: "xortable ! unat b = linear b"
proof -
  have "unat b < 256" using unsigned_less [where 'a = nat, of b] by simp
  then have "xortable ! unat b = linear (of_nat (unat b))" using table_linear_all by (simp add: list_all_iff del: upt_rec_numeral)
  then show ?thesis by simp
qed

lemma pick_bit_xor: "pick_bit (a XOR b) k = pick_bit a k XOR pick_bit b k"
  by (simp add: pick_bit_def bit_xor_iff)

lemma linear_xor: "linear (a XOR b) = linear a XOR linear b"
  unfolding linear_def pick_bit_xor by (simp only: xor.assoc xor.commute xor.left_commute)

lemma linear_basis: "k < 8 \<Longrightarrow> linear (2 ^ k) = basis k"
proof -
  have "list_all (\<lambda>k. linear (2 ^ k) = basis k) [0..<8]" by code_simp
  then show "k < 8 \<Longrightarrow> ?thesis" by (simp add: list_all_iff del: upt_rec_numeral)
qed

lemma top_bit: "(x :: u8) AND 0x80 \<noteq> 0 \<longleftrightarrow> bit x 7"
  using and_exp_eq_0_iff_not_bit [of x 7] by simp

lemma basis_top: "k < 8 \<Longrightarrow> bit (basis k) 7"
proof -
  have "list_all (\<lambda>k. basis k AND 0x80 \<noteq> 0) [0..<8]" by code_simp
  then show "k < 8 \<Longrightarrow> ?thesis" by (simp add: list_all_iff top_bit del: upt_rec_numeral)
qed

fun add3 :: "u32 \<times> u32 \<times> u32 \<Rightarrow> u32 \<times> u32 \<times> u32 \<Rightarrow> u32 \<times> u32 \<times> u32" where
  "add3 (a, b, c) (x, y, z) = (a XOR x, b XOR y, c XOR z)"

lemma add3_assoc: "add3 a (add3 b c) = add3 (add3 a b) c"
  by (cases a; cases b; cases c; simp add: xor.assoc)

lemma add3_ac: "add3 (add3 a b) c = add3 (add3 a c) b" "add3 (add3 a b) b = a"
  by (cases a; cases b; cases c; simp add: xor.assoc xor.commute xor.left_commute)+

text \<open>One byte adds its contribution to the sums.\<close>

definition byte_sum :: "u8 \<Rightarrow> u32 \<Rightarrow> u32 \<times> u32 \<times> u32" where
  "byte_sum p i = (ucast (linear p), if bit (linear p) 7 then NOT i else 0, if bit (linear p) 7 then i else 0)"

lemma ecc_loop_Cons: "ecc_loop (p # ps) i c = ecc_loop ps (i + 1) (add3 c (byte_sum p i))"
  by (cases c) (simp add: Let_def table_linear top_bit byte_sum_def)

lemma ecc_loop_add: "ecc_loop ps i (add3 c d) = add3 (ecc_loop ps i c) d"
proof (induction ps arbitrary: i c)
  case (Cons p ps)
  then show ?case unfolding ecc_loop_Cons add3_ac(1) [of c d] by simp
qed simp

lemma ucast_xor: "ucast (a XOR b :: u8) = (ucast a XOR ucast b :: u32)"
  by (rule bit_word_eqI) (auto simp: bit_simps)

lemma byte_sum_flip: "k < 8 \<Longrightarrow> byte_sum (p XOR 2 ^ k) i = add3 (byte_sum p i) (ucast (basis k), NOT i, i)"
  using basis_top by (simp add: byte_sum_def linear_xor linear_basis bit_xor_iff ucast_xor)

definition flip :: "u8 list \<Rightarrow> nat \<Rightarrow> nat \<Rightarrow> u8 list" where
  "flip buf j k = buf[j := buf ! j XOR 2 ^ k]"

lemma ecc_loop_flip:
  "j < length ps \<Longrightarrow> k < 8
   \<Longrightarrow> ecc_loop (flip ps j k) i c = add3 (ecc_loop ps i c) (ucast (basis k), NOT (i + of_nat j), i + of_nat j)"
proof (induction ps arbitrary: i j c)
  case (Cons p ps)
  show ?case
  proof (cases j)
    case 0
    have "ecc_loop (flip (p # ps) 0 k) i c = ecc_loop ps (i + 1) (add3 (add3 c (byte_sum p i)) (ucast (basis k), NOT i, i))"
      using Cons.prems(2) by (simp add: flip_def ecc_loop_Cons byte_sum_flip add3_assoc)
    then show ?thesis unfolding 0 by (simp add: ecc_loop_Cons ecc_loop_add)
  next
    case (Suc j')
    have "i + 1 + of_nat j' = i + of_nat j" using Suc by simp
    then show ?thesis using Cons.IH [of j' "i + 1" "add3 c (byte_sum p i)"] Cons.prems Suc
      by (simp add: flip_def ecc_loop_Cons add.assoc)
  qed
qed simp

lemma mask_xor: "ucast (NOT (a XOR b)) AND (m :: u8) = (ucast (NOT a) AND m) XOR (ucast b AND m)" for a b :: u32
  by (rule bit_word_eqI) (auto simp: bit_simps)

lemma xor_cancel: "(a XOR x = a XOR y) = (x = (y :: u8))"
  by (metis xor.assoc xor_self_eq xor.left_neutral)

lemma mask_xor_not:
  "ucast (a XOR of_nat j :: u32) AND (m :: u8) = (ucast (NOT a) AND m) XOR (NOT (of_nat j) AND m)"
  by (rule bit_word_eqI) (auto simp: bit_simps bit_of_nat_iff)

text \<open>
  The error correcting code of a 128-byte chunk locates every flipped bit: the code changes by the
  number of the byte, its complement, and a value that identifies the bit, so that no two flips give
  the same code.
\<close>
theorem ecc_locates_bit:
  assumes "length buf = 128" "j < 128" "k < 8"
  shows "CalculateECC (flip buf j k) = map2 (XOR) (CalculateECC buf) [basis k AND 0x77, NOT (of_nat j) AND 0x7F, of_nat j AND 0x7F]
    \<and> (\<forall>j' k'. j' < 128 \<and> k' < 8 \<and> CalculateECC (flip buf j k) = CalculateECC (flip buf j' k') \<longrightarrow> j' = j \<and> k' = k)"
proof -
  have e: "CalculateECC (flip buf j k) = map2 (XOR) (CalculateECC buf) [basis k AND 0x77, NOT (of_nat j) AND 0x7F, of_nat j AND 0x7F]"
    if "j < 128" "k < 8" for j k
  proof -
    obtain c1 c2 c3 where c: "ecc_loop buf 0 (0, 0, 0) = (c1, c2, c3)" by (cases "ecc_loop buf 0 (0, 0, 0)")
    have "ecc_loop (flip buf j k) 0 (0, 0, 0) = (c1 XOR ucast (basis k), c2 XOR NOT (of_nat j), c3 XOR of_nat j)"
      using ecc_loop_flip [of j buf k 0 "(0, 0, 0)"] that assms(1) c by simp
    moreover have "ucast (NOT (of_nat j) :: u32) = (NOT (of_nat j) :: u8)" "ucast (of_nat j :: u32) = (of_nat j :: u8)"
      by (rule bit_word_eqI, auto simp: bit_simps bit_of_nat_iff)+
    moreover have "ucast (ucast (basis k) :: u32) = (basis k :: u8)" by (rule bit_word_eqI) (auto simp: bit_simps)
    moreover have "length (flip buf j k) = 128" using assms(1) by (simp add: flip_def)
    ultimately show ?thesis using assms(1) c by (simp add: CalculateECC_def mask_xor mask_xor_not)
  qed
  have inj: "j' = j \<and> k' = k"
    if "j' < 128" "k' < 8" "CalculateECC (flip buf j k) = CalculateECC (flip buf j' k')" for j' k'
  proof -
    obtain a b c where abc: "CalculateECC buf = [a, b, c]"
      using length_CalculateECC [of buf] by (cases "CalculateECC buf" rule: remdups_adj.cases) (auto simp: length_Suc_conv eval_nat_numeral)
    have x: "basis k AND 0x77 = basis k' AND 0x77" "(of_nat j :: u8) AND 0x7F = of_nat j' AND 0x7F"
      using that(3) e [OF assms(2,3)] e [OF that(1,2)] by (simp_all add: abc xor_cancel)
    have "list_all (\<lambda>k. list_all (\<lambda>k'. basis k AND 0x77 = basis k' AND 0x77 \<longrightarrow> k = k') [0..<8]) [0..<8]" by code_simp
    then have "k = k'" using x(1) assms(3) that(2) by (auto simp: list_all_iff simp del: upt_rec_numeral)
    moreover have "(0x7F :: u8) = mask 7" by (simp add: mask_eq_exp_minus_1)
    then have "take_bit 7 (of_nat j :: u8) = take_bit 7 (of_nat j')" using x(2) by (simp add: take_bit_eq_mask)
    then have "(of_nat j :: u8) = of_nat j'" using assms(2) that(1) by (simp add: take_bit_of_nat take_bit_nat_eq_self)
    then have "unat (of_nat j :: u8) = unat (of_nat j' :: u8)" by simp
    then have "j = j'" using assms(2) that(1) by (simp add: unsigned_of_nat take_bit_nat_eq_self)
    ultimately show ?thesis by simp
  qed
  show ?thesis using e [OF assms(2,3)] inj by blast
qed

theorem ecc_locates_bit_witness:
  "CalculateECC (flip (replicate 128 0) 77 3) = [0x77 XOR 0x34, 0x7F XOR 50, 0x7F XOR 77]"
proof -
  have "CalculateECC (replicate 128 0) = [0x77, 0x7F, 0x7F]" by code_simp
  then show ?thesis using ecc_locates_bit [of "replicate 128 0" 77 3] by (simp add: basis_def)
qed

end
