(* ===== verification/McEmu.thy ===== *)
theory McEmu
  imports McSys
begin

text \<open>
  The emulated memory card of \<open>src/modules/mcemu\<close>: the cards and their command handler
  (\<open>mcemu.c\<close>, \<open>mcemu_io.c\<close>) above the page devices (\<open>device-bdm.c\<close>, \<open>device-hdd.c\<close>).  The two cards
  share one data buffer.  Hooking of other modules' functions, the DMA path of \<open>mc2_s1\<close> and the locking of the
  serial interface are not modelled.
\<close>

lemma write_at_again:
  "\<lbrakk>i + length ys \<le> length buf; length xs \<le> length ys\<rbrakk> \<Longrightarrow> write_at (write_at buf i xs) i ys = write_at buf i ys"
  by (cases "xs = []") (simp_all add: write_at_def min_def add.commute flip: length_greater_0_conv)

subsection \<open>State\<close>

record McSpec =
  PageSize :: nat
  BlockSize :: nat
  CardSize :: nat

text \<open>A descriptor; \<open>cbufp\<close> is row \<open>mcnum\<close> of \<open>mceccbuf\<close>, \<open>dbufp\<close> is \<open>mcdatabuf\<close>.\<close>

record MemoryCard =
  mcnum :: int
  rpage :: nat
  rdoff :: nat
  wpage :: nat
  wroff :: nat
  rcoff :: int
  wcoff :: int
  tcode :: u8
  cspec :: McSpec
  flags :: u32

record McImageSpec =
  active :: int
  vmc_flags :: u32
  vmc_cspec :: McSpec

record 'd mcemu =
  memcards :: "MemoryCard list"
  mcdatabuf :: "u8 list"
  mceccbuf :: "u8 list list"
  device :: 'd

text \<open>The page device: both functions return 0 on an error.\<close>

record 'd device_ops =
  DeviceWritePage :: "int \<Rightarrow> u8 list \<Rightarrow> nat \<Rightarrow> 'd \<Rightarrow> bool \<times> 'd"
  DeviceReadPage :: "int \<Rightarrow> u8 list \<Rightarrow> nat \<Rightarrow> 'd \<Rightarrow> bool \<times> u8 list \<times> 'd"

definition MCEMU_PORTS :: nat where "MCEMU_PORTS = 2"

abbreviation card :: "nat \<Rightarrow> 'd mcemu \<Rightarrow> MemoryCard" where
  "card i s \<equiv> memcards s ! i"

definition set_card :: "nat \<Rightarrow> (MemoryCard \<Rightarrow> MemoryCard) \<Rightarrow> 'd mcemu \<Rightarrow> 'd mcemu" where
  "set_card i g s = s\<lparr>memcards := (memcards s)[i := g (memcards s ! i)]\<rparr>"

definition configure_card :: "nat \<Rightarrow> McImageSpec \<Rightarrow> MemoryCard \<Rightarrow> MemoryCard" where
  "configure_card i v c =
     (if active v = 1
      then c\<lparr>mcnum := int i, tcode := 0x5A, flags := vmc_flags v, cspec := vmc_cspec v\<rparr>
      else c\<lparr>mcnum := - 1\<rparr>)"

definition mc_configure :: "McImageSpec list \<Rightarrow> 'd mcemu \<Rightarrow> bool \<times> 'd mcemu" where
  "mc_configure vmcSpec s =
     (if active (vmcSpec ! 0) = 0 \<and> active (vmcSpec ! 1) = 0 then (False, s)
      else (True, s\<lparr>memcards := map (\<lambda>i. configure_card i (vmcSpec ! i) (card i s)) [0..<MCEMU_PORTS]\<rparr>))"

subsection \<open>Pages\<close>

definition MceStartRead :: "nat \<Rightarrow> nat \<Rightarrow> 'd mcemu \<Rightarrow> 'd mcemu" where
  "MceStartRead i page s = set_card i (\<lambda>c. c\<lparr>rpage := page, rdoff := 0, rcoff := 0\<rparr>) s"

definition MceStartWrite :: "nat \<Rightarrow> nat \<Rightarrow> 'd mcemu \<Rightarrow> 'd mcemu" where
  "MceStartWrite i page s = set_card i (\<lambda>c. c\<lparr>wpage := page, wroff := 0, wcoff := 0\<rparr>) s"

fun erase_loop :: "'d device_ops \<Rightarrow> nat \<Rightarrow> nat \<Rightarrow> nat \<Rightarrow> 'd mcemu \<Rightarrow> bool \<times> 'd mcemu" where
  "erase_loop ops i 0 page s = (True, s)"
| "erase_loop ops i (Suc n) page s =
     (let (r, d) = DeviceWritePage ops (mcnum (card i s)) (mcdatabuf s) (page mod 2 ^ 32) (device s); s = s\<lparr>device := d\<rparr>
      in if \<not> r then (False, s) else erase_loop ops i n (page + 1) s)"

definition MceEraseBlock :: "'d device_ops \<Rightarrow> nat \<Rightarrow> nat \<Rightarrow> 'd mcemu \<Rightarrow> ub + bool \<times> 'd mcemu" where
  "MceEraseBlock ops i page s =
     (let r = (if flags (card i s) AND 0x10 \<noteq> 0 then 0 else 0xFF); sp = cspec (card i s)
      in if length (mcdatabuf s) < PageSize sp then Inl OutOfBounds
         else Inr (erase_loop ops i (BlockSize sp) page (s\<lparr>mcdatabuf := write_at (mcdatabuf s) 0 (replicate (PageSize sp) r)\<rparr>)))"

text \<open>\<open>do_read\<close> reads the page and computes its code, three bytes for 128.\<close>

definition page_ecc :: "nat \<Rightarrow> u8 list \<Rightarrow> u8 list" where
  "page_ecc n buf = concat (map (\<lambda>k. CalculateECC (drop (128 * k) buf)) [0..<(n + 127) div 128])"

definition do_read :: "'d device_ops \<Rightarrow> nat \<Rightarrow> 'd mcemu \<Rightarrow> ub + bool \<times> 'd mcemu" where
  "do_read ops i s =
     (let c = card i s; fill = (if flags c AND 0x10 \<noteq> 0 then 0xFF else 0); n = PageSize (cspec c);
          ecc = write_at (mceccbuf s ! i) 0 (replicate 0x10 fill);
          (r, buf, d) = DeviceReadPage ops (mcnum c) (mcdatabuf s) (rpage c) (device s);
          s = s\<lparr>mcdatabuf := buf, device := d, mceccbuf := (mceccbuf s)[i := ecc]\<rparr>
      in if \<not> r then Inr (False, s)
         else if length buf < n \<or> length ecc < length (page_ecc n buf) then Inl OutOfBounds
         else Inr (True, s\<lparr>mceccbuf := (mceccbuf s)[i := write_at ecc 0 (page_ecc n buf)]\<rparr>))"

text \<open>\<open>MceRead\<close>: \<open>out\<close> is what has been stored at \<open>buf\<close>.  A round of the loop has three parts.\<close>

definition read_ecc :: "nat \<Rightarrow> nat \<Rightarrow> 'd mcemu \<Rightarrow> nat \<times> u8 list \<times> 'd mcemu" where
  "read_ecc i sz s =
     (let c = card i s
      in if rcoff c \<noteq> 0 \<and> rdoff c = 0
         then let csize = (if sz < 16 then sz else 16)
              in (sz - csize, take csize (mceccbuf s ! i),
                  set_card i (\<lambda>c. c\<lparr>rcoff := (if 12 < csize then 0 else rcoff c - int csize)\<rparr>) s)
         else (sz, [], s))"

definition read_data :: "'d device_ops \<Rightarrow> nat \<Rightarrow> nat \<Rightarrow> 'd mcemu \<Rightarrow> ub + bool \<times> nat \<times> u8 list \<times> 'd mcemu" where
  "read_data ops i sz s =
     (let c = card i s; n = PageSize (cspec c)
      in if rdoff c < n
         then bindR (if rdoff c = 0 then do_read ops i s else Inr (True, s)) (\<lambda>(ok, s).
                if \<not> ok then Inr (False, sz, [], s)
                else let sz = (if n < sz + rdoff c then n - rdoff c else sz)
                     in Inr (True, sz, take sz (drop (rdoff c) (mcdatabuf s)),
                          set_card i (\<lambda>c. c\<lparr>rdoff := rdoff c + sz, rcoff := rcoff c + 3\<rparr>) s))
         else Inr (True, sz, [], s))"

fun read_loop :: "'d device_ops \<Rightarrow> nat \<Rightarrow> nat \<Rightarrow> nat \<Rightarrow> nat \<Rightarrow> u8 list \<Rightarrow> 'd mcemu \<Rightarrow> ub + bool \<times> u8 list \<times> 'd mcemu" where
  "read_loop ops 0 i tot_size sz out s = Inl Diverges"
| "read_loop ops (Suc fuel) i tot_size sz out s =
     (let (sz1, ecc, s1) = read_ecc i sz s; out1 = out @ ecc
      in if sz1 = 0 \<and> rcoff (card i s) \<noteq> 0 \<and> rdoff (card i s) = 0 then Inr (True, out1, s1)
         else bindR (read_data ops i sz1 s1) (\<lambda>(ok, sz2, bs, s2).
           let out2 = out1 @ bs; c = card i s2
           in if \<not> ok then Inr (False, out2, s2)
              else if rdoff c = PageSize (cspec c)
              then let sz3 = tot_size - sz2; s3 = set_card i (\<lambda>c. c\<lparr>rpage := rpage c + 1, rdoff := 0\<rparr>) s2
                   in if 0 < sz3 then read_loop ops fuel i tot_size sz3 out2 s3 else Inr (True, out2, s3)
              else Inr (True, out2, s2)))"

definition MceRead :: "'d device_ops \<Rightarrow> nat \<Rightarrow> nat \<Rightarrow> nat \<Rightarrow> 'd mcemu \<Rightarrow> ub + bool \<times> u8 list \<times> 'd mcemu" where
  "MceRead ops fuel i sz s = read_loop ops fuel i sz sz [] s"

text \<open>\<open>MceWrite\<close>: \<open>data\<close> is what is left at \<open>buf\<close>.\<close>

definition skip_ecc :: "nat \<Rightarrow> nat \<Rightarrow> u8 list \<Rightarrow> 'd mcemu \<Rightarrow> nat \<times> u8 list \<times> 'd mcemu" where
  "skip_ecc i sz data s =
     (let c = card i s
      in if wcoff c \<noteq> 0 \<and> wroff c = 0
         then let csize = (if sz < 16 then sz else 16)
              in (sz - csize, drop csize data,
                  set_card i (\<lambda>c. c\<lparr>wcoff := (if 12 < csize then 0 else wcoff c - int csize)\<rparr>) s)
         else (sz, data, s))"

definition write_data :: "nat \<Rightarrow> nat \<Rightarrow> u8 list \<Rightarrow> 'd mcemu \<Rightarrow> ub + nat \<times> 'd mcemu" where
  "write_data i sz data s =
     (let c = card i s; n = PageSize (cspec c)
      in if wroff c < n
         then let sz = (if n < sz + wroff c then n - wroff c else sz)
              in if length (mcdatabuf s) < wroff c + sz \<or> length data < sz then Inl OutOfBounds
                 else Inr (sz, set_card i (\<lambda>c. c\<lparr>wroff := wroff c + sz, wcoff := wcoff c + 3\<rparr>)
                        (s\<lparr>mcdatabuf := write_at (mcdatabuf s) (wroff c) (take sz data)\<rparr>))
         else Inr (sz, s))"

fun write_loop :: "'d device_ops \<Rightarrow> nat \<Rightarrow> nat \<Rightarrow> nat \<Rightarrow> nat \<Rightarrow> u8 list \<Rightarrow> 'd mcemu \<Rightarrow> ub + bool \<times> 'd mcemu" where
  "write_loop ops 0 i tot_size sz data s = Inl Diverges"
| "write_loop ops (Suc fuel) i tot_size sz data s =
     (let (sz1, data1, s1) = skip_ecc i sz data s
      in if sz1 = 0 \<and> wcoff (card i s) \<noteq> 0 \<and> wroff (card i s) = 0 then Inr (True, s1)
         else bindR (write_data i sz1 data1 s1) (\<lambda>(sz2, s2).
           let c = card i s2
           in if wroff c = PageSize (cspec c)
              then let sz3 = tot_size - sz2; s3 = set_card i (\<lambda>c. c\<lparr>wroff := 0\<rparr>) s2;
                       (r, d) = DeviceWritePage ops (mcnum c) (mcdatabuf s3) (wpage c) (device s3); s3 = s3\<lparr>device := d\<rparr>
                   in if \<not> r then Inr (False, s3)
                      else let s4 = set_card i (\<lambda>c. c\<lparr>wpage := wpage c + 1\<rparr>) s3
                           in if 0 < sz3 then write_loop ops fuel i tot_size sz3 (drop sz2 data1) s4 else Inr (True, s4)
              else Inr (True, s2)))"

definition MceWrite :: "'d device_ops \<Rightarrow> nat \<Rightarrow> nat \<Rightarrow> u8 list \<Rightarrow> nat \<Rightarrow> 'd mcemu \<Rightarrow> ub + bool \<times> 'd mcemu" where
  "MceWrite ops fuel i data sz s = write_loop ops fuel i sz sz data s"

subsection \<open>Commands\<close>

text \<open>A packet: the control words, the buffers and their sizes in words.\<close>

record Sio2Packet =
  iostatus :: u32
  ctrl :: "u32 list"
  wrmaddr :: "u8 list"
  wrwords :: nat
  wrcount :: nat
  rdmaddr :: "u8 list"
  rdwords :: nat
  pwr_buf :: "u8 list"

text \<open>A store of bytes into the read buffer.\<close>

definition store :: "u8 list \<Rightarrow> nat \<Rightarrow> u8 list \<Rightarrow> ub + u8 list" where
  "store buf i xs = (if length buf < i + length xs then Inl OutOfBounds else Inr (write_at buf i xs))"

definition SioResponse :: "MemoryCard \<Rightarrow> u8 list \<Rightarrow> nat \<Rightarrow> ub + u8 list" where
  "SioResponse mcd buf len =
     (if len < 2 then Inr buf else store buf 0 (replicate (len - 2) 0xFF @ [0x2B, tcode mcd]))"

text \<open>The bytes of a \<open>McSpec\<close>.\<close>

definition le_bytes :: "nat \<Rightarrow> nat \<Rightarrow> u8 list" where
  "le_bytes n v = map (\<lambda>k. of_nat (v div 256 ^ k)) [0..<n]"

definition spec_bytes :: "McSpec \<Rightarrow> u8 list" where
  "spec_bytes sp = le_bytes 2 (PageSize sp) @ le_bytes 2 (BlockSize sp) @ le_bytes 4 (CardSize sp)"

definition page_arg :: "u8 list \<Rightarrow> ub + nat" where
  "page_arg w = (if length w < 6 then Inl OutOfBounds else Inr (unat (GetInt (drop 2 w))))"

definition byte_at :: "u8 list \<Rightarrow> nat \<Rightarrow> ub + u8" where
  "byte_at w i = (if i < length w then Inr (w ! i) else Inl OutOfBounds)"

definition read_spec :: "MemoryCard \<Rightarrow> u8 list \<Rightarrow> ub + u8 list" where
  "read_spec c r =
     (let sp = spec_bytes (cspec c)
      in store r 0 ([0xFF, 0xFF, ucast (flags c AND 0xFF)] @ sp @ [CalculateEDC sp, tcode c]))"

text \<open>The reply to a read command, built step by step as the code does.\<close>

definition read_reply :: "'d device_ops \<Rightarrow> nat \<Rightarrow> nat \<Rightarrow> nat \<Rightarrow> bool \<Rightarrow> u8 list \<Rightarrow> 'd mcemu \<Rightarrow> ub + bool \<times> u8 list \<times> 'd mcemu" where
  "read_reply ops fuel i len result r s =
     bindR (SioResponse (card i s) r 5) (\<lambda>r.
       bindR (if result then MceRead ops fuel i len s else Inr (False, [], s)) (\<lambda>(ok, out, s).
         bindR (store r 4 out) (\<lambda>r.
           bindR (if ok then Inr r else store r 4 (replicate len 0xFF)) (\<lambda>r.
             if length r < 4 + len then Inl OutOfBounds
             else bindR (store r (len + 4) [CalculateEDC (take len (drop 4 r)), tcode (card i s)]) (\<lambda>r.
               Inr (ok, r, s))))))"

definition answer :: "bool \<Rightarrow> MemoryCard \<Rightarrow> u8 list \<Rightarrow> nat \<Rightarrow> 'd mcemu \<Rightarrow> ub + bool \<times> u8 list \<times> 'd mcemu" where
  "answer result c r len s = bindR (SioResponse c r len) (\<lambda>r. Inr (result, r, s))"

definition mc2_command :: "'d device_ops \<Rightarrow> nat \<Rightarrow> nat \<Rightarrow> nat \<Rightarrow> bool \<Rightarrow> u8 list \<Rightarrow> u8 list \<Rightarrow> 'd mcemu \<Rightarrow> ub + bool \<times> u8 list \<times> 'd mcemu" where
  "mc2_command ops fuel i len result w r s =
     bindR (byte_at w 1) (\<lambda>cmd. let c = card i s in
       if cmd = 0x12 then answer True c r len s
       else if cmd = 0x21 then
         bindR (SioResponse c r len) (\<lambda>r. bindR (page_arg w) (\<lambda>page.
           bindR (MceEraseBlock ops i page s) (\<lambda>(ok, s). Inr (ok, r, s))))
       else if cmd = 0x22 then bindR (page_arg w) (\<lambda>page. answer True c r len (MceStartWrite i page s))
       else if cmd = 0x23 then bindR (page_arg w) (\<lambda>page. answer True c r len (MceStartRead i page s))
       else if cmd = 0x26 then bindR (read_spec c r) (\<lambda>r. Inr (True, r, s))
       else if cmd = 0x27 then
         bindR (byte_at w 2) (\<lambda>t. answer True (c\<lparr>tcode := t\<rparr>) r len (set_card i (\<lambda>c. c\<lparr>tcode := t\<rparr>) s))
       else if cmd = 0x28 then
         bindR (SioResponse c r 4) (\<lambda>r. bindR (store r 4 [tcode c]) (\<lambda>r. Inr (True, r, s)))
       else if cmd = 0x42 then
         bindR (SioResponse c r len) (\<lambda>r. bindR (byte_at w 2) (\<lambda>n.
           if result then bindR (MceWrite ops fuel i (drop 3 w) (unat n) s) (\<lambda>(ok, s). Inr (ok, r, s))
           else Inr (False, r, s)))
       else if cmd = 0x43 then bindR (byte_at w 2) (\<lambda>n. read_reply ops fuel i (unat n) result r s)
       else if cmd \<in> {0x11, 0x81, 0x82, 0xBF, 0xF3} then answer True c r len s
       else answer False c r len s)"

definition sio_command :: "'d device_ops \<Rightarrow> nat \<Rightarrow> nat \<Rightarrow> u32 \<Rightarrow> bool \<Rightarrow> u8 list \<Rightarrow> u8 list \<Rightarrow> 'd mcemu \<Rightarrow> ub + bool \<times> u8 list \<times> 'd mcemu" where
  "sio_command ops fuel rdlen ctl result w r s =
     bindR (byte_at w 0) (\<lambda>b.
       if b = 0x81
       then let i = unat (ctl AND 0x1)
            in if mcnum (card i s) \<noteq> - 1
               then mc2_command ops fuel i (unat (drop_bit 18 ctl AND 0x1FF)) result w r s
               else bindR (store r 0 (replicate (rdlen * 4) 0xFF)) (\<lambda>r. Inr (False, r, s))
       else Inr (False, r, s))"

text \<open>
  The commands of a packet.  \<open>r0\<close> is the part of the read buffer that has been passed; a buffer pointer
  that is moved behind the end is an error only when it is used.
\<close>

fun sio_loop :: "'d device_ops \<Rightarrow> nat \<Rightarrow> nat \<Rightarrow> nat \<Rightarrow> u32 list \<Rightarrow> nat \<Rightarrow> nat \<Rightarrow> bool \<Rightarrow> u8 list \<Rightarrow> u8 list \<Rightarrow> u8 list \<Rightarrow> 'd mcemu
    \<Rightarrow> ub + bool \<times> nat \<times> u8 list \<times> 'd mcemu" where
  "sio_loop ops fuel wrlen rdlen [] count ddi result w r0 r s = Inr (result, ddi, r0 @ r, s)"
| "sio_loop ops fuel wrlen rdlen (ctl # ctls) count ddi result w r0 r s =
     (if ddi < count \<and> ddi < 0x10 \<and> ctl \<noteq> 0
      then bindR (sio_command ops fuel rdlen ctl result w r s) (\<lambda>(result, r, s).
             sio_loop ops fuel wrlen rdlen ctls count (ddi + 1) result (drop (wrlen * 4) w)
               (r0 @ take (rdlen * 4) r) (drop (rdlen * 4) r) s)
      else Inr (result, ddi, r0 @ r, s))"

definition Sio2McEmu :: "'d device_ops \<Rightarrow> nat \<Rightarrow> Sio2Packet \<Rightarrow> 'd mcemu \<Rightarrow> ub + Sio2Packet \<times> 'd mcemu" where
  "Sio2McEmu ops fuel sd s =
     (if (ctrl sd ! 0) AND 0xF0 = 0x70
      then bindR (sio_loop ops fuel (wrwords sd) (rdwords sd) (ctrl sd) (wrcount sd) 0 True (wrmaddr sd) [] (rdmaddr sd) s)
             (\<lambda>(result, ddi, r, s).
                Inr (sd\<lparr>rdmaddr := r, iostatus := (if result then 0x1000 else 0x1D000) OR push_bit 8 (of_nat ddi AND 0xF)\<rparr>, s))
      else Inr (sd\<lparr>iostatus := 0x1D100\<rparr>, s))"

text \<open>\<open>hookSio2man\<close>: whether the emulation handles the packet, or the original routine.\<close>

definition hookSio2man :: "Sio2Packet \<Rightarrow> 'd mcemu \<Rightarrow> bool" where
  "hookSio2man sd s =
     (let ctl = ctrl sd ! 0
      in mcnum (card (unat (ctl AND 0x1)) s) \<noteq> - 1
         \<and> (if ctl AND 0xF0 = 0x70 then wrmaddr sd ! 0 = 0x81
            else if ctl AND 0xF0 = 0x40 then pwr_buf sd ! 0 = 0x81 else False))"

subsection \<open>Devices\<close>

text \<open>
  The disk below: an array of 512-byte sectors, some of which may fail.  \<open>device-bdm.c\<close> ignores failures,
  which leave the buffer and the disk as they are.
\<close>

record disk =
  disk_sector :: "nat \<Rightarrow> u8 list"
  bad_sector :: "nat \<Rightarrow> bool"

definition bdm_ops :: "(int \<Rightarrow> nat) \<Rightarrow> disk device_ops" where
  "bdm_ops stsec = \<lparr>
     DeviceWritePage = (\<lambda>mc buf page d. let lba = stsec mc + page in
       (True, if bad_sector d lba then d else d\<lparr>disk_sector := (disk_sector d)(lba := take 512 buf)\<rparr>)),
     DeviceReadPage = (\<lambda>mc buf page d. let lba = stsec mc + page in
       (True, if bad_sector d lba then buf else disk_sector d lba, d))\<rparr>"

record apa_parts =
  part_start :: nat
  part_length :: nat

record pfs_blocks =
  blk_number :: nat
  blk_subpart :: nat
  blk_count :: nat

text \<open>The page's sector: the blocks of the file are runs of units of 16 sectors.\<close>

fun find_run :: "apa_parts list \<Rightarrow> pfs_blocks list \<Rightarrow> nat \<Rightarrow> nat \<Rightarrow> nat \<Rightarrow> nat" where
  "find_run parts [] mc_page ubound sector = sector"
| "find_run parts (b # bs) mc_page ubound sector =
     (let lbound = ubound; ubound = ubound + blk_count b
      in find_run parts bs mc_page ubound
           (if lbound * 16 \<le> mc_page \<and> mc_page < ubound * 16
            then (part_start (parts ! blk_subpart b) + blk_number b * 16 + (mc_page - lbound * 16)) mod 2 ^ 32 else sector))"

definition Mcpage_to_Apasector :: "apa_parts list \<Rightarrow> pfs_blocks list \<Rightarrow> nat \<Rightarrow> nat" where
  "Mcpage_to_Apasector parts blocks mc_page = find_run parts (take 10 blocks) mc_page 0 0"

definition hdd_ops :: "(int \<Rightarrow> apa_parts list) \<Rightarrow> (int \<Rightarrow> pfs_blocks list) \<Rightarrow> disk device_ops" where
  "hdd_ops parts blocks = \<lparr>
     DeviceWritePage = (\<lambda>mc buf page d. let lba = Mcpage_to_Apasector (parts mc) (blocks mc) page in
       if bad_sector d lba then (False, d) else (True, d\<lparr>disk_sector := (disk_sector d)(lba := take 512 buf)\<rparr>)),
     DeviceReadPage = (\<lambda>mc buf page d. let lba = Mcpage_to_Apasector (parts mc) (blocks mc) page in
       if bad_sector d lba then (False, buf, d) else (True, disk_sector d lba, d))\<rparr>"

subsection \<open>Runs of sectors\<close>

definition runs :: "apa_parts list \<Rightarrow> pfs_blocks list \<Rightarrow> (nat \<times> nat) list" where
  "runs parts bs = map (\<lambda>b. (part_start (parts ! blk_subpart b) + blk_number b * 16, blk_count b * 16)) (take 10 bs)"

definition run :: "nat \<times> nat \<Rightarrow> nat set" where
  "run r = {fst r..<fst r + snd r}"

fun run_sector :: "(nat \<times> nat) list \<Rightarrow> nat \<Rightarrow> nat" where
  "run_sector [] p = 0"
| "run_sector ((a, n) # rs) p = (if p < n then a + p else run_sector rs (p - n))"

abbreviation run_total :: "(nat \<times> nat) list \<Rightarrow> nat" where
  "run_total rs \<equiv> sum_list (map snd rs)"

text \<open>The runs of the file do not overlap and lie in the first \<open>2 ^ 32\<close> sectors.\<close>

definition layout_ok :: "(nat \<times> nat) list \<Rightarrow> bool" where
  "layout_ok rs = (sorted_wrt (\<lambda>r r'. run r \<inter> run r' = {}) rs \<and> (\<forall>r \<in> set rs. fst r + snd r \<le> 2 ^ 32))"

lemma run_sector_in: "p < run_total rs \<Longrightarrow> \<exists>r \<in> set rs. run_sector rs p \<in> run r"
proof (induction rs p rule: run_sector.induct)
  case (2 a n rs p)
  then show ?case by (cases "p < n") (auto simp: run_def)
qed simp

lemma run_sector_inj:
  "\<lbrakk>layout_ok rs; p < run_total rs; q < run_total rs; run_sector rs p = run_sector rs q\<rbrakk> \<Longrightarrow> p = q"
proof (induction rs arbitrary: p q)
  case (Cons r rs)
  obtain a n where r: "r = (a, n)" by (cases r)
  have ok: "layout_ok rs" "\<forall>r' \<in> set rs. run (a, n) \<inter> run r' = {}" using Cons.prems(1) by (auto simp: layout_ok_def r)
  have apart: "a + x \<noteq> run_sector rs y" if x: "x < n" and y: "y < run_total rs" for x y
  proof -
    obtain r' where "r' \<in> set rs" "run_sector rs y \<in> run r'" using run_sector_in [OF y] by blast
    moreover have "a + x \<in> run (a, n)" using x by (simp add: run_def)
    ultimately show ?thesis using ok(2) by fastforce
  qed
  have rest: "x - n < run_total rs" if "\<not> x < n" "x < run_total (r # rs)" for x using that by (simp add: r)
  show ?case
  proof (cases "p < n"; cases "q < n")
    assume "p < n" "q < n"
    then show ?thesis using Cons.prems(4) by (simp add: r)
  next
    assume c: "p < n" "\<not> q < n"
    then show ?thesis using Cons.prems(4) apart [OF c(1) rest [OF c(2) Cons.prems(3)]] by (simp add: r)
  next
    assume c: "\<not> p < n" "q < n"
    then show ?thesis using Cons.prems(4) apart [OF c(2) rest [OF c(1) Cons.prems(2)]] by (simp add: r)
  next
    assume c: "\<not> p < n" "\<not> q < n"
    then have "run_sector rs (p - n) = run_sector rs (q - n)" using Cons.prems(4) by (simp add: r)
    from Cons.IH [OF ok(1) rest [OF c(1) Cons.prems(2)] rest [OF c(2) Cons.prems(3)] this] show ?thesis using c by simp
  qed
qed simp

lemma find_run_eq:
  assumes "\<forall>b \<in> set bs. part_start (parts ! blk_subpart b) + blk_number b * 16 + blk_count b * 16 \<le> 2 ^ 32"
  shows "ub * 16 \<le> p \<Longrightarrow> find_run parts bs p ub sec =
    (let rs = map (\<lambda>b. (part_start (parts ! blk_subpart b) + blk_number b * 16, blk_count b * 16)) bs
     in if p - ub * 16 < run_total rs then run_sector rs (p - ub * 16) else sec)"
  using assms
proof (induction bs arbitrary: ub sec)
  case (Cons b bs)
  show ?case
  proof (cases "p < (ub + blk_count b) * 16")
    case True
    have skip: "find_run parts bs p ub' sec' = sec'" if "p < ub' * 16" for ub' sec'
      using that
    proof (induction bs arbitrary: ub' sec')
      case (Cons b bs)
      then show ?case using Cons.IH [of "ub' + blk_count b"] by (auto simp: Let_def add_mult_distrib)
    qed simp
    show ?thesis using True Cons.prems skip by (auto simp: Let_def add_mult_distrib)
  next
    case False
    then show ?thesis using Cons.IH [of "ub + blk_count b" sec] Cons.prems by (auto simp: Let_def add_mult_distrib)
  qed
qed simp

lemma Mcpage_to_Apasector_run:
  assumes "layout_ok (runs parts blocks)" "p < run_total (runs parts blocks)"
  shows "Mcpage_to_Apasector parts blocks p = run_sector (runs parts blocks) p"
proof -
  have "\<forall>b \<in> set (take 10 blocks). part_start (parts ! blk_subpart b) + blk_number b * 16 + blk_count b * 16 \<le> 2 ^ 32"
    using assms(1) by (force simp: layout_ok_def runs_def)
  from find_run_eq [OF this, of 0 p 0] assms(2) show ?thesis
    by (simp add: Mcpage_to_Apasector_def runs_def Let_def)
qed

subsection \<open>The contract of a page device\<close>

locale page_device =
  fixes ops :: "'d device_ops"
    and content :: "int \<Rightarrow> 'd \<Rightarrow> nat \<Rightarrow> u8 list"
    and good :: "int \<Rightarrow> 'd \<Rightarrow> nat \<Rightarrow> bool"
  assumes write_law: "good mc d p \<Longrightarrow> length buf = 512 \<Longrightarrow> \<exists>d'. DeviceWritePage ops mc buf p d = (True, d')
      \<and> content mc d' p = buf \<and> good mc d' = good mc d \<and> (\<forall>q. q \<noteq> p \<and> good mc d q \<longrightarrow> content mc d' q = content mc d q)"
    and read_law: "good mc d p \<Longrightarrow> DeviceReadPage ops mc buf p d = (True, content mc d p, d)"
    and page_length: "good mc d p \<Longrightarrow> length (content mc d p) = 512"

definition bdm_good :: "(int \<Rightarrow> nat) \<Rightarrow> int \<Rightarrow> disk \<Rightarrow> nat \<Rightarrow> bool" where
  "bdm_good stsec mc d p = (\<not> bad_sector d (stsec mc + p) \<and> length (disk_sector d (stsec mc + p)) = 512)"

definition hdd_good :: "(int \<Rightarrow> apa_parts list) \<Rightarrow> (int \<Rightarrow> pfs_blocks list) \<Rightarrow> int \<Rightarrow> disk \<Rightarrow> nat \<Rightarrow> bool" where
  "hdd_good parts blocks mc d p =
     (layout_ok (runs (parts mc) (blocks mc)) \<and> p < run_total (runs (parts mc) (blocks mc))
      \<and> (let lba = Mcpage_to_Apasector (parts mc) (blocks mc) p in \<not> bad_sector d lba \<and> length (disk_sector d lba) = 512))"

interpretation bdm: page_device "bdm_ops stsec" "\<lambda>mc d p. disk_sector d (stsec mc + p)" "bdm_good stsec" for stsec
  by unfold_locales (auto simp: bdm_ops_def bdm_good_def Let_def fun_eq_iff)

interpretation hdd: page_device "hdd_ops parts blocks"
  "\<lambda>mc d p. disk_sector d (Mcpage_to_Apasector (parts mc) (blocks mc) p)" "hdd_good parts blocks" for parts blocks
proof unfold_locales
  fix mc :: int and d :: disk and p :: nat and buf :: "u8 list"
  let ?sec = "Mcpage_to_Apasector (parts mc) (blocks mc)"
  assume g: "hdd_good parts blocks mc d p" and l: "length buf = 512"
  let ?d = "d\<lparr>disk_sector := (disk_sector d)(?sec p := buf)\<rparr>"
  have inj: "?sec q = ?sec p \<Longrightarrow> q = p" if "q < run_total (runs (parts mc) (blocks mc))" for q
    using that g run_sector_inj by (simp add: hdd_good_def Mcpage_to_Apasector_run) blast
  have "DeviceWritePage (hdd_ops parts blocks) mc buf p d = (True, ?d)"
    using g l by (simp add: hdd_ops_def hdd_good_def Let_def)
  moreover have "hdd_good parts blocks mc ?d = hdd_good parts blocks mc d"
    using l g by (auto simp: hdd_good_def Let_def fun_eq_iff)
  moreover have "\<forall>q. q \<noteq> p \<and> hdd_good parts blocks mc d q \<longrightarrow> disk_sector ?d (?sec q) = disk_sector d (?sec q)"
    using inj by (auto simp: hdd_good_def)
  ultimately show "\<exists>d'. DeviceWritePage (hdd_ops parts blocks) mc buf p d = (True, d') \<and> disk_sector d' (?sec p) = buf
      \<and> hdd_good parts blocks mc d' = hdd_good parts blocks mc d
      \<and> (\<forall>q. q \<noteq> p \<and> hdd_good parts blocks mc d q \<longrightarrow> disk_sector d' (?sec q) = disk_sector d (?sec q))"
    by (intro exI [of _ ?d]) simp
qed (auto simp: hdd_ops_def hdd_good_def Let_def)

subsection \<open>A page, chunk by chunk\<close>

definition mcemu_ok :: "nat \<Rightarrow> 'd mcemu \<Rightarrow> bool" where
  "mcemu_ok i s = (length (mcdatabuf s) = 512 \<and> i < length (memcards s) \<and> i < length (mceccbuf s)
     \<and> length (mceccbuf s ! i) = 32 \<and> PageSize (cspec (card i s)) = 512)"

lemma set_card_simps [simp]:
  "mcdatabuf (set_card i g s) = mcdatabuf s" "mceccbuf (set_card i g s) = mceccbuf s" "device (set_card i g s) = device s"
  "length (memcards (set_card i g s)) = length (memcards s)"
  "i < length (memcards s) \<Longrightarrow> card i (set_card i g s) = g (card i s)"
  by (simp_all add: set_card_def)

text \<open>What the host does to a page: a start command, then data commands while they succeed.\<close>

fun write_chunks :: "'d device_ops \<Rightarrow> nat \<Rightarrow> nat \<Rightarrow> u8 list list \<Rightarrow> 'd mcemu \<Rightarrow> ub + bool \<times> 'd mcemu" where
  "write_chunks ops fuel i [] s = Inr (True, s)"
| "write_chunks ops fuel i (d # ds) s =
     bindR (MceWrite ops fuel i d (length d) s) (\<lambda>(ok, s).
       if ok then write_chunks ops fuel i ds s else Inr (False, s))"

fun read_chunks :: "'d device_ops \<Rightarrow> nat \<Rightarrow> nat \<Rightarrow> nat list \<Rightarrow> 'd mcemu \<Rightarrow> ub + bool \<times> u8 list list \<times> 'd mcemu" where
  "read_chunks ops fuel i [] s = Inr (True, [], s)"
| "read_chunks ops fuel i (n # ns) s =
     bindR (MceRead ops fuel i n s) (\<lambda>(ok, out, s).
       if ok then bindR (read_chunks ops fuel i ns s) (\<lambda>(ok, outs, s). Inr (ok, out # outs, s)) else Inr (False, [out], s))"

text \<open>A chunk that does not reach the end of the page, and one that does.\<close>

lemma MceWrite_inside:
  assumes "mcemu_ok i s" "0 < length d" "wroff (card i s) + length d < 512" "wcoff (card i s) = 0 \<or> wroff (card i s) \<noteq> 0"
  shows "MceWrite ops (Suc fuel) i d (length d) s
    = Inr (True, set_card i (\<lambda>c. c\<lparr>wroff := wroff c + length d, wcoff := wcoff c + 3\<rparr>)
        (s\<lparr>mcdatabuf := write_at (mcdatabuf s) (wroff (card i s)) d\<rparr>))"
  using assms by (auto simp: MceWrite_def skip_ecc_def write_data_def mcemu_ok_def Let_def set_card_def)

lemma do_read_ok:
  assumes "mcemu_ok i s" "DeviceReadPage ops (mcnum (card i s)) (mcdatabuf s) (rpage (card i s)) (device s) = (True, b, device s)"
    "length b = 512"
  shows "\<exists>ecc. do_read ops i s = Inr (True, s\<lparr>mcdatabuf := b, mceccbuf := (mceccbuf s)[i := ecc]\<rparr>) \<and> length ecc = 32
    \<and> take 16 ecc = page_ecc 512 b @ replicate 4 (if flags (card i s) AND 0x10 \<noteq> 0 then 0xFF else 0)"
proof -
  let ?fill = "if flags (card i s) AND 0x10 \<noteq> 0 then 0xFF else 0 :: u8"
  let ?e = "write_at (mceccbuf s ! i) 0 (replicate 0x10 ?fill)"
  have le: "length (page_ecc 512 b) = 12" by (simp add: page_ecc_def length_concat comp_def sum_list_triv)
  have l: "length (mceccbuf s ! i) = 32" using assms(1) by (simp add: mcemu_ok_def)
  have le2: "length ?e = 32" using l by simp
  have t: "take 16 (write_at ?e 0 (page_ecc 512 b)) = page_ecc 512 b @ replicate 4 ?fill"
    by (simp add: write_at_def le)
  show ?thesis using assms le le2 t
    by (intro exI [of _ "write_at ?e 0 (page_ecc 512 b)"]) (simp add: do_read_def Let_def mcemu_ok_def)
qed

text \<open>What reading and writing never change in a descriptor.\<close>

definition same_card :: "MemoryCard \<Rightarrow> MemoryCard \<Rightarrow> bool" where
  "same_card c c' = (mcnum c' = mcnum c \<and> flags c' = flags c \<and> cspec c' = cspec c \<and> tcode c' = tcode c)"

definition ecc_block :: "MemoryCard \<Rightarrow> u8 list \<Rightarrow> u8 list" where
  "ecc_block c b = page_ecc 512 b @ replicate 4 (if flags c AND 0x10 \<noteq> 0 then 0xFF else 0)"

lemma ecc_block_same: "same_card c c' \<Longrightarrow> ecc_block c' b = ecc_block c b"
  by (simp add: same_card_def ecc_block_def)

lemma same_card_trans: "same_card a b \<Longrightarrow> same_card b c \<Longrightarrow> same_card a c"
  by (simp add: same_card_def)

context page_device begin

lemma MceWrite_end:
  assumes ok: "mcemu_ok i s" and d: "0 < length d" "wroff (card i s) + length d = 512"
    and w: "wcoff (card i s) = 0 \<or> wroff (card i s) \<noteq> 0" and g: "good (mcnum (card i s)) (device s) (wpage (card i s))"
  shows "\<exists>s'. MceWrite ops (Suc fuel) i d (length d) s = Inr (True, s') \<and> mcemu_ok i s' \<and> same_card (card i s) (card i s')
    \<and> wroff (card i s') = 0 \<and> wcoff (card i s') = wcoff (card i s) + 3 \<and> wpage (card i s') = wpage (card i s) + 1
    \<and> content (mcnum (card i s)) (device s') (wpage (card i s)) = take (wroff (card i s)) (mcdatabuf s) @ d
    \<and> good (mcnum (card i s)) (device s') = good (mcnum (card i s)) (device s)
    \<and> (\<forall>q. q \<noteq> wpage (card i s) \<and> good (mcnum (card i s)) (device s) q
         \<longrightarrow> content (mcnum (card i s)) (device s') q = content (mcnum (card i s)) (device s) q)"
proof -
  let ?b = "write_at (mcdatabuf s) (wroff (card i s)) d"
  have lb: "length (mcdatabuf s) = 512" using ok by (simp add: mcemu_ok_def)
  have l: "length ?b = 512" using lb d(2) by simp
  from write_law [OF g this] obtain d' where d': "DeviceWritePage ops (mcnum (card i s)) ?b (wpage (card i s)) (device s) = (True, d')"
    "content (mcnum (card i s)) d' (wpage (card i s)) = ?b" "good (mcnum (card i s)) d' = good (mcnum (card i s)) (device s)"
    "\<forall>q. q \<noteq> wpage (card i s) \<and> good (mcnum (card i s)) (device s) q
         \<longrightarrow> content (mcnum (card i s)) d' q = content (mcnum (card i s)) (device s) q" by blast
  have e: "?b = take (wroff (card i s)) (mcdatabuf s) @ d" using lb d(2) by (simp add: write_at_def)
  have sk: "skip_ecc i (length d) d s = (length d, d, s)" using w by (auto simp: skip_ecc_def)
  let ?s2 = "set_card i (\<lambda>c. c\<lparr>wroff := wroff c + length d, wcoff := wcoff c + 3\<rparr>) (s\<lparr>mcdatabuf := ?b\<rparr>)"
  have wd: "write_data i (length d) d s = Inr (length d, ?s2)"
  proof -
    have "wroff (card i s) < 512" using d by linarith
    with ok d(2) show ?thesis by (simp add: write_data_def mcemu_ok_def Let_def)
  qed
  have i: "i < length (memcards s)" "PageSize (cspec (card i s)) = 512" using ok by (simp_all add: mcemu_ok_def)
  let ?s' = "set_card i (\<lambda>c. c\<lparr>wpage := wpage c + 1\<rparr>) ((set_card i (\<lambda>c. c\<lparr>wroff := 0\<rparr>) ?s2)\<lparr>device := d'\<rparr>)"
  have "MceWrite ops (Suc fuel) i d (length d) s = Inr (True, ?s')"
    using sk wd i d d'(1) by (simp add: MceWrite_def Let_def)
  then show ?thesis using d' e ok i l by (intro exI [of _ ?s']) (simp add: mcemu_ok_def same_card_def)
qed

lemma write_chunks_page:
  "\<lbrakk>mcemu_ok i s; [] \<notin> set ds; wroff (card i s) + length (concat ds) = 512; wroff (card i s) < 512;
    0 \<le> wcoff (card i s); wcoff (card i s) = 0 \<or> wroff (card i s) \<noteq> 0; good (mcnum (card i s)) (device s) (wpage (card i s))\<rbrakk>
   \<Longrightarrow> \<exists>s'. write_chunks ops (Suc fuel) i ds s = Inr (True, s') \<and> mcemu_ok i s' \<and> same_card (card i s) (card i s')
     \<and> content (mcnum (card i s)) (device s') (wpage (card i s)) = take (wroff (card i s)) (mcdatabuf s) @ concat ds
     \<and> good (mcnum (card i s)) (device s') = good (mcnum (card i s)) (device s)
     \<and> (\<forall>q. q \<noteq> wpage (card i s) \<and> good (mcnum (card i s)) (device s) q
         \<longrightarrow> content (mcnum (card i s)) (device s') q = content (mcnum (card i s)) (device s) q)
     \<and> wroff (card i s') = 0 \<and> 0 < wcoff (card i s') \<and> wpage (card i s') = wpage (card i s) + 1"
proof (induction ds arbitrary: s)
  case (Cons d ds)
  note P = Cons.prems
  have d: "0 < length d" using P(2) by auto
  have ok: "length (mcdatabuf s) = 512" "i < length (memcards s)" using P(1) by (simp_all add: mcemu_ok_def)
  show ?case
  proof (cases "ds = []")
    case True
    then have "wroff (card i s) + length d = 512" using P(3) by simp
    from MceWrite_end [OF P(1) d this P(6,7), of fuel] show ?thesis using True P(5) by fastforce
  next
    case False
    let ?s = "set_card i (\<lambda>c. c\<lparr>wroff := wroff c + length d, wcoff := wcoff c + 3\<rparr>)
        (s\<lparr>mcdatabuf := write_at (mcdatabuf s) (wroff (card i s)) d\<rparr>)"
    have "0 < length (concat ds)" using False P(2) by (cases ds) auto
    then have k: "wroff (card i s) + length d < 512" using P(3) by (simp del: length_concat length_greater_0_conv)
    have m: "MceWrite ops (Suc fuel) i d (length d) s = Inr (True, ?s)" by (rule MceWrite_inside [OF P(1) d k P(6)])
    have c: "card i ?s = (card i s)\<lparr>wroff := wroff (card i s) + length d, wcoff := wcoff (card i s) + 3\<rparr>" using ok(2) by simp
    have "mcemu_ok i ?s" using P(1) k c by (simp add: mcemu_ok_def)
    moreover have "take (wroff (card i ?s)) (mcdatabuf ?s) = take (wroff (card i s)) (mcdatabuf s) @ d"
      using k ok(1) c by (simp add: write_at_def)
    ultimately show ?thesis using Cons.IH [of ?s] P k d m unfolding c by (auto simp: same_card_def)
  qed
qed simp

lemma MceRead_chunk:
  assumes ok: "mcemu_ok i s" and n: "0 < n" "rdoff (card i s) + n \<le> 512" and r: "rcoff (card i s) = 0 \<or> rdoff (card i s) \<noteq> 0"
    and g: "good (mcnum (card i s)) (device s) (rpage (card i s))"
    and b: "b = content (mcnum (card i s)) (device s) (rpage (card i s))"
    and cache: "rdoff (card i s) \<noteq> 0 \<Longrightarrow> mcdatabuf s = b \<and> take 16 (mceccbuf s ! i) = ecc_block (card i s) b"
  shows "\<exists>s'. MceRead ops (Suc fuel) i n s = Inr (True, take n (drop (rdoff (card i s)) b), s')
    \<and> mcemu_ok i s' \<and> same_card (card i s) (card i s') \<and> device s' = device s
    \<and> mcdatabuf s' = b \<and> take 16 (mceccbuf s' ! i) = ecc_block (card i s) b \<and> rcoff (card i s') = rcoff (card i s) + 3
    \<and> (if rdoff (card i s) + n = 512 then rdoff (card i s') = 0
       else rdoff (card i s') = rdoff (card i s) + n \<and> rpage (card i s') = rpage (card i s))"
proof -
  have lb: "length b = 512" using page_length [OF g] b by simp
  define s1 where "s1 = snd (projr (if rdoff (card i s) = 0 then do_read ops i s else Inr (True, s)))"
  have s1: "(if rdoff (card i s) = 0 then do_read ops i s else Inr (True, s)) = Inr (True, s1)"
    "mcdatabuf s1 = b" "take 16 (mceccbuf s1 ! i) = ecc_block (card i s) b" "memcards s1 = memcards s" "device s1 = device s"
    "length (mceccbuf s1) = length (mceccbuf s)" "length (mceccbuf s1 ! i) = 32"
  proof -
    have "(if rdoff (card i s) = 0 then do_read ops i s else Inr (True, s)) = Inr (True, s1) \<and>
      mcdatabuf s1 = b \<and> take 16 (mceccbuf s1 ! i) = ecc_block (card i s) b \<and> memcards s1 = memcards s \<and> device s1 = device s
      \<and> length (mceccbuf s1) = length (mceccbuf s) \<and> length (mceccbuf s1 ! i) = 32"
    proof (cases "rdoff (card i s) = 0")
      case True
      from do_read_ok [OF ok _ lb, of ops] read_law [OF g] b obtain ecc where
        "do_read ops i s = Inr (True, s\<lparr>mcdatabuf := b, mceccbuf := (mceccbuf s)[i := ecc]\<rparr>)" "length ecc = 32"
        "take 16 ecc = ecc_block (card i s) b" by (auto simp: ecc_block_def)
      then show ?thesis using True ok by (simp add: s1_def mcemu_ok_def)
    next
      case False
      then show ?thesis using ok cache by (simp add: s1_def mcemu_ok_def)
    qed
    then show "(if rdoff (card i s) = 0 then do_read ops i s else Inr (True, s)) = Inr (True, s1)"
      "mcdatabuf s1 = b" "take 16 (mceccbuf s1 ! i) = ecc_block (card i s) b" "memcards s1 = memcards s" "device s1 = device s"
      "length (mceccbuf s1) = length (mceccbuf s)" "length (mceccbuf s1 ! i) = 32" by blast+
  qed
  let ?s2 = "set_card i (\<lambda>c. c\<lparr>rdoff := rdoff c + n, rcoff := rcoff c + 3\<rparr>) s1"
  let ?s3 = "set_card i (\<lambda>c. c\<lparr>rpage := rpage c + 1, rdoff := 0\<rparr>) ?s2"
  have i: "i < length (memcards s)" "PageSize (cspec (card i s)) = 512" using ok by (simp_all add: mcemu_ok_def)
  have rd: "read_data ops i n s = Inr (True, n, take n (drop (rdoff (card i s)) b), ?s2)"
    using s1(1,2,4) n i(2) by (simp add: read_data_def Let_def)
  have ecc: "read_ecc i n s = (n, [], s)" using r by (auto simp: read_ecc_def)
  have "MceRead ops (Suc fuel) i n s = Inr (True, take n (drop (rdoff (card i s)) b),
      if rdoff (card i s) + n = 512 then ?s3 else ?s2)"
    using ecc rd n i s1(4) by (simp add: MceRead_def Let_def)
  then show ?thesis using s1 i ok lb
    by (intro exI [of _ "if rdoff (card i s) + n = 512 then ?s3 else ?s2"]) (auto simp: mcemu_ok_def same_card_def)
qed

lemma read_chunks_page:
  "\<lbrakk>mcemu_ok i s; 0 \<notin> set ns; rdoff (card i s) + sum_list ns = 512; rdoff (card i s) < 512; 0 \<le> rcoff (card i s);
    rcoff (card i s) = 0 \<or> rdoff (card i s) \<noteq> 0; good (mcnum (card i s)) (device s) (rpage (card i s));
    b = content (mcnum (card i s)) (device s) (rpage (card i s));
    rdoff (card i s) \<noteq> 0 \<Longrightarrow> mcdatabuf s = b \<and> take 16 (mceccbuf s ! i) = ecc_block (card i s) b\<rbrakk>
   \<Longrightarrow> \<exists>outs s'. read_chunks ops (Suc fuel) i ns s = Inr (True, outs, s') \<and> concat outs = drop (rdoff (card i s)) b
     \<and> map length outs = ns \<and> mcemu_ok i s' \<and> same_card (card i s) (card i s') \<and> device s' = device s
     \<and> take 16 (mceccbuf s' ! i) = ecc_block (card i s) b \<and> rdoff (card i s') = 0 \<and> 0 < rcoff (card i s')"
proof (induction ns arbitrary: s)
  case (Cons n ns)
  note P = Cons.prems
  have n: "0 < n" "rdoff (card i s) + n \<le> 512" using P(2,3) by auto
  have lb: "length b = 512" using page_length P(7,8) by simp
  from MceRead_chunk [OF P(1) n P(6,7,8) P(9)] obtain s1 where
    m: "MceRead ops (Suc fuel) i n s = Inr (True, take n (drop (rdoff (card i s)) b), s1)"
    "mcemu_ok i s1" "same_card (card i s) (card i s1)" "device s1 = device s" "mcdatabuf s1 = b"
    "take 16 (mceccbuf s1 ! i) = ecc_block (card i s) b" "rcoff (card i s1) = rcoff (card i s) + 3"
    "if rdoff (card i s) + n = 512 then rdoff (card i s1) = 0
       else rdoff (card i s1) = rdoff (card i s) + n \<and> rpage (card i s1) = rpage (card i s)" by blast
  have l: "length (take n (drop (rdoff (card i s)) b)) = n" using n lb by simp
  show ?case
  proof (cases "ns = []")
    case True
    then show ?thesis using m l P(3,5) lb by auto
  next
    case False
    then have "0 < sum_list ns" using P(2) by (cases ns) auto
    then have k: "rdoff (card i s) + n < 512" using P(3) by simp
    have "\<exists>outs s'. read_chunks ops (Suc fuel) i ns s1 = Inr (True, outs, s') \<and> concat outs = drop (rdoff (card i s1)) b
     \<and> map length outs = ns \<and> mcemu_ok i s' \<and> same_card (card i s1) (card i s') \<and> device s' = device s1
     \<and> take 16 (mceccbuf s' ! i) = ecc_block (card i s1) b \<and> rdoff (card i s') = 0 \<and> 0 < rcoff (card i s')"
    proof (rule Cons.IH [OF m(2)])
      show "rdoff (card i s1) + sum_list ns = 512" "rdoff (card i s1) < 512" using k m(8) P(3) by auto
      show "good (mcnum (card i s1)) (device s1) (rpage (card i s1))"
        "b = content (mcnum (card i s1)) (device s1) (rpage (card i s1))"
        using m(3,4,8) k P(7,8) by (auto simp: same_card_def)
      show "0 \<notin> set ns" "0 \<le> rcoff (card i s1)" "rcoff (card i s1) = 0 \<or> rdoff (card i s1) \<noteq> 0" using P(2,5) m(7,8) k n by auto
      show "mcdatabuf s1 = b \<and> take 16 (mceccbuf s1 ! i) = ecc_block (card i s1) b"
        using m(5,6) ecc_block_same [OF m(3)] by simp
    qed
    then obtain outs s' where r: "read_chunks ops (Suc fuel) i ns s1 = Inr (True, outs, s')" "concat outs = drop (rdoff (card i s1)) b"
     "map length outs = ns" "mcemu_ok i s'" "same_card (card i s1) (card i s')" "device s' = device s1"
     "take 16 (mceccbuf s' ! i) = ecc_block (card i s1) b" "rdoff (card i s') = 0" "0 < rcoff (card i s')" by blast
    have "take n (drop (rdoff (card i s)) b) @ drop (rdoff (card i s) + n) b = drop (rdoff (card i s)) b"
      by (metis append_take_drop_id drop_drop add.commute)
    then show ?thesis using m r l k ecc_block_same [OF m(3), of b] same_card_trans [OF m(3) r(5)]
      by (intro exI [of _ "take n (drop (rdoff (card i s)) b) # outs"] exI [of _ s']) auto
  qed
qed simp

lemma page_roundtrip:
  assumes ok: "mcemu_ok i s" and ds: "[] \<notin> set ds" "length (concat ds) = 512" and ns: "0 \<notin> set ns" "sum_list ns = 512"
    and g: "good (mcnum (card i s)) (device s) p"
  shows "\<exists>s1 s2 s3 outs.
      write_chunks ops (Suc fuel) i ds (MceStartWrite i p s) = Inr (True, s1)
    \<and> content (mcnum (card i s)) (device s1) p = concat ds
    \<and> (\<forall>q. q \<noteq> p \<and> good (mcnum (card i s)) (device s) q
         \<longrightarrow> content (mcnum (card i s)) (device s1) q = content (mcnum (card i s)) (device s) q)
    \<and> read_chunks ops (Suc fuel) i ns (MceStartRead i p s1) = Inr (True, outs, s2)
    \<and> concat outs = concat ds \<and> map length outs = ns
    \<and> MceRead ops (Suc fuel) i 16 s2 = Inr (True, ecc_block (card i s) (concat ds), s3) \<and> device s3 = device s1"
proof -
  have i: "i < length (memcards s)" using ok by (simp add: mcemu_ok_def)
  let ?w = "MceStartWrite i p s"
  have w: "mcemu_ok i ?w" "wroff (card i ?w) = 0" "wcoff (card i ?w) = 0" "wpage (card i ?w) = p"
    "mcnum (card i ?w) = mcnum (card i s)" "same_card (card i s) (card i ?w)" "device ?w = device s"
    using ok i by (simp_all add: MceStartWrite_def mcemu_ok_def same_card_def)
  from write_chunks_page [OF w(1) ds(1), of fuel] w ds(2) g obtain s1 where
    1: "write_chunks ops (Suc fuel) i ds ?w = Inr (True, s1)" "mcemu_ok i s1" "same_card (card i ?w) (card i s1)"
    "content (mcnum (card i s)) (device s1) p = concat ds" "good (mcnum (card i s)) (device s1) = good (mcnum (card i s)) (device s)"
    "\<forall>q. q \<noteq> p \<and> good (mcnum (card i s)) (device s) q
         \<longrightarrow> content (mcnum (card i s)) (device s1) q = content (mcnum (card i s)) (device s) q" by auto
  have i1: "i < length (memcards s1)" using 1(2) by (simp add: mcemu_ok_def)
  let ?r = "MceStartRead i p s1"
  have r: "mcemu_ok i ?r" "rdoff (card i ?r) = 0" "rcoff (card i ?r) = 0" "rpage (card i ?r) = p"
    "mcnum (card i ?r) = mcnum (card i s)" "same_card (card i s) (card i ?r)" "device ?r = device s1"
    using 1(2,3) w(5,6) i1 by (simp_all add: MceStartRead_def mcemu_ok_def same_card_def)
  from read_chunks_page [OF r(1) ns(1), of "concat ds" fuel] r ns(2) g 1(4,5) obtain outs s2 where
    2: "read_chunks ops (Suc fuel) i ns ?r = Inr (True, outs, s2)" "concat outs = concat ds" "map length outs = ns"
    "mcemu_ok i s2" "device s2 = device s1" "take 16 (mceccbuf s2 ! i) = ecc_block (card i ?r) (concat ds)"
    "rdoff (card i s2) = 0" "0 < rcoff (card i s2)" by auto
  have "MceRead ops (Suc fuel) i 16 s2 = Inr (True, ecc_block (card i s) (concat ds), snd (snd (read_ecc i 16 s2)))"
    using 2(6-8) ecc_block_same [OF r(6)] by (simp add: MceRead_def read_ecc_def Let_def)
  moreover have "device (snd (snd (read_ecc i 16 s2))) = device s2" by (simp add: read_ecc_def Let_def)
  ultimately show ?thesis using 1 2 by (intro exI [of _ s1] exI [of _ s2] exI [of _ outs] exI) auto
qed

end

subsection \<open>Replies\<close>

lemma sio_loop_done: "count \<le> ddi \<Longrightarrow> sio_loop ops fuel wrlen rdlen ctls count ddi result w r0 r s = Inr (result, ddi, r0 @ r, s)"
  by (cases ctls) simp_all

text \<open>The reply to a data command.\<close>

lemma read_reply_bytes:
  assumes run: "result \<Longrightarrow> MceRead ops fuel i n s = Inr (ok, out, s')" and out: "result \<and> ok \<Longrightarrow> length out = n" "length out \<le> n"
    and bad: "\<not> result \<Longrightarrow> \<not> ok \<and> s' = s \<and> out = []" and r: "n + 6 \<le> length r" "tcode (card i s') = tcode (card i s)"
  shows "read_reply ops fuel i n result r s
    = Inr (ok, (let bs = (if ok then out else replicate n 0xFF)
                in [0xFF, 0xFF, 0xFF, 0x2B] @ bs @ [CalculateEDC bs, tcode (card i s)]) @ drop (n + 6) r, s')"
proof -
  let ?h = "[0xFF, 0xFF, 0xFF, 0x2B] :: u8 list"
  define R where "R = write_at r 0 (?h @ [tcode (card i s)])"
  have R: "length R = length r" "take 4 R = ?h" using r by (simp_all add: R_def write_at_def)
  have Rd: "drop k R = drop k r" if "5 \<le> k" for k
    using that le_Suc_ex [of 5 k] unfolding R_def write_at_def drop_append by (auto simp: eval_nat_numeral)
  have sr: "SioResponse (card i s) r 5 = Inr R"
    using r by (simp add: SioResponse_def store_def R_def eval_nat_numeral)
  define ys where "ys = (if ok then out else replicate n 0xFF)"
  have ys: "length ys = n" using out bad by (auto simp: ys_def)
  have get: "(if result then MceRead ops fuel i n s else Inr (False, [], s)) = Inr (ok, out, s')" using run bad by auto
  have s1: "store R 4 out = Inr (write_at R 4 out)" using R(1) r out(2) by (simp add: store_def)
  have s2: "(if ok then Inr (write_at R 4 out) else store (write_at R 4 out) 4 (replicate n 0xFF)) = Inr (write_at R 4 ys)"
    using R(1) r out(2) by (simp add: store_def ys_def write_at_again)
  have d: "take n (drop 4 (write_at R 4 ys)) = ys" using R(1) r ys by (simp add: drop_write_at)
  define W where "W = take 4 R @ ys"
  have W: "length W = n + 4" "write_at R 4 ys = W @ drop (n + 4) R" using R(1) r ys by (simp_all add: W_def write_at_def add.commute)
  have s3: "store (write_at R 4 ys) (n + 4) [a, b] = Inr (W @ [a, b] @ drop (n + 6) r)" for a b
    using R(1) r W Rd [of "n + 6"] by (simp add: store_def write_at_def [of _ "n + 4"] add.commute)
  show ?thesis
    unfolding read_reply_def
    using r ys R(1) by (simp add: sr get s1 s2 d s3 W_def R(2) Let_def flip: ys_def)
qed

subsection \<open>Properties\<close>

text \<open>The sector of a page, on the two kinds of device, and the pages that can be transferred.\<close>

definition device_of :: "disk device_ops \<Rightarrow> (int \<Rightarrow> nat \<Rightarrow> nat) \<Rightarrow> (int \<Rightarrow> disk \<Rightarrow> nat \<Rightarrow> bool) \<Rightarrow> bool" where
  "device_of ops sec good =
     ((\<exists>stsec. ops = bdm_ops stsec \<and> sec = (\<lambda>mc p. stsec mc + p) \<and> good = bdm_good stsec)
      \<or> (\<exists>parts blocks. ops = hdd_ops parts blocks \<and> sec = (\<lambda>mc. Mcpage_to_Apasector (parts mc) (blocks mc))
           \<and> good = hdd_good parts blocks))"

text \<open>
  C16. A page written to an emulated card in any chunks arrives on the device, in the sector that belongs to
  the page and in no other page's; read back in any other chunks it is the same, and the 16 bytes
  read after it are the error correcting codes of its four parts and the card's fill byte.  This holds on
  a block device and on a hard disk file of several runs of sectors.
\<close>
theorem mc_page_roundtrip:
  assumes dev: "device_of ops sec good" and ok: "mcemu_ok i s"
    and ds: "[] \<notin> set ds" "length (concat ds) = 512" and ns: "0 \<notin> set ns" "sum_list ns = 512"
    and g: "good (mcnum (card i s)) (device s) p" and fuel: "0 < fuel"
  shows "\<exists>s1 s2 s3 outs.
      write_chunks ops fuel i ds (MceStartWrite i p s) = Inr (True, s1)
    \<and> disk_sector (device s1) (sec (mcnum (card i s)) p) = concat ds
    \<and> (\<forall>q. q \<noteq> p \<and> good (mcnum (card i s)) (device s) q
         \<longrightarrow> disk_sector (device s1) (sec (mcnum (card i s)) q) = disk_sector (device s) (sec (mcnum (card i s)) q))
    \<and> read_chunks ops fuel i ns (MceStartRead i p s1) = Inr (True, outs, s2)
    \<and> concat outs = concat ds \<and> map length outs = ns
    \<and> MceRead ops fuel i 16 s2 = Inr (True, ecc_block (card i s) (concat ds), s3) \<and> device s3 = device s1"
proof -
  obtain k where k: "fuel = Suc k" using fuel by (cases fuel) auto
  consider stsec where "ops = bdm_ops stsec" "sec = (\<lambda>mc p. stsec mc + p)" "good = bdm_good stsec"
    | parts blocks where "ops = hdd_ops parts blocks" "sec = (\<lambda>mc. Mcpage_to_Apasector (parts mc) (blocks mc))" "good = hdd_good parts blocks"
    using dev unfolding device_of_def by blast
  then show ?thesis
  proof cases
    case 1
    then show ?thesis using bdm.page_roundtrip [OF ok ds ns, of stsec p k] g k by simp
  next
    case 2
    then show ?thesis using hdd.page_roundtrip [OF ok ds ns, of parts blocks p k] g k by simp
  qed
qed

definition demo_card :: MemoryCard where
  "demo_card = \<lparr>mcnum = 0, rpage = 0, rdoff = 0, wpage = 0, wroff = 0, rcoff = 0, wcoff = 0, tcode = 0x5A,
     cspec = \<lparr>PageSize = 512, BlockSize = 16, CardSize = 16384\<rparr>, flags = 0x2B\<rparr>"

definition demo_cards :: "disk mcemu" where
  "demo_cards = \<lparr>memcards = [demo_card, demo_card\<lparr>mcnum := - 1\<rparr>], mcdatabuf = replicate 512 0,
     mceccbuf = [replicate 32 0, replicate 32 0],
     device = \<lparr>disk_sector = (\<lambda>_. replicate 512 0xFF), bad_sector = (\<lambda>_. False)\<rparr>\<rparr>"

definition demo_parts :: "int \<Rightarrow> apa_parts list" where
  "demo_parts mc = [\<lparr>part_start = 1000, part_length = 64\<rparr>, \<lparr>part_start = 5000, part_length = 64\<rparr>]"

definition demo_blocks :: "int \<Rightarrow> pfs_blocks list" where
  "demo_blocks mc = [\<lparr>blk_number = 2, blk_subpart = 0, blk_count = 1\<rparr>, \<lparr>blk_number = 1, blk_subpart = 1, blk_count = 2\<rparr>]"

theorem mc_page_roundtrip_witness:
  "\<exists>s1. write_chunks (hdd_ops demo_parts demo_blocks) 1 0 (replicate 4 (replicate 128 7)) (MceStartWrite 0 20 demo_cards) = Inr (True, s1)
    \<and> disk_sector (device s1) 5020 = concat (replicate 4 (replicate 128 7))"
proof -
  have sec: "Mcpage_to_Apasector (demo_parts 0) (demo_blocks 0) 20 = 5020"
    by (simp add: Mcpage_to_Apasector_def demo_parts_def demo_blocks_def)
  have "hdd_good demo_parts demo_blocks 0 (device demo_cards) 20"
    by (simp add: hdd_good_def Let_def sec) (simp add: runs_def layout_ok_def demo_parts_def demo_blocks_def run_def demo_cards_def)
  moreover have "device_of (hdd_ops demo_parts demo_blocks) (\<lambda>mc. Mcpage_to_Apasector (demo_parts mc) (demo_blocks mc)) (hdd_good demo_parts demo_blocks)"
    by (auto simp: device_of_def)
  moreover have "mcemu_ok 0 demo_cards" by (simp add: mcemu_ok_def demo_cards_def demo_card_def)
  moreover have "mcnum (card 0 demo_cards) = 0" by (simp add: demo_cards_def demo_card_def)
  ultimately show ?thesis
    using mc_page_roundtrip [of "hdd_ops demo_parts demo_blocks" "\<lambda>mc. Mcpage_to_Apasector (demo_parts mc) (demo_blocks mc)"
        "hdd_good demo_parts demo_blocks" 0 demo_cards "replicate 4 (replicate 128 7)" "replicate 4 128" 20 1]
    by (auto simp: sec length_concat sum_list_replicate)
qed

text \<open>
  C17. A packet with one data command of \<open>n\<close> bytes for an active card: the read buffer gets bytes 0xFF and 0x2B,
  the data of the card, their check sum and the card's termination code, the rest of the buffer stays.  When the
  page cannot be read, the data are 0xFF, and the status word reports the failure.
\<close>
theorem mc_read_packet:
  assumes sd: "ctrl sd = ctl # ctls" "ctl AND 0xF0 = 0x70" "wrcount sd = 1" "wrmaddr sd = 0x81 # 0x43 # n # ws"
    and i: "i = unat (ctl AND 0x1)" "mcnum (card i s) \<noteq> - 1"
    and run: "MceRead ops fuel i (unat n) s = Inr (ok, out, s')" "ok \<Longrightarrow> length out = unat n" "length out \<le> unat n"
    and r: "unat n + 6 \<le> length (rdmaddr sd)" "tcode (card i s') = tcode (card i s)"
  shows "Sio2McEmu ops fuel sd s
    = (let bs = (if ok then out else replicate (unat n) 0xFF)
       in Inr (sd\<lparr>iostatus := (if ok then 0x1100 else 0x1D100),
                  rdmaddr := [0xFF, 0xFF, 0xFF, 0x2B] @ bs @ [CalculateEDC bs, tcode (card i s)] @ drop (unat n + 6) (rdmaddr sd)\<rparr>, s'))"
proof -
  have nz: "ctl \<noteq> 0" using sd(2) by auto
  define R where "R = (let bs = (if ok then out else replicate (unat n) 0xFF)
      in [0xFF, 0xFF, 0xFF, 0x2B] @ bs @ [CalculateEDC bs, tcode (card i s)]) @ drop (unat n + 6) (rdmaddr sd)"
  have "read_reply ops fuel i (unat n) True (rdmaddr sd) s = Inr (ok, R, s')"
    unfolding R_def by (rule read_reply_bytes) (use run r in auto)
  then have "sio_command ops fuel (rdwords sd) ctl True (wrmaddr sd) (rdmaddr sd) s = Inr (ok, R, s')"
    using i by (simp add: sio_command_def byte_at_def sd(4) mc2_command_def Let_def)
  then have "sio_loop ops fuel (wrwords sd) (rdwords sd) (ctrl sd) (wrcount sd) 0 True (wrmaddr sd) [] (rdmaddr sd) s = Inr (ok, 1, R, s')"
    using nz sd(1,3) by (simp add: sio_loop_done)
  then have "Sio2McEmu ops fuel sd s = Inr (sd\<lparr>iostatus := (if ok then 0x1100 else 0x1D100), rdmaddr := R\<rparr>, s')"
    using sd(1,2) by (simp add: Sio2McEmu_def)
  then show ?thesis by (simp add: R_def Let_def)
qed

theorem mc_read_packet_witness:
  "\<exists>s'. Sio2McEmu (bdm_ops (\<lambda>_. 100)) 1 \<lparr>iostatus = 0, ctrl = [0x70, 0], wrmaddr = [0x81, 0x43, 2, 0, 0, 0, 0, 0], wrwords = 2,
      wrcount = 1, rdmaddr = replicate 8 0, rdwords = 2, pwr_buf = []\<rparr> demo_cards
    = Inr (\<lparr>iostatus = 0x1100, ctrl = [0x70, 0], wrmaddr = [0x81, 0x43, 2, 0, 0, 0, 0, 0], wrwords = 2, wrcount = 1,
        rdmaddr = [0xFF, 0xFF, 0xFF, 0x2B, 0xFF, 0xFF, 0, 0x5A], rdwords = 2, pwr_buf = []\<rparr>, s')"
proof -
  have ok: "mcemu_ok 0 demo_cards" by (simp add: mcemu_ok_def demo_cards_def demo_card_def)
  have c: "card 0 demo_cards = demo_card" by (simp add: demo_cards_def)
  have f: "rdoff demo_card = 0" "rcoff demo_card = 0" "rpage demo_card = 0" "mcnum demo_card = 0" by (simp_all add: demo_card_def)
  have d: "disk_sector (device demo_cards) (100 + 0) = replicate 512 0xFF" by (simp add: demo_cards_def)
  have "bdm_good (\<lambda>_. 100) 0 (device demo_cards) 0" by (simp add: bdm_good_def demo_cards_def)
  with bdm.MceRead_chunk [OF ok, of 2 "\<lambda>_. 100" "replicate 512 0xFF" 0] obtain s' where
    "MceRead (bdm_ops (\<lambda>_. 100)) 1 0 2 demo_cards = Inr (True, take 2 (replicate 512 0xFF), s')" "same_card demo_card (card 0 s')"
    unfolding c f d by auto
  moreover have t: "tcode demo_card = 0x5A" "mcnum demo_card = 0" by (simp_all add: demo_card_def)
  moreover have "tcode (card 0 s') = 0x5A" using calculation t by (simp add: same_card_def)
  moreover have two: "take 2 (replicate 512 (0xFF :: u8)) = [0xFF, 0xFF]" by (simp add: numeral_2_eq_2)
  moreover have edc: "CalculateEDC [0xFF, 0xFF] = 0" by (simp add: CalculateEDC_def)
  ultimately show ?thesis
    using mc_read_packet [of "\<lparr>iostatus = 0, ctrl = [0x70, 0], wrmaddr = [0x81, 0x43, 2, 0, 0, 0, 0, 0], wrwords = 2,
      wrcount = 1, rdmaddr = replicate 8 0, rdwords = 2, pwr_buf = []\<rparr>" "0x70" "[0]" 2 "[0, 0, 0, 0, 0]" 0 demo_cards
      "bdm_ops (\<lambda>_. 100)" 1 True "[0xFF, 0xFF]" s'] c
    by (intro exI [of _ s']) (simp add: two edc t)
qed

end
