(* ===== verification/Cnf.thy ===== *)
theory Cnf
  imports Prelude
begin

text \<open>
  Finding the program of a disc: the \<open>SYSTEM.CNF\<close> parser of \<open>src/src/ps2cnf.c\<close>, and from
  \<open>src/src/supportbase.c\<close> the reduction of a boot path to its file name (\<open>GetStartupExecName\<close>) and the
  classification of image names (\<open>isValidIsoName\<close>).  A pointer into the text is what is left of it;
  behind the end stands the terminator.
\<close>

subsection \<open>Definitions\<close>

definition CNF_LEN_MAX :: nat where "CNF_LEN_MAX = 1024"
definition CNF_PATH_LEN_MAX :: nat where "CNF_PATH_LEN_MAX = 64"

text \<open>The results of \<open>CNFGetToken\<close>: NULL, -1, or the place behind the key.\<close>

datatype token = NoMatch | EndOfFile | Behind string

fun match_key :: "string \<Rightarrow> string \<Rightarrow> token" where
  "match_key [] cnf = Behind cnf"
| "match_key (k # ks) [] = EndOfFile"
| "match_key (k # ks) (c # cnf) = (if c = NUL then EndOfFile else if c \<noteq> k then NoMatch else match_key ks cnf)"

definition CNFGetToken :: "string \<Rightarrow> string \<Rightarrow> token" where
  "CNFGetToken cnf key = match_key key (dropWhile isspace cnf)"

fun CNFAdvanceLine :: "string \<Rightarrow> string option" where
  "CNFAdvanceLine [] = None"
| "CNFAdvanceLine (c # start) = (if c = LF then (if start = [] then None else Some start) else CNFAdvanceLine start)"

text \<open>The characters that are stored, and whether a terminator is stored behind them.\<close>

fun key_loop :: "nat \<Rightarrow> string \<Rightarrow> string \<times> bool" where
  "key_loop 0 line = ([], False)"
| "key_loop (Suc n) [] = ([], False)"
| "key_loop (Suc n) (c # line) =
     (if c = NUL then ([], False)
      else if isgraph c then (let (k, t) = key_loop n line in (c # k, t))
      else if isspace c then ([], True)
      else key_loop n (c # line))"

definition CNFGetKey :: "string \<Rightarrow> string \<Rightarrow> ub + bool \<times> string" where
  "CNFGetKey line key =
     (case dropWhile isspace line of
        [] \<Rightarrow> Inr (False, key)
      | c # cs \<Rightarrow>
          if c = NUL then Inr (False, key)
          else let (k, t) = key_loop CNF_PATH_LEN_MAX (c # cs); k = (if t then k @ [NUL] else k)
               in if length key < length k then Inl OutOfBounds else Inr (True, write_at key 0 k))"

lemma CNFAdvanceLine_shorter: "CNFAdvanceLine cnf = Some next_line \<Longrightarrow> length next_line < length cnf"
  by (induction cnf) (auto split: if_splits)

function boot2_loop :: "string \<Rightarrow> token" where
  "boot2_loop cnf =
     (case CNFGetToken cnf ''BOOT2'' of
        NoMatch \<Rightarrow> (case CNFAdvanceLine cnf of None \<Rightarrow> EndOfFile | Some next_line \<Rightarrow> boot2_loop next_line)
      | EndOfFile \<Rightarrow> EndOfFile
      | Behind p \<Rightarrow> Behind p)"
  by auto

termination by (relation "measure length") (auto dest: CNFAdvanceLine_shorter)

declare boot2_loop.simps [simp del]

text \<open>
  \<open>contents\<close> is \<open>None\<close> when the file cannot be opened, else its text and the number of bytes that \<open>fread\<close>
  delivers.  The results are \<open>ENOENT\<close>, \<open>EIO\<close>, -1 and 0.
\<close>

definition ps2cnfGetBootFile :: "(string \<times> nat) option \<Rightarrow> string \<Rightarrow> ub + int \<times> string" where
  "ps2cnfGetBootFile contents bootfile =
     (case contents of
        None \<Rightarrow> Inr (2, bootfile)
      | Some (text_of, got) \<Rightarrow>
          let sz = (if CNF_LEN_MAX \<le> length text_of then CNF_LEN_MAX - 1 else length text_of)
          in if got < sz then Inr (5, bootfile)
             else case boot2_loop (take sz text_of) of
                    NoMatch \<Rightarrow> Inr (- 1, bootfile)
                  | EndOfFile \<Rightarrow> Inr (- 1, bootfile)
                  | Behind p \<Rightarrow>
                      (case CNFGetToken p ''='' of
                         EndOfFile \<Rightarrow> Inr (- 1, bootfile)
                       | NoMatch \<Rightarrow> Inl NullPointer
                       | Behind q \<Rightarrow> bindR (CNFGetKey q bootfile) (\<lambda>(ok, bootfile).
                           Inr (if ok then 0 else - 1, bootfile))))"

text \<open>Scanning an array for one of the characters; the index of the first one.\<close>

fun scan_for :: "(char \<Rightarrow> bool) \<Rightarrow> string \<Rightarrow> nat \<Rightarrow> ub + nat" where
  "scan_for P [] i = Inl OutOfBounds"
| "scan_for P (c # cs) i = (if P c then Inr i else scan_for P cs (i + 1))"

definition GetStartupExecName :: "(string \<times> nat) option \<Rightarrow> nat \<Rightarrow> ub + int \<times> string option" where
  "GetStartupExecName contents maxlength =
     bindR (ps2cnfGetBootFile contents (replicate CNF_PATH_LEN_MAX NUL)) (\<lambda>(ret, boot).
       if ret \<noteq> 0 then Inr (ret, None)
       else bindR (scan_for (\<lambda>c. c = CHR '':'' \<or> c = NUL) boot 0) (\<lambda>i.
         if boot ! i = NUL then Inr (- 1, None)
         else bindR (scan_for (\<lambda>c. c \<noteq> CHR 0x5C) (drop (i + 1) boot) (i + 1)) (\<lambda>start.
           bindR (scan_for (\<lambda>c. c = CHR '';'' \<or> c = NUL) (drop start boot) start) (\<lambda>j.
             let len = min (j - start) maxlength
             in if len = 0 then Inr (- 1, None) else Inr (0, Some (take len (drop start boot)))))))"

datatype game_format = GAME_FORMAT_USBLD | GAME_FORMAT_OLD_ISO | GAME_FORMAT_ISO

definition strcasecmp_eq :: "string \<Rightarrow> string \<Rightarrow> bool" where
  "strcasecmp_eq s t = (map tolower s = map tolower t)"

definition isValidIsoName :: "string \<Rightarrow> ub + (game_format \<times> nat) option" where
  "isValidIsoName name =
     (let sz = length name
      in if sz < 4 then Inl OutOfBounds
         else if strcasecmp_eq (drop (sz - 4) name) ''.iso'' \<or> strcasecmp_eq (drop (sz - 4) name) ''.zso''
         then if 17 \<le> sz \<and> name ! 4 = CHR ''_'' \<and> name ! 8 = CHR ''.'' \<and> name ! 11 = CHR ''.''
              then Inr (Some (GAME_FORMAT_OLD_ISO, sz - 16))
              else if 5 \<le> sz then Inr (Some (GAME_FORMAT_ISO, sz - 4))
              else Inr None
         else Inr None)"

subsection \<open>Lines\<close>

lemma match_key_append: "match_key ks cnf = NoMatch \<Longrightarrow> match_key ks (cnf @ more) = NoMatch"
  by (induction ks cnf rule: match_key.induct) (auto split: if_splits)

lemma match_key_same: "NUL \<notin> set key \<Longrightarrow> match_key key (key @ more) = Behind more"
  by (induction key) auto

lemma dropWhile_spaces: "\<forall>c \<in> set w. P c \<Longrightarrow> dropWhile P (w @ t) = dropWhile P t"
  by (induction w) auto

lemma advance_line: "\<lbrakk>LF \<notin> set l; t \<noteq> []\<rbrakk> \<Longrightarrow> CNFAdvanceLine (l @ LF # t) = Some t"
  by (induction l) auto

definition other_line :: "string \<Rightarrow> bool" where
  "other_line l = (LF \<notin> set l \<and> (list_all isspace l \<or> match_key ''BOOT2'' (dropWhile isspace l) = NoMatch))"

lemma isspace_LF [simp]: "isspace LF" by (simp add: isspace_def LF_def)

lemma boot2_other_line:
  assumes l: "other_line l" and t: "t \<noteq> []"
  shows "boot2_loop (l @ LF # t) = boot2_loop t"
proof (cases "list_all isspace l")
  case True
  then have "CNFGetToken (l @ LF # t) ''BOOT2'' = CNFGetToken t ''BOOT2''"
    by (simp add: CNFGetToken_def dropWhile_spaces list_all_iff)
  then show ?thesis
    using advance_line [OF _ t, of l] l boot2_loop.simps [of t] boot2_loop.simps [of "l @ LF # t"]
    by (cases "CNFGetToken t ''BOOT2''") (simp_all add: other_line_def)
next
  case False
  then obtain c where c: "c \<in> set l" "\<not> isspace c" by (auto simp: list_all_iff)
  have "CNFGetToken (l @ LF # t) ''BOOT2'' = NoMatch"
    using l False dropWhile_append1 [of c l isspace, OF c] match_key_append
    by (auto simp: CNFGetToken_def other_line_def)
  then show ?thesis
    using advance_line [OF _ t, of l] l boot2_loop.simps [of "l @ LF # t"] by (simp add: other_line_def)
qed

lemma boot2_other_lines:
  "\<lbrakk>list_all other_line ls; t \<noteq> []\<rbrakk> \<Longrightarrow> boot2_loop (concat (map (\<lambda>l. l @ [LF]) ls) @ t) = boot2_loop t"
proof (induction ls)
  case (Cons l ls)
  have "boot2_loop (l @ LF # (concat (map (\<lambda>l. l @ [LF]) ls) @ t)) = boot2_loop (concat (map (\<lambda>l. l @ [LF]) ls) @ t)"
    using Cons.prems by (intro boot2_other_line) auto
  then show ?case using Cons by simp
qed simp

lemma token_after_spaces:
  "\<lbrakk>list_all isspace w; NUL \<notin> set key; key \<noteq> []; \<not> isspace (hd key)\<rbrakk> \<Longrightarrow> CNFGetToken (w @ key @ t) key = Behind t"
  by (cases key) (auto simp: CNFGetToken_def dropWhile_spaces list_all_iff match_key_same)

subsection \<open>The path\<close>

lemma isgraph_not: "isgraph c \<Longrightarrow> c \<noteq> NUL \<and> \<not> isspace c"
  by (auto simp: isgraph_def isspace_def NUL_def)

lemma key_loop_graph:
  "\<lbrakk>list_all isgraph key; length key < n; rest = [] \<or> isspace (hd rest)\<rbrakk> \<Longrightarrow> key_loop n (key @ rest) = (key, rest \<noteq> [])"
proof (induction key arbitrary: n)
  case Nil
  then obtain m where "n = Suc m" by (cases n) auto
  then show ?case using Nil by (cases rest) (auto simp: isspace_def isgraph_def NUL_def)
next
  case (Cons c key)
  then obtain m where "n = Suc m" by (cases n) auto
  then show ?case using Cons isgraph_not [of c] by simp
qed

lemma CNFGetKey_path:
  assumes w: "list_all isspace w" and key: "list_all isgraph key" "key \<noteq> []" "length key < 64"
    and rest: "rest = [] \<or> isspace (hd rest)"
  shows "CNFGetKey (w @ key @ rest) (replicate CNF_PATH_LEN_MAX NUL) = Inr (True, key @ replicate (64 - length key) NUL)"
proof -
  obtain c cs where c: "key = c # cs" using key(2) by (cases key) auto
  have "dropWhile isspace (w @ key @ rest) = key @ rest"
    using w key(1) isgraph_not [of c] by (simp add: dropWhile_spaces list_all_iff c)
  moreover have "key_loop 64 (key @ rest) = (key, rest \<noteq> [])" using key rest by (intro key_loop_graph) auto
  moreover have "replicate (64 - length key) NUL = NUL # replicate (64 - Suc (length key)) NUL"
    using key(3) by (simp flip: replicate_Suc add: Suc_diff_Suc)
  ultimately show ?thesis
    using key isgraph_not [of c] by (simp add: CNFGetKey_def CNF_PATH_LEN_MAX_def c write_at_def Let_def)
qed

lemma scan_for_found:
  "\<lbrakk>\<forall>c \<in> set xs. \<not> P c; P c\<rbrakk> \<Longrightarrow> scan_for P (xs @ c # ys) i = Inr (i + length xs)"
  by (induction xs arbitrary: i) auto

lemma boot_file_path:
  assumes lines: "list_all other_line ls" and spaces: "list_all isspace w0" "list_all isspace w1" "list_all isspace w2"
    and key: "list_all isgraph key" "key \<noteq> []" "length key < 64" and rest: "rest = [] \<or> isspace (hd rest)"
    and t: "t = concat (map (\<lambda>l. l @ [LF]) ls) @ w0 @ ''BOOT2'' @ w1 @ ''='' @ w2 @ key @ rest" "length t < 1024" "length t \<le> got"
  shows "ps2cnfGetBootFile (Some (t, got)) (replicate CNF_PATH_LEN_MAX NUL) = Inr (0, key @ replicate (64 - length key) NUL)"
proof -
  let ?u = "w0 @ ''BOOT2'' @ (w1 @ ''='' @ w2 @ key @ rest)"
  have "boot2_loop t = boot2_loop ?u" using boot2_other_lines [OF lines, of ?u] by (simp add: t(1))
  moreover have "CNFGetToken ?u ''BOOT2'' = Behind (w1 @ ''='' @ w2 @ key @ rest)"
    by (rule token_after_spaces) (use spaces in \<open>auto simp: NUL_def isspace_def\<close>)
  moreover have "CNFGetToken (w1 @ ''='' @ (w2 @ key @ rest)) ''='' = Behind (w2 @ key @ rest)"
    by (rule token_after_spaces) (use spaces in \<open>auto simp: NUL_def isspace_def\<close>)
  ultimately show ?thesis
    using t(2,3) CNFGetKey_path [OF spaces(3) key rest] boot2_loop.simps [of ?u]
    by (simp add: ps2cnfGetBootFile_def CNF_LEN_MAX_def)
qed

subsection \<open>Properties\<close>

text \<open>
  The program of a disc: when \<open>SYSTEM.CNF\<close> has, behind any other lines and blank ones, a line
  \<open>BOOT2 = device:\\name;version\<close> with any white space between its parts, the launcher gets exactly the name, cut to its bound,
  and no array is left on the way.
\<close>
theorem boot_name_found:
  assumes lines: "list_all other_line ls" and spaces: "list_all isspace w0" "list_all isspace w1" "list_all isspace w2"
    and dev: "list_all isgraph dev" "CHR '':'' \<notin> set dev"
    and name: "list_all isgraph name" "CHR '';'' \<notin> set name" "name \<noteq> []" "hd name \<noteq> CHR 0x5C"
    and ver: "list_all isgraph ver" "ver = [] \<or> hd ver = CHR '';''"
    and key: "key = dev @ '':'' @ replicate k (CHR 0x5C) @ name @ ver" "length key < 64" and rest: "rest = [] \<or> isspace (hd rest)"
    and t: "t = concat (map (\<lambda>l. l @ [LF]) ls) @ w0 @ ''BOOT2'' @ w1 @ ''='' @ w2 @ key @ rest" "length t < 1024" "length t \<le> got"
    and m: "0 < m"
  shows "GetStartupExecName (Some (t, got)) m = Inr (0, Some (take m name))"
proof -
  let ?b = "key @ replicate (64 - length key) NUL" and ?i = "length dev"
  have g: "list_all isgraph key" "key \<noteq> []"
    using dev(1) name(1) ver(1) by (auto simp: key(1) isgraph_def list_all_iff)
  have no_nul: "NUL \<notin> set xs" if "list_all isgraph xs" for xs using that isgraph_not by (auto simp: list_all_iff)
  obtain n where "64 - length key = Suc n" using key(2) by (metis zero_less_diff gr0_conv_Suc)
  then obtain z where z: "replicate (64 - length key) NUL = NUL # z" by simp
  obtain c cs where c: "name = c # cs" "c \<noteq> CHR 0x5C" using name(3,4) by (cases name) auto
  obtain e es where e: "ver @ NUL # z = e # es" "e = CHR '';'' \<or> e = NUL" using ver(2) by (cases ver) auto
  have "?b = key @ NUL # z" by (simp add: z)
  also have "\<dots> = dev @ CHR '':'' # (replicate k (CHR 0x5C) @ name @ e # es)" using e(1) by (simp add: key(1))
  finally have b: "?b = dev @ CHR '':'' # (replicate k (CHR 0x5C) @ name @ e # es)" .
  have s1: "scan_for (\<lambda>c. c = CHR '':'' \<or> c = NUL) ?b 0 = Inr ?i"
    unfolding b using dev no_nul [OF dev(1)] by (subst scan_for_found) auto
  have d1: "drop (?i + 1) ?b = replicate k (CHR 0x5C) @ c # (cs @ e # es)" by (simp add: b c(1))
  have s2: "scan_for (\<lambda>c. c \<noteq> CHR 0x5C) (drop (?i + 1) ?b) (?i + 1) = Inr (?i + 1 + k)"
    unfolding d1 using c(2) by (subst scan_for_found) auto
  have d2: "drop (?i + 1 + k) ?b = name @ e # es" unfolding b by simp
  have s3: "scan_for (\<lambda>c. c = CHR '';'' \<or> c = NUL) (drop (?i + 1 + k) ?b) (?i + 1 + k) = Inr (?i + 1 + k + length name)"
    unfolding d2 using name(2) no_nul [OF name(1)] e(2) by (subst scan_for_found) auto
  have n: "?b ! ?i = CHR '':''" unfolding b by simp
  show ?thesis
    using boot_file_path [OF lines spaces g key(2) rest t] s1 s2 s3 n m name(3) d2
    by (simp add: GetStartupExecName_def NUL_def Let_def min_def)
qed

theorem boot_name_found_witness:
  "GetStartupExecName (Some (''VER = 1.00'' @ CR # LF # LF # '' BOOT2 = cdrom0:'' @ CHR 0x5C # ''SLUS_203.12;1'' @ CR # LF # ''VMODE = NTSC'', 100)) 11
    = Inr (0, Some ''SLUS_203.12'')"
proof -
  let ?t = "''VER = 1.00'' @ CR # LF # LF # '' BOOT2 = cdrom0:'' @ CHR 0x5C # ''SLUS_203.12;1'' @ CR # LF # ''VMODE = NTSC''"
  have "list_all other_line [''VER = 1.00'' @ [CR], []]" by (simp add: other_line_def isspace_def NUL_def LF_def CR_def)
  then have "GetStartupExecName (Some (?t, 100)) 11 = Inr (0, Some (take 11 ''SLUS_203.12''))"
    by (rule boot_name_found [where ?w0.0 = "'' ''" and ?w1.0 = "'' ''" and ?w2.0 = "'' ''" and dev = "''cdrom0''" and k = 1
          and ver = "'';1''" and rest = "CR # LF # ''VMODE = NTSC''" and key = "''cdrom0:'' @ CHR 0x5C # ''SLUS_203.12;1''"])
      (simp_all add: isspace_def isgraph_def LF_def CR_def)
  then show ?thesis by simp
qed

text \<open>
  What the parser does not check: a key that merely begins with \<open>BOOT2\<close> sends the null pointer to
  \<open>CNFGetKey\<close>, and a path of 64 or more characters without a colon in the first 64 is scanned behind its array.
\<close>

lemma key_loop_full: "\<lbrakk>list_all isgraph key; n \<le> length key\<rbrakk> \<Longrightarrow> key_loop n key = (take n key, False)"
proof (induction n arbitrary: key)
  case (Suc n)
  then obtain c cs where "key = c # cs" by (cases key) auto
  then show ?case using Suc isgraph_not [of c] by simp
qed simp

lemma boot_key_prefix_null:
  assumes "isgraph c" "c \<noteq> CHR ''=''" "length rest < 512" "6 + length rest \<le> got"
  shows "GetStartupExecName (Some (''BOOT2'' @ c # rest, got)) m = Inl NullPointer"
proof -
  have "CNFGetToken (''BOOT2'' @ c # rest) ''BOOT2'' = Behind (c # rest)" by (simp add: CNFGetToken_def isspace_def NUL_def)
  then have "boot2_loop (''BOOT2'' @ c # rest) = Behind (c # rest)" by (simp add: boot2_loop.simps)
  moreover have "CNFGetToken (c # rest) ''='' = NoMatch" using assms(1,2) isgraph_not [of c] by (simp add: CNFGetToken_def)
  ultimately show ?thesis using assms(3,4) by (simp add: GetStartupExecName_def ps2cnfGetBootFile_def CNF_LEN_MAX_def)
qed

lemma scan_for_none: "\<forall>c \<in> set xs. \<not> P c \<Longrightarrow> scan_for P xs i = Inl OutOfBounds"
  by (induction xs arbitrary: i) auto

lemma boot_path_unterminated:
  assumes key: "list_all isgraph key" "64 \<le> length key" "CHR '':'' \<notin> set (take 64 key)" and len: "length key < 512" "6 + length key \<le> got"
  shows "GetStartupExecName (Some (''BOOT2='' @ key, got)) m = Inl OutOfBounds"
proof -
  obtain c cs where c: "key = c # cs" using key(2) by (cases key) auto
  have "CNFGetToken (''BOOT2='' @ key) ''BOOT2'' = Behind (''='' @ key)" by (simp add: CNFGetToken_def isspace_def NUL_def)
  then have "boot2_loop (''BOOT2='' @ key) = Behind (''='' @ key)" by (simp add: boot2_loop.simps)
  moreover have "CNFGetToken (''='' @ key) ''='' = Behind key" by (simp add: CNFGetToken_def isspace_def NUL_def)
  moreover have "CNFGetKey key (replicate CNF_PATH_LEN_MAX NUL) = Inr (True, take 64 key)"
    using key_loop_full [OF key(1,2)] key isgraph_not [of c]
    by (simp add: CNFGetKey_def c CNF_PATH_LEN_MAX_def write_at_def min_def)
  ultimately have "ps2cnfGetBootFile (Some (''BOOT2='' @ key, got)) (replicate CNF_PATH_LEN_MAX NUL) = Inr (0, take 64 key)"
    using len by (simp add: ps2cnfGetBootFile_def CNF_LEN_MAX_def)
  moreover have "scan_for (\<lambda>c. c = CHR '':'' \<or> c = NUL) (take 64 key) 0 = Inl OutOfBounds"
    using key(1,3) isgraph_not by (intro scan_for_none) (auto simp: list_all_iff dest: in_set_takeD)
  ultimately show ?thesis by (simp add: GetStartupExecName_def)
qed

end
