(* ===== verification/GameList.thy ===== *)
theory GameList
  imports CStdlib Cnf
begin

text \<open>
  Games in \<open>ul.cfg\<close>, the list of images that are cut into parts: reading and rebuilding the list, paths of
  the parts, renaming and deleting (\<open>src/src/supportbase.c\<close>), the check sum of a name
  (\<open>src/src/system.c\<close>), and the installer on a computer that writes the same list
  (\<open>src/pc/iso2opl/src/iso2opl.c\<close>).  Files are lists of characters, one per byte.
\<close>

abbreviation byte_char :: "u8 \<Rightarrow> char" where
  "byte_char b \<equiv> char_of (unat b)"

subsection \<open>The check sum of a name\<close>

definition crc_shift :: "u32 \<Rightarrow> u32" where
  "crc_shift crc = (if bit crc 31 then push_bit 1 crc else push_bit 1 crc XOR 0x04C11DB7)"

definition crc_entry :: "nat \<Rightarrow> u32" where
  "crc_entry table = (crc_shift ^^ 8) (push_bit 24 (of_nat table))"

text \<open>\<open>crctab[255 - table]\<close> is the entry of \<open>table\<close>; the rest of the array is zero.\<close>

definition crctab :: "u32 list" where
  "crctab = map (\<lambda>i. crc_entry (255 - i)) [0..<256] @ replicate 768 0"

text \<open>A \<open>char\<close> is signed, so that one of 128 or more gives a negative index.\<close>

definition crc_byte :: "u32 \<Rightarrow> nat \<Rightarrow> ub + u32" where
  "crc_byte crc byte =
     (if 128 \<le> byte then Inl OutOfBounds
      else Inr (crctab ! unat (of_nat byte XOR (drop_bit 24 crc AND 0xFF)) XOR (push_bit 8 crc AND 0xFFFFFF00)))"

fun usba_loop :: "string \<Rightarrow> nat \<Rightarrow> u32 \<Rightarrow> ub + u32" where
  "usba_loop [] count crc = crc_byte crc 0"
| "usba_loop (c # s) count crc =
     bindR (crc_byte crc (code c)) (\<lambda>crc. if count + 1 \<le> 32 then usba_loop s (count + 1) crc else Inr crc)"

definition USBA_crc32 :: "string \<Rightarrow> ub + u32" where
  "USBA_crc32 s = usba_loop s 0 (crc_entry 255)"

fun pc_loop :: "string \<Rightarrow> u32 \<Rightarrow> ub + u32" where
  "pc_loop [] crc = crc_byte crc 0"
| "pc_loop (c # s) crc = bindR (crc_byte crc (code c)) (pc_loop s)"

definition pc_crc32 :: "string \<Rightarrow> ub + u32" where
  "pc_crc32 s = pc_loop s (crc_entry 255)"

subsection \<open>Games\<close>

definition UL_GAME_NAME_MAX :: nat where "UL_GAME_NAME_MAX = 32"
definition ISO_GAME_NAME_MAX :: nat where "ISO_GAME_NAME_MAX = 160"
definition ISO_GAME_EXTENSION_MAX :: nat where "ISO_GAME_EXTENSION_MAX = 4"
definition GAME_STARTUP_MAX :: nat where "GAME_STARTUP_MAX = 12"

text \<open>The first three fields are whole arrays, of 161, 13 and 5 characters.\<close>

record base_game_info =
  g_name :: string
  g_startup :: string
  g_extension :: string
  g_parts :: u8
  g_media :: u8
  g_format :: game_format
  sizeMB :: nat

definition zero_game :: base_game_info where
  "zero_game = \<lparr>g_name = replicate 161 NUL, g_startup = replicate 13 NUL, g_extension = replicate 5 NUL,
     g_parts = 0, g_media = 0, g_format = GAME_FORMAT_USBLD, sizeMB = 0\<rparr>"

text \<open>The string in an array.\<close>

definition cstr :: "string \<Rightarrow> string" where
  "cstr a = takeWhile (\<lambda>c. c \<noteq> NUL) a"

text \<open>An entry of the file: name (32), magic (3), startup (12), parts, media, unknown (4), Byte08, unknown2 (10).\<close>

definition entry_size :: nat where "entry_size = 64"

definition entry_bytes :: "string \<Rightarrow> string \<Rightarrow> u8 \<Rightarrow> u8 \<Rightarrow> string" where
  "entry_bytes name startup parts media =
     name @ ''ul.'' @ startup @ [byte_char parts, byte_char media] @ replicate 4 NUL @ [CHR 0x08] @ replicate 10 NUL"

subsection \<open>Reading ul.cfg\<close>

definition ul_game :: "string \<Rightarrow> base_game_info \<Rightarrow> base_game_info" where
  "ul_game e g = g\<lparr>
     g_name := write_at (g_name g) 0 (take UL_GAME_NAME_MAX e @ [NUL]),
     g_startup := write_at (g_startup g) 0 (take GAME_STARTUP_MAX (drop 35 e) @ [NUL]),
     g_extension := write_at (g_extension g) 0 [NUL],
     g_parts := of_char (e ! 47), g_media := of_char (e ! 48), g_format := GAME_FORMAT_USBLD, sizeMB := 0\<rparr>"

text \<open>\<open>buf\<close> is \<open>GameEntry\<close>, of which a short read leaves the rest as it was.\<close>

function ul_loop :: "int \<Rightarrow> nat \<Rightarrow> string \<Rightarrow> string \<Rightarrow> base_game_info list \<Rightarrow> ub + nat \<times> base_game_info list" where
  "ul_loop sz idx rest buf list =
     (if 0 < sz
      then if length list \<le> idx then Inl OutOfBounds
           else let buf = write_at buf 0 (take entry_size rest)
                in ul_loop (sz - int entry_size) (idx + 1) (drop entry_size rest) buf (list[idx := ul_game buf (list ! idx)])
      else Inr (idx, list))"
  by auto
termination by (relation "measure (\<lambda>(sz, idx, rest, buf, list). nat sz)") (auto simp: entry_size_def)

declare ul_loop.simps [simp del]

text \<open>\<open>contents\<close> is the file; \<open>n\<close> is the number of other games, \<open>buf\<close> the uninitialised entry.\<close>

definition read_ul :: "string \<Rightarrow> string \<Rightarrow> nat \<Rightarrow> ub + nat \<times> base_game_info list" where
  "read_ul contents buf n =
     ul_loop (int (length contents)) 0 contents buf (replicate (n + length contents div entry_size) zero_game)"

subsection \<open>Paths\<close>

fun hex_digits :: "string \<Rightarrow> nat \<Rightarrow> string" where
  "hex_digits ds n = (if n < 16 then [ds ! n] else hex_digits ds (n div 16) @ [ds ! (n mod 16)])"

declare hex_digits.simps [simp del]

definition zero_pad :: "nat \<Rightarrow> string \<Rightarrow> string" where
  "zero_pad w s = replicate (w - length s) (CHR ''0'') @ s"

definition fmt_08X :: "u32 \<Rightarrow> string" where
  "fmt_08X w = zero_pad 8 (hex_digits ''0123456789ABCDEF'' (unat w))"

definition fmt_02x :: "nat \<Rightarrow> string" where
  "fmt_02x n = zero_pad 2 (hex_digits ''0123456789abcdef'' n)"

definition fmt_02d :: "nat \<Rightarrow> string" where
  "fmt_02d n = zero_pad 2 (nat_to_dec n)"

definition SCECdPS2CD :: u8 where "SCECdPS2CD = 0x12"
definition SCECdPS2DVD :: u8 where "SCECdPS2DVD = 0x14"

definition sbCreatePath_name :: "base_game_info \<Rightarrow> string \<Rightarrow> string \<Rightarrow> nat \<Rightarrow> string \<Rightarrow> ub + string" where
  "sbCreatePath_name game prefix sep part game_name =
     (let dir = (if g_media game = SCECdPS2CD then ''CD'' else ''DVD'')
      in case g_format game of
           GAME_FORMAT_USBLD \<Rightarrow> bindR (USBA_crc32 game_name) (\<lambda>crc.
             Inr (bounded 256 (prefix @ ''ul.'' @ fmt_08X crc @ ''.'' @ cstr (g_startup game) @ ''.'' @ fmt_02x part)))
         | GAME_FORMAT_ISO \<Rightarrow> Inr (bounded 256 (prefix @ dir @ sep @ game_name @ cstr (g_extension game)))
         | GAME_FORMAT_OLD_ISO \<Rightarrow>
             Inr (bounded 256 (prefix @ dir @ sep @ cstr (g_startup game) @ ''.'' @ game_name @ cstr (g_extension game))))"

definition sbCreatePath :: "base_game_info \<Rightarrow> string \<Rightarrow> string \<Rightarrow> nat \<Rightarrow> ub + string" where
  "sbCreatePath game prefix sep part = sbCreatePath_name game prefix sep part (cstr (g_name game))"

subsection \<open>Writing ul.cfg\<close>

fun rebuild_loop :: "nat \<Rightarrow> nat \<Rightarrow> int \<Rightarrow> base_game_info list \<Rightarrow> ub + string" where
  "rebuild_loop 0 i excludeID gs = Inr []"
| "rebuild_loop (Suc n) i excludeID [] = Inl OutOfBounds"
| "rebuild_loop (Suc n) i excludeID (g # gs) =
     bindR (rebuild_loop n (i + 1) excludeID gs) (\<lambda>out.
       Inr ((if g_format g = GAME_FORMAT_USBLD \<and> int i \<noteq> excludeID
             then entry_bytes (take UL_GAME_NAME_MAX (g_name g)) (take GAME_STARTUP_MAX (g_startup g)) (g_parts g) (g_media g)
             else []) @ out))"

text \<open>The new contents of the file; when it cannot be opened, the old ones.\<close>

definition sbRebuildULCfg :: "base_game_info list \<Rightarrow> nat \<Rightarrow> int \<Rightarrow> bool \<Rightarrow> string \<Rightarrow> ub + string" where
  "sbRebuildULCfg list gamecount excludeID opened old =
     (if opened then rebuild_loop gamecount 0 excludeID list else Inr old)"

text \<open>
  Files are a map from paths to contents.  \<open>unlink\<close> and \<open>rename\<close> of a missing file do nothing; \<open>rename\<close>
  replaces an existing one.
\<close>

type_synonym files = "string \<Rightarrow> string option"

definition file_rename :: "string \<Rightarrow> string \<Rightarrow> files \<Rightarrow> files" where
  "file_rename old new fs = (if fs old = None \<or> old = new then fs else fs(old := None, new := fs old))"

fun unlink_parts :: "base_game_info \<Rightarrow> string \<Rightarrow> string \<Rightarrow> nat \<Rightarrow> nat \<Rightarrow> files \<Rightarrow> ub + files" where
  "unlink_parts game prefix sep part 0 fs = Inr fs"
| "unlink_parts game prefix sep part (Suc n) fs =
     bindR (sbCreatePath game prefix sep part) (\<lambda>path. unlink_parts game prefix sep (part + 1) n (fs(path := None)))"

definition rebuild_file :: "base_game_info list \<Rightarrow> string \<Rightarrow> nat \<Rightarrow> int \<Rightarrow> bool \<Rightarrow> files \<Rightarrow> ub + files" where
  "rebuild_file list prefix gamecount excludeID opened fs =
     (if opened then bindR (rebuild_loop gamecount 0 excludeID list) (\<lambda>c. Inr (fs(bounded 256 (prefix @ ''ul.cfg'') := Some c)))
      else Inr fs)"

definition sbDelete :: "base_game_info list \<Rightarrow> string \<Rightarrow> string \<Rightarrow> nat \<Rightarrow> nat \<Rightarrow> bool \<Rightarrow> files \<Rightarrow> ub + files" where
  "sbDelete list prefix sep gamecount idx opened fs =
     (if length list \<le> idx then Inl OutOfBounds
      else let game = list ! idx
           in bindR (unlink_parts game prefix sep 0 (unat (g_parts game)) fs) (\<lambda>fs.
                if g_format game = GAME_FORMAT_USBLD then rebuild_file list prefix gamecount (int idx) opened fs else Inr fs))"

fun rename_parts :: "base_game_info \<Rightarrow> string \<Rightarrow> string \<Rightarrow> string \<Rightarrow> nat \<Rightarrow> nat \<Rightarrow> files \<Rightarrow> ub + files" where
  "rename_parts game prefix sep newname part 0 fs = Inr fs"
| "rename_parts game prefix sep newname part (Suc n) fs =
     bindR (sbCreatePath_name game prefix sep part (cstr (g_name game))) (\<lambda>oldpath.
       bindR (sbCreatePath_name game prefix sep part newname) (\<lambda>newpath.
         rename_parts game prefix sep newname (part + 1) n (file_rename oldpath newpath fs)))"

text \<open>\<open>newname\<close> is the whole array of the new name.\<close>

definition sbRename :: "base_game_info list \<Rightarrow> string \<Rightarrow> string \<Rightarrow> nat \<Rightarrow> nat \<Rightarrow> string \<Rightarrow> bool \<Rightarrow> files
    \<Rightarrow> ub + base_game_info list \<times> files" where
  "sbRename list prefix sep gamecount idx newname opened fs =
     (if length list \<le> idx then Inl OutOfBounds
      else let game = list ! idx
           in bindR (rename_parts game prefix sep (cstr newname) 0 (unat (g_parts game)) fs) (\<lambda>fs.
                if g_format game = GAME_FORMAT_USBLD
                then if length newname < UL_GAME_NAME_MAX then Inl OutOfBounds
                     else let list = list[idx := game\<lparr>g_name := write_at (g_name game) 0 (take UL_GAME_NAME_MAX newname @ [NUL])\<rparr>]
                          in bindR (rebuild_file list prefix gamecount (- 1) opened fs) (\<lambda>fs. Inr (list, fs))
                else Inr (list, fs)))"

subsection \<open>The installer\<close>

text \<open>\<open>write_cfg\<close>: the entry that is appended to the file; \<open>check_cfg\<close>: the search for the same game.\<close>

definition pc_entry :: "string \<Rightarrow> string \<Rightarrow> string \<Rightarrow> u8 \<Rightarrow> ub + string" where
  "pc_entry game_name game_id media parts =
     (if 64 < 32 + 3 + length game_id + 1 then Inl OutOfBounds
      else let cfg = write_at (replicate 64 NUL) 0 (take 32 game_name);
               cfg = write_at cfg 32 (''ul.'' @ game_id @ [NUL]);
               cfg = cfg[47 := byte_char parts, 53 := CHR 0x08]
           in Inr (if media = ''CD'' then cfg[48 := CHR 0x12] else if media = ''DVD'' then cfg[48 := CHR 0x14] else cfg))"

definition write_cfg :: "string \<Rightarrow> string \<Rightarrow> string \<Rightarrow> u8 \<Rightarrow> string \<Rightarrow> ub + string" where
  "write_cfg game_name game_id media parts contents = bindR (pc_entry game_name game_id media parts) (\<lambda>e. Inr (contents @ e))"

function check_cfg :: "string \<Rightarrow> string \<Rightarrow> string \<Rightarrow> int" where
  "check_cfg game_name game_id contents =
     (if contents = [] then 0
      else if length contents < 64 then - 3
      else if cstr (take 64 contents) = game_name then - 1
      else if cstr (drop 32 (take 64 contents)) = ''ul.'' @ game_id then - 2
      else check_cfg game_name game_id (drop 64 contents))"
  by auto
termination by (relation "measure (\<lambda>(n, i, c). length c)") auto

declare check_cfg.simps [simp del]

definition pc_part_name :: "string \<Rightarrow> string \<Rightarrow> nat \<Rightarrow> ub + string" where
  "pc_part_name game_name game_id i =
     bindR (pc_crc32 game_name) (\<lambda>crc. Inr (''ul.'' @ fmt_08X crc @ ''.'' @ game_id @ ''.'' @ fmt_02d i))"

subsection \<open>Entries\<close>

lemma write_at_whole: "length xs = length buf \<Longrightarrow> write_at buf 0 xs = xs"
  by (simp add: write_at_def)

lemma ul_loop_entries:
  "\<lbrakk>\<forall>e \<in> set es. length e = 64; length buf = 64\<rbrakk>
   \<Longrightarrow> ul_loop (int (length (concat es))) (length gs) (concat es) buf (gs @ replicate (length es + n) zero_game)
     = Inr (length gs + length es, gs @ map (\<lambda>e. ul_game e zero_game) es @ replicate n zero_game)"
proof (induction es arbitrary: gs buf)
  case Nil
  then show ?case by (simp add: ul_loop.simps)
next
  case (Cons e es)
  let ?g = "ul_game e zero_game"
  have e: "length e = 64" "take 64 (e @ concat es) = e" "drop 64 (e @ concat es) = concat es" using Cons.prems by simp_all
  have "ul_loop (int (length (concat es))) (length (gs @ [?g])) (concat es) e ((gs @ [?g]) @ replicate (length es + n) zero_game)
      = Inr (length (gs @ [?g]) + length es, (gs @ [?g]) @ map (\<lambda>e. ul_game e zero_game) es @ replicate n zero_game)"
    by (rule Cons.IH) (use Cons.prems in auto)
  then show ?case
    using e Cons.prems(2)
    by (subst ul_loop.simps) (simp add: entry_size_def Let_def nth_append list_update_append write_at_whole)
qed

lemma length_concat_entries: "\<forall>e \<in> set es. length e = 64 \<Longrightarrow> length (concat es) = 64 * length es"
  by (induction es) auto

lemma read_ul_entries:
  assumes "\<forall>e \<in> set es. length e = 64" "length buf = 64"
  shows "read_ul (concat es) buf n = Inr (length es, map (\<lambda>e. ul_game e zero_game) es @ replicate n zero_game)"
  using ul_loop_entries [OF assms, of "[]" n] assms(1)
  by (simp add: read_ul_def entry_size_def length_concat_entries add.commute)

lemma entry_bytes_parts:
  assumes "length name = 32" "length startup = 12"
  shows "length (entry_bytes name startup parts media) = 64"
    "take 32 (entry_bytes name startup parts media) = name"
    "take 12 (drop 35 (entry_bytes name startup parts media)) = startup"
    "entry_bytes name startup parts media ! 47 = byte_char parts"
    "entry_bytes name startup parts media ! 48 = byte_char media"
  using assms by (simp_all add: entry_bytes_def nth_append)

lemma byte_char_of [simp]: "of_char (byte_char b) = b"
proof -
  have "of_char (byte_char b) = (of_nat (of_char (byte_char b)) :: u8)" by (rule of_nat_of_char [symmetric])
  also have "\<dots> = of_nat (unat b)" using unsigned_less [of b, where 'a = nat] by (simp add: of_char_of)
  finally show ?thesis by simp
qed

lemma byte_char_code [simp]: "byte_char (of_char c) = c"
proof -
  have "unat (of_char c :: u8) = unat (of_nat (of_char c) :: u8)" by (simp only: of_nat_of_char)
  also have "\<dots> = of_char c" using nat_of_char_less_256 [of c] by (simp only: unsigned_of_nat) (simp add: take_bit_nat_eq_self)
  finally show ?thesis by simp
qed

text \<open>A game that is read back: its two strings, padded, and its two numbers.\<close>

definition same_ul :: "base_game_info \<Rightarrow> base_game_info \<Rightarrow> bool" where
  "same_ul g g' = (cstr (g_name g') = cstr (take 32 (g_name g)) \<and> cstr (g_startup g') = cstr (take 12 (g_startup g))
     \<and> g_parts g' = g_parts g \<and> g_media g' = g_media g \<and> g_format g' = GAME_FORMAT_USBLD \<and> cstr (g_extension g') = [] \<and> sizeMB g' = 0)"

definition game_arrays :: "base_game_info \<Rightarrow> bool" where
  "game_arrays g = (length (g_name g) = 161 \<and> length (g_startup g) = 13 \<and> length (g_extension g) = 5)"

definition game_entry :: "base_game_info \<Rightarrow> string" where
  "game_entry g = entry_bytes (take UL_GAME_NAME_MAX (g_name g)) (take GAME_STARTUP_MAX (g_startup g)) (g_parts g) (g_media g)"

lemma cstr_NUL: "cstr (xs @ NUL # ys) = cstr xs"
  by (induction xs) (auto simp: cstr_def)

lemma ul_game_entry:
  assumes "length name = 32" "length startup = 12"
  shows "ul_game (entry_bytes name startup parts media) zero_game =
    \<lparr>g_name = name @ replicate 129 NUL, g_startup = startup @ [NUL], g_extension = replicate 5 NUL,
     g_parts = parts, g_media = media, g_format = GAME_FORMAT_USBLD, sizeMB = 0\<rparr>"
proof -
  have "NUL # replicate 128 NUL = replicate 129 NUL" "NUL # replicate 4 NUL = replicate 5 NUL" by (simp_all flip: replicate_Suc)
  then show ?thesis
    using entry_bytes_parts [OF assms, of parts media] assms
    by (simp add: ul_game_def UL_GAME_NAME_MAX_def GAME_STARTUP_MAX_def zero_game_def write_at_def)
qed

lemma reread_game:
  assumes "game_arrays g"
  shows "length (game_entry g) = 64" "same_ul g (ul_game (game_entry g) zero_game)"
proof -
  have l: "length (take 32 (g_name g)) = 32" "length (take 12 (g_startup g)) = 12" using assms by (simp_all add: game_arrays_def)
  have "cstr (xs @ replicate (Suc n) NUL) = cstr xs" for xs n by (simp add: cstr_NUL)
  from this [of _ 128] this [of _ 0] have z: "cstr (xs @ replicate 129 NUL) = cstr xs" "cstr (xs @ [NUL]) = cstr xs" for xs
    by (simp_all add: numeral_eq_Suc)
  show "length (game_entry g) = 64"
    using entry_bytes_parts(1) [OF l] by (simp add: game_entry_def UL_GAME_NAME_MAX_def GAME_STARTUP_MAX_def)
  show "same_ul g (ul_game (game_entry g) zero_game)"
    using ul_game_entry [OF l, of "g_parts g" "g_media g"] z
    by (simp add: same_ul_def game_entry_def UL_GAME_NAME_MAX_def GAME_STARTUP_MAX_def) (simp add: cstr_def)
qed

text \<open>The games that are written: those of the list in parts, except one.\<close>

definition kept :: "nat \<Rightarrow> int \<Rightarrow> base_game_info list \<Rightarrow> base_game_info list" where
  "kept i ex gs = map snd (filter (\<lambda>(j, g). g_format g = GAME_FORMAT_USBLD \<and> int j \<noteq> ex) (enumerate i gs))"

lemma rebuild_loop_kept: "rebuild_loop (length gs) i ex gs = Inr (concat (map game_entry (kept i ex gs)))"
proof (induction gs arbitrary: i)
  case (Cons g gs)
  then show ?case by (simp add: kept_def game_entry_def)
qed (simp add: kept_def)

subsection \<open>Check sums and numbers in names\<close>

lemma usba_pc: "count + length s \<le> 32 \<Longrightarrow> usba_loop s count crc = pc_loop s crc"
proof (induction s arbitrary: count crc)
  case (Cons c s)
  then show ?case by (cases "crc_byte crc (of_char c)") auto
qed simp

definition ascii :: "string \<Rightarrow> bool" where
  "ascii s = list_all (\<lambda>c. (code c :: nat) < 128) s"

lemma pc_loop_ascii: "ascii s \<Longrightarrow> \<exists>crc'. pc_loop s crc = Inr crc'"
  by (induction s arbitrary: crc) (auto simp: ascii_def crc_byte_def)

lemma pc_crc32_ascii: "ascii s \<Longrightarrow> \<exists>crc. pc_crc32 s = Inr crc"
  by (simp add: pc_crc32_def pc_loop_ascii)

lemma USBA_crc32_short: "length s \<le> 32 \<Longrightarrow> USBA_crc32 s = pc_crc32 s"
  by (simp add: USBA_crc32_def pc_crc32_def usba_pc)

lemma length_hex_digits_le: "n < 16 ^ k \<Longrightarrow> 0 < k \<Longrightarrow> length (hex_digits ds n) \<le> k"
proof (induction k arbitrary: n)
  case (Suc k)
  show ?case
  proof (cases "n < 16")
    case True
    then show ?thesis by (subst hex_digits.simps) simp
  next
    case False
    have "k \<noteq> 0" using Suc.prems(1) False by (cases k) auto
    moreover have "n div 16 < 16 ^ k" using Suc.prems(1) by (simp add: less_mult_imp_div_less mult.commute)
    ultimately have "length (hex_digits ds (n div 16)) \<le> k" by (intro Suc.IH) auto
    with False show ?thesis by (subst hex_digits.simps) simp
  qed
qed simp

lemma length_zero_pad: "length s \<le> w \<Longrightarrow> length (zero_pad w s) = w"
  by (simp add: zero_pad_def)

lemma length_fmt_08X [simp]: "length (fmt_08X w) = 8"
proof -
  have "unat w < 16 ^ 8" using unsigned_less [of w, where 'a = nat] by simp
  then show ?thesis using length_hex_digits_le [of "unat w" 8] by (simp add: fmt_08X_def length_zero_pad)
qed

lemma fmt_02x_eq: "n < 256 \<Longrightarrow> fmt_02x n = [''0123456789abcdef'' ! (n div 16), ''0123456789abcdef'' ! (n mod 16)]"
  by (cases "n < 16") (simp_all add: fmt_02x_def zero_pad_def hex_digits.simps [of _ n] hex_digits.simps [of _ "n div 16"] less_mult_imp_div_less)

lemma length_fmt_02x [simp]: "n < 256 \<Longrightarrow> length (fmt_02x n) = 2"
  by (simp add: fmt_02x_eq)

lemma fmt_02x_inj: "\<lbrakk>m < 256; n < 256; fmt_02x m = fmt_02x n\<rbrakk> \<Longrightarrow> m = n"
proof -
  assume a: "m < 256" "n < 256" "fmt_02x m = fmt_02x n"
  have d: "distinct ''0123456789abcdef''" by simp
  have l: "m div 16 < 16" "n div 16 < 16" using a by (simp_all add: less_mult_imp_div_less)
  have "m div 16 = n div 16" "m mod 16 = n mod 16"
    using a(3) l by (simp_all add: fmt_02x_eq [OF a(1)] fmt_02x_eq [OF a(2)] nth_eq_iff_index_eq [OF d])
  then show ?thesis by (metis div_mult_mod_eq)
qed

lemma digit_char_hex: "n < 10 \<Longrightarrow> ''0123456789abcdef'' ! n = digit_char n"
proof -
  assume "n < 10"
  moreover have "list_all (\<lambda>n. ''0123456789abcdef'' ! n = digit_char n) [0..<10]" by code_simp
  ultimately show ?thesis by (simp add: list_all_iff)
qed

lemma fmt_02x_decimal: "n < 10 \<Longrightarrow> fmt_02x n = fmt_02d n"
  using digit_char_hex [of n] by (simp add: fmt_02x_eq fmt_02d_def zero_pad_def nat_to_dec.simps [of n] numeral_2_eq_2)

lemma fmt_02d_two:
  assumes "10 \<le> n" "n < 100"
  shows "fmt_02d n = fmt_02x (16 * (n div 10) + n mod 10)"
proof -
  have d: "n div 10 < 10" "n mod 10 < 10" using assms(2) by (simp_all add: less_mult_imp_div_less)
  have m: "16 * (n div 10) + n mod 10 < 256" using d by simp
  have q: "(16 * (n div 10) + n mod 10) div 16 = n div 10" "(16 * (n div 10) + n mod 10) mod 16 = n mod 10"
    using d by simp_all
  have "nat_to_dec n = [digit_char (n div 10), digit_char (n mod 10)]"
    using assms(1) d by (simp add: nat_to_dec.simps [of n] nat_to_dec.simps [of "n div 10"])
  then show ?thesis
    by (simp only: fmt_02d_def fmt_02x_eq [OF m] q digit_char_hex [OF d(1)] digit_char_hex [OF d(2)]) (simp add: zero_pad_def)
qed

lemma decimal_parts_differ: "\<lbrakk>10 \<le> n; n < 256\<rbrakk> \<Longrightarrow> fmt_02x n \<noteq> fmt_02d n"
proof
  assume n: "10 \<le> n" "n < 256" and eq: "fmt_02x n = fmt_02d n"
  show False
  proof (cases "n < 100")
    case True
    let ?m = "16 * (n div 10) + n mod 10"
    have "n div 10 < 10" "n mod 10 < 10" using True by (simp_all add: less_mult_imp_div_less)
    then have "?m < 256" by simp
    then have "n = ?m" using fmt_02x_inj [of n ?m] fmt_02d_two [OF n(1) True] eq n(2) by simp
    moreover have "n = 10 * (n div 10) + n mod 10" by (rule mult_div_mod_eq [symmetric])
    moreover have "0 < n div 10" using n(1) by (simp add: div_greater_zero_iff)
    ultimately show False by linarith
  next
    case False
    then have "\<not> n < 10" "\<not> n div 10 < 10" by simp_all
    then have "nat_to_dec n = (nat_to_dec (n div 10 div 10) @ [digit_char (n div 10 mod 10)]) @ [digit_char (n mod 10)]"
      by (simp only: nat_to_dec.simps [of n] nat_to_dec.simps [of "n div 10"] if_False)
    moreover have "0 < length (nat_to_dec (n div 10 div 10))" by simp
    ultimately have "2 < length (nat_to_dec n)" by (simp only: length_append list.size)
    then have "2 < length (fmt_02d n)" by (simp add: fmt_02d_def zero_pad_def)
    then show False using eq n(2) length_fmt_02x [of n] by simp
  qed
qed

subsection \<open>Paths of parts\<close>

definition part_path :: "string \<Rightarrow> u32 \<Rightarrow> string \<Rightarrow> nat \<Rightarrow> string" where
  "part_path prefix crc startup part = prefix @ ''ul.'' @ fmt_08X crc @ ''.'' @ startup @ ''.'' @ fmt_02x part"

lemma length_part_path: "part < 256 \<Longrightarrow> length (part_path prefix crc startup part) = length prefix + length startup + 15"
  by (simp add: part_path_def)

lemma part_path_inj: "\<lbrakk>p < 256; q < 256; part_path prefix c st p = part_path prefix c' st q\<rbrakk> \<Longrightarrow> p = q"
  by (simp add: part_path_def fmt_02x_inj)

lemma create_path_ul:
  assumes "g_format g = GAME_FORMAT_USBLD" "USBA_crc32 name = Inr crc" "length prefix + length (cstr (g_startup g)) < 240" "part < 256"
  shows "sbCreatePath_name g prefix sep part name = Inr (part_path prefix crc (cstr (g_startup g)) part)"
proof -
  have "length (part_path prefix crc (cstr (g_startup g)) part) < 256" using assms(3,4) by (simp add: length_part_path)
  then show ?thesis using assms(1,2) by (simp add: sbCreatePath_name_def part_path_def)
qed

subsection \<open>Renaming\<close>

lemma rename_parts_moves:
  assumes g: "g_format g = GAME_FORMAT_USBLD" and crc: "USBA_crc32 (cstr (g_name g)) = Inr c" "USBA_crc32 newname = Inr c'"
    and len: "length prefix + length (cstr (g_startup g)) < 240"
  shows "part + n \<le> 256 \<Longrightarrow> \<exists>fs'. rename_parts g prefix sep newname part n fs = Inr fs'
    \<and> (\<forall>p. part \<le> p \<and> p < part + n \<and> fs (part_path prefix c (cstr (g_startup g)) p) \<noteq> None
         \<longrightarrow> fs' (part_path prefix c' (cstr (g_startup g)) p) = fs (part_path prefix c (cstr (g_startup g)) p))
    \<and> (\<forall>q. (\<forall>p. part \<le> p \<and> p < part + n
            \<longrightarrow> q \<noteq> part_path prefix c (cstr (g_startup g)) p \<and> q \<noteq> part_path prefix c' (cstr (g_startup g)) p) \<longrightarrow> fs' q = fs q)"
proof (induction n arbitrary: part fs)
  case (Suc n)
  let ?old = "part_path prefix c (cstr (g_startup g))" and ?new = "part_path prefix c' (cstr (g_startup g))"
  let ?fs1 = "file_rename (?old part) (?new part) fs"
  have p: "sbCreatePath_name g prefix sep part (cstr (g_name g)) = Inr (?old part)"
    "sbCreatePath_name g prefix sep part newname = Inr (?new part)"
    using create_path_ul [OF g _ len] crc Suc.prems by simp_all
  from Suc.IH [of "part + 1" ?fs1] Suc.prems obtain fs' where
    r: "rename_parts g prefix sep newname (part + 1) n ?fs1 = Inr fs'"
    and m: "\<And>p. part + 1 \<le> p \<and> p < part + 1 + n \<and> ?fs1 (?old p) \<noteq> None \<Longrightarrow> fs' (?new p) = ?fs1 (?old p)"
    and o: "\<And>q. (\<forall>p. part + 1 \<le> p \<and> p < part + 1 + n \<longrightarrow> q \<noteq> ?old p \<and> q \<noteq> ?new p) \<Longrightarrow> fs' q = ?fs1 q" by auto
  have ne: "?old p \<noteq> ?old part" "?old p \<noteq> ?new part" "?new p \<noteq> ?new part" "?new p \<noteq> ?old part" if "part + 1 \<le> p" "p < part + 1 + n" for p
    using part_path_inj [of p part] that Suc.prems by fastforce+
  have keep: "?fs1 q = fs q" if "q \<noteq> ?old part" "q \<noteq> ?new part" for q using that by (simp add: file_rename_def)
  have moved: "fs' (?new part) = fs (?old part)" if "fs (?old part) \<noteq> None"
  proof -
    have "fs' (?new part) = ?fs1 (?new part)" using ne by (intro o) metis
    then show ?thesis using that by (auto simp: file_rename_def)
  qed
  have "fs' (?new p) = fs (?old p)" if "part \<le> p" "p < part + Suc n" "fs (?old p) \<noteq> None" for p
  proof (cases "p = part")
    case False
    then have "part + 1 \<le> p" "p < part + 1 + n" using that(1,2) by auto
    then show ?thesis using m [of p] keep ne that(3) by auto
  qed (use moved that in simp)
  moreover have "fs' q = fs q" if "\<forall>p. part \<le> p \<and> p < part + Suc n \<longrightarrow> q \<noteq> ?old p \<and> q \<noteq> ?new p" for q
    using that o [of q] keep [of q] by simp
  ultimately show ?case using r p by (intro exI [of _ fs']) simp
qed auto

subsection \<open>Properties\<close>

text \<open>
  C19. Writing the list of games back to \<open>ul.cfg\<close> and reading it again gives exactly the games in parts, in order
  and without the excluded one, each with the same name (its first 32 characters), start-up file, number of
  parts and medium.
\<close>
theorem ulcfg_roundtrip:
  assumes "list_all game_arrays gs" "length buf = 64"
  shows "\<exists>c gs'. sbRebuildULCfg gs (length gs) excludeID True old = Inr c
    \<and> read_ul c buf n = Inr (length (kept 0 excludeID gs), gs' @ replicate n zero_game)
    \<and> list_all2 same_ul (kept 0 excludeID gs) gs'"
proof -
  let ?k = "kept 0 excludeID gs"
  have k: "\<forall>g \<in> set ?k. game_arrays g"
    using assms(1) set_zip_rightD by (fastforce simp: kept_def list_all_iff enumerate_eq_zip)
  have "read_ul (concat (map game_entry ?k)) buf n = Inr (length ?k, map (\<lambda>e. ul_game e zero_game) (map game_entry ?k) @ replicate n zero_game)"
    using read_ul_entries [of "map game_entry ?k" buf n] k assms(2) reread_game(1) by simp
  moreover have "list_all2 same_ul ?k (map (\<lambda>e. ul_game e zero_game) (map game_entry ?k))"
    using k reread_game(2) by (simp add: list_all2_conv_all_nth)
  ultimately show ?thesis by (simp add: sbRebuildULCfg_def rebuild_loop_kept)
qed

definition pad :: "nat \<Rightarrow> string \<Rightarrow> string" where
  "pad n s = s @ replicate (n - length s) NUL"

lemma length_pad [simp]: "length s \<le> n \<Longrightarrow> length (pad n s) = n"
  by (simp add: pad_def)

lemma cstr_id: "cstring s \<Longrightarrow> cstr s = s"
  by (simp add: cstr_def cstring_def takeWhile_neq_none)

lemma cstr_pad: "cstring s \<Longrightarrow> cstr (pad n s @ replicate m NUL) = s"
proof -
  assume s: "cstring s"
  have "cstr (s @ replicate k NUL) = s" for k using s cstr_id [OF s] by (cases k) (simp_all add: cstr_NUL)
  then show ?thesis by (simp add: pad_def flip: replicate_add)
qed

lemma pc_entry_bytes:
  assumes "length game_name \<le> 32" "length game_id \<le> 12" "media = ''CD'' \<and> m = 0x12 \<or> media = ''DVD'' \<and> m = 0x14"
  shows "pc_entry game_name game_id media parts = Inr (entry_bytes (pad 32 game_name) (pad 12 game_id) parts m)"
proof -
  let ?P = "pad 32 game_name @ ''ul.'' @ pad 12 game_id"
  have "write_at (replicate 64 NUL) 0 (take 32 game_name) = pad 32 game_name @ replicate 32 NUL"
    using assms(1) by (simp add: write_at_def pad_def flip: replicate_add)
  moreover have "write_at (pad 32 game_name @ replicate 32 NUL) 32 (''ul.'' @ game_id @ [NUL]) = ?P @ replicate 17 NUL"
  proof -
    have "NUL # replicate (28 - length game_id) NUL = replicate (29 - length game_id) NUL"
      using assms(2) by (simp flip: replicate_Suc add: Suc_diff_le)
    moreover have "replicate (29 - length game_id) NUL = replicate (12 - length game_id) NUL @ replicate 17 NUL"
      using assms(2) by (simp flip: replicate_add)
    ultimately show ?thesis using assms(1) by (simp add: write_at_def pad_def)
  qed
  moreover have "(?P @ replicate 17 NUL)[47 := byte_char parts, 53 := CHR 0x08, 48 := byte_char m]
      = ?P @ [byte_char parts, byte_char m] @ replicate 4 NUL @ [CHR 0x08] @ replicate 10 NUL"
    using assms(1,2) by (simp add: list_update_append numeral_eq_Suc)
  moreover have "CHR 0x12 = char_of (18 :: nat)" "CHR 0x14 = char_of (20 :: nat)" by code_simp+
  ultimately show ?thesis using assms by (auto simp: pc_entry_def entry_bytes_def)
qed

text \<open>
  C18. A game with an ASCII name that the installer on a computer adds to \<open>ul.cfg\<close> is the last one that the loader lists there,
  behind the unchanged other games, with its name, start-up file, number of parts and medium; and the loader looks
  for a part under the file name that the installer has chosen exactly when it is one of the first ten (the loader numbers them in
  hexadecimal, the installer in decimal).
\<close>
theorem installed_game_listed:
  assumes es: "\<forall>e \<in> set es. length e = 64" "length buf = 64"
    and name: "cstring game_name" "ascii game_name" "length game_name \<le> 32"
    and startup: "cstring game_id" "length game_id \<le> 12"
    and media: "media = ''CD'' \<and> m = SCECdPS2CD \<or> media = ''DVD'' \<and> m = SCECdPS2DVD" and prefix: "length prefix < 200"
  shows "\<exists>contents gs g. write_cfg game_name game_id media parts (concat es) = Inr contents
    \<and> read_ul (concat es) buf 0 = Inr (length es, gs) \<and> read_ul contents buf 0 = Inr (length es + 1, gs @ [g])
    \<and> cstr (g_name g) = game_name \<and> cstr (g_startup g) = game_id \<and> g_parts g = parts \<and> g_media g = m
    \<and> (\<forall>i < 256. \<exists>f. pc_part_name game_name game_id i = Inr f \<and> (sbCreatePath g prefix sep i = Inr (prefix @ f) \<longleftrightarrow> i < 10))"
proof -
  let ?e = "entry_bytes (pad 32 game_name) (pad 12 game_id) parts m" and ?g = "ul_game (entry_bytes (pad 32 game_name) (pad 12 game_id) parts m) zero_game"
  have e: "pc_entry game_name game_id media parts = Inr ?e" "length ?e = 64"
    using pc_entry_bytes [OF name(3) startup(2)] media entry_bytes_parts(1) name(3) startup(2)
    by (simp_all add: SCECdPS2CD_def SCECdPS2DVD_def)
  have g: "cstr (g_name ?g) = game_name" "cstr (g_startup ?g) = game_id" "g_parts ?g = parts" "g_media ?g = m" "g_format ?g = GAME_FORMAT_USBLD"
    using ul_game_entry [of "pad 32 game_name" "pad 12 game_id" parts m] name startup cstr_pad [of game_name 32 129] cstr_pad [of game_id 12 1]
    by simp_all
  obtain crc where crc: "USBA_crc32 game_name = Inr crc" "pc_crc32 game_name = Inr crc"
    using pc_crc32_ascii [OF name(2)] USBA_crc32_short [OF name(3)] by auto
  have "\<exists>f. pc_part_name game_name game_id i = Inr f \<and> (sbCreatePath ?g prefix sep i = Inr (prefix @ f) \<longleftrightarrow> i < 10)" if "i < 256" for i
  proof -
    have "sbCreatePath ?g prefix sep i = Inr (part_path prefix crc game_id i)"
      using create_path_ul [OF g(5) crc(1), of prefix i sep] prefix startup(2) that by (simp add: sbCreatePath_def g)
    then show ?thesis using crc(2) fmt_02x_decimal [of i] decimal_parts_differ [of i] that by (cases "i < 10") (simp_all add: pc_part_name_def part_path_def)
  qed
  moreover have "read_ul (concat es @ ?e) buf 0 = Inr (length es + 1, map (\<lambda>e. ul_game e zero_game) es @ [?g])"
    using read_ul_entries [of "es @ [?e]" buf 0] es e(2) by simp
  ultimately show ?thesis
    using read_ul_entries [OF es, of 0] e(1) g
    by (intro exI [of _ "concat es @ ?e"] exI [of _ "map (\<lambda>e. ul_game e zero_game) es"] exI [of _ ?g]) (simp add: write_cfg_def)
qed

theorem installed_game_listed_witness:
  "\<exists>contents gs g. write_cfg ''Ico'' ''SCUS_971.13'' ''CD'' 1 [] = Inr contents
    \<and> read_ul contents (replicate 64 NUL) 0 = Inr (1, gs @ [g]) \<and> cstr (g_name g) = ''Ico''"
proof -
  have "cstring ''Ico''" "cstring ''SCUS_971.13''" "ascii ''Ico''" by (simp_all add: cstring_def NUL_def ascii_def)
  with installed_game_listed [of "[]" "replicate 64 NUL" "''Ico''" "''SCUS_971.13''" "''CD''" SCECdPS2CD "''mass0:''" 1 "''/''"]
  show ?thesis by auto
qed

definition demo_game :: base_game_info where
  "demo_game = zero_game\<lparr>g_name := pad 32 ''Ico'' @ replicate 129 NUL, g_startup := pad 12 ''SCUS_971.13'' @ [NUL], g_parts := 1, g_media := SCECdPS2CD\<rparr>"

lemma demo_game_arrays: "game_arrays demo_game"
  by (simp add: game_arrays_def demo_game_def zero_game_def)

theorem ulcfg_roundtrip_witness:
  "\<exists>c gs'. sbRebuildULCfg [demo_game, demo_game] 2 1 True [] = Inr c
    \<and> read_ul c (replicate 64 NUL) 0 = Inr (1, gs') \<and> list_all2 same_ul [demo_game] gs'"
proof -
  have k: "kept 0 1 [demo_game, demo_game] = [demo_game]" by (simp add: kept_def demo_game_def zero_game_def)
  show ?thesis using ulcfg_roundtrip [of "[demo_game, demo_game]" "replicate 64 NUL" 1 "[]" 0] demo_game_arrays
    by (simp add: k numeral_2_eq_2)
qed

lemma cstr_short: "\<lbrakk>a ! n = NUL; n < length a\<rbrakk> \<Longrightarrow> length (cstr a) \<le> n"
proof (induction a arbitrary: n)
  case (Cons c a)
  then show ?case by (cases n) (auto simp: cstr_def)
qed simp

lemma cstr_cut: "\<lbrakk>cstring s; length s \<le> n\<rbrakk> \<Longrightarrow> cstr (take n (s @ NUL # junk) @ NUL # ys) = s"
proof (induction s arbitrary: n)
  case Nil
  then show ?case by (cases n) (simp_all add: cstr_def)
next
  case (Cons c s)
  then obtain m where "n = Suc m" by (cases n) auto
  then show ?case using Cons by (auto simp: cstr_def cstring_def)
qed

text \<open>
  Renaming a game in parts: the entry gets the new name; every part file that existed is found, with
  the same contents, under the path that the loader now builds for it; no file of another name is touched;
  and \<open>ul.cfg\<close> lists all games in parts, the renamed one with its new name.
\<close>
theorem renamed_game_found:
  assumes gs: "list_all game_arrays gs" "k < length gs" and g: "g_format (gs ! k) = GAME_FORMAT_USBLD" "g_name (gs ! k) ! 32 = NUL"
      "ascii (cstr (g_name (gs ! k)))"
    and new: "cstring new" "ascii new" "length new \<le> 32" "32 \<le> length (new @ NUL # junk)"
    and prefix: "length prefix < 200" and buf: "length buf = 64"
  shows "\<exists>gs' fs' cfg. sbRename gs prefix sep (length gs) k (new @ NUL # junk) True fs = Inr (gs', fs')
    \<and> length gs' = length gs \<and> cstr (g_name (gs' ! k)) = new \<and> (\<forall>j < length gs. j \<noteq> k \<longrightarrow> gs' ! j = gs ! j)
    \<and> (\<forall>p < unat (g_parts (gs ! k)). \<exists>old_path new_path. sbCreatePath (gs ! k) prefix sep p = Inr old_path
         \<and> sbCreatePath (gs' ! k) prefix sep p = Inr new_path \<and> (fs old_path \<noteq> None \<longrightarrow> fs' new_path = fs old_path))
    \<and> fs' (prefix @ ''ul.cfg'') = Some cfg \<and> (\<exists>r. read_ul cfg buf 0 = Inr (length r, r) \<and> list_all2 same_ul (kept 0 (- 1) gs') r)"
proof -
  let ?g = "gs ! k" and ?cfg = "prefix @ ''ul.cfg''"
  let ?st = "cstr (g_startup ?g)" and ?g' = "?g\<lparr>g_name := write_at (g_name ?g) 0 (take UL_GAME_NAME_MAX (new @ NUL # junk) @ [NUL])\<rparr>"
  have a: "game_arrays ?g" using gs by (simp add: list_all_length)
  have l: "length ?st \<le> 13" using a length_takeWhile_le [of _ "g_startup ?g"] by (simp add: cstr_def game_arrays_def)
  have short: "length (cstr (g_name ?g)) \<le> 32" using cstr_short [OF g(2)] a by (simp add: game_arrays_def)
  obtain c where c: "USBA_crc32 (cstr (g_name ?g)) = Inr c" using pc_crc32_ascii [OF g(3)] USBA_crc32_short [OF short] by auto
  obtain c' where c': "USBA_crc32 new = Inr c'" using pc_crc32_ascii [OF new(2)] USBA_crc32_short [OF new(3)] by auto
  have len: "length prefix + length ?st < 240" using prefix l by simp
  have n: "cstr (new @ NUL # junk) = new" using new(1) by (simp add: cstr_NUL cstr_id)
  have parts: "unat (g_parts ?g) \<le> 256" using unsigned_less [of "g_parts ?g", where 'a = nat] by simp
  from rename_parts_moves [OF g(1) c c' len, of 0 "unat (g_parts ?g)" sep fs] parts obtain fs1 where
    fs1: "rename_parts ?g prefix sep new 0 (unat (g_parts ?g)) fs = Inr fs1"
    "\<And>p. p < unat (g_parts ?g) \<Longrightarrow> fs (part_path prefix c ?st p) \<noteq> None \<Longrightarrow> fs1 (part_path prefix c' ?st p) = fs (part_path prefix c ?st p)"
    by auto
  let ?gs = "gs[k := ?g']"
  have "g_name ?g' = take 32 (new @ NUL # junk) @ NUL # drop 33 (g_name ?g)"
    using new(3,4) by (simp add: write_at_def UL_GAME_NAME_MAX_def min_absorb1)
  moreover have "cstr (take 32 (new @ NUL # junk) @ NUL # ys) = new" for ys using cstr_cut [OF new(1,3)] by blast
  ultimately have name: "cstr (g_name ?g') = new" by simp
  have "list_all game_arrays ?gs"
    using gs a new(4) by (auto simp: list_all_length nth_list_update game_arrays_def UL_GAME_NAME_MAX_def)
  from ulcfg_roundtrip [OF this buf, of "- 1" "[]" 0] obtain cfg r where
    cfg: "rebuild_loop (length ?gs) 0 (- 1) ?gs = Inr cfg" "read_ul cfg buf 0 = Inr (length (kept 0 (- 1) ?gs), r)"
    "list_all2 same_ul (kept 0 (- 1) ?gs) r" by (auto simp: sbRebuildULCfg_def)
  have run: "sbRename gs prefix sep (length gs) k (new @ NUL # junk) True fs = Inr (?gs, fs1(?cfg := Some cfg))"
    using gs(2) fs1(1) g(1) new(4) cfg(1) prefix n by (simp add: sbRename_def UL_GAME_NAME_MAX_def rebuild_file_def Let_def)
  have paths: "sbCreatePath ?g prefix sep p = Inr (part_path prefix c ?st p)"
    "sbCreatePath (?gs ! k) prefix sep p = Inr (part_path prefix c' ?st p)" "part_path prefix c' ?st p \<noteq> ?cfg"
    if "p < unat (g_parts ?g)" for p
  proof -
    have p: "p < 256" using that parts by simp
    show "sbCreatePath ?g prefix sep p = Inr (part_path prefix c ?st p)"
      using create_path_ul [OF g(1) c len p] by (simp add: sbCreatePath_def)
    show "sbCreatePath (?gs ! k) prefix sep p = Inr (part_path prefix c' ?st p)"
      using create_path_ul [of ?g' new c' prefix p sep] c' len p g(1) gs(2) name by (simp add: sbCreatePath_def)
    show "part_path prefix c' ?st p \<noteq> ?cfg" by (auto simp: part_path_def dest: arg_cong [where f = length])
  qed
  have "length r = length (kept 0 (- 1) ?gs)" using cfg(3) by (simp add: list_all2_lengthD)
  then show ?thesis
    using run name cfg(2,3) paths fs1(2) gs(2)
    by (intro exI [of _ ?gs] exI [of _ "fs1(?cfg := Some cfg)"] exI [of _ cfg]) simp
qed

theorem renamed_game_found_witness:
  "\<exists>gs' fs'. sbRename [demo_game] ''mass0:'' ''/'' 1 0 (''Ico (US)'' @ NUL # replicate 40 NUL) True (\<lambda>_. Some ''data'') = Inr (gs', fs')
    \<and> cstr (g_name (gs' ! 0)) = ''Ico (US)''"
proof -
  have "cstring ''Ico''" by (simp add: cstring_def NUL_def)
  then have d: "cstr (g_name demo_game) = ''Ico''" by (simp add: demo_game_def cstr_pad)
  have "ascii ''Ico''" "ascii ''Ico (US)''" "cstring ''Ico (US)''" by (simp_all add: ascii_def cstring_def NUL_def)
  moreover have "g_format demo_game = GAME_FORMAT_USBLD" "g_name demo_game ! 32 = NUL"
    by (simp_all add: demo_game_def zero_game_def pad_def nth_append)
  ultimately show ?thesis
    using renamed_game_found [of "[demo_game]" 0 "''Ico (US)''" "replicate 40 NUL" "''mass0:''" "replicate 64 NUL" "''/''" "\<lambda>_. Some ''data''"]
      demo_game_arrays d by (auto simp: numeral_2_eq_2)
qed

end
