(* ===== verification/IsoScan.thy ===== *)
theory IsoScan
  imports GameList
begin

text \<open>
  Games that are disc images, and the whole list of a device (\<open>src/src/supportbase.c\<close>): the scan of
  a directory into a linked list whose nodes are slots of one growing array, the cache file of a directory, and
  \<open>sbReadList\<close>, which puts the games of \<open>ul.cfg\<close>, \<open>DVD\<close> and \<open>CD\<close> into one array and frees the nodes.
  A block of the heap is the list of the slots that are in use; it is \<open>None\<close> when it has been freed.
\<close>

subsection \<open>State\<close>

type_synonym slot_ptr = "nat \<times> nat"

record game_list =
  gameinfo :: base_game_info
  next_game :: "slot_ptr option"

type_synonym blocks = "nat \<Rightarrow> game_list list option"

definition load_slot :: "blocks \<Rightarrow> slot_ptr \<Rightarrow> ub + game_list" where
  "load_slot h p =
     (case h (fst p) of
        None \<Rightarrow> Inl UseAfterFree
      | Some slots \<Rightarrow> if snd p < length slots then Inr (slots ! snd p) else Inl Uninitialised)"

text \<open>\<open>free\<close> accepts the start of a block only.\<close>

definition free_slot :: "blocks \<Rightarrow> slot_ptr \<Rightarrow> ub + blocks" where
  "free_slot h p = (if h (fst p) = None then Inl UseAfterFree else if snd p \<noteq> 0 then Inl InvalidFree else Inr (h(fst p := None)))"

text \<open>
  What surrounds the scan: whether \<open>realloc\<close> to a capacity succeeds and whether it moves the block, whether an
  image can be mounted at an attempt, and its \<open>SYSTEM.CNF\<close>.
\<close>

record scan_env =
  realloc_ok :: "nat \<Rightarrow> bool"
  realloc_moves :: "nat \<Rightarrow> bool"
  mount_ok :: "string \<Rightarrow> nat \<Rightarrow> bool"
  system_cnf :: "string \<Rightarrow> (string \<times> nat) option"

record scan_state =
  blocks :: blocks
  next_block :: nat
  glist :: "slot_ptr option"
  entries_buffer :: "nat option"
  buffer_capacity :: nat
  found :: nat

definition ISO_SCAN_INITIAL_BUFFER :: nat where "ISO_SCAN_INITIAL_BUFFER = 32"

subsection \<open>The cache file\<close>

text \<open>\<open>games.bin\<close> is the array of the games; the result is the code and the cache.\<close>

definition loadISOGameListCache :: "base_game_info list option \<Rightarrow> bool \<Rightarrow> bool \<Rightarrow> int \<times> base_game_info list option" where
  "loadISOGameListCache games_bin memalign_ok fread_ok =
     (case games_bin of
        None \<Rightarrow> (2, None)
      | Some gs \<Rightarrow> if gs = [] then (- 1, None) else if \<not> memalign_ok then (12, None)
                   else if fread_ok then (0, Some gs) else (5, None))"

fun queryISOGameListCache :: "base_game_info list \<Rightarrow> string \<Rightarrow> base_game_info option" where
  "queryISOGameListCache [] filename = None"
| "queryISOGameListCache (g # gs) filename =
     (if filename = bounded (ISO_GAME_NAME_MAX + ISO_GAME_EXTENSION_MAX + 1) (cstr (g_name g) @ cstr (g_extension g)) then Some g
      else queryISOGameListCache gs filename)"

text \<open>The inner loop of \<open>updateISOGameList\<close> compares with entry \<open>i\<close>, whatever \<open>j\<close> is.\<close>

definition same_file :: "base_game_info \<Rightarrow> base_game_info \<Rightarrow> bool" where
  "same_file g g' = (strncmp_eq (ISO_GAME_NAME_MAX + 1) (cstr (g_name g)) (cstr (g_name g'))
     \<and> strncmp_eq (ISO_GAME_EXTENSION_MAX + 1) (cstr (g_extension g)) (cstr (g_extension g')))"

fun cache_index :: "base_game_info list \<Rightarrow> nat \<Rightarrow> base_game_info \<Rightarrow> nat \<Rightarrow> nat \<Rightarrow> ub + nat" where
  "cache_index cache i g j 0 = Inr j"
| "cache_index cache i g j (Suc n) =
     (if length cache \<le> i then Inl OutOfBounds
      else if same_file (cache ! i) g then Inr j else cache_index cache i g (j + 1) n)"

fun game_added :: "base_game_info list \<Rightarrow> blocks \<Rightarrow> nat \<Rightarrow> nat \<Rightarrow> slot_ptr option \<Rightarrow> ub + bool" where
  "game_added cache h i 0 game = Inr False"
| "game_added cache h i (Suc n) None = Inl NullPointer"
| "game_added cache h i (Suc n) (Some p) =
     bindR (load_slot h p) (\<lambda>game. bindR (cache_index cache i (gameinfo game) 0 (length cache)) (\<lambda>j.
       if j = length cache then Inr True else game_added cache h (i + 1) n (next_game game)))"

definition list_modified :: "base_game_info list option \<Rightarrow> blocks \<Rightarrow> slot_ptr option \<Rightarrow> nat \<Rightarrow> ub + bool" where
  "list_modified cache h head count =
     (case cache of
        Some c \<Rightarrow> if head \<noteq> None \<and> 0 < count
                   then bindR (game_added c h 0 count head) (\<lambda>m. Inr (m \<or> count \<noteq> length c)) else Inr False
      | None \<Rightarrow> Inr (head \<noteq> None \<and> 0 < count))"

fun flat_list :: "blocks \<Rightarrow> nat \<Rightarrow> slot_ptr option \<Rightarrow> ub + base_game_info list" where
  "flat_list h 0 game = Inr []"
| "flat_list h (Suc n) None = Inr []"
| "flat_list h (Suc n) (Some p) =
     bindR (load_slot h p) (\<lambda>game. bindR (flat_list h n (next_game game)) (\<lambda>gs. Inr (gameinfo game # gs)))"

text \<open>How \<open>memalign\<close>, \<open>fopen\<close> and \<open>fwrite\<close> behave; the result is the code and the new cache file.\<close>

definition updateISOGameList :: "bool \<times> bool \<times> bool \<Rightarrow> base_game_info list option \<Rightarrow> blocks \<Rightarrow> slot_ptr option \<Rightarrow> nat
    \<Rightarrow> base_game_info list option \<Rightarrow> ub + int \<times> base_game_info list option" where
  "updateISOGameList io cache h head count games_bin =
     (let (memalign_ok, fopen_ok, fwrite_ok) = io
      in bindR (list_modified cache h head count) (\<lambda>modified.
           if \<not> modified then Inr (0, games_bin)
           else if head \<noteq> None \<and> 0 < count
           then if memalign_ok
                then bindR (flat_list h count head) (\<lambda>list.
                       if \<not> fopen_ok then Inr (5, games_bin) else if fwrite_ok then Inr (0, Some list) else Inr (5, None))
                else Inr (12, games_bin)
           else Inr (0, None)))"

subsection \<open>Scanning a directory\<close>

fun mount_loop :: "(nat \<Rightarrow> bool) \<Rightarrow> nat \<Rightarrow> nat \<Rightarrow> bool" where
  "mount_loop ok 0 retry = False"
| "mount_loop ok (Suc n) retry = (if ok retry then True else mount_loop ok n (retry + 1))"

text \<open>The game in an image; \<open>None\<close> when the image cannot be mounted or has no start-up file.\<close>

definition old_iso_game :: "string \<Rightarrow> nat \<Rightarrow> base_game_info" where
  "old_iso_game d_name n = zero_game\<lparr>
     g_name := write_at (g_name zero_game) 0 (take n (drop GAME_STARTUP_MAX d_name)),
     g_startup := write_at (g_startup zero_game) 0 (take (GAME_STARTUP_MAX - 1) d_name),
     g_extension := write_at (g_extension zero_game) 0 (take ISO_GAME_EXTENSION_MAX (drop (GAME_STARTUP_MAX + n) d_name))\<rparr>"

definition mounted_game :: "string \<Rightarrow> nat \<Rightarrow> string \<Rightarrow> base_game_info" where
  "mounted_game d_name n startup = zero_game\<lparr>
     g_name := write_at (g_name zero_game) 0 (take n d_name),
     g_startup := write_at (g_startup zero_game) 0 startup,
     g_extension := write_at (g_extension zero_game) 0 (take ISO_GAME_EXTENSION_MAX (drop n d_name))\<rparr>"

definition image_game :: "scan_env \<Rightarrow> base_game_info list option \<Rightarrow> string \<Rightarrow> u8 \<Rightarrow> game_format \<Rightarrow> nat \<Rightarrow> string
    \<Rightarrow> ub + base_game_info option" where
  "image_game env cache fullpath type format n d_name =
     (let fin = (\<lambda>g. Some (g\<lparr>g_parts := 1, g_media := type, g_format := format, sizeMB := 0\<rparr>))
      in if format = GAME_FORMAT_OLD_ISO then Inr (fin (old_iso_game d_name n))
         else case (case cache of None \<Rightarrow> None | Some c \<Rightarrow> queryISOGameListCache c d_name) of
                Some g \<Rightarrow> Inr (fin g)
              | None \<Rightarrow>
                  if \<not> mount_loop (mount_ok env fullpath) 3 0 then Inr None
                  else bindR (GetStartupExecName (system_cnf env fullpath) (GAME_STARTUP_MAX - 1)) (\<lambda>(r, startup).
                         case startup of
                           None \<Rightarrow> Inr None
                         | Some st \<Rightarrow> if r \<noteq> 0 then Inr None else Inr (fin (mounted_game d_name n st))))"

text \<open>\<open>grow_buffer\<close> makes room for a slot; \<open>None\<close> when \<open>realloc\<close> fails.\<close>

definition slots_used :: "scan_state \<Rightarrow> game_list list" where
  "slots_used st = (case entries_buffer st of None \<Rightarrow> [] | Some b \<Rightarrow> (case blocks st b of None \<Rightarrow> [] | Some s \<Rightarrow> s))"

definition grow_buffer :: "scan_env \<Rightarrow> scan_state \<Rightarrow> scan_state option" where
  "grow_buffer env st =
     (if length (slots_used st) < buffer_capacity st then Some st
      else let new_cap = (if buffer_capacity st \<noteq> 0 then buffer_capacity st * 2 else ISO_SCAN_INITIAL_BUFFER)
           in if \<not> realloc_ok env new_cap then None
              else case entries_buffer st of
                     Some b \<Rightarrow>
                       if realloc_moves env new_cap
                       then Some (st\<lparr>blocks := (blocks st)(b := None, next_block st := blocks st b), next_block := next_block st + 1,
                              entries_buffer := Some (next_block st), buffer_capacity := new_cap\<rparr>)
                       else Some (st\<lparr>buffer_capacity := new_cap\<rparr>)
                   | None \<Rightarrow>
                       Some (st\<lparr>blocks := (blocks st)(next_block st := Some []), next_block := next_block st + 1,
                              entries_buffer := Some (next_block st), buffer_capacity := new_cap\<rparr>))"

text \<open>An image that is dropped gives its slot back and takes the list back to where it was.\<close>

definition add_slot :: "base_game_info option \<Rightarrow> scan_state \<Rightarrow> scan_state" where
  "add_slot game st =
     (case (entries_buffer st, game) of
        (Some b, Some g) \<Rightarrow>
          st\<lparr>blocks := (blocks st)(b := Some (slots_used st @ [\<lparr>gameinfo = g, next_game = glist st\<rparr>])),
             glist := Some (b, length (slots_used st)), found := found st + 1\<rparr>
      | _ \<Rightarrow> st)"

fun scan_names :: "scan_env \<Rightarrow> base_game_info list option \<Rightarrow> string \<Rightarrow> u8 \<Rightarrow> string list \<Rightarrow> scan_state \<Rightarrow> ub + scan_state" where
  "scan_names env cache path type [] st = Inr st"
| "scan_names env cache path type (d_name # names) st =
     bindR (isValidIsoName d_name) (\<lambda>r.
       case r of
         None \<Rightarrow> scan_names env cache path type names st
       | Some (format, n) \<Rightarrow>
           if ISO_GAME_NAME_MAX < n then scan_names env cache path type names st
           else if 256 < length path + 1 + length d_name + 1 then Inl OutOfBounds
           else case grow_buffer env st of
                  None \<Rightarrow> Inr st
                | Some st \<Rightarrow> bindR (image_game env cache (path @ ''/'' @ d_name) type format n d_name) (\<lambda>game.
                    scan_names env cache path type names (add_slot game st)))"

text \<open>The directory (\<open>None\<close> when it cannot be opened), its cache file and the conditions of their use.\<close>

record directory =
  names_in :: "string list option"
  games_bin :: "base_game_info list option"
  cache_memalign_ok :: bool
  cache_fread_ok :: bool
  update_io :: "bool \<times> bool \<times> bool"

text \<open>The cache, when it has been loaded.\<close>

definition the_cache :: "directory \<Rightarrow> base_game_info list option" where
  "the_cache dir = (let (r, c) = loadISOGameListCache (games_bin dir) (cache_memalign_ok dir) (cache_fread_ok dir)
     in if r = 0 then c else None)"

definition scanForISO :: "scan_env \<Rightarrow> string \<Rightarrow> u8 \<Rightarrow> directory \<Rightarrow> blocks \<times> nat \<times> slot_ptr option
    \<Rightarrow> ub + nat \<times> base_game_info list option \<times> blocks \<times> nat \<times> slot_ptr option" where
  "scanForISO env path type dir hng =
     (let (h, n, g) = hng; cache = the_cache dir
      in case names_in dir of
           None \<Rightarrow> Inr (0, games_bin dir, h, n, g)
         | Some names \<Rightarrow>
             bindR (scan_names env cache path type names
                      \<lparr>blocks = h, next_block = n, glist = g, entries_buffer = None, buffer_capacity = 0, found = 0\<rparr>) (\<lambda>st.
               bindR (updateISOGameList (update_io dir) cache (blocks st) (glist st) (found st) (games_bin dir)) (\<lambda>(r, bin).
                 Inr (found st, bin, blocks st, next_block st, glist st))))"

subsection \<open>The list of a device\<close>

text \<open>Copying the nodes into the array, from \<open>k\<close> on.\<close>

function copy_nodes :: "blocks \<Rightarrow> nat \<Rightarrow> slot_ptr option \<Rightarrow> base_game_info list \<Rightarrow> ub + base_game_info list \<times> blocks" where
  "copy_nodes h k None list = Inr (list, h)"
| "copy_nodes h k (Some p) list =
     (if k < length list
      then bindR (load_slot h p) (\<lambda>cur. bindR (free_slot h p) (\<lambda>h. copy_nodes h (k + 1) (next_game cur) (list[k := gameinfo cur])))
      else Inr (list, h))"
  by pat_completeness auto
termination by (relation "measure (\<lambda>(h, k, p, list). length list - k)") auto

text \<open>\<open>ul_cfg\<close> is the contents of the file; \<open>buf\<close> the uninitialised entry; \<open>junk\<close> the uninitialised array.\<close>

definition sbReadList :: "scan_env \<Rightarrow> string \<Rightarrow> directory \<Rightarrow> directory \<Rightarrow> string option \<Rightarrow> string \<Rightarrow> base_game_info \<Rightarrow> bool \<Rightarrow> blocks \<times> nat
    \<Rightarrow> ub + nat \<times> base_game_info list \<times> base_game_info list option \<times> base_game_info list option" where
  "sbReadList env prefix cd_dir dvd_dir ul_cfg buf junk malloc_ok hn =
     bindR (scanForISO env (bounded 256 (prefix @ ''CD'')) SCECdPS2CD cd_dir (fst hn, snd hn, None)) (\<lambda>(n1, bin1, h, n, g).
       bindR (scanForISO env (bounded 256 (prefix @ ''DVD'')) SCECdPS2DVD dvd_dir (h, n, g)) (\<lambda>(n2, bin2, h, n, g).
         let isos = n1 + n2;
             count = (case ul_cfg of None \<Rightarrow> isos | Some c \<Rightarrow> isos + length c div entry_size)
         in if count = 0 \<or> \<not> malloc_ok then Inr (0, [], bin1, bin2)
            else bindR (case ul_cfg of None \<Rightarrow> Inr (0, replicate count junk) | Some c \<Rightarrow> read_ul c buf isos) (\<lambda>(k, list).
                   bindR (copy_nodes h k g list) (\<lambda>(list, h). Inr (count, list, bin1, bin2)))))"

subsection \<open>The images of a directory\<close>

text \<open>The games that a scan finds, in the order of the directory.\<close>

fun iso_games :: "scan_env \<Rightarrow> base_game_info list option \<Rightarrow> string \<Rightarrow> u8 \<Rightarrow> string list \<Rightarrow> ub + base_game_info list" where
  "iso_games env cache path type [] = Inr []"
| "iso_games env cache path type (d_name # names) =
     bindR (isValidIsoName d_name) (\<lambda>r.
       case r of
         None \<Rightarrow> iso_games env cache path type names
       | Some (format, n) \<Rightarrow>
           if ISO_GAME_NAME_MAX < n then iso_games env cache path type names
           else if 256 < length path + 1 + length d_name + 1 then Inl OutOfBounds
           else bindR (image_game env cache (path @ ''/'' @ d_name) type format n d_name) (\<lambda>game.
                  bindR (iso_games env cache path type names) (\<lambda>gs. Inr (case game of None \<Rightarrow> gs | Some g \<Rightarrow> g # gs))))"

definition candidate :: "string \<Rightarrow> bool" where
  "candidate d_name = (case isValidIsoName d_name of Inr (Some (format, n)) \<Rightarrow> n \<le> ISO_GAME_NAME_MAX | _ \<Rightarrow> False)"

definition slots_of :: "nat \<Rightarrow> slot_ptr option \<Rightarrow> base_game_info list \<Rightarrow> game_list list" where
  "slots_of b old gs = map (\<lambda>k. \<lparr>gameinfo = gs ! k, next_game = (if k = 0 then old else Some (b, k - 1))\<rparr>) [0..<length gs]"

definition top_slot :: "nat \<Rightarrow> slot_ptr option \<Rightarrow> base_game_info list \<Rightarrow> slot_ptr option" where
  "top_slot b old gs = (if gs = [] then old else Some (b, length gs - 1))"

lemma length_slots_of [simp]: "length (slots_of b old gs) = length gs"
  by (simp add: slots_of_def)

lemma slots_of_snoc: "slots_of b old (gs @ [g]) = slots_of b old gs @ [\<lparr>gameinfo = g, next_game = top_slot b old gs\<rparr>]"
  by (simp add: slots_of_def top_slot_def nth_append)

definition scan_inv :: "blocks \<Rightarrow> nat \<Rightarrow> slot_ptr option \<Rightarrow> scan_state \<Rightarrow> base_game_info list \<Rightarrow> bool" where
  "scan_inv h b old st gs =
     (if entries_buffer st = None
      then gs = [] \<and> blocks st = h \<and> next_block st = b \<and> buffer_capacity st = 0 \<and> glist st = old \<and> found st = 0
      else entries_buffer st = Some b \<and> blocks st = h(b := Some (slots_of b old gs)) \<and> next_block st = b + 1
           \<and> buffer_capacity st = 32 \<and> glist st = top_slot b old gs \<and> found st = length gs)"

lemma grow_keeps:
  assumes inv: "scan_inv h b old st gs" and room: "length gs < 32" and ok: "realloc_ok env 32"
  shows "\<exists>st'. grow_buffer env st = Some st' \<and> scan_inv h b old st' gs \<and> entries_buffer st' = Some b"
proof (cases "entries_buffer st")
  case None
  then show ?thesis
    using inv ok by (simp add: scan_inv_def grow_buffer_def slots_used_def ISO_SCAN_INITIAL_BUFFER_def slots_of_def top_slot_def)
next
  case (Some c)
  then show ?thesis using inv room by (simp add: scan_inv_def grow_buffer_def slots_used_def)
qed

lemma add_slot_inv:
  "\<lbrakk>scan_inv h b old st gs; entries_buffer st = Some b\<rbrakk>
   \<Longrightarrow> scan_inv h b old (add_slot game st) (gs @ (case game of None \<Rightarrow> [] | Some g \<Rightarrow> [g]))"
  by (auto simp: scan_inv_def add_slot_def slots_used_def slots_of_snoc top_slot_def split: option.split)

lemma scan_names_games:
  "\<lbrakk>scan_inv h b old st done; iso_games env cache path type names = Inr gs; length done + length (filter candidate names) \<le> 32;
    realloc_ok env 32\<rbrakk>
   \<Longrightarrow> \<exists>st'. scan_names env cache path type names st = Inr st' \<and> scan_inv h b old st' (done @ gs)"
proof (induction names arbitrary: st "done" gs)
  case (Cons d_name names)
  obtain r where r: "isValidIsoName d_name = Inr r" using Cons.prems(2) by (cases "isValidIsoName d_name") auto
  show ?case
  proof (cases r)
    case None
    then show ?thesis using Cons.IH [OF Cons.prems(1) _ _ Cons.prems(4)] Cons.prems(2,3) r by (simp add: candidate_def)
  next
    case (Some p)
    obtain format n where p: "p = (format, n)" by (cases p)
    show ?thesis
    proof (cases "n \<le> ISO_GAME_NAME_MAX")
      case False
      then show ?thesis using Cons.IH [OF Cons.prems(1) _ _ Cons.prems(4)] Cons.prems(2,3) r Some p by (simp add: candidate_def)
    next
      case True
      have c: "candidate d_name" using True r Some p by (simp add: candidate_def)
      obtain game gs' where g: "\<not> 256 < length path + 1 + length d_name + 1"
        "image_game env cache (path @ ''/'' @ d_name) type format n d_name = Inr game"
        "iso_games env cache path type names = Inr gs'" "gs = (case game of None \<Rightarrow> gs' | Some g \<Rightarrow> g # gs')"
        using Cons.prems(2) True r Some p by (auto simp: result_iff split: if_splits)
      have "length done < 32" using Cons.prems(3) c by simp
      from grow_keeps [OF Cons.prems(1) this Cons.prems(4)] obtain st1 where
        st1: "grow_buffer env st = Some st1" "scan_inv h b old st1 done" "entries_buffer st1 = Some b" by blast
      let ?done = "done @ (case game of None \<Rightarrow> [] | Some g \<Rightarrow> [g])"
      have "length ?done + length (filter candidate names) \<le> 32" using Cons.prems(3) c by (cases game) auto
      from Cons.IH [OF add_slot_inv [OF st1(2,3)] g(3) this Cons.prems(4)]
      obtain st' where "scan_names env cache path type names (add_slot game st1) = Inr st'" "scan_inv h b old st' (?done @ gs')" by blast
      moreover have "?done @ gs' = done @ gs" using g(4) by (cases game) auto
      ultimately show ?thesis using g r Some p True st1(1) by simp
    qed
  qed
qed simp

subsection \<open>The cache\<close>

text \<open>What the comparison with the cache gives, for the games in the order of the list.\<close>

fun differs :: "base_game_info list \<Rightarrow> nat \<Rightarrow> base_game_info list \<Rightarrow> ub + bool" where
  "differs c i [] = Inr False"
| "differs c i (g # gs) = (if length c \<le> i then Inl OutOfBounds else if same_file (c ! i) g then differs c (i + 1) gs else Inr True)"

lemma cache_index_all: "\<lbrakk>i < length c; \<not> same_file (c ! i) g\<rbrakk> \<Longrightarrow> cache_index c i g j n = Inr (j + n)"
  by (induction n arbitrary: j) auto

lemma cache_index_eq:
  "c \<noteq> [] \<Longrightarrow> cache_index c i g 0 (length c)
    = (if length c \<le> i then Inl OutOfBounds else if same_file (c ! i) g then Inr 0 else Inr (length c))"
  using cache_index_all [of i c g 0 "length c"] by (cases c) auto

lemma load_slots_of:
  "\<lbrakk>h b = Some (slots_of b old gs); k < length gs\<rbrakk>
   \<Longrightarrow> load_slot h (b, k) = Inr \<lparr>gameinfo = gs ! k, next_game = (if k = 0 then old else Some (b, k - 1))\<rparr>"
  by (simp add: load_slot_def slots_of_def)

lemma take_Suc_rev: "k < length gs \<Longrightarrow> rev (take (Suc k) gs) = gs ! k # rev (take k gs)"
  by (simp add: take_Suc_conv_app_nth)

lemma game_added_block:
  assumes h: "h b = Some (slots_of b old gs)" and c: "c \<noteq> []"
  shows "k < length gs \<Longrightarrow> game_added c h i (Suc k) (Some (b, k)) = differs c i (rev (take (Suc k) gs))"
proof (induction k arbitrary: i)
  case 0
  then show ?case using h c by (simp add: load_slots_of cache_index_eq take_Suc_rev)
next
  case (Suc k)
  have "rev (take (Suc (Suc k)) gs) = gs ! Suc k # rev (take (Suc k) gs)" by (rule take_Suc_rev [OF Suc.prems])
  then show ?case
    using Suc h c by (simp add: load_slots_of cache_index_eq del: game_added.simps take_Suc) (simp add: load_slots_of cache_index_eq)
qed

lemma flat_list_block:
  assumes h: "h b = Some (slots_of b old gs)"
  shows "k < length gs \<Longrightarrow> flat_list h (Suc k) (Some (b, k)) = Inr (rev (take (Suc k) gs))"
proof (induction k)
  case 0
  then show ?case using h by (simp add: load_slots_of take_Suc_rev)
next
  case (Suc k)
  have "rev (take (Suc (Suc k)) gs) = gs ! Suc k # rev (take (Suc k) gs)" by (rule take_Suc_rev [OF Suc.prems])
  then show ?case using Suc h by (simp add: load_slots_of)
qed

text \<open>The cache file after a scan that has found the games \<open>gs\<close>, in the order of the list.\<close>

definition updated :: "directory \<Rightarrow> base_game_info list option \<Rightarrow> base_game_info list \<Rightarrow> ub + base_game_info list option" where
  "updated dir cache gs =
     bindR (case cache of
              None \<Rightarrow> Inr (gs \<noteq> [])
            | Some c \<Rightarrow> if gs = [] then Inr False else bindR (differs c 0 gs) (\<lambda>m. Inr (m \<or> length gs \<noteq> length c))) (\<lambda>modified.
       Inr (if \<not> modified then games_bin dir
            else case update_io dir of (memalign_ok, fopen_ok, fwrite_ok) \<Rightarrow>
                   if \<not> memalign_ok \<or> \<not> fopen_ok then games_bin dir else if fwrite_ok then Some gs else None))"

lemma update_block:
  assumes st: "scan_inv h b old st gs" and c: "cache \<noteq> Some []"
  shows "bindR (updateISOGameList (update_io dir) cache (blocks st) (glist st) (found st) (games_bin dir)) (\<lambda>(r, bin). Inr bin)
    = updated dir cache (rev gs)"
proof (cases "gs = []")
  case True
  then have f: "found st = 0" using st by (auto simp: scan_inv_def split: if_splits)
  then show ?thesis using True
    by (auto simp: updateISOGameList_def list_modified_def updated_def split: option.split prod.split)
next
  case False
  then have e: "blocks st b = Some (slots_of b old gs)" "glist st = Some (b, length gs - 1)" "found st = length gs"
    using st by (auto simp: scan_inv_def top_slot_def split: if_splits)
  obtain k where k: "length gs = Suc k" using False by (cases gs) auto
  have "game_added x (blocks st) 0 (length gs) (Some (b, length gs - 1)) = differs x 0 (rev gs)" if "x \<noteq> []" for x
    using game_added_block [of "blocks st" b old gs x k 0] e(1) that k by simp
  moreover have "flat_list (blocks st) (length gs) (Some (b, length gs - 1)) = Inr (rev gs)"
    using flat_list_block [of "blocks st" b old gs k] e(1) k by simp
  moreover obtain m f w where io: "update_io dir = (m, f, w)" by (cases "update_io dir")
  ultimately show ?thesis
  proof (cases cache)
    case None
    then show ?thesis using False e(2,3) \<open>flat_list _ _ _ = _\<close> by (simp add: updateISOGameList_def list_modified_def updated_def io)
  next
    case (Some x)
    then have "game_added x (blocks st) 0 (length gs) (Some (b, length gs - 1)) = differs x 0 (rev gs)"
      using c \<open>\<And>x. x \<noteq> [] \<Longrightarrow> game_added x _ _ _ _ = _\<close> by simp
    then show ?thesis using False e(2,3) \<open>flat_list _ _ _ = _\<close> Some
      by (cases "differs x 0 (rev gs)") (simp_all add: updateISOGameList_def list_modified_def updated_def io)
  qed
qed

subsection \<open>A directory\<close>

definition dir_games :: "scan_env \<Rightarrow> string \<Rightarrow> u8 \<Rightarrow> directory \<Rightarrow> ub + base_game_info list" where
  "dir_games env path type dir =
     (case names_in dir of None \<Rightarrow> Inr [] | Some names \<Rightarrow> iso_games env (the_cache dir) path type names)"

definition new_bin :: "directory \<Rightarrow> base_game_info list \<Rightarrow> ub + base_game_info list option" where
  "new_bin dir gs = (case names_in dir of None \<Rightarrow> Inr (games_bin dir) | Some names \<Rightarrow> updated dir (the_cache dir) (rev gs))"

definition few_images :: "directory \<Rightarrow> bool" where
  "few_images dir = (case names_in dir of None \<Rightarrow> True | Some names \<Rightarrow> length (filter candidate names) \<le> 32)"

lemma the_cache_Some: "the_cache dir = Some c \<Longrightarrow> c \<noteq> [] \<and> games_bin dir = Some c"
  by (auto simp: the_cache_def loadISOGameListCache_def split: option.splits if_splits)

lemma scan_result:
  assumes games: "dir_games env path type dir = Inr gs" and few: "few_images dir" "realloc_ok env 32"
  shows "case new_bin dir gs of
      Inl e \<Rightarrow> scanForISO env path type dir (h, n, old) = Inl e
    | Inr bin \<Rightarrow> \<exists>h' n'. scanForISO env path type dir (h, n, old) = Inr (length gs, bin, h', n', top_slot n old gs)
        \<and> (gs \<noteq> [] \<longrightarrow> h' n = Some (slots_of n old gs) \<and> n < n') \<and> (\<forall>b < n. h' b = h b) \<and> n \<le> n'"
proof (cases "names_in dir")
  case None
  then show ?thesis using games
    by (auto simp: dir_games_def new_bin_def scanForISO_def top_slot_def split: prod.split)
next
  case (Some names)
  let ?st0 = "\<lparr>blocks = h, next_block = n, glist = old, entries_buffer = None, buffer_capacity = 0, found = 0\<rparr>"
  have g: "iso_games env (the_cache dir) path type names = Inr gs" using games Some by (simp add: dir_games_def)
  have "scan_inv h n old ?st0 []" by (simp add: scan_inv_def)
  from scan_names_games [OF this g _ few(2)] few(1) Some obtain st where
    st: "scan_names env (the_cache dir) path type names ?st0 = Inr st" "scan_inv h n old st gs" by (auto simp: few_images_def)
  have f: "found st = length gs" "glist st = top_slot n old gs" "gs \<noteq> [] \<longrightarrow> blocks st n = Some (slots_of n old gs) \<and> n < next_block st"
    "\<forall>b < n. blocks st b = h b" "n \<le> next_block st"
    using st(2) by (auto simp: scan_inv_def top_slot_def split: if_splits)
  have "the_cache dir \<noteq> Some []" using the_cache_Some by blast
  from update_block [OF st(2) this, of dir] have u: "bindR (updateISOGameList (update_io dir) (the_cache dir) (blocks st) (glist st) (found st) (games_bin dir)) (\<lambda>(r, bin). Inr bin)
    = new_bin dir gs" using Some by (simp add: new_bin_def)
  have run: "scanForISO env path type dir (h, n, old) =
      bindR (updateISOGameList (update_io dir) (the_cache dir) (blocks st) (glist st) (found st) (games_bin dir)) (\<lambda>(r, bin).
        Inr (found st, bin, blocks st, next_block st, glist st))"
    using st(1) Some by (simp add: scanForISO_def)
  show ?thesis
    using u f unfolding run
    by (cases "updateISOGameList (update_io dir) (the_cache dir) (blocks st) (glist st) (found st) (games_bin dir)")
      (auto simp flip: u)
qed

lemma differs_cases:
  "differs c i gs = (if \<exists>k < length gs. i + k < length c \<and> \<not> same_file (c ! (i + k)) (gs ! k) then Inr True
                     else if length c < i + length gs \<and> gs \<noteq> [] then Inl OutOfBounds else Inr False)"
proof (induction gs arbitrary: i)
  case (Cons g gs)
  have ex: "(\<exists>k < length (g # gs). i + k < length c \<and> \<not> same_file (c ! (i + k)) ((g # gs) ! k))
    \<longleftrightarrow> (i < length c \<and> \<not> same_file (c ! i) g) \<or> (\<exists>k < length gs. i + 1 + k < length c \<and> \<not> same_file (c ! (i + 1 + k)) (gs ! k))"
    by (auto simp: less_Suc_eq_0_disj)
  show ?case unfolding ex using Cons.IH [of "i + 1"] by auto
qed simp

subsection \<open>Copying the nodes\<close>

text \<open>Two blocks, the list of the second one continued by that of the first one.\<close>

lemma copy_interior:
  "\<lbrakk>h b = Some (slots_of b old gs); 1 < length gs; k < length list\<rbrakk> \<Longrightarrow> copy_nodes h k (top_slot b old gs) list = Inl InvalidFree"
  by (cases "length gs - 1") (auto simp: top_slot_def load_slots_of free_slot_def)

lemma copy_single:
  "\<lbrakk>h b = Some (slots_of b old [g]); k < length list\<rbrakk>
   \<Longrightarrow> copy_nodes h k (top_slot b old [g]) list = copy_nodes (h(b := None)) (k + 1) old (list[k := g])"
  by (simp add: top_slot_def load_slots_of free_slot_def)

lemma copy_blocks:
  assumes a: "cds \<noteq> [] \<longrightarrow> h a = Some (slots_of a None cds)" and b: "dvds \<noteq> [] \<longrightarrow> h b = Some (slots_of b (top_slot a None cds) dvds)"
    and ab: "cds \<noteq> [] \<longrightarrow> a \<noteq> b" and len: "length dvds + length cds = n" and xs: "length xs = n"
  shows "\<exists>h'. copy_nodes h (length ul) (top_slot b (top_slot a None cds) dvds) (ul @ xs)
    = (if length cds \<le> 1 \<and> length dvds \<le> 1 then Inr (ul @ dvds @ cds, h') else Inl InvalidFree)"
proof (cases "length dvds \<le> 1")
  case False
  then show ?thesis using copy_interior [of h b "top_slot a None cds" dvds "length ul" "ul @ xs"] b len xs by auto
next
  case True
  then consider (none) "dvds = []" | (one) d where "dvds = [d]" by (cases dvds) auto
  then show ?thesis
  proof cases
    case none
    consider "cds = []" | g where "cds = [g]" | "1 < length cds" by (cases cds rule: remdups_adj.cases) auto
    then show ?thesis
    proof cases
      case 1
      then show ?thesis using none len xs by (simp add: top_slot_def)
    next
      case (2 g)
      then obtain x where "xs = [x]" using none len xs by (cases xs) auto
      then show ?thesis
        using copy_single [of h a None g "length ul" "ul @ xs"] a 2 none by (simp add: top_slot_def [of b])
    next
      case 3
      then show ?thesis using copy_interior [of h a None cds "length ul" "ul @ xs"] a none len xs by (auto simp: top_slot_def [of b])
    qed
  next
    case (one d)
    then have s: "copy_nodes h (length ul) (top_slot b (top_slot a None cds) dvds) (ul @ xs)
      = copy_nodes (h(b := None)) (length ul + 1) (top_slot a None cds) ((ul @ xs)[length ul := d])"
      using copy_single [of h b "top_slot a None cds" d "length ul" "ul @ xs"] b len xs by simp
    obtain x ys where xs': "xs = x # ys" using one len xs by (cases xs) auto
    consider "cds = []" | g where "cds = [g]" | "1 < length cds" by (cases cds rule: remdups_adj.cases) auto
    then show ?thesis
    proof cases
      case 1
      then show ?thesis using s one len xs xs' by (simp add: top_slot_def [of a])
    next
      case (2 g)
      then obtain y where "ys = [y]" using one len xs xs' by (cases ys) auto
      then show ?thesis
        using s copy_single [of "h(b := None)" a None g "length ul + 1" "ul @ [d, y]"] a ab 2 one xs'
        by (simp add: list_update_append)
    next
      case 3
      then show ?thesis
        using s copy_interior [of "h(b := None)" a None cds "length ul + 1" "(ul @ xs)[length ul := d]"] a ab one len xs by auto
    qed
  qed
qed

subsection \<open>Properties\<close>

text \<open>The file \<open>ul.cfg\<close> with the entries \<open>es\<close>; none is the missing file or the empty one.\<close>

definition ul_entries :: "string option \<Rightarrow> string list \<Rightarrow> bool" where
  "ul_entries ul_cfg es = ((\<forall>e \<in> set es. length e = 64) \<and> (ul_cfg = Some (concat es) \<or> ul_cfg = None \<and> es = []))"

text \<open>
  C20. The list of a device is the games of \<open>ul.cfg\<close>, then those of the \<open>DVD\<close> directory, then those of \<open>CD\<close> - when
  neither directory has more than one image.  With a second image in a directory the list is a chain
  through one array, and freeing its nodes frees an address inside that array.
\<close>
theorem device_list:
  assumes cd: "dir_games env (bounded 256 (prefix @ ''CD'')) SCECdPS2CD cd_dir = Inr cds" "new_bin cd_dir cds = Inr bin1" "few_images cd_dir"
    and dvd: "dir_games env (bounded 256 (prefix @ ''DVD'')) SCECdPS2DVD dvd_dir = Inr dvds" "new_bin dvd_dir dvds = Inr bin2" "few_images dvd_dir"
    and ul: "ul_entries ul_cfg es" "length buf = 64" and ok: "realloc_ok env 32" "malloc_ok" and some: "0 < length es + length dvds + length cds"
  shows "sbReadList env prefix cd_dir dvd_dir ul_cfg buf junk malloc_ok (h, n) =
    (if length cds \<le> 1 \<and> length dvds \<le> 1
     then Inr (length es + length dvds + length cds, map (\<lambda>e. ul_game e zero_game) es @ dvds @ cds, bin1, bin2)
     else Inl InvalidFree)"
proof -
  from scan_result [OF cd(1,3) ok(1), of h n None] cd(2) obtain h1 n1 where
    s1: "scanForISO env (bounded 256 (prefix @ ''CD'')) SCECdPS2CD cd_dir (h, n, None) = Inr (length cds, bin1, h1, n1, top_slot n None cds)"
    "cds \<noteq> [] \<longrightarrow> h1 n = Some (slots_of n None cds) \<and> n < n1" by auto
  from scan_result [OF dvd(1,3) ok(1), of h1 n1 "top_slot n None cds"] dvd(2) obtain h2 n2 where
    s2: "scanForISO env (bounded 256 (prefix @ ''DVD'')) SCECdPS2DVD dvd_dir (h1, n1, top_slot n None cds)
        = Inr (length dvds, bin2, h2, n2, top_slot n1 (top_slot n None cds) dvds)"
    "dvds \<noteq> [] \<longrightarrow> h2 n1 = Some (slots_of n1 (top_slot n None cds) dvds) \<and> n1 < n2" "\<forall>b < n1. h2 b = h1 b" by auto
  let ?ul = "map (\<lambda>e. ul_game e zero_game) es"
  have e: "\<forall>e \<in> set es. length e = 64" using ul(1) by (simp add: ul_entries_def)
  define isos where "isos = length cds + length dvds"
  define count where "count = (case ul_cfg of None \<Rightarrow> isos | Some c \<Rightarrow> isos + length c div entry_size)"
  have count: "count = isos + length es"
    using ul(1) length_concat_entries [OF e] by (auto simp: count_def ul_entries_def entry_size_def)
  have "\<exists>xs. (case ul_cfg of None \<Rightarrow> Inr (0, replicate count junk) | Some c \<Rightarrow> read_ul c buf isos) = Inr (length es, ?ul @ xs) \<and> length xs = isos"
    using ul(1) read_ul_entries [OF e ul(2), of isos] count by (auto simp: ul_entries_def)
  then obtain xs where xs: "(case ul_cfg of None \<Rightarrow> Inr (0, replicate count junk) | Some c \<Rightarrow> read_ul c buf isos) = Inr (length es, ?ul @ xs)"
    "length xs = isos" by blast
  have "sbReadList env prefix cd_dir dvd_dir ul_cfg buf junk malloc_ok (h, n) =
      bindR (copy_nodes h2 (length es) (top_slot n1 (top_slot n None cds) dvds) (?ul @ xs)) (\<lambda>(list, h). Inr (count, list, bin1, bin2))"
    using s1(1) s2(1) xs(1) count some ok(2)
    by (cases ul_cfg) (auto simp: sbReadList_def Let_def count_def isos_def)
  moreover obtain h3 where "copy_nodes h2 (length ?ul) (top_slot n1 (top_slot n None cds) dvds) (?ul @ xs)
      = (if length cds \<le> 1 \<and> length dvds \<le> 1 then Inr (?ul @ dvds @ cds, h3) else Inl InvalidFree)"
    using copy_blocks [of cds h2 n dvds n1 isos xs ?ul] s1(2) s2(2,3) xs(2) by (auto simp: isos_def)
  ultimately show ?thesis using count by (auto simp: isos_def)
qed

text \<open>
  The cache file of a directory after a scan.  It is rewritten when an image differs from the cached one
  at the same place or when there are fewer images; it is kept, with its old games, when no image is left;
  and when all cached games still match and there are more, the comparison reads behind the cache.
\<close>
theorem cache_after_scan:
  assumes games: "dir_games env path type dir = Inr gs" "few_images dir" "realloc_ok env 32"
    and cache: "the_cache dir = Some c" "names_in dir = Some names" "update_io dir = (True, True, True)"
  shows "(if gs \<noteq> [] \<and> length c < length gs \<and> (\<forall>k < length c. same_file (c ! k) (rev gs ! k))
          then scanForISO env path type dir (h, n, old) = Inl OutOfBounds
          else \<exists>bin r. scanForISO env path type dir (h, n, old) = Inr (length gs, bin, r)
            \<and> bin = (if gs = [] \<or> length gs = length c \<and> (\<forall>k < length c. same_file (c ! k) (rev gs ! k)) then Some c else Some (rev gs)))"
proof -
  let ?same = "\<lambda>n. \<forall>k < n. same_file (c ! k) (rev gs ! k)"
  have bin: "games_bin dir = Some c" using the_cache_Some [OF cache(1)] by simp
  have d: "differs c 0 (rev gs) = (if \<not> ?same (min (length c) (length gs)) then Inr True
      else if length c < length gs \<and> gs \<noteq> [] then Inl OutOfBounds else Inr False)"
    unfolding differs_cases [of c 0 "rev gs"] by (auto simp: min_def)
  have "new_bin dir gs = (if gs \<noteq> [] \<and> length c < length gs \<and> ?same (length c) then Inl OutOfBounds
      else Inr (if gs = [] \<or> length gs = length c \<and> ?same (length c) then Some c else Some (rev gs)))"
  proof (cases "gs = []")
    case True
    then show ?thesis by (simp add: new_bin_def cache updated_def bin)
  next
    case False
    then show ?thesis
      by (cases "length c < length gs"; cases "?same (min (length c) (length gs))")
        (auto simp: new_bin_def cache updated_def bin d min_def)
  qed
  then show ?thesis using scan_result [OF games, of h n old] by (auto split: if_splits)
qed

definition demo_env :: scan_env where
  "demo_env = \<lparr>realloc_ok = (\<lambda>_. True), realloc_moves = (\<lambda>_. True), mount_ok = (\<lambda>_ _. False), system_cnf = (\<lambda>_. None)\<rparr>"

definition demo_directory :: "string list option \<Rightarrow> base_game_info list option \<Rightarrow> directory" where
  "demo_directory names bin = \<lparr>names_in = names, games_bin = bin, cache_memalign_ok = True, cache_fread_ok = True, update_io = (True, True, True)\<rparr>"

definition demo_image :: "string \<Rightarrow> base_game_info" where
  "demo_image d_name = (old_iso_game d_name 3)\<lparr>g_parts := 1, g_media := SCECdPS2CD, g_format := GAME_FORMAT_OLD_ISO\<rparr>"

lemma demo_names:
  "isValidIsoName ''SLUS_203.12.Ico.iso'' = Inr (Some (GAME_FORMAT_OLD_ISO, 3))"
  "isValidIsoName ''SLUS_203.13.Rez.zso'' = Inr (Some (GAME_FORMAT_OLD_ISO, 3))"
  by code_simp+

lemma demo_scan:
  "dir_games demo_env ''CD'' SCECdPS2CD (demo_directory (Some [''SLUS_203.12.Ico.iso'', ''SLUS_203.13.Rez.zso'']) bin)
    = Inr [demo_image ''SLUS_203.12.Ico.iso'', demo_image ''SLUS_203.13.Rez.zso'']"
  "few_images (demo_directory (Some [''SLUS_203.12.Ico.iso'', ''SLUS_203.13.Rez.zso'']) bin)"
  by (simp_all add: dir_games_def demo_directory_def demo_names ISO_GAME_NAME_MAX_def image_game_def demo_image_def old_iso_game_def
      few_images_def zero_game_def candidate_def)

theorem device_list_witness:
  "sbReadList demo_env [] (demo_directory (Some [''SLUS_203.12.Ico.iso'', ''SLUS_203.13.Rez.zso'']) None) (demo_directory None None)
     None (replicate 64 NUL) zero_game True (\<lambda>_. None, 0) = Inl InvalidFree"
proof -
  let ?cd = "demo_directory (Some [''SLUS_203.12.Ico.iso'', ''SLUS_203.13.Rez.zso'']) None"
  have "new_bin ?cd [a, b] = Inr (Some [b, a])" for a b
    by (simp add: new_bin_def demo_directory_def updated_def the_cache_def loadISOGameListCache_def)
  moreover have "dir_games demo_env ''DVD'' SCECdPS2DVD (demo_directory None None) = Inr []"
    "new_bin (demo_directory None None) [] = Inr None" "few_images (demo_directory None None)" "realloc_ok demo_env 32"
    by (simp_all add: dir_games_def demo_directory_def new_bin_def few_images_def demo_env_def)
  moreover have "ul_entries None []" by (simp add: ul_entries_def)
  ultimately show ?thesis
    using device_list [of demo_env "[]" ?cd "[demo_image ''SLUS_203.12.Ico.iso'', demo_image ''SLUS_203.13.Rez.zso'']" _
        "demo_directory None None" "[]" None None "[]" "replicate 64 NUL" True zero_game "\<lambda>_. None" 0] demo_scan
    by simp
qed

theorem cache_after_scan_witness:
  "scanForISO demo_env ''CD'' SCECdPS2CD
     (demo_directory (Some [''SLUS_203.12.Ico.iso'', ''SLUS_203.13.Rez.zso'']) (Some [demo_image ''SLUS_203.13.Rez.zso'']))
     (\<lambda>_. None, 0, None) = Inl OutOfBounds"
proof -
  let ?d = "demo_directory (Some [''SLUS_203.12.Ico.iso'', ''SLUS_203.13.Rez.zso'']) (Some [demo_image ''SLUS_203.13.Rez.zso''])"
  have "the_cache ?d = Some [demo_image ''SLUS_203.13.Rez.zso'']" "names_in ?d = Some [''SLUS_203.12.Ico.iso'', ''SLUS_203.13.Rez.zso'']"
    "update_io ?d = (True, True, True)" "realloc_ok demo_env 32"
    by (simp_all add: the_cache_def demo_directory_def loadISOGameListCache_def demo_env_def)
  moreover have "same_file g g" for g by (simp add: same_file_def)
  ultimately show ?thesis using cache_after_scan [OF demo_scan(1,2), of "Some [demo_image ''SLUS_203.13.Rez.zso'']"] by simp
qed

end
