(* ===== verification/Streaming.thy ===== *)
theory Streaming
  imports Prelude
begin

text \<open>
  Streaming from the disc beside a running game (\<open>src/modules/iopcore/cdvdman/streaming.c\<close>, with the reading
  thread and its lock in \<open>cdvdman.c\<close>): a ring of banks that the reading thread fills and the game's
  calls of \<open>sceCdStRead\<close> empty.  The functions are first given one by one; then the game's thread, the
  reading thread and the alarm run interleaved, one step per region that no other can enter.
\<close>

subsection \<open>The stream\<close>

text \<open>\<open>struct SteamingData\<close>; the numbers are of 16 bits, \<open>Stlsn\<close> of 32.\<close>

record stream =
  StBufmax :: nat
  StBankmax :: nat
  StBanksize :: nat
  StWritePtr :: nat
  StReadPtr :: nat
  StStreamed :: nat
  StStat :: bool
  StIsReading :: bool
  Stlsn :: nat

definition StReset :: "stream \<Rightarrow> stream" where
  "StReset s = s\<lparr>StWritePtr := 0, StReadPtr := 0, StStreamed := 0, StIsReading := False\<rparr>"

definition sceCdStInit :: "nat \<Rightarrow> nat \<Rightarrow> stream \<Rightarrow> ub + stream" where
  "sceCdStInit bufmax bankmax s =
     (if bankmax = 0 then Inl DivisionByZero
      else let s = s\<lparr>StBankmax := bankmax mod 2 ^ 16, StBanksize := bufmax div bankmax mod 2 ^ 16\<rparr>
           in Inr (StReset (s\<lparr>StBufmax := StBanksize s * StBankmax s mod 2 ^ 16\<rparr>)))"

text \<open>The first sector of the bank to fill.\<close>

definition AllocBank :: "stream \<Rightarrow> nat option" where
  "AllocBank s = (if int (StBanksize s) \<le> int (StBufmax s) - int (StStreamed s) then Some (StWritePtr s) else None)"

text \<open>The update in \<open>StmCallback\<close>.\<close>

definition bank_read :: "stream \<Rightarrow> stream" where
  "bank_read s =
     (let wr = (StWritePtr s + StBanksize s) mod 2 ^ 16
      in s\<lparr>Stlsn := (Stlsn s + StBanksize s) mod 2 ^ 32, StStreamed := (StStreamed s + StBanksize s) mod 2 ^ 16,
           StWritePtr := (if StBufmax s \<le> wr then 0 else wr), StIsReading := False\<rparr>)"

text \<open>
  \<open>StFillStreamBuffer\<close> up to \<open>CpuResumeIntr\<close>: \<open>None\<close> when a bank is being read, else the place of the
  bank to read, if one is free.
\<close>

definition fill_begin :: "stream \<Rightarrow> nat option option \<times> stream" where
  "fill_begin s = (if StIsReading s then (None, s) else (Some (AllocBank s), s\<lparr>StIsReading := True\<rparr>))"

text \<open>
  The sectors of the ring that \<open>ReadSectors\<close> and \<open>ReadSectorsEE\<close> copy, and the new read pointer.  The first part runs to
  the end of the ring, the second one to the write pointer.
\<close>

definition advance :: "stream \<Rightarrow> nat \<Rightarrow> nat \<Rightarrow> nat" where
  "advance s rd n = (if StBufmax s \<le> rd + n then 0 else rd + n)"

definition chunk1 :: "stream \<Rightarrow> nat \<Rightarrow> nat" where
  "chunk1 s maxcount = (if StWritePtr s \<le> StReadPtr s \<and> 0 < StStreamed s then min (StBufmax s - StReadPtr s) maxcount else 0)"

definition chunk2 :: "stream \<Rightarrow> nat \<Rightarrow> nat \<Rightarrow> nat" where
  "chunk2 s rd maxcount = (if 0 < maxcount \<and> rd < StWritePtr s then min (StWritePtr s - rd) maxcount else 0)"

definition sectors_to_copy :: "stream \<Rightarrow> nat \<Rightarrow> nat list \<times> nat" where
  "sectors_to_copy s maxcount =
     (let n1 = chunk1 s maxcount; rd1 = (if n1 = 0 then StReadPtr s else advance s (StReadPtr s) n1);
          n2 = chunk2 s rd1 (maxcount - n1); rd2 = (if n2 = 0 then rd1 else advance s rd1 n2)
      in ([StReadPtr s..<StReadPtr s + n1] @ [rd1..<rd1 + n2], rd2))"

text \<open>The update of the variables.\<close>

definition sectors_copied :: "nat list \<Rightarrow> nat \<Rightarrow> stream \<Rightarrow> stream" where
  "sectors_copied slots rd s = (if slots = [] then s else s\<lparr>StReadPtr := rd, StStreamed := (StStreamed s + 2 ^ 16 - length slots) mod 2 ^ 16\<rparr>)"

subsection \<open>The threads\<close>

text \<open>
  The game's thread: in \<open>sceCdStRead\<close> waiting for the event flag, about to clear it, about to copy, or waiting for a
  transfer, with the sectors that are left and whether the call blocks and copies to the EE; about to call
  \<open>StStartFillStreamBuffer\<close>, inside it with the bank that is free, or about to set the alarm; behind \<open>CancelAlarm\<close> of
  a stop, with the sector to start from, or of a pause; and in \<open>sceCdSync\<close>.
\<close>

datatype game_pc =
    GIdle
  | GWait nat bool bool
  | GClear nat bool bool
  | GCopy nat bool bool
  | GDma "nat list" nat nat bool
  | GStart
  | GFill "nat option"
  | GAlarm
  | GStop "nat option"
  | GPause
  | GSync "nat option"

text \<open>
  The reading thread: waiting; reading; behind a read with the lock released; in the callback (\<open>StmCallback\<close>), before its test; about to count the bank; about to fill, with
  the bank that is free, or about to set the alarm.  A request has the first sector, the number of sectors
  and the place in the ring, \<open>None\<close> for a buffer of the game.
\<close>

type_synonym request = "nat \<times> nat \<times> nat option"

datatype reader_pc = RWait | RRead request | REnded | RCallback | RCount | RStart | RFill "nat option" | RAlarm

text \<open>
  \<open>pending\<close> is the request in \<open>cdvdman_stat\<close> with \<open>cdrom_rthread_sema\<close> signalled, \<open>event8\<close> bit 8 of the event flag,
  \<open>alarm\<close> whether \<open>StmScheduleCb\<close> is due, and \<open>alarm_fill\<close> the bank while it runs.  \<open>delivered\<close> are the sectors that the game's
  calls have got, each given by its number.
\<close>

record drive =
  strm :: stream
  ring :: "nat list"
  sync_flag :: bool
  pending :: "request option"
  Stm0Callback :: bool
  event8 :: bool
  alarm :: bool
  game :: game_pc
  reader :: reader_pc
  alarm_fill :: "nat option option"
  delivered :: "nat list"

text \<open>\<open>cdvdman_AsyncRead\<close>; \<open>None\<close> when the lock is held.\<close>

definition cdvdman_AsyncRead :: "request \<Rightarrow> drive \<Rightarrow> drive option" where
  "cdvdman_AsyncRead rq d = (if sync_flag d then None else Some (d\<lparr>sync_flag := True, pending := Some rq\<rparr>))"

text \<open>
  \<open>StFillStreamBuffer\<close> behind \<open>CpuResumeIntr\<close>: whether the read could not be started, which makes the caller set the alarm.
\<close>

definition fill_end :: "nat option \<Rightarrow> drive \<Rightarrow> bool \<times> drive" where
  "fill_end bank d =
     (case bank of
        None \<Rightarrow> (False, d\<lparr>strm := (strm d)\<lparr>StIsReading := False\<rparr>\<rparr>)
      | Some p \<Rightarrow>
          (case cdvdman_AsyncRead (Stlsn (strm d), StBanksize (strm d), Some p) d of
             None \<Rightarrow> (True, d\<lparr>strm := (strm d)\<lparr>StIsReading := False\<rparr>\<rparr>)
           | Some d \<Rightarrow> (False, d)))"

definition start_fill :: "drive \<Rightarrow> nat option option \<times> drive" where
  "start_fill d =
     (case fill_begin (strm d) of
        (None, s) \<Rightarrow> (None, d)
      | (Some bank, s) \<Rightarrow> (Some bank, d\<lparr>strm := s, alarm := False\<rparr>))"

text \<open>The reading thread writes the sectors of a request.\<close>

definition transfer :: "request \<Rightarrow> nat list \<Rightarrow> nat list" where
  "transfer rq rg =
     (case rq of
        (l, n, Some p) \<Rightarrow> write_at rg p (map (\<lambda>i. (l + i) mod 2 ^ 32) [0..<n])
      | (l, n, None) \<Rightarrow> rg)"

definition reader_step :: "drive \<Rightarrow> drive option" where
  "reader_step d =
     (case reader d of
        RWait \<Rightarrow> (case pending d of None \<Rightarrow> None | Some rq \<Rightarrow> Some (d\<lparr>pending := None, reader := RRead rq\<rparr>))
      | RRead rq \<Rightarrow> Some (d\<lparr>ring := transfer rq (ring d), sync_flag := False, event8 := True,
                              reader := (if Stm0Callback d then REnded else RWait)\<rparr>)
      | REnded \<Rightarrow> Some (d\<lparr>reader := (if Stm0Callback d then RCallback else RWait)\<rparr>)
      | RCallback \<Rightarrow> Some (d\<lparr>reader := (if StIsReading (strm d) then RCount else RStart)\<rparr>)
      | RCount \<Rightarrow> Some (d\<lparr>strm := bank_read (strm d), reader := RStart\<rparr>)
      | RStart \<Rightarrow> Some (case start_fill d of (None, d) \<Rightarrow> d\<lparr>reader := RWait\<rparr> | (Some bank, d) \<Rightarrow> d\<lparr>reader := RFill bank\<rparr>)
      | RFill bank \<Rightarrow> Some (case fill_end bank d of (failed, d) \<Rightarrow> d\<lparr>reader := (if failed then RAlarm else RWait)\<rparr>)
      | RAlarm \<Rightarrow> Some (d\<lparr>alarm := True, reader := RWait\<rparr>))"

definition alarm_step :: "drive \<Rightarrow> drive option" where
  "alarm_step d =
     (case alarm_fill d of
        Some bank \<Rightarrow> Some (case fill_end bank d of (failed, d) \<Rightarrow> d\<lparr>alarm_fill := None, alarm := failed \<or> alarm d\<rparr>)
      | None \<Rightarrow> if alarm d then Some (case start_fill (d\<lparr>alarm := False\<rparr>) of (bank, d) \<Rightarrow> d\<lparr>alarm_fill := bank\<rparr>) else None)"

text \<open>The calls of the game.\<close>

datatype call =
    StRead nat bool bool
  | StStart nat
  | StStop
  | StPause
  | StResume
  | StSeek nat
  | GameRead nat nat

definition start_stream :: "nat \<Rightarrow> drive \<Rightarrow> drive" where
  "start_stream l d = d\<lparr>strm := StReset ((strm d)\<lparr>Stlsn := l, StStat := True\<rparr>), Stm0Callback := True, game := GStart\<rparr>"

definition stop_stream :: "nat option \<Rightarrow> drive \<Rightarrow> drive" where
  "stop_stream l d =
     (if StStat (strm d) then d\<lparr>alarm := False, game := GStop l\<rparr>
      else case l of None \<Rightarrow> d | Some l \<Rightarrow> start_stream l d)"

definition game_call :: "call \<Rightarrow> drive \<Rightarrow> drive option" where
  "game_call c d =
     (if game d \<noteq> GIdle then None
      else case c of
             StRead n blocking ee \<Rightarrow>
               Some (if StStat (strm d) then d\<lparr>event8 := True, game := (if n = 0 then GStart else GWait n blocking ee)\<rparr> else d)
           | StStart l \<Rightarrow> Some (stop_stream (Some l) d)
           | StStop \<Rightarrow> Some (stop_stream None d)
           | StPause \<Rightarrow>
               Some (if StStat (strm d) then d\<lparr>alarm := False, game := GPause\<rparr> else d)
           | StResume \<Rightarrow> Some (if StStat (strm d) then d\<lparr>Stm0Callback := True, game := GStart\<rparr> else d)
           | StSeek l \<Rightarrow> Some (if StStat (strm d) then stop_stream (Some l) d else d)
           | GameRead l n \<Rightarrow> cdvdman_AsyncRead (l, n, None) d)"

text \<open>Behind a copy of \<open>k\<close> sectors: the loop ends, or waits again.\<close>

definition after_copy :: "nat \<Rightarrow> nat \<Rightarrow> bool \<Rightarrow> bool \<Rightarrow> game_pc" where
  "after_copy k n blocking ee = (if \<not> blocking \<or> n \<le> k then GStart else GWait (n - k) blocking ee)"

definition game_step :: "drive \<Rightarrow> drive option" where
  "game_step d =
     (case game d of
        GIdle \<Rightarrow> None
      | GWait n blocking ee \<Rightarrow> if event8 d then Some (d\<lparr>game := GClear n blocking ee\<rparr>) else None
      | GClear n blocking ee \<Rightarrow> Some (d\<lparr>event8 := False, game := GCopy n blocking ee\<rparr>)
      | GCopy n blocking ee \<Rightarrow>
          let (slots, rd) = sectors_to_copy (strm d) n
          in if ee \<and> slots \<noteq> [] then Some (d\<lparr>game := GDma slots rd n blocking\<rparr>)
             else Some (d\<lparr>delivered := delivered d @ map (\<lambda>i. ring d ! i) slots, strm := sectors_copied slots rd (strm d),
                          game := after_copy (length slots) n blocking ee\<rparr>)
      | GDma slots rd n blocking \<Rightarrow>
          Some (d\<lparr>delivered := delivered d @ map (\<lambda>i. ring d ! i) slots, strm := sectors_copied slots rd (strm d),
                  game := after_copy (length slots) n blocking True\<rparr>)
      | GStart \<Rightarrow> Some (case start_fill d of (None, d) \<Rightarrow> d\<lparr>game := GIdle\<rparr> | (Some bank, d) \<Rightarrow> d\<lparr>game := GFill bank\<rparr>)
      | GFill bank \<Rightarrow> Some (case fill_end bank d of (failed, d) \<Rightarrow> d\<lparr>game := (if failed then GAlarm else GIdle)\<rparr>)
      | GAlarm \<Rightarrow> Some (d\<lparr>alarm := True, game := GIdle\<rparr>)
      | GStop l \<Rightarrow> Some (d\<lparr>strm := StReset ((strm d)\<lparr>StStat := False\<rparr>), Stm0Callback := False, game := GSync l\<rparr>)
      | GPause \<Rightarrow> Some (d\<lparr>strm := (strm d)\<lparr>StIsReading := False\<rparr>, Stm0Callback := False, game := GSync None\<rparr>)
      | GSync l \<Rightarrow> if sync_flag d then None
                   else Some (case l of None \<Rightarrow> d\<lparr>game := GIdle\<rparr> | Some l \<Rightarrow> start_stream l d))"

datatype action = Call call | Game | Reader | Alarm

fun exec :: "action \<Rightarrow> drive \<Rightarrow> drive option" where
  "exec (Call c) d = game_call c d"
| "exec Game d = game_step d"
| "exec Reader d = reader_step d"
| "exec Alarm d = alarm_step d"

fun exec_all :: "action list \<Rightarrow> drive \<Rightarrow> drive option" where
  "exec_all [] d = Some d"
| "exec_all (a # as) d = (case exec a d of None \<Rightarrow> None | Some d \<Rightarrow> exec_all as d)"

text \<open>The states that a drive reaches with certain calls.\<close>

inductive reach :: "(call \<Rightarrow> bool) \<Rightarrow> drive \<Rightarrow> drive \<Rightarrow> bool" for allowed d0 where
  start: "reach allowed d0 d0"
| step: "\<lbrakk>reach allowed d0 d; exec a d = Some d'; \<forall>c. a = Call c \<longrightarrow> allowed c\<rbrakk> \<Longrightarrow> reach allowed d0 d'"

text \<open>A drive whose stream has been initialised, with the ring's contents, and started at a sector.\<close>

definition started :: "stream \<Rightarrow> nat list \<Rightarrow> nat \<Rightarrow> drive" where
  "started s rg l = start_stream l
     \<lparr>strm = s, ring = rg, sync_flag = False, pending = None, Stm0Callback = False, event8 = False, alarm = False,
      game = GIdle, reader = RWait, alarm_fill = None, delivered = []\<rparr>"

subsection \<open>The ring\<close>

definition stream_ok :: "stream \<Rightarrow> bool" where
  "stream_ok s = (0 < StBanksize s \<and> StBanksize s dvd StBufmax s \<and> 0 < StBufmax s \<and> StBufmax s < 2 ^ 16
     \<and> StBanksize s dvd StWritePtr s \<and> StWritePtr s < StBufmax s \<and> StReadPtr s < StBufmax s \<and> StStreamed s \<le> StBufmax s
     \<and> (StReadPtr s + StStreamed s) mod StBufmax s = StWritePtr s
     \<and> StStat s)"

lemma wrapped: "\<lbrakk>a < 2 * n; 0 < (n::nat)\<rbrakk> \<Longrightarrow> a mod n = (if a < n then a else a - n)"
  by (simp add: mod_if)

lemma write_ptr:
  assumes "stream_ok s"
  shows "StWritePtr s = (if StReadPtr s + StStreamed s < StBufmax s then StReadPtr s + StStreamed s else StReadPtr s + StStreamed s - StBufmax s)"
proof -
  have "StReadPtr s + StStreamed s < 2 * StBufmax s" using assms by (simp add: stream_ok_def)
  then show ?thesis using assms wrapped [of "StReadPtr s + StStreamed s" "StBufmax s"] by (simp add: stream_ok_def)
qed

lemma upt_mod: "a + k \<le> n \<Longrightarrow> [a..<a + k] = map (\<lambda>i. (a + i) mod n) [0..<k]" for n :: nat
  by (rule nth_equalityI) auto

lemma upt_mod_wrap: "\<lbrakk>a < n; n \<le> a + k; k \<le> n\<rbrakk> \<Longrightarrow> [a..<n] @ [0..<a + k - n] = map (\<lambda>i. (a + i) mod n) [0..<k]" for n :: nat
  by (rule nth_equalityI) (auto simp: nth_append mod_if)

lemma sectors_to_copy_eq:
  assumes ok: "stream_ok s"
  shows "sectors_to_copy s n = (let k = min n (StStreamed s) in
    (map (\<lambda>i. (StReadPtr s + i) mod StBufmax s) [0..<k], (StReadPtr s + k) mod StBufmax s))"
proof -
  let ?B = "StBufmax s" and ?r = "StReadPtr s" and ?w = "StWritePtr s" and ?m = "StStreamed s"
  have b: "?r < ?B" "?m \<le> ?B" "0 < ?B" "?w < ?B" using ok by (simp_all add: stream_ok_def)
  note w = write_ptr [OF ok]
  define k where "k = min n ?m"
  show ?thesis
  proof (cases "?w \<le> ?r \<and> 0 < ?m")
    case True
    then have m: "?r + ?m = ?B + ?w" using w b by (auto split: if_splits)
    show ?thesis
    proof (cases "n < ?B - ?r")
      case True
      then have k: "k = n" "?r + n < ?B" using m b by (auto simp: k_def)
      have c: "chunk1 s n = n" "chunk2 s (if n = 0 then ?r else advance s ?r n) (n - n) = 0"
        using True \<open>?w \<le> ?r \<and> 0 < ?m\<close> by (simp_all add: chunk1_def chunk2_def)
      show ?thesis using c k upt_mod [of ?r n ?B] b by (simp add: sectors_to_copy_def advance_def Let_def flip: k_def)
    next
      case False
      then have c1: "chunk1 s n = ?B - ?r" using \<open>?w \<le> ?r \<and> 0 < ?m\<close> by (simp add: chunk1_def)
      have a: "advance s ?r (?B - ?r) = 0" using b by (simp add: advance_def)
      define d where "d = n - (?B - ?r)"
      have c2: "chunk2 s 0 d = min ?w d" by (auto simp: chunk2_def)
      define j where "j = min ?w d"
      have kj: "k = ?B - ?r + j" using m False b by (auto simp: k_def j_def d_def)
      then have eq: "?r + k - ?B = j" "?B \<le> ?r + k" "k \<le> ?B" using b by (auto simp: k_def)
      have j: "j < ?B" using b by (auto simp: j_def)
      then have adv: "advance s 0 j = j" by (simp add: advance_def)
      have "(?r + k) mod ?B = j" using le_mod_geq [OF eq(2)] eq(1) j by simp
      moreover have "sectors_to_copy s n = ([?r..<?B] @ [0..<j], j)"
        using c1 c2 a b adv by (simp add: sectors_to_copy_def Let_def flip: d_def j_def)
      ultimately show ?thesis using upt_mod_wrap [OF b(1) eq(2,3)] eq(1) by (simp add: Let_def flip: k_def)
    qed
  next
    case False
    then have c1: "chunk1 s n = 0" by (auto simp: chunk1_def)
    show ?thesis
    proof (cases "?m = 0")
      case True
      then have "?w = ?r" using w b by simp
      then show ?thesis using c1 True b by (simp add: sectors_to_copy_def chunk2_def Let_def)
    next
      case False
      then have m: "?w = ?r + ?m" using w b \<open>\<not> (?w \<le> ?r \<and> 0 < ?m)\<close> by (auto split: if_splits)
      then have c2: "chunk2 s ?r n = k" using False by (auto simp: chunk2_def k_def)
      have "?r + k < ?B" using m b by (simp add: k_def)
      then show ?thesis using c1 c2 upt_mod [of ?r k ?B] by (simp add: sectors_to_copy_def advance_def Let_def flip: k_def)
    qed
  qed
qed

lemma bank_end: "stream_ok s \<Longrightarrow> StWritePtr s + StBanksize s \<le> StBufmax s"
proof -
  assume ok: "stream_ok s"
  then have "StBanksize s dvd StBufmax s - StWritePtr s" by (simp add: stream_ok_def dvd_diff_nat)
  moreover have w: "StWritePtr s < StBufmax s" using ok by (simp add: stream_ok_def)
  ultimately have "StBanksize s \<le> StBufmax s - StWritePtr s" by (intro dvd_imp_le) auto
  then show ?thesis using w by linarith
qed

lemma bank_read_ok:
  assumes ok: "stream_ok s" and r: "StBanksize s + StStreamed s \<le> StBufmax s"
  shows "stream_ok (bank_read s)" "StStreamed (bank_read s) = StStreamed s + StBanksize s"
    "StWritePtr (bank_read s) = (StWritePtr s + StBanksize s) mod StBufmax s"
    "Stlsn (bank_read s) = (Stlsn s + StBanksize s) mod 2 ^ 32"
    "StReadPtr (bank_read s) = StReadPtr s" "StBufmax (bank_read s) = StBufmax s" "StBanksize (bank_read s) = StBanksize s"
    "\<not> StIsReading (bank_read s)" "StStat (bank_read s) = StStat s"
proof -
  have e: "StWritePtr s + StBanksize s \<le> StBufmax s" "StBufmax s < 2 ^ 16" "StStreamed s + StBanksize s \<le> StBufmax s"
    using bank_end [OF ok] ok r by (simp_all add: stream_ok_def)
  have wr: "StWritePtr (bank_read s) = (StWritePtr s + StBanksize s) mod StBufmax s"
    using e r by (auto simp: bank_read_def Let_def)
  show "StWritePtr (bank_read s) = (StWritePtr s + StBanksize s) mod StBufmax s" by (rule wr)
  show st: "StStreamed (bank_read s) = StStreamed s + StBanksize s" using e r by (simp add: bank_read_def Let_def)
  show f: "Stlsn (bank_read s) = (Stlsn s + StBanksize s) mod 2 ^ 32" "StReadPtr (bank_read s) = StReadPtr s"
    "StBufmax (bank_read s) = StBufmax s" "StBanksize (bank_read s) = StBanksize s" "\<not> StIsReading (bank_read s)"
    using r by (simp_all add: bank_read_def Let_def)
  have "(StReadPtr s + (StStreamed s + StBanksize s)) mod StBufmax s = (StWritePtr s + StBanksize s) mod StBufmax s"
    using ok unfolding stream_ok_def by (metis add.assoc mod_add_left_eq)
  moreover have "StBanksize s dvd (StWritePtr s + StBanksize s) mod StBufmax s" using ok by (simp add: stream_ok_def dvd_mod)
  moreover show "StStat (bank_read s) = StStat s" by (simp add: bank_read_def Let_def)
  ultimately show "stream_ok (bank_read s)" using ok e wr st f by (simp add: stream_ok_def)
qed

lemma sectors_copied_ok:
  assumes ok: "stream_ok s" and k: "k \<le> StStreamed s" "length slots = k" "rd = (StReadPtr s + k) mod StBufmax s"
  shows "stream_ok (sectors_copied slots rd s)" "StStreamed (sectors_copied slots rd s) = StStreamed s - k"
    "StReadPtr (sectors_copied slots rd s) = rd"
proof -
  have "StStreamed s + 65536 - k = StStreamed s - k + 65536" using k(1) by simp
  moreover have "StStreamed s - k < 65536" using ok by (auto simp: stream_ok_def)
  ultimately have m: "(StStreamed s + 65536 - k) mod 65536 = StStreamed s - k" by (metis mod_add_self2 mod_less)
  have "((StReadPtr s + k) mod StBufmax s + (StStreamed s - k)) mod StBufmax s = (StReadPtr s + k + (StStreamed s - k)) mod StBufmax s"
    by (rule mod_add_left_eq)
  then have a: "((StReadPtr s + k) mod StBufmax s + (StStreamed s - k)) mod StBufmax s = (StReadPtr s + StStreamed s) mod StBufmax s"
    using k(1) by simp
  have r: "StReadPtr s mod StBufmax s = StReadPtr s" using ok by (simp add: stream_ok_def)
  show st: "StStreamed (sectors_copied slots rd s) = StStreamed s - k" "StReadPtr (sectors_copied slots rd s) = rd"
    using k r m by (auto simp: sectors_copied_def)
  have le: "StStreamed s - k \<le> StBufmax s" using ok unfolding stream_ok_def by linarith
  have "stream_ok (s\<lparr>StReadPtr := rd, StStreamed := StStreamed s - k\<rparr>)"
    using ok le a unfolding k(3) by (simp add: stream_ok_def)
  then show "stream_ok (sectors_copied slots rd s)" using ok m k(2) by (cases "slots = []") (simp_all add: sectors_copied_def)
qed

lemma sectors_copied_simps [simp]:
  "StBufmax (sectors_copied slots rd s) = StBufmax s" "StBanksize (sectors_copied slots rd s) = StBanksize s"
  "StWritePtr (sectors_copied slots rd s) = StWritePtr s" "Stlsn (sectors_copied slots rd s) = Stlsn s"
  "StIsReading (sectors_copied slots rd s) = StIsReading s" "StStat (sectors_copied slots rd s) = StStat s"
  by (simp_all add: sectors_copied_def)

lemma reading_simps [simp]:
  "stream_ok (s\<lparr>StIsReading := r\<rparr>) = stream_ok s"
  by (simp add: stream_ok_def)

text \<open>
  The ring holds the sectors behind the delivered ones, in order, for a stream that was started at \<open>l0\<close>.
\<close>

definition fifo_ok :: "nat \<Rightarrow> stream \<Rightarrow> nat list \<Rightarrow> nat list \<Rightarrow> bool" where
  "fifo_ok l0 s rg dl =
     (length rg = StBufmax s \<and> Stlsn s = (l0 + length dl + StStreamed s) mod 2 ^ 32
      \<and> (\<forall>i < StStreamed s. rg ! ((StReadPtr s + i) mod StBufmax s) = (l0 + length dl + i) mod 2 ^ 32)
      \<and> dl = map (\<lambda>i. (l0 + i) mod 2 ^ 32) [0..<length dl])"

definition bank_filled :: "stream \<Rightarrow> nat list \<Rightarrow> bool" where
  "bank_filled s rg = (\<forall>i < StBanksize s. rg ! (StWritePtr s + i) = (Stlsn s + i) mod 2 ^ 32)"

lemma fifo_reading [simp]: "fifo_ok l0 (s\<lparr>StIsReading := r\<rparr>) rg dl = fifo_ok l0 s rg dl"
  by (simp add: fifo_ok_def)

lemma filled_reading [simp]: "bank_filled (s\<lparr>StIsReading := r\<rparr>) rg = bank_filled s rg"
  by (simp add: bank_filled_def)

lemma fifo_okD:
  assumes "fifo_ok l0 s rg dl"
  shows "length rg = StBufmax s" "Stlsn s = (l0 + length dl + StStreamed s) mod 2 ^ 32"
    "\<And>i. i < StStreamed s \<Longrightarrow> rg ! ((StReadPtr s + i) mod StBufmax s) = (l0 + length dl + i) mod 2 ^ 32"
    "map (\<lambda>i. (l0 + i) mod 2 ^ 32) [0..<length dl] = dl"
  using assms by (simp_all add: fifo_ok_def)

text \<open>The place of the sector \<open>i\<close> behind the streamed ones.\<close>

lemma free_place:
  assumes ok: "stream_ok s" and i: "i < StBanksize s"
  shows "(StReadPtr s + (StStreamed s + i)) mod StBufmax s = StWritePtr s + i"
proof -
  have "(StReadPtr s + StStreamed s + i) mod StBufmax s = (StWritePtr s + i) mod StBufmax s"
    using ok by (simp add: stream_ok_def flip: mod_add_left_eq [of "StReadPtr s + StStreamed s"])
  then show ?thesis using bank_end [OF ok] i by (simp add: add.assoc)
qed

lemma fifo_transfer:
  assumes ok: "stream_ok s" and room: "StBanksize s + StStreamed s \<le> StBufmax s" and f: "fifo_ok l0 s rg dl"
  shows "fifo_ok l0 s (transfer (Stlsn s, StBanksize s, Some (StWritePtr s)) rg) dl"
    "bank_filled s (transfer (Stlsn s, StBanksize s, Some (StWritePtr s)) rg)"
proof -
  let ?B = "StBufmax s" and ?w = "StWritePtr s" and ?n = "StBanksize s"
  let ?new = "map (\<lambda>i. (Stlsn s + i) mod 2 ^ 32) [0..<?n]"
  let ?rg = "transfer (Stlsn s, ?n, Some ?w) rg"
  have e: "?w + ?n \<le> ?B" using bank_end [OF ok] .
  have rg: "?rg = take ?w rg @ ?new @ drop (?w + ?n) rg" by (simp add: transfer_def write_at_def)
  note fD = fifo_okD [OF f]
  have len: "length rg = ?B" by (rule fD(1))
  have other: "?rg ! j = rg ! j" if "j < ?w \<or> ?w + ?n \<le> j" "j < ?B" for j
    using that len e by (auto simp: rg nth_append)
  have "?rg ! ((StReadPtr s + i) mod ?B) = rg ! ((StReadPtr s + i) mod ?B)" if i: "i < StStreamed s" for i
  proof -
    have "(StReadPtr s + i) mod ?B < ?w \<or> ?w + ?n \<le> (StReadPtr s + i) mod ?B"
      using write_ptr [OF ok] ok room i by (auto simp: stream_ok_def mod_if split: if_splits)
    then show ?thesis using other ok by (simp add: stream_ok_def)
  qed
  then have "\<forall>i < StStreamed s. ?rg ! ((StReadPtr s + i) mod ?B) = (l0 + length dl + i) mod 2 ^ 32" using fD(3) by simp
  moreover have "length ?rg = ?B" using len e by (simp add: rg)
  ultimately show "fifo_ok l0 s ?rg dl" unfolding fifo_ok_def using fD(2) fD(4) [symmetric] by blast
  show "bank_filled s ?rg" using len e by (auto simp: bank_filled_def rg nth_append)
qed

lemma fifo_count:
  assumes ok: "stream_ok s" and room: "StBanksize s + StStreamed s \<le> StBufmax s" and f: "fifo_ok l0 s rg dl" and b: "bank_filled s rg"
  shows "fifo_ok l0 (bank_read s) rg dl"
proof -
  note r = bank_read_ok [OF ok room] and fD = fifo_okD [OF f]
  have "rg ! ((StReadPtr s + i) mod StBufmax s) = (l0 + length dl + i) mod 2 ^ 32" if i: "i < StStreamed s + StBanksize s" for i
  proof (cases "i < StStreamed s")
    case True
    then show ?thesis by (rule fD(3))
  next
    case False
    then obtain j where j: "i = StStreamed s + j" "j < StBanksize s" using i by (metis le_Suc_ex not_le nat_add_left_cancel_less)
    have "rg ! (StWritePtr s + j) = (Stlsn s + j) mod 2 ^ 32" using b j(2) by (simp add: bank_filled_def)
    also have "\<dots> = (l0 + length dl + StStreamed s + j) mod 2 ^ 32" unfolding fD(2) by (rule mod_add_left_eq)
    finally show ?thesis using free_place [OF ok j(2)] j(1) by (simp add: add.assoc)
  qed
  moreover have "(Stlsn s + StBanksize s) mod 2 ^ 32 = (l0 + length dl + (StStreamed s + StBanksize s)) mod 2 ^ 32"
    unfolding fD(2) mod_add_left_eq by (simp only: add.assoc)
  ultimately show ?thesis unfolding fifo_ok_def r using fD(1) fD(4) [symmetric] by blast
qed

lemma fifo_copy:
  assumes ok: "stream_ok s" and f: "fifo_ok l0 s rg dl" and k: "k \<le> StStreamed s"
    and slots: "slots = map (\<lambda>i. (StReadPtr s + i) mod StBufmax s) [0..<k]" and rd: "rd = (StReadPtr s + k) mod StBufmax s"
  shows "fifo_ok l0 (sectors_copied slots rd s) rg (dl @ map (\<lambda>i. rg ! i) slots)"
proof -
  have l: "length slots = k" by (simp add: slots)
  note c = sectors_copied_ok [OF ok k l rd] and fD = fifo_okD [OF f]
  let ?dl = "dl @ map (\<lambda>i. rg ! i) slots"
  have d: "map (\<lambda>i. rg ! i) slots = map (\<lambda>i. (l0 + (length dl + i)) mod 2 ^ 32) [0..<k]"
    using fD(3) k by (auto simp: slots add.assoc)
  have "?dl = map (\<lambda>i. (l0 + i) mod 2 ^ 32) ([0..<length dl] @ map (\<lambda>i. length dl + i) [0..<k])"
    unfolding d map_append fD(4) by (simp add: o_def)
  also have "[0..<length dl] @ map (\<lambda>i. length dl + i) [0..<k] = [0..<length dl + k]"
    using upt_add_eq_append [of 0 "length dl" k] map_add_upt [of "length dl" k] by (simp add: add.commute)
  finally have dl: "?dl = map (\<lambda>i. (l0 + i) mod 2 ^ 32) [0..<length ?dl]" using l by simp
  have "rg ! ((rd + i) mod StBufmax s) = (l0 + (length dl + k) + i) mod 2 ^ 32" if i: "i < StStreamed s - k" for i
  proof -
    have "(rd + i) mod StBufmax s = (StReadPtr s + (k + i)) mod StBufmax s" by (simp add: rd mod_simps add.assoc)
    moreover have "rg ! ((StReadPtr s + (k + i)) mod StBufmax s) = (l0 + length dl + (k + i)) mod 2 ^ 32" by (rule fD(3)) (use i in simp)
    ultimately show ?thesis by (simp only: add.assoc)
  qed
  moreover have "Stlsn s = (l0 + (length dl + k) + (StStreamed s - k)) mod 2 ^ 32" using fD(2) k by (simp add: add.assoc)
  ultimately show ?thesis unfolding fifo_ok_def c sectors_copied_simps using fD(1) dl l by simp
qed


subsection \<open>The lock and the mark of a read\<close>

text \<open>
  Who has set \<open>StIsReading\<close>, with the bank that is read: at most one of the threads, the alarm and the request.
\<close>

fun game_mark :: "game_pc \<Rightarrow> nat option list" where
  "game_mark (GFill b) = [b]"
| "game_mark pc = []"

fun reader_mark :: "stream \<Rightarrow> reader_pc \<Rightarrow> nat option list" where
  "reader_mark s (RRead rq) = [snd (snd rq)]"
| "reader_mark s REnded = [Some (StWritePtr s)]"
| "reader_mark s RCallback = [Some (StWritePtr s)]"
| "reader_mark s RCount = [Some (StWritePtr s)]"
| "reader_mark s (RFill b) = [b]"
| "reader_mark s pc = []"

definition alarm_mark :: "nat option option \<Rightarrow> nat option list" where
  "alarm_mark a = (case a of None \<Rightarrow> [] | Some b \<Rightarrow> [b])"

definition pending_mark :: "request option \<Rightarrow> nat option list" where
  "pending_mark p = (case p of None \<Rightarrow> [] | Some rq \<Rightarrow> [snd (snd rq)])"

lemma mark_simps [simp]:
  "alarm_mark None = []" "alarm_mark (Some b) = [b]" "pending_mark None = []" "pending_mark (Some rq) = [snd (snd rq)]"
  by (simp_all add: alarm_mark_def pending_mark_def)

definition holders :: "drive \<Rightarrow> nat option list" where
  "holders d = game_mark (game d) @ alarm_mark (alarm_fill d) @ reader_mark (strm d) (reader d) @ pending_mark (pending d)"

definition bank_request :: "stream \<Rightarrow> request" where
  "bank_request s = (Stlsn s, StBanksize s, Some (StWritePtr s))"

fun request_of :: "reader_pc \<Rightarrow> request option" where
  "request_of (RRead rq) = Some rq"
| "request_of pc = None"

lemma bank_request_place [simp]: "snd (snd (bank_request s)) = Some (StWritePtr s)"
  by (simp add: bank_request_def)

definition lock_ok :: "drive \<Rightarrow> bool" where
  "lock_ok d = (Stm0Callback d \<and> stream_ok (strm d)
     \<and> length (holders d) = (if StIsReading (strm d) then 1 else 0)
     \<and> (\<forall>p. Some p \<in> set (holders d) \<longrightarrow> p = StWritePtr (strm d) \<and> StBanksize (strm d) + StStreamed (strm d) \<le> StBufmax (strm d))
     \<and> (pending d \<noteq> None \<longrightarrow> pending d = Some (bank_request (strm d)) \<and> sync_flag d)
     \<and> (request_of (reader d) \<noteq> None \<longrightarrow> request_of (reader d) = Some (bank_request (strm d)) \<and> sync_flag d)
     \<and> (\<forall>l. game d \<noteq> GStop l \<and> game d \<noteq> GSync l) \<and> game d \<noteq> GPause)"

definition copies :: "stream \<Rightarrow> nat list \<Rightarrow> nat \<Rightarrow> bool" where
  "copies s slots rd = (\<exists>k \<le> StStreamed s. slots = map (\<lambda>i. (StReadPtr s + i) mod StBufmax s) [0..<k] \<and> rd = (StReadPtr s + k) mod StBufmax s)"

lemma copies_mono:
  "\<lbrakk>copies s slots rd; StReadPtr s' = StReadPtr s; StBufmax s' = StBufmax s; StStreamed s \<le> StStreamed s'\<rbrakk> \<Longrightarrow> copies s' slots rd"
  unfolding copies_def by (metis le_trans)

definition data_ok :: "nat \<Rightarrow> drive \<Rightarrow> bool" where
  "data_ok l0 d = (fifo_ok l0 (strm d) (ring d) (delivered d)
     \<and> (reader d \<in> {REnded, RCallback, RCount} \<longrightarrow> bank_filled (strm d) (ring d))
     \<and> (\<forall>slots rd n b. game d = GDma slots rd n b \<longrightarrow>
          copies (strm d) slots rd))"

lemma lock_okD:
  assumes "lock_ok d"
  shows "Stm0Callback d" "stream_ok (strm d)" "length (holders d) = (if StIsReading (strm d) then 1 else 0)"
    "Some p \<in> set (holders d) \<Longrightarrow> p = StWritePtr (strm d) \<and> StBanksize (strm d) + StStreamed (strm d) \<le> StBufmax (strm d)"
    "pending d = Some rq \<Longrightarrow> rq = bank_request (strm d) \<and> sync_flag d"
    "reader d = RRead rq \<Longrightarrow> rq = bank_request (strm d) \<and> sync_flag d"
  using assms by (auto simp: lock_ok_def)

lemma mark_read: "pending_mark p = [] \<longleftrightarrow> p = None" "alarm_mark a = [] \<longleftrightarrow> a = None"
  by (simp_all add: pending_mark_def alarm_mark_def split: option.splits)

lemma one_holder:
  assumes "lock_ok d" "holders d = xs @ h # ys"
  shows "xs = [] \<and> ys = [] \<and> StIsReading (strm d)" "h = Some p \<Longrightarrow> p = StWritePtr (strm d) \<and> StBanksize (strm d) + StStreamed (strm d) \<le> StBufmax (strm d)"
  using lock_okD(3,4) [OF assms(1)] assms(2) by (auto split: if_splits)

lemma start_fill_cases:
  assumes "start_fill d = (b, d')"
  shows "b = None \<and> d' = d \<and> StIsReading (strm d)
    \<or> b = Some (AllocBank (strm d)) \<and> \<not> StIsReading (strm d) \<and> d' = d\<lparr>strm := (strm d)\<lparr>StIsReading := True\<rparr>, alarm := False\<rparr>"
  using assms by (auto simp: start_fill_def fill_begin_def split: if_splits)

lemma fill_end_cases:
  assumes "fill_end b d = (failed, d')"
  shows "d' = d\<lparr>strm := (strm d)\<lparr>StIsReading := False\<rparr>\<rparr>
    \<or> (\<exists>p. b = Some p \<and> \<not> sync_flag d \<and> \<not> failed \<and> d' = d\<lparr>sync_flag := True, pending := Some (Stlsn (strm d), StBanksize (strm d), Some p)\<rparr>)"
  using assms by (auto simp: fill_end_def cdvdman_AsyncRead_def split: option.splits if_splits)

lemma AllocBank_room: "AllocBank s = Some p \<Longrightarrow> p = StWritePtr s \<and> StBanksize s + StStreamed s \<le> StBufmax s"
  by (simp add: AllocBank_def split: if_splits)


text \<open>A step of a thread that neither marks nor unmarks a read.\<close>

lemma lock_same:
  assumes "lock_ok d" "holders d' = holders d" "strm d' = strm d" "Stm0Callback d'" "pending d' = pending d" "request_of (reader d') \<in> {None, request_of (reader d)}"
    "sync_flag d' = sync_flag d" "\<forall>l. game d' \<noteq> GStop l \<and> game d' \<noteq> GSync l" "game d' \<noteq> GPause"
  shows "lock_ok d'"
  using assms by (auto simp: lock_ok_def)

lemma lock_start_fill:
  assumes ok: "lock_ok d" and b: "start_fill d = (Some b, d1)"
  shows "holders d = []" "b = AllocBank (strm d)" "d1 = d\<lparr>strm := (strm d)\<lparr>StIsReading := True\<rparr>, alarm := False\<rparr>"
    "b = Some p \<Longrightarrow> p = StWritePtr (strm d) \<and> StBanksize (strm d) + StStreamed (strm d) \<le> StBufmax (strm d)"
  using start_fill_cases [OF b] lock_okD(3) [OF ok] AllocBank_room [of "strm d" p] by auto

lemma lock_marked:
  assumes ok: "lock_ok d" and b: "start_fill d = (Some b, d1)" and d': "holders d' = [b]" "strm d' = strm d1" "Stm0Callback d'"
    "pending d' = pending d" "request_of (reader d') = None" "\<forall>l. game d' \<noteq> GStop l \<and> game d' \<noteq> GSync l" "game d' \<noteq> GPause"
  shows "lock_ok d'"
proof -
  note f = lock_start_fill [OF ok b]
  have "pending d = None" using f(1) by (simp add: holders_def mark_read)
  then show ?thesis using ok d' f(3,4) by (auto simp: lock_ok_def)
qed

lemma lock_unmarked:
  assumes ok: "lock_ok d" and b: "fill_end b d = (failed, d1)" "[b] = holders d"
    and d': "strm d' = strm d1" "pending d' = pending d1" "sync_flag d' = sync_flag d1" "Stm0Callback d'"
      "request_of (reader d') = None" "\<forall>l. game d' \<noteq> GStop l \<and> game d' \<noteq> GSync l" "game d' \<noteq> GPause" "holders d' = pending_mark (pending d1)"
    and p: "pending d = None"
  shows "lock_ok d'"
  using fill_end_cases [OF b(1)]
proof
  assume "d1 = d\<lparr>strm := (strm d)\<lparr>StIsReading := False\<rparr>\<rparr>"
  then show ?thesis using ok d' p by (auto simp: lock_ok_def)
next
  assume "\<exists>p. b = Some p \<and> \<not> sync_flag d \<and> \<not> failed
    \<and> d1 = d\<lparr>sync_flag := True, pending := Some (Stlsn (strm d), StBanksize (strm d), Some p)\<rparr>"
  then obtain q where q: "b = Some q" "d1 = d\<lparr>sync_flag := True, pending := Some (Stlsn (strm d), StBanksize (strm d), Some q)\<rparr>" by blast
  moreover have "q = StWritePtr (strm d)" "StIsReading (strm d)" "StBanksize (strm d) + StStreamed (strm d) \<le> StBufmax (strm d)"
    using one_holder(1) [OF ok, of "[]" b "[]"] one_holder(2) [OF ok, of "[]" b "[]" q] b(2) q(1) by auto
  ultimately show ?thesis using ok d' by (auto simp: lock_ok_def bank_request_def)
qed

lemma reader_step_lock:
  assumes ok: "lock_ok d" and step: "reader_step d = Some d'"
  shows "lock_ok d'"
proof (cases "reader d")
  case RWait
  then obtain rq where rq: "pending d = Some rq" "d' = d\<lparr>pending := None, reader := RRead rq\<rparr>"
    using step by (auto simp: reader_step_def split: option.splits)
  have "holders d' = holders d" using RWait rq by (simp add: holders_def)
  then show ?thesis using ok lock_okD(5) [OF ok rq(1)] rq by (simp add: lock_ok_def)
next
  case (RRead rq)
  then have d': "d' = d\<lparr>ring := transfer rq (ring d), sync_flag := False, event8 := True, reader := REnded\<rparr>"
    using step lock_okD(1) [OF ok] by (simp add: reader_step_def)
  have rq: "rq = bank_request (strm d)" using lock_okD(6) [OF ok RRead] by simp
  have "holders d' = holders d" "pending d = None"
    using RRead rq one_holder(1) [OF ok, of "game_mark (game d) @ alarm_mark (alarm_fill d)" "snd (snd rq)" "pending_mark (pending d)"]
    by (simp_all add: d' holders_def mark_read)
  then show ?thesis using ok by (simp add: lock_ok_def d')
next
  case REnded
  then have d': "d' = d\<lparr>reader := RCallback\<rparr>" using step lock_okD(1) [OF ok] by (simp add: reader_step_def)
  show ?thesis by (rule lock_same [OF ok]) (use ok REnded in \<open>auto simp: d' holders_def lock_ok_def\<close>)
next
  case RCallback
  then have "StIsReading (strm d)"
    using one_holder(1) [OF ok, of "game_mark (game d) @ alarm_mark (alarm_fill d)" "Some (StWritePtr (strm d))" "pending_mark (pending d)"]
    by (simp add: holders_def)
  then have d': "d' = d\<lparr>reader := RCount\<rparr>" using step RCallback by (simp add: reader_step_def)
  show ?thesis by (rule lock_same [OF ok]) (use ok RCallback in \<open>auto simp: d' holders_def lock_ok_def\<close>)
next
  case RCount
  then have h: "holders d = (game_mark (game d) @ alarm_mark (alarm_fill d)) @ Some (StWritePtr (strm d)) # pending_mark (pending d)"
    by (simp add: holders_def)
  note o = one_holder [OF ok h]
  have d': "d' = d\<lparr>strm := bank_read (strm d), reader := RStart\<rparr>" using step RCount by (simp add: reader_step_def)
  have "holders d' = []" "pending d = None" using o(1) by (simp_all add: d' holders_def mark_read)
  then show ?thesis using ok o(2) [OF refl] bank_read_ok(1,8) [of "strm d"] lock_okD(2) [OF ok] by (simp add: lock_ok_def d')
next
  case RStart
  obtain b d1 where b: "start_fill d = (b, d1)" by fastforce
  show ?thesis
  proof (cases b)
    case None
    then have d': "d' = d\<lparr>reader := RWait\<rparr>" using start_fill_cases [OF b] step RStart b by (simp add: reader_step_def)
    show ?thesis by (rule lock_same [OF ok]) (use ok RStart in \<open>auto simp: d' holders_def lock_ok_def\<close>)
  next
    case (Some c)
    have d': "d' = d1\<lparr>reader := RFill c\<rparr>" using step RStart b Some by (simp add: reader_step_def)
    show ?thesis
      by (rule lock_marked [OF ok b [unfolded Some]])
        (use ok lock_start_fill(1,3) [OF ok b [unfolded Some]] in \<open>auto simp: d' holders_def lock_ok_def\<close>)
  qed
next
  case (RFill b)
  obtain f d1 where f: "fill_end b d = (f, d1)" by fastforce
  have d': "d' = d1\<lparr>reader := (if f then RAlarm else RWait)\<rparr>" using step RFill f by (simp add: reader_step_def)
  have h: "holders d = (game_mark (game d) @ alarm_mark (alarm_fill d)) @ b # pending_mark (pending d)" using RFill by (simp add: holders_def)
  note o = one_holder(1) [OF ok h]
  show ?thesis
    by (rule lock_unmarked [OF ok f])
      (use o ok h fill_end_cases [OF f] in \<open>auto simp: d' holders_def lock_ok_def mark_read\<close>)
next
  case RAlarm
  then have d': "d' = d\<lparr>alarm := True, reader := RWait\<rparr>" using step by (simp add: reader_step_def)
  show ?thesis by (rule lock_same [OF ok]) (use ok RAlarm in \<open>auto simp: d' holders_def lock_ok_def\<close>)
qed

lemma reader_unmarked: "reader_mark s r = [] \<Longrightarrow> request_of r = None \<and> reader_mark s' r = []"
  by (cases r) simp_all

lemma alarm_step_lock:
  assumes ok: "lock_ok d" and step: "alarm_step d = Some d'"
  shows "lock_ok d'"
proof (cases "alarm_fill d")
  case None
  obtain b d1 where b: "start_fill (d\<lparr>alarm := False\<rparr>) = (b, d1)" by fastforce
  have d': "d' = d1\<lparr>alarm_fill := b\<rparr>" using step None b by (simp add: alarm_step_def split: if_splits)
  have ok1: "lock_ok (d\<lparr>alarm := False\<rparr>)" by (rule lock_same [OF ok]) (use ok in \<open>auto simp: holders_def lock_ok_def\<close>)
  show ?thesis
  proof (cases b)
    case None
    then have "d' = d\<lparr>alarm := False, alarm_fill := None\<rparr>" using start_fill_cases [OF b] d' by simp
    then show ?thesis using \<open>alarm_fill d = None\<close> by (intro lock_same [OF ok]) (use ok in \<open>auto simp: holders_def lock_ok_def\<close>)
  next
    case (Some c)
    note f = lock_start_fill(1,3) [OF ok1 b [unfolded Some]]
    show ?thesis
      by (rule lock_marked [OF ok1 b [unfolded Some]]) (use ok f Some reader_unmarked in \<open>auto simp: d' holders_def lock_ok_def mark_read\<close>)
  qed
next
  case (Some b)
  obtain f d1 where f: "fill_end b d = (f, d1)" by fastforce
  have d': "d' = d1\<lparr>alarm_fill := None, alarm := f \<or> alarm d1\<rparr>" using step Some f by (simp add: alarm_step_def)
  have h: "holders d = game_mark (game d) @ b # (reader_mark (strm d) (reader d) @ pending_mark (pending d))" using Some by (simp add: holders_def)
  note o = one_holder(1) [OF ok h]
  show ?thesis
    by (rule lock_unmarked [OF ok f]) (use o ok h reader_unmarked fill_end_cases [OF f] in \<open>auto simp: d' holders_def lock_ok_def mark_read\<close>)
qed

lemma sectors_copied_lock:
  assumes ok: "lock_ok d" and c: "stream_ok (sectors_copied slots rd (strm d))" "StStreamed (sectors_copied slots rd (strm d)) \<le> StStreamed (strm d)"
    and pc: "game_mark (game d) = []" "game_mark pc = []" "\<forall>l. pc \<noteq> GStop l \<and> pc \<noteq> GSync l" "pc \<noteq> GPause"
  shows "lock_ok (d\<lparr>delivered := x, strm := sectors_copied slots rd (strm d), game := pc\<rparr>)"
proof -
  have m: "reader_mark (sectors_copied slots rd s) r = reader_mark s r" for s r by (cases r) simp_all
  have "holders (d\<lparr>delivered := x, strm := sectors_copied slots rd (strm d), game := pc\<rparr>) = holders d"
    using pc by (simp add: holders_def m)
  then show ?thesis using ok c pc by (fastforce simp: lock_ok_def bank_request_def)
qed

lemma after_copy_cases: "after_copy k n blocking ee = GStart \<or> (\<exists>m. after_copy k n blocking ee = GWait m blocking ee)"
  by (simp add: after_copy_def)

lemma game_step_lock:
  assumes ok: "lock_ok d" and data: "data_ok l0 d" and step: "game_step d = Some d'"
  shows "lock_ok d'"
proof (cases "game d")
  case (GCopy n blocking ee)
  let ?s = "strm d"
  let ?k = "min n (StStreamed ?s)"
  obtain slots rd where c: "sectors_to_copy ?s n = (slots, rd)" by fastforce
  then have sl: "length slots = ?k" "rd = (StReadPtr ?s + ?k) mod StBufmax ?s"
    using sectors_to_copy_eq [OF lock_okD(2) [OF ok], of n] by (auto simp: Let_def)
  note k = sectors_copied_ok [OF lock_okD(2) [OF ok] _ sl]
  show ?thesis
  proof (cases "ee \<and> slots \<noteq> []")
    case True
    then have d': "d' = d\<lparr>game := GDma slots rd n blocking\<rparr>" using step GCopy c by (simp add: game_step_def)
    show ?thesis by (rule lock_same [OF ok]) (use ok GCopy in \<open>auto simp: d' holders_def lock_ok_def\<close>)
  next
    case False
    then have d': "d' = d\<lparr>delivered := delivered d @ map (\<lambda>i. ring d ! i) slots, strm := sectors_copied slots rd ?s,
        game := after_copy (length slots) n blocking ee\<rparr>" using step GCopy c by (auto simp: game_step_def)
    show ?thesis unfolding d'
      by (rule sectors_copied_lock [OF ok]) (use k GCopy after_copy_cases [of "length slots" n blocking ee] in auto)
  qed
next
  case (GDma slots rd n blocking)
  then obtain k where k: "k \<le> StStreamed (strm d)" "length slots = k" "rd = (StReadPtr (strm d) + k) mod StBufmax (strm d)"
    using data by (auto simp: data_ok_def copies_def)
  note c = sectors_copied_ok [OF lock_okD(2) [OF ok] k]
  have d': "d' = d\<lparr>delivered := delivered d @ map (\<lambda>i. ring d ! i) slots, strm := sectors_copied slots rd (strm d),
      game := after_copy (length slots) n blocking True\<rparr>" using step GDma by (simp add: game_step_def)
  show ?thesis unfolding d'
    by (rule sectors_copied_lock [OF ok]) (use c GDma after_copy_cases [of "length slots" n blocking True] in auto)
next
  case GStart
  obtain b d1 where b: "start_fill d = (b, d1)" by fastforce
  show ?thesis
  proof (cases b)
    case None
    then have d': "d' = d\<lparr>game := GIdle\<rparr>" using start_fill_cases [OF b] step GStart b by (simp add: game_step_def)
    show ?thesis by (rule lock_same [OF ok]) (use ok GStart in \<open>auto simp: d' holders_def lock_ok_def\<close>)
  next
    case (Some c)
    have d': "d' = d1\<lparr>game := GFill c\<rparr>" using step GStart b Some by (simp add: game_step_def)
    note f = lock_start_fill(1,3) [OF ok b [unfolded Some]]
    show ?thesis
      by (rule lock_marked [OF ok b [unfolded Some]]) (use ok f reader_unmarked in \<open>auto simp: d' holders_def lock_ok_def\<close>)
  qed
next
  case (GFill b)
  obtain f d1 where f: "fill_end b d = (f, d1)" by fastforce
  have d': "d' = d1\<lparr>game := (if f then GAlarm else GIdle)\<rparr>" using step GFill f by (simp add: game_step_def)
  have h: "holders d = [] @ b # (alarm_mark (alarm_fill d) @ reader_mark (strm d) (reader d) @ pending_mark (pending d))" using GFill by (simp add: holders_def)
  note o = one_holder(1) [OF ok h]
  show ?thesis
    by (rule lock_unmarked [OF ok f]) (use o ok h reader_unmarked fill_end_cases [OF f] in \<open>auto simp: d' holders_def lock_ok_def mark_read\<close>)
next
  case (GWait n blocking ee)
  then have d': "d' = d\<lparr>game := GClear n blocking ee\<rparr>" using step by (simp add: game_step_def split: if_splits)
  show ?thesis by (rule lock_same [OF ok]) (use ok GWait in \<open>auto simp: d' holders_def lock_ok_def\<close>)
next
  case (GClear n blocking ee)
  then have d': "d' = d\<lparr>event8 := False, game := GCopy n blocking ee\<rparr>" using step by (simp add: game_step_def)
  show ?thesis by (rule lock_same [OF ok]) (use ok GClear in \<open>auto simp: d' holders_def lock_ok_def\<close>)
next
  case GAlarm
  then have d': "d' = d\<lparr>alarm := True, game := GIdle\<rparr>" using step by (simp add: game_step_def)
  show ?thesis by (rule lock_same [OF ok]) (use ok GAlarm in \<open>auto simp: d' holders_def lock_ok_def\<close>)
qed (use ok step in \<open>simp_all add: game_step_def lock_ok_def\<close>)

subsection \<open>The sectors\<close>

definition same_but_reading :: "stream \<Rightarrow> stream \<Rightarrow> bool" where
  "same_but_reading s' s = (s'\<lparr>StIsReading := False\<rparr> = s\<lparr>StIsReading := False\<rparr>)"

lemma same_but_reading_simps [simp]: "same_but_reading s s" "same_but_reading (s\<lparr>StIsReading := r\<rparr>) s"
  by (simp_all add: same_but_reading_def)

lemma same_but_readingD:
  assumes "same_but_reading s' s"
  shows "StReadPtr s' = StReadPtr s" "StStreamed s' = StStreamed s" "StBufmax s' = StBufmax s"
    "fifo_ok l0 s' rg dl = fifo_ok l0 s rg dl" "bank_filled s' rg = bank_filled s rg"
proof -
  have e: "s'\<lparr>StIsReading := False\<rparr> = s\<lparr>StIsReading := False\<rparr>" using assms by (simp add: same_but_reading_def)
  show "StReadPtr s' = StReadPtr s" "StStreamed s' = StStreamed s" "StBufmax s' = StBufmax s"
    using arg_cong [OF e, of StReadPtr] arg_cong [OF e, of StStreamed] arg_cong [OF e, of StBufmax] by simp_all
  show "fifo_ok l0 s' rg dl = fifo_ok l0 s rg dl" "bank_filled s' rg = bank_filled s rg"
    by (metis e fifo_reading) (metis e filled_reading)
qed

lemma data_same:
  assumes "data_ok l0 d" "same_but_reading (strm d') (strm d)" "ring d' = ring d" "delivered d' = delivered d"
    "reader d' \<in> {REnded, RCallback, RCount} \<longrightarrow> reader d \<in> {REnded, RCallback, RCount}"
    "game d' = game d \<or> (\<forall>slots rd n b. game d' \<noteq> GDma slots rd n b)"
  shows "data_ok l0 d'"
proof -
  note e = same_but_readingD [OF assms(2)]
  have "copies (strm d') slots rd" if "game d' = GDma slots rd n b" for slots rd n b
  proof -
    have "game d = GDma slots rd n b" using assms(6) that by metis
    then have "copies (strm d) slots rd" using assms(1) unfolding data_ok_def by blast
    then show ?thesis by (rule copies_mono) (simp_all add: e)
  qed
  then show ?thesis using assms(1,3-5) e by (auto simp: data_ok_def)
qed

lemma start_fill_data:
  "start_fill d = (b, d1) \<Longrightarrow> same_but_reading (strm d1) (strm d) \<and> ring d1 = ring d \<and> delivered d1 = delivered d
     \<and> reader d1 = reader d \<and> game d1 = game d"
  using start_fill_cases [of d b d1] by auto

lemma fill_end_data:
  "fill_end b d = (f, d1) \<Longrightarrow> same_but_reading (strm d1) (strm d) \<and> ring d1 = ring d \<and> delivered d1 = delivered d
     \<and> reader d1 = reader d \<and> game d1 = game d"
  using fill_end_cases [of b d f d1] by auto

lemma alarm_step_data:
  assumes data: "data_ok l0 d" and step: "alarm_step d = Some d'"
  shows "data_ok l0 d'"
proof (cases "alarm_fill d")
  case None
  obtain b d1 where b: "start_fill (d\<lparr>alarm := False\<rparr>) = (b, d1)" by fastforce
  have d': "d' = d1\<lparr>alarm_fill := b\<rparr>" using step None b by (simp add: alarm_step_def split: if_splits)
  show ?thesis by (rule data_same [OF data]) (use start_fill_data [OF b] in \<open>simp_all add: d'\<close>)
next
  case (Some b)
  obtain f d1 where f: "fill_end b d = (f, d1)" by fastforce
  have d': "d' = d1\<lparr>alarm_fill := None, alarm := f \<or> alarm d1\<rparr>" using step Some f by (simp add: alarm_step_def)
  show ?thesis by (rule data_same [OF data]) (use fill_end_data [OF f] in \<open>simp_all add: d'\<close>)
qed

lemma reader_step_data:
  assumes ok: "lock_ok d" and data: "data_ok l0 d" and step: "reader_step d = Some d'"
  shows "data_ok l0 d'"
proof (cases "reader d")
  case RWait
  then obtain rq where d': "d' = d\<lparr>pending := None, reader := RRead rq\<rparr>" using step by (auto simp: reader_step_def split: option.splits)
  show ?thesis by (rule data_same [OF data]) (simp_all add: d')
next
  case (RRead rq)
  then have d': "d' = d\<lparr>ring := transfer rq (ring d), sync_flag := False, event8 := True, reader := REnded\<rparr>"
    using step lock_okD(1) [OF ok] by (simp add: reader_step_def)
  have rq: "rq = (Stlsn (strm d), StBanksize (strm d), Some (StWritePtr (strm d)))" using lock_okD(6) [OF ok RRead] by (simp add: bank_request_def)
  have "StBanksize (strm d) + StStreamed (strm d) \<le> StBufmax (strm d)"
    using lock_okD(4) [OF ok, of "StWritePtr (strm d)"] RRead rq by (simp add: holders_def)
  from fifo_transfer [OF lock_okD(2) [OF ok] this] data show ?thesis by (auto simp: data_ok_def d' rq)
next
  case REnded
  then have d': "d' = d\<lparr>reader := RCallback\<rparr>" using step lock_okD(1) [OF ok] by (simp add: reader_step_def)
  show ?thesis by (rule data_same [OF data]) (use REnded in \<open>simp_all add: d'\<close>)
next
  case RCallback
  then have d': "d' = d\<lparr>reader := (if StIsReading (strm d) then RCount else RStart)\<rparr>" using step by (simp add: reader_step_def)
  show ?thesis by (rule data_same [OF data]) (use RCallback in \<open>simp_all add: d'\<close>)
next
  case RCount
  then have d': "d' = d\<lparr>strm := bank_read (strm d), reader := RStart\<rparr>" using step by (simp add: reader_step_def)
  have room: "StBanksize (strm d) + StStreamed (strm d) \<le> StBufmax (strm d)"
    using lock_okD(4) [OF ok, of "StWritePtr (strm d)"] RCount by (simp add: holders_def)
  note b = bank_read_ok [OF lock_okD(2) [OF ok] room]
  have "fifo_ok l0 (bank_read (strm d)) (ring d) (delivered d)"
    using fifo_count [OF lock_okD(2) [OF ok] room] data RCount by (simp add: data_ok_def)
  moreover have "copies (bank_read (strm d)) slots rd" if "copies (strm d) slots rd" for slots rd
    by (rule copies_mono [OF that]) (use b in simp_all)
  ultimately show ?thesis using data by (simp add: d' data_ok_def)
next
  case RStart
  obtain b d1 where b: "start_fill d = (b, d1)" by fastforce
  then have d': "d' = d1\<lparr>reader := (case b of None \<Rightarrow> RWait | Some c \<Rightarrow> RFill c)\<rparr>"
    using step RStart start_fill_cases [OF b] by (auto simp: reader_step_def split: option.splits)
  show ?thesis by (rule data_same [OF data]) (use start_fill_data [OF b] in \<open>simp_all add: d' split: option.splits\<close>)
next
  case (RFill b)
  obtain f d1 where f: "fill_end b d = (f, d1)" by fastforce
  have d': "d' = d1\<lparr>reader := (if f then RAlarm else RWait)\<rparr>" using step RFill f by (simp add: reader_step_def)
  show ?thesis by (rule data_same [OF data]) (use fill_end_data [OF f] in \<open>simp_all add: d'\<close>)
next
  case RAlarm
  then have d': "d' = d\<lparr>alarm := True, reader := RWait\<rparr>" using step by (simp add: reader_step_def)
  show ?thesis by (rule data_same [OF data]) (simp_all add: d')
qed

lemma copied_data:
  assumes ok: "lock_ok d" and data: "data_ok l0 d" and k: "k \<le> StStreamed (strm d)"
    and slots: "slots = map (\<lambda>i. (StReadPtr (strm d) + i) mod StBufmax (strm d)) [0..<k]" "rd = (StReadPtr (strm d) + k) mod StBufmax (strm d)"
    and pc: "\<forall>slots rd n b. pc \<noteq> GDma slots rd n b"
  shows "data_ok l0 (d\<lparr>delivered := delivered d @ map (\<lambda>i. ring d ! i) slots, strm := sectors_copied slots rd (strm d), game := pc\<rparr>)"
proof -
  have "fifo_ok l0 (sectors_copied slots rd (strm d)) (ring d) (delivered d @ map (\<lambda>i. ring d ! i) slots)"
    using fifo_copy [OF lock_okD(2) [OF ok] _ k slots] data by (simp add: data_ok_def)
  then show ?thesis using data pc by (auto simp: data_ok_def bank_filled_def)
qed

lemma game_step_data:
  assumes ok: "lock_ok d" and data: "data_ok l0 d" and step: "game_step d = Some d'"
  shows "data_ok l0 d'"
proof (cases "game d")
  case (GCopy n blocking ee)
  let ?s = "strm d"
  let ?k = "min n (StStreamed ?s)"
  obtain slots rd where c: "sectors_to_copy ?s n = (slots, rd)" by fastforce
  then have sl: "slots = map (\<lambda>i. (StReadPtr ?s + i) mod StBufmax ?s) [0..<?k]" "rd = (StReadPtr ?s + ?k) mod StBufmax ?s"
    using sectors_to_copy_eq [OF lock_okD(2) [OF ok], of n] by (auto simp: Let_def)
  have k: "?k \<le> StStreamed ?s" by simp
  show ?thesis
  proof (cases "ee \<and> slots \<noteq> []")
    case True
    then have d': "d' = d\<lparr>game := GDma slots rd n blocking\<rparr>" using step GCopy c by (simp add: game_step_def)
    have "copies ?s slots rd" unfolding copies_def using sl k by blast
    then show ?thesis using data unfolding d' data_ok_def by simp
  next
    case False
    then have d': "d' = d\<lparr>delivered := delivered d @ map (\<lambda>i. ring d ! i) slots, strm := sectors_copied slots rd ?s,
        game := after_copy (length slots) n blocking ee\<rparr>" using step GCopy c by (auto simp: game_step_def)
    show ?thesis unfolding d' by (rule copied_data [OF ok data k sl]) (use after_copy_cases [of "length slots" n blocking ee] in auto)
  qed
next
  case (GDma slots rd n blocking)
  then obtain k where k: "k \<le> StStreamed (strm d)" "slots = map (\<lambda>i. (StReadPtr (strm d) + i) mod StBufmax (strm d)) [0..<k]"
      "rd = (StReadPtr (strm d) + k) mod StBufmax (strm d)"
    using data unfolding data_ok_def copies_def by blast
  have d': "d' = d\<lparr>delivered := delivered d @ map (\<lambda>i. ring d ! i) slots, strm := sectors_copied slots rd (strm d),
      game := after_copy (length slots) n blocking True\<rparr>" using step GDma by (simp add: game_step_def)
  show ?thesis unfolding d' by (rule copied_data [OF ok data k]) (use after_copy_cases [of "length slots" n blocking True] in auto)
next
  case GStart
  obtain b d1 where b: "start_fill d = (b, d1)" by fastforce
  then have d': "d' = d1\<lparr>game := (case b of None \<Rightarrow> GIdle | Some c \<Rightarrow> GFill c)\<rparr>"
    using step GStart start_fill_cases [OF b] by (auto simp: game_step_def split: option.splits)
  show ?thesis by (rule data_same [OF data]) (use start_fill_data [OF b] in \<open>simp_all add: d' split: option.splits\<close>)
next
  case (GFill b)
  obtain f d1 where f: "fill_end b d = (f, d1)" by fastforce
  have d': "d' = d1\<lparr>game := (if f then GAlarm else GIdle)\<rparr>" using step GFill f by (simp add: game_step_def)
  show ?thesis by (rule data_same [OF data]) (use fill_end_data [OF f] in \<open>simp_all add: d'\<close>)
next
  case (GWait n blocking ee)
  then have d': "d' = d\<lparr>game := GClear n blocking ee\<rparr>" using step by (simp add: game_step_def split: if_splits)
  show ?thesis by (rule data_same [OF data]) (simp_all add: d')
next
  case (GClear n blocking ee)
  then have d': "d' = d\<lparr>event8 := False, game := GCopy n blocking ee\<rparr>" using step by (simp add: game_step_def)
  show ?thesis by (rule data_same [OF data]) (simp_all add: d')
next
  case GAlarm
  then have d': "d' = d\<lparr>alarm := True, game := GIdle\<rparr>" using step by (simp add: game_step_def)
  show ?thesis by (rule data_same [OF data]) (simp_all add: d')
qed (use ok step in \<open>simp_all add: game_step_def lock_ok_def\<close>)

lemma read_call_ok:
  assumes ok: "lock_ok d" "data_ok l0 d" and step: "game_call (StRead n b ee) d = Some d'"
  shows "lock_ok d' \<and> data_ok l0 d'"
proof -
  have "StStat (strm d)" using lock_okD(2) [OF ok(1)] by (simp add: stream_ok_def)
  then have d': "d' = d\<lparr>event8 := True, game := (if n = 0 then GStart else GWait n b ee)\<rparr>" "game d = GIdle"
    using step by (simp_all add: game_call_def split: if_splits)
  have "lock_ok d'" by (rule lock_same [OF ok(1)]) (use d'(2) lock_okD(1) [OF ok(1)] in \<open>simp_all add: d'(1) holders_def\<close>)
  moreover have "data_ok l0 d'" by (rule data_same [OF ok(2)]) (simp_all add: d'(1))
  ultimately show ?thesis by blast
qed

lemma init_stream:
  assumes "sceCdStInit bufmax bankmax s0 = Inr s" "bankmax \<le> bufmax" "bufmax < 2 ^ 16"
  shows "stream_ok (StReset (s\<lparr>Stlsn := l, StStat := True\<rparr>))"
proof -
  define q where "q = bufmax div bankmax"
  have b: "0 < bankmax" "0 < q" "q * bankmax \<le> bufmax"
    using assms by (auto simp: q_def sceCdStInit_def div_greater_zero_iff split: if_splits)
  have m: "bufmax < 65536" using assms(3) by simp
  have "q < 65536" using le_less_trans [OF div_le_dividend m] by (simp add: q_def)
  moreover have "bankmax < 65536" "q * bankmax < 65536" using le_less_trans [OF assms(2) m] le_less_trans [OF b(3) m] by simp_all
  moreover have "s = StReset (s0\<lparr>StBankmax := bankmax mod 2 ^ 16, StBanksize := q mod 2 ^ 16,
      StBufmax := (q mod 2 ^ 16) * (bankmax mod 2 ^ 16) mod 2 ^ 16\<rparr>)"
    using assms(1) b by (simp add: sceCdStInit_def Let_def flip: q_def)
  ultimately show ?thesis using b by (simp add: stream_ok_def StReset_def)
qed

lemma start_ok:
  assumes s: "stream_ok (StReset (s\<lparr>Stlsn := l, StStat := True\<rparr>))" and ring: "length rg = StBufmax s" and l: "l < 2 ^ 32"
  shows "lock_ok (started s rg l)" "data_ok l (started s rg l)"
proof -
  show "lock_ok (started s rg l)" using s by (simp add: lock_ok_def started_def start_stream_def holders_def StReset_def)
  show "data_ok l (started s rg l)"
    using ring l by (simp add: data_ok_def started_def start_stream_def StReset_def fifo_ok_def)
qed

definition is_read :: "call \<Rightarrow> bool" where
  "is_read c = (case c of StRead n b ee \<Rightarrow> True | _ \<Rightarrow> False)"

lemma reach_ok:
  assumes "reach is_read d0 d" "lock_ok d0" "data_ok l d0"
  shows "lock_ok d \<and> data_ok l d"
  using assms
proof (induction rule: reach.induct)
  case (step d a d')
  then have ok: "lock_ok d" "data_ok l d" by simp_all
  show ?case
  proof (cases a)
    case (Call c)
    then show ?thesis using step.hyps(2,3) read_call_ok [OF ok] by (cases c) (auto simp: is_read_def)
  next
    case Game
    then show ?thesis using step.hyps(2) game_step_lock [OF ok] game_step_data [OF ok] by simp
  next
    case Reader
    then show ?thesis using step.hyps(2) reader_step_lock [OF ok(1)] reader_step_data [OF ok] by simp
  next
    case Alarm
    then show ?thesis using step.hyps(2) alarm_step_lock [OF ok(1)] alarm_step_data [OF ok(2)] by simp
  qed
qed simp

subsection \<open>Properties\<close>

text \<open>
  C21. Streaming is in order.  As long as the game only reads the stream, under every interleaving of the game, the reading
  thread and the alarm the sectors it has got are exactly the ones from the start on, none lost, doubled or
  exchanged, whatever the sizes of its reads and the wrap-around of the ring; and the ring holds the ones that follow.
\<close>
theorem stream_in_order:
  assumes init: "sceCdStInit bufmax bankmax s0 = Inr s" "bankmax \<le> bufmax" "bufmax < 2 ^ 16"
    and ring: "length rg = StBufmax s" and l: "l < 2 ^ 32" and r: "reach is_read (started s rg l) d"
  shows "delivered d = map (\<lambda>i. (l + i) mod 2 ^ 32) [0..<length (delivered d)]
    \<and> StStreamed (strm d) \<le> StBufmax (strm d) \<and> StBufmax (strm d) = length (ring d)
    \<and> (\<forall>i < StStreamed (strm d). ring d ! ((StReadPtr (strm d) + i) mod StBufmax (strm d)) = (l + length (delivered d) + i) mod 2 ^ 32)"
proof -
  have ok: "lock_ok d" "data_ok l d" using reach_ok [OF r start_ok [OF init_stream [OF init] ring l]] by simp_all
  then have f: "fifo_ok l (strm d) (ring d) (delivered d)" by (simp add: data_ok_def)
  have "StStreamed (strm d) \<le> StBufmax (strm d)" using lock_okD(2) [OF ok(1)] by (simp add: stream_ok_def)
  then show ?thesis using fifo_okD(1,3) [OF f] fifo_okD(4) [OF f] by metis
qed

definition demo_stream :: stream where
  "demo_stream = \<lparr>StBufmax = 4, StBankmax = 2, StBanksize = 2, StWritePtr = 0, StReadPtr = 0, StStreamed = 0, StStat = False, StIsReading = False, Stlsn = 0\<rparr>"

definition fill_schedule :: "action list" where
  "fill_schedule = [Game, Game, Reader, Reader, Reader, Reader, Reader, Reader, Reader, Reader, Reader, Reader, Reader, Reader, Reader, Reader]"

lemmas run_simps = game_call_def game_step_def reader_step_def start_fill_def fill_begin_def
  fill_end_def AllocBank_def cdvdman_AsyncRead_def transfer_def write_at_def bank_read_def sectors_to_copy_def chunk1_def chunk2_def advance_def
  sectors_copied_def after_copy_def Let_def

lemma upt_2: "[0..<2] = [0, Suc 0]"
  by code_simp

lemma exec_all_append: "exec_all (as @ bs) d = (case exec_all as d of None \<Rightarrow> None | Some d \<Rightarrow> exec_all bs d)"
  by (induction as arbitrary: d) (auto split: option.splits)

lemma reach_exec_all: "\<lbrakk>reach allowed d0 d; exec_all as d = Some d'; \<forall>c. Call c \<in> set as \<longrightarrow> allowed c\<rbrakk> \<Longrightarrow> reach allowed d0 d'"
proof (induction as arbitrary: d)
  case (Cons a as)
  then obtain d1 where d1: "exec a d = Some d1" "exec_all as d1 = Some d'" by (auto split: option.splits)
  have "reach allowed d0 d1" by (rule reach.step [OF Cons.prems(1) d1(1)]) (use Cons.prems(3) in auto)
  then show ?case using Cons.IH [OF _ d1(2)] Cons.prems(3) by simp
qed simp

lemma upt_3: "[0..<3] = [0, 1, 2]" "[0..<4] = [0, 1, 2, 3]" "[Suc (Suc 0)..<3] = [2]"
  by code_simp+

lemma demo_full: "exec_all fill_schedule (started demo_stream [0, 0, 0, 0] 100) = Some
  \<lparr>strm = \<lparr>StBufmax = 4, StBankmax = 2, StBanksize = 2, StWritePtr = 0, StReadPtr = 0, StStreamed = 4, StStat = True, StIsReading = False, Stlsn = 104\<rparr>,
    ring = [100, 101, 102, 103], sync_flag = False, pending = None, Stm0Callback = True, event8 = True, alarm = False, game = GIdle,
    reader = RWait, alarm_fill = None, delivered = []\<rparr>"
  by (simp add: started_def start_stream_def StReset_def demo_stream_def fill_schedule_def run_simps upt_2)


text \<open>The game's reads that follow a fill.\<close>

theorem stream_in_order_witness:
  "\<exists>d. reach is_read (started demo_stream [0, 0, 0, 0] 100) d \<and> delivered d = [100, 101, 102]"
proof -
  have init: "sceCdStInit 4 2 demo_stream = Inr demo_stream" by (simp add: sceCdStInit_def StReset_def demo_stream_def Let_def)
  let ?as = "fill_schedule @ [Call (StRead 3 False True), Game, Game, Game, Game]" and ?d0 = "started demo_stream [0, 0, 0, 0] 100"
  have "\<exists>d. exec_all ?as ?d0 = Some d \<and> length (delivered d) = 3" by (simp add: exec_all_append demo_full run_simps)
  then obtain d where d: "exec_all ?as ?d0 = Some d" "length (delivered d) = 3" by blast
  have r: "reach is_read ?d0 d" by (rule reach_exec_all [OF reach.start d(1)]) (auto simp: fill_schedule_def is_read_def)
  have "delivered d = map (\<lambda>i. (100 + i) mod 2 ^ 32) [0..<3]"
    using stream_in_order [OF init _ _ _ _ r] d(2) by (simp add: demo_stream_def)
  then show ?thesis using r by (auto simp: upt_3)
qed


text \<open>
  A game that also reads the disc on its own can get old sectors from the stream.  Between the end of its read and
  \<open>StmCallback\<close> the reading thread has released the lock; when a stream read begins there, the callback
  counts a bank that has not been read yet.
\<close>
theorem stream_race:
  "\<exists>d. reach (\<lambda>_. True) (started demo_stream [0, 0, 0, 0] 100) d \<and> delivered d = [100, 101, 102, 103, 100, 101]"
proof -
  let ?as = "fill_schedule @ [Call (GameRead 7 1), Reader, Reader, Call (StRead 2 False False), Game, Game, Game, Game, Game,
    Reader, Reader, Reader, Reader, Reader, Call (StRead 4 False False), Game, Game, Game]" and ?d0 = "started demo_stream [0, 0, 0, 0] 100"
  have "\<exists>d. exec_all ?as ?d0 = Some d \<and> delivered d = [100, 101, 102, 103, 100, 101]"
    by (simp add: exec_all_append demo_full run_simps upt_2 upt_3)
  then obtain d where d: "exec_all ?as ?d0 = Some d" "delivered d = [100, 101, 102, 103, 100, 101]" by blast
  have "reach (\<lambda>_. True) ?d0 d" by (rule reach_exec_all [OF reach.start d(1)]) simp
  then show ?thesis using d(2) by blast
qed

text \<open>
  C22. A blocking read while nothing is being read from the disc: one of no more sectors than the ring holds gets
  exactly these and goes on to refill the ring; any larger one waits for an event that no thread, call or alarm will ever set,
  because the ring is refilled behind the loop only.
\<close>
theorem blocking_read_stuck:
  assumes ok: "stream_ok (strm d)" and idle: "game d = GIdle" "reader d = RWait" "pending d = None" "\<not> alarm d" "alarm_fill d = None" and n: "0 < n"
  shows "\<exists>d'. exec_all [Call (StRead n True False), Game, Game, Game] d = Some d'
    \<and> delivered d' = delivered d @ map (\<lambda>i. ring d ! ((StReadPtr (strm d) + i) mod StBufmax (strm d))) [0..<min n (StStreamed (strm d))]
    \<and> (if n \<le> StStreamed (strm d) then game d' = GStart
        else game d' = GWait (n - StStreamed (strm d)) True False \<and> (\<forall>a. exec a d' = None))"
proof -
  let ?k = "min n (StStreamed (strm d))"
  have s: "sectors_to_copy (strm d) n = (map (\<lambda>i. (StReadPtr (strm d) + i) mod StBufmax (strm d)) [0..<?k], (StReadPtr (strm d) + ?k) mod StBufmax (strm d))"
    using sectors_to_copy_eq [OF ok, of n] by (simp add: Let_def)
  have st: "StStat (strm d)" using ok by (simp add: stream_ok_def)
  have stuck: "exec a d' = None" if "game d' = GWait m b ee" "\<not> event8 d'" "reader d' = RWait" "pending d' = None" "\<not> alarm d'" "alarm_fill d' = None" for a d' m b ee
    using that by (cases a) (simp_all add: game_call_def game_step_def reader_step_def alarm_step_def)
  show ?thesis
    using s st idle n by (auto simp: game_call_def game_step_def after_copy_def o_def intro: stuck)
qed

theorem blocking_read_stuck_witness:
  "\<exists>d d'. reach is_read (started demo_stream [0, 0, 0, 0] 100) d \<and> exec_all [Call (StRead 6 True False), Game, Game, Game] d = Some d'
    \<and> delivered d' = [100, 101, 102, 103] \<and> (\<forall>a. exec a d' = None)"
proof -
  let ?d0 = "started demo_stream [0, 0, 0, 0] 100"
  obtain d where d: "exec_all fill_schedule ?d0 = Some d" "strm d = \<lparr>StBufmax = 4, StBankmax = 2, StBanksize = 2, StWritePtr = 0, StReadPtr = 0, StStreamed = 4, StStat = True, StIsReading = False, Stlsn = 104\<rparr>"
    "game d = GIdle" "reader d = RWait" "pending d = None" "\<not> alarm d" "alarm_fill d = None" "ring d = [100, 101, 102, 103]" "delivered d = []"
    using demo_full by simp
  have "reach is_read ?d0 d" by (rule reach_exec_all [OF reach.start d(1)]) (simp add: fill_schedule_def)
  moreover have "stream_ok (strm d)" by (simp add: d(2) stream_ok_def)
  from blocking_read_stuck [OF this d(3-7), of 6] obtain d' where
    "exec_all [Call (StRead 6 True False), Game, Game, Game] d = Some d'" "delivered d' = [100, 101, 102, 103]" "\<forall>a. exec a d' = None"
    by (auto simp: d upt_3)
  ultimately show ?thesis by blast
qed

end
