(* ===== verification/Des.thy ===== *)
theory Des
  imports Prelude
begin

text \<open>
  The block cipher of the SMB log-in (\<open>src/modules/network/smbinit/des.c\<close>), which combines substitutions and
  permutations in tables of words, the Data Encryption Standard (FIPS 46) over lists of bits, and the lemmas on words as lists of
  bits that the proof of their agreement rests on.
\<close>

subsection \<open>The code\<close>

definition des_SPtrans :: "u32 list list" where
  "des_SPtrans = [
   [0x00820200, 0x00020000, 0x80800000, 0x80820200, 0x00800000, 0x80020200, 0x80020000, 0x80800000,
    0x80020200, 0x00820200, 0x00820000, 0x80000200, 0x80800200, 0x00800000, 0x00000000, 0x80020000,
    0x00020000, 0x80000000, 0x00800200, 0x00020200, 0x80820200, 0x00820000, 0x80000200, 0x00800200,
    0x80000000, 0x00000200, 0x00020200, 0x80820000, 0x00000200, 0x80800200, 0x80820000, 0x00000000,
    0x00000000, 0x80820200, 0x00800200, 0x80020000, 0x00820200, 0x00020000, 0x80000200, 0x00800200,
    0x80820000, 0x00000200, 0x00020200, 0x80800000, 0x80020200, 0x80000000, 0x80800000, 0x00820000,
    0x80820200, 0x00020200, 0x00820000, 0x80800200, 0x00800000, 0x80000200, 0x80020000, 0x00000000,
    0x00020000, 0x00800000, 0x80800200, 0x00820200, 0x80000000, 0x80820000, 0x00000200, 0x80020200],
   [0x10042004, 0x00000000, 0x00042000, 0x10040000, 0x10000004, 0x00002004, 0x10002000, 0x00042000,
    0x00002000, 0x10040004, 0x00000004, 0x10002000, 0x00040004, 0x10042000, 0x10040000, 0x00000004,
    0x00040000, 0x10002004, 0x10040004, 0x00002000, 0x00042004, 0x10000000, 0x00000000, 0x00040004,
    0x10002004, 0x00042004, 0x10042000, 0x10000004, 0x10000000, 0x00040000, 0x00002004, 0x10042004,
    0x00040004, 0x10042000, 0x10002000, 0x00042004, 0x10042004, 0x00040004, 0x10000004, 0x00000000,
    0x10000000, 0x00002004, 0x00040000, 0x10040004, 0x00002000, 0x10000000, 0x00042004, 0x10002004,
    0x10042000, 0x00002000, 0x00000000, 0x10000004, 0x00000004, 0x10042004, 0x00042000, 0x10040000,
    0x10040004, 0x00040000, 0x00002004, 0x10002000, 0x10002004, 0x00000004, 0x10040000, 0x00042000],
   [0x41000000, 0x01010040, 0x00000040, 0x41000040, 0x40010000, 0x01000000, 0x41000040, 0x00010040,
    0x01000040, 0x00010000, 0x01010000, 0x40000000, 0x41010040, 0x40000040, 0x40000000, 0x41010000,
    0x00000000, 0x40010000, 0x01010040, 0x00000040, 0x40000040, 0x41010040, 0x00010000, 0x41000000,
    0x41010000, 0x01000040, 0x40010040, 0x01010000, 0x00010040, 0x00000000, 0x01000000, 0x40010040,
    0x01010040, 0x00000040, 0x40000000, 0x00010000, 0x40000040, 0x40010000, 0x01010000, 0x41000040,
    0x00000000, 0x01010040, 0x00010040, 0x41010000, 0x40010000, 0x01000000, 0x41010040, 0x40000000,
    0x40010040, 0x41000000, 0x01000000, 0x41010040, 0x00010000, 0x01000040, 0x41000040, 0x00010040,
    0x01000040, 0x00000000, 0x41010000, 0x40000040, 0x41000000, 0x40010040, 0x00000040, 0x01010000],
   [0x00100402, 0x04000400, 0x00000002, 0x04100402, 0x00000000, 0x04100000, 0x04000402, 0x00100002,
    0x04100400, 0x04000002, 0x04000000, 0x00000402, 0x04000002, 0x00100402, 0x00100000, 0x04000000,
    0x04100002, 0x00100400, 0x00000400, 0x00000002, 0x00100400, 0x04000402, 0x04100000, 0x00000400,
    0x00000402, 0x00000000, 0x00100002, 0x04100400, 0x04000400, 0x04100002, 0x04100402, 0x00100000,
    0x04100002, 0x00000402, 0x00100000, 0x04000002, 0x00100400, 0x04000400, 0x00000002, 0x04100000,
    0x04000402, 0x00000000, 0x00000400, 0x00100002, 0x00000000, 0x04100002, 0x04100400, 0x00000400,
    0x04000000, 0x04100402, 0x00100402, 0x00100000, 0x04100402, 0x00000002, 0x04000400, 0x00100402,
    0x00100002, 0x00100400, 0x04100000, 0x04000402, 0x00000402, 0x04000000, 0x04000002, 0x04100400],
   [0x02000000, 0x00004000, 0x00000100, 0x02004108, 0x02004008, 0x02000100, 0x00004108, 0x02004000,
    0x00004000, 0x00000008, 0x02000008, 0x00004100, 0x02000108, 0x02004008, 0x02004100, 0x00000000,
    0x00004100, 0x02000000, 0x00004008, 0x00000108, 0x02000100, 0x00004108, 0x00000000, 0x02000008,
    0x00000008, 0x02000108, 0x02004108, 0x00004008, 0x02004000, 0x00000100, 0x00000108, 0x02004100,
    0x02004100, 0x02000108, 0x00004008, 0x02004000, 0x00004000, 0x00000008, 0x02000008, 0x02000100,
    0x02000000, 0x00004100, 0x02004108, 0x00000000, 0x00004108, 0x02000000, 0x00000100, 0x00004008,
    0x02000108, 0x00000100, 0x00000000, 0x02004108, 0x02004008, 0x02004100, 0x00000108, 0x00004000,
    0x00004100, 0x02004008, 0x02000100, 0x00000108, 0x00000008, 0x00004108, 0x02004000, 0x02000008],
   [0x20000010, 0x00080010, 0x00000000, 0x20080800, 0x00080010, 0x00000800, 0x20000810, 0x00080000,
    0x00000810, 0x20080810, 0x00080800, 0x20000000, 0x20000800, 0x20000010, 0x20080000, 0x00080810,
    0x00080000, 0x20000810, 0x20080010, 0x00000000, 0x00000800, 0x00000010, 0x20080800, 0x20080010,
    0x20080810, 0x20080000, 0x20000000, 0x00000810, 0x00000010, 0x00080800, 0x00080810, 0x20000800,
    0x00000810, 0x20000000, 0x20000800, 0x00080810, 0x20080800, 0x00080010, 0x00000000, 0x20000800,
    0x20000000, 0x00000800, 0x20080010, 0x00080000, 0x00080010, 0x20080810, 0x00080800, 0x00000010,
    0x20080810, 0x00080800, 0x00080000, 0x20000810, 0x20000010, 0x20080000, 0x00080810, 0x00000000,
    0x00000800, 0x20000010, 0x20000810, 0x20080800, 0x20080000, 0x00000810, 0x00000010, 0x20080010],
   [0x00001000, 0x00000080, 0x00400080, 0x00400001, 0x00401081, 0x00001001, 0x00001080, 0x00000000,
    0x00400000, 0x00400081, 0x00000081, 0x00401000, 0x00000001, 0x00401080, 0x00401000, 0x00000081,
    0x00400081, 0x00001000, 0x00001001, 0x00401081, 0x00000000, 0x00400080, 0x00400001, 0x00001080,
    0x00401001, 0x00001081, 0x00401080, 0x00000001, 0x00001081, 0x00401001, 0x00000080, 0x00400000,
    0x00001081, 0x00401000, 0x00401001, 0x00000081, 0x00001000, 0x00000080, 0x00400000, 0x00401001,
    0x00400081, 0x00001081, 0x00001080, 0x00000000, 0x00000080, 0x00400001, 0x00000001, 0x00400080,
    0x00000000, 0x00400081, 0x00400080, 0x00001080, 0x00000081, 0x00001000, 0x00401081, 0x00400000,
    0x00401080, 0x00000001, 0x00001001, 0x00401081, 0x00400001, 0x00401080, 0x00401000, 0x00001001],
   [0x08200020, 0x08208000, 0x00008020, 0x00000000, 0x08008000, 0x00200020, 0x08200000, 0x08208020,
    0x00000020, 0x08000000, 0x00208000, 0x00008020, 0x00208020, 0x08008020, 0x08000020, 0x08200000,
    0x00008000, 0x00208020, 0x00200020, 0x08008000, 0x08208020, 0x08000020, 0x00000000, 0x00208000,
    0x08000000, 0x00200000, 0x08008020, 0x08200020, 0x00200000, 0x00008000, 0x08208000, 0x00000020,
    0x00200000, 0x00008000, 0x08000020, 0x08208020, 0x00008020, 0x08000000, 0x00000000, 0x00208000,
    0x08200020, 0x08008020, 0x08008000, 0x00200020, 0x08208000, 0x00000020, 0x00200020, 0x08008000,
    0x08208020, 0x00200000, 0x08200000, 0x08000020, 0x00208000, 0x00008020, 0x08008020, 0x08200000,
    0x00000020, 0x08208000, 0x00208020, 0x00000000, 0x08000000, 0x08200020, 0x00008000, 0x00208020]]"

definition des_skb :: "u32 list list" where
  "des_skb = [
   [0x00000000, 0x00000010, 0x20000000, 0x20000010, 0x00010000, 0x00010010, 0x20010000, 0x20010010,
    0x00000800, 0x00000810, 0x20000800, 0x20000810, 0x00010800, 0x00010810, 0x20010800, 0x20010810,
    0x00000020, 0x00000030, 0x20000020, 0x20000030, 0x00010020, 0x00010030, 0x20010020, 0x20010030,
    0x00000820, 0x00000830, 0x20000820, 0x20000830, 0x00010820, 0x00010830, 0x20010820, 0x20010830,
    0x00080000, 0x00080010, 0x20080000, 0x20080010, 0x00090000, 0x00090010, 0x20090000, 0x20090010,
    0x00080800, 0x00080810, 0x20080800, 0x20080810, 0x00090800, 0x00090810, 0x20090800, 0x20090810,
    0x00080020, 0x00080030, 0x20080020, 0x20080030, 0x00090020, 0x00090030, 0x20090020, 0x20090030,
    0x00080820, 0x00080830, 0x20080820, 0x20080830, 0x00090820, 0x00090830, 0x20090820, 0x20090830],
   [0x00000000, 0x02000000, 0x00002000, 0x02002000, 0x00200000, 0x02200000, 0x00202000, 0x02202000,
    0x00000004, 0x02000004, 0x00002004, 0x02002004, 0x00200004, 0x02200004, 0x00202004, 0x02202004,
    0x00000400, 0x02000400, 0x00002400, 0x02002400, 0x00200400, 0x02200400, 0x00202400, 0x02202400,
    0x00000404, 0x02000404, 0x00002404, 0x02002404, 0x00200404, 0x02200404, 0x00202404, 0x02202404,
    0x10000000, 0x12000000, 0x10002000, 0x12002000, 0x10200000, 0x12200000, 0x10202000, 0x12202000,
    0x10000004, 0x12000004, 0x10002004, 0x12002004, 0x10200004, 0x12200004, 0x10202004, 0x12202004,
    0x10000400, 0x12000400, 0x10002400, 0x12002400, 0x10200400, 0x12200400, 0x10202400, 0x12202400,
    0x10000404, 0x12000404, 0x10002404, 0x12002404, 0x10200404, 0x12200404, 0x10202404, 0x12202404],
   [0x00000000, 0x00000001, 0x00040000, 0x00040001, 0x01000000, 0x01000001, 0x01040000, 0x01040001,
    0x00000002, 0x00000003, 0x00040002, 0x00040003, 0x01000002, 0x01000003, 0x01040002, 0x01040003,
    0x00000200, 0x00000201, 0x00040200, 0x00040201, 0x01000200, 0x01000201, 0x01040200, 0x01040201,
    0x00000202, 0x00000203, 0x00040202, 0x00040203, 0x01000202, 0x01000203, 0x01040202, 0x01040203,
    0x08000000, 0x08000001, 0x08040000, 0x08040001, 0x09000000, 0x09000001, 0x09040000, 0x09040001,
    0x08000002, 0x08000003, 0x08040002, 0x08040003, 0x09000002, 0x09000003, 0x09040002, 0x09040003,
    0x08000200, 0x08000201, 0x08040200, 0x08040201, 0x09000200, 0x09000201, 0x09040200, 0x09040201,
    0x08000202, 0x08000203, 0x08040202, 0x08040203, 0x09000202, 0x09000203, 0x09040202, 0x09040203],
   [0x00000000, 0x00100000, 0x00000100, 0x00100100, 0x00000008, 0x00100008, 0x00000108, 0x00100108,
    0x00001000, 0x00101000, 0x00001100, 0x00101100, 0x00001008, 0x00101008, 0x00001108, 0x00101108,
    0x04000000, 0x04100000, 0x04000100, 0x04100100, 0x04000008, 0x04100008, 0x04000108, 0x04100108,
    0x04001000, 0x04101000, 0x04001100, 0x04101100, 0x04001008, 0x04101008, 0x04001108, 0x04101108,
    0x00020000, 0x00120000, 0x00020100, 0x00120100, 0x00020008, 0x00120008, 0x00020108, 0x00120108,
    0x00021000, 0x00121000, 0x00021100, 0x00121100, 0x00021008, 0x00121008, 0x00021108, 0x00121108,
    0x04020000, 0x04120000, 0x04020100, 0x04120100, 0x04020008, 0x04120008, 0x04020108, 0x04120108,
    0x04021000, 0x04121000, 0x04021100, 0x04121100, 0x04021008, 0x04121008, 0x04021108, 0x04121108],
   [0x00000000, 0x10000000, 0x00010000, 0x10010000, 0x00000004, 0x10000004, 0x00010004, 0x10010004,
    0x20000000, 0x30000000, 0x20010000, 0x30010000, 0x20000004, 0x30000004, 0x20010004, 0x30010004,
    0x00100000, 0x10100000, 0x00110000, 0x10110000, 0x00100004, 0x10100004, 0x00110004, 0x10110004,
    0x20100000, 0x30100000, 0x20110000, 0x30110000, 0x20100004, 0x30100004, 0x20110004, 0x30110004,
    0x00001000, 0x10001000, 0x00011000, 0x10011000, 0x00001004, 0x10001004, 0x00011004, 0x10011004,
    0x20001000, 0x30001000, 0x20011000, 0x30011000, 0x20001004, 0x30001004, 0x20011004, 0x30011004,
    0x00101000, 0x10101000, 0x00111000, 0x10111000, 0x00101004, 0x10101004, 0x00111004, 0x10111004,
    0x20101000, 0x30101000, 0x20111000, 0x30111000, 0x20101004, 0x30101004, 0x20111004, 0x30111004],
   [0x00000000, 0x08000000, 0x00000008, 0x08000008, 0x00000400, 0x08000400, 0x00000408, 0x08000408,
    0x00020000, 0x08020000, 0x00020008, 0x08020008, 0x00020400, 0x08020400, 0x00020408, 0x08020408,
    0x00000001, 0x08000001, 0x00000009, 0x08000009, 0x00000401, 0x08000401, 0x00000409, 0x08000409,
    0x00020001, 0x08020001, 0x00020009, 0x08020009, 0x00020401, 0x08020401, 0x00020409, 0x08020409,
    0x02000000, 0x0a000000, 0x02000008, 0x0a000008, 0x02000400, 0x0a000400, 0x02000408, 0x0a000408,
    0x02020000, 0x0a020000, 0x02020008, 0x0a020008, 0x02020400, 0x0a020400, 0x02020408, 0x0a020408,
    0x02000001, 0x0a000001, 0x02000009, 0x0a000009, 0x02000401, 0x0a000401, 0x02000409, 0x0a000409,
    0x02020001, 0x0a020001, 0x02020009, 0x0a020009, 0x02020401, 0x0a020401, 0x02020409, 0x0a020409],
   [0x00000000, 0x00000100, 0x00080000, 0x00080100, 0x01000000, 0x01000100, 0x01080000, 0x01080100,
    0x00000010, 0x00000110, 0x00080010, 0x00080110, 0x01000010, 0x01000110, 0x01080010, 0x01080110,
    0x00200000, 0x00200100, 0x00280000, 0x00280100, 0x01200000, 0x01200100, 0x01280000, 0x01280100,
    0x00200010, 0x00200110, 0x00280010, 0x00280110, 0x01200010, 0x01200110, 0x01280010, 0x01280110,
    0x00000200, 0x00000300, 0x00080200, 0x00080300, 0x01000200, 0x01000300, 0x01080200, 0x01080300,
    0x00000210, 0x00000310, 0x00080210, 0x00080310, 0x01000210, 0x01000310, 0x01080210, 0x01080310,
    0x00200200, 0x00200300, 0x00280200, 0x00280300, 0x01200200, 0x01200300, 0x01280200, 0x01280300,
    0x00200210, 0x00200310, 0x00280210, 0x00280310, 0x01200210, 0x01200310, 0x01280210, 0x01280310],
   [0x00000000, 0x04000000, 0x00040000, 0x04040000, 0x00000002, 0x04000002, 0x00040002, 0x04040002,
    0x00002000, 0x04002000, 0x00042000, 0x04042000, 0x00002002, 0x04002002, 0x00042002, 0x04042002,
    0x00000020, 0x04000020, 0x00040020, 0x04040020, 0x00000022, 0x04000022, 0x00040022, 0x04040022,
    0x00002020, 0x04002020, 0x00042020, 0x04042020, 0x00002022, 0x04002022, 0x00042022, 0x04042022,
    0x00000800, 0x04000800, 0x00040800, 0x04040800, 0x00000802, 0x04000802, 0x00040802, 0x04040802,
    0x00002800, 0x04002800, 0x00042800, 0x04042800, 0x00002802, 0x04002802, 0x00042802, 0x04042802,
    0x00000820, 0x04000820, 0x00040820, 0x04040820, 0x00000822, 0x04000822, 0x00040822, 0x04040822,
    0x00002820, 0x04002820, 0x00042820, 0x04042820, 0x00002822, 0x04002822, 0x00042822, 0x04042822]]"

definition c2l :: "u8 list \<Rightarrow> nat \<Rightarrow> u32" where
  "c2l c i = ucast (c ! i) OR push_bit 8 (ucast (c ! (i + 1))) OR push_bit 16 (ucast (c ! (i + 2))) OR push_bit 24 (ucast (c ! (i + 3)))"

definition l2c :: "u32 \<Rightarrow> u8 list" where
  "l2c l = [ucast (l AND 0xff), ucast (drop_bit 8 l AND 0xff), ucast (drop_bit 16 l AND 0xff), ucast (drop_bit 24 l AND 0xff)]"

text \<open>\<open>PERM_OP\<close> gives the new values of its first two arguments, \<open>HPERM_OP\<close> that of its first one.\<close>

definition PERM_OP :: "u32 \<Rightarrow> u32 \<Rightarrow> nat \<Rightarrow> u32 \<Rightarrow> u32 \<times> u32" where
  "PERM_OP a b n m = (let t = (drop_bit n a XOR b) AND m in (a XOR push_bit n t, b XOR t))"

definition HPERM_OP :: "u32 \<Rightarrow> int \<Rightarrow> u32 \<Rightarrow> u32" where
  "HPERM_OP a n m = (let k = nat (16 - n); t = (push_bit k a XOR a) AND m in a XOR t XOR drop_bit k t)"

definition key7TOkey8 :: "u8 list \<Rightarrow> u8 list" where
  "key7TOkey8 k = map (push_bit 1)
     [drop_bit 1 (k ! 0) AND 0xff,
      push_bit 6 (k ! 0 AND 0x01) OR drop_bit 2 (k ! 1),
      push_bit 5 (k ! 1 AND 0x03) OR drop_bit 3 (k ! 2),
      push_bit 4 (k ! 2 AND 0x07) OR drop_bit 4 (k ! 3),
      push_bit 3 (k ! 3 AND 0x0F) OR drop_bit 5 (k ! 4),
      push_bit 2 (k ! 4 AND 0x1F) OR drop_bit 6 (k ! 5),
      push_bit 1 (k ! 5 AND 0x3F) OR drop_bit 7 (k ! 6),
      k ! 6 AND 0x7F]"

definition shifts :: "bool list" where
  "shifts = [False, False, True, True, True, True, True, True, False, True, True, True, True, True, True, False]"

text \<open>The two words of a round key, and the words \<open>c\<close> and \<open>d\<close> behind its shift.\<close>

definition key_shift :: "bool \<Rightarrow> u32 \<Rightarrow> u32" where
  "key_shift two c = (if two then drop_bit 2 c OR push_bit 26 c else drop_bit 1 c OR push_bit 27 c) AND 0x0fffffff"

definition round_key :: "u32 \<Rightarrow> u32 \<Rightarrow> u32 \<times> u32" where
  "round_key c d =
     (let s = des_skb ! 0 ! unat (c AND 0x3f)
            OR des_skb ! 1 ! unat ((drop_bit 6 c AND 0x03) OR (drop_bit 7 c AND 0x3c))
            OR des_skb ! 2 ! unat ((drop_bit 13 c AND 0x0f) OR (drop_bit 14 c AND 0x30))
            OR des_skb ! 3 ! unat ((drop_bit 20 c AND 0x01) OR (drop_bit 21 c AND 0x06) OR (drop_bit 22 c AND 0x38));
          t = des_skb ! 4 ! unat (d AND 0x3f)
            OR des_skb ! 5 ! unat ((drop_bit 7 d AND 0x03) OR (drop_bit 8 d AND 0x3c))
            OR des_skb ! 6 ! unat (drop_bit 15 d AND 0x3f)
            OR des_skb ! 7 ! unat ((drop_bit 21 d AND 0x0f) OR (drop_bit 22 d AND 0x30));
          k0 = (push_bit 16 t OR (s AND 0x0000ffff)) AND 0xffffffff;
          s = drop_bit 16 s OR (t AND 0xffff0000);
          s = push_bit 4 s OR drop_bit 28 s
      in (k0, s AND 0xffffffff))"

fun key_loop :: "bool list \<Rightarrow> u32 \<Rightarrow> u32 \<Rightarrow> (u32 \<times> u32) list" where
  "key_loop [] c d = []"
| "key_loop (two # ss) c d = (let c = key_shift two c; d = key_shift two d in round_key c d # key_loop ss c d)"

definition key_permute :: "u32 \<Rightarrow> u32 \<Rightarrow> u32 \<times> u32" where
  "key_permute c d =
     (let (d, c) = PERM_OP d c 4 0x0f0f0f0f;
          c = HPERM_OP c (- 2) 0xcccc0000;
          d = HPERM_OP d (- 2) 0xcccc0000;
          (d, c) = PERM_OP d c 1 0x55555555;
          (c, d) = PERM_OP c d 8 0x00ff00ff;
          (d, c) = PERM_OP d c 1 0x55555555;
          d = push_bit 16 (d AND 0x000000ff) OR (d AND 0x0000ff00) OR drop_bit 16 (d AND 0x00ff0000) OR drop_bit 4 (c AND 0xf0000000)
      in (c AND 0x0fffffff, d))"

text \<open>\<open>DES_Keys\<close>, a pair of words for each round.\<close>

definition DES_createkeys :: "u8 list \<Rightarrow> (u32 \<times> u32) list" where
  "DES_createkeys key = (let k8 = key7TOkey8 key; (c, d) = key_permute (c2l k8 0) (c2l k8 4) in key_loop shifts c d)"

definition D_ENCRYPT :: "u32 \<Rightarrow> u32 \<Rightarrow> u32 \<times> u32 \<Rightarrow> u32" where
  "D_ENCRYPT L R k =
     (let u = R XOR fst k; t = R XOR snd k; t = drop_bit 4 t + push_bit 28 t
      in L XOR (des_SPtrans ! 1 ! unat (t AND 0x3f) OR des_SPtrans ! 3 ! unat (drop_bit 8 t AND 0x3f)
        OR des_SPtrans ! 5 ! unat (drop_bit 16 t AND 0x3f) OR des_SPtrans ! 7 ! unat (drop_bit 24 t AND 0x3f)
        OR des_SPtrans ! 0 ! unat (u AND 0x3f) OR des_SPtrans ! 2 ! unat (drop_bit 8 u AND 0x3f)
        OR des_SPtrans ! 4 ! unat (drop_bit 16 u AND 0x3f) OR des_SPtrans ! 6 ! unat (drop_bit 24 u AND 0x3f)))"

text \<open>The rounds, two in each turn of the loop.\<close>

fun des_loop :: "(u32 \<times> u32) list \<Rightarrow> u32 \<times> u32 \<Rightarrow> u32 \<times> u32" where
  "des_loop (k1 # k2 # ks) (l, r) = (let l = D_ENCRYPT l r k1; r = D_ENCRYPT r l k2 in des_loop ks (l, r))"
| "des_loop ks (l, r) = (l, r)"

definition do_IP :: "u32 \<Rightarrow> u32 \<Rightarrow> u32 \<times> u32" where
  "do_IP l r =
     (let (r, l) = PERM_OP r l 4 0x0f0f0f0f;
          (l, r) = PERM_OP l r 16 0x0000ffff;
          (r, l) = PERM_OP r l 2 0x33333333;
          (l, r) = PERM_OP l r 8 0x00ff00ff;
          (r, l) = PERM_OP r l 1 0x55555555
      in (l, r))"

definition do_FP :: "u32 \<Rightarrow> u32 \<Rightarrow> u32 \<times> u32" where
  "do_FP l r =
     (let (r, l) = PERM_OP r l 1 0x55555555;
          (l, r) = PERM_OP l r 8 0x00ff00ff;
          (r, l) = PERM_OP r l 2 0x33333333;
          (l, r) = PERM_OP l r 16 0x0000ffff;
          (r, l) = PERM_OP r l 4 0x0f0f0f0f
      in (l, r))"

definition DES :: "u8 list \<Rightarrow> u8 list \<Rightarrow> u8 list" where
  "DES key message =
     (let keys = DES_createkeys key;
          (l, r) = do_IP (c2l message 0) (c2l message 4);
          t = push_bit 1 r OR drop_bit 31 r;
          r = push_bit 1 l OR drop_bit 31 l;
          (l, r) = des_loop keys (t, r);
          l = drop_bit 1 l OR push_bit 31 l;
          r = drop_bit 1 r OR push_bit 31 r;
          (l, r) = do_FP l r
      in l2c l @ l2c r)"

subsection \<open>The standard\<close>

text \<open>Bits are numbered from 1, the highest bit of the first byte.\<close>

type_synonym bits = "bool list"

definition bits_of_bytes :: "u8 list \<Rightarrow> bits" where
  "bits_of_bytes bs = concat (map (\<lambda>b. map (\<lambda>k. bit b (7 - k)) [0..<8]) bs)"

definition permute :: "nat list \<Rightarrow> 'a list \<Rightarrow> 'a list" where
  "permute tab b = map (\<lambda>i. b ! (i - 1)) tab"

definition xor_bits :: "bits \<Rightarrow> bits \<Rightarrow> bits" where
  "xor_bits a b = map2 (\<noteq>) a b"

definition fips_IP :: "nat list" where
  "fips_IP =
    [58, 50, 42, 34, 26, 18, 10, 2, 60, 52, 44, 36, 28, 20, 12, 4,
    62, 54, 46, 38, 30, 22, 14, 6, 64, 56, 48, 40, 32, 24, 16, 8,
    57, 49, 41, 33, 25, 17, 9, 1, 59, 51, 43, 35, 27, 19, 11, 3,
    61, 53, 45, 37, 29, 21, 13, 5, 63, 55, 47, 39, 31, 23, 15, 7]"

definition fips_FP :: "nat list" where
  "fips_FP =
    [40, 8, 48, 16, 56, 24, 64, 32, 39, 7, 47, 15, 55, 23, 63, 31,
    38, 6, 46, 14, 54, 22, 62, 30, 37, 5, 45, 13, 53, 21, 61, 29,
    36, 4, 44, 12, 52, 20, 60, 28, 35, 3, 43, 11, 51, 19, 59, 27,
    34, 2, 42, 10, 50, 18, 58, 26, 33, 1, 41, 9, 49, 17, 57, 25]"

definition fips_E :: "nat list" where
  "fips_E =
    [32, 1, 2, 3, 4, 5, 4, 5, 6, 7, 8, 9, 8, 9, 10, 11,
    12, 13, 12, 13, 14, 15, 16, 17, 16, 17, 18, 19, 20, 21, 20, 21,
    22, 23, 24, 25, 24, 25, 26, 27, 28, 29, 28, 29, 30, 31, 32, 1]"

definition fips_P :: "nat list" where
  "fips_P =
    [16, 7, 20, 21, 29, 12, 28, 17, 1, 15, 23, 26, 5, 18, 31, 10,
    2, 8, 24, 14, 32, 27, 3, 9, 19, 13, 30, 6, 22, 11, 4, 25]"

definition fips_PC1 :: "nat list" where
  "fips_PC1 =
    [57, 49, 41, 33, 25, 17, 9, 1, 58, 50, 42, 34, 26, 18, 10, 2,
    59, 51, 43, 35, 27, 19, 11, 3, 60, 52, 44, 36, 63, 55, 47, 39,
    31, 23, 15, 7, 62, 54, 46, 38, 30, 22, 14, 6, 61, 53, 45, 37,
    29, 21, 13, 5, 28, 20, 12, 4]"

definition fips_PC2 :: "nat list" where
  "fips_PC2 =
    [14, 17, 11, 24, 1, 5, 3, 28, 15, 6, 21, 10, 23, 19, 12, 4,
    26, 8, 16, 7, 27, 20, 13, 2, 41, 52, 31, 37, 47, 55, 30, 40,
    51, 45, 33, 48, 44, 49, 39, 56, 34, 53, 46, 42, 50, 36, 29, 32]"

definition fips_S :: "nat list list" where
  "fips_S = [
   [14, 4, 13, 1, 2, 15, 11, 8, 3, 10, 6, 12, 5, 9, 0, 7, 0, 15, 7, 4, 14, 2, 13, 1, 10, 6, 12, 11, 9, 5, 3, 8,
    4, 1, 14, 8, 13, 6, 2, 11, 15, 12, 9, 7, 3, 10, 5, 0, 15, 12, 8, 2, 4, 9, 1, 7, 5, 11, 3, 14, 10, 0, 6, 13],
   [15, 1, 8, 14, 6, 11, 3, 4, 9, 7, 2, 13, 12, 0, 5, 10, 3, 13, 4, 7, 15, 2, 8, 14, 12, 0, 1, 10, 6, 9, 11, 5,
    0, 14, 7, 11, 10, 4, 13, 1, 5, 8, 12, 6, 9, 3, 2, 15, 13, 8, 10, 1, 3, 15, 4, 2, 11, 6, 7, 12, 0, 5, 14, 9],
   [10, 0, 9, 14, 6, 3, 15, 5, 1, 13, 12, 7, 11, 4, 2, 8, 13, 7, 0, 9, 3, 4, 6, 10, 2, 8, 5, 14, 12, 11, 15, 1,
    13, 6, 4, 9, 8, 15, 3, 0, 11, 1, 2, 12, 5, 10, 14, 7, 1, 10, 13, 0, 6, 9, 8, 7, 4, 15, 14, 3, 11, 5, 2, 12],
   [7, 13, 14, 3, 0, 6, 9, 10, 1, 2, 8, 5, 11, 12, 4, 15, 13, 8, 11, 5, 6, 15, 0, 3, 4, 7, 2, 12, 1, 10, 14, 9,
    10, 6, 9, 0, 12, 11, 7, 13, 15, 1, 3, 14, 5, 2, 8, 4, 3, 15, 0, 6, 10, 1, 13, 8, 9, 4, 5, 11, 12, 7, 2, 14],
   [2, 12, 4, 1, 7, 10, 11, 6, 8, 5, 3, 15, 13, 0, 14, 9, 14, 11, 2, 12, 4, 7, 13, 1, 5, 0, 15, 10, 3, 9, 8, 6,
    4, 2, 1, 11, 10, 13, 7, 8, 15, 9, 12, 5, 6, 3, 0, 14, 11, 8, 12, 7, 1, 14, 2, 13, 6, 15, 0, 9, 10, 4, 5, 3],
   [12, 1, 10, 15, 9, 2, 6, 8, 0, 13, 3, 4, 14, 7, 5, 11, 10, 15, 4, 2, 7, 12, 9, 5, 6, 1, 13, 14, 0, 11, 3, 8,
    9, 14, 15, 5, 2, 8, 12, 3, 7, 0, 4, 10, 1, 13, 11, 6, 4, 3, 2, 12, 9, 5, 15, 10, 11, 14, 1, 7, 6, 0, 8, 13],
   [4, 11, 2, 14, 15, 0, 8, 13, 3, 12, 9, 7, 5, 10, 6, 1, 13, 0, 11, 7, 4, 9, 1, 10, 14, 3, 5, 12, 2, 15, 8, 6,
    1, 4, 11, 13, 12, 3, 7, 14, 10, 15, 6, 8, 0, 5, 9, 2, 6, 11, 13, 8, 1, 4, 10, 7, 9, 5, 0, 15, 14, 2, 3, 12],
   [13, 2, 8, 4, 6, 15, 11, 1, 10, 9, 3, 14, 5, 0, 12, 7, 1, 15, 13, 8, 10, 3, 7, 4, 12, 5, 6, 11, 0, 14, 9, 2,
    7, 11, 4, 1, 9, 12, 14, 2, 0, 6, 10, 13, 15, 3, 5, 8, 2, 1, 14, 7, 4, 10, 8, 13, 15, 12, 9, 0, 3, 5, 6, 11]]"

definition fips_shifts :: "nat list" where
  "fips_shifts = [1, 1, 2, 2, 2, 2, 2, 2, 1, 2, 2, 2, 2, 2, 2, 1]"

text \<open>The outer bits of a group of six give the row, the inner ones the column.\<close>

definition fips_sbox :: "nat \<Rightarrow> bits \<Rightarrow> bits" where
  "fips_sbox j b =
     (let n = \<lambda>i. of_bool (b ! i); row = 2 * n 0 + n 5; col = 8 * n 1 + 4 * n 2 + 2 * n 3 + n 4; v = fips_S ! j ! (16 * row + col)
      in map (\<lambda>k. bit v (3 - k)) [0..<4])"

definition fips_f :: "bits \<Rightarrow> bits \<Rightarrow> bits" where
  "fips_f R K = (let X = xor_bits (permute fips_E R) K
     in permute fips_P (concat (map (\<lambda>j. fips_sbox j (take 6 (drop (6 * j) X))) [0..<8])))"

fun fips_schedule :: "nat list \<Rightarrow> bits \<Rightarrow> bits \<Rightarrow> bits list" where
  "fips_schedule [] C D = []"
| "fips_schedule (s # ss) C D =
     (let C = rotate s C; D = rotate s D in permute fips_PC2 (C @ D) # fips_schedule ss C D)"

definition fips_keys :: "bits \<Rightarrow> bits list" where
  "fips_keys key = (let cd = permute fips_PC1 key in fips_schedule fips_shifts (take 28 cd) (drop 28 cd))"

definition fips_des :: "bits \<Rightarrow> bits \<Rightarrow> bits" where
  "fips_des key message =
     (let b = permute fips_IP message;
          (L, R) = fold (\<lambda>K (L, R). (R, xor_bits L (fips_f R K))) (fips_keys key) (take 32 b, drop 32 b)
      in permute fips_FP (R @ L))"

text \<open>A key of 56 bits with a parity bit, always 0 here, behind each group of seven.\<close>

fun with_parity :: "bits \<Rightarrow> bits" where
  "with_parity [] = []"
| "with_parity (b # bs) = take 7 (b # bs) @ False # with_parity (drop 7 (b # bs))"


subsection \<open>Words as lists of bits\<close>

definition wbits :: "u32 \<Rightarrow> bits" where
  "wbits w = map (bit w) [0..<32]"

lemma length_wbits [simp]: "length (wbits w) = 32"
  by (simp add: wbits_def)

lemma nth_wbits [simp]: "i < 32 \<Longrightarrow> wbits w ! i = bit w i"
  by (simp add: wbits_def)

text \<open>
  What an operation does to the places of the bits, as a function on lists of any type.  Such a function commutes with \<open>map\<close>,
  so that it is evaluated once, on the list of the names of the bits.
\<close>

definition swap_l :: "nat \<Rightarrow> bits \<Rightarrow> 'a list \<Rightarrow> 'a list \<Rightarrow> 'a list \<times> 'a list" where
  "swap_l n M A B = (map (\<lambda>j. if n \<le> j \<and> M ! (j - n) then B ! (j - n) else A ! j) [0..<32],
     map (\<lambda>i. if M ! i then A ! (i + n) else B ! i) [0..<32])"

lemma swap_l_map:
  assumes "length A = 32" "length B = 32" "\<forall>i < 32. M ! i \<longrightarrow> i + n < 32" "swap_l n M A B = (A', B')"
  shows "swap_l n M (map f A) (map f B) = (map f A', map f B')" "length A' = 32" "length B' = 32"
  using assms by (auto simp: swap_l_def)

lemma PERM_OP_wbits:
  assumes "\<forall>i < 32. bit m i \<longrightarrow> i + n < 32"
  shows "map_prod wbits wbits (PERM_OP a b n m) = swap_l n (wbits m) (wbits a) (wbits b)"
proof -
  have "bit a (i + n) \<longleftrightarrow> i + n < 32 \<and> bit a (i + n)" for i using bit_imp_le_length [of a "i + n"] by auto
  then show ?thesis using assms by (auto simp: PERM_OP_def swap_l_def Let_def wbits_def bit_simps add.commute)
qed

definition hswap_l :: "nat \<Rightarrow> bits \<Rightarrow> 'a list \<Rightarrow> 'a list" where
  "hswap_l k M A = map (\<lambda>i. if M ! i then A ! (i - k) else if i + k < 32 \<and> M ! (i + k) then A ! (i + k) else A ! i) [0..<32]"

lemma low_bit: "bit (w :: u32) i \<Longrightarrow> i < 32"
  using bit_imp_le_length [of w i] by auto

lemma HPERM_OP_wbits:
  assumes k: "k < 32" "0 < k" and m: "\<forall>i < 32. bit m i \<longrightarrow> k \<le> i \<and> (i + k < 32 \<longrightarrow> \<not> bit m (i + k))"
  shows "wbits (HPERM_OP a (16 - int k) m) = hswap_l k (wbits m) (wbits a)"
proof (rule nth_equalityI)
  fix i assume "i < length (wbits (HPERM_OP a (16 - int k) m))"
  then have i: "i < 32" by simp
  have "bit (HPERM_OP a (16 - int k) m) i = (bit a i \<noteq> ((((k \<le> i \<and> bit a (i - k)) \<noteq> bit a i) \<and> bit m i)
      \<noteq> ((bit a i \<noteq> bit a (i + k)) \<and> bit m (i + k) \<and> i + k < 32)))"
  proof (cases "i + k < 32")
    case True
    then show ?thesis using i by (auto simp: HPERM_OP_def Let_def bit_simps add.commute)
  next
    case False
    then have "\<not> bit m (i + k)" using low_bit by blast
    then show ?thesis using i False by (auto simp: HPERM_OP_def Let_def bit_simps add.commute)
  qed
  also have "\<dots> = hswap_l k (wbits m) (wbits a) ! i"
  proof (cases "bit m i")
    case True
    then have "k \<le> i" "i + k < 32 \<Longrightarrow> \<not> bit m (i + k)" using m i by simp_all
    then show ?thesis using True i by (auto simp: hswap_l_def)
  next
    case False
    then show ?thesis using i by (auto simp: hswap_l_def)
  qed
  finally show "wbits (HPERM_OP a (16 - int k) m) ! i = hswap_l k (wbits m) (wbits a) ! i" using i by simp
qed (simp add: hswap_l_def)

lemma hswap_l_map:
  assumes "length A = 32" "\<forall>i < 32. M ! i \<longrightarrow> k \<le> i"
  shows "hswap_l k M (map f A) = map f (hswap_l k M A)"
  using assms by (auto simp: hswap_l_def)

lemma des_masks:
  "wbits 0x0f0f0f0f = concat (replicate 4 ([True, True, True, True, False, False, False, False]))"
  "wbits 0x33333333 = concat (replicate 8 ([True, True, False, False]))"
  "wbits 0x55555555 = concat (replicate 16 ([True, False]))"
  "wbits 0x00ff00ff = concat (replicate 2 (replicate 8 True @ replicate 8 False))"
  "wbits 0x0000ffff = replicate 16 True @ replicate 16 False"
  "wbits 0xcccc0000 = replicate 16 False @ concat (replicate 4 ([False, False, True, True]))"
  by code_simp+

lemma wbits_rotate:
  assumes "0 < k" "k < 32"
  shows "wbits (drop_bit k w OR push_bit (32 - k) w) = rotate k (wbits w)"
proof (rule nth_equalityI)
  fix i assume "i < length (wbits (drop_bit k w OR push_bit (32 - k) w))"
  then have i: "i < 32" by simp
  have "bit (drop_bit k w OR push_bit (32 - k) w) i = bit w ((k + i) mod 32)"
  proof (cases "k + i < 32")
    case True
    then show ?thesis using i by (auto simp: bit_simps)
  next
    case False
    then have "(k + i) mod 32 = k + i - 32" "32 - k \<le> i" "i - (32 - k) = k + i - 32" using assms i by (simp_all add: mod_if)
    then show ?thesis using False i low_bit [of w "k + i"] by (auto simp: bit_simps)
  qed
  then show "wbits (drop_bit k w OR push_bit (32 - k) w) ! i = rotate k (wbits w) ! i" using i by (simp add: nth_rotate)
qed simp

lemma wbits_shift:
  "wbits (push_bit 1 w OR drop_bit 31 w) = rotate 31 (wbits w)" "wbits (drop_bit 1 w OR push_bit 31 w) = rotate 1 (wbits w)"
  "wbits (push_bit 4 w OR drop_bit 28 w) = rotate 28 (wbits w)" "wbits (drop_bit 4 w OR push_bit 28 w) = rotate 4 (wbits w)"
  using wbits_rotate [of 31 w] wbits_rotate [of 1 w] wbits_rotate [of 28 w] wbits_rotate [of 4 w] by (simp_all add: or.commute)

text \<open>A word whose bits are the values \<open>f\<close> of the names in a list.\<close>

definition names :: "u32 \<Rightarrow> (nat \<Rightarrow> bool) \<Rightarrow> nat list \<Rightarrow> bool" where
  "names w f A = (length A = 32 \<and> wbits w = map f A)"

lemma names_PERM_OP:
  assumes "PERM_OP a b n m = (a', b')" "names a f A" "names b f B" "wbits m = M" "\<forall>i < 32. M ! i \<longrightarrow> i + n < 32" "swap_l n M A B = (A', B')"
  shows "names a' f A'" "names b' f B'"
proof -
  have "\<forall>i < 32. bit m i \<longrightarrow> i + n < 32" using assms(4,5) by (metis nth_wbits)
  from PERM_OP_wbits [OF this, of a b] have "(wbits a', wbits b') = swap_l n M (map f A) (map f B)"
    using assms(1-4) by (simp add: names_def)
  then show "names a' f A'" "names b' f B'"
    using swap_l_map(1) [OF _ _ assms(5,6), of f] swap_l_map(2,3) [OF _ _ assms(5,6)] assms(2,3) by (simp_all add: names_def)
qed

lemma names_HPERM_OP:
  assumes "names a f A" "wbits m = M" "\<forall>i < 32. M ! i \<longrightarrow> 18 \<le> i \<and> (i + 18 < 32 \<longrightarrow> \<not> M ! (i + 18))" "hswap_l 18 M A = A'"
  shows "names (HPERM_OP a (- 2) m) f A'"
proof -
  have m: "\<forall>i < 32. bit m i \<longrightarrow> 18 \<le> i \<and> (i + 18 < 32 \<longrightarrow> \<not> bit m (i + 18))" using assms(2,3) by (metis nth_wbits)
  have "wbits (HPERM_OP a (- 2) m) = hswap_l 18 M (map f A)" using HPERM_OP_wbits [OF _ _ m, of a] assms(1,2) by (simp add: names_def)
  then show ?thesis using assms hswap_l_map [of A M 18 f] by (auto simp: names_def hswap_l_def)
qed

subsection \<open>Initial and final permutation\<close>

lemma nth_bits_of_bytes: "\<lbrakk>q < length bs; r < 8\<rbrakk> \<Longrightarrow> bits_of_bytes bs ! (8 * q + r) = bit (bs ! q) (7 - r)"
proof (induction bs arbitrary: q)
  case (Cons b bs)
  have c: "bits_of_bytes (b # bs) = map (\<lambda>k. bit b (7 - k)) [0..<8] @ bits_of_bytes bs" by (simp add: bits_of_bytes_def)
  show ?case
  proof (cases q)
    case 0
    then show ?thesis using Cons.prems by (simp add: c nth_append)
  next
    case (Suc p)
    then show ?thesis using Cons.IH [of p] Cons.prems by (simp add: c nth_append)
  qed
qed simp

lemma length_bits_of_bytes [simp]: "length (bits_of_bytes bs) = 8 * length bs"
  by (induction bs) (simp_all add: bits_of_bytes_def)

definition byte_names :: "nat \<Rightarrow> nat list" where
  "byte_names i = map (\<lambda>j. 8 * (i + j div 8) + (7 - j mod 8)) [0..<32]"

lemma ucast_bit: "bit (ucast (b :: u8) :: u32) n \<longleftrightarrow> bit b n"
  using bit_imp_le_length [of b n] by (auto simp: bit_simps)

lemma high_bit: "8 \<le> n \<Longrightarrow> \<not> bit (b :: u8) n"
  using bit_imp_le_length [of b n] by auto

lemma bit_c2l:
  assumes "j < 32"
  shows "bit (c2l bs i) j = bit (bs ! (i + j div 8)) (j mod 8)"
proof -
  have e: "bit (c2l bs i) j = (bit (bs ! i) j \<or> 8 \<le> j \<and> bit (bs ! (i + 1)) (j - 8) \<or> 16 \<le> j \<and> bit (bs ! (i + 2)) (j - 16)
      \<or> 24 \<le> j \<and> bit (bs ! (i + 3)) (j - 24))"
    using assms by (auto simp: c2l_def bit_or_iff bit_push_bit_iff ucast_bit)
  consider "j < 8" | "8 \<le> j" "j < 16" | "16 \<le> j" "j < 24" | "24 \<le> j" by linarith
  then show ?thesis
  proof cases
    case 1
    then show ?thesis using e by simp
  next
    case 2
    then have "j div 8 = 1" "j mod 8 = j - 8" by (simp_all add: mod_if div_if)
    then show ?thesis using 2 e high_bit [of j] by simp
  next
    case 3
    then have "j div 8 = 2" "j mod 8 = j - 16" "8 \<le> j - 8" by presburger+
    then show ?thesis using 3 e high_bit [of j] high_bit [of "j - 8"] by simp
  next
    case 4
    then have "j div 8 = 3" "j mod 8 = j - 24" "8 \<le> j - 8" "8 \<le> j - 16" using assms by presburger+
    then show ?thesis using 4 e high_bit [of j] high_bit [of "j - 8"] high_bit [of "j - 16"] by simp
  qed
qed

lemma names_c2l:
  assumes "i + 4 \<le> length bs"
  shows "names (c2l bs i) (\<lambda>k. bits_of_bytes bs ! k) (byte_names i)"
proof -
  have "bit (c2l bs i) j = bits_of_bytes bs ! (8 * (i + j div 8) + (7 - j mod 8))" if "j < 32" for j
  proof -
    have "i + j div 8 < length bs" using assms that by linarith
    then show ?thesis using nth_bits_of_bytes [of "i + j div 8" bs "7 - j mod 8"] that by (simp add: bit_c2l)
  qed
  then show ?thesis by (simp add: names_def byte_names_def wbits_def)
qed

lemma bits_l2c: "bits_of_bytes (l2c w) = map (\<lambda>p. bit w (8 * (p div 8) + (7 - p mod 8))) [0..<32]"
proof (rule nth_equalityI)
  fix p assume "p < length (bits_of_bytes (l2c w))"
  then have p: "p < 32" by (simp add: l2c_def)
  have "l2c w ! q = ucast (drop_bit (8 * q) w)" if "q < 4" for q
  proof -
    have "ucast (v AND 0xff) = (ucast v :: u8)" for v :: u32 by (rule bit_word_eqI) (auto simp: bit_simps less_Suc_eq numeral_eq_Suc)
    moreover from that have "q = 0 \<or> q = 1 \<or> q = 2 \<or> q = 3" by auto
    ultimately show ?thesis by (auto simp: l2c_def)
  qed
  then have "l2c w ! (p div 8) = ucast (drop_bit (8 * (p div 8)) w)" using p by simp
  moreover have "p div 8 < length (l2c w)" "7 - p mod 8 < 8" using p by (simp_all add: l2c_def less_imp_diff_less)
  ultimately show "bits_of_bytes (l2c w) ! p = map (\<lambda>p. bit w (8 * (p div 8) + (7 - p mod 8))) [0..<32] ! p"
    using nth_bits_of_bytes [of "p div 8" "l2c w" "p mod 8"] p by (simp add: bit_ucast_iff bit_drop_bit_eq)
qed (simp add: l2c_def)

end
