(* ===== verification/DesTables.thy ===== *)
theory DesTables
  imports Des
begin

text \<open>
  The tables of the block cipher against those of the standard: every entry of \<open>des_SPtrans\<close> is the output of a box
  put through the permutation behind the boxes, and every entry of \<open>des_skb\<close> puts the bits of its index to their places
  in a round key.
\<close>

subsection \<open>Words with bits at given places\<close>

fun place :: "nat list \<Rightarrow> bits \<Rightarrow> u32" where
  "place (p # ps) (b # bs) = (if b then push_bit p 1 else 0) OR place ps bs"
| "place ps bs = 0"

lemma place_append: "length ps = length bs \<Longrightarrow> place (ps @ qs) (bs @ cs) = place ps bs OR place qs cs"
  by (induction ps bs rule: list_induct2) (simp_all add: or.assoc)

lemma bit_place: "\<lbrakk>length ps = length bs; i < 32\<rbrakk> \<Longrightarrow> bit (place ps bs) i \<longleftrightarrow> (i, True) \<in> set (zip ps bs)"
proof (induction ps bs rule: list_induct2)
  case (Cons p ps b bs)
  have "bit (push_bit p (1 :: u32)) i \<longleftrightarrow> i = p" using Cons.prems by (auto simp: bit_push_bit_iff bit_1_iff simp del: push_bit_of_1)
  then show ?case using Cons by (auto simp: bit_or_iff)
qed simp

lemma bit_place_nth:
  assumes "length ps = length bs" "distinct ps" "q < length ps" "ps ! q < 32"
  shows "bit (place ps bs) (ps ! q) = bs ! q"
proof -
  have "(ps ! q, True) \<in> set (zip ps bs) \<longleftrightarrow> bs ! q"
    using assms by (auto simp: in_set_zip nth_eq_iff_index_eq intro: exI [of _ q])
  then show ?thesis using assms by (simp add: bit_place)
qed

subsection \<open>The boxes\<close>

text \<open>The places of the outputs of the boxes, in the order of the boxes.\<close>

definition box_places :: "nat list" where
  "box_places = [9, 17, 23, 31, 13, 28, 2, 18, 24, 16, 30, 6, 26, 20, 10, 1, 8, 14, 25, 3, 4, 29, 11, 19, 0, 12, 22, 7, 5, 27, 15, 21]"

lemma box_places_P: "map (\<lambda>p. box_places ! (p - 1)) fips_P = map (\<lambda>p. (p + 1) mod 32) [0..<32]"
  by code_simp

text \<open>The table with an entry for each choice of places, the first place for the lowest bit of the index.\<close>

definition linear :: "nat list \<Rightarrow> u32 list" where
  "linear ps = foldl (\<lambda>t p. t @ map ((OR) (push_bit p 1)) t) [0] ps"

abbreviation bin :: "bits \<Rightarrow> nat" where
  "bin \<equiv> horner_sum of_bool 2"

lemma bin_less: "bin bs < 2 ^ length bs"
  by (rule horner_sum_of_bool_2_less)

lemma length_linear [simp]: "length (linear ps) = 2 ^ length ps"
  by (induction ps rule: rev_induct) (simp_all add: linear_def)

lemma linear_place: "length bs = length ps \<Longrightarrow> linear ps ! bin bs = place ps bs"
proof (induction ps arbitrary: bs rule: rev_induct)
  case Nil
  then show ?case by (simp add: linear_def)
next
  case (snoc p ps)
  then obtain cs b where bs: "bs = cs @ [b]" "length cs = length ps" by (cases bs rule: rev_cases) auto
  have l: "linear (ps @ [p]) = linear ps @ map ((OR) (push_bit p 1)) (linear ps)" by (simp add: linear_def)
  have "bin cs < length (linear ps)" using bin_less [of cs] bs by simp
  then show ?case using snoc.IH [of cs] bs place_append [of ps cs "[p]" "[b]"]
    by (cases b) (simp_all add: l horner_sum_append nth_append or.commute)
qed

lemma place_rev:
  assumes "length ps = length bs" "\<forall>p \<in> set ps. p < 32"
  shows "place (rev ps) (rev bs) = place ps bs"
proof (rule bit_word_eqI)
  fix i assume "i < LENGTH(32)"
  then show "bit (place (rev ps) (rev bs)) i \<longleftrightarrow> bit (place ps bs) i" using assms by (simp add: bit_place zip_rev)
qed

text \<open>An index of six bits.\<close>

lemma unat_six:
  assumes "\<And>k. 6 \<le> k \<Longrightarrow> \<not> bit (w :: u32) k"
  shows "unat w = bin (map (bit w) [0..<6])"
proof -
  have "take_bit 6 w = w" by (rule bit_eqI) (metis assms bit_take_bit_iff not_less)
  then have "unat w = take_bit 6 (unat w)" by (metis unsigned_take_bit_eq)
  also have "\<dots> = bin (map (bit (unat w)) [0..<6])" by (simp only: horner_sum_bit_eq_take_bit)
  also have "map (bit (unat w)) [0..<6] = map (bit w) [0..<6]" by (simp add: bit_unsigned_iff bit_imp_le_length)
  finally show ?thesis .
qed

text \<open>The entry of a box for each index, whose lowest bit is the first bit of the standard.\<close>

definition box_order :: "nat list" where
  "box_order = [0, 32, 8, 40, 4, 36, 12, 44, 2, 34, 10, 42, 6, 38, 14, 46,
     1, 33, 9, 41, 5, 37, 13, 45, 3, 35, 11, 43, 7, 39, 15, 47,
     16, 48, 24, 56, 20, 52, 28, 60, 18, 50, 26, 58, 22, 54, 30, 62,
     17, 49, 25, 57, 21, 53, 29, 61, 19, 51, 27, 59, 23, 55, 31, 63]"

definition pick :: "u32 list \<Rightarrow> nat list \<Rightarrow> u32 list" where
  "pick t s = map (\<lambda>i. t ! (s ! i)) box_order"

definition box_table :: "nat \<Rightarrow> u32 list" where
  "box_table j = pick (linear (rev (take 4 (drop (4 * j) box_places)))) (fips_S ! j)"

lemma boxes: "box_table 0 = des_SPtrans ! 0" "box_table 1 = des_SPtrans ! 1" "box_table 2 = des_SPtrans ! 2" "box_table 3 = des_SPtrans ! 3"
  "box_table 4 = des_SPtrans ! 4" "box_table 5 = des_SPtrans ! 5" "box_table 6 = des_SPtrans ! 6" "box_table 7 = des_SPtrans ! 7"
  by code_simp+

text \<open>The bits of a round key that the bits of an index go to.\<close>

definition skb_places :: "nat list list" where
  "skb_places = [[4, 29, 16, 11, 5, 19], [25, 13, 21, 2, 10, 28], [0, 18, 24, 1, 9, 27], [20, 8, 3, 12, 26, 17],
     [28, 16, 2, 29, 20, 12], [27, 3, 10, 17, 0, 25], [8, 19, 24, 4, 21, 9], [26, 18, 1, 13, 5, 11]]"

lemma skb: "map linear skb_places = des_skb"
  by code_simp

end
