(* ===== verification/DesRound.thy ===== *)
theory DesRound
  imports DesTables
begin

text \<open>
  A round of the block cipher is a round of the standard, for a half of the block turned by one place and a round key in the two
  words that the tables are indexed with.
\<close>

subsection \<open>A round\<close>

text \<open>A half of the block, as the code keeps it between the rounds: turned by one place.\<close>

definition half :: "u32 \<Rightarrow> bits" where
  "half w = rotate 1 (wbits w)"

lemma length_half [simp]: "length (half w) = 32"
  by (simp add: half_def)

lemma nth_half: "p < 32 \<Longrightarrow> half w ! p = bit w ((p + 1) mod 32)"
  by (simp only: half_def nth_rotate length_wbits add.commute) simp

definition round_bits :: "u32 \<times> u32 \<Rightarrow> nat \<Rightarrow> bits" where
  "round_bits k j = map (\<lambda>i. bit (if even j then fst k else snd k) ((4 * j + i) mod 32)) [0..<6]"

definition key_bits :: "u32 \<times> u32 \<Rightarrow> bits" where
  "key_bits k = concat (map (round_bits k) [0..<8])"

text \<open>The index into the table of a box.\<close>

definition box_index :: "u32 \<Rightarrow> u32 \<times> u32 \<Rightarrow> nat \<Rightarrow> u32" where
  "box_index R k j = (let u = R XOR fst k; t = R XOR snd k; t = drop_bit 4 t + push_bit 28 t
     in if even j then drop_bit (4 * j) u AND 0x3f else drop_bit (4 * (j - 1)) t AND 0x3f)"

lemma add_rotate: "drop_bit 4 t + push_bit 28 t = (drop_bit 4 t OR push_bit 28 (t :: u32))"
proof (rule disjunctive_add)
  fix n show "\<not> bit (drop_bit 4 t) n \<or> \<not> bit (push_bit 28 t) n"
    using low_bit [of t "4 + n"] by (auto simp: bit_drop_bit_eq bit_push_bit_iff)
qed

lemma six_mask: "bit (w AND 0x3f) i \<longleftrightarrow> bit (w :: u32) i \<and> i < 6"
proof -
  have "(0x3f :: u32) = Bit_Operations.mask 6" by (simp add: mask_eq_exp_minus_1)
  then show ?thesis by (metis bit_take_bit_iff take_bit_eq_mask and.commute)
qed

lemma bit_rotate_4: "i < 32 \<Longrightarrow> bit (drop_bit 4 (w :: u32) OR push_bit 28 w) i \<longleftrightarrow> bit w ((4 + i) mod 32)"
  using wbits_shift(4) [of w] by (metis length_wbits mod_less_divisor nth_rotate nth_wbits zero_less_numeral)

lemma bit_box_index:
  assumes "j < 8" "i < 6"
  shows "bit (box_index R k j) i \<longleftrightarrow> bit (R XOR (if even j then fst k else snd k)) ((4 * j + i) mod 32)"
proof (cases "even j")
  case True
  then obtain m where "j = 2 * m" by blast
  then have "4 * j + i < 32" using assms by simp
  then show ?thesis using True assms by (simp add: box_index_def six_mask bit_drop_bit_eq bit_xor_iff)
next
  case False
  then obtain m where m: "j = 2 * m + 1" by (metis oddE)
  define t where "t = R XOR snd k"
  have x: "box_index R k j = drop_bit (8 * m) (drop_bit 4 t OR push_bit 28 t) AND 0x3f"
    using False m unfolding box_index_def Let_def t_def [symmetric] add_rotate by simp
  have "bit (drop_bit 4 t OR push_bit 28 t) (8 * m + i) = bit t ((4 + (8 * m + i)) mod 32)"
    by (rule bit_rotate_4) (use m assms in simp)
  moreover have "4 + (8 * m + i) = 4 * j + i" using m by simp
  ultimately have "bit (box_index R k j) i = bit t ((4 * j + i) mod 32)"
    unfolding x six_mask bit_drop_bit_eq comp_def using assms by simp
  then show ?thesis using False by (simp add: t_def)
qed

lemma unat_box_index:
  assumes "j < 8"
  shows "unat (box_index R k j) = bin (map (\<lambda>i. bit (R XOR (if even j then fst k else snd k)) ((4 * j + i) mod 32)) [0..<6])"
proof -
  have m: "map (bit (box_index R k j)) [0..<6] = map (\<lambda>i. bit (R XOR (if even j then fst k else snd k)) ((4 * j + i) mod 32)) [0..<6]"
    by (rule map_cong) (use assms in \<open>simp_all add: bit_box_index\<close>)
  have "unat (box_index R k j) = bin (map (bit (box_index R k j)) [0..<6])"
    by (rule unat_six) (auto simp: box_index_def Let_def six_mask)
  then show ?thesis by (simp only: m)
qed

lemma D_ENCRYPT_boxes: "D_ENCRYPT L R k = L XOR foldr (OR) (map (\<lambda>j. des_SPtrans ! j ! unat (box_index R k j)) [0..<8]) 0"
proof -
  have "[0..<8] = [0, 1, 2, 3, 4, 5, 6, 7 :: nat]" by code_simp
  then show ?thesis by (simp add: D_ENCRYPT_def box_index_def Let_def or.commute or.left_commute or.assoc)
qed

lemma expansion: "map (\<lambda>p. p mod 32) fips_E = concat (map (\<lambda>j. map (\<lambda>i. (4 * j + i) mod 32) [0..<6]) [0..<8])"
  by code_simp

lemma box_entries: "\<forall>s \<in> set fips_S. length s = 64 \<and> (\<forall>v \<in> set s. v < 16)" "length fips_S = 8"
  by (simp_all add: fips_S_def)

lemma box_order_bin: "length b = 6 \<Longrightarrow> box_order ! bin b = (let n = \<lambda>i. of_bool (b ! i) in 16 * (2 * n 0 + n 5) + (8 * n 1 + 4 * n 2 + 2 * n 3 + n 4))"
proof -
  assume "length b = 6"
  then obtain b0 b1 b2 b3 b4 b5 where b: "b = [b0, b1, b2, b3, b4, b5]" by (auto simp: length_Suc_conv numeral_eq_Suc)
  show ?thesis unfolding b box_order_def Let_def
    by (cases b0; cases b1; cases b2; cases b3; cases b4; cases b5) simp_all
qed

lemma box_order_less: "\<forall>i \<in> set box_order. i < 64" "length box_order = 64"
  by (simp_all add: box_order_def)

lemma box_entry:
  assumes j: "j < 8" and b: "length b = 6"
  shows "des_SPtrans ! j ! bin b = place (take 4 (drop (4 * j) box_places)) (fips_sbox j b)"
proof -
  let ?ps = "take 4 (drop (4 * j) box_places)"
  have "j = 0 \<or> j = 1 \<or> j = 2 \<or> j = 3 \<or> j = 4 \<or> j = 5 \<or> j = 6 \<or> j = 7" using j by linarith
  then have t: "des_SPtrans ! j = box_table j" using boxes by metis
  have i: "bin b < 64" using bin_less [of b] b by simp
  define v where "v = fips_S ! j ! (box_order ! bin b)"
  have "box_order ! bin b < 64" using box_order_less i by simp
  then have v: "v < 16" unfolding v_def using box_entries j by (metis nth_mem)
  have "des_SPtrans ! j ! bin b = linear (rev ?ps) ! v" using i box_order_less by (simp add: t box_table_def pick_def v_def)
  also have "v = bin (map (bit v) [0..<4])" using v take_bit_nat_eq_self [of v 4] by (simp add: horner_sum_bit_eq_take_bit)
  also have "linear (rev ?ps) ! \<dots> = place (rev ?ps) (map (bit v) [0..<4])" by (rule linear_place) (use j in \<open>simp add: box_places_def\<close>)
  also have "map (bit v) [0..<4] = rev (map (\<lambda>k. bit v (3 - k)) [0..<4])" by (simp add: upt_rec numeral_2_eq_2 numeral_3_eq_3)
  also have "place (rev ?ps) \<dots> = place ?ps (map (\<lambda>k. bit v (3 - k)) [0..<4])"
  proof (rule place_rev)
    show "\<forall>p \<in> set ?ps. p < 32" by (rule ballI, drule in_set_takeD, drule in_set_dropD) (auto simp: box_places_def)
  qed (use j in \<open>simp add: box_places_def\<close>)
  also have "map (\<lambda>k. bit v (3 - k)) [0..<4] = fips_sbox j b" unfolding v_def fips_sbox_def box_order_bin [OF b] Let_def ..
  finally show ?thesis .
qed

lemma place_concat: "\<lbrakk>length pss = length bss; \<forall>(ps, bs) \<in> set (zip pss bss). length ps = length bs\<rbrakk>
    \<Longrightarrow> place (concat pss) (concat bss) = foldr (OR) (map2 place pss bss) 0"
  by (induction pss bss rule: list_induct2) (auto simp: place_append)

lemma concat_boxes: "concat (map (\<lambda>j. take 4 (drop (4 * j) box_places)) [0..<8]) = box_places"
  by code_simp

lemma length_fips_sbox [simp]: "length (fips_sbox j b) = 4"
  by (simp add: fips_sbox_def Let_def)

lemma D_ENCRYPT_place:
  "D_ENCRYPT L R k = L XOR place box_places (concat (map (\<lambda>j. fips_sbox j
     (map (\<lambda>i. bit (R XOR (if even j then fst k else snd k)) ((4 * j + i) mod 32)) [0..<6])) [0..<8]))"
    (is "_ = L XOR place _ (concat (map ?s _))")
proof -
  let ?p = "\<lambda>j. take 4 (drop (4 * j) box_places)"
  have "map (\<lambda>j. des_SPtrans ! j ! unat (box_index R k j)) [0..<8] = map (\<lambda>j. place (?p j) (?s j)) [0..<8]"
    by (rule map_cong) (simp_all add: unat_box_index box_entry)
  also have "\<dots> = map2 place (map ?p [0..<8]) (map ?s [0..<8])" by (simp add: map2_map_map)
  finally have "foldr (OR) (map (\<lambda>j. des_SPtrans ! j ! unat (box_index R k j)) [0..<8]) 0 = place (concat (map ?p [0..<8])) (concat (map ?s [0..<8]))"
    by (simp only: place_concat) (subst place_concat; auto simp: in_set_zip box_places_def)
  then show ?thesis unfolding D_ENCRYPT_boxes concat_boxes by simp
qed

lemma take_drop_concat: "\<lbrakk>\<forall>x \<in> set xs. length (g x) = m; j < length xs\<rbrakk> \<Longrightarrow> take m (drop (m * j) (concat (map g xs))) = g (xs ! j)"
proof (induction xs arbitrary: j)
  case (Cons x xs)
  then show ?case by (cases j) (simp_all add: add.commute)
qed simp

lemma xor_bits_concat: "\<forall>x \<in> set xs. length (g x) = length (h x) \<Longrightarrow>
    xor_bits (concat (map g xs)) (concat (map h xs)) = concat (map (\<lambda>x. xor_bits (g x) (h x)) xs)"
  by (induction xs) (simp_all add: xor_bits_def)

lemma expand_half: "permute fips_E (half r) = concat (map (\<lambda>j. map (\<lambda>i. bit r ((4 * j + i) mod 32)) [0..<6]) [0..<8])"
proof -
  have "\<forall>p \<in> set fips_E. 0 < p \<and> p \<le> 32" by (simp add: fips_E_def)
  then have "permute fips_E (half r) = map (\<lambda>p. bit r (p mod 32)) fips_E" by (auto simp: permute_def nth_half)
  also have "\<dots> = map (bit r) (map (\<lambda>p. p mod 32) fips_E)" by simp
  finally show ?thesis by (simp only: expansion map_concat map_map comp_def)
qed

lemma fips_f_half: "fips_f (half r) (key_bits k) = permute fips_P (concat (map (\<lambda>j. fips_sbox j
     (map (\<lambda>i. bit (r XOR (if even j then fst k else snd k)) ((4 * j + i) mod 32)) [0..<6])) [0..<8]))"
    (is "_ = permute _ (concat (map (\<lambda>j. fips_sbox j (?b j)) _))")
proof -
  have "xor_bits (permute fips_E (half r)) (key_bits k) = concat (map ?b [0..<8])"
    unfolding expand_half key_bits_def
    by (subst xor_bits_concat) (auto simp: round_bits_def xor_bits_def map2_map_map bit_xor_iff intro!: arg_cong [of _ _ concat])
  then have "map (\<lambda>j. fips_sbox j (take 6 (drop (6 * j) (xor_bits (permute fips_E (half r)) (key_bits k))))) [0..<8]
      = map (\<lambda>j. fips_sbox j (?b j)) [0..<8]"
    by (intro map_cong) (simp_all add: take_drop_concat)
  then show ?thesis by (simp only: fips_f_def Let_def)
qed

lemma D_ENCRYPT_fips: "half (D_ENCRYPT l r k) = xor_bits (half l) (fips_f (half r) (key_bits k))"
proof -
  define Y where "Y = concat (map (\<lambda>j. fips_sbox j (map (\<lambda>i. bit (r XOR (if even j then fst k else snd k)) ((4 * j + i) mod 32)) [0..<6])) [0..<8])"
  have Y: "length Y = 32" by (simp add: Y_def length_concat comp_def sum_list_triv)
  have b: "length box_places = 32" "distinct box_places" "length fips_P = 32" by (simp_all add: box_places_def fips_P_def)
  show ?thesis unfolding fips_f_half D_ENCRYPT_place Y_def [symmetric]
  proof (rule nth_equalityI)
    fix p assume "p < length (half (l XOR place box_places Y))"
    then have p: "p < 32" by simp
    define q where "q = fips_P ! p - 1"
    have "\<forall>x \<in> set fips_P. x - 1 < 32" by (simp add: fips_P_def)
    then have q: "q < 32" unfolding q_def using p b by simp
    have "map (\<lambda>p. box_places ! (p - 1)) fips_P ! p = map (\<lambda>p. (p + 1) mod 32) [0..<32] ! p" by (simp only: box_places_P)
    then have "box_places ! q = (p + 1) mod 32" using p b by (simp add: q_def)
    then have "bit (place box_places Y) ((p + 1) mod 32) = Y ! q" using bit_place_nth [of box_places Y q] q b Y by simp
    then show "half (l XOR place box_places Y) ! p = xor_bits (half l) (permute fips_P Y) ! p"
      using p b by (simp add: nth_half bit_xor_iff xor_bits_def permute_def q_def)
  qed (simp add: xor_bits_def permute_def b)
qed

end
