(* ===== verification/DesPerm.thy ===== *)
theory DesPerm
  imports DesRound
begin

text \<open>
  The initial and the final permutation of the block cipher: the places that the exchanges of bits between the two words move
  each bit to are those of the standard.
\<close>

subsection \<open>Initial and final permutation\<close>

text \<open>A step is \<open>PERM_OP\<close> on the two words, in one of the two orders.\<close>

fun perm_step :: "bool \<times> nat \<times> u32 \<Rightarrow> u32 \<times> u32 \<Rightarrow> u32 \<times> u32" where
  "perm_step (sw, n, m) (l, r) = (if sw then prod.swap (PERM_OP r l n m) else PERM_OP l r n m)"

fun perm_step_l :: "bool \<times> nat \<times> u32 \<Rightarrow> nat list \<times> nat list \<Rightarrow> nat list \<times> nat list" where
  "perm_step_l (sw, n, m) (A, B) = (if sw then prod.swap (swap_l n (wbits m) B A) else swap_l n (wbits m) A B)"

definition fits :: "bool \<times> nat \<times> u32 \<Rightarrow> bool" where
  "fits s = (let M = wbits (snd (snd s)) in list_all (\<lambda>i. M ! i \<longrightarrow> i + fst (snd s) < 32) [0..<32])"

lemma fits_masks: "fits (b, 4, 0x0f0f0f0f)" "fits (b, 16, 0x0000ffff)" "fits (b, 2, 0x33333333)" "fits (b, 8, 0x00ff00ff)" "fits (b, 1, 0x55555555)"
  by code_simp+

lemma names_step:
  assumes "perm_step s (l, r) = (l', r')" "names l f A" "names r f B" "perm_step_l s (A, B) = (A', B')" "fits s"
  shows "names l' f A' \<and> names r' f B'"
proof -
  obtain sw n m where s: "s = (sw, n, m)" by (cases s)
  then have m: "\<forall>i < 32. wbits m ! i \<longrightarrow> i + n < 32" using assms(5) by (simp add: fits_def list_all_iff)
  show ?thesis
  proof (cases sw)
    case True
    then have "PERM_OP r l n m = (r', l')" "swap_l n (wbits m) B A = (B', A')" using assms(1,4) s by (simp_all add: prod.swap_def prod_eq_iff)
    then show ?thesis using names_PERM_OP [OF _ assms(3,2) refl m] by blast
  next
    case False
    then have "PERM_OP l r n m = (l', r')" "swap_l n (wbits m) A B = (A', B')" using assms(1,4) s by simp_all
    then show ?thesis using names_PERM_OP [OF _ assms(2,3) refl m] by blast
  qed
qed

lemma names_steps:
  "\<lbrakk>fold perm_step ss (l, r) = (l', r'); names l f A; names r f B; fold perm_step_l ss (A, B) = (A', B'); list_all fits ss\<rbrakk>
    \<Longrightarrow> names l' f A' \<and> names r' f B'"
proof (induction ss arbitrary: l r A B)
  case (Cons s ss)
  obtain l1 r1 A1 B1 where "perm_step s (l, r) = (l1, r1)" "perm_step_l s (A, B) = (A1, B1)" by (metis surj_pair)
  then show ?case using Cons.IH [of l1 r1 A1 B1] Cons.prems names_step [of s l r l1 r1 f A B A1 B1] by simp
qed simp

definition IP_steps :: "(bool \<times> nat \<times> u32) list" where
  "IP_steps = [(True, 4, 0x0f0f0f0f), (False, 16, 0x0000ffff), (True, 2, 0x33333333), (False, 8, 0x00ff00ff), (True, 1, 0x55555555)]"

lemma perm_step_eq: "perm_step (sw, n, m) p = (if sw then prod.swap (PERM_OP (snd p) (fst p) n m) else PERM_OP (fst p) (snd p) n m)"
  by (cases p) simp

lemma do_IP_steps: "do_IP l r = fold perm_step IP_steps (l, r)"
  by (simp add: do_IP_def IP_steps_def prod.swap_def split_def Let_def perm_step_eq del: perm_step.simps)

lemma do_FP_steps: "do_FP l r = fold perm_step (rev IP_steps) (l, r)"
  by (simp add: do_FP_def IP_steps_def prod.swap_def split_def Let_def perm_step_eq del: perm_step.simps)

lemma fits_IP: "list_all fits IP_steps" "list_all fits (rev IP_steps)"
  by (simp_all add: IP_steps_def fits_masks del: One_nat_def)

lemma IP_names: "fold perm_step_l IP_steps (byte_names 0, byte_names 4) = (map (\<lambda>i. i - 1) (drop 32 fips_IP), map (\<lambda>i. i - 1) (take 32 fips_IP))"
  by code_simp

lemma IP_fips:
  assumes "length msg = 8" "do_IP (c2l msg 0) (c2l msg 4) = (l, r)"
  shows "wbits r = take 32 (permute fips_IP (bits_of_bytes msg))" "wbits l = drop 32 (permute fips_IP (bits_of_bytes msg))"
proof -
  from names_steps [OF assms(2) [unfolded do_IP_steps] names_c2l names_c2l IP_names fits_IP(1)] assms(1)
  show "wbits r = take 32 (permute fips_IP (bits_of_bytes msg))" "wbits l = drop 32 (permute fips_IP (bits_of_bytes msg))"
    by (simp_all add: names_def permute_def take_map drop_map)
qed

definition byte_order :: "nat list \<Rightarrow> nat list" where
  "byte_order A = map (\<lambda>p. A ! (8 * (p div 8) + (7 - p mod 8))) [0..<32]"

lemma FP_names: "(case fold perm_step_l (rev IP_steps) ([32..<64], [0..<32]) of (A, B) \<Rightarrow> byte_order A @ byte_order B) = map (\<lambda>i. i - 1) fips_FP"
  by code_simp

lemma bits_l2c_names:
  assumes "names w f A"
  shows "bits_of_bytes (l2c w) = map f (byte_order A)"
proof -
  have "bit w (8 * (p div 8) + (7 - p mod 8)) = f (A ! (8 * (p div 8) + (7 - p mod 8)))" if "p < 32" for p
  proof -
    have i: "8 * (p div 8) + (7 - p mod 8) < 32" using that by presburger
    then have "wbits w ! (8 * (p div 8) + (7 - p mod 8)) = map f A ! (8 * (p div 8) + (7 - p mod 8))" using assms by (simp add: names_def)
    then show ?thesis using i assms by (simp add: names_def)
  qed
  then show ?thesis by (simp add: bits_l2c byte_order_def)
qed

lemma bits_of_bytes_append [simp]: "bits_of_bytes (xs @ ys) = bits_of_bytes xs @ bits_of_bytes ys"
  by (simp add: bits_of_bytes_def)

lemma FP_fips:
  assumes "do_FP l r = (l', r')"
  shows "bits_of_bytes (l2c l' @ l2c r') = permute fips_FP (wbits r @ wbits l)"
proof -
  define f where "f = (\<lambda>i. (wbits r @ wbits l) ! i)"
  have n: "names l f [32..<64]" "names r f [0..<32]"
    by (auto simp: names_def f_def nth_append simp del: upt_rec_numeral intro!: nth_equalityI)
  obtain A B where s: "fold perm_step_l (rev IP_steps) ([32..<64], [0..<32]) = (A, B)" by fastforce
  have "names l' f A" "names r' f B" using names_steps [OF assms [unfolded do_FP_steps] n s fits_IP(2)] by simp_all
  then have "bits_of_bytes (l2c l' @ l2c r') = map f (byte_order A @ byte_order B)" by (simp add: bits_l2c_names)
  also have "byte_order A @ byte_order B = map (\<lambda>i. i - 1) fips_FP" using FP_names s by simp
  finally show ?thesis by (simp add: permute_def f_def)
qed

end
