(* ===== verification/DesKeys.thy ===== *)
theory DesKeys
  imports DesPerm
begin

text \<open>
  The key schedule: the permutation of the key, the shifts of its halves and the tables give the round keys of the standard.
\<close>

subsection \<open>The key schedule\<close>

text \<open>A word that holds 28 bits, in the order of the standard from its lowest bit on.\<close>

definition holds :: "u32 \<Rightarrow> bits \<Rightarrow> bool" where
  "holds c C = (length C = 28 \<and> wbits c = C @ replicate 4 False)"

lemma holds_bit:
  assumes "holds c C" "i < 28"
  shows "bit c i \<longleftrightarrow> C ! i"
proof -
  have "wbits c ! i = (C @ replicate 4 False) ! i" using assms by (simp add: holds_def)
  then show ?thesis using assms by (simp add: holds_def nth_append)
qed

lemma holds_high:
  assumes "holds c C" "28 \<le> i"
  shows "\<not> bit c i"
proof (cases "i < 32")
  case True
  have "wbits c ! i = (C @ replicate 4 False) ! i" using assms by (simp add: holds_def)
  then show ?thesis using assms True by (simp add: holds_def nth_append)
qed (use low_bit in blast)

lemma bit_mask_28: "bit (w AND 0x0fffffff) i \<longleftrightarrow> bit (w :: u32) i \<and> i < 28"
proof -
  have "(0x0fffffff :: u32) = Bit_Operations.mask 28" by (simp add: mask_eq_exp_minus_1)
  then show ?thesis by (metis bit_take_bit_iff take_bit_eq_mask and.commute)
qed

lemma holdsI:
  assumes "length C = 28" "\<And>i. i < 28 \<Longrightarrow> bit c i \<longleftrightarrow> C ! i" "\<And>i. 28 \<le> i \<Longrightarrow> \<not> bit c i"
  shows "holds c C"
proof -
  have "wbits c ! i = (C @ replicate 4 False) ! i" if "i < 32" for i
    using assms that by (cases "i < 28") (simp_all add: nth_append)
  then have "wbits c = C @ replicate 4 False" using assms(1) by (intro nth_equalityI) simp_all
  then show ?thesis using assms(1) by (simp add: holds_def)
qed

lemma holds_shift:
  assumes "holds c C"
  shows "holds (key_shift two c) (rotate (if two then 2 else 1) C)"
proof -
  define s :: nat where "s = (if two then 2 else 1)"
  have s: "s = 1 \<or> s = 2" by (simp add: s_def)
  have k: "key_shift two c = (drop_bit s c OR push_bit (28 - s) c) AND 0x0fffffff" by (simp add: key_shift_def s_def)
  have C: "length C = 28" using assms by (simp add: holds_def)
  have e: "bit (key_shift two c) i \<longleftrightarrow> (bit c (s + i) \<or> 28 - s \<le> i \<and> bit c (i - (28 - s))) \<and> i < 28" for i
    unfolding k bit_mask_28 using low_bit [of c "i - (28 - s)"] by (auto simp: bit_or_iff bit_drop_bit_eq bit_push_bit_iff)
  have "bit (key_shift two c) i \<longleftrightarrow> rotate s C ! i" if i: "i < 28" for i
  proof (cases "s + i < 28")
    case True
    then have "\<not> 28 - s \<le> i" by linarith
    moreover have "rotate s C ! i = C ! (s + i)" using True i C by (subst nth_rotate) simp_all
    ultimately show ?thesis using True i holds_bit [OF assms, of "s + i"] unfolding e by blast
  next
    case False
    then have n: "28 - s \<le> i" "i - (28 - s) < 28" "(s + i) mod 28 = i - (28 - s)" using i s by (auto simp: mod_if [of "Suc i"] mod_if [of "Suc (Suc i)"])
    then have "rotate s C ! i = C ! (i - (28 - s))" using i C by (subst nth_rotate) simp_all
    moreover have "\<not> bit c (s + i)" using False by (intro holds_high [OF assms]) simp
    ultimately show ?thesis using n i holds_bit [OF assms n(2)] unfolding e by blast
  qed
  then have "holds (key_shift two c) (rotate s C)" using C by (intro holdsI) (simp_all add: k bit_mask_28)
  then show ?thesis by (simp add: s_def)
qed

text \<open>The bits of \<open>c\<close> and \<open>d\<close> that make the indices, and where the tables put them.\<close>

definition c_bits :: "nat list list" where
  "c_bits = [[0, 1, 2, 3, 4, 5], [6, 7, 9, 10, 11, 12], [13, 14, 15, 16, 18, 19], [20, 22, 23, 25, 26, 27]]"

definition d_bits :: "nat list list" where
  "d_bits = [[0, 1, 2, 3, 4, 5], [7, 8, 10, 11, 12, 13], [15, 16, 17, 18, 19, 20], [21, 22, 23, 24, 26, 27]]"

lemma six_bits: "m AND 0x3f = m \<Longrightarrow> bit (m :: u32) k \<Longrightarrow> k < 6"
  by (metis six_mask)

lemma skb_entry: "\<lbrakk>T < 8; \<forall>k \<ge> 6. \<not> bit (w :: u32) k; map (bit w) [0, 1, 2, 3, 4, 5] = b\<rbrakk> \<Longrightarrow> des_skb ! T ! unat w = place (skb_places ! T) b"
proof -
  assume a: "T < 8" "\<forall>k \<ge> 6. \<not> bit w k" "map (bit w) [0, 1, 2, 3, 4, 5] = b"
  have "[0..<6] = [0, 1, 2, 3, 4, 5 :: nat]" by code_simp
  then have a3: "map (bit w) [0..<6] = b" using a(3) by simp
  have "length skb_places = 8" by (simp add: skb_places_def)
  then have "des_skb ! T = linear (skb_places ! T)" using skb a(1) by (metis nth_map)
  moreover have "length (skb_places ! T) = 6"
  proof -
    have "\<forall>p \<in> set skb_places. length p = 6" by (simp add: skb_places_def)
    then show ?thesis using a(1) \<open>length skb_places = 8\<close> by simp
  qed
  moreover have "length b = 6" using a(3) by auto
  ultimately show ?thesis using unat_six [of w] a(2) a3 by (simp add: linear_place)
qed

lemma index_masks:
  assumes "6 \<le> k" "k < 32"
  shows "\<not> bit (0x03 :: int) k"
    "\<not> bit (0x06 :: int) k"
    "\<not> bit (0x0f :: int) k"
    "\<not> bit (0x30 :: int) k"
    "\<not> bit (0x38 :: int) k"
    "\<not> bit (0x3c :: int) k"
    "\<not> bit (0x3f :: int) k"
  using assms six_bits [where m = "0x03" and k = k] six_bits [where m = "0x06" and k = k] six_bits [where m = "0x0f" and k = k] six_bits [where m = "0x30" and k = k]
    six_bits [where m = "0x38" and k = k] six_bits [where m = "0x3c" and k = k] six_bits [where m = "0x3f" and k = k]
  by auto

lemma skb_c: fixes c :: u32 shows
  "des_skb ! 0 ! unat (c AND 0x3f) = place (skb_places ! 0) (map (bit c) (c_bits ! 0))"
  "des_skb ! 1 ! unat ((drop_bit 6 c AND 0x03) OR (drop_bit 7 c AND 0x3c)) = place (skb_places ! 1) (map (bit c) (c_bits ! 1))"
  "des_skb ! 2 ! unat ((drop_bit 13 c AND 0x0f) OR (drop_bit 14 c AND 0x30)) = place (skb_places ! 2) (map (bit c) (c_bits ! 2))"
  "des_skb ! 3 ! unat ((drop_bit 20 c AND 0x01) OR (drop_bit 21 c AND 0x06) OR (drop_bit 22 c AND 0x38)) = place (skb_places ! 3) (map (bit c) (c_bits ! 3))"
  by ((rule skb_entry; simp add: c_bits_def bit_and_iff bit_or_iff bit_drop_bit_eq index_masks bit_1_iff)+)

lemma skb_d: fixes d :: u32 shows
  "des_skb ! 4 ! unat (d AND 0x3f) = place (skb_places ! 4) (map (bit d) (d_bits ! 0))"
  "des_skb ! 5 ! unat ((drop_bit 7 d AND 0x03) OR (drop_bit 8 d AND 0x3c)) = place (skb_places ! 5) (map (bit d) (d_bits ! 1))"
  "des_skb ! 6 ! unat (drop_bit 15 d AND 0x3f) = place (skb_places ! 6) (map (bit d) (d_bits ! 2))"
  "des_skb ! 7 ! unat ((drop_bit 21 d AND 0x0f) OR (drop_bit 22 d AND 0x30)) = place (skb_places ! 7) (map (bit d) (d_bits ! 3))"
  by ((rule skb_entry; simp add: d_bits_def bit_and_iff bit_or_iff bit_drop_bit_eq index_masks bit_1_iff)+)

text \<open>The two words that the tables give, and the word and the place of a bit of the key in them.\<close>

abbreviation c_word :: "u32 \<Rightarrow> u32" where
  "c_word c \<equiv> place (concat (take 4 skb_places)) (map (bit c) (concat c_bits))"

abbreviation d_word :: "u32 \<Rightarrow> u32" where
  "d_word d \<equiv> place (concat (drop 4 skb_places)) (map (bit d) (concat d_bits))"

lemma four_places:
  assumes "\<forall>(ps, bs) \<in> set (zip pss bss). length ps = length bs" "length pss = 4" "length bss = 4"
  shows "place (concat pss) (map g (concat bss)) = place (pss ! 0) (map g (bss ! 0)) OR place (pss ! 1) (map g (bss ! 1))
      OR place (pss ! 2) (map g (bss ! 2)) OR place (pss ! 3) (map g (bss ! 3))"
proof -
  obtain p0 p1 p2 p3 where p: "pss = [p0, p1, p2, p3]" using assms(2) by (auto simp: length_Suc_conv numeral_eq_Suc)
  obtain b0 b1 b2 b3 where b: "bss = [b0, b1, b2, b3]" using assms(3) by (auto simp: length_Suc_conv numeral_eq_Suc)
  from assms(1) show ?thesis unfolding p b by (simp add: place_append or.assoc)
qed

lemma round_key_words:
  "round_key c d = (let s = c_word c; t = d_word d; s' = drop_bit 16 s OR (t AND 0xffff0000)
     in (push_bit 16 t OR (s AND 0x0000ffff), push_bit 4 s' OR drop_bit 28 s'))"
proof -
  have s: "c_word c = place (skb_places ! 0) (map (bit c) (c_bits ! 0)) OR place (skb_places ! 1) (map (bit c) (c_bits ! 1))
      OR place (skb_places ! 2) (map (bit c) (c_bits ! 2)) OR place (skb_places ! 3) (map (bit c) (c_bits ! 3))"
    by (subst four_places) (simp_all add: skb_places_def c_bits_def)
  have t: "d_word d = place (skb_places ! 4) (map (bit d) (d_bits ! 0)) OR place (skb_places ! 5) (map (bit d) (d_bits ! 1))
      OR place (skb_places ! 6) (map (bit d) (d_bits ! 2)) OR place (skb_places ! 7) (map (bit d) (d_bits ! 3))"
    by (subst four_places) (simp_all add: skb_places_def d_bits_def)
  have "(0xffffffff :: u32) = - 1" by simp
  then have f: "w AND 0xffffffff = (w :: u32)" for w by (simp only: and.right_neutral)
  show ?thesis unfolding round_key_def skb_c skb_d s t f Let_def ..
qed

definition key_place :: "nat \<Rightarrow> nat \<Rightarrow> bool \<times> nat" where
  "key_place j i = (let q = (4 * j + i) mod 32; p = (28 + q) mod 32
     in if even j then if q < 16 then (False, q) else (True, q - 16) else if p < 16 then (False, p + 16) else (True, p))"

lemma key_place_bit:
  assumes "round_key c d = (k0, k1)" "key_place j i = (w, p)"
  shows "bit (if even j then k0 else k1) ((4 * j + i) mod 32) = bit (if w then d_word d else c_word c) p"
proof -
  define s where "s = c_word c"
  define t where "t = d_word d"
  define s' where "s' = drop_bit 16 s OR (t AND 0xffff0000)"
  define q where "q = (4 * j + i) mod 32"
  have q: "q < 32" by (simp add: q_def)
  have k: "k0 = push_bit 16 t OR (s AND 0x0000ffff)" "k1 = push_bit 4 s' OR drop_bit 28 s'"
    using assms(1) unfolding round_key_words Let_def s_def [symmetric] t_def [symmetric] s'_def [symmetric] by simp_all
  have m: "bit (0x0000ffff :: u32) q \<longleftrightarrow> q < 16"
  proof -
    have "wbits 0x0000ffff ! q = (replicate 16 True @ replicate 16 False) ! q" by (simp only: des_masks)
    then show ?thesis using q by (simp add: nth_append del: bit_numeral_word_iff)
  qed
  have m': "bit (0xffff0000 :: u32) n \<longleftrightarrow> 16 \<le> n" if "n < 32" for n
  proof -
    have "wbits 0xffff0000 = replicate 16 False @ replicate 16 True" by code_simp
    then have "wbits 0xffff0000 ! n = (replicate 16 False @ replicate 16 True) ! n" by simp
    then show ?thesis using that by (simp add: nth_append del: bit_numeral_word_iff)
  qed
  show ?thesis
  proof (cases "even j")
    case True
    have "bit k0 q = (if q < 16 then bit s q else bit t (q - 16))" using q by (auto simp: k bit_or_iff bit_and_iff bit_push_bit_iff m simp del: bit_numeral_word_iff)
    then show ?thesis using True assms(2) by (auto simp: key_place_def q_def [symmetric] Let_def s_def t_def split: if_splits)
  next
    case False
    define n where "n = (28 + q) mod 32"
    have n: "n < 32" by (simp add: n_def)
    have "wbits k1 ! q = rotate 28 (wbits s') ! q" by (simp only: k wbits_shift)
    then have "bit k1 q = bit s' n" using q by (simp add: nth_rotate n_def)
    also have "\<dots> = (if n < 16 then bit s (n + 16) else bit t n)"
      using low_bit [of s "n + 16"] n by (auto simp: s'_def bit_or_iff bit_and_iff bit_drop_bit_eq m' add.commute simp del: bit_numeral_word_iff)
    finally show ?thesis using False assms(2) by (auto simp: key_place_def q_def [symmetric] n_def [symmetric] Let_def s_def t_def split: if_splits)
  qed
qed

fun source_ok :: "bool \<times> nat \<Rightarrow> nat \<Rightarrow> bool" where
  "source_ok (w, p) n = (if w then 28 \<le> n \<and> n < 56 \<and> (p, n - 28) \<in> set (zip (concat (drop 4 skb_places)) (concat d_bits))
     else n < 28 \<and> (p, n) \<in> set (zip (concat (take 4 skb_places)) (concat c_bits)))"

lemma PC2_places: "list_all (\<lambda>j. list_all (\<lambda>i. source_ok (key_place j i) (fips_PC2 ! (6 * j + i) - 1)) [0..<6]) [0..<8]"
  by code_simp

lemma PC2_split: "concat (map (\<lambda>j. map (\<lambda>i. fips_PC2 ! (6 * j + i)) [0..<6]) [0..<8]) = fips_PC2"
  by code_simp

lemma place_bit:
  assumes "(p, n) \<in> set (zip ps ns)" "length ps = length ns" "distinct ps" "\<forall>p \<in> set ps. p < 32"
  shows "bit (place ps (map g ns)) p \<longleftrightarrow> g n"
proof -
  from assms(1) obtain q where q: "q < length ps" "ps ! q = p" "ns ! q = n" using assms(2) by (auto simp: in_set_zip)
  then have "ps ! q < 32" using assms(4) nth_mem by blast
  then have "bit (place ps (map g ns)) (ps ! q) = map g ns ! q" using assms q by (intro bit_place_nth) simp_all
  then show ?thesis using q assms(2) by simp
qed

lemma round_key_fips:
  assumes "holds c C" "holds d D"
  shows "key_bits (round_key c d) = permute fips_PC2 (C @ D)"
proof -
  obtain k0 k1 where k: "round_key c d = (k0, k1)" by fastforce
  have C: "length C = 28" using assms(1) by (simp add: holds_def)
  have "round_bits (k0, k1) j = map (\<lambda>i. (C @ D) ! (fips_PC2 ! (6 * j + i) - 1)) [0..<6]" if j: "j < 8" for j
    unfolding round_bits_def
  proof (rule map_cong [OF refl])
    fix i assume "i \<in> set [0..<6]"
    then have i: "i < 6" by simp
    obtain w p where wp: "key_place j i = (w, p)" by fastforce
    define n where "n = fips_PC2 ! (6 * j + i) - 1"
    have ok: "source_ok (w, p) n" using PC2_places i j unfolding list_all_iff n_def wp [symmetric] by simp
    have "bit (if w then d_word d else c_word c) p = (C @ D) ! n"
    proof (cases w)
      case True
      have "bit (d_word d) p = bit d (n - 28)"
        by (rule place_bit) (use True ok in \<open>simp_all add: skb_places_def d_bits_def\<close>)
      moreover have "n - 28 < 28" using True ok by simp linarith
      ultimately show ?thesis using True ok holds_bit [OF assms(2), of "n - 28"] C by (simp add: nth_append)
    next
      case False
      have "bit (c_word c) p = bit c n"
        by (rule place_bit) (use False ok in \<open>simp_all add: skb_places_def c_bits_def\<close>)
      then show ?thesis using False ok holds_bit [OF assms(1), of n] C by (simp add: nth_append)
    qed
    then show "bit (if even j then fst (k0, k1) else snd (k0, k1)) ((4 * j + i) mod 32) = (C @ D) ! (fips_PC2 ! (6 * j + i) - 1)"
      using key_place_bit [OF k wp] unfolding fst_conv snd_conv n_def by (simp only:)
  qed
  then have "key_bits (k0, k1) = concat (map (\<lambda>j. map (\<lambda>i. (C @ D) ! (fips_PC2 ! (6 * j + i) - 1)) [0..<6]) [0..<8])"
    unfolding key_bits_def by (intro arg_cong [of _ _ concat] map_cong) simp_all
  also have "\<dots> = map (\<lambda>m. (C @ D) ! (m - 1)) (concat (map (\<lambda>j. map (\<lambda>i. fips_PC2 ! (6 * j + i)) [0..<6]) [0..<8]))"
    by (simp add: map_concat comp_def)
  finally show ?thesis by (simp add: k PC2_split permute_def)
qed

lemma key_loop_fips: "\<lbrakk>holds c C; holds d D\<rbrakk>
    \<Longrightarrow> map key_bits (key_loop ss c d) = fips_schedule (map (\<lambda>two. if two then 2 else 1) ss) C D"
proof (induction ss arbitrary: c d C D)
  case (Cons two ss)
  let ?c = "key_shift two c" and ?d = "key_shift two d" and ?s = "if two then 2 else 1 :: nat"
  have h: "holds ?c (rotate ?s C)" "holds ?d (rotate ?s D)" using holds_shift Cons.prems by blast+
  have "map key_bits (key_loop (two # ss) c d) = key_bits (round_key ?c ?d) # map key_bits (key_loop ss ?c ?d)" by (simp add: Let_def)
  also have "\<dots> = permute fips_PC2 (rotate ?s C @ rotate ?s D) # fips_schedule (map (\<lambda>two. if two then 2 else 1) ss) (rotate ?s C) (rotate ?s D)"
    using round_key_fips [OF h] Cons.IH [OF h] by simp
  finally show ?case by (simp add: Let_def)
qed simp

text \<open>The permutation ahead of the schedule, in two halves around the two \<open>HPERM_OP\<close>.\<close>

definition key_steps :: "(bool \<times> nat \<times> u32) list" where
  "key_steps = [(True, 1, 0x55555555), (False, 8, 0x00ff00ff), (True, 1, 0x55555555)]"

lemma fits_key: "list_all fits key_steps"
  by (simp add: key_steps_def fits_masks del: One_nat_def)

lemma key_permute_steps:
  "key_permute c d =
     (let (c, d) = perm_step (True, 4, 0x0f0f0f0f) (c, d);
          (c, d) = fold perm_step key_steps (HPERM_OP c (- 2) 0xcccc0000, HPERM_OP d (- 2) 0xcccc0000);
          d = push_bit 16 (d AND 0x000000ff) OR (d AND 0x0000ff00) OR drop_bit 16 (d AND 0x00ff0000) OR drop_bit 4 (c AND 0xf0000000)
      in (c AND 0x0fffffff, d))"
  by (simp add: key_permute_def key_steps_def prod.swap_def split_def Let_def perm_step_eq del: perm_step.simps)

lemma key_masks:
  "wbits 0x000000ff = replicate 8 True @ replicate 24 False" "wbits 0x0000ff00 = replicate 8 False @ replicate 8 True @ replicate 16 False"
  "wbits 0x00ff0000 = replicate 16 False @ replicate 8 True @ replicate 8 False" "wbits 0xf0000000 = replicate 28 False @ replicate 4 True"
  by code_simp+

lemma key_d_bits:
  "wbits (push_bit 16 (d AND 0x000000ff) OR (d AND 0x0000ff00) OR drop_bit 16 (d AND 0x00ff0000) OR drop_bit 4 (c AND 0xf0000000))
     = map (bit d) ([16..<24] @ [8..<16] @ [0..<8]) @ map (bit c) [28..<32] @ replicate 4 False"
    (is "wbits ?w = ?r")
proof (rule nth_equalityI)
  fix i assume "i < length (wbits ?w)"
  then have i: "i < 32" by simp
  have m: "bit m n \<longleftrightarrow> n < 32 \<and> wbits m ! n" for m n using low_bit [of m n] by auto
  have "bit ?w i \<longleftrightarrow> (16 \<le> i \<and> i < 24 \<and> bit d (i - 16)) \<or> (8 \<le> i \<and> i < 16 \<and> bit d i) \<or> (i < 8 \<and> bit d (16 + i)) \<or> (24 \<le> i \<and> i < 28 \<and> bit c (4 + i))"
    unfolding bit_or_iff bit_and_iff bit_push_bit_iff bit_drop_bit_eq comp_def
    using i by (auto simp: m [of "0x000000ff"] m [of "0x0000ff00"] m [of "0x00ff0000"] m [of "0xf0000000"]
        key_masks nth_append simp del: bit_numeral_word_iff split: if_splits)
  moreover have "?r ! i \<longleftrightarrow> (16 \<le> i \<and> i < 24 \<and> bit d (i - 16)) \<or> (8 \<le> i \<and> i < 16 \<and> bit d i) \<or> (i < 8 \<and> bit d (16 + i)) \<or> (24 \<le> i \<and> i < 28 \<and> bit c (4 + i))"
    using i by (auto simp: nth_append simp del: upt_rec_numeral)
  ultimately show "wbits ?w ! i = ?r ! i" using i by simp
qed simp

lemma PC1_names:
  "(let (A, B) = perm_step_l (True, 4, 0x0f0f0f0f) (byte_names 0, byte_names 4);
        M = wbits 0xcccc0000;
        (A, B) = fold perm_step_l key_steps (hswap_l 18 M A, hswap_l 18 M B)
    in take 28 A @ map ((!) B) ([16..<24] @ [8..<16] @ [0..<8]) @ map ((!) A) [28..<32]) = map (\<lambda>i. i - 1) fips_PC1"
  by code_simp

lemma hswap_fits: "\<forall>i < 32. wbits 0xcccc0000 ! i \<longrightarrow> 18 \<le> i \<and> (i + 18 < 32 \<longrightarrow> \<not> wbits 0xcccc0000 ! (i + 18))"
proof -
  have "list_all (\<lambda>i. wbits 0xcccc0000 ! i \<longrightarrow> 18 \<le> i \<and> (i + 18 < 32 \<longrightarrow> \<not> wbits 0xcccc0000 ! (i + 18))) [0..<32]" by code_simp
  then show ?thesis by (simp add: list_all_iff)
qed

lemma key_permute_fips:
  assumes "length k8 = 8" "key_permute (c2l k8 0) (c2l k8 4) = (c, d)"
  shows "holds c (take 28 (permute fips_PC1 (bits_of_bytes k8)))" "holds d (drop 28 (permute fips_PC1 (bits_of_bytes k8)))"
proof -
  define f where "f = (\<lambda>i. bits_of_bytes k8 ! i)"
  let ?M = "wbits 0xcccc0000"
  obtain c1 d1 A1 B1 where 1: "perm_step (True, 4, 0x0f0f0f0f) (c2l k8 0, c2l k8 4) = (c1, d1)"
    "perm_step_l (True, 4, 0x0f0f0f0f) (byte_names 0, byte_names 4) = (A1, B1)" by (metis surj_pair)
  obtain c2 d2 A2 B2 where 2: "fold perm_step key_steps (HPERM_OP c1 (- 2) 0xcccc0000, HPERM_OP d1 (- 2) 0xcccc0000) = (c2, d2)"
    "fold perm_step_l key_steps (hswap_l 18 ?M A1, hswap_l 18 ?M B1) = (A2, B2)" by (metis surj_pair)
  have n1: "names c1 f A1" "names d1 f B1"
    using names_step [OF 1(1) _ _ 1(2) fits_masks(1)] names_c2l [of 0 k8] names_c2l [of 4 k8] assms(1) by (simp_all add: f_def)
  have h: "names (HPERM_OP c1 (- 2) 0xcccc0000) f (hswap_l 18 ?M A1)" "names (HPERM_OP d1 (- 2) 0xcccc0000) f (hswap_l 18 ?M B1)"
    using names_HPERM_OP [OF n1(1) refl hswap_fits refl] names_HPERM_OP [OF n1(2) refl hswap_fits refl] by blast+
  have n2: "names c2 f A2" "names d2 f B2" using names_steps [OF 2(1) h 2(2) fits_key] by blast+
  then have b: "bit c2 i = f (A2 ! i)" "bit d2 i = f (B2 ! i)" if "i < 32" for i using that by (metis names_def nth_map nth_wbits)+
  have l: "length A2 = 32" using n2 by (simp add: names_def)
  have P: "map f (take 28 A2 @ map ((!) B2) ([16..<24] @ [8..<16] @ [0..<8]) @ map ((!) A2) [28..<32]) = permute fips_PC1 (bits_of_bytes k8)"
    using PC1_names unfolding Let_def 1(2) 2(2) prod.case by (simp only: map_map comp_def permute_def f_def)
  have c: "c = c2 AND 0x0fffffff" and d: "d = push_bit 16 (d2 AND 0x000000ff) OR (d2 AND 0x0000ff00) OR drop_bit 16 (d2 AND 0x00ff0000) OR drop_bit 4 (c2 AND 0xf0000000)"
    using assms(2) unfolding key_permute_steps Let_def 1(1) prod.case 2(1) prod.inject by (simp_all only:)
  have "holds c (map f (take 28 A2))" using l by (intro holdsI) (simp_all add: c bit_mask_28 b)
  moreover have "map f (take 28 A2) = take 28 (permute fips_PC1 (bits_of_bytes k8))"
    using l by (simp add: P [symmetric] del: upt_rec_numeral)
  ultimately show "holds c (take 28 (permute fips_PC1 (bits_of_bytes k8)))" by simp
  have "wbits d = map f (map ((!) B2) ([16..<24] @ [8..<16] @ [0..<8]) @ map ((!) A2) [28..<32]) @ replicate 4 False"
    unfolding d key_d_bits using b by (simp del: upt_rec_numeral)
  moreover have "map f (map ((!) B2) ([16..<24] @ [8..<16] @ [0..<8]) @ map ((!) A2) [28..<32]) = drop 28 (permute fips_PC1 (bits_of_bytes k8))"
    using l by (simp add: P [symmetric] del: upt_rec_numeral)
  moreover have "length (drop 28 (permute fips_PC1 (bits_of_bytes k8))) = 28" by (simp add: permute_def fips_PC1_def)
  ultimately show "holds d (drop 28 (permute fips_PC1 (bits_of_bytes k8)))" by (simp add: holds_def)
qed

lemma parity_bits:
  assumes "length key = 7"
  shows "bits_of_bytes (key7TOkey8 key) = with_parity (bits_of_bytes key)"
proof -
  obtain a b c d e f g where k: "key = [a, b, c, d, e, f, g]" using assms by (auto simp: length_Suc_conv numeral_eq_Suc)
  have u: "[0..<8] = [0, 1, 2, 3, 4, 5, 6, 7 :: nat]" by code_simp
  show ?thesis unfolding k by (simp add: key7TOkey8_def bits_of_bytes_def u bit_simps high_bit del: push_bit_Suc) (simp add: eval_nat_numeral)
qed

lemma length_key_loop [simp]: "length (key_loop ss c d) = length ss"
  by (induction ss c d rule: key_loop.induct) (simp_all add: Let_def)

lemma createkeys_fips:
  assumes "length key = 7"
  shows "map key_bits (DES_createkeys key) = fips_keys (with_parity (bits_of_bytes key))" "length (DES_createkeys key) = 16"
proof -
  let ?k8 = "key7TOkey8 key"
  obtain c d where p: "key_permute (c2l ?k8 0) (c2l ?k8 4) = (c, d)" by fastforce
  then have e: "DES_createkeys key = key_loop shifts c d" by (simp add: DES_createkeys_def)
  have "length ?k8 = 8" by (simp add: key7TOkey8_def)
  note h = key_permute_fips [OF this p]
  have "map (\<lambda>two. if two then 2 else 1) shifts = fips_shifts" by (simp add: shifts_def fips_shifts_def)
  then show "map key_bits (DES_createkeys key) = fips_keys (with_parity (bits_of_bytes key))"
    unfolding e key_loop_fips [OF h] by (simp add: fips_keys_def parity_bits [OF assms] Let_def)
  show "length (DES_createkeys key) = 16" unfolding e length_key_loop by (simp add: shifts_def)
qed

end
