(* ===== verification/DesFips.thy ===== *)
theory DesFips
  imports DesKeys
begin

text \<open>
  The block cipher of the SMB log-in is the Data Encryption Standard.
\<close>

subsection \<open>The cipher\<close>

lemma des_loop_fips:
  "\<lbrakk>even (length ks); des_loop ks (l, r) = (l', r')\<rbrakk>
    \<Longrightarrow> fold (\<lambda>K (L, R). (R, xor_bits L (fips_f R K))) (map key_bits ks) (half l, half r) = (half l', half r')"
proof (induction ks "(l, r)" arbitrary: l r rule: des_loop.induct)
  case (1 k1 k2 ks l r)
  then show ?case by (simp add: Let_def D_ENCRYPT_fips)
qed auto

lemma half_rotate: "half (push_bit 1 w OR drop_bit 31 w) = wbits w"
  unfolding half_def wbits_shift by (simp add: rotate_rotate del: rotate_Suc One_nat_def)

lemma des_agrees:
  assumes "length key = 7" "length message = 8"
  shows "bits_of_bytes (DES key message) = fips_des (with_parity (bits_of_bytes key)) (bits_of_bytes message)"
proof -
  obtain l r where ip: "do_IP (c2l message 0) (c2l message 4) = (l, r)" by fastforce
  obtain l2 r2 where lp: "des_loop (DES_createkeys key) (push_bit 1 r OR drop_bit 31 r, push_bit 1 l OR drop_bit 31 l) = (l2, r2)" by fastforce
  obtain l3 r3 where fp: "do_FP (drop_bit 1 l2 OR push_bit 31 l2) (drop_bit 1 r2 OR push_bit 31 r2) = (l3, r3)" by fastforce
  have "DES key message = l2c l3 @ l2c r3" unfolding DES_def Let_def ip prod.case lp fp ..
  also have "bits_of_bytes \<dots> = permute fips_FP (half r2 @ half l2)"
    using FP_fips [OF fp] by (simp only: wbits_shift half_def)
  finally have d: "bits_of_bytes (DES key message) = permute fips_FP (half r2 @ half l2)" .
  let ?b = "permute fips_IP (bits_of_bytes message)"
  have "fold (\<lambda>K (L, R). (R, xor_bits L (fips_f R K))) (map key_bits (DES_createkeys key)) (take 32 ?b, drop 32 ?b) = (half l2, half r2)"
    using des_loop_fips [OF _ lp, unfolded half_rotate] createkeys_fips(2) [OF assms(1)] IP_fips [OF assms(2) ip] by simp
  then show ?thesis unfolding d fips_des_def Let_def createkeys_fips(1) [OF assms(1), symmetric] by simp
qed

text \<open>
  C23. For a key of seven bytes and a block of eight, the cipher gives the block that the standard gives for the key with a zero bit
  behind each group of seven.
\<close>

theorem des_fips:
  assumes "length key = 7" "length message = 8"
  shows "bits_of_bytes (DES key message) = fips_des (with_parity (bits_of_bytes key)) (bits_of_bytes message)"
  using assms by (rule des_agrees)

theorem des_fips_witness:
  "bits_of_bytes (DES [0x50, 0x41, 0x53, 0x53, 0x57, 0x4F, 0x52] [0x4B, 0x47, 0x53, 0x21, 0x40, 0x23, 0x24, 0x25])
    = fips_des (with_parity (bits_of_bytes [0x50, 0x41, 0x53, 0x53, 0x57, 0x4F, 0x52])) (bits_of_bytes [0x4B, 0x47, 0x53, 0x21, 0x40, 0x23, 0x24, 0x25])"
  by (rule des_fips) simp_all

end
