(* ===== verification/Md4.thy ===== *)
theory Md4
  imports Prelude
begin

text \<open>
  The message digest MD4 (\<open>src/modules/network/smbinit/md4.c\<close>) and its definition in RFC 1320, with
  the proof that they agree.  Bytes and numbers are words; a number is stored with its low byte first.
\<close>

subsection \<open>The code\<close>

definition rotl32 :: "u32 \<Rightarrow> nat \<Rightarrow> u32" where
  "rotl32 t s = (push_bit s t AND 0xFFFFFFFF) OR drop_bit (32 - s) t"

definition FF :: "u32 \<Rightarrow> u32 \<Rightarrow> u32 \<Rightarrow> u32 \<Rightarrow> u32 \<Rightarrow> nat \<Rightarrow> u32" where
  "FF a b c d x s = rotl32 ((a + ((b AND c) OR (NOT b AND d)) + x) AND 0xFFFFFFFF) s"

definition GG :: "u32 \<Rightarrow> u32 \<Rightarrow> u32 \<Rightarrow> u32 \<Rightarrow> u32 \<Rightarrow> nat \<Rightarrow> u32" where
  "GG a b c d x s = rotl32 ((a + ((b AND c) OR (b AND d) OR (c AND d)) + x + 0x5A827999) AND 0xFFFFFFFF) s"

definition HH :: "u32 \<Rightarrow> u32 \<Rightarrow> u32 \<Rightarrow> u32 \<Rightarrow> u32 \<Rightarrow> nat \<Rightarrow> u32" where
  "HH a b c d x s = rotl32 ((a + (b XOR c XOR d) + x + 0x6ED9EBA1) AND 0xFFFFFFFF) s"

type_synonym md4_context = "u32 \<times> u32 \<times> u32 \<times> u32"

definition le32 :: "u8 list \<Rightarrow> nat \<Rightarrow> u32" where
  "le32 block i = push_bit 24 (ucast (block ! (i * 4 + 3))) OR push_bit 16 (ucast (block ! (i * 4 + 2)))
     OR push_bit 8 (ucast (block ! (i * 4 + 1))) OR ucast (block ! (i * 4))"

definition round1 :: "u32 list \<Rightarrow> md4_context \<Rightarrow> md4_context" where
  "round1 X = (\<lambda>(A, B, C, D).
     let A = FF A B C D (X ! 0) 3; D = FF D A B C (X ! 1) 7;
        C = FF C D A B (X ! 2) 11; B = FF B C D A (X ! 3) 19;
        A = FF A B C D (X ! 4) 3; D = FF D A B C (X ! 5) 7;
        C = FF C D A B (X ! 6) 11; B = FF B C D A (X ! 7) 19;
        A = FF A B C D (X ! 8) 3; D = FF D A B C (X ! 9) 7;
        C = FF C D A B (X ! 10) 11; B = FF B C D A (X ! 11) 19;
        A = FF A B C D (X ! 12) 3; D = FF D A B C (X ! 13) 7;
        C = FF C D A B (X ! 14) 11; B = FF B C D A (X ! 15) 19
     in (A, B, C, D))"

definition round2 :: "u32 list \<Rightarrow> md4_context \<Rightarrow> md4_context" where
  "round2 X = (\<lambda>(A, B, C, D).
     let A = GG A B C D (X ! 0) 3; D = GG D A B C (X ! 4) 5;
        C = GG C D A B (X ! 8) 9; B = GG B C D A (X ! 12) 13;
        A = GG A B C D (X ! 1) 3; D = GG D A B C (X ! 5) 5;
        C = GG C D A B (X ! 9) 9; B = GG B C D A (X ! 13) 13;
        A = GG A B C D (X ! 2) 3; D = GG D A B C (X ! 6) 5;
        C = GG C D A B (X ! 10) 9; B = GG B C D A (X ! 14) 13;
        A = GG A B C D (X ! 3) 3; D = GG D A B C (X ! 7) 5;
        C = GG C D A B (X ! 11) 9; B = GG B C D A (X ! 15) 13
     in (A, B, C, D))"

definition round3 :: "u32 list \<Rightarrow> md4_context \<Rightarrow> md4_context" where
  "round3 X = (\<lambda>(A, B, C, D).
     let A = HH A B C D (X ! 0) 3; D = HH D A B C (X ! 8) 9;
        C = HH C D A B (X ! 4) 11; B = HH B C D A (X ! 12) 15;
        A = HH A B C D (X ! 2) 3; D = HH D A B C (X ! 10) 9;
        C = HH C D A B (X ! 6) 11; B = HH B C D A (X ! 14) 15;
        A = HH A B C D (X ! 1) 3; D = HH D A B C (X ! 9) 9;
        C = HH C D A B (X ! 5) 11; B = HH B C D A (X ! 13) 15;
        A = HH A B C D (X ! 3) 3; D = HH D A B C (X ! 11) 9;
        C = HH C D A B (X ! 7) 11; B = HH B C D A (X ! 15) 15
     in (A, B, C, D))"

definition transform :: "u8 list \<Rightarrow> md4_context \<Rightarrow> md4_context" where
  "transform block ctx =
     (let X = map (le32 block) [0..<16]; (A, B, C, D) = round3 X (round2 X (round1 X ctx)); (a, b, c, d) = ctx
      in ((a + A) AND 0xFFFFFFFF, (b + B) AND 0xFFFFFFFF, (c + C) AND 0xFFFFFFFF, (d + D) AND 0xFFFFFFFF))"

definition engineReset :: md4_context where
  "engineReset = (0x67452301, 0xEFCDAB89, 0x98BADCFE, 0x10325476)"

definition store32 :: "u32 \<Rightarrow> u8 list" where
  "store32 w = [ucast w, ucast (drop_bit 8 w), ucast (drop_bit 16 w), ucast (drop_bit 24 w)]"

text \<open>The loop over whole blocks: the ctx and what is left of the message, of 64 bytes at most.\<close>

function md4_blocks :: "u8 list \<Rightarrow> md4_context \<Rightarrow> md4_context \<times> u8 list" where
  "md4_blocks message ctx =
     (if 64 < length message then md4_blocks (drop 64 message) (transform (take 64 message) ctx) else (ctx, message))"
  by auto
termination by (relation "measure (\<lambda>(m, c). length m)") auto

declare md4_blocks.simps [simp del]

definition md4_tail :: "u8 list \<Rightarrow> u32 \<Rightarrow> md4_context \<Rightarrow> md4_context" where
  "md4_tail message b ctx =
     (let buffer = write_at (replicate 128 0) 0 message; buffer = buffer[length message := 0x80]
      in if length message < 56 then transform (take 64 (write_at buffer 56 (store32 b))) ctx
         else let buffer = write_at buffer 120 (store32 b) in transform (drop 64 buffer) (transform (take 64 buffer) ctx))"

definition MD4 :: "u8 list \<Rightarrow> u8 list" where
  "MD4 message =
     (let b = of_nat (length message * 8); (ctx, rest) = md4_blocks message engineReset; (A, B, C, D) = md4_tail rest b ctx
      in store32 A @ store32 B @ store32 C @ store32 D)"

subsection \<open>RFC 1320\<close>

text \<open>
  Padding to whole blocks with the length in bits as a number of 64 bits; for each block three rounds of sixteen steps, where a
  step computes one register and the registers change their roles in turn.
\<close>

definition rfc_word :: "u8 list \<Rightarrow> u32" where
  "rfc_word bs = of_nat (\<Sum>i<4. unat (bs ! i) * 256 ^ i)"

definition rfc_bytes :: "nat \<Rightarrow> nat \<Rightarrow> u8 list" where
  "rfc_bytes k n = map (\<lambda>i. of_nat (n div 256 ^ i)) [0..<k]"

definition rfc_pad :: "u8 list \<Rightarrow> u8 list" where
  "rfc_pad m = m @ [0x80] @ replicate (nat ((55 - int (length m)) mod 64)) 0
     @ rfc_bytes 8 (8 * length m)"

definition rfc_F :: "u32 \<Rightarrow> u32 \<Rightarrow> u32 \<Rightarrow> u32" where "rfc_F x y z = (x AND y) OR (NOT x AND z)"
definition rfc_G :: "u32 \<Rightarrow> u32 \<Rightarrow> u32 \<Rightarrow> u32" where "rfc_G x y z = (x AND y) OR (x AND z) OR (y AND z)"
definition rfc_H :: "u32 \<Rightarrow> u32 \<Rightarrow> u32 \<Rightarrow> u32" where "rfc_H x y z = x XOR y XOR z"

definition rfc_step :: "(u32 \<Rightarrow> u32 \<Rightarrow> u32 \<Rightarrow> u32) \<Rightarrow> u32 \<Rightarrow> u32 list \<Rightarrow> nat \<times> nat \<Rightarrow> md4_context \<Rightarrow> md4_context" where
  "rfc_step f const X = (\<lambda>(k, s) (A, B, C, D). (D, word_rotl s (A + f B C D + X ! k + const), B, C))"

definition rfc_round :: "(u32 \<Rightarrow> u32 \<Rightarrow> u32 \<Rightarrow> u32) \<Rightarrow> u32 \<Rightarrow> nat list \<Rightarrow> nat list \<Rightarrow> u32 list \<Rightarrow> md4_context \<Rightarrow> md4_context" where
  "rfc_round f const ks ss X = fold (rfc_step f const X) (zip ks (concat (replicate 4 ss)))"

definition rfc_block :: "u8 list \<Rightarrow> md4_context \<Rightarrow> md4_context" where
  "rfc_block block ctx =
     (let X = map (\<lambda>i. rfc_word (take 4 (drop (4 * i) block))) [0..<16];
          (A, B, C, D) = (rfc_round rfc_H 0x6ED9EBA1 [0, 8, 4, 12, 2, 10, 6, 14, 1, 9, 5, 13, 3, 11, 7, 15] [3, 9, 11, 15] X
            \<circ> rfc_round rfc_G 0x5A827999 [0, 4, 8, 12, 1, 5, 9, 13, 2, 6, 10, 14, 3, 7, 11, 15] [3, 5, 9, 13] X
            \<circ> rfc_round rfc_F 0 [0..<16] [3, 7, 11, 19] X) ctx;
          (a, b, c, d) = ctx
      in (a + A, b + B, c + C, d + D))"

fun rfc_blocks :: "nat \<Rightarrow> u8 list \<Rightarrow> md4_context \<Rightarrow> md4_context" where
  "rfc_blocks 0 m ctx = ctx"
| "rfc_blocks (Suc n) m ctx = rfc_blocks n (drop 64 m) (rfc_block (take 64 m) ctx)"

definition rfc_md4 :: "u8 list \<Rightarrow> u8 list" where
  "rfc_md4 m = (let p = rfc_pad m; (A, B, C, D) = rfc_blocks (length p div 64) p (0x67452301, 0xEFCDAB89, 0x98BADCFE, 0x10325476)
     in concat (map (\<lambda>w. rfc_bytes 4 (unat w)) [A, B, C, D]))"

subsection \<open>Agreement\<close>

lemma and_all_ones: "(w :: u32) AND 0xFFFFFFFF = w"
proof -
  have "(0xFFFFFFFF :: u32) = - 1" by simp
  then show ?thesis by (simp only: and.right_neutral)
qed

lemma rotl32_word_rotl: "\<lbrakk>0 < s; s < 32\<rbrakk> \<Longrightarrow> rotl32 t s = word_rotl s t"
proof (rule bit_word_eqI)
  fix n assume s: "0 < s" "s < 32" and "n < LENGTH(32)"
  then have n: "n < 32" by simp
  have "bit (word_rotl s t) n = bit t ((n + (32 - s)) mod 32)" using s n by (simp add: bit_word_rotl_iff)
  moreover have "(n + (32 - s)) mod 32 = (if n < s then n + (32 - s) else n - s)" using s n by (simp add: mod_if)
  moreover have "bit (rotl32 t s) n = (s \<le> n \<and> bit t (n - s) \<or> bit t (n + (32 - s)))"
    using n by (simp add: rotl32_def and_all_ones bit_simps add.commute)
  moreover have "bit t (n + (32 - s)) \<Longrightarrow> n < s" using bit_imp_le_length [of t "n + (32 - s)"] s by simp
  ultimately show "bit (rotl32 t s) n = bit (word_rotl s t) n" by auto
qed

text \<open>Sixteen steps, each of which hands the registers on, are the sixteen assignments.\<close>

definition md4_step :: "(u32 \<Rightarrow> u32 \<Rightarrow> u32 \<Rightarrow> u32 \<Rightarrow> u32 \<Rightarrow> nat \<Rightarrow> u32) \<Rightarrow> u32 \<times> nat \<Rightarrow> md4_context \<Rightarrow> md4_context" where
  "md4_step f = (\<lambda>(x, s) (A, B, C, D). (D, f A B C D x s, B, C))"

lemma sixteen_steps:
  "fold (md4_step f) [(x0, s0), (x1, s1), (x2, s2), (x3, s3), (x4, s0), (x5, s1), (x6, s2), (x7, s3), (x8, s0), (x9, s1), (x10, s2), (x11, s3), (x12, s0), (x13, s1), (x14, s2), (x15, s3)] (A, B, C, D)
    = (let A = f A B C D x0 s0; D = f D A B C x1 s1; C = f C D A B x2 s2; B = f B C D A x3 s3;
        A = f A B C D x4 s0; D = f D A B C x5 s1; C = f C D A B x6 s2; B = f B C D A x7 s3;
        A = f A B C D x8 s0; D = f D A B C x9 s1; C = f C D A B x10 s2; B = f B C D A x11 s3;
        A = f A B C D x12 s0; D = f D A B C x13 s1; C = f C D A B x14 s2; B = f B C D A x15 s3
       in (A, B, C, D))"
proof -
  define a1 where "a1 = f A B C D x0 s0"
  define d1 where "d1 = f D a1 B C x1 s1"
  define c1 where "c1 = f C d1 a1 B x2 s2"
  define b1 where "b1 = f B c1 d1 a1 x3 s3"
  define a2 where "a2 = f a1 b1 c1 d1 x4 s0"
  define d2 where "d2 = f d1 a2 b1 c1 x5 s1"
  define c2 where "c2 = f c1 d2 a2 b1 x6 s2"
  define b2 where "b2 = f b1 c2 d2 a2 x7 s3"
  define a3 where "a3 = f a2 b2 c2 d2 x8 s0"
  define d3 where "d3 = f d2 a3 b2 c2 x9 s1"
  define c3 where "c3 = f c2 d3 a3 b2 x10 s2"
  define b3 where "b3 = f b2 c3 d3 a3 x11 s3"
  define a4 where "a4 = f a3 b3 c3 d3 x12 s0"
  define d4 where "d4 = f d3 a4 b3 c3 x13 s1"
  define c4 where "c4 = f c3 d4 a4 b3 x14 s2"
  define b4 where "b4 = f b3 c4 d4 a4 x15 s3"
  show ?thesis by (simp add: md4_step_def Let_def cong: let_weak_cong flip: a1_def d1_def c1_def b1_def a2_def d2_def c2_def b2_def a3_def d3_def c3_def b3_def a4_def d4_def c4_def b4_def)
qed

lemma step_functions:
  assumes "0 < s" "s < 32"
  shows "md4_step FF (X ! k, s) = rfc_step rfc_F 0 X (k, s)" "md4_step GG (X ! k, s) = rfc_step rfc_G 0x5A827999 X (k, s)"
    "md4_step HH (X ! k, s) = rfc_step rfc_H 0x6ED9EBA1 X (k, s)"
  by (simp_all add: fun_eq_iff md4_step_def rfc_step_def FF_def GG_def HH_def rfc_F_def rfc_G_def rfc_H_def and_all_ones rotl32_word_rotl [OF assms])

lemma rounds_rfc:
  "round1 X = rfc_round rfc_F 0 [0..<16] [3, 7, 11, 19] X"
  "round2 X = rfc_round rfc_G 0x5A827999 [0, 4, 8, 12, 1, 5, 9, 13, 2, 6, 10, 14, 3, 7, 11, 15] [3, 5, 9, 13] X"
  "round3 X = rfc_round rfc_H 0x6ED9EBA1 [0, 8, 4, 12, 2, 10, 6, 14, 1, 9, 5, 13, 3, 11, 7, 15] [3, 9, 11, 15] X"
proof -
  have n: "[0..<16] = [0, 1, 2, 3, 4, 5, 6, 7, 8, 9, 10, 11, 12, 13, 14, 15 :: nat]" by code_simp
  have r: "concat (replicate 4 [a, b, c, d]) = [a, b, c, d, a, b, c, d, a, b, c, d, a, b, c, d]" for a b c d :: nat
    by (simp add: numeral_eq_Suc)
  have f: "fold (rfc_step g c X) (zip ks ss) = fold (md4_step h) (map (\<lambda>(k, s). (X ! k, s)) (zip ks ss))"
    if "\<And>k s. s \<in> set ss \<Longrightarrow> md4_step h (X ! k, s) = rfc_step g c X (k, s)" for g c h ks ss
    unfolding fold_map by (rule ext, rule fold_cong) (auto simp: that dest: set_zip_rightD)
  show "round1 X = rfc_round rfc_F 0 [0..<16] [3, 7, 11, 19] X"
  proof
    fix x :: md4_context
    obtain A B C D where x: "x = (A, B, C, D)" by (cases x)
    have "rfc_round rfc_F 0 [0..<16] [3, 7, 11, 19] X x = fold (md4_step FF) (map (\<lambda>(k, s). (X ! k, s)) (zip [0..<16] (concat (replicate 4 [3, 7, 11, 19])))) x"
      unfolding rfc_round_def by (subst f [where h = FF]) (auto simp: r step_functions)
    also have "\<dots> = round1 X x" unfolding x n r zip_Cons_Cons zip_Nil list.map split_conv sixteen_steps round1_def by (rule refl)
    finally show "round1 X x = rfc_round rfc_F 0 [0..<16] [3, 7, 11, 19] X x" ..
  qed
  show "round2 X = rfc_round rfc_G 0x5A827999 [0, 4, 8, 12, 1, 5, 9, 13, 2, 6, 10, 14, 3, 7, 11, 15] [3, 5, 9, 13] X"
  proof
    fix x :: md4_context
    obtain A B C D where x: "x = (A, B, C, D)" by (cases x)
    have "rfc_round rfc_G 0x5A827999 [0, 4, 8, 12, 1, 5, 9, 13, 2, 6, 10, 14, 3, 7, 11, 15] [3, 5, 9, 13] X x = fold (md4_step GG) (map (\<lambda>(k, s). (X ! k, s)) (zip [0, 4, 8, 12, 1, 5, 9, 13, 2, 6, 10, 14, 3, 7, 11, 15] (concat (replicate 4 [3, 5, 9, 13])))) x"
      unfolding rfc_round_def by (subst f [where h = GG]) (auto simp: r step_functions)
    also have "\<dots> = round2 X x" unfolding x n r zip_Cons_Cons zip_Nil list.map split_conv sixteen_steps round2_def by (rule refl)
    finally show "round2 X x = rfc_round rfc_G 0x5A827999 [0, 4, 8, 12, 1, 5, 9, 13, 2, 6, 10, 14, 3, 7, 11, 15] [3, 5, 9, 13] X x" ..
  qed
  show "round3 X = rfc_round rfc_H 0x6ED9EBA1 [0, 8, 4, 12, 2, 10, 6, 14, 1, 9, 5, 13, 3, 11, 7, 15] [3, 9, 11, 15] X"
  proof
    fix x :: md4_context
    obtain A B C D where x: "x = (A, B, C, D)" by (cases x)
    have "rfc_round rfc_H 0x6ED9EBA1 [0, 8, 4, 12, 2, 10, 6, 14, 1, 9, 5, 13, 3, 11, 7, 15] [3, 9, 11, 15] X x = fold (md4_step HH) (map (\<lambda>(k, s). (X ! k, s)) (zip [0, 8, 4, 12, 2, 10, 6, 14, 1, 9, 5, 13, 3, 11, 7, 15] (concat (replicate 4 [3, 9, 11, 15])))) x"
      unfolding rfc_round_def by (subst f [where h = HH]) (auto simp: r step_functions)
    also have "\<dots> = round3 X x" unfolding x n r zip_Cons_Cons zip_Nil list.map split_conv sixteen_steps round3_def by (rule refl)
    finally show "round3 X x = rfc_round rfc_H 0x6ED9EBA1 [0, 8, 4, 12, 2, 10, 6, 14, 1, 9, 5, 13, 3, 11, 7, 15] [3, 9, 11, 15] X x" ..
  qed
qed

lemma disjoint_or: "(x :: u32) AND y = 0 \<Longrightarrow> x OR y = x + y"
  using word_plus_and_or [of x y] by simp

lemma bytes_sum:
  fixes b0 b1 b2 b3 :: u8
  shows "push_bit 24 (ucast b3) OR push_bit 16 (ucast b2) OR push_bit 8 (ucast b1) OR (ucast b0 :: u32)
    = ucast b0 + 256 * ucast b1 + 65536 * ucast b2 + 16777216 * ucast b3"
proof -
  let ?c = "\<lambda>b :: u8. ucast b :: u32"
  have high: "\<not> bit (?c b) n" if "8 \<le> n" for b n using that bit_imp_le_length [of b n] by (auto simp: bit_simps)
  have "push_bit 8 (?c b1) AND ?c b0 = 0" by (rule bit_word_eqI) (use high in \<open>auto simp: bit_simps\<close>)
  moreover have "push_bit 16 (?c b2) AND (push_bit 8 (?c b1) OR ?c b0) = 0"
    by (rule bit_word_eqI) (use high in \<open>auto simp: bit_simps\<close>)
  moreover have "push_bit 24 (?c b3) AND (push_bit 16 (?c b2) OR push_bit 8 (?c b1) OR ?c b0) = 0"
    by (rule bit_word_eqI) (use high in \<open>auto simp: bit_simps\<close>)
  ultimately have "push_bit 24 (?c b3) OR push_bit 16 (?c b2) OR push_bit 8 (?c b1) OR ?c b0
      = push_bit 24 (?c b3) + (push_bit 16 (?c b2) + (push_bit 8 (?c b1) + ?c b0))"
    by (simp add: disjoint_or)
  then show ?thesis by (simp add: push_bit_eq_mult ac_simps)
qed

lemma le32_word:
  assumes "length block = 64" "i < 16"
  shows "le32 block i = rfc_word (take 4 (drop (4 * i) block))"
proof -
  have "{..<4 :: nat} = {0, 1, 2, 3}" by auto
  then show ?thesis using assms unfolding le32_def bytes_sum by (simp add: rfc_word_def ac_simps)
qed

lemma transform_rfc:
  assumes "length block = 64"
  shows "transform block ctx = rfc_block block ctx"
proof -
  have X: "map (le32 block) [0..<16] = map (\<lambda>i. rfc_word (take 4 (drop (4 * i) block))) [0..<16]"
    using le32_word [OF assms] by (intro map_cong) auto
  show ?thesis by (simp only: transform_def rfc_block_def X and_all_ones Let_def rounds_rfc o_apply)
qed

lemma store32_bytes: "store32 w = rfc_bytes 4 (unat w)"
proof -
  have "ucast (drop_bit k w) = (of_nat (unat w div 2 ^ k) :: u8)" for k
  proof -
    have "unat w div 2 ^ k = unat (drop_bit k w)" by (metis drop_bit_eq_div unat_drop_bit_eq)
    then show ?thesis by simp
  qed
  from this [of 0] this [of 8] this [of 16] this [of 24] show ?thesis
    by (simp add: store32_def rfc_bytes_def upt_rec)
qed

text \<open>The loop hands on the blocks of the padded message.\<close>

lemma md4_blocks_rfc:
  "\<exists>rest k. md4_blocks message ctx = (rfc_blocks k message ctx, rest) \<and> length rest \<le> 64 \<and> length message = 64 * k + length rest
     \<and> drop (64 * k) message = rest \<and> (\<forall>n z. rfc_blocks (k + n) (message @ z) ctx = rfc_blocks n (rest @ z) (rfc_blocks k message ctx))"
proof (induction message ctx rule: md4_blocks.induct)
  case (1 message ctx)
  show ?case
  proof (cases "64 < length message")
    case True
    let ?m = "drop 64 message" and ?c = "rfc_block (take 64 message) ctx"
    have t: "transform (take 64 message) ctx = ?c" using True by (intro transform_rfc) simp
    obtain rest k where r: "md4_blocks ?m ?c = (rfc_blocks k ?m ?c, rest)" "length rest \<le> 64" "length ?m = 64 * k + length rest"
        "drop (64 * k) ?m = rest" "\<forall>n z. rfc_blocks (k + n) (?m @ z) ?c = rfc_blocks n (rest @ z) (rfc_blocks k ?m ?c)"
      using 1 [OF True] t by auto
    show ?thesis
      by (rule exI [of _ rest], rule exI [of _ "Suc k"]) (use True r t in \<open>simp add: md4_blocks.simps [of message] drop_drop add.commute\<close>)
  next
    case False
    then show ?thesis by (intro exI [of _ message] exI [of _ 0]) (simp add: md4_blocks.simps [of message])
  qed
qed

text \<open>The last one or two blocks.\<close>

definition last_pad :: "nat \<Rightarrow> u32 \<Rightarrow> u8 list" where
  "last_pad n b = 0x80 # replicate (if n < 56 then 55 - n else 119 - n) 0 @ store32 b @ replicate 4 0"

lemma length_store32 [simp]: "length (store32 b) = 4"
  by (simp add: store32_def)

lemma md4_tail_rfc:
  assumes "length rest \<le> 64"
  shows "md4_tail rest b ctx = rfc_blocks (if length rest < 56 then 1 else 2) (rest @ last_pad (length rest) b) ctx"
proof -
  let ?n = "length rest"
  define buffer where "buffer = (write_at (replicate 128 0) 0 rest)[?n := 0x80]"
  have "128 - ?n = Suc (127 - ?n)" using assms by simp
  then have buf: "buffer = rest @ 0x80 # replicate (127 - ?n) 0" by (simp add: buffer_def write_at_def list_update_append)
  show ?thesis
  proof (cases "?n < 56")
    case True
    have "take 56 buffer = rest @ 0x80 # replicate (55 - ?n) 0" "drop 60 buffer = replicate 68 0"
      using True by (simp_all add: buf take_Cons' drop_Cons' min_def)
    moreover have "length (rest @ last_pad ?n b) = 64" using True by (simp add: last_pad_def)
    moreover have "replicate 68 (0 :: u8) = replicate 4 0 @ replicate 64 0" by (simp flip: replicate_add)
    ultimately have "write_at buffer 56 (store32 b) = (rest @ last_pad ?n b) @ replicate 64 0"
      using True by (simp add: write_at_def last_pad_def)
    then have "take 64 (write_at buffer 56 (store32 b)) = rest @ last_pad ?n b"
      using \<open>length (rest @ last_pad ?n b) = 64\<close> by simp
    then show ?thesis
      using True \<open>length (rest @ last_pad ?n b) = 64\<close> by (simp add: md4_tail_def Let_def transform_rfc flip: buffer_def)
  next
    case False
    have "take 120 buffer = rest @ 0x80 # replicate (119 - ?n) 0" "drop 124 buffer = replicate 4 0"
      using assms by (simp_all add: buf take_Cons' drop_Cons' min_def)
    then have "write_at buffer 120 (store32 b) = rest @ last_pad ?n b"
      using False by (simp add: write_at_def last_pad_def)
    moreover have "length (rest @ last_pad ?n b) = 128" using False assms by (simp add: last_pad_def)
    ultimately show ?thesis using False by (simp add: md4_tail_def Let_def transform_rfc numeral_2_eq_2 flip: buffer_def)
  qed
qed

lemma rfc_bytes_8: "n < 2 ^ 32 \<Longrightarrow> rfc_bytes 8 n = store32 (of_nat n) @ replicate 4 0"
proof -
  assume n: "n < 2 ^ 32"
  then have u: "unat (of_nat n :: u32) = n" by (simp add: unsigned_of_nat take_bit_nat_eq_self)
  have z: "n div 256 ^ i = 0" if "4 \<le> i" for i
  proof -
    have "n < 256 ^ 4" using n by simp
    also have "(256 :: nat) ^ 4 \<le> 256 ^ i" by (rule power_increasing) (use that in simp_all)
    finally show ?thesis by simp
  qed
  have "[0..<8] = [0..<4] @ [4, 5, 6, 7 :: nat]" by code_simp
  moreover have "replicate 4 (0 :: u8) = [0, 0, 0, 0]" by (simp add: numeral_eq_Suc)
  ultimately show ?thesis using z [of 4] z [of 5] z [of 6] z [of 7] by (simp add: store32_bytes u rfc_bytes_def)
qed

lemma rfc_pad_last:
  assumes m: "length m = 64 * k + r" "r \<le> 64" "8 * length m < 2 ^ 32"
  shows "rfc_pad m = m @ last_pad r (of_nat (8 * length m))" "length (rfc_pad m) div 64 = k + (if r < 56 then 1 else 2)"
proof -
  have "(55 - int (length m)) mod 64 = (55 - int r) mod 64" by (simp add: mod_eq_dvd_iff m(1))
  also have "\<dots> = int (if r < 56 then 55 - r else 119 - r)"
  proof (cases "r < 56")
    case False
    have "(55 - int r) mod 64 = (55 - int r + 64) mod 64" by (rule mod_add_self2 [symmetric])
    also have "\<dots> = (119 - int r) mod 64" by simp
    also have "\<dots> = 119 - int r" using False m(2) by (intro mod_pos_pos_trivial) auto
    finally show ?thesis using False m(2) by simp
  qed (simp add: mod_pos_pos_trivial)
  finally have z: "nat ((55 - int (length m)) mod 64) = (if r < 56 then 55 - r else 119 - r)" by simp
  show p: "rfc_pad m = m @ last_pad r (of_nat (8 * length m))"
    unfolding rfc_pad_def z last_pad_def rfc_bytes_8 [OF m(3)] by simp
  have "length (rfc_pad m) = 64 * (k + (if r < 56 then 1 else 2))" unfolding p using m(1,2) by (simp add: last_pad_def)
  then show "length (rfc_pad m) div 64 = k + (if r < 56 then 1 else 2)" by simp
qed

subsection \<open>Property\<close>

lemma md4_agrees:
  assumes "8 * length message < 2 ^ 32"
  shows "MD4 message = rfc_md4 message"
proof -
  obtain rest k where b: "md4_blocks message engineReset = (rfc_blocks k message engineReset, rest)" "length rest \<le> 64"
      "length message = 64 * k + length rest"
      "\<forall>n z. rfc_blocks (k + n) (message @ z) engineReset = rfc_blocks n (rest @ z) (rfc_blocks k message engineReset)"
    using md4_blocks_rfc [of message engineReset] by blast
  have "rfc_blocks (length (rfc_pad message) div 64) (rfc_pad message) engineReset
      = md4_tail rest (of_nat (8 * length message)) (rfc_blocks k message engineReset)"
    unfolding rfc_pad_last(2) [OF b(3,2) assms] unfolding rfc_pad_last(1) [OF b(3,2) assms] md4_tail_rfc [OF b(2)] using b(4) by blast
  then show ?thesis
    unfolding MD4_def rfc_md4_def Let_def engineReset_def [symmetric] b(1) split_conv
    by (simp add: store32_bytes mult.commute split: prod.split)
qed

text \<open>
  C24. \<open>MD4\<close> computes the message digest of RFC 1320 for every message of fewer than 2^29 bytes, on and beside all block boundaries.
\<close>
theorem md4_rfc:
  assumes "8 * length message < 2 ^ 32"
  shows "MD4 message = rfc_md4 message"
  using assms by (rule md4_agrees)

theorem md4_rfc_witness:
  "MD4 (replicate 64 0x61) = rfc_md4 (replicate 64 0x61)"
  by (rule md4_rfc) simp

end
