(* ===== verification/SmbAuth.thy ===== *)
theory SmbAuth
  imports DesFips Md4
begin

text \<open>
  The log-in hashes of the SMB client (\<open>src/modules/network/smbinit/smbauth.c\<close>) on what the client knows of its server
  (\<open>server_specs_t\<close> of \<open>src/modules/iopcore/common/oplsmb.h\<close>).  Arrays of \<open>char\<close> are lists of bytes.
\<close>

subsection \<open>The code\<close>

record server_specs =
  MaxBufferSize :: u32
  SessionKey :: u32
  PrimaryDomainServerName :: "u8 list"
  EncryptionKey :: "u8 list"
  Capabilities :: u32
  MaxMpxCount :: u16
  SecurityMode :: u8
  PasswordType :: u8
  Username :: "u8 list"
  Password :: "u8 list"
  PasswordLen :: nat
  HashedFlag :: int

text \<open>The string in an array, where one ends in it.\<close>

definition c_string :: "u8 list \<Rightarrow> ub + u8 list" where
  "c_string buf = (if 0 \<in> set buf then Inr (takeWhile (\<lambda>b. b \<noteq> 0) buf) else Inl OutOfBounds)"

definition strncpy :: "u8 list \<Rightarrow> nat \<Rightarrow> u8 list" where
  "strncpy s n = take n (s @ replicate n 0)"

definition toupper :: "u8 \<Rightarrow> u8" where
  "toupper b = (if 97 \<le> b \<and> b \<le> 122 then b - 32 else b)"

definition lm_magic :: "u8 list" where
  "lm_magic = [0x4B, 0x47, 0x53, 0x21, 0x40, 0x23, 0x24, 0x25]"

definition LM_Password_Hash :: "u8 list \<Rightarrow> u8 list" where
  "LM_Password_Hash password =
     (let tmp_pass = map toupper (strncpy password 14); K1 = take 7 tmp_pass; K2 = take 7 (drop 7 tmp_pass)
      in DES K1 lm_magic @ DES K2 lm_magic)"

definition NTLM_Password_Hash :: "u8 list \<Rightarrow> ub + u8 list" where
  "NTLM_Password_Hash password =
     (if 2 * length password \<le> 512
      then let passwd_buf = fold (\<lambda>i buf. buf[2 * i := password ! i]) [0..<length password] (replicate 512 0)
           in Inr (MD4 (take (2 * length password) passwd_buf))
      else Inl OutOfBounds)"

definition LM_Response :: "u8 list \<Rightarrow> u8 list \<Rightarrow> u8 list" where
  "LM_Response LMpasswordhash chal =
     (let P21 = LMpasswordhash @ replicate 5 0 in concat (map (\<lambda>i. DES (take 7 (drop (i * 7) P21)) chal) [0..<3]))"

text \<open>The buffer is the array of the password.  The result has the new length, where the branch sets one.\<close>

definition GenerateLMHashes :: "u8 list \<Rightarrow> u8 \<Rightarrow> u8 list \<Rightarrow> nat \<Rightarrow> ub + u8 list \<times> nat" where
  "GenerateLMHashes buf type key len =
     bindR (c_string buf) (\<lambda>password.
       if type = 1 then
         bindR (NTLM_Password_Hash password) (\<lambda>ntlm.
           let LMresponse = LM_Response (LM_Password_Hash password) key; NTLMresponse = LM_Response ntlm key
           in Inr (write_at (write_at buf 0 LMresponse) 24 NTLMresponse, 24))
       else if type = 0 then Inr (buf, if 14 < length password then 14 else if length password = 0 then 1 else length password)
       else Inr (buf, len))"

definition SmbInitHashPassword :: "server_specs \<Rightarrow> ub + server_specs" where
  "SmbInitHashPassword ss =
     bindR (if HashedFlag ss = 0
            then bindR (c_string (Password ss)) (\<lambda>password.
              if 0 < length password
              then bindR (GenerateLMHashes (Password ss) (PasswordType ss) (EncryptionKey ss) (PasswordLen ss)) (\<lambda>(buf, len).
                Inr (ss\<lparr>Password := buf, PasswordLen := len\<rparr>))
              else Inr ss)
            else Inr ss)
       (\<lambda>ss. Inr (ss\<lparr>HashedFlag := 1\<rparr>))"

subsection \<open>The protocol\<close>

text \<open>
  The hashes and the response to a challenge as the documents of the protocol state them (MS-NLMP 3.3.1), over FIPS 46 and RFC 1320.
\<close>

definition fips_encrypt :: "u8 list \<Rightarrow> u8 list \<Rightarrow> bits" where
  "fips_encrypt key7 block = fips_des (with_parity (bits_of_bytes key7)) (bits_of_bytes block)"

definition is_lm_hash :: "u8 list \<Rightarrow> u8 list \<Rightarrow> bool" where
  "is_lm_hash password h = (let U = take 14 (map toupper password @ replicate 14 0)
     in length h = 16 \<and> bits_of_bytes h = fips_encrypt (take 7 U) lm_magic @ fips_encrypt (drop 7 U) lm_magic)"

definition nt_hash :: "u8 list \<Rightarrow> u8 list" where
  "nt_hash password = rfc_md4 (concat (map (\<lambda>c. [c, 0]) password))"

definition is_response :: "u8 list \<Rightarrow> u8 list \<Rightarrow> u8 list \<Rightarrow> bool" where
  "is_response h challenge r = (length r = 24 \<and> bits_of_bytes r = fips_encrypt (take 7 h) challenge
     @ fips_encrypt (take 7 (drop 7 h)) challenge @ fips_encrypt (drop 14 h @ replicate 5 0) challenge)"

subsection \<open>Lemmas\<close>

lemma length_DES [simp]: "length (DES key message) = 8"
  by (simp add: DES_def Let_def l2c_def split: prod.split)

lemma DES_encrypt: "\<lbrakk>length key = 7; length message = 8\<rbrakk> \<Longrightarrow> bits_of_bytes (DES key message) = fips_encrypt key message"
proof -
  assume "length key = 7" "length message = 8"
  then show ?thesis by (simp add: fips_encrypt_def des_agrees)
qed

lemma toupper_0 [simp]: "toupper 0 = 0"
  by (simp add: toupper_def)

lemma lm_hash: "is_lm_hash password (LM_Password_Hash password)"
proof -
  have u: "map toupper (strncpy password 14) = take 14 (map toupper password @ replicate 14 0)"
    by (simp add: strncpy_def take_map)
  then show ?thesis
    by (simp add: is_lm_hash_def LM_Password_Hash_def Let_def u DES_encrypt lm_magic_def take_map [symmetric] drop_take min_def del: take_append drop_append)
qed

lemma wide_buffer:
  assumes "2 * length p \<le> m"
  shows "n \<le> length p \<Longrightarrow> fold (\<lambda>i buf. buf[2 * i := p ! i]) [0..<n] (replicate m 0)
    = concat (map (\<lambda>c. [c, 0]) (take n p)) @ replicate (m - 2 * n) (0 :: u8)"
proof (induction n)
  case (Suc n)
  have l: "length (concat (map (\<lambda>c. [c, 0 :: u8]) (take n p))) = 2 * n"
    using Suc.prems by (simp add: length_concat comp_def sum_list_triv)
  have "m - 2 * n = Suc (Suc (m - 2 * Suc n))" using assms Suc.prems by simp
  then have r: "replicate (m - 2 * n) (0 :: u8) = 0 # 0 # replicate (m - 2 * Suc n) 0" by simp
  have "fold (\<lambda>i buf. buf[2 * i := p ! i]) [0..<Suc n] (replicate m 0)
      = (concat (map (\<lambda>c. [c, 0]) (take n p)) @ 0 # 0 # replicate (m - 2 * Suc n) 0)[2 * n := p ! n]"
    using Suc by (simp add: r)
  then show ?case using l Suc.prems by (simp add: list_update_append take_Suc_conv_app_nth)
qed simp

lemma ntlm_hash:
  assumes "length password \<le> 256"
  shows "NTLM_Password_Hash password = Inr (nt_hash password)"
proof -
  have l: "length (concat (map (\<lambda>c. [c, 0 :: u8]) password)) = 2 * length password"
    by (simp add: length_concat comp_def sum_list_triv)
  show ?thesis using assms wide_buffer [of password 512 "length password"] l
    by (simp add: NTLM_Password_Hash_def nt_hash_def md4_agrees)
qed

lemma lm_response:
  assumes "length h = 16" "length challenge = 8"
  shows "is_response h challenge (LM_Response h challenge)"
proof -
  have u: "[0..<3] = [0, 1, 2 :: nat]" by code_simp
  have "take 7 (drop 14 (h @ replicate 5 0)) = drop 14 h @ replicate 5 0" using assms(1) by simp
  then show ?thesis using assms by (simp add: is_response_def LM_Response_def Let_def u DES_encrypt)
qed

lemma c_string_Inr: "c_string buf = Inr s \<Longrightarrow> length s < length buf"
proof -
  assume "c_string buf = Inr s"
  then have "0 \<in> set buf" "s = takeWhile (\<lambda>b. b \<noteq> 0) buf" by (auto simp: c_string_def split: if_splits)
  moreover from this(1) have "takeWhile (\<lambda>b. b \<noteq> 0) buf \<noteq> buf" by (auto simp: takeWhile_eq_all_conv)
  ultimately show ?thesis by (metis length_takeWhile_le le_neq_implies_less takeWhile_eq_take take_all_iff order_refl)
qed

lemma length_nt_hash [simp]: "length (nt_hash p) = 16"
  by (simp add: nt_hash_def rfc_md4_def Let_def rfc_bytes_def split: prod.split)

lemma length_LM_Password_Hash [simp]: "length (LM_Password_Hash p) = 16"
  by (simp add: LM_Password_Hash_def Let_def)

lemma length_LM_Response [simp]: "length (LM_Response h c) = 24"
proof -
  have u: "[0..<3] = [0, 1, 2 :: nat]" by code_simp
  show ?thesis by (simp add: LM_Response_def Let_def u)
qed

text \<open>Well-formed: arrays at their size, and a password that is not hashed ends in its array.\<close>

definition specs_ok :: "server_specs \<Rightarrow> bool" where
  "specs_ok ss = (length (PrimaryDomainServerName ss) = 32 \<and> length (EncryptionKey ss) = 8 \<and> length (Username ss) = 36
     \<and> length (Password ss) = 48 \<and> PasswordLen ss \<le> 48 \<and> (HashedFlag ss = 0 \<longrightarrow> 0 \<in> set (Password ss)))"

lemma generate_encrypted:
  assumes "c_string buf = Inr p" "length buf = 48"
  shows "GenerateLMHashes buf 1 key len = Inr (LM_Response (LM_Password_Hash p) key @ LM_Response (nt_hash p) key, 24)"
proof -
  have "length p \<le> 256" using c_string_Inr [OF assms(1)] assms(2) by simp
  then show ?thesis using assms by (simp add: GenerateLMHashes_def ntlm_hash Let_def write_at_def)
qed

lemma generate_total:
  assumes "c_string buf = Inr p" "length buf = 48" "len \<le> 48"
  shows "\<exists>buf' len'. GenerateLMHashes buf type key len = Inr (buf', len') \<and> length buf' = 48 \<and> len' \<le> 48"
proof -
  consider "type = 1" | "type = 0" | "type \<noteq> 0" "type \<noteq> 1" by blast
  then show ?thesis
  proof cases
    case 1
    then show ?thesis using generate_encrypted [OF assms(1,2)] by simp
  qed (use assms in \<open>simp_all add: GenerateLMHashes_def\<close>)
qed

text \<open>
  C26. Every operation on a well-formed description of the server stays inside its arrays and leaves it well-formed, and hashed.
\<close>

theorem hash_password_type:
  assumes "specs_ok ss"
  shows "\<exists>ss'. SmbInitHashPassword ss = Inr ss' \<and> specs_ok ss' \<and> HashedFlag ss' = 1 \<and> SmbInitHashPassword ss' = Inr ss'"
proof (cases "HashedFlag ss = 0 \<and> c_string (Password ss) \<noteq> Inr []")
  case False
  have "HashedFlag ss = 0 \<longrightarrow> c_string (Password ss) = Inr []" using False by simp
  then show ?thesis using assms by (cases "HashedFlag ss = 0") (simp_all add: SmbInitHashPassword_def specs_ok_def)
next
  case True
  then obtain p where p: "c_string (Password ss) = Inr p" "p \<noteq> []" using assms by (auto simp: c_string_def specs_ok_def)
  obtain buf len where g: "GenerateLMHashes (Password ss) (PasswordType ss) (EncryptionKey ss) (PasswordLen ss) = Inr (buf, len)"
      "length buf = 48" "len \<le> 48"
    using generate_total [OF p(1)] assms unfolding specs_ok_def by metis
  then show ?thesis using assms True p by (simp add: SmbInitHashPassword_def specs_ok_def)
qed

text \<open>
  C25. With challenge and response, the password becomes the LM response and the NTLM response of the protocol to the challenge of the
  server, 24 bytes each, over the standards DES and MD4.
\<close>

theorem hash_password_protocol:
  assumes "specs_ok ss" "HashedFlag ss = 0" "PasswordType ss = 1" "c_string (Password ss) = Inr p" "p \<noteq> []"
  shows "\<exists>h lm ntlm. SmbInitHashPassword ss = Inr (ss\<lparr>Password := lm @ ntlm, PasswordLen := 24, HashedFlag := 1\<rparr>)
    \<and> is_lm_hash p h \<and> is_response h (EncryptionKey ss) lm \<and> is_response (nt_hash p) (EncryptionKey ss) ntlm"
proof -
  have l: "length (Password ss) = 48" "length (EncryptionKey ss) = 8" using assms(1) by (simp_all add: specs_ok_def)
  have "SmbInitHashPassword ss = Inr (ss\<lparr>Password := LM_Response (LM_Password_Hash p) (EncryptionKey ss) @ LM_Response (nt_hash p) (EncryptionKey ss),
      PasswordLen := 24, HashedFlag := 1\<rparr>)"
    using assms generate_encrypted [OF assms(4) l(1)] by (simp add: SmbInitHashPassword_def)
  then show ?thesis using lm_hash lm_response [OF length_LM_Password_Hash l(2)] lm_response [OF length_nt_hash l(2)] by blast
qed

definition specs_example :: server_specs where
  "specs_example = \<lparr>MaxBufferSize = 4356, SessionKey = 1, PrimaryDomainServerName = replicate 32 0, EncryptionKey = [1, 2, 3, 4, 5, 6, 7, 8],
     Capabilities = 4, MaxMpxCount = 50, SecurityMode = 1, PasswordType = 1, Username = replicate 36 0,
     Password = [0x70, 0x73, 0x32] @ replicate 45 0, PasswordLen = 0, HashedFlag = 0\<rparr>"

theorem hash_password_type_witness:
  "\<exists>ss'. SmbInitHashPassword specs_example = Inr ss' \<and> specs_ok ss' \<and> HashedFlag ss' = 1 \<and> SmbInitHashPassword ss' = Inr ss'"
  by (rule hash_password_type) (simp add: specs_example_def specs_ok_def)

theorem hash_password_protocol_witness:
  "\<exists>h lm ntlm. SmbInitHashPassword specs_example = Inr (specs_example\<lparr>Password := lm @ ntlm, PasswordLen := 24, HashedFlag := 1\<rparr>)
    \<and> is_lm_hash [0x70, 0x73, 0x32] h \<and> is_response h (EncryptionKey specs_example) lm
    \<and> is_response (nt_hash [0x70, 0x73, 0x32]) (EncryptionKey specs_example) ntlm"
  by (rule hash_password_protocol) (simp_all add: specs_example_def specs_ok_def c_string_def)

end
