(* ===== verification/SmbNet.thy ===== *)
theory SmbNet
  imports SmbAuth
begin

text \<open>
  How the SMB client of the disc emulation moves bytes: the socket calls of the network stack that it uses
  (\<open>lwip_recvfrom\<close>, \<open>lwip_recv\<close> and \<open>lwip_send\<close> of \<open>src/modules/network/SMSTCPIP/sockets.c\<close>, \<open>netbuf_copy_partial\<close> of
  \<open>api_lib.c\<close>) and the loops and the session header of \<open>src/modules/iopcore/cdvdman/smb.c\<close>.  The stack below the sockets and
  the server behind it are a parameter: \<open>netconn_write\<close> hands bytes to the connection, \<open>netconn_recv\<close> gives the next buffer that
  has arrived, or none when the connection is closed.
\<close>

subsection \<open>Numbers in packets\<close>

definition bytes16 :: "u16 \<Rightarrow> u8 list" where
  "bytes16 w = [ucast w, ucast (drop_bit 8 w)]"

definition bytes32 :: "u32 \<Rightarrow> u8 list" where
  "bytes32 w = [ucast w, ucast (drop_bit 8 w), ucast (drop_bit 16 w), ucast (drop_bit 24 w)]"

definition u16_at :: "u8 list \<Rightarrow> nat \<Rightarrow> u16" where
  "u16_at buf i = ucast (buf ! i) OR push_bit 8 (ucast (buf ! (i + 1)))"

definition u32_at :: "u8 list \<Rightarrow> nat \<Rightarrow> u32" where
  "u32_at buf i = ucast (u16_at buf i) OR push_bit 16 (ucast (u16_at buf (i + 2)))"

lemma length_bytes [simp]: "length (bytes16 w) = 2" "length (bytes32 v) = 4"
  by (simp_all add: bytes16_def bytes32_def)

lemma u16_at_append: "length a = i \<Longrightarrow> u16_at (a @ b) (i + k) = u16_at b k"
  by (simp add: u16_at_def nth_append)

lemma u32_at_append: "length a = i \<Longrightarrow> u32_at (a @ b) (i + k) = u32_at b k"
  using u16_at_append [of a i b "k + 2"] by (simp add: u32_at_def u16_at_append add.assoc)

lemma u16_bytes16 [simp]: "u16_at (bytes16 w @ r) 0 = w"
  by (auto simp: u16_at_def bytes16_def bit_eq_iff bit_or_iff bit_push_bit_iff bit_ucast_iff bit_drop_bit_eq)

lemma u32_bytes32 [simp]: "u32_at (bytes32 w @ r) 0 = w"
proof (rule bit_word_eqI)
  fix n assume "n < LENGTH(32)"
  then show "bit (u32_at (bytes32 w @ r) 0) n = bit w n"
    by (cases "n < 8"; cases "n < 16"; cases "n < 24")
       (auto simp: u32_at_def u16_at_def bytes32_def bit_or_iff bit_push_bit_iff bit_ucast_iff bit_drop_bit_eq)
qed

subsection \<open>The sockets\<close>

text \<open>A buffer of the stack is a chain of packet buffers.\<close>

type_synonym netbuf = "u8 list list"

record 'n network =
  netconn_write :: "u8 list \<Rightarrow> 'n \<Rightarrow> bool \<times> 'n"
  netconn_recv :: "'n \<Rightarrow> netbuf option \<times> 'n"

record 'n lwip_socket =
  conn :: 'n
  lastdata :: "netbuf option"
  lastoffset :: u16

fun netbuf_copy :: "netbuf \<Rightarrow> nat \<Rightarrow> nat \<Rightarrow> u8 list" where
  "netbuf_copy [] len offset = []"
| "netbuf_copy (p # ps) len offset =
     (if len = 0 then []
      else if offset \<noteq> 0 \<and> length p \<le> offset then netbuf_copy ps len (offset - length p)
      else let d = min (length p - offset) len in take d (drop offset p) @ netbuf_copy ps (len - d) 0)"

definition netbuf_copy_partial :: "netbuf \<Rightarrow> u16 \<Rightarrow> u16 \<Rightarrow> u8 list" where
  "netbuf_copy_partial buf len offset = netbuf_copy buf (unat len) (unat offset)"

definition netbuf_len :: "netbuf \<Rightarrow> u16" where
  "netbuf_len buf = of_nat (length (concat buf))"

text \<open>
  The buffer that is left from the last call, or the next one.  With an \<open>index\<close>, 63 bytes go to the header, and the byte at the
  index says where the payload begins.
\<close>

definition next_netbuf :: "'n network \<Rightarrow> 'n lwip_socket \<Rightarrow> netbuf option \<times> 'n lwip_socket" where
  "next_netbuf net sk =
     (case lastdata sk of Some buf \<Rightarrow> (Some buf, sk)
      | None \<Rightarrow> let (b, c) = netconn_recv net (conn sk) in (b, sk\<lparr>conn := c\<rparr>))"

definition recv_header :: "netbuf \<Rightarrow> u16 \<Rightarrow> u16 \<Rightarrow> u8 list \<Rightarrow> nat \<Rightarrow> u8 list \<times> nat \<times> u16 \<times> u16" where
  "recv_header buf offset avail_len header index =
     (if index = 0 then (header, 0, 0, avail_len)
      else if 63 \<le> avail_len
      then let header = write_at header 0 (netbuf_copy_partial buf 63 offset); i = unat (header ! index) + 4
           in (header, i, of_nat i, avail_len - of_nat i)
      else (write_at header 0 (netbuf_copy_partial buf avail_len offset), index, avail_len, 0))"

definition recv_payload :: "netbuf \<Rightarrow> u16 \<Rightarrow> u16 \<Rightarrow> u16 \<Rightarrow> int \<Rightarrow> u8 list \<times> u16 \<times> u16" where
  "recv_payload buf offset avail_len copylen plen =
     (if avail_len = 0 then ([], copylen, avail_len)
      else let n = word_of_int (if uint avail_len < plen then uint avail_len else plen)
           in (netbuf_copy_partial buf n offset, copylen + n, avail_len - n))"

definition lwip_recvfrom :: "'n network \<Rightarrow> u8 list \<Rightarrow> nat \<Rightarrow> int \<Rightarrow> 'n lwip_socket \<Rightarrow> int \<times> u8 list \<times> u8 list \<times> 'n lwip_socket" where
  "lwip_recvfrom net header index plen sk =
     (case next_netbuf net sk of
        (None, sk) \<Rightarrow> (0, header, [], sk)
      | (Some buf, sk) \<Rightarrow>
          let (header, index, copylen, avail_len) = recv_header buf (lastoffset sk) (netbuf_len buf - lastoffset sk) header index;
              (payload, copylen, avail_len) = recv_payload buf (lastoffset sk + of_nat index) avail_len copylen plen
          in (uint copylen, header, payload,
              if 0 < avail_len then sk\<lparr>lastdata := Some buf, lastoffset := lastoffset sk + copylen\<rparr>
              else sk\<lparr>lastdata := None, lastoffset := 0\<rparr>))"

definition lwip_recv :: "'n network \<Rightarrow> int \<Rightarrow> 'n lwip_socket \<Rightarrow> int \<times> u8 list \<times> 'n lwip_socket" where
  "lwip_recv net n sk = (case lwip_recvfrom net [] 0 n sk of (r, _, bs, sk) \<Rightarrow> (r, bs, sk))"

definition lwip_send :: "'n network \<Rightarrow> u8 list \<Rightarrow> 'n lwip_socket \<Rightarrow> int \<times> 'n lwip_socket" where
  "lwip_send net data sk =
     (case netconn_write net (take (length data mod 2 ^ 16) data) (conn sk) of
        (ok, c) \<Rightarrow> (if ok then int (length data) else -1, sk\<lparr>conn := c\<rparr>))"

text \<open>A chain of packet buffers is copied like one array.\<close>

lemma netbuf_copy_concat: "netbuf_copy buf len offset = take len (drop offset (concat buf))"
proof (induction buf len offset rule: netbuf_copy.induct)
  case (2 p ps len offset)
  show ?case
  proof (cases "len = 0 \<or> offset \<noteq> 0 \<and> length p \<le> offset")
    case False
    then have "offset \<le> length p" by auto
    then show ?thesis using 2(2) False by (auto simp: Let_def min_def)
  qed (use 2(1) in auto)
qed simp

lemma netbuf_copy_partial_concat [simp]:
  "netbuf_copy_partial buf len offset = take (unat len) (drop (unat offset) (concat buf))"
  by (simp add: netbuf_copy_partial_def netbuf_copy_concat)

subsection \<open>Sending and receiving\<close>

text \<open>The socket is \<open>None\<close> where the client's descriptor is negative: every call fails.\<close>

function send_loop :: "'n network \<Rightarrow> int \<Rightarrow> u8 list \<Rightarrow> 'n lwip_socket \<Rightarrow> int \<times> 'n lwip_socket" where
  "send_loop net n ptr sk =
     (if ptr = [] then (n, sk)
      else let (result, sk) = lwip_send net ptr sk
           in if result \<le> 0 then (result, sk) else send_loop net n (drop (nat result) ptr) sk)"
  by pat_completeness auto
termination
  by (relation "measure (\<lambda>(net, n, ptr, sk). length ptr)") auto

declare send_loop.simps [simp del]

definition SendData :: "'n network \<Rightarrow> u8 list \<Rightarrow> 'n lwip_socket option \<Rightarrow> int \<times> 'n lwip_socket option" where
  "SendData net buf main_socket =
     (case main_socket of
        None \<Rightarrow> (if buf = [] then 0 else -1, None)
      | Some sk \<Rightarrow> let (r, sk) = send_loop net (int (length buf)) buf sk in (r, Some sk))"

function recv_loop :: "'n network \<Rightarrow> int \<Rightarrow> int \<Rightarrow> u8 list \<Rightarrow> 'n lwip_socket \<Rightarrow> int \<times> u8 list \<times> 'n lwip_socket" where
  "recv_loop net n remaining buf sk =
     (if remaining \<le> 0 then (n, buf, sk)
      else let (result, bs, sk) = lwip_recv net remaining sk
           in if result \<le> 0 then (result, buf @ bs, sk) else recv_loop net n (remaining - result) (buf @ bs) sk)"
  by pat_completeness auto
termination
  by (relation "measure (\<lambda>(net, n, remaining, buf, sk). nat remaining)") auto

declare recv_loop.simps [simp del]

text \<open>The bytes that have arrived are part of the result when the connection breaks, too.\<close>

definition RecvData :: "'n network \<Rightarrow> int \<Rightarrow> 'n lwip_socket option \<Rightarrow> int \<times> u8 list \<times> 'n lwip_socket option" where
  "RecvData net n main_socket =
     (case main_socket of
        None \<Rightarrow> (if n \<le> 0 then n else -1, [], None)
      | Some sk \<Rightarrow> let (r, bs, sk) = recv_loop net n n [] sk in (r, bs, Some sk))"

lemma SendData_ok:
  assumes "netconn_write net buf (conn sk) = (True, c)" "buf \<noteq> []" "length buf < 2 ^ 16"
  shows "SendData net buf (Some sk) = (int (length buf), Some (sk\<lparr>conn := c\<rparr>))"
  using assms by (simp add: SendData_def send_loop.simps [of _ _ buf] send_loop.simps [of _ _ "[]"] lwip_send_def)

lemma SendData_fails:
  assumes "netconn_write net buf (conn sk) = (False, c)" "buf \<noteq> []" "length buf < 2 ^ 16"
  shows "SendData net buf (Some sk) = (-1, Some (sk\<lparr>conn := c\<rparr>))"
  using assms by (simp add: SendData_def send_loop.simps [of _ _ buf] lwip_send_def)

subsection \<open>What the server sends\<close>

text \<open>
  \<open>delivers net c bufs c'\<close>: from the state \<open>c\<close> of the connection on, the next buffers to arrive are \<open>bufs\<close>.  \<open>idle\<close> is a socket
  without a half-read buffer.
\<close>

fun delivers :: "'n network \<Rightarrow> 'n \<Rightarrow> netbuf list \<Rightarrow> 'n \<Rightarrow> bool" where
  "delivers net c [] c' = (c = c')"
| "delivers net c (b # bs) c' = (case netconn_recv net c of (b', c1) \<Rightarrow> b' = Some b \<and> delivers net c1 bs c')"

definition idle :: "'n \<Rightarrow> 'n lwip_socket" where
  "idle c = \<lparr>conn = c, lastdata = None, lastoffset = 0\<rparr>"

lemma idle_simps [simp]: "conn (idle c) = c" "(idle c)\<lparr>conn := c'\<rparr> = idle c'" "lastdata (idle c) = None" "lastoffset (idle c) = 0"
  "idle c = idle c' \<longleftrightarrow> c = c'"
  by (simp_all add: idle_def)

definition good_buf :: "netbuf \<Rightarrow> bool" where
  "good_buf b = (0 < length (concat b) \<and> length (concat b) < 2 ^ 16)"

lemma delivers_append: "delivers net c (a @ b) c' \<longleftrightarrow> (\<exists>c1. delivers net c a c1 \<and> delivers net c1 b c')"
  by (induction a arbitrary: c) (auto split: prod.splits)

lemma unat_of_nat_u16: "n < 2 ^ 16 \<Longrightarrow> unat (of_nat n :: u16) = n"
  by (simp add: unat_of_nat)

lemma good_bufD: "good_buf b \<Longrightarrow> unat (netbuf_len b) = length (concat b) \<and> netbuf_len b \<noteq> 0"
proof -
  assume g: "good_buf b"
  then have "unat (netbuf_len b) = length (concat b)" using unat_of_nat_u16 by (auto simp: good_buf_def netbuf_len_def)
  then show ?thesis using g by (auto simp: good_buf_def)
qed

lemma recv_payload_all:
  assumes "avail_len \<noteq> 0" "uint avail_len \<le> plen"
  shows "recv_payload buf offset avail_len copylen plen
    = (take (unat avail_len) (drop (unat offset) (concat buf)), copylen + avail_len, 0)"
proof -
  have "(if uint avail_len < plen then uint avail_len else plen) = uint avail_len" using assms(2) by simp
  then show ?thesis using assms(1) by (simp only: recv_payload_def if_False Let_def word_of_int_uint netbuf_copy_partial_concat diff_self)
qed

text \<open>A buffer that is asked for in full is handed over in one call.\<close>

lemma recv_whole:
  assumes "netconn_recv net c = (Some b, c')" "good_buf b" "int (length (concat b)) \<le> n"
  shows "lwip_recvfrom net header 0 n (idle c) = (int (length (concat b)), header, concat b, idle c')"
proof -
  define w where "w = netbuf_len b"
  have l: "unat w = length (concat b)" "w \<noteq> 0" using good_bufD [OF assms(2)] by (simp_all add: w_def)
  have u: "uint w = int (length (concat b))" using arg_cong [OF l(1), of int] by simp
  have "recv_payload b 0 w 0 n = (concat b, w, 0)" using recv_payload_all [of w n b 0 0] l u assms(3) by simp
  then show ?thesis using assms(1) u
    by (simp add: lwip_recvfrom_def next_netbuf_def idle_def recv_header_def w_def [symmetric])
qed

text \<open>
  \<open>stream net sk bs c\<close>: what can be read from the socket is \<open>bs\<close>, the rest of a buffer that has been read in part and the buffers to
  come, after which the connection is in state \<open>c\<close>.
\<close>

definition left_over :: "'n lwip_socket \<Rightarrow> u8 list" where
  "left_over sk = (case lastdata sk of None \<Rightarrow> [] | Some b \<Rightarrow> drop (unat (lastoffset sk)) (concat b))"

definition good_socket :: "'n lwip_socket \<Rightarrow> bool" where
  "good_socket sk = (case lastdata sk of None \<Rightarrow> lastoffset sk = 0 | Some b \<Rightarrow> good_buf b \<and> unat (lastoffset sk) < length (concat b))"

definition stream :: "'n network \<Rightarrow> 'n lwip_socket \<Rightarrow> u8 list \<Rightarrow> 'n \<Rightarrow> bool" where
  "stream net sk bs c = (good_socket sk \<and>
     (\<exists>bufs. (\<forall>b \<in> set bufs. good_buf b) \<and> delivers net (conn sk) bufs c \<and> bs = left_over sk @ concat (concat bufs)))"

lemma recv_part:
  assumes b: "good_buf b" "unat offset < length (concat b)" and n: "0 < n"
    and r: "recv_payload b offset (netbuf_len b - offset) 0 n = (payload, copylen, avail_len)"
  shows "0 < uint copylen \<and> uint copylen \<le> n \<and> unat copylen \<le> length (concat b) - unat offset
    \<and> payload = take (unat copylen) (drop (unat offset) (concat b)) \<and> avail_len = netbuf_len b - offset - copylen
    \<and> unat (offset + copylen) = unat offset + unat copylen"
proof -
  define w where "w = netbuf_len b - offset"
  have l: "unat (netbuf_len b) = length (concat b)" using good_bufD [OF b(1)] by simp
  have w: "unat w = length (concat b) - unat offset" using b(2) l by (simp add: w_def unat_sub word_le_nat_alt)
  then have w0: "w \<noteq> 0" using b(2) by auto
  have uw: "uint w = int (length (concat b) - unat offset)" using arg_cong [OF w, of int] by simp
  define k where "k = (word_of_int (if uint w < n then uint w else n) :: u16)"
  have m: "uint w < 2 ^ 16" using unsigned_less [of w, where 'a = int] by simp
  have k: "uint k = (if uint w < n then uint w else n)"
    using n m by (auto simp: k_def word_of_int_inverse uint_word_of_int take_bit_int_eq_self)
  have e: "(payload, copylen, avail_len) = (take (unat k) (drop (unat offset) (concat b)), k, w - k)"
    using r w0 unfolding recv_payload_def w_def [symmetric] k_def [symmetric] Let_def by auto
  have k0: "0 < uint k" "uint k \<le> n" "uint k \<le> uint w" using k n w0 by (auto simp: word_neq_0_conv word_less_def)
  then have "unat k \<le> unat w" by (simp add: word_le_nat_alt [symmetric] word_le_def)
  moreover have "length (concat b) < 2 ^ 16" using b(1) by (simp add: good_buf_def)
  ultimately have "unat offset + unat k < 2 ^ 16" using w b(2) by linarith
  then have "unat (offset + k) = unat offset + unat k" using unat_add_lem [of offset k] by simp
  then show ?thesis using e k0 \<open>unat k \<le> unat w\<close> w by (simp add: w_def)
qed

lemma recv_buffer:
  assumes g: "good_buf b" "unat offset < length (concat b)" and n: "0 < n"
    and next_buf: "next_netbuf net sk = (Some b, sk1)" "lastoffset sk1 = offset"
  shows "\<exists>k sk'. 0 < k \<and> int k \<le> n \<and> k \<le> length (concat b) - unat offset \<and> good_socket sk' \<and> conn sk' = conn sk1
    \<and> lwip_recv net n sk = (int k, take k (drop (unat offset) (concat b)), sk')
    \<and> left_over sk' = drop (unat offset + k) (concat b)"
proof -
  obtain payload copylen avail_len where r: "recv_payload b offset (netbuf_len b - offset) 0 n = (payload, copylen, avail_len)"
    using prod_cases3 by blast
  note p = recv_part [OF g n r]
  define sk' where "sk' = (if 0 < avail_len then sk1\<lparr>lastdata := Some b, lastoffset := offset + copylen\<rparr> else sk1\<lparr>lastdata := None, lastoffset := 0\<rparr>)"
  have l: "unat (netbuf_len b) = length (concat b)" using good_bufD [OF g(1)] by simp
  have o: "offset \<le> netbuf_len b" using g(2) l by (simp add: word_le_nat_alt)
  have c: "copylen \<le> netbuf_len b - offset" using p o l by (simp add: word_le_nat_alt unat_sub)
  have a: "unat avail_len = length (concat b) - (unat offset + unat copylen)" using p o c l by (simp add: unat_sub)
  have u: "int (unat copylen) = uint copylen" by simp
  have "lwip_recv net n sk = (uint copylen, payload, sk')"
    using next_buf r by (simp add: lwip_recv_def lwip_recvfrom_def recv_header_def sk'_def)
  then have r: "lwip_recv net n sk = (int (unat copylen), take (unat copylen) (drop (unat offset) (concat b)), sk')"
    unfolding u using p by blast
  have s: "good_socket sk'" "left_over sk' = drop (unat offset + unat copylen) (concat b)"
  proof -
    have "good_socket sk' \<and> left_over sk' = drop (unat offset + unat copylen) (concat b)"
    proof (cases "avail_len = 0")
      case True
      then have "length (concat b) \<le> unat offset + unat copylen" using a by simp
      then show ?thesis using True by (simp add: sk'_def good_socket_def left_over_def)
    next
      case False
      then have "unat avail_len \<noteq> 0" "0 < avail_len" by (simp_all add: unat_eq_0 word_neq_0_conv)
      then show ?thesis using p a g(1) by (simp add: sk'_def good_socket_def left_over_def)
    qed
    then show "good_socket sk'" "left_over sk' = drop (unat offset + unat copylen) (concat b)" by simp_all
  qed
  have c: "conn sk' = conn sk1" by (simp add: sk'_def)
  have k: "0 < unat copylen" "int (unat copylen) \<le> n" "unat copylen \<le> length (concat b) - unat offset" using p u by linarith+
  show ?thesis using k s c r by blast
qed

lemma stream_recv:
  assumes "stream net sk bs c" "bs \<noteq> []" "0 < n"
  shows "\<exists>k sk'. 0 < k \<and> int k \<le> n \<and> k \<le> length bs \<and> lwip_recv net n sk = (int k, take k bs, sk') \<and> stream net sk' (drop k bs) c"
proof -
  obtain bufs where g: "good_socket sk" "\<forall>b \<in> set bufs. good_buf b" "delivers net (conn sk) bufs c" "bs = left_over sk @ concat (concat bufs)"
    using assms(1) by (auto simp: stream_def)
  show ?thesis
  proof (cases "lastdata sk")
    case None
    then have "bs = concat (concat bufs)" "lastoffset sk = 0" using g by (auto simp: left_over_def good_socket_def)
    then obtain b rest where b: "bufs = b # rest" using assms(2) by (cases bufs) auto
    then obtain c1 where r: "netconn_recv net (conn sk) = (Some b, c1)" "delivers net c1 rest c" using g(3) by (auto split: prod.splits)
    have n: "next_netbuf net sk = (Some b, sk\<lparr>conn := c1\<rparr>)" using None r by (simp add: next_netbuf_def)
    have gb: "good_buf b" "unat (0 :: u16) < length (concat b)" using g(2) b by (auto simp: good_buf_def)
    have o: "lastoffset (sk\<lparr>conn := c1\<rparr>) = 0" using \<open>lastoffset sk = 0\<close> by simp
    obtain k sk' where k: "0 < k" "int k \<le> n" "k \<le> length (concat b)" "good_socket sk'" "conn sk' = c1"
      "lwip_recv net n sk = (int k, take k (concat b), sk')" "left_over sk' = drop k (concat b)"
      using recv_buffer [OF gb assms(3) n o] by auto
    then show ?thesis using \<open>bs = concat (concat bufs)\<close> b r(2) g(2)
      by (intro exI [of _ k] exI [of _ sk']) (auto simp: stream_def)
  next
    case (Some b)
    then have l: "good_buf b" "unat (lastoffset sk) < length (concat b)" "left_over sk = drop (unat (lastoffset sk)) (concat b)"
      using g(1) by (auto simp: good_socket_def left_over_def)
    have n: "next_netbuf net sk = (Some b, sk)" using Some by (simp add: next_netbuf_def)
    obtain k sk' where k: "0 < k" "int k \<le> n" "k \<le> length (concat b) - unat (lastoffset sk)" "good_socket sk'" "conn sk' = conn sk"
      "lwip_recv net n sk = (int k, take k (drop (unat (lastoffset sk)) (concat b)), sk')" "left_over sk' = drop (unat (lastoffset sk) + k) (concat b)"
      using recv_buffer [OF l(1,2) assms(3) n refl] by auto
    then show ?thesis using l(3) g by (intro exI [of _ k] exI [of _ sk']) (auto simp: stream_def add.commute)
  qed
qed

lemma stream_recv_loop:
  "\<lbrakk>stream net sk bs c; n \<le> length bs\<rbrakk>
    \<Longrightarrow> \<exists>sk'. recv_loop net t (int n) acc sk = (t, acc @ take n bs, sk') \<and> stream net sk' (drop n bs) c"
proof (induction n arbitrary: sk bs acc rule: less_induct)
  case (less n)
  show ?case
  proof (cases "n = 0")
    case True
    then show ?thesis using less.prems by (simp add: recv_loop.simps)
  next
    case False
    then have "bs \<noteq> []" using less.prems by auto
    then obtain k sk' where k: "0 < k" "int k \<le> int n" "lwip_recv net (int n) sk = (int k, take k bs, sk')" "stream net sk' (drop k bs) c"
      using stream_recv [OF less.prems(1), of "int n"] False by auto
    have "n - k < n" "n - k \<le> length (drop k bs)" using k(1,2) less.prems(2) by auto
    from less.IH [OF this(1) k(4) this(2), of "acc @ take k bs"] obtain sk'' where
      s: "recv_loop net t (int (n - k)) (acc @ take k bs) sk' = (t, (acc @ take k bs) @ take (n - k) (drop k bs), sk'')"
        "stream net sk'' (drop (n - k) (drop k bs)) c" by blast
    have "recv_loop net t (int n) acc sk = recv_loop net t (int n - int k) (acc @ take k bs) sk'"
      using k(1,3) False by (subst recv_loop.simps) simp
    moreover have "take k bs @ take (n - k) (drop k bs) = take n bs" using k(2) take_add [of k "n - k" bs] by simp
    ultimately show ?thesis using s k(2) by (simp add: of_nat_diff)
  qed
qed

text \<open>However the server's bytes are cut into buffers, a read delivers the next of them, and the rest stays to be read.\<close>

lemma RecvData_stream:
  assumes "stream net sk bs c" "n \<le> length bs"
  shows "\<exists>sk'. RecvData net (int n) (Some sk) = (int n, take n bs, Some sk') \<and> stream net sk' (drop n bs) c"
  using stream_recv_loop [OF assms, of "int n" "[]"] by (auto simp: RecvData_def)

end
