(* ===== verification/SmbClient.thy ===== *)
theory SmbClient
  imports SmbNet
begin

text \<open>
  The session of the SMB client (\<open>src/modules/iopcore/cdvdman/smb.c\<close>, packets of \<open>smb.h\<close>): negotiation, log-in, connection to the
  share, opening and closing files.  A request and its response share one buffer, so what a response does not overwrite is read
  from the request.  Packed structures are lists of bytes; fields that the code leaves zero are zero bytes.
\<close>

subsection \<open>The buffer\<close>

record 'n smb =
  SMB_buf :: "u8 list"
  server :: server_specs
  UID :: u16
  TID :: u16
  main_socket :: "'n lwip_socket option"
  smb_io_sema :: nat

definition SMB_BUF_SIZE :: nat where "SMB_BUF_SIZE = 896 + 128"

definition put :: "nat \<Rightarrow> u8 list \<Rightarrow> 'n smb \<Rightarrow> ub + 'n smb" where
  "put i bs s = (if i + length bs \<le> 4 + SMB_BUF_SIZE then Inr (s\<lparr>SMB_buf := write_at (SMB_buf s) i bs\<rparr>) else Inl OutOfBounds)"

definition ZERO_PKT_ALIGNED :: "nat \<Rightarrow> 'n smb \<Rightarrow> 'n smb" where
  "ZERO_PKT_ALIGNED n s = s\<lparr>SMB_buf := write_at (SMB_buf s) 4 (replicate ((n + 3) div 4 * 4) 0)\<rparr>"

definition WAITIOSEMA :: "'n smb \<Rightarrow> ub + 'n smb" where
  "WAITIOSEMA s = (if smb_io_sema s = 0 then Inl Diverges else Inr (s\<lparr>smb_io_sema := smb_io_sema s - 1\<rparr>))"

definition SIGNALIOSEMA :: "'n smb \<Rightarrow> 'n smb" where
  "SIGNALIOSEMA s = (if smb_io_sema s < 1 then s\<lparr>smb_io_sema := smb_io_sema s + 1\<rparr> else s)"

definition session_header :: "u32 \<Rightarrow> u32" where
  "session_header n = drop_bit 8 (n AND 0xFF0000) OR push_bit 8 (n AND 0xFF00) OR push_bit 24 (n AND 0xFF)"

definition nb_SetSessionMessage :: "u32 \<Rightarrow> 'n smb \<Rightarrow> 'n smb" where
  "nb_SetSessionMessage n s = s\<lparr>SMB_buf := write_at (SMB_buf s) 0 (bytes32 (session_header n))\<rparr>"

definition session_length :: "u32 \<Rightarrow> u32" where
  "session_length h = (push_bit 8 h AND 0xFF0000) OR (drop_bit 8 h AND 0xFF00) OR (drop_bit 24 h AND 0xFF)"

definition nb_GetSessionMessageLength :: "'n smb \<Rightarrow> nat" where
  "nb_GetSessionMessageLength s = unat (session_length (u32_at (SMB_buf s) 0))"

definition nb_GetPacketType :: "'n smb \<Rightarrow> u8" where
  "nb_GetPacketType s = ucast (u32_at (SMB_buf s) 0 AND 0xFF)"

subsection \<open>A request and its reply\<close>

text \<open>
  The session header is read again while keep-alive messages arrive; \<open>fuel\<close> bounds their number.
\<close>

fun reply_header :: "nat \<Rightarrow> 'n network \<Rightarrow> 'n smb \<Rightarrow> ub + int \<times> 'n smb" where
  "reply_header 0 net s = Inl Diverges"
| "reply_header (Suc fuel) net s =
     (let (r, bs, sk) = RecvData net 4 (main_socket s)
      in bindR (put 0 bs (s\<lparr>main_socket := sk\<rparr>)) (\<lambda>s.
           if r \<le> 0 then Inr (-2, s) else if nb_GetPacketType s \<noteq> 0 then reply_header fuel net s else Inr (1, s)))"

definition send_request :: "'n network \<Rightarrow> nat \<Rightarrow> u8 list \<Rightarrow> 'n smb \<Rightarrow> ub + int \<times> 'n smb" where
  "send_request net shdrlen spayload s =
     (let total = nb_GetSessionMessageLength s + 4; n = (if shdrlen = 0 then total else shdrlen + 4)
      in if n \<le> 4 + SMB_BUF_SIZE
         then let (r, sk) = SendData net (take n (SMB_buf s)) (main_socket s)
              in if r \<le> 0 then Inr (-1, s\<lparr>main_socket := sk\<rparr>)
                 else if shdrlen = 0 then Inr (1, s\<lparr>main_socket := sk\<rparr>)
                 else if total - n \<le> length spayload
                 then let (r, sk) = SendData net (take (total - n) spayload) sk in Inr (if r \<le> 0 then -1 else 1, s\<lparr>main_socket := sk\<rparr>)
                 else Inl OutOfBounds
         else Inl OutOfBounds)"

definition GetSMBServerReply :: "nat \<Rightarrow> 'n network \<Rightarrow> nat \<Rightarrow> u8 list \<Rightarrow> nat \<Rightarrow> 'n smb \<Rightarrow> ub + int \<times> 'n smb" where
  "GetSMBServerReply fuel net shdrlen spayload rhdrlen s =
     bindR (send_request net shdrlen spayload s) (\<lambda>(r, s).
       if r \<le> 0 then Inr (-1, s)
       else bindR (reply_header fuel net s) (\<lambda>(r, s).
         if r \<le> 0 then Inr (-2, s)
         else let total = nb_GetSessionMessageLength s; n = (if rhdrlen = 0 then total else rhdrlen);
                  (r, bs, sk) = RecvData net (int n) (main_socket s)
              in bindR (put 4 bs (s\<lparr>main_socket := sk\<rparr>)) (\<lambda>s. Inr (if r \<le> 0 then -2 else int total, s))))"

subsection \<open>Strings\<close>

definition asciiToUtf16 :: "u8 list \<Rightarrow> u8 list" where
  "asciiToUtf16 s = concat (map (\<lambda>c. [c, 0]) s) @ [0, 0]"

definition unicode :: "server_specs \<Rightarrow> bool" where
  "unicode ss = (Capabilities ss AND 0x4 \<noteq> 0)"

definition setStringField :: "server_specs \<Rightarrow> u8 list \<Rightarrow> u8 list" where
  "setStringField ss s = (if unicode ss then asciiToUtf16 s else s @ [0])"

text \<open>The padding byte that aligns a field of 16-bit characters.\<close>

definition pad :: "bool \<Rightarrow> u8 list" where
  "pad b = (if b then [0] else [])"

subsection \<open>Packets\<close>

definition SMBHeader :: "u8 \<Rightarrow> u8 \<Rightarrow> u16 \<Rightarrow> u16 \<Rightarrow> u16 \<Rightarrow> u8 list" where
  "SMBHeader cmd flags flags2 tid uid =
     bytes32 0x424D53FF @ [cmd] @ replicate 4 0 @ [flags] @ bytes16 flags2 @ replicate 12 0 @ bytes16 tid @ bytes16 0 @ bytes16 uid @ bytes16 0"

definition AndX :: "u8 \<Rightarrow> u8 list" where
  "AndX words = [words, 0xFF, 0, 0, 0]"

definition NegotiateProtocolRequest :: "u8 list \<Rightarrow> u8 list" where
  "NegotiateProtocolRequest dialect = SMBHeader 0x72 0x08 0x0001 0 0 @ [0] @ bytes16 (of_nat (length dialect + 2)) @ [2] @ dialect @ [0]"

definition SessionSetupAndXRequest :: "u16 \<Rightarrow> u16 \<Rightarrow> u32 \<Rightarrow> u16 \<Rightarrow> u16 \<Rightarrow> u32 \<Rightarrow> u8 list \<Rightarrow> u8 list" where
  "SessionSetupAndXRequest flags2 mpx key ansi_len unicode_len caps field =
     SMBHeader 0x73 0x08 flags2 0 0 @ AndX 13 @ bytes16 8192 @ bytes16 mpx @ bytes16 1 @ bytes32 key @ bytes16 ansi_len @ bytes16 unicode_len
       @ bytes32 0 @ bytes32 caps @ bytes16 (of_nat (length field)) @ field"

definition TreeConnectAndXRequest :: "u16 \<Rightarrow> u16 \<Rightarrow> u16 \<Rightarrow> u8 list \<Rightarrow> u8 list" where
  "TreeConnectAndXRequest flags2 uid password_len field =
     SMBHeader 0x75 0x08 flags2 0 uid @ AndX 4 @ bytes16 0 @ bytes16 password_len @ bytes16 (of_nat (length field)) @ field"

definition OpenAndXRequest :: "u16 \<Rightarrow> u16 \<Rightarrow> u16 \<Rightarrow> bool \<Rightarrow> u8 list \<Rightarrow> u8 list" where
  "OpenAndXRequest flags2 tid uid wr field =
     SMBHeader 0x2D 0x10 flags2 tid uid @ AndX 15 @ bytes16 0 @ bytes16 (if wr then 2 else 0) @ bytes16 0 @ bytes16 (if wr then 0x80 else 1)
       @ replicate 4 0 @ bytes16 1 @ bytes32 0 @ replicate 8 0 @ bytes16 (of_nat (length field)) @ field"

definition CloseRequest :: "u16 \<Rightarrow> u16 \<Rightarrow> u16 \<Rightarrow> u8 list" where
  "CloseRequest tid uid fid = SMBHeader 0x04 0x10 0x4001 tid uid @ [3] @ bytes16 fid @ bytes32 0 @ bytes16 0"

text \<open>The fields of a response.\<close>

definition Magic :: "'n smb \<Rightarrow> u32" where "Magic s = u32_at (SMB_buf s) 4"
definition Eclass :: "'n smb \<Rightarrow> u32" where "Eclass s = scast (u16_at (SMB_buf s) (4 + 5))"
definition Ecode :: "'n smb \<Rightarrow> u32" where "Ecode s = scast (u16_at (SMB_buf s) (4 + 7))"

text \<open>\<open>NT_Status\<close> reads the two halves of the status as the code does where it wants them whole.\<close>

definition NT_Status :: "'n smb \<Rightarrow> u32" where
  "NT_Status s = Eclass s OR push_bit 16 (Ecode s)"

subsection \<open>The session\<close>

definition flags2_of :: "server_specs \<Rightarrow> u16" where
  "flags2_of ss = 0x4001 OR (if unicode ss then 0x8000 else 0)"

text \<open>\<open>NT LM 0.12\<close>\<close>

definition dialect :: "u8 list" where
  "dialect = [0x4E, 0x54, 0x20, 0x4C, 0x4D, 0x20, 0x30, 0x2E, 0x31, 0x32]"

definition take_specs :: "u8 list \<Rightarrow> u8 list \<Rightarrow> 'n smb \<Rightarrow> ub + server_specs" where
  "take_specs user password s =
     (let b = SMB_buf s; mode = b ! (4 + 35); key_len = unat (b ! (4 + 66))
      in if key_len \<le> 8
         then Inr ((server s)\<lparr>Capabilities := u32_at b (4 + 52), SecurityMode := (if mode AND 1 \<noteq> 0 then 1 else 0),
                PasswordType := (if mode AND 2 \<noteq> 0 then 1 else 0), MaxBufferSize := u32_at b (4 + 40), MaxMpxCount := u16_at b (4 + 36),
                SessionKey := u32_at b (4 + 48), EncryptionKey := write_at (EncryptionKey (server s)) 0 (take key_len (drop (4 + 69) b)),
                PrimaryDomainServerName := take 32 (drop (4 + 69 + key_len) b), Username := strncpy user 35 @ [0], Password := strncpy password 47 @ [0],
                HashedFlag := (if mode AND 2 \<noteq> 0 then 0 else -1)\<rparr>)
         else Inl OutOfBounds)"

fun negotiate :: "nat \<Rightarrow> 'n network \<Rightarrow> 'n smb \<Rightarrow> ub + 'n smb" where
  "negotiate 0 net s = Inl Diverges"
| "negotiate (Suc fuel) net s =
     bindR (put 4 (NegotiateProtocolRequest dialect) (ZERO_PKT_ALIGNED 36 s)) (\<lambda>s.
     bindR (GetSMBServerReply fuel net 0 [] 0 (nb_SetSessionMessage (of_nat (36 + length dialect + 1)) s)) (\<lambda>(r, s).
       if Magic s \<noteq> 0x424D53FF then negotiate fuel net s
       else if Eclass s \<noteq> 0 then negotiate fuel net s
       else if SMB_buf s ! (4 + 32) \<noteq> 17 then negotiate fuel net s
       else Inr s))"

definition smb_NegotiateProtocol ::
  "nat \<Rightarrow> 'n network \<Rightarrow> 'n lwip_socket option \<Rightarrow> u8 list \<Rightarrow> u8 list \<Rightarrow> (server_specs \<Rightarrow> ub + server_specs) \<Rightarrow> 'n smb \<Rightarrow> ub + u32 \<times> 'n smb" where
  "smb_NegotiateProtocol fuel net sock user password hash_callback s =
     bindR (negotiate fuel net (s\<lparr>smb_io_sema := 1, main_socket := sock\<rparr>)) (\<lambda>s.
     bindR (take_specs user password s) (\<lambda>ss.
     bindR (hash_callback ss) (\<lambda>ss.
       Inr (u32_at (SMB_buf s) (4 + 52) AND 0xC04C, s\<lparr>server := ss\<rparr>))))"

text \<open>\<open>PlayStation 2\<close> and \<open>SMBMAN\<close>\<close>

definition native_os :: "u8 list" where
  "native_os = [0x50, 0x6C, 0x61, 0x79, 0x53, 0x74, 0x61, 0x74, 0x69, 0x6F, 0x6E, 0x20, 0x32]"

definition native_lanman :: "u8 list" where
  "native_lanman = [0x53, 0x4D, 0x42, 0x4D, 0x41, 0x4E]"

text \<open>The password of the array: the second response, or with \<open>LM_AUTH\<close> the first.\<close>

definition password_at :: "server_specs \<Rightarrow> nat \<Rightarrow> ub + u8 list" where
  "password_at ss AuthType =
     (let i = 24 * AuthType in if i + PasswordLen ss \<le> length (Password ss) then Inr (take (PasswordLen ss) (drop i (Password ss))) else Inl OutOfBounds)"

definition setup_field :: "server_specs \<Rightarrow> u8 list \<Rightarrow> ub + u8 list" where
  "setup_field ss pw =
     bindR (c_string (Username ss)) (\<lambda>user. bindR (c_string (PrimaryDomainServerName ss)) (\<lambda>domain.
       let u = unicode ss;
           f = pw @ pad (u \<and> even (length pw)) @ setStringField ss user @ setStringField ss domain;
           f = f @ pad (u \<and> odd (length f)) @ setStringField ss native_os;
           f = f @ pad (u \<and> odd (length f)) @ setStringField ss native_lanman
       in Inr f))"

definition session_setup :: "nat \<Rightarrow> 'n network \<Rightarrow> u32 \<Rightarrow> nat \<Rightarrow> 'n smb \<Rightarrow> ub + 'n smb" where
  "session_setup fuel net capabilities AuthType s =
     (let ss = server s; user_level = (SecurityMode ss = 1)
      in bindR (if user_level then password_at ss AuthType else Inr []) (\<lambda>pw.
         bindR (setup_field ss pw) (\<lambda>field.
         bindR (put 4 (SessionSetupAndXRequest (flags2_of ss) (if 2 \<le> MaxMpxCount ss then 2 else MaxMpxCount ss) (SessionKey ss)
                  (if AuthType = 0 then of_nat (length pw) else 0) (if AuthType = 0 then 0 else of_nat (length pw)) capabilities field)
                (ZERO_PKT_ALIGNED 61 s)) (\<lambda>s.
         bindR (GetSMBServerReply fuel net 0 [] 0 (nb_SetSessionMessage (of_nat (61 + length field)) s)) (\<lambda>(r, s). Inr s)))))"

definition setup_result :: "'n smb \<Rightarrow> int \<times> 'n smb" where
  "setup_result s = (if Magic s \<noteq> 0x424D53FF then (-1, s)
     else if Eclass s OR Ecode s \<noteq> 0 then (-1000, s) else (1, s\<lparr>UID := u16_at (SMB_buf s) (4 + 28)\<rparr>))"

definition smb_SessionSetupAndX :: "nat \<Rightarrow> 'n network \<Rightarrow> u32 \<Rightarrow> 'n smb \<Rightarrow> ub + int \<times> 'n smb" where
  "smb_SessionSetupAndX fuel net capabilities s =
     bindR (session_setup fuel net capabilities 1 s) (\<lambda>s.
       if Magic s = 0x424D53FF \<and> SecurityMode (server s) = 1 \<and> NT_Status s = 0xC000006D
       then bindR (session_setup fuel net capabilities 0 s) (\<lambda>s. Inr (setup_result s))
       else Inr (setup_result s))"

definition tree_field :: "server_specs \<Rightarrow> u8 list \<Rightarrow> ub + u8 list \<times> nat" where
  "tree_field ss ShareName =
     bindR (if SecurityMode ss = 0 then password_at ss 1 else Inr [0]) (\<lambda>pw.
       Inr (pw @ pad (unicode ss \<and> even (length pw)) @ setStringField ss ShareName @ [0x3F, 0x3F, 0x3F, 0x3F, 0x3F, 0], length pw))"

definition smb_TreeConnectAndX :: "nat \<Rightarrow> 'n network \<Rightarrow> u8 list \<Rightarrow> 'n smb \<Rightarrow> ub + int \<times> 'n smb" where
  "smb_TreeConnectAndX fuel net ShareName s =
     bindR (tree_field (server s) ShareName) (\<lambda>(field, password_len).
     bindR (put 4 (TreeConnectAndXRequest (flags2_of (server s)) (UID s) (of_nat password_len) field) (ZERO_PKT_ALIGNED 43 s)) (\<lambda>s.
     bindR (GetSMBServerReply fuel net 0 [] 0 (nb_SetSessionMessage (of_nat (43 + length field)) s)) (\<lambda>(r, s).
       Inr (if Magic s \<noteq> 0x424D53FF then (-1, s)
            else if Eclass s OR Ecode s \<noteq> 0 then (-1000, s) else (1, s\<lparr>TID := u16_at (SMB_buf s) (4 + 24)\<rparr>)))))"

text \<open>The result has the file's identifier, where the server gives one.\<close>

definition smb_OpenAndX :: "nat \<Rightarrow> 'n network \<Rightarrow> u8 list \<Rightarrow> bool \<Rightarrow> 'n smb \<Rightarrow> ub + int \<times> u16 option \<times> 'n smb" where
  "smb_OpenAndX fuel net filename Write s =
     bindR (WAITIOSEMA s) (\<lambda>s.
       let ss = server s; field = pad (unicode ss) @ setStringField ss filename
       in bindR (put 4 (OpenAndXRequest (flags2_of ss) (TID s) (UID s) Write field) (ZERO_PKT_ALIGNED 65 s)) (\<lambda>s.
          bindR (GetSMBServerReply fuel net 0 [] 0 (nb_SetSessionMessage (of_nat (65 + length field + 1)) s)) (\<lambda>(r, s).
            Inr (if Magic s \<noteq> 0x424D53FF then (-1, None, SIGNALIOSEMA s)
                 else if Eclass s \<noteq> 0 then (-1000, None, SIGNALIOSEMA s)
                 else (1, Some (u16_at (SMB_buf s) (4 + 37)), SIGNALIOSEMA s)))))"

definition smb_Close :: "nat \<Rightarrow> 'n network \<Rightarrow> u16 \<Rightarrow> 'n smb \<Rightarrow> ub + int \<times> 'n smb" where
  "smb_Close fuel net FID s =
     bindR (put 4 (CloseRequest (TID s) (UID s) FID) (ZERO_PKT_ALIGNED 41 s)) (\<lambda>s.
     bindR (GetSMBServerReply fuel net 0 [] 0 (nb_SetSessionMessage 41 s)) (\<lambda>(r, s).
       Inr (if r \<le> 0 then -5 else if Magic s \<noteq> 0x424D53FF then -5 else if NT_Status s \<noteq> 0 then -5 else 0, s)))"

definition smb_Disconnect :: "'n smb \<Rightarrow> 'n smb" where
  "smb_Disconnect s = s\<lparr>main_socket := None\<rparr>"

subsection \<open>Framing\<close>

lemma byte_masks: "(0xFF :: u32) = mask 8" "(0xFF00 :: u32) = push_bit 8 (mask 8)" "(0xFF0000 :: u32) = push_bit 16 (mask 8)"
  by (simp_all add: mask_eq_exp_minus_1 push_bit_eq_mult)

lemma session_header_length:
  assumes "n < 2 ^ 24"
  shows "session_length (session_header (of_nat n)) = of_nat n"
proof (rule bit_word_eqI)
  fix k assume "k < LENGTH(32)"
  have hi: "\<not> bit (of_nat n :: u32) j" if "24 \<le> j" for j
  proof -
    have "n < 2 ^ j" using assms that by (meson less_le_trans one_le_numeral power_increasing)
    then have "\<not> bit n j" by (simp add: bit_iff_odd)
    then show ?thesis by (simp add: bit_of_nat_iff)
  qed
  show "bit (session_length (session_header (of_nat n))) k = bit (of_nat n :: u32) k"
    unfolding session_length_def session_header_def byte_masks using hi [of k] \<open>k < LENGTH(32)\<close>
    by (cases "k < 8"; cases "k < 16"; cases "k < 24")
       (auto simp: bit_or_iff bit_and_iff bit_push_bit_iff bit_drop_bit_eq bit_mask_iff)
qed

lemma session_header_type: "ucast (session_header n AND 0xFF) = (0 :: u8)"
  unfolding session_header_def byte_masks
  by (rule bit_word_eqI) (auto simp: bit_or_iff bit_and_iff bit_push_bit_iff bit_drop_bit_eq bit_mask_iff bit_ucast_iff)

lemma packet_type: "nb_GetPacketType s = SMB_buf s ! 0"
  unfolding nb_GetPacketType_def u32_at_def u16_at_def byte_masks
  by (rule bit_word_eqI) (auto simp: bit_or_iff bit_and_iff bit_push_bit_iff bit_mask_iff bit_ucast_iff)

lemma u32_at_write: "length (bs :: u8 list) = 4 \<Longrightarrow> u32_at (write_at buf 0 bs) 0 = u32_at bs 0"
  by (simp add: write_at_def u32_at_def u16_at_def nth_append)

lemma set_get_length:
  "n < 2 ^ 24 \<Longrightarrow> SMB_buf s = write_at buf 0 (bytes32 (session_header (of_nat n))) \<Longrightarrow> nb_GetSessionMessageLength s = n"
  using u32_bytes32 [of "session_header (of_nat n)" "[]"]
  by (simp add: nb_GetSessionMessageLength_def u32_at_write session_header_length unat_of_nat)

text \<open>A keep-alive message is any other packet without a body.\<close>

definition keep_alive :: "u8 list \<Rightarrow> bool" where
  "keep_alive bs = (length bs = 4 \<and> bs ! 0 \<noteq> 0)"

lemma write_at_twice: "length a = length b \<Longrightarrow> write_at (write_at buf 0 a) 0 b = write_at buf 0 b"
  by (simp add: write_at_def)

lemma reply_header_stream:
  "\<lbrakk>\<forall>x \<in> set kas. keep_alive x; length kas < fuel; length h = 4; h ! 0 = 0; main_socket s = Some sk;
    stream net sk (concat kas @ h @ later) c\<rbrakk>
   \<Longrightarrow> \<exists>sk'. reply_header fuel net s = Inr (1, s\<lparr>main_socket := Some sk', SMB_buf := write_at (SMB_buf s) 0 h\<rparr>) \<and> stream net sk' later c"
proof (induction kas arbitrary: fuel s sk)
  case Nil
  then obtain fl where f: "fuel = Suc fl" by (cases fuel) auto
  obtain sk' where r: "RecvData net 4 (Some sk) = (4, h, Some sk')" "stream net sk' later c"
    using RecvData_stream [of net sk "h @ later" c 4] Nil by auto
  have "write_at (SMB_buf s) 0 h ! 0 = 0" using Nil.prems(3,4) by (simp add: write_at_def nth_append)
  then show ?case using f r Nil.prems(3,5) by (auto simp: packet_type put_def SMB_BUF_SIZE_def)
next
  case (Cons x kas)
  then obtain fl where f: "fuel = Suc fl" by (cases fuel) auto
  have x: "length x = 4" "x ! 0 \<noteq> 0" using Cons.prems(1) by (auto simp: keep_alive_def)
  obtain sk' where r: "RecvData net 4 (Some sk) = (4, x, Some sk')" "stream net sk' (concat kas @ h @ later) c"
    using RecvData_stream [of net sk "concat (x # kas) @ h @ later" c 4] Cons.prems(6) x by auto
  define s' where "s' = s\<lparr>main_socket := Some sk', SMB_buf := write_at (SMB_buf s) 0 x\<rparr>"
  have "write_at (SMB_buf s) 0 x ! 0 \<noteq> 0" using x by (simp add: write_at_def nth_append)
  then have e: "reply_header fuel net s = reply_header fl net s'"
    using f r(1) x Cons.prems(5) by (simp add: packet_type put_def SMB_BUF_SIZE_def s'_def)
  have "\<exists>sk''. reply_header fl net s' = Inr (1, s'\<lparr>main_socket := Some sk'', SMB_buf := write_at (SMB_buf s') 0 h\<rparr>) \<and> stream net sk'' later c"
    using Cons.prems f r(2) by (intro Cons.IH) (auto simp: s'_def)
  then show ?case using x(1) Cons.prems(3) by (auto simp: e s'_def write_at_twice)
qed

text \<open>The bytes of a message: the session header, then its text.\<close>

definition framed :: "u8 list \<Rightarrow> u8 list" where
  "framed m = bytes32 (session_header (of_nat (length m))) @ m"

lemma header_0: "bytes32 (session_header n) ! 0 = 0"
  unfolding session_header_def bytes32_def byte_masks
  by (simp, rule bit_word_eqI) (auto simp: bit_or_iff bit_and_iff bit_push_bit_iff bit_drop_bit_eq bit_mask_iff bit_ucast_iff)

lemma length_framed [simp]: "length (framed m) = 4 + length m"
  by (simp add: framed_def)

lemma framed_nonempty [simp]: "framed m \<noteq> []"
  by (simp add: framed_def bytes32_def)

lemma framed_length: "take (length (framed m)) (SMB_buf s) = framed m \<Longrightarrow> length m < 2 ^ 24 \<Longrightarrow> nb_GetSessionMessageLength s = length m"
proof -
  assume a: "take (length (framed m)) (SMB_buf s) = framed m" "length m < 2 ^ 24"
  obtain t where "SMB_buf s = bytes32 (session_header (of_nat (length m))) @ m @ t"
    using a(1) append_take_drop_id [of "length (framed m)" "SMB_buf s"] by (metis append.assoc framed_def)
  then show ?thesis using a(2) by (intro set_get_length [of _ _ "SMB_buf s"]) (simp_all add: write_at_def)
qed

lemma send_message:
  assumes "main_socket s = Some sk" "take (length (framed m)) (SMB_buf s) = framed m" "length m \<le> 1024"
    and "netconn_write net (framed m) (conn sk) = (True, c)"
  shows "send_request net 0 [] s = Inr (1, s\<lparr>main_socket := Some (sk\<lparr>conn := c\<rparr>)\<rparr>)"
proof -
  have n: "nb_GetSessionMessageLength s = length m" using framed_length [of m s] assms(2,3) by simp
  have "SendData net (framed m) (Some sk) = (int (4 + length m), Some (sk\<lparr>conn := c\<rparr>))"
    using SendData_ok [OF assms(4) framed_nonempty] assms(3) by simp
  then show ?thesis using assms(1-3) n by (simp add: send_request_def SMB_BUF_SIZE_def add.commute)
qed

text \<open>
  C31. The reply to a request, of any length and cut into buffers in any way, ends in the buffer, and what follows it is not lost;
  keep-alive messages before it are dropped.  A reply that is longer than the buffer is written behind it.
\<close>

theorem smb_reply:
  assumes m: "main_socket s = Some sk" "take (length (framed m)) (SMB_buf s) = framed m" "length m \<le> 1024" "length (SMB_buf s) = 1028"
    and sent: "netconn_write net (framed m) (conn sk) = (True, c)"
    and rsp: "stream net (sk\<lparr>conn := c\<rparr>) (concat kas @ framed rsp @ later) c'" "0 < length rsp" "length rsp < 2 ^ 24"
    and kas: "\<forall>x \<in> set kas. keep_alive x" "length kas < fuel"
  shows "if length rsp \<le> 1024
    then \<exists>sk'. GetSMBServerReply fuel net 0 [] 0 s
        = Inr (int (length rsp), s\<lparr>main_socket := Some sk', SMB_buf := framed rsp @ drop (4 + length rsp) (SMB_buf s)\<rparr>)
      \<and> stream net sk' later c'
    else GetSMBServerReply fuel net 0 [] 0 s = Inl OutOfBounds"
proof -
  define h where "h = bytes32 (session_header (of_nat (length rsp)))"
  define s1 where "s1 = s\<lparr>main_socket := Some (sk\<lparr>conn := c\<rparr>)\<rparr>"
  have h: "length h = 4" "h ! 0 = 0" by (simp_all add: h_def header_0)
  have st: "stream net (sk\<lparr>conn := c\<rparr>) (concat kas @ h @ rsp @ later) c'" using rsp(1) by (simp add: framed_def h_def)
  obtain sk1 where r: "reply_header fuel net s1 = Inr (1, s1\<lparr>main_socket := Some sk1, SMB_buf := write_at (SMB_buf s1) 0 h\<rparr>)"
    "stream net sk1 (rsp @ later) c'"
    using reply_header_stream [OF kas h _ st, of s1] by (auto simp: s1_def)
  define s2 where "s2 = s1\<lparr>main_socket := Some sk1, SMB_buf := write_at (SMB_buf s1) 0 h\<rparr>"
  have n: "nb_GetSessionMessageLength s2 = length rsp" using rsp(3) by (intro set_get_length) (simp_all add: s2_def h_def)
  obtain sk2 where r2: "RecvData net (int (length rsp)) (Some sk1) = (int (length rsp), rsp, Some sk2)" "stream net sk2 later c'"
    using RecvData_stream [OF r(2), of "length rsp"] by auto
  have "GetSMBServerReply fuel net 0 [] 0 s = bindR (put 4 rsp (s2\<lparr>main_socket := Some sk2\<rparr>)) (\<lambda>s. Inr (int (length rsp), s))"
    using send_message [OF m(1-3) sent] r r2 n rsp(2) by (simp add: GetSMBServerReply_def s1_def [symmetric] s2_def [symmetric]) (simp add: s2_def)
  moreover have "write_at (write_at (SMB_buf s) 0 h) 4 rsp = framed rsp @ drop (4 + length rsp) (SMB_buf s)"
    using m(4) h(1) by (simp add: write_at_def framed_def h_def add.commute)
  ultimately show ?thesis using r2(2) by (auto simp: put_def SMB_BUF_SIZE_def s2_def s1_def)
qed

subsection \<open>A lost connection\<close>

definition lost :: "'n network \<Rightarrow> 'n lwip_socket option \<Rightarrow> bool" where
  "lost net sk = (\<forall>bs. bs \<noteq> [] \<longrightarrow> fst (SendData net bs sk) \<le> 0)"

lemma lost_None: "lost net None"
  by (simp add: lost_def SendData_def)

lemma reply_lost:
  assumes "lost net (main_socket s)" "nb_GetSessionMessageLength s \<le> 1024" "length (SMB_buf s) = 1028"
  shows "\<exists>bs. GetSMBServerReply fuel net 0 [] 0 s = Inr (-1, s\<lparr>main_socket := snd (SendData net bs (main_socket s))\<rparr>)"
proof -
  define bs where "bs = take (nb_GetSessionMessageLength s + 4) (SMB_buf s)"
  obtain r sk where r: "SendData net bs (main_socket s) = (r, sk)" by fastforce
  have "bs \<noteq> []" using assms(3) by (auto simp: bs_def)
  then have "r \<le> 0" using assms(1) r by (metis lost_def fst_conv)
  then show ?thesis using assms(2) r by (intro exI [of _ bs]) (simp add: GetSMBServerReply_def send_request_def SMB_BUF_SIZE_def bs_def)
qed

lemma request_lost:
  assumes "lost net (main_socket s)" "length (SMB_buf s) = 1028" "length pkt \<le> 1024" "n \<le> 1000" "k \<le> 1024"
  shows "\<exists>sk buf t. drop 4 buf = pkt @ t \<and> length buf = 1028 \<and> (\<exists>bs. sk = snd (SendData net bs (main_socket s)))
    \<and> bindR (put 4 pkt (ZERO_PKT_ALIGNED n s)) (\<lambda>s. bindR (GetSMBServerReply fuel net 0 [] 0 (nb_SetSessionMessage (of_nat k) s)) g)
      = g (-1, s\<lparr>SMB_buf := buf, main_socket := sk\<rparr>)"
proof -
  define b where "b = write_at (SMB_buf s) 4 (replicate ((n + 3) div 4 * 4) (0 :: u8))"
  have z: "(n + 3) div 4 * 4 \<le> 1003" using assms(4) by linarith
  have b: "length b = 1028" using assms(2) z by (simp add: b_def)
  define buf where "buf = write_at (write_at b 4 pkt) 0 (bytes32 (session_header (of_nat k)))"
  have l: "length (write_at b 4 pkt) = 1028" using b assms(3) by simp
  then have lb: "length buf = 1028" by (simp add: buf_def)
  have "drop 4 buf = drop 4 (write_at b 4 pkt)" by (simp add: buf_def write_at_def)
  then have d: "drop 4 buf = pkt @ drop (4 + length pkt) b" using b by (simp add: drop_write_at)
  define s' where "s' = s\<lparr>SMB_buf := buf\<rparr>"
  have "nb_GetSessionMessageLength s' = k" using assms(5) by (intro set_get_length) (simp_all add: s'_def buf_def)
  then obtain sk bs where "GetSMBServerReply fuel net 0 [] 0 s' = Inr (-1, s'\<lparr>main_socket := sk\<rparr>)" "sk = snd (SendData net bs (main_socket s))"
    using reply_lost [of net s' fuel] assms(1,5) lb by (auto simp: s'_def)
  moreover have "put 4 pkt (ZERO_PKT_ALIGNED n s) = Inr (s\<lparr>SMB_buf := write_at b 4 pkt\<rparr>)"
    using assms(3) by (simp add: put_def ZERO_PKT_ALIGNED_def SMB_BUF_SIZE_def b_def)
  moreover have "nb_SetSessionMessage (of_nat k) (s\<lparr>SMB_buf := write_at b 4 pkt\<rparr>) = s'"
    by (simp add: nb_SetSessionMessage_def buf_def s'_def)
  ultimately have "bindR (put 4 pkt (ZERO_PKT_ALIGNED n s)) (\<lambda>s. bindR (GetSMBServerReply fuel net 0 [] 0 (nb_SetSessionMessage (of_nat k) s)) g)
      = g (-1, s\<lparr>SMB_buf := buf, main_socket := sk\<rparr>)" by (simp add: s'_def)
  then show ?thesis using d lb \<open>sk = snd (SendData net bs (main_socket s))\<close> by blast
qed

lemma drop_at:
  assumes "drop 4 buf = p" "4 \<le> length buf"
  shows "buf ! (4 + i) = p ! i" "u16_at buf (4 + i) = u16_at p i" "u32_at buf (4 + i) = u32_at p i"
  using assms nth_drop [of 4 buf] by (auto simp: u16_at_def u32_at_def add.assoc [symmetric])

lemma SMBHeader_fields:
  "length (SMBHeader cmd flags flags2 tid uid) = 32"
  "u32_at (SMBHeader cmd flags flags2 tid uid @ r) 0 = 0x424D53FF"
  "u16_at (SMBHeader cmd flags flags2 tid uid @ r) 5 = 0"
  "u16_at (SMBHeader cmd flags flags2 tid uid @ r) 7 = 0"
  "u16_at (SMBHeader cmd flags flags2 tid uid @ r) 24 = tid"
  "u16_at (SMBHeader cmd flags flags2 tid uid @ r) 28 = uid"
proof -
  show "length (SMBHeader cmd flags flags2 tid uid) = 32" by (simp add: SMBHeader_def)
  show "u32_at (SMBHeader cmd flags flags2 tid uid @ r) 0 = 0x424D53FF" by (simp add: SMBHeader_def)
  show "u16_at (SMBHeader cmd flags flags2 tid uid @ r) 5 = 0" by (simp add: SMBHeader_def u16_at_def bytes32_def bytes16_def nth_append)
  show "u16_at (SMBHeader cmd flags flags2 tid uid @ r) 7 = 0" by (simp add: SMBHeader_def u16_at_def bytes32_def bytes16_def nth_append)
  let ?a = "bytes32 0x424D53FF @ [cmd] @ replicate 4 0 @ [flags] @ bytes16 flags2 @ replicate 12 0"
  have "u16_at (?a @ bytes16 tid @ bytes16 0 @ bytes16 uid @ bytes16 0 @ r) (24 + 0) = tid" by (subst u16_at_append) simp_all
  then show "u16_at (SMBHeader cmd flags flags2 tid uid @ r) 24 = tid" by (simp add: SMBHeader_def)
  have "u16_at ((?a @ bytes16 tid @ bytes16 0) @ bytes16 uid @ bytes16 0 @ r) (28 + 0) = uid" by (subst u16_at_append) simp_all
  then show "u16_at (SMBHeader cmd flags flags2 tid uid @ r) 28 = uid" by (simp add: SMBHeader_def)
qed

text \<open>The header of a request, read as that of the response to it.\<close>

lemma request_read_back:
  assumes "drop 4 buf = SMBHeader cmd flags flags2 tid uid @ r" "length buf = 1028" "SMB_buf s = buf"
  shows "Magic s = 0x424D53FF" "Eclass s = 0" "Ecode s = 0" "u16_at buf (4 + 24) = tid" "u16_at buf (4 + 28) = uid"
proof -
  have l: "4 \<le> length buf" using assms(2) by simp
  note d = drop_at [OF assms(1) l]
  show "Magic s = 0x424D53FF" using d(3) [of 0] assms(3) by (simp add: Magic_def SMBHeader_fields)
  show "Eclass s = 0" unfolding Eclass_def assms(3) d(2) by (simp add: SMBHeader_fields)
  show "Ecode s = 0" unfolding Ecode_def assms(3) d(2) by (simp add: SMBHeader_fields)
  show "u16_at buf (4 + 24) = tid" "u16_at buf (4 + 28) = uid" unfolding d(2) by (simp_all add: SMBHeader_fields)
qed

lemma flags_field: "u16_at (OpenAndXRequest flags2 tid uid wr field @ r) 37 = 0"
proof -
  have "u16_at ((SMBHeader 0x2D 0x10 flags2 tid uid @ AndX 15) @ bytes16 0 @ t) (37 + 0) = 0" for t
    by (subst u16_at_append) (simp_all add: AndX_def SMBHeader_fields)
  then show ?thesis by (simp add: OpenAndXRequest_def)
qed

lemma length_setString: "length (setStringField ss x) \<le> 2 * length x + 2"
  by (simp add: setStringField_def asciiToUtf16_def length_concat comp_def sum_list_triv)

lemma open_lost:
  assumes "lost net (main_socket s)" "length (SMB_buf s) = 1028" "smb_io_sema s = 1" "length name < 400"
  shows "\<exists>s'. smb_OpenAndX fuel net name wr s = Inr (1, Some 0, s') \<and> smb_io_sema s' = 1"
proof -
  define field where "field = pad (unicode (server s)) @ setStringField (server s) name"
  have f: "length field \<le> 803" using length_setString [of "server s" name] assms(4) by (simp add: field_def pad_def)
  define p where "p = OpenAndXRequest (flags2_of (server s)) (TID s) (UID s) wr field"
  have lp: "length p = 65 + length field" by (simp add: p_def OpenAndXRequest_def SMBHeader_fields AndX_def)
  define s0 where "s0 = s\<lparr>smb_io_sema := 0\<rparr>"
  define g where "g = (\<lambda>(r :: int, s :: 'a smb). Inr (if Magic s \<noteq> 0x424D53FF then (-1, None, SIGNALIOSEMA s)
    else if Eclass s \<noteq> 0 then (-1000, None, SIGNALIOSEMA s) else (1, Some (u16_at (SMB_buf s) (4 + 37)), SIGNALIOSEMA s)) :: ub + int \<times> u16 option \<times> 'a smb)"
  obtain sk buf t where r: "drop 4 buf = p @ t" "length buf = 1028"
    "bindR (put 4 p (ZERO_PKT_ALIGNED 65 s0)) (\<lambda>s. bindR (GetSMBServerReply fuel net 0 [] 0 (nb_SetSessionMessage (of_nat (65 + length field + 1)) s)) g)
      = g (-1, s0\<lparr>SMB_buf := buf, main_socket := sk\<rparr>)"
    using request_lost [of net s0 p 65 "65 + length field + 1" fuel g] assms(1,2) f lp by (auto simp: s0_def)
  define s1 where "s1 = s0\<lparr>SMB_buf := buf, main_socket := sk\<rparr>"
  have s1: "SMB_buf s1 = buf" "smb_io_sema s1 = 0" by (simp_all add: s1_def s0_def)
  have o: "smb_OpenAndX fuel net name wr s = g (-1, s1)"
    unfolding s1_def r(3) [symmetric] using assms(3) by (simp add: smb_OpenAndX_def WAITIOSEMA_def Let_def s0_def g_def field_def p_def)
  have d: "drop 4 buf = SMBHeader 0x2D 0x10 (flags2_of (server s)) (TID s) (UID s) @ drop 32 p @ t"
    using r(1) by (simp add: p_def OpenAndXRequest_def SMBHeader_fields)
  have "u16_at buf (4 + 37) = 0" using drop_at(2) [OF r(1), of 37] r(2) flags_field by (simp add: p_def)
  then show ?thesis using o s1 request_read_back [OF d r(2) s1(1)] by (simp add: g_def SIGNALIOSEMA_def)
qed

lemma tree_lost:
  assumes "lost net (main_socket s)" "length (SMB_buf s) = 1028" "SecurityMode (server s) = 1" "length share < 400"
  shows "\<exists>s'. smb_TreeConnectAndX fuel net share s = Inr (1, s') \<and> TID s' = 0"
proof -
  obtain field n where t: "tree_field (server s) share = Inr (field, n)" "length field \<le> 810"
    using length_setString [of "server s" share] assms(3,4) by (simp add: tree_field_def pad_def)
  define p where "p = TreeConnectAndXRequest (flags2_of (server s)) (UID s) (of_nat n) field"
  have lp: "length p = 43 + length field" by (simp add: p_def TreeConnectAndXRequest_def SMBHeader_fields AndX_def)
  define g where "g = (\<lambda>(r :: int, s :: 'a smb). Inr (if Magic s \<noteq> 0x424D53FF then (-1, s)
    else if Eclass s OR Ecode s \<noteq> 0 then (-1000, s) else (1, s\<lparr>TID := u16_at (SMB_buf s) (4 + 24)\<rparr>)) :: ub + int \<times> 'a smb)"
  obtain sk buf t' where r: "drop 4 buf = p @ t'" "length buf = 1028"
    "bindR (put 4 p (ZERO_PKT_ALIGNED 43 s)) (\<lambda>s. bindR (GetSMBServerReply fuel net 0 [] 0 (nb_SetSessionMessage (of_nat (43 + length field)) s)) g)
      = g (-1, s\<lparr>SMB_buf := buf, main_socket := sk\<rparr>)"
    using request_lost [of net s p 43 "43 + length field" fuel g] assms(1,2) t(2) lp by auto
  define s1 where "s1 = s\<lparr>SMB_buf := buf, main_socket := sk\<rparr>"
  have s1: "SMB_buf s1 = buf" by (simp add: s1_def)
  have o: "smb_TreeConnectAndX fuel net share s = g (-1, s1)"
    unfolding s1_def r(3) [symmetric] using t(1) by (simp add: smb_TreeConnectAndX_def g_def p_def)
  have d: "drop 4 buf = SMBHeader 0x75 0x08 (flags2_of (server s)) 0 (UID s) @ drop 32 p @ t'"
    using r(1) by (simp add: p_def TreeConnectAndXRequest_def SMBHeader_fields)
  show ?thesis using o s1 request_read_back [OF d r(2) s1] by (simp add: g_def)
qed

text \<open>The negotiation is repeated while no response comes, without looking at the connection.\<close>

lemma negotiate_lost:
  assumes P: "\<And>sk bs. P sk \<Longrightarrow> lost net sk \<and> P (snd (SendData net bs sk))"
  shows "\<lbrakk>P (main_socket s); length (SMB_buf s) = 1028\<rbrakk> \<Longrightarrow> negotiate fuel net s = Inl Diverges"
proof (induction fuel arbitrary: s)
  case (Suc fuel)
  define p where "p = NegotiateProtocolRequest dialect"
  have lp: "length p = 47" by (simp add: p_def NegotiateProtocolRequest_def SMBHeader_fields dialect_def)
  define g where "g = (\<lambda>(r :: int, s). if Magic s \<noteq> 0x424D53FF then negotiate fuel net s else if Eclass s \<noteq> 0 then negotiate fuel net s
    else if SMB_buf s ! (4 + 32) \<noteq> 17 then negotiate fuel net s else Inr s)"
  obtain sk buf t bs where r: "drop 4 buf = p @ t" "length buf = 1028" "sk = snd (SendData net bs (main_socket s))"
    "bindR (put 4 p (ZERO_PKT_ALIGNED 36 s)) (\<lambda>s. bindR (GetSMBServerReply fuel net 0 [] 0 (nb_SetSessionMessage (of_nat 47) s)) g)
      = g (-1, s\<lparr>SMB_buf := buf, main_socket := sk\<rparr>)"
    using request_lost [of net s p 36 47 fuel g] P [OF Suc.prems(1)] Suc.prems(2) lp by auto
  have "buf ! (4 + 32) = 0" using drop_at(1) [OF r(1), of 32] r(2)
    by (simp add: p_def NegotiateProtocolRequest_def nth_append SMBHeader_fields)
  moreover have "negotiate fuel net (s\<lparr>SMB_buf := buf, main_socket := sk\<rparr>) = Inl Diverges"
    using P [OF Suc.prems(1)] r(2,3) by (intro Suc.IH) simp_all
  ultimately have "g (-1, s\<lparr>SMB_buf := buf, main_socket := sk\<rparr>) = Inl Diverges" by (simp add: g_def)
  moreover have "length dialect = 10" by (simp add: dialect_def)
  ultimately show ?case using r(4) by (simp add: p_def [symmetric] g_def [symmetric])
qed simp

text \<open>
  Once the connection is lost, or when it never came about, a file is still opened and the share still connected, with the number 0:
  the code does not look at the result of the exchange, and the request that is in the buffer passes for the response.  The
  negotiation, for which a response has to look different, is repeated for ever.
\<close>

theorem lost_connection:
  assumes l: "lost net (main_socket s)" and "length (SMB_buf s) = 1028" "SecurityMode (server s) = 1" "smb_io_sema s = 1"
    and "length name < 400" "length share < 400"
  shows "(\<exists>s'. smb_TreeConnectAndX fuel net share s = Inr (1, s') \<and> TID s' = 0)
    \<and> (\<exists>s'. smb_OpenAndX fuel net name wr s = Inr (1, Some 0, s') \<and> smb_io_sema s' = 1)
    \<and> smb_NegotiateProtocol fuel net None user password hash s = Inl Diverges"
proof (intro conjI)
  show "\<exists>s'. smb_TreeConnectAndX fuel net share s = Inr (1, s') \<and> TID s' = 0" using tree_lost [OF l assms(2,3,6)] .
  show "\<exists>s'. smb_OpenAndX fuel net name wr s = Inr (1, Some 0, s') \<and> smb_io_sema s' = 1" using open_lost [OF l assms(2,4,5)] .
  have "negotiate fuel net (s\<lparr>smb_io_sema := 1, main_socket := None\<rparr>) = Inl Diverges"
    by (rule negotiate_lost [where P = "\<lambda>sk. sk = None"]) (use assms(2) in \<open>simp_all add: lost_None SendData_def\<close>)
  then show "smb_NegotiateProtocol fuel net None user password hash s = Inl Diverges" by (simp add: smb_NegotiateProtocol_def)
qed

text \<open>A server that is down, and one that echoes a keep-alive message and an answer.\<close>

definition no_server :: "unit network" where
  "no_server = \<lparr>netconn_write = \<lambda>_ _. (False, ()), netconn_recv = \<lambda>_. (None, ())\<rparr>"

definition smb_example :: "'n lwip_socket option \<Rightarrow> u8 list \<Rightarrow> 'n smb" where
  "smb_example sk m = \<lparr>SMB_buf = m @ replicate (1028 - length m) 0,
     server = \<lparr>MaxBufferSize = 0, SessionKey = 0, PrimaryDomainServerName = replicate 32 0, EncryptionKey = replicate 8 0, Capabilities = 4,
       MaxMpxCount = 2, SecurityMode = 1, PasswordType = 1, Username = replicate 36 0, Password = replicate 48 0, PasswordLen = 0, HashedFlag = 1\<rparr>,
     UID = 0, TID = 0, main_socket = sk, smb_io_sema = 1\<rparr>"

definition replay_server :: "netbuf list network" where
  "replay_server = \<lparr>netconn_write = \<lambda>_ c. (True, c), netconn_recv = \<lambda>c. (case c of [] \<Rightarrow> (None, []) | b # bs \<Rightarrow> (Some b, bs))\<rparr>"

theorem lost_connection_witness:
  "(\<exists>s'. smb_TreeConnectAndX 3 no_server [0x50] (smb_example (Some (idle ())) []) = Inr (1, s') \<and> TID s' = 0)
   \<and> (\<exists>s'. smb_OpenAndX 3 no_server [0x5C, 0x41] False (smb_example (Some (idle ())) []) = Inr (1, Some 0, s') \<and> smb_io_sema s' = 1)
   \<and> smb_NegotiateProtocol 3 no_server None [] [] SmbInitHashPassword (smb_example (Some (idle ())) []) = Inl Diverges"
  by (rule lost_connection) (simp_all add: smb_example_def lost_def SendData_def no_server_def lwip_send_def send_loop.simps split: prod.split)

lemma replay_stream:
  assumes "\<forall>b \<in> set bufs. good_buf b"
  shows "stream replay_server (idle bufs) (concat (concat bufs)) []"
proof -
  have "delivers replay_server bufs bufs []" by (induction bufs) (auto simp: replay_server_def)
  then show ?thesis using assms by (auto simp: stream_def idle_def good_socket_def left_over_def)
qed

definition example_bufs :: "netbuf list" where
  "example_bufs = [[[0x85], [0, 0]], [[0, 0, 0, 0], [2, 0xFF]], [[0x53, 7]]]"

definition example_request :: "netbuf list smb" where
  "example_request = smb_example (Some (idle example_bufs)) (framed [9, 9])"

theorem smb_reply_witness:
  "if length [0xFF :: u8, 0x53] \<le> 1024
   then \<exists>sk'. GetSMBServerReply 3 replay_server 0 [] 0 example_request = Inr (int (length [0xFF :: u8, 0x53]),
         example_request\<lparr>main_socket := Some sk', SMB_buf := framed [0xFF, 0x53] @ drop (4 + length [0xFF :: u8, 0x53]) (SMB_buf example_request)\<rparr>)
     \<and> stream replay_server sk' [7] []
   else GetSMBServerReply 3 replay_server 0 [] 0 example_request = Inl OutOfBounds"
proof (rule smb_reply [where m = "[9, 9]" and kas = "[[0x85, 0, 0, 0]]" and c = example_bufs and sk = "idle example_bufs"])
  have f: "concat [[0x85, 0, 0, 0]] @ framed [0xFF, 0x53] @ [7] = concat (concat example_bufs)"
    by (simp add: framed_def bytes32_def session_header_def example_bufs_def)
  have g: "\<forall>b \<in> set example_bufs. good_buf b" by (simp add: example_bufs_def good_buf_def)
  show "stream replay_server (idle example_bufs\<lparr>conn := example_bufs\<rparr>) (concat [[0x85, 0, 0, 0]] @ framed [0xFF, 0x53] @ [7]) []"
    unfolding f using replay_stream [OF g] by (simp add: idle_def)
qed (simp_all add: example_request_def smb_example_def replay_server_def keep_alive_def)

end
