(* ===== verification/SmbFile.thy ===== *)
theory SmbFile
  imports SmbClient Zso
begin

text \<open>
  Reading and writing files of the share (\<open>smb_ReadAndX\<close> to \<open>smb_CloseAll\<close> of \<open>src/modules/iopcore/cdvdman/smb.c\<close>).  The data of
  a read are received into the buffer of the caller, behind the header, which goes to the common buffer.
\<close>

subsection \<open>Reading\<close>

definition ReadAndXRequest :: "u16 \<Rightarrow> u16 \<Rightarrow> u16 \<Rightarrow> u32 \<Rightarrow> u32 \<Rightarrow> u32 \<Rightarrow> u8 list" where
  "ReadAndXRequest tid uid fid offsetlow offsethigh n =
     SMBHeader 0x2E 0 0x4000 tid uid @ AndX 12 @ bytes16 fid @ bytes32 offsetlow @ bytes16 (ucast n) @ bytes16 0
       @ bytes16 (ucast (drop_bit 16 n)) @ bytes16 0 @ bytes16 0 @ bytes32 offsethigh @ bytes16 0"

definition recvfrom :: "'n network \<Rightarrow> u8 list \<Rightarrow> nat \<Rightarrow> int \<Rightarrow> 'n lwip_socket option \<Rightarrow> int \<times> u8 list \<times> u8 list \<times> 'n lwip_socket option" where
  "recvfrom net header index plen sock =
     (case sock of
        None \<Rightarrow> (-1, header, [], None)
      | Some sk \<Rightarrow> let (r, header, bs, sk) = lwip_recvfrom net header index plen sk in (r, header, bs, Some sk))"

text \<open>The bytes a call writes from position \<open>pos\<close> of the caller's buffer on.\<close>

definition store :: "u8 list \<Rightarrow> int \<Rightarrow> u8 list \<Rightarrow> ub + u8 list" where
  "store readbuf pos bs =
     (if bs = [] then Inr readbuf
      else if 0 \<le> pos \<and> nat pos + length bs \<le> length readbuf then Inr (write_at readbuf (nat pos) bs) else Inl OutOfBounds)"

fun read_response :: "nat \<Rightarrow> 'n network \<Rightarrow> int \<Rightarrow> u8 list \<Rightarrow> 'n smb \<Rightarrow> ub + int \<times> u8 list \<times> 'n smb" where
  "read_response 0 net nbytes readbuf s = Inl Diverges"
| "read_response (Suc fuel) net nbytes readbuf s =
     (let (r, buf, bs, sk) = recvfrom net (SMB_buf s) 49 nbytes (main_socket s); s = s\<lparr>SMB_buf := buf, main_socket := sk\<rparr>
      in bindR (store readbuf 0 bs) (\<lambda>readbuf.
           if r \<le> 0 then Inr (-2, readbuf, s)
           else if nb_GetPacketType s \<noteq> 0 then read_response fuel net nbytes readbuf s
           else Inr (r, readbuf, s)))"

fun fragments :: "nat \<Rightarrow> 'n network \<Rightarrow> int \<Rightarrow> int \<Rightarrow> int \<Rightarrow> u8 list \<Rightarrow> 'n lwip_socket option \<Rightarrow> ub + u8 list \<times> 'n lwip_socket option" where
  "fragments 0 net expected_size data_offset rcv_size readbuf sk = Inl Diverges"
| "fragments (Suc fuel) net expected_size data_offset rcv_size readbuf sk =
     (if rcv_size < expected_size
      then let (r, _, bs, sk) = recvfrom net [] 0 (expected_size - rcv_size) sk
           in bindR (store readbuf (rcv_size - data_offset - 4) bs) (\<lambda>readbuf.
                fragments fuel net expected_size data_offset (rcv_size + r) readbuf sk)
      else Inr (readbuf, sk))"

definition DataLength :: "'n smb \<Rightarrow> int" where
  "DataLength s = sint (push_bit 16 (u32_at (SMB_buf s) (4 + 47)) OR ucast (u16_at (SMB_buf s) (4 + 43)))"

definition DataOffset :: "'n smb \<Rightarrow> int" where
  "DataOffset s = uint (u16_at (SMB_buf s) (4 + 45))"

definition smb_ReadAndX :: "nat \<Rightarrow> 'n network \<Rightarrow> u16 \<Rightarrow> u32 \<Rightarrow> u32 \<Rightarrow> u8 list \<Rightarrow> int \<Rightarrow> 'n smb \<Rightarrow> ub + int \<times> u8 list \<times> 'n smb" where
  "smb_ReadAndX fuel net FID offsetlow offsethigh readbuf nbytes s =
     bindR (put 4 (ReadAndXRequest (TID s) (UID s) FID offsetlow offsethigh (word_of_int nbytes)) (ZERO_PKT_ALIGNED 59 s)) (\<lambda>s.
       let s = nb_SetSessionMessage 59 s; (r, sk) = SendData net (take (59 + 4) (SMB_buf s)) (main_socket s); s = s\<lparr>main_socket := sk\<rparr>
       in if r \<le> 0 then Inr (-1, readbuf, s)
          else bindR (read_response fuel net nbytes readbuf s) (\<lambda>(r, readbuf, s).
            if r \<le> 0 then Inr (r, readbuf, s)
            else let n = DataLength s
                 in bindR (fragments fuel net (int (nb_GetSessionMessageLength s) + 4) (DataOffset s) r readbuf (main_socket s)) (\<lambda>(readbuf, sk).
                      Inr (n, readbuf, s\<lparr>main_socket := sk\<rparr>))))"

definition add_offset :: "u32 \<Rightarrow> u32 \<Rightarrow> int \<Rightarrow> u32 \<times> u32" where
  "add_offset offsetlow offsethigh result =
     (let l = offsetlow + word_of_int result in (l, if l < offsetlow then offsethigh + 1 else offsethigh))"

text \<open>The buffer is what is left of it behind the data that are read.  The semaphore is given back only at the end.\<close>

function read_loop :: "nat \<Rightarrow> 'n network \<Rightarrow> u16 \<Rightarrow> u32 \<Rightarrow> u32 \<Rightarrow> u8 list \<Rightarrow> u8 list \<Rightarrow> int \<Rightarrow> int \<Rightarrow> 'n smb \<Rightarrow> ub + int \<times> u8 list \<times> 'n smb" where
  "read_loop fuel net FID offsetlow offsethigh done ptr nbytes remaining s =
     (if remaining \<le> 0 then Inr (nbytes, done @ ptr, SIGNALIOSEMA s)
      else bindR (smb_ReadAndX fuel net FID offsetlow offsethigh ptr (if 8192 < remaining then 8192 else remaining) s) (\<lambda>(result, ptr, s).
        if result \<le> 0 then Inr (result, done @ ptr, s)
        else let (offsetlow, offsethigh) = add_offset offsetlow offsethigh result
             in read_loop fuel net FID offsetlow offsethigh (done @ take (nat result) ptr) (drop (nat result) ptr) nbytes (remaining - result) s))"
  by pat_completeness auto
termination
  by (relation "measure (\<lambda>(_, _, _, _, _, _, _, _, remaining, _). nat remaining)") auto

declare read_loop.simps [simp del]

definition smb_ReadFile :: "nat \<Rightarrow> 'n network \<Rightarrow> u16 \<Rightarrow> u32 \<Rightarrow> u32 \<Rightarrow> u8 list \<Rightarrow> int \<Rightarrow> 'n smb \<Rightarrow> ub + int \<times> u8 list \<times> 'n smb" where
  "smb_ReadFile fuel net FID offsetlow offsethigh readbuf nbytes s =
     bindR (WAITIOSEMA s) (\<lambda>s. read_loop fuel net FID offsetlow offsethigh [] readbuf nbytes nbytes s)"

definition smb_ReadCD :: "nat \<Rightarrow> 'n network \<Rightarrow> u16 list \<Rightarrow> u32 \<Rightarrow> u32 \<Rightarrow> u8 list \<Rightarrow> nat \<Rightarrow> 'n smb \<Rightarrow> ub + int \<times> u8 list \<times> 'n smb" where
  "smb_ReadCD fuel net FIDs lsn nsectors buf part_num s =
     (if part_num < length FIDs
      then smb_ReadFile fuel net (FIDs ! part_num) (lsn * 2048) (drop_bit 21 lsn) buf (sint (nsectors * 2048)) s
      else Inl OutOfBounds)"

subsection \<open>Writing and closing\<close>

definition WriteAndXRequest :: "u16 \<Rightarrow> u16 \<Rightarrow> u16 \<Rightarrow> u32 \<Rightarrow> u32 \<Rightarrow> u32 \<Rightarrow> u8 list" where
  "WriteAndXRequest tid uid fid offsetlow offsethigh n =
     SMBHeader 0x2F 0 0x4000 tid uid @ AndX 14 @ bytes16 fid @ bytes32 offsetlow @ bytes32 0 @ bytes16 1 @ bytes16 (ucast n)
       @ bytes16 (ucast (drop_bit 16 n)) @ bytes16 (ucast n) @ bytes16 64 @ bytes32 offsethigh @ bytes16 (ucast n + 1) @ [0]"

definition smb_WriteAndX :: "nat \<Rightarrow> 'n network \<Rightarrow> u16 \<Rightarrow> u32 \<Rightarrow> u32 \<Rightarrow> u8 list \<Rightarrow> int \<Rightarrow> 'n smb \<Rightarrow> ub + int \<times> 'n smb" where
  "smb_WriteAndX fuel net FID offsetlow offsethigh writebuf nbytes s =
     bindR (put 4 (WriteAndXRequest (TID s) (UID s) FID offsetlow offsethigh (word_of_int nbytes)) (ZERO_PKT_ALIGNED 64 s)) (\<lambda>s.
     bindR (GetSMBServerReply fuel net 64 writebuf 0 (nb_SetSessionMessage (64 + word_of_int nbytes) s)) (\<lambda>(r, s).
       Inr (if r \<le> 0 then -5 else if NT_Status s \<noteq> 0 then -5 else nbytes, s)))"

function write_loop :: "nat \<Rightarrow> 'n network \<Rightarrow> u16 \<Rightarrow> u32 \<Rightarrow> u32 \<Rightarrow> u8 list \<Rightarrow> int \<Rightarrow> int \<Rightarrow> 'n smb \<Rightarrow> ub + int \<times> 'n smb" where
  "write_loop fuel net FID offsetlow offsethigh ptr nbytes remaining s =
     (if remaining \<le> 0 then Inr (nbytes, SIGNALIOSEMA s)
      else bindR (smb_WriteAndX fuel net FID offsetlow offsethigh ptr (if 65535 < remaining then 65535 else remaining) s) (\<lambda>(result, s).
        if result \<le> 0 then Inr (result, s)
        else let (offsetlow, offsethigh) = add_offset offsetlow offsethigh result
             in write_loop fuel net FID offsetlow offsethigh (drop (nat result) ptr) nbytes (remaining - result) s))"
  by pat_completeness auto
termination
  by (relation "measure (\<lambda>(_, _, _, _, _, _, _, remaining, _). nat remaining)") auto

declare write_loop.simps [simp del]

definition smb_WriteFile :: "nat \<Rightarrow> 'n network \<Rightarrow> u16 \<Rightarrow> u32 \<Rightarrow> u32 \<Rightarrow> u8 list \<Rightarrow> int \<Rightarrow> 'n smb \<Rightarrow> ub + int \<times> 'n smb" where
  "smb_WriteFile fuel net FID offsetlow offsethigh writebuf nbytes s =
     bindR (WAITIOSEMA s) (\<lambda>s. write_loop fuel net FID offsetlow offsethigh writebuf nbytes nbytes s)"

text \<open>The identifiers are unsigned, so every one of them counts as open.\<close>

fun close_all :: "nat \<Rightarrow> 'n network \<Rightarrow> nat \<Rightarrow> u16 list \<Rightarrow> 'n smb \<Rightarrow> ub + u16 list \<times> 'n smb" where
  "close_all fuel net n [] s = (if n = 0 then Inr ([], s) else Inl OutOfBounds)"
| "close_all fuel net n (fid # FIDs) s =
     (if n = 0 then Inr (fid # FIDs, s)
      else bindR (smb_Close fuel net fid s) (\<lambda>(r, s).
           bindR (close_all fuel net (n - 1) FIDs s) (\<lambda>(FIDs, s). Inr (0xFFFF # FIDs, s))))"

definition smb_CloseAll :: "nat \<Rightarrow> 'n network \<Rightarrow> nat \<Rightarrow> u16 list \<Rightarrow> 'n smb \<Rightarrow> ub + u16 list \<times> 'n smb" where
  "smb_CloseAll fuel net NumParts FIDs s = close_all fuel net NumParts FIDs s"

subsection \<open>A server that serves a file\<close>

text \<open>
  A response to a read: a header of \<open>d\<close> bytes, padding included, with the fields that the client looks at, and the data.  The client
  reads its length from one byte, so \<open>d\<close> is at most 251.  The server may send keep-alive messages first, each in a buffer of its own; then
  it sends the response framed, in any number of buffers, the first of which holds at least the header: the receive loop does not put
  a header together from two buffers, and it takes what arrives between two of them for data.
\<close>

definition is_read_response :: "nat \<Rightarrow> u8 list \<Rightarrow> u8 list \<Rightarrow> bool" where
  "is_read_response d m data = (59 \<le> d \<and> d \<le> 251 \<and> length m = d + length data \<and> drop d m = data \<and> u16_at m 45 = of_nat d
     \<and> u16_at m 43 = of_nat (length data) \<and> u32_at m 47 = 0)"

definition responds :: "'n network \<Rightarrow> 'n \<Rightarrow> nat \<Rightarrow> u8 list \<Rightarrow> 'n \<Rightarrow> bool" where
  "responds net c d m c' = (\<exists>kas b bufs. delivers net c (kas @ b # bufs) c' \<and> (\<forall>k \<in> set kas. good_buf k \<and> keep_alive (concat k))
     \<and> length kas \<le> 8192 \<and> good_buf b \<and> (\<forall>b \<in> set bufs. good_buf b) \<and> concat (concat (b # bufs)) = framed m \<and> 4 + d \<le> length (concat b))"

definition serves_file :: "'n network \<Rightarrow> ('n \<Rightarrow> bool) \<Rightarrow> u16 \<Rightarrow> image \<Rightarrow> nat \<Rightarrow> bool" where
  "serves_file net I fid img fsize = (\<forall>c tid uid lo hi n. I c \<and> 0 < n \<and> n \<le> 8192 \<longrightarrow>
     (\<exists>c1 c2 d m. netconn_write net (framed (ReadAndXRequest tid uid fid lo hi (of_nat n))) c = (True, c1)
        \<and> responds net c1 d m c2 \<and> I c2
        \<and> is_read_response d m (bytes_at img (unat hi * 2 ^ 32 + unat lo) (min n (fsize - (unat hi * 2 ^ 32 + unat lo))))))"

lemma length_request: "length (ReadAndXRequest tid uid fid lo hi n) = 59"
  by (simp add: ReadAndXRequest_def SMBHeader_fields AndX_def)

lemma write_at_append:
  assumes "p + length a + length b \<le> length buf"
  shows "write_at (write_at buf p a) (p + length a) b = write_at buf p (a @ b)"
  using assms by (simp add: write_at_def ac_simps)

lemma u16_index: "u16_at m 45 = of_nat d \<Longrightarrow> d \<le> 251 \<Longrightarrow> unat (m ! 45) = d"
proof -
  assume a: "u16_at m 45 = of_nat d" "d \<le> 251"
  have "(ucast (u16_at m 45) :: u8) = m ! 45"
    by (rule bit_word_eqI) (auto simp: u16_at_def bit_ucast_iff bit_or_iff bit_push_bit_iff)
  then have "unat (m ! 45) = unat (ucast (of_nat d :: u16) :: u8)" using a(1) by simp
  also have "\<dots> = d" using a(2) by (simp add: unsigned_ucast_eq unat_of_nat take_bit_eq_mod)
  finally show ?thesis .
qed

lemma recv_first:
  assumes "netconn_recv net c = (Some b, c')" "good_buf b" "4 + d \<le> length (concat b)" "59 \<le> d" "d \<le> 251"
    and "length header = 1028" "unat (concat b ! 49) = d" "int (length (concat b)) - int (4 + d) \<le> n" "0 < n"
  shows "lwip_recvfrom net header 49 n (idle c)
    = (int (length (concat b)), write_at header 0 (take 63 (concat b)), drop (4 + d) (concat b), idle c')"
proof -
  define w where "w = netbuf_len b"
  have l: "unat w = length (concat b)" "w \<noteq> 0" using good_bufD [OF assms(2)] by (simp_all add: w_def)
  define h where "h = write_at header 0 (take 63 (concat b))"
  have "h ! 49 = concat b ! 49" using assms(3,4) by (simp add: h_def write_at_def nth_append)
  then have i: "unat (h ! 49) + 4 = 4 + d" using assms(7) by simp
  have ic: "(ucast (h ! 49) :: u16) = of_nat d" using arg_cong [of "unat (h ! 49)" d "of_nat :: nat \<Rightarrow> u16"] i by simp
  define k where "k = (of_nat (4 + d) :: u16)"
  have k: "unat k = 4 + d" using assms(5) unat_of_nat_u16 [of "4 + d"] by (simp add: k_def)
  have kw: "k \<le> w" "unat (w - k) = length (concat b) - (4 + d)" using k l assms(3) by (simp_all add: word_le_nat_alt unat_sub)
  have 63: "(63 :: u16) \<le> w" using l assms(3,4) by (simp add: word_le_nat_alt)
  have hd: "recv_header b 0 w header 49 = (h, 4 + d, k, w - k)"
    using 63 i ic by (simp add: recv_header_def Let_def k_def h_def [symmetric])
  have "recv_payload b k (w - k) k n = (drop (4 + d) (concat b), w, 0)"
  proof (cases "w - k = 0")
    case True
    then have "length (concat b) \<le> 4 + d" "k = w" using kw(2) by simp_all
    then show ?thesis by (simp add: recv_payload_def)
  next
    case False
    have "uint (w - k) = int (length (concat b) - (4 + d))" using arg_cong [OF kw(2), of int] by simp
    then have "uint (w - k) \<le> n" using assms(3,8) by simp
    then show ?thesis using recv_payload_all [OF False, of n b k k] k kw(2) by simp
  qed
  moreover have "uint w = int (length (concat b))" using arg_cong [OF l(1), of int] by simp
  moreover have "4 + of_nat d = k" by (simp add: k_def)
  ultimately show ?thesis using assms(1) hd
    by (simp add: lwip_recvfrom_def next_netbuf_def w_def [symmetric] h_def [symmetric] idle_def)
qed

lemma fragments_all:
  "\<lbrakk>delivers net c bufs c'; \<forall>b \<in> set bufs. good_buf b; length bufs < fuel; rcv + int (length (concat (concat bufs))) = n;
    0 \<le> rcv - d - 4; nat (rcv - d - 4) + length (concat (concat bufs)) \<le> length buf\<rbrakk>
   \<Longrightarrow> fragments fuel net n d rcv buf (Some (idle c)) = Inr (write_at buf (nat (rcv - d - 4)) (concat (concat bufs)), Some (idle c'))"
proof (induction bufs arbitrary: fuel c rcv buf)
  case Nil
  then obtain f where "fuel = Suc f" by (cases fuel) auto
  then show ?case using Nil by (simp add: write_at_def)
next
  case (Cons b bufs)
  then obtain f where f: "fuel = Suc f" by (cases fuel) auto
  obtain c1 where c1: "netconn_recv net c = (Some b, c1)" "delivers net c1 bufs c'" using Cons.prems(1) by (auto split: prod.splits)
  have g: "good_buf b" using Cons.prems(2) by simp
  define L where "L = length (concat b)"
  have L: "0 < L" using g by (simp add: good_buf_def L_def)
  have "length (concat (concat (b # bufs))) = L + length (concat (concat bufs))" by (simp add: L_def)
  then have lt: "rcv < n" "int L \<le> n - rcv" using Cons.prems(4) L by linarith+
  have r: "lwip_recvfrom net [] 0 (n - rcv) (idle c) = (int L, [], concat b, idle c1)"
    using recv_whole [OF c1(1) g, of "n - rcv" "[]"] lt by (simp add: L_def)
  define p where "p = nat (rcv - d - 4)"
  have p: "nat (rcv + int L - d - 4) = p + L" using Cons.prems(5) by (simp add: p_def)
  have room: "p + L + length (concat (concat bufs)) \<le> length buf" using Cons.prems(6) by (simp add: p_def L_def)
  have s: "store buf (rcv - d - 4) (concat b) = Inr (write_at buf p (concat b))"
    using Cons.prems(5) room L by (auto simp: store_def p_def L_def)
  have "fragments f net n d (rcv + int L) (write_at buf p (concat b)) (Some (idle c1))
      = Inr (write_at (write_at buf p (concat b)) (p + L) (concat (concat bufs)), Some (idle c'))"
    using Cons.IH [OF c1(2), of f "rcv + int L" "write_at buf p (concat b)"] Cons.prems(2-5) f room p L by (simp add: L_def)
  then show ?case using f lt(1) r s room write_at_append [of p "concat b" "concat (concat bufs)" buf]
    by (simp add: recvfrom_def p_def [symmetric] L_def)
qed

text \<open>When the connection is closed in the middle of a response, the rest of it is waited for without end.\<close>

lemma fragments_lost:
  assumes "netconn_recv net c = (None, c)"
  shows "rcv < n \<Longrightarrow> fragments fuel net n d rcv buf (Some (idle c)) = Inl Diverges"
  by (induction fuel) (simp_all add: recvfrom_def lwip_recvfrom_def next_netbuf_def store_def assms)

lemma count_bufs: "\<forall>b \<in> set bufs. good_buf b \<Longrightarrow> length bufs \<le> length (concat (concat bufs))"
proof (induction bufs)
  case (Cons b bufs)
  then have "0 < length (concat b)" by (simp only: list.set_intros good_buf_def)
  moreover have "length (concat (concat (b # bufs))) = length (concat b) + length (concat (concat bufs))" by simp
  moreover have "length bufs \<le> length (concat (concat bufs))" "length (b # bufs) = Suc (length bufs)" using Cons by simp_all
  ultimately show ?case by linarith
qed simp

lemma u16_take: "i + 1 < k \<Longrightarrow> k \<le> length m \<Longrightarrow> u16_at (take k m @ r) i = u16_at m i"
  by (simp add: u16_at_def nth_append)

lemma u32_take: "i + 3 < k \<Longrightarrow> k \<le> length m \<Longrightarrow> u32_at (take k m @ r) i = u32_at m i"
  using u16_take [of i k m r] u16_take [of "i + 2" k m r] by (simp add: u32_at_def)

text \<open>What the header of a response leaves in the buffer.\<close>

lemma response_header:
  assumes m: "is_read_response d m data" "length data \<le> 8192" and b: "SMB_buf s = write_at old 0 (take 63 (framed m))" "length old = 1028"
  shows "nb_GetPacketType s = 0" "nb_GetSessionMessageLength s = length m" "DataLength s = int (length data)" "DataOffset s = int d"
    "length (SMB_buf s) = 1028"
proof -
  have r: "59 \<le> d" "d \<le> 251" "length m = d + length data" "u16_at m 45 = of_nat d" "u16_at m 43 = of_nat (length data)" "u32_at m 47 = 0"
    using m(1) by (simp_all add: is_read_response_def)
  define h where "h = bytes32 (session_header (of_nat (length m)))"
  have h: "length h = 4" by (simp add: h_def)
  have t: "take 63 (framed m) = h @ take 59 m" by (simp add: framed_def h_def [symmetric] h)
  define rest where "rest = take 59 m @ drop 63 old"
  have s: "SMB_buf s = h @ rest" using b r(1,3) h by (simp add: t write_at_def rest_def)
  then show "length (SMB_buf s) = 1028" using b(2) r(1,3) h by (simp add: rest_def)
  show "nb_GetPacketType s = 0" using s header_0 [of "of_nat (length m)"] h by (simp add: packet_type nth_append h_def)
  have "SMB_buf s = write_at (SMB_buf s) 0 h" using s h by (simp add: write_at_def)
  then show "nb_GetSessionMessageLength s = length m" using r(2,3) assms(2) by (intro set_get_length [of _ _ "SMB_buf s"]) (simp_all add: h_def)
  have "drop 4 (SMB_buf s) = take 59 m @ drop 63 old" "4 \<le> length (SMB_buf s)" using s h b(2) r(1,3) by (simp_all add: rest_def)
  note d = drop_at [OF this]
  show "DataOffset s = int d" using r unfolding DataOffset_def d(2) by (simp add: u16_take uint_nat unat_of_nat)
  have "u32_at (SMB_buf s) (4 + 47) = 0" "u16_at (SMB_buf s) (4 + 43) = of_nat (length data)"
    using r unfolding d by (simp_all add: u16_take u32_take)
  moreover have "ucast (of_nat (length data) :: u16) = (of_nat (length data) :: u32)"
    using assms(2) by (simp add: word_unat_eq_iff unsigned_ucast_eq unat_of_nat take_bit_eq_mod)
  moreover have "sint (of_nat (length data) :: u32) = int (length data)"
    using assms(2) by (simp add: signed_of_nat signed_take_bit_int_eq_self)
  ultimately show "DataLength s = int (length data)" by (simp add: DataLength_def)
qed

lemma read_request_buffer:
  assumes "length (SMB_buf s) = 1028" "length p = 59"
  shows "\<exists>buf. put 4 p (ZERO_PKT_ALIGNED 59 s) = Inr (s\<lparr>SMB_buf := buf\<rparr>)
    \<and> length (SMB_buf (nb_SetSessionMessage 59 (s\<lparr>SMB_buf := buf\<rparr>))) = 1028
    \<and> take 63 (SMB_buf (nb_SetSessionMessage 59 (s\<lparr>SMB_buf := buf\<rparr>))) = framed p"
  by (intro exI [of _ "take 4 (SMB_buf s) @ p @ 0 # drop 64 (SMB_buf s)"])
    (use assms in \<open>simp add: put_def ZERO_PKT_ALIGNED_def SMB_BUF_SIZE_def nb_SetSessionMessage_def write_at_def framed_def\<close>)

lemma recv_short:
  assumes "netconn_recv net c = (Some b, c')" "good_buf b" "length (concat b) < 63"
  shows "lwip_recvfrom net header 49 n (idle c) = (int (length (concat b)), write_at header 0 (concat b), [], idle c')"
proof -
  define w where "w = netbuf_len b"
  have l: "unat w = length (concat b)" using good_bufD [OF assms(2)] by (simp add: w_def)
  have w: "\<not> (63 :: u16) \<le> w" using l assms(3) by (simp add: word_le_nat_alt)
  have u: "uint w = int (length (concat b))" using arg_cong [OF l, of int] by simp
  show ?thesis using assms(1) w l u
    by (simp add: lwip_recvfrom_def next_netbuf_def recv_header_def recv_payload_def w_def [symmetric] idle_def)
qed

text \<open>Keep-alive messages before a response are dropped.\<close>

lemma read_response_keep_alives:
  "\<lbrakk>delivers net c (kas @ bufs) c'; \<forall>k \<in> set kas. good_buf k \<and> keep_alive (concat k); length kas < fuel; length (SMB_buf s) = 1028\<rbrakk>
   \<Longrightarrow> \<exists>c1 buf. delivers net c1 bufs c' \<and> length buf = 1028
     \<and> read_response fuel net n readbuf (s\<lparr>main_socket := Some (idle c)\<rparr>)
       = read_response (fuel - length kas) net n readbuf (s\<lparr>SMB_buf := buf, main_socket := Some (idle c1)\<rparr>)"
proof (induction kas arbitrary: c fuel s)
  case Nil
  then show ?case by (intro exI [of _ c] exI [of _ "SMB_buf s"]) simp
next
  case (Cons k kas)
  obtain f where f: "fuel = Suc f" using Cons.prems(3) by (cases fuel) auto
  obtain c1 where c1: "netconn_recv net c = (Some k, c1)" "delivers net c1 (kas @ bufs) c'" using Cons.prems(1) by (auto split: prod.splits)
  have k: "good_buf k" "length (concat k) = 4" "concat k ! 0 \<noteq> 0" using Cons.prems(2) by (auto simp: keep_alive_def)
  define h where "h = write_at (SMB_buf s) 0 (concat k)"
  have h: "length h = 1028" "h ! 0 \<noteq> 0" using k(2,3) Cons.prems(4) by (simp_all add: h_def write_at_def nth_append)
  define s' where "s' = s\<lparr>SMB_buf := h\<rparr>"
  have "length (concat k) < 63" unfolding k(2) by simp
  from recv_short [OF c1(1) k(1) this, of "SMB_buf s" n]
  have r: "lwip_recvfrom net (SMB_buf s) 49 n (idle c) = (4, h, [], idle c1)" unfolding k(2) h_def by simp
  have "read_response fuel net n readbuf (s\<lparr>main_socket := Some (idle c)\<rparr>) = read_response f net n readbuf (s'\<lparr>main_socket := Some (idle c1)\<rparr>)"
    using r h(2) by (simp add: f recvfrom_def store_def packet_type s'_def Let_def)
  moreover obtain c2 buf where "delivers net c2 bufs c'" "length buf = 1028"
    "read_response f net n readbuf (s'\<lparr>main_socket := Some (idle c1)\<rparr>)
      = read_response (f - length kas) net n readbuf (s'\<lparr>SMB_buf := buf, main_socket := Some (idle c2)\<rparr>)"
    using Cons.IH [OF c1(2), of f s'] Cons.prems(2,3) f h(1) by (auto simp: s'_def)
  ultimately show ?case by (intro exI [of _ c2] exI [of _ buf]) (simp add: f s'_def)
qed

lemma ReadAndX_responds:
  assumes s: "main_socket s = Some (idle c)" "length (SMB_buf s) = 1028" and n: "0 < n" "length data \<le> n" "n \<le> 8192" "n \<le> length readbuf"
    and sent: "netconn_write net (framed (ReadAndXRequest (TID s) (UID s) fid lo hi (of_nat n))) c = (True, c1)"
    and rsp: "responds net c1 d m c2" "is_read_response d m data" and fuel: "8192 < fuel"
  shows "\<exists>buf. smb_ReadAndX fuel net fid lo hi readbuf (int n) s
      = Inr (int (length data), write_at readbuf 0 data, s\<lparr>SMB_buf := buf, main_socket := Some (idle c2)\<rparr>) \<and> length buf = 1028"
proof -
  define p where "p = ReadAndXRequest (TID s) (UID s) fid lo hi (of_nat n)"
  have lp: "length p = 59" by (simp add: p_def length_request)
  obtain kas b bufs where ka: "delivers net c1 (kas @ b # bufs) c2" "\<forall>k \<in> set kas. good_buf k \<and> keep_alive (concat k)" "length kas \<le> 8192"
    and b: "good_buf b" "\<forall>b \<in> set bufs. good_buf b" "concat (concat (b # bufs)) = framed m" "4 + d \<le> length (concat b)"
    using rsp(1) unfolding responds_def by blast
  have d: "59 \<le> d" "d \<le> 251" "length m = d + length data" "drop d m = data" "u16_at m 45 = of_nat d"
    using rsp(2) by (simp_all add: is_read_response_def)
  have cb: "concat b @ concat (concat bufs) = framed m" using b(3) by simp
  have fm: "framed m = bytes32 (session_header (of_nat (length m))) @ m" by (simp add: framed_def)
  have "framed m ! 49 = m ! 45" by (simp add: fm nth_append)
  moreover have "framed m ! 49 = concat b ! 49" using d(1) b(4) by (simp add: cb [symmetric] nth_append)
  ultimately have i: "unat (concat b ! 49) = d" using u16_index [OF d(5,2)] by simp
  have t: "take 63 (concat b) = take 63 (framed m)" using d(1) b(4) by (simp add: cb [symmetric])
  define D1 where "D1 = drop (4 + d) (concat b)"
  have "drop (4 + d) (framed m) = data" using d(4) by (simp add: fm)
  then have D: "D1 @ concat (concat bufs) = data" using b(4) by (simp add: D1_def cb [symmetric])
  have lb: "int (length (concat b)) - int (4 + d) = int (length D1)" using b(4) by (simp add: D1_def)
  have l1: "length D1 \<le> length data" using D by auto
  obtain buf0 where q: "put 4 p (ZERO_PKT_ALIGNED 59 s) = Inr (s\<lparr>SMB_buf := buf0\<rparr>)"
    "length (SMB_buf (nb_SetSessionMessage 59 (s\<lparr>SMB_buf := buf0\<rparr>))) = 1028" "take 63 (SMB_buf (nb_SetSessionMessage 59 (s\<lparr>SMB_buf := buf0\<rparr>))) = framed p"
    using read_request_buffer [OF s(2) lp] by fastforce
  define s1 where "s1 = nb_SetSessionMessage 59 (s\<lparr>SMB_buf := buf0\<rparr>)"
  have s1: "main_socket s1 = Some (idle c)" "length (SMB_buf s1) = 1028" "take 63 (SMB_buf s1) = framed p"
    "\<And>x y. s1\<lparr>main_socket := x, SMB_buf := y\<rparr> = s\<lparr>SMB_buf := y, main_socket := x\<rparr>"
    using q(2,3) s(1) by (simp_all add: s1_def nb_SetSessionMessage_def)
  have snd: "SendData net (framed p) (Some (idle c)) = (63, Some (idle c1))"
    using SendData_ok [of net "framed p" "idle c" c1] sent lp by (simp add: p_def)
  have "length kas < fuel" using ka(3) fuel by linarith
  from read_response_keep_alives [OF ka(1,2) this s1(2), of "int n" readbuf] obtain ck bufk where
    k1: "delivers net ck (b # bufs) c2" "length bufk = 1028"
      "read_response fuel net (int n) readbuf (s1\<lparr>main_socket := Some (idle c1)\<rparr>)
        = read_response (fuel - length kas) net (int n) readbuf (s1\<lparr>SMB_buf := bufk, main_socket := Some (idle ck)\<rparr>)" by blast
  obtain c3 where c3: "netconn_recv net ck = (Some b, c3)" "delivers net c3 bufs c2" using k1(1) by (auto split: prod.splits)
  define h where "h = write_at bufk 0 (take 63 (concat b))"
  define s2 where "s2 = s1\<lparr>SMB_buf := h, main_socket := Some (idle c3)\<rparr>"
  define L where "L = length (concat b)"
  have L: "4 + d \<le> L" "L - (4 + d) = length D1" using b(4) by (simp_all add: L_def D1_def)
  have rcv: "lwip_recvfrom net bufk 49 (int n) (idle ck) = (int L, h, D1, idle c3)"
    unfolding L_def using recv_first [OF c3(1) b(1) b(4) d(1,2) k1(2) i, of "int n"] lb l1 n(1,2) by (simp add: h_def D1_def)
  have hd: "nb_GetPacketType s2 = 0" "nb_GetSessionMessageLength s2 = length m" "DataLength s2 = int (length data)" "DataOffset s2 = int d"
    "length (SMB_buf s2) = 1028"
    using response_header [OF rsp(2) _ _ k1(2), of s2] n(2,3) by (simp_all add: s2_def h_def t)
  have st: "store readbuf 0 D1 = Inr (write_at readbuf 0 D1)" using l1 n(2,4) by (auto simp: store_def write_at_def)
  obtain f where f: "fuel - length kas = Suc f" using ka(3) fuel by (cases "fuel - length kas") auto
  have r: "read_response fuel net (int n) readbuf (s1\<lparr>main_socket := Some (idle c1)\<rparr>)
      = Inr (int L, write_at readbuf 0 D1, s2)"
    unfolding k1(3) using rcv st hd(1) L(1) by (simp add: f recvfrom_def s2_def Let_def)
  have lm: "int L + int (length (concat (concat bufs))) = int (length m) + 4"
    using arg_cong [OF cb, of length] unfolding length_append L_def [symmetric] by simp
  have ld: "length D1 + length (concat (concat bufs)) = length data" using D by (metis length_append)
  have p1: "int L - int d - 4 = int (length D1)" using L by linarith
  have fr: "fragments fuel net (int (length m) + 4) (int d) (int L) (write_at readbuf 0 D1) (Some (idle c3)) = Inr (write_at readbuf 0 data, Some (idle c2))"
  proof -
    have "length bufs < fuel" using count_bufs [OF b(2)] ld n(2,3) fuel by linarith
    moreover have "length D1 + length (concat (concat bufs)) \<le> length (write_at readbuf 0 D1)" using ld n(2,4) l1 by simp
    ultimately have "fragments fuel net (int (length m) + 4) (int d) (int L) (write_at readbuf 0 D1) (Some (idle c3))
        = Inr (write_at (write_at readbuf 0 D1) (length D1) (concat (concat bufs)), Some (idle c2))"
      using fragments_all [OF c3(2) b(2), of fuel "int L" "int (length m) + 4" "int d" "write_at readbuf 0 D1"] lm p1 by simp
    then show ?thesis using write_at_append [of 0 D1 "concat (concat bufs)" readbuf] ld n(2,4) D by simp
  qed
  have "smb_ReadAndX fuel net fid lo hi readbuf (int n) s = Inr (int (length data), write_at readbuf 0 data, s2\<lparr>main_socket := Some (idle c2)\<rparr>)"
    using q(1) snd r fr hd L(1) s1(1,3)
    by (simp add: smb_ReadAndX_def p_def [symmetric] s1_def [symmetric] Let_def) (simp add: s2_def)
  then show ?thesis using hd(5) by (intro exI [of _ h]) (simp add: s2_def s1_def nb_SetSessionMessage_def)
qed

lemma add_offset_unat:
  assumes "unat hi * 2 ^ 32 + unat lo + k < 2 ^ 64" "k < 2 ^ 32" "add_offset lo hi (int k) = (lo', hi')"
  shows "unat hi' * 2 ^ 32 + unat lo' = unat hi * 2 ^ 32 + unat lo + k"
proof -
  have lo: "unat lo < 2 ^ 32" using unsigned_less [of lo] by simp
  have k: "unat (of_nat k :: u32) = k" using assms(2) by (simp add: unat_of_nat)
  have l: "lo' = lo + of_nat k" "hi' = (if lo' < lo then hi + 1 else hi)" using assms(3) by (auto simp: add_offset_def Let_def)
  show ?thesis
  proof (cases "unat lo + k < 2 ^ 32")
    case True
    then have "unat lo' = unat lo + k" using l(1) k unat_add_lem [of lo "of_nat k"] by simp
    then show ?thesis using l(2) by (simp add: word_less_nat_alt)
  next
    case False
    have "unat lo' = (unat lo + k) mod 2 ^ 32" using l(1) k by (simp add: unat_word_ariths)
    also have "\<dots> = unat lo + k - 2 ^ 32" using False lo assms(2) by (simp add: le_mod_geq)
    finally have u: "unat lo' + 2 ^ 32 = unat lo + k" using False by simp
    then have "lo' < lo" using assms(2) by (simp add: word_less_nat_alt)
    moreover have "unat (hi + 1) = unat hi + 1"
    proof -
      have "unat hi + 1 < 2 ^ 32" using assms(1) False by simp
      then show ?thesis using unat_add_lem [of hi 1] by simp
    qed
    ultimately show ?thesis using l(2) u by simp
  qed
qed

lemma read_loop_step:
  assumes "n \<noteq> 0" "smb_ReadAndX fuel net fid lo hi ptr (int (min 8192 n)) s = Inr (int k, ptr', s')"
    and "add_offset lo hi (int k) = (lo', hi')"
  shows "read_loop fuel net fid lo hi acc ptr t (int n) s
    = (if k = 0 then Inr (0, acc @ ptr', s') else read_loop fuel net fid lo' hi' (acc @ take k ptr') (drop k ptr') t (int n - int k) s')"
proof -
  have "(if 8192 < int n then 8192 else int n) = int (min 8192 n)" by simp
  then show ?thesis using assms by (subst read_loop.simps) simp
qed

lemma read_loop_serves:
  assumes srv: "serves_file net I fid img fsize" and fuel: "8192 < fuel"
  shows "\<lbrakk>I c; main_socket s = Some (idle c); length (SMB_buf s) = 1028; off = unat hi * 2 ^ 32 + unat lo; off + n < 2 ^ 64; n \<le> length ptr\<rbrakk>
   \<Longrightarrow> \<exists>buf c'. I c' \<and> length buf = 1028
     \<and> read_loop fuel net fid lo hi acc ptr t (int n) s
       = (let s' = s\<lparr>SMB_buf := buf, main_socket := Some (idle c')\<rparr>; k = min n (fsize - off); out = acc @ bytes_at img off k @ drop k ptr
          in if off + n \<le> fsize \<or> n = 0 then Inr (t, out, SIGNALIOSEMA s') else Inr (0, out, s'))"
proof (induction n arbitrary: c s off hi lo acc ptr rule: less_induct)
  case (less n)
  show ?case
  proof (cases "n = 0")
    case True
    have e: "s\<lparr>main_socket := Some (idle c)\<rparr> = s" using less.prems(2) by (cases s) simp
    from True show ?thesis using less.prems
      by (intro exI [of _ "SMB_buf s"] exI [of _ c]) (simp add: Let_def e read_loop.simps [of _ _ _ _ _ _ _ _ 0] bytes_at_def)
  next
    case False
    define j where "j = min 8192 n"
    define k where "k = min j (fsize - off)"
    have j: "0 < j" "j \<le> 8192" "j \<le> n" using False by (simp_all add: j_def)
    have "I c \<and> 0 < j \<and> j \<le> 8192" using less.prems(1) j by simp
    from srv [unfolded serves_file_def, rule_format, OF this, of "TID s" "UID s" lo hi] obtain c1 c2 d m where
      r: "netconn_write net (framed (ReadAndXRequest (TID s) (UID s) fid lo hi (of_nat j))) c = (True, c1)" "responds net c1 d m c2" "I c2"
        "is_read_response d m (bytes_at img off k)" by (auto simp: k_def less.prems(4))
    have "j \<le> length ptr" "length (bytes_at img off k) \<le> j" using j(3) less.prems(6) by (simp_all add: k_def)
    from ReadAndX_responds [OF less.prems(2,3) j(1) this(2) j(2) this(1) r(1,2,4) fuel] obtain buf where
      a: "smb_ReadAndX fuel net fid lo hi ptr (int j) s
          = Inr (int k, write_at ptr 0 (bytes_at img off k), s\<lparr>SMB_buf := buf, main_socket := Some (idle c2)\<rparr>)" "length buf = 1028" by auto
    have w: "write_at ptr 0 (bytes_at img off k) = bytes_at img off k @ drop k ptr" by (simp add: write_at_def)
    define s' where "s' = s\<lparr>SMB_buf := buf, main_socket := Some (idle c2)\<rparr>"
    obtain lo' hi' where o: "add_offset lo hi (int k) = (lo', hi')" by fastforce
    have step: "read_loop fuel net fid lo hi acc ptr t (int n) s
        = (if k = 0 then Inr (0, acc @ drop k ptr, s') else read_loop fuel net fid lo' hi' (acc @ bytes_at img off k) (drop k ptr) t (int n - int k) s')"
    proof -
      have "smb_ReadAndX fuel net fid lo hi ptr (int (min 8192 n)) s = Inr (int k, bytes_at img off k @ drop k ptr, s')"
        using a(1) unfolding w s'_def j_def .
      from read_loop_step [OF False this o] show ?thesis by (simp add: bytes_at_def)
    qed
    show ?thesis
    proof (cases "k = 0")
      case True
      then have "\<not> off + n \<le> fsize" "fsize - off = 0" using j(1) False by (auto simp: k_def)
      then show ?thesis using True step r(3) a(2) False
        by (intro exI [of _ buf] exI [of _ c2]) (simp add: s'_def bytes_at_def)
    next
      case False
      have k: "k \<le> n" "k \<le> fsize - off" "0 < k" using j(3) False by (simp_all add: k_def)
      have u: "off + k = unat hi' * 2 ^ 32 + unat lo'" using add_offset_unat [OF _ _ o] less.prems(4,5) k j by (simp add: k_def)
      have "n - k < n" "main_socket s' = Some (idle c2)" "length (SMB_buf s') = 1028" "off + k + (n - k) < 2 ^ 64" "n - k \<le> length (drop k ptr)"
        using k less.prems(5,6) a(2) by (simp_all add: s'_def)
      from less.IH [OF this(1) r(3) this(2,3) u this(4,5), of "acc @ bytes_at img off k"] obtain buf' c' where
        i: "I c'" "length buf' = 1028" "read_loop fuel net fid lo' hi' (acc @ bytes_at img off k) (drop k ptr) t (int (n - k)) s'
          = (let s'' = s'\<lparr>SMB_buf := buf', main_socket := Some (idle c')\<rparr>; k' = min (n - k) (fsize - (off + k));
               out = (acc @ bytes_at img off k) @ bytes_at img (off + k) k' @ drop k' (drop k ptr)
             in if off + k + (n - k) \<le> fsize \<or> n - k = 0 then Inr (t, out, SIGNALIOSEMA s'') else Inr (0, out, s''))" by blast
      have m: "k + min (n - k) (fsize - (off + k)) = min n (fsize - off)" using k by simp
      have e: "off + k + (n - k) \<le> fsize \<or> n - k = 0 \<longleftrightarrow> off + n \<le> fsize \<or> n = 0" using k by auto
      have o: "(acc @ bytes_at img off k) @ bytes_at img (off + k) (min (n - k) (fsize - (off + k))) @ drop (min (n - k) (fsize - (off + k))) (drop k ptr)
          = acc @ bytes_at img off (min n (fsize - off)) @ drop (min n (fsize - off)) ptr"
        unfolding m [symmetric] bytes_at_append [symmetric] by (simp add: add.commute)
      have nk: "int n - int k = int (n - k)" using k(1) by simp
      have ss: "s'\<lparr>SMB_buf := buf', main_socket := Some (idle c')\<rparr> = s\<lparr>SMB_buf := buf', main_socket := Some (idle c')\<rparr>"
        by (simp add: s'_def)
      have "read_loop fuel net fid lo hi acc ptr t (int n) s = read_loop fuel net fid lo' hi' (acc @ bytes_at img off k) (drop k ptr) t (int (n - k)) s'"
        unfolding step nk using False by (rule if_not_P)
      then show ?thesis using i(1,2) i(3) [unfolded Let_def e o ss] unfolding Let_def by metis
    qed
  qed
qed

subsection \<open>A server that refuses\<close>

text \<open>The answer to a failed read has no words: 35 bytes, in one buffer.\<close>

definition refuses_reads :: "'n network \<Rightarrow> ('n \<Rightarrow> bool) \<Rightarrow> bool" where
  "refuses_reads net I = (\<forall>c tid uid fid lo hi n. I c \<longrightarrow>
     (\<exists>c1 c2 b m. netconn_write net (framed (ReadAndXRequest tid uid fid lo hi n)) c = (True, c1) \<and> netconn_recv net c1 = (Some b, c2)
        \<and> good_buf b \<and> concat b = framed m \<and> length m = 35 \<and> I c2))"

lemma request_lengths:
  assumes "n \<le> 8192"
  shows "u16_at (ReadAndXRequest tid uid fid lo hi (of_nat n) @ r) 43 = of_nat n" "u32_at (ReadAndXRequest tid uid fid lo hi (of_nat n) @ r) 47 = 0"
proof -
  let ?a = "(SMBHeader 0x2E 0 0x4000 tid uid @ AndX 12 @ bytes16 fid @ bytes32 lo)"
  have "u16_at (?a @ bytes16 (ucast (of_nat n :: u32)) @ t) (43 + 0) = ucast (of_nat n :: u32)" for t
    by (subst u16_at_append) (simp_all add: SMBHeader_fields AndX_def)
  moreover have "ucast (of_nat n :: u32) = (of_nat n :: u16)" using assms
    by (simp add: word_unat_eq_iff unsigned_ucast_eq unat_of_nat take_bit_eq_mod)
  ultimately show "u16_at (ReadAndXRequest tid uid fid lo hi (of_nat n) @ r) 43 = of_nat n" by (simp add: ReadAndXRequest_def)
  have "unat (drop_bit 16 (of_nat n :: u32)) = drop_bit 16 n" using assms by (simp add: unat_drop_bit_eq unat_of_nat)
  then have "drop_bit 16 (of_nat n :: u32) = 0" using assms by (simp add: drop_bit_eq_div unat_eq_0)
  then have z: "bytes16 (ucast (drop_bit 16 (of_nat n :: u32))) @ bytes16 0 @ t = bytes32 0 @ t" for t
    by (simp add: bytes16_def bytes32_def)
  let ?b = "?a @ bytes16 (ucast (of_nat n :: u32)) @ bytes16 0"
  have "u32_at (?b @ bytes32 0 @ t) (47 + 0) = 0" for t by (subst u32_at_append) (simp_all add: SMBHeader_fields AndX_def)
  then show "u32_at (ReadAndXRequest tid uid fid lo hi (of_nat n) @ r) 47 = 0" unfolding ReadAndXRequest_def by (simp only: append_assoc z add_0_right)
qed

lemma ReadAndX_refused:
  assumes s: "main_socket s = Some (idle c)" "length (SMB_buf s) = 1028" and n: "0 < n" "n \<le> 8192"
    and sent: "netconn_write net (framed (ReadAndXRequest (TID s) (UID s) fid lo hi (of_nat n))) c = (True, c1)"
    and rsp: "netconn_recv net c1 = (Some b, c2)" "good_buf b" "concat b = framed m" "length m = 35" and fuel: "8192 < fuel"
  shows "\<exists>buf. smb_ReadAndX fuel net fid lo hi readbuf (int n) s
      = Inr (int n, readbuf, s\<lparr>SMB_buf := buf, main_socket := Some (idle c2)\<rparr>) \<and> length buf = 1028"
proof -
  define p where "p = ReadAndXRequest (TID s) (UID s) fid lo hi (of_nat n)"
  have lp: "length p = 59" by (simp add: p_def length_request)
  obtain buf0 where q: "put 4 p (ZERO_PKT_ALIGNED 59 s) = Inr (s\<lparr>SMB_buf := buf0\<rparr>)"
    "length (SMB_buf (nb_SetSessionMessage 59 (s\<lparr>SMB_buf := buf0\<rparr>))) = 1028" "take 63 (SMB_buf (nb_SetSessionMessage 59 (s\<lparr>SMB_buf := buf0\<rparr>))) = framed p"
    using read_request_buffer [OF s(2) lp] by fastforce
  define s1 where "s1 = nb_SetSessionMessage 59 (s\<lparr>SMB_buf := buf0\<rparr>)"
  have s1: "main_socket s1 = Some (idle c)" "length (SMB_buf s1) = 1028" "take 63 (SMB_buf s1) = framed p"
    using q(2,3) s(1) by (simp_all add: s1_def nb_SetSessionMessage_def)
  have snd: "SendData net (framed p) (Some (idle c)) = (63, Some (idle c1))"
    using SendData_ok [of net "framed p" "idle c" c1] sent lp by (simp add: p_def)
  define h where "h = write_at (SMB_buf s1) 0 (framed m)"
  define s2 where "s2 = s1\<lparr>SMB_buf := h, main_socket := Some (idle c2)\<rparr>"
  have rcv: "lwip_recvfrom net (SMB_buf s1) 49 (int n) (idle c1) = (39, h, [], idle c2)"
    using recv_short [OF rsp(1,2), of "SMB_buf s1" "int n"] rsp(3,4) by (simp add: h_def)
  have hh: "h = bytes32 (session_header 35) @ m @ drop 39 (SMB_buf s1)" using rsp(4) by (simp add: h_def write_at_def framed_def)
  have ty: "nb_GetPacketType s2 = 0" using hh header_0 [of 35] by (simp add: packet_type s2_def nth_append)
  have ln: "nb_GetSessionMessageLength s2 = 35"
    by (rule set_get_length [of _ _ h]) (simp_all add: s2_def hh write_at_def)
  have d4: "drop 4 (SMB_buf s1) = p @ drop 63 (SMB_buf s1)"
  proof -
    have "SMB_buf s1 = framed p @ drop 63 (SMB_buf s1)" using append_take_drop_id [of 63 "SMB_buf s1"] s1(3) by simp
    then have "drop 4 (SMB_buf s1) = drop 4 (framed p @ drop 63 (SMB_buf s1))" by simp
    then show ?thesis by (simp add: framed_def)
  qed
  have same: "h ! j = SMB_buf s1 ! j" if "39 \<le> j" "j < 1028" for j
  proof -
    have "\<not> j - 4 < 35" using that by linarith
    then show ?thesis using that hh rsp(4) s1(2) by (simp add: nth_append)
  qed
  have "u16_at h 47 = u16_at (SMB_buf s1) (4 + 43)" "u32_at h 51 = u32_at (SMB_buf s1) (4 + 47)" by (simp_all add: u16_at_def u32_at_def same)
  moreover have "u16_at (SMB_buf s1) (4 + 43) = of_nat n" "u32_at (SMB_buf s1) (4 + 47) = 0"
  proof -
    have l4: "4 \<le> length (SMB_buf s1)" using s1(2) by simp
    show "u16_at (SMB_buf s1) (4 + 43) = of_nat n" "u32_at (SMB_buf s1) (4 + 47) = 0"
      unfolding drop_at [OF d4 l4] p_def by (simp_all add: request_lengths [OF n(2)])
  qed
  ultimately have "u16_at h 47 = of_nat n" "u32_at h 51 = 0" by simp_all
  moreover have "ucast (of_nat n :: u16) = (of_nat n :: u32)"
    using n(2) by (simp add: word_unat_eq_iff unsigned_ucast_eq unat_of_nat take_bit_eq_mod)
  moreover have "sint (of_nat n :: u32) = int n" using n(2) by (simp add: signed_of_nat signed_take_bit_int_eq_self)
  ultimately have dl: "DataLength s2 = int n" by (simp add: DataLength_def s2_def)
  obtain f where f: "fuel = Suc f" using fuel by (cases fuel) auto
  have r: "read_response fuel net (int n) readbuf (s1\<lparr>main_socket := Some (idle c1)\<rparr>) = Inr (39, readbuf, s2)"
    using rcv ty by (simp add: f recvfrom_def s2_def store_def Let_def)
  have fr: "fragments fuel net 39 (DataOffset s2) 39 readbuf (Some (idle c2)) = Inr (readbuf, Some (idle c2))" by (simp add: f)
  have "smb_ReadAndX fuel net fid lo hi readbuf (int n) s = Inr (int n, readbuf, s2)"
    using q(1) snd r fr ln dl s1(1,3)
    by (simp add: smb_ReadAndX_def p_def [symmetric] s1_def [symmetric] Let_def) (simp add: s2_def)
  moreover have "length h = 1028" using s1(2) rsp(4) by (simp add: hh)
  ultimately show ?thesis by (intro exI [of _ h]) (simp add: s2_def s1_def nb_SetSessionMessage_def)
qed

lemma read_loop_refused:
  assumes srv: "refuses_reads net I" and fuel: "8192 < fuel"
  shows "\<lbrakk>I c; main_socket s = Some (idle c); length (SMB_buf s) = 1028; n \<le> length ptr\<rbrakk>
   \<Longrightarrow> \<exists>s'. read_loop fuel net fid lo hi acc ptr t (int n) s = Inr (t, acc @ ptr, s')"
proof (induction n arbitrary: c s hi lo acc ptr rule: less_induct)
  case (less n)
  show ?case
  proof (cases "n = 0")
    case False
    define j where "j = min 8192 n"
    have j: "0 < j" "j \<le> 8192" "j \<le> n" using False by (simp_all add: j_def)
    from srv [unfolded refuses_reads_def, rule_format, OF less.prems(1), of "TID s" "UID s" fid lo hi "of_nat j"] obtain c1 c2 b m where
      r: "netconn_write net (framed (ReadAndXRequest (TID s) (UID s) fid lo hi (of_nat j))) c = (True, c1)"
        "netconn_recv net c1 = (Some b, c2)" "good_buf b" "concat b = framed m" "length m = 35" "I c2" by blast
    from ReadAndX_refused [OF less.prems(2,3) j(1,2) r(1-5) fuel] obtain buf where
      a: "smb_ReadAndX fuel net fid lo hi ptr (int (min 8192 n)) s = Inr (int j, ptr, s\<lparr>SMB_buf := buf, main_socket := Some (idle c2)\<rparr>)"
        "length buf = 1028" unfolding j_def by blast
    obtain lo' hi' where o: "add_offset lo hi (int j) = (lo', hi')" by fastforce
    define s' where "s' = s\<lparr>SMB_buf := buf, main_socket := Some (idle c2)\<rparr>"
    have "read_loop fuel net fid lo hi acc ptr t (int n) s = read_loop fuel net fid lo' hi' (acc @ take j ptr) (drop j ptr) t (int (n - j)) s'"
      using read_loop_step [OF False a(1) o] j by (simp add: s'_def of_nat_diff)
    moreover have "n - j < n" "main_socket s' = Some (idle c2)" "length (SMB_buf s') = 1028" "n - j \<le> length (drop j ptr)"
      using j less.prems(4) a(2) by (simp_all add: s'_def)
    ultimately show ?thesis using less.IH [of "n - j" c2 s' "drop j ptr" lo' hi' "acc @ take j ptr"] r(6) by auto
  qed (simp add: read_loop.simps)
qed

subsection \<open>What the client promises\<close>

definition smb_usable :: "('n \<Rightarrow> bool) \<Rightarrow> 'n smb \<Rightarrow> bool" where
  "smb_usable I s = (length (SMB_buf s) = 1028 \<and> smb_io_sema s = 1 \<and> (\<exists>c. main_socket s = Some (idle c) \<and> I c))"

text \<open>A read of a file up to its end, or beyond it: what comes back, and whether the semaphore does.\<close>

lemma ReadFile_serves:
  assumes "serves_file net I fid img fsize" "smb_usable I s" "unat hi * 2 ^ 32 + unat lo = off" "off + n < 2 ^ 64"
    and "n \<le> length readbuf" "8192 < fuel" "0 < n"
  shows "\<exists>s'. (if off + n \<le> fsize
      then smb_ReadFile fuel net fid lo hi readbuf (int n) s = Inr (int n, bytes_at img off n @ drop n readbuf, s') \<and> smb_usable I s'
      else smb_ReadFile fuel net fid lo hi readbuf (int n) s
        = Inr (0, bytes_at img off (min n (fsize - off)) @ drop (min n (fsize - off)) readbuf, s') \<and> smb_io_sema s' = 0)"
proof -
  obtain c where c: "main_socket s = Some (idle c)" "I c" "length (SMB_buf s) = 1028" "smb_io_sema s = 1" using assms(2) by (auto simp: smb_usable_def)
  let ?s = "s\<lparr>smb_io_sema := 0\<rparr>"
  have s: "main_socket ?s = Some (idle c)" "length (SMB_buf ?s) = 1028" using c by simp_all
  from read_loop_serves [OF assms(1,6) c(2) s assms(3) [symmetric] assms(4,5), of "[]" "int n"] obtain buf c' where
    r: "I c'" "length buf = 1028" "read_loop fuel net fid lo hi [] readbuf (int n) (int n) ?s
      = (let s' = ?s\<lparr>SMB_buf := buf, main_socket := Some (idle c')\<rparr>; k = min n (fsize - off); out = [] @ bytes_at img off k @ drop k readbuf
         in if off + n \<le> fsize \<or> n = 0 then Inr (int n, out, SIGNALIOSEMA s') else Inr (0, out, s'))" by blast
  have f: "smb_ReadFile fuel net fid lo hi readbuf (int n) s = read_loop fuel net fid lo hi [] readbuf (int n) (int n) ?s"
    using c(4) by (simp add: smb_ReadFile_def WAITIOSEMA_def)
  show ?thesis
  proof (cases "off + n \<le> fsize")
    case True
    then have "min n (fsize - off) = n" by simp
    then show ?thesis using True r by (simp add: f Let_def smb_usable_def SIGNALIOSEMA_def)
  next
    case False
    then show ?thesis using r assms(7) by (simp add: f Let_def)
  qed
qed

text \<open>
  C30. From a server that serves the file, a read of any length inside it delivers exactly the bytes of the file at a 64-bit offset, and
  leaves the client ready for the next call.  Keep-alive messages, in buffers of their own, may come before an answer, and the answer may be
  padded to a header of 251 bytes and cut into buffers anywhere behind that header; the first buffer of an answer has to hold the
  whole header.
\<close>

theorem read_file_correct:
  assumes "serves_file net I fid img fsize" "smb_usable I s" "unat hi * 2 ^ 32 + unat lo = off" "off + n \<le> fsize" "fsize < 2 ^ 64"
    and "n \<le> length readbuf" "8192 < fuel" "0 < n"
  shows "\<exists>s'. smb_ReadFile fuel net fid lo hi readbuf (int n) s = Inr (int n, bytes_at img off n @ drop n readbuf, s') \<and> smb_usable I s'"
  using ReadFile_serves [OF assms(1-3) _ assms(6-8)] assms(4,5) by auto

text \<open>
  A read beyond the end of the file gives back 0 with the semaphore taken, and every later call waits for it for ever.
\<close>

theorem read_beyond_end_blocks:
  assumes "serves_file net I fid img fsize" "smb_usable I s" "unat hi * 2 ^ 32 + unat lo = off" "fsize < off + n" "off + n < 2 ^ 64"
    and "n \<le> length readbuf" "8192 < fuel" "0 < n"
  shows "\<exists>s' out. smb_ReadFile fuel net fid lo hi readbuf (int n) s = Inr (0, out, s')
    \<and> smb_ReadFile fuel' net fid' lo' hi' readbuf' m s' = Inl Diverges \<and> smb_WriteFile fuel' net fid' lo' hi' readbuf' m s' = Inl Diverges
    \<and> smb_OpenAndX fuel' net name wr s' = Inl Diverges"
proof -
  obtain s' where s': "smb_ReadFile fuel net fid lo hi readbuf (int n) s
      = Inr (0, bytes_at img off (min n (fsize - off)) @ drop (min n (fsize - off)) readbuf, s')" "smb_io_sema s' = 0"
    using ReadFile_serves [OF assms(1-3,5-8)] assms(4) by auto
  then show ?thesis by (intro exI [of _ s'] exI conjI) (auto simp: smb_ReadFile_def smb_WriteFile_def smb_OpenAndX_def WAITIOSEMA_def)
qed

text \<open>
  C32. When the server answers every read with an error, a read of any length reports that it has read everything, and the caller's
  buffer is as it was: the lengths are taken from the request, which the short answer does not overwrite.
\<close>

theorem read_error_hidden:
  assumes "refuses_reads net I" "smb_usable I s" "n \<le> length readbuf" "8192 < fuel"
  shows "\<exists>s'. smb_ReadFile fuel net fid lo hi readbuf (int n) s = Inr (int n, readbuf, s')"
proof -
  obtain c where c: "main_socket s = Some (idle c)" "I c" "length (SMB_buf s) = 1028" "smb_io_sema s = 1" using assms(2) by (auto simp: smb_usable_def)
  let ?s = "s\<lparr>smb_io_sema := 0\<rparr>"
  have "main_socket ?s = Some (idle c)" "length (SMB_buf ?s) = 1028" using c by simp_all
  from read_loop_refused [OF assms(1,4) c(2) this assms(3), of fid lo hi "[]" "int n"]
  show ?thesis using c(4) by (simp add: smb_ReadFile_def WAITIOSEMA_def)
qed

subsection \<open>Two servers\<close>

text \<open>One that serves a file, with a keep-alive message before each answer and the answers cut after 70 bytes, and one that refuses.\<close>

definition answer :: "u8 list \<Rightarrow> u8 list" where
  "answer data = replicate 43 0 @ bytes16 (of_nat (length data)) @ bytes16 59 @ bytes32 0 @ replicate 8 0 @ data"

definition cut :: "u8 list \<Rightarrow> netbuf list" where
  "cut m = (if length m \<le> 70 then [[m]] else [[take 30 m, drop 30 (take 70 m)], [drop 70 m]])"

definition pop :: "netbuf list \<Rightarrow> netbuf option \<times> netbuf list" where
  "pop c = (case c of [] \<Rightarrow> (None, []) | b # bs \<Rightarrow> (Some b, bs))"

definition file_server :: "image \<Rightarrow> nat \<Rightarrow> netbuf list network" where
  "file_server img fsize = \<lparr>netconn_write = \<lambda>m c. (True,
       let n = unat (u16_at m (4 + 43)); off = unat (u32_at m (4 + 53)) * 2 ^ 32 + unat (u32_at m (4 + 39))
       in [[0x85, 0, 0], [0]] # cut (framed (answer (bytes_at img off (min n (fsize - off)))))), netconn_recv = pop\<rparr>"

definition refusing_server :: "netbuf list network" where
  "refusing_server = \<lparr>netconn_write = \<lambda>m c. (True, [[framed (replicate 35 1)]]), netconn_recv = pop\<rparr>"

lemma request_offsets:
  "u32_at (ReadAndXRequest tid uid fid lo hi n) 39 = lo" "u32_at (ReadAndXRequest tid uid fid lo hi n) 53 = hi"
proof -
  have "u32_at ((SMBHeader 0x2E 0 0x4000 tid uid @ AndX 12 @ bytes16 fid) @ bytes32 lo @ t) (39 + 0) = lo" for t
    by (subst u32_at_append) (simp_all add: SMBHeader_fields AndX_def)
  then show "u32_at (ReadAndXRequest tid uid fid lo hi n) 39 = lo" by (simp add: ReadAndXRequest_def)
  have "u32_at ((SMBHeader 0x2E 0 0x4000 tid uid @ AndX 12 @ bytes16 fid @ bytes32 lo @ bytes16 (ucast n) @ bytes16 0
      @ bytes16 (ucast (drop_bit 16 n)) @ bytes16 0 @ bytes16 0) @ bytes32 hi @ t) (53 + 0) = hi" for t
    by (subst u32_at_append) (simp_all add: SMBHeader_fields AndX_def)
  then show "u32_at (ReadAndXRequest tid uid fid lo hi n) 53 = hi" by (simp add: ReadAndXRequest_def)
qed

lemma answer_response:
  assumes "length data \<le> 8192"
  shows "is_read_response 59 (answer data) data"
proof -
  have a: "u16_at (answer data) 43 = of_nat (length data)"
    using u16_at_append [of "replicate 43 0" 43 "bytes16 (of_nat (length data)) @ t" 0 for t] by (simp add: answer_def)
  have b: "u16_at (answer data) 45 = 59"
    using u16_at_append [of "replicate 43 0 @ bytes16 (of_nat (length data))" 45 "bytes16 59 @ t" 0 for t] by (simp add: answer_def)
  have c: "u32_at (answer data) 47 = 0"
    using u32_at_append [of "replicate 43 0 @ bytes16 (of_nat (length data)) @ bytes16 59" 47 "bytes32 0 @ t" 0 for t] by (simp add: answer_def)
  show ?thesis using a b c by (simp add: is_read_response_def answer_def)
qed

lemma cut_responds:
  assumes "59 \<le> length m" "length m < 9000"
  shows "responds (file_server img fsize) ([[0x85, 0, 0], [0]] # cut (framed m)) 59 m []"
proof (cases "length (framed m) \<le> 70")
  case True
  then show ?thesis using assms unfolding responds_def
    by (intro exI [of _ "[[[0x85, 0, 0], [0]]]"] exI [of _ "[framed m]"] exI [of _ "[] :: netbuf list"])
      (simp add: cut_def file_server_def pop_def good_buf_def keep_alive_def)
next
  case False
  let ?b = "[take 30 (framed m), drop 30 (take 70 (framed m))]"
  have c: "concat ?b = take 70 (framed m)" using append_take_drop_id [of 30 "take 70 (framed m)"] by (simp add: min_def)
  have x: "take 30 f @ drop 30 (take 70 f) @ drop 70 f = f" for f :: "u8 list"
  proof -
    have "take 30 f = take 30 (take 70 f)" by simp
    then show ?thesis by (metis append.assoc append_take_drop_id)
  qed
  have l: "length m - 66 < 65536" using assms(2) by linarith
  show ?thesis unfolding responds_def
    by (rule exI [of _ "[[[0x85, 0, 0], [0]]]"], rule exI [of _ ?b], rule exI [of _ "[[drop 70 (framed m)]]"])
      (use assms False c x l in \<open>simp add: cut_def file_server_def pop_def good_buf_def keep_alive_def del: take_take\<close>)
qed

lemma file_server_serves: "serves_file (file_server img fsize) (\<lambda>c. c = []) fid img fsize"
  unfolding serves_file_def
proof (intro allI impI, elim conjE)
  fix c :: "netbuf list" and tid uid :: u16 and lo hi :: u32 and n :: nat
  assume n: "0 < n" "n \<le> 8192"
  let ?p = "ReadAndXRequest tid uid fid lo hi (of_nat n)"
  define off where "off = unat hi * 2 ^ 32 + unat lo"
  define data where "data = bytes_at img off (min n (fsize - off))"
  have d: "drop 4 (framed ?p) = ?p" "4 \<le> length (framed ?p)" by (simp_all add: framed_def)
  have "u16_at ?p 43 = of_nat n" using request_lengths(1) [OF n(2), of tid uid fid lo hi "[]"] by simp
  then have "unat (u16_at (framed ?p) (4 + 43)) = n" unfolding drop_at [OF d] using n(2) by (simp add: unat_of_nat)
  moreover have "u32_at (framed ?p) (4 + 53) = hi" "u32_at (framed ?p) (4 + 39) = lo" unfolding drop_at [OF d] by (simp_all add: request_offsets)
  ultimately have w: "netconn_write (file_server img fsize) (framed ?p) c = (True, [[0x85, 0, 0], [0]] # cut (framed (answer data)))"
    unfolding file_server_def data_def off_def by (simp add: Let_def)
  have l: "length data \<le> 8192" using n(2) by (simp add: data_def)
  then have "59 \<le> length (answer data)" "length (answer data) < 9000" by (simp_all add: answer_def)
  then have "responds (file_server img fsize) ([[0x85, 0, 0], [0]] # cut (framed (answer data))) 59 (answer data) []" by (rule cut_responds)
  then show "\<exists>c1 c2 d m. netconn_write (file_server img fsize) (framed ?p) c = (True, c1) \<and> responds (file_server img fsize) c1 d m c2 \<and> c2 = []
      \<and> is_read_response d m (bytes_at img (unat hi * 2 ^ 32 + unat lo) (min n (fsize - (unat hi * 2 ^ 32 + unat lo))))"
    using w answer_response [OF l] unfolding data_def off_def by blast
qed

lemma refusing_server_refuses: "refuses_reads refusing_server (\<lambda>c. c = [])"
  by (auto simp: refuses_reads_def refusing_server_def pop_def good_buf_def intro!: exI [of _ "replicate 35 1"])

theorem read_file_correct_witness:
  "\<exists>s'. smb_ReadFile 9000 (file_server (\<lambda>p. of_nat p) 5000) 1 100 0 (replicate 1000 0) (int 900) (smb_example (Some (idle [])) [])
      = Inr (int 900, bytes_at (\<lambda>p. of_nat p) 100 900 @ drop 900 (replicate 1000 0), s') \<and> smb_usable (\<lambda>c. c = []) s'"
  by (rule read_file_correct [OF file_server_serves, where off = 100]) (simp_all add: smb_usable_def smb_example_def)

theorem read_beyond_end_blocks_witness:
  "\<exists>s' out. smb_ReadFile 9000 (file_server (\<lambda>p. of_nat p) 5000) 1 4500 0 (replicate 1000 0) (int 900) (smb_example (Some (idle [])) []) = Inr (0, out, s')
    \<and> smb_ReadFile 9000 (file_server (\<lambda>p. of_nat p) 5000) 1 0 0 (replicate 1000 0) 10 s' = Inl Diverges
    \<and> smb_WriteFile 9000 (file_server (\<lambda>p. of_nat p) 5000) 1 0 0 (replicate 1000 0) 10 s' = Inl Diverges
    \<and> smb_OpenAndX 9000 (file_server (\<lambda>p. of_nat p) 5000) [0x41] False s' = Inl Diverges"
  by (rule read_beyond_end_blocks [OF file_server_serves, where off = 4500]) (simp_all add: smb_usable_def smb_example_def)

theorem read_error_hidden_witness:
  "\<exists>s'. smb_ReadFile 9000 refusing_server 1 0 0 [1, 2, 3, 4] (int 4) (smb_example (Some (idle [])) []) = Inr (int 4, [1, 2, 3, 4], s')"
  by (rule read_error_hidden [OF refusing_server_refuses]) (simp_all add: smb_usable_def smb_example_def)

end
