(* ===== verification/DiscDevice.thy ===== *)
theory DiscDevice
  imports Zso
begin

text \<open>
  The devices a running game reads its disc from: the hard disk (\<open>src/modules/iopcore/cdvdman/device-hdd.c\<close>) and a block
  device (\<open>device-bdm.c\<close>), and the contract that the layers above them rely on (locale \<open>disc_device\<close>).
  \<open>sceAtaDmaTransfer\<close> and \<open>bd_defrag\<close> are parameters: they give the bytes of a number of blocks of 512 bytes.
\<close>

text \<open>The results of a read, of which the SDK defines the numbers.\<close>

datatype cd_err = ErNO | ErTRMOPN | ErREAD | ErIPI | ErEOM

type_synonym 'd disc_read = "u64 \<Rightarrow> u32 \<Rightarrow> 'd \<Rightarrow> ub + cd_err \<times> u8 list \<times> 'd"

subsection \<open>The hard disk\<close>

record hdl_partspecs =
  part_offset :: u32
  data_start :: u32
  part_size :: u32

definition HDD_READ_AHEAD_SECTORS :: nat where "HDD_READ_AHEAD_SECTORS = 128"

record hdd_device =
  CurrentPart :: nat
  NumParts :: nat
  cdvdman_partspecs :: "hdl_partspecs list"
  read_ahead_buf :: "u8 list"
  read_ahead_lba :: u32
  read_ahead_valid :: bool
  read_ahead_part :: nat

definition part_end :: "hdl_partspecs \<Rightarrow> u32" where
  "part_end ps = part_offset ps + part_size ps div 2048"

definition in_part :: "u32 \<Rightarrow> hdl_partspecs \<Rightarrow> bool" where
  "in_part lsn ps = (part_offset ps \<le> lsn \<and> lsn < part_end ps)"

definition cdvdman_get_part_specs :: "u32 \<Rightarrow> hdd_device \<Rightarrow> hdd_device option" where
  "cdvdman_get_part_specs lsn h =
     (case find (\<lambda>i. in_part lsn (cdvdman_partspecs h ! i)) [0..<NumParts h] of
        None \<Rightarrow> None | Some i \<Rightarrow> Some (h\<lparr>CurrentPart := i\<rparr>))"

text \<open>The partition that holds a sector; the one of the last read is tried first.\<close>

definition select_part :: "u32 \<Rightarrow> hdd_device \<Rightarrow> hdd_device option" where
  "select_part lsn h = (if in_part lsn (cdvdman_partspecs h ! CurrentPart h) then Some h else cdvdman_get_part_specs lsn h)"

definition read_ahead_size :: "u32 \<Rightarrow> u32 \<Rightarrow> u32" where
  "read_ahead_size nsectors max_sectors =
     (let read_size = (if nsectors < of_nat HDD_READ_AHEAD_SECTORS then of_nat HDD_READ_AHEAD_SECTORS else nsectors)
      in if max_sectors < read_size then max_sectors else read_size)"

text \<open>The part of a read in one partition, from the buffer or through it.\<close>

definition read_in_part :: "(u32 \<Rightarrow> nat \<Rightarrow> u8 list option) \<Rightarrow> u32 \<Rightarrow> u32 \<Rightarrow> hdd_device \<Rightarrow> ub + cd_err \<times> u8 list \<times> hdd_device" where
  "read_in_part ata lsn nsectors h =
     (let ps = cdvdman_partspecs h ! CurrentPart h;
          lba = data_start ps + push_bit 2 (lsn - part_offset ps);
          read_size = read_ahead_size nsectors (part_end ps - lsn)
      in if read_ahead_valid h \<and> read_ahead_part h = CurrentPart h \<and> read_ahead_lba h \<le> lba
            \<and> lba + nsectors \<le> read_ahead_lba h + of_nat HDD_READ_AHEAD_SECTORS
         then let buf_offset = unat ((lba - read_ahead_lba h) * 2048)
              in if buf_offset + unat (nsectors * 2048) \<le> HDD_READ_AHEAD_SECTORS * 2048
                 then Inr (ErNO, take (unat (nsectors * 2048)) (drop buf_offset (read_ahead_buf h)), h)
                 else Inl OutOfBounds
         else case ata lba (unat (push_bit 2 read_size)) of
                None \<Rightarrow> Inr (ErREAD, [], h\<lparr>read_ahead_valid := False\<rparr>)
              | Some bs \<Rightarrow>
                  if length bs \<le> HDD_READ_AHEAD_SECTORS * 2048
                  then let buf = write_at (read_ahead_buf h) 0 bs
                       in Inr (ErNO, take (unat (nsectors * 2048)) buf,
                            h\<lparr>read_ahead_buf := buf, read_ahead_lba := lba, read_ahead_part := CurrentPart h, read_ahead_valid := True\<rparr>)
                  else Inl OutOfBounds)"

lemma select_part_in: "select_part lsn h = Some h' \<Longrightarrow> in_part lsn (cdvdman_partspecs h' ! CurrentPart h')"
  by (auto simp: select_part_def cdvdman_get_part_specs_def find_Some_iff split: if_splits option.splits)

lemma less_sub_word: "\<lbrakk>n \<le> s; n \<noteq> 0\<rbrakk> \<Longrightarrow> unat (s - n) < unat (s :: u32)"
proof -
  assume a: "n \<le> s" "n \<noteq> 0"
  then have "unat n \<le> unat s" "unat n \<noteq> 0" by (simp_all add: word_le_nat_alt unat_eq_0)
  then show ?thesis using a(1) by (simp add: unat_sub)
qed

function hdd_loop :: "(u32 \<Rightarrow> nat \<Rightarrow> u8 list option) \<Rightarrow> u64 \<Rightarrow> u32 \<Rightarrow> u8 list \<Rightarrow> hdd_device \<Rightarrow> ub + cd_err \<times> u8 list \<times> hdd_device" where
  "hdd_loop ata lsn sectors out h =
     (if sectors = 0 then Inr (ErNO, out, h)
      else case select_part (ucast lsn) h of
             None \<Rightarrow> Inr (ErTRMOPN, out, h)
           | Some h \<Rightarrow>
               let rest = part_end (cdvdman_partspecs h ! CurrentPart h) - ucast lsn; nsectors = (if sectors < rest then sectors else rest)
               in bindR (read_in_part ata (ucast lsn) nsectors h) (\<lambda>(e, bs, h).
                    if e = ErNO then hdd_loop ata (lsn + ucast nsectors) (sectors - nsectors) (out @ bs) h else Inr (e, out @ bs, h)))"
  by pat_completeness auto
termination
proof (relation "measure (\<lambda>(ata, lsn, sectors, out, h). unat sectors)", goal_cases)
  case (2 ata lsn sectors out h h' rest nsectors r e q bs h'')
  have "ucast lsn < part_end (cdvdman_partspecs h' ! CurrentPart h')" using select_part_in [OF 2(2)] by (simp add: in_part_def)
  then have "rest \<noteq> 0" using 2(3) by auto
  then have "nsectors \<le> sectors" "nsectors \<noteq> 0" using 2(1,4) by (auto split: if_splits)
  then show ?case using less_sub_word by simp
qed simp

declare hdd_loop.simps [simp del]

definition hdd_DeviceReadSectors :: "(u32 \<Rightarrow> nat \<Rightarrow> u8 list option) \<Rightarrow> hdd_device disc_read" where
  "hdd_DeviceReadSectors ata lsn sectors h = hdd_loop ata lsn sectors [] h"

text \<open>Sector \<open>s\<close> of the game, where its partition puts it.\<close>

definition hdd_sector :: "image \<Rightarrow> hdl_partspecs \<Rightarrow> nat \<Rightarrow> u8 list" where
  "hdd_sector disk ps s = bytes_at disk (512 * (unat (data_start ps) + 4 * (s - unat (part_offset ps)))) 2048"

definition ata_disk :: "image \<Rightarrow> u32 \<Rightarrow> nat \<Rightarrow> u8 list option" where
  "ata_disk disk lba n = Some (bytes_at disk (512 * unat lba) (512 * n))"

lemma unat_of_nat_u32: "n < 2 ^ 32 \<Longrightarrow> unat (of_nat n :: u32) = n"
  by (simp add: unat_of_nat)

lemma word_one: "\<not> 1 < (w :: u32) \<Longrightarrow> w \<noteq> 0 \<Longrightarrow> w = 1"
proof -
  assume "\<not> 1 < w" "w \<noteq> 0"
  then have "unat w \<le> 1" "unat w \<noteq> 0" by (simp_all add: word_less_nat_alt unat_eq_0)
  then have "unat w = unat (1 :: u32)" by simp
  then show "w = 1" by (simp only: word_unat_eq_iff)
qed

lemma read_one_sector:
  assumes "in_part l (cdvdman_partspecs h ! CurrentPart h)"
  shows "hdd_DeviceReadSectors ata (ucast l) 1 h = read_in_part ata l 1 h"
proof -
  let ?ps = "cdvdman_partspecs h ! CurrentPart h"
  have "part_end ?ps - l \<noteq> 0" using assms by (auto simp: in_part_def)
  then have "1 < part_end ?ps - l \<or> part_end ?ps - l = 1" using word_one by blast
  moreover have "ucast (ucast l :: u64) = l" by (simp add: ucast_up_ucast_id is_up)
  moreover have "select_part l h = Some h" using assms by (simp add: select_part_def)
  ultimately show ?thesis
    unfolding hdd_DeviceReadSectors_def
    by (subst hdd_loop.simps) (auto simp: Let_def bindR_def hdd_loop.simps [of _ _ 0] split: sum.splits prod.splits)
qed

text \<open>A read that is not in the buffer, and what the buffer holds behind it.\<close>

lemma read_through:
  assumes d: "\<not> read_ahead_valid h" and l: "in_part l (cdvdman_partspecs h ! CurrentPart h)" and b: "length (read_ahead_buf h) = 128 * 2048"
    and fits: "unat (data_start (cdvdman_partspecs h ! CurrentPart h)) + 4 * unat (l - part_offset (cdvdman_partspecs h ! CurrentPart h)) < 2 ^ 32"
  shows "\<exists>buf. read_in_part (ata_disk disk) l 1 h = Inr (ErNO, hdd_sector disk (cdvdman_partspecs h ! CurrentPart h) (unat l),
      h\<lparr>read_ahead_buf := buf, read_ahead_lba := data_start (cdvdman_partspecs h ! CurrentPart h) + push_bit 2 (l - part_offset (cdvdman_partspecs h ! CurrentPart h)),
        read_ahead_part := CurrentPart h, read_ahead_valid := True\<rparr>) \<and> length buf = 128 * 2048
    \<and> (\<forall>k. k < 128 \<and> k < unat (part_end (cdvdman_partspecs h ! CurrentPart h) - l)
        \<longrightarrow> take 2048 (drop (k * 2048) buf) = hdd_sector disk (cdvdman_partspecs h ! CurrentPart h) (unat l + k))"
proof -
  define ps where "ps = cdvdman_partspecs h ! CurrentPart h"
  define lba where "lba = data_start ps + push_bit 2 (l - part_offset ps)"
  define m where "m = part_end ps - l"
  define r where "r = read_ahead_size 1 m"
  have o: "part_offset ps \<le> l" "l < part_end ps" using l by (simp_all add: in_part_def ps_def)
  then have m: "m \<noteq> 0" by (auto simp: m_def)
  have r: "unat r = min 128 (unat m)" "1 \<le> unat r" using m by (auto simp: r_def read_ahead_size_def HDD_READ_AHEAD_SECTORS_def word_less_nat_alt unat_gt_0 Suc_le_eq)
  have u: "unat (l - part_offset ps) = unat l - unat (part_offset ps)" "unat (part_offset ps) \<le> unat l"
    using o(1) by (simp_all add: unat_sub word_le_nat_alt)
  have lba: "unat lba = unat (data_start ps) + 4 * (unat l - unat (part_offset ps))"
  proof -
    have "lba = of_nat (unat (data_start ps) + 4 * unat (l - part_offset ps))" by (simp add: lba_def push_bit_eq_mult)
    then show ?thesis using fits u(1) by (simp add: ps_def [symmetric] unat_of_nat_u32 del: of_nat_add of_nat_mult)
  qed
  have n: "unat (push_bit 2 r) = 4 * unat r"
  proof -
    have "push_bit 2 r = of_nat (4 * unat r)" by (simp add: push_bit_eq_mult)
    then show ?thesis using r(1) by (simp add: unat_of_nat_u32 del: of_nat_mult)
  qed
  define buf where "buf = write_at (read_ahead_buf h) 0 (bytes_at disk (512 * unat lba) (2048 * unat r))"
  have lb: "length buf = 128 * 2048" unfolding buf_def using b r by simp
  have s: "take 2048 (drop (k * 2048) buf) = hdd_sector disk ps (unat l + k)" if k: "k < unat r" for k
  proof -
    have "take 2048 (drop (k * 2048) buf) = take 2048 (drop (k * 2048) (bytes_at disk (512 * unat lba) (2048 * unat r)))"
      using k by (simp add: buf_def write_at_def)
    also have "\<dots> = bytes_at disk (512 * unat lba + k * 2048) 2048" using k by (simp add: drop_bytes_at take_bytes_at)
    also have "512 * unat lba + k * 2048 = 512 * (unat (data_start ps) + 4 * (unat l + k - unat (part_offset ps)))" using u(2) by (simp add: lba)
    finally show ?thesis by (simp add: hdd_sector_def)
  qed
  have "read_in_part (ata_disk disk) l 1 h = Inr (ErNO, take 2048 buf, h\<lparr>read_ahead_buf := buf, read_ahead_lba := lba, read_ahead_part := CurrentPart h, read_ahead_valid := True\<rparr>)"
    using d r(1) unfolding read_in_part_def Let_def ps_def [symmetric] lba_def [symmetric] m_def [symmetric] r_def [symmetric]
    by (simp add: HDD_READ_AHEAD_SECTORS_def ata_disk_def buf_def n)
  then show ?thesis unfolding ps_def [symmetric] lba_def [symmetric] m_def [symmetric]
    using lb s [of 0] s r by (intro exI [of _ buf]) simp
qed

text \<open>
  C28. The hard disk's read-ahead buffer is indexed with blocks of 512 bytes as if they were sectors: once a sector has been read
  through the buffer, the read of the next sector delivers the data of the fourth one behind it.
\<close>

theorem hdd_read_ahead_wrong:
  assumes "\<not> read_ahead_valid h" "length (read_ahead_buf h) = 128 * 2048"
    and ps: "ps = cdvdman_partspecs h ! CurrentPart h" "in_part l ps" "in_part (l + 4) ps" "l \<le> l + 4"
    and fits: "unat (data_start ps) + 4 * unat (l + 4 - part_offset ps) + 128 < 2 ^ 32"
  shows "\<exists>h' h''. hdd_DeviceReadSectors (ata_disk disk) (ucast l) 1 h = Inr (ErNO, hdd_sector disk ps (unat l), h')
    \<and> hdd_DeviceReadSectors (ata_disk disk) (ucast (l + 1)) 1 h' = Inr (ErNO, hdd_sector disk ps (unat l + 4), h'')"
proof -
  have o: "part_offset ps \<le> l" "l < part_end ps" "part_offset ps \<le> l + 4" "l + 4 < part_end ps" using ps(2,3) by (simp_all add: in_part_def)
  have l4: "unat (l + 4) = unat l + 4" using ps(4) unat_plus_simple [of l 4] by simp
  have d: "unat (l + 4 - part_offset ps) = unat (l - part_offset ps) + 4" using o l4 by (simp add: unat_sub word_le_nat_alt)
  define n where "n = unat (data_start ps) + 4 * unat (l - part_offset ps)"
  have n: "n + 144 < 2 ^ 32" using fits d by (simp add: n_def)
  define lba where "lba = data_start ps + push_bit 2 (l - part_offset ps)"
  have lba: "lba = of_nat n" by (simp add: lba_def n_def push_bit_eq_mult)
  obtain buf where r: "read_in_part (ata_disk disk) l 1 h = Inr (ErNO, hdd_sector disk ps (unat l),
      h\<lparr>read_ahead_buf := buf, read_ahead_lba := lba, read_ahead_part := CurrentPart h, read_ahead_valid := True\<rparr>)"
    "\<forall>k. k < 128 \<and> k < unat (part_end ps - l) \<longrightarrow> take 2048 (drop (k * 2048) buf) = hdd_sector disk ps (unat l + k)"
    using read_through [of h l disk] assms(1,2) ps(1,2) n unfolding lba_def n_def by auto
  define h' where "h' = h\<lparr>read_ahead_buf := buf, read_ahead_lba := lba, read_ahead_part := CurrentPart h, read_ahead_valid := True\<rparr>"
  have h': "CurrentPart h' = CurrentPart h" "cdvdman_partspecs h' = cdvdman_partspecs h" "read_ahead_buf h' = buf" "read_ahead_lba h' = lba"
    "read_ahead_part h' = CurrentPart h" "read_ahead_valid h'" by (simp_all add: h'_def)
  have i: "in_part (l + 1) ps"
  proof -
    have "unat (l + 4) < 2 ^ 32" using unsigned_less [of "l + 4"] by simp
    then have "unat (of_nat (unat l + 1) :: u32) = unat l + 1" using l4 by (intro unat_of_nat_u32) simp
    then have "unat (l + 1) = unat l + 1" by (simp add: add.commute)
    then show ?thesis using o l4 by (simp add: in_part_def word_le_nat_alt word_less_nat_alt)
  qed
  have b: "data_start ps + push_bit 2 (l + 1 - part_offset ps) = of_nat (n + 4)"
    by (simp add: n_def push_bit_eq_mult algebra_simps)
  have u: "unat (of_nat (n + k) :: u32) = n + k" if "k \<le> 144" for k using n that by (intro unat_of_nat_u32) simp
  define b2 where "b2 = (of_nat (n + 4) :: u32)"
  have "lba \<le> b2" "b2 + 1 \<le> lba + of_nat HDD_READ_AHEAD_SECTORS" "(b2 - lba) * 2048 = 8192"
  proof -
    show "lba \<le> b2" using u [of 0] u [of 4] by (simp add: lba b2_def word_le_nat_alt)
    have "b2 + 1 = of_nat (n + 5)" "lba + of_nat HDD_READ_AHEAD_SECTORS = of_nat (n + 128)"
      by (simp_all add: lba b2_def HDD_READ_AHEAD_SECTORS_def)
    then show "b2 + 1 \<le> lba + of_nat HDD_READ_AHEAD_SECTORS" using u [of 5] u [of 128] by (simp only: word_le_nat_alt)
    show "(b2 - lba) * 2048 = 8192" by (simp add: lba b2_def)
  qed
  then have "read_in_part (ata_disk disk) (l + 1) 1 h' = Inr (ErNO, take 2048 (drop 8192 buf), h')"
    unfolding read_in_part_def Let_def h'(1-5) ps(1) [symmetric] b b2_def [symmetric] using h'(6) by (simp add: HDD_READ_AHEAD_SECTORS_def)
  moreover have "take 2048 (drop 8192 buf) = hdd_sector disk ps (unat l + 4)"
  proof -
    have "4 < unat (part_end ps - l)" using o l4 by (simp add: unat_sub word_less_nat_alt word_le_nat_alt)
    then show ?thesis using r(2) [rule_format, of 4] by simp
  qed
  ultimately show ?thesis
    using r(1) read_one_sector [of l h] read_one_sector [of "l + 1" h'] ps i h' unfolding h'_def [symmetric] by auto
qed

text \<open>
  A read of more than 128 sectors of one partition writes behind the buffer.
\<close>

theorem hdd_read_overflow:
  assumes "\<not> read_ahead_valid h" "in_part l (cdvdman_partspecs h ! CurrentPart h)" "128 < unat n" "unat n < 2 ^ 30"
    and "unat n \<le> unat (part_end (cdvdman_partspecs h ! CurrentPart h) - l)"
  shows "hdd_DeviceReadSectors (ata_disk disk) (ucast l) n h = Inl OutOfBounds"
proof -
  define ps where "ps = cdvdman_partspecs h ! CurrentPart h"
  have e: "(if n < part_end ps - l then n else part_end ps - l) = n"
    using assms(5) by (auto simp: ps_def word_less_nat_alt not_less word_unat_eq_iff)
  have "unat (read_ahead_size n (part_end ps - l)) = unat n"
    using assms(3,5) by (auto simp: read_ahead_size_def HDD_READ_AHEAD_SECTORS_def ps_def word_less_nat_alt)
  then have r: "read_ahead_size n (part_end ps - l) = n" by (simp add: word_unat_eq_iff)
  have "push_bit 2 n = of_nat (4 * unat n)" by (simp add: push_bit_eq_mult)
  then have "unat (push_bit 2 n) = 4 * unat n" using assms(4) by (simp add: unat_of_nat_u32 del: of_nat_mult)
  then have "read_in_part (ata_disk disk) l n h = Inl OutOfBounds"
    using assms(1,3) r unfolding read_in_part_def Let_def ps_def [symmetric] by (simp add: ata_disk_def HDD_READ_AHEAD_SECTORS_def)
  moreover have "select_part l h = Some h" using assms(2) by (simp add: select_part_def)
  moreover have "ucast (ucast l :: u64) = l" by (simp add: ucast_up_ucast_id is_up)
  moreover have "n \<noteq> 0" using assms(3) by auto
  ultimately show ?thesis unfolding hdd_DeviceReadSectors_def
    by (subst hdd_loop.simps) (simp add: Let_def e [unfolded ps_def])
qed

definition hdd_example :: hdd_device where
  "hdd_example = \<lparr>CurrentPart = 0, NumParts = 1, cdvdman_partspecs = [\<lparr>part_offset = 0, data_start = 0x2000, part_size = 0x40000000\<rparr>],
     read_ahead_buf = replicate (128 * 2048) 0, read_ahead_lba = 0xFFFFFFFF, read_ahead_valid = False, read_ahead_part = 255\<rparr>"

theorem hdd_read_ahead_wrong_witness:
  "\<exists>h' h''. hdd_DeviceReadSectors (ata_disk (\<lambda>p. of_nat (p div 2048))) (ucast (16 :: u32)) 1 hdd_example
      = Inr (ErNO, hdd_sector (\<lambda>p. of_nat (p div 2048)) \<lparr>part_offset = 0, data_start = 0x2000, part_size = 0x40000000\<rparr> (unat (16 :: u32)), h')
    \<and> hdd_DeviceReadSectors (ata_disk (\<lambda>p. of_nat (p div 2048))) (ucast (16 + 1 :: u32)) 1 h'
      = Inr (ErNO, hdd_sector (\<lambda>p. of_nat (p div 2048)) \<lparr>part_offset = 0, data_start = 0x2000, part_size = 0x40000000\<rparr> (unat (16 :: u32) + 4), h'')"
  by (rule hdd_read_ahead_wrong) (simp_all add: hdd_example_def in_part_def part_end_def)

theorem hdd_read_overflow_witness: "hdd_DeviceReadSectors (ata_disk (\<lambda>p. 0)) (ucast (0 :: u32)) 200 hdd_example = Inl OutOfBounds"
  by (rule hdd_read_overflow) (simp_all add: hdd_example_def in_part_def part_end_def)

subsection \<open>A block device\<close>

text \<open>
  \<open>media\<close> is what is stored on the device, on which the parameters \<open>defrag\<close>, \<open>rd\<close> and \<open>wr\<close> work.  The semaphore counts to 1; a
  wait for it that nothing ends is \<open>Diverges\<close>.
\<close>

record block_device =
  bd_id :: nat
  devNr :: u32
  sectorSize :: nat

record 'i bdm =
  g_bd :: "block_device option"
  g_bd_sectors_per_sector :: nat
  bdm_io_sema :: nat
  bdDeviceId :: u32
  media :: 'i

definition WaitSema :: "'i bdm \<Rightarrow> ub + 'i bdm" where
  "WaitSema s = (if bdm_io_sema s = 0 then Inl Diverges else Inr (s\<lparr>bdm_io_sema := bdm_io_sema s - 1\<rparr>))"

definition SignalSema :: "'i bdm \<Rightarrow> 'i bdm" where
  "SignalSema s = (if bdm_io_sema s < 1 then s\<lparr>bdm_io_sema := bdm_io_sema s + 1\<rparr> else s)"

definition bdm_DeviceInit :: "'i bdm \<Rightarrow> 'i bdm" where
  "bdm_DeviceInit s = s\<lparr>bdm_io_sema := 0\<rparr>"

definition bdm_connect_bd :: "block_device \<Rightarrow> 'i bdm \<Rightarrow> 'i bdm" where
  "bdm_connect_bd bd s =
     (if g_bd s = None \<and> devNr bd = bdDeviceId s
      then SignalSema (s\<lparr>g_bd := Some bd, g_bd_sectors_per_sector := 2048 div sectorSize bd\<rparr>) else s)"

definition bdm_disconnect_bd :: "block_device \<Rightarrow> 'i bdm \<Rightarrow> ub + 'i bdm" where
  "bdm_disconnect_bd bd s =
     (if devNr bd = bdDeviceId s then bindR (WaitSema s) (\<lambda>s. Inr (if g_bd s = Some bd then s\<lparr>g_bd := None\<rparr> else s)) else Inr s)"

definition bdm_DeviceReady :: "'i bdm \<Rightarrow> bool" where
  "bdm_DeviceReady s = (g_bd s \<noteq> None)"

definition bdm_DeviceFSInit :: "'i bdm \<Rightarrow> ub + 'i bdm" where
  "bdm_DeviceFSInit s = bindR (WaitSema s) (\<lambda>s. Inr (SignalSema s))"

definition bdm_DeviceReadSectors :: "(u64 \<Rightarrow> u32 \<Rightarrow> 'i \<Rightarrow> int \<times> u8 list) \<Rightarrow> 'i bdm disc_read" where
  "bdm_DeviceReadSectors defrag lsn sectors s =
     (if g_bd s = None then Inr (ErTRMOPN, [], s)
      else bindR (WaitSema s) (\<lambda>s.
        let (n, bs) = defrag (lsn * 4) (sectors * 4) (media s)
        in Inr (if n \<noteq> sint (sectors * 4) then ErREAD else ErNO, bs, SignalSema s)))"

definition bdm_readSector :: "(u64 \<Rightarrow> u16 \<Rightarrow> 'i \<Rightarrow> u8 list) \<Rightarrow> u64 \<Rightarrow> u16 \<Rightarrow> 'i bdm \<Rightarrow> ub + u8 list \<times> 'i bdm" where
  "bdm_readSector rd lba nsectors s =
     bindR (WaitSema s) (\<lambda>s. if g_bd s = None then Inl NullPointer else Inr (rd lba nsectors (media s), SignalSema s))"

definition bdm_writeSector :: "(u64 \<Rightarrow> u8 list \<Rightarrow> 'i \<Rightarrow> 'i) \<Rightarrow> u64 \<Rightarrow> u8 list \<Rightarrow> 'i bdm \<Rightarrow> ub + 'i bdm" where
  "bdm_writeSector wr lba bs s =
     bindR (WaitSema s) (\<lambda>s. if g_bd s = None then Inl NullPointer else Inr (SignalSema (s\<lparr>media := wr lba bs (media s)\<rparr>)))"

text \<open>
  When another partition of the attached device is disconnected, the semaphore stays taken although the device stays attached, and
  the next read waits for ever.
\<close>

theorem bdm_partition_disconnect:
  assumes "g_bd s = Some bd" "bdm_io_sema s = 1" "devNr bd = bdDeviceId s" "devNr bd' = bdDeviceId s" "bd' \<noteq> bd"
  shows "\<exists>s'. bdm_disconnect_bd bd' s = Inr s' \<and> bdm_DeviceReady s' \<and> bdm_DeviceReadSectors defrag lsn n s' = Inl Diverges"
  using assms by (simp add: bdm_disconnect_bd_def bdm_DeviceReady_def bdm_DeviceReadSectors_def WaitSema_def)

subsection \<open>The contract of a device\<close>

text \<open>
  A read of \<open>n\<close> sectors from \<open>lsn\<close> on that the device can do in one piece (\<open>fits\<close>) delivers the bytes of the image and leaves the
  device usable; whatever fits also fits in parts.
\<close>

locale disc_device =
  fixes read :: "'d disc_read" and usable :: "'d \<Rightarrow> bool" and img :: image and fits :: "nat \<Rightarrow> nat \<Rightarrow> bool"
  assumes read_fits: "\<lbrakk>usable d; fits (unat lsn) (unat n); n \<noteq> 0\<rbrakk>
      \<Longrightarrow> \<exists>d'. read lsn n d = Inr (ErNO, bytes_at img (2048 * unat lsn) (2048 * unat n), d') \<and> usable d'"
    and fits_part: "\<lbrakk>fits l j; k + m \<le> j; 0 < m\<rbrakk> \<Longrightarrow> fits (l + k) m"

definition defrag_image :: "u64 \<Rightarrow> u32 \<Rightarrow> image \<Rightarrow> int \<times> u8 list" where
  "defrag_image lba n img = (sint n, bytes_at img (512 * unat lba) (512 * unat n))"

definition bdm_usable :: "image \<Rightarrow> image bdm \<Rightarrow> bool" where
  "bdm_usable img s = (g_bd s \<noteq> None \<and> bdm_io_sema s = 1 \<and> media s = img)"

definition fits_disc :: "nat \<Rightarrow> nat \<Rightarrow> nat \<Rightarrow> bool" where
  "fits_disc extent l n = (l + n \<le> extent \<and> extent < 2 ^ 30)"

interpretation bdm_disc: disc_device "bdm_DeviceReadSectors defrag_image" "bdm_usable img" img "fits_disc extent" for img extent
proof unfold_locales
  fix d :: "image bdm" and lsn :: u64 and n :: u32
  assume u: "bdm_usable img d" and f: "fits_disc extent (unat lsn) (unat n)"
  have "lsn * 4 = of_nat (4 * unat lsn)" by simp
  then have l: "unat (lsn * 4) = 4 * unat lsn" using f by (simp add: fits_disc_def unat_of_nat del: of_nat_mult)
  have "n * 4 = of_nat (4 * unat n)" by simp
  then have n: "unat (n * 4) = 4 * unat n" using f by (simp add: fits_disc_def unat_of_nat_u32 del: of_nat_mult)
  show "\<exists>d'. bdm_DeviceReadSectors defrag_image lsn n d = Inr (ErNO, bytes_at img (2048 * unat lsn) (2048 * unat n), d') \<and> bdm_usable img d'"
    using u by (simp add: bdm_usable_def bdm_DeviceReadSectors_def WaitSema_def SignalSema_def defrag_image_def l n)
qed (simp add: fits_disc_def)

end
