(* ===== verification/CdRead.thy ===== *)
theory CdRead
  imports DiscDevice
begin

text \<open>
  Reading the disc for a game (\<open>src/modules/iopcore/cdvdman/cdvdman.c\<close>): the probe for a compressed image, the limit of the
  medium, the chunks of a read, the unscrambling of the logo, and the copy for buffers and sector sizes that the device cannot
  read into.  The reader of the device is the argument \<open>rd\<close>, that of a compressed image \<open>zrd\<close>, and \<open>zinit\<close> prepares the latter
  from the first sector.  A caller's buffer is the list of the bytes from its address on that belong to it.
\<close>

subsection \<open>Times and sectors\<close>

record sceCdlLOCCD =
  minute :: u8
  second :: u8
  sector :: u8

definition sceCdPosToInt :: "sceCdlLOCCD \<Rightarrow> u32" where
  "sceCdPosToInt p =
     (let result = drop_bit 4 (ucast (minute p)) * 10 + (ucast (minute p) AND 0xF);
          result = result * 60;
          result = result + (drop_bit 4 (ucast (second p)) * 10 + (ucast (second p) AND 0xF));
          result = result * 75;
          result = result + (drop_bit 4 (ucast (sector p)) * 10 + (ucast (sector p) AND 0xF))
      in result - 150)"

definition sceCdIntToPos :: "u32 \<Rightarrow> sceCdlLOCCD" where
  "sceCdIntToPos i0 =
     (let i = i0 + 150; se = i div 75; sc = i - se * 75; mi = se div 60; se = se - mi * 60
      in \<lparr>minute = ucast ((mi div 10) * 16 + mi - (mi div 10) * 10), second = ucast ((se div 10) * 16 + se - (se div 10) * 10),
          sector = ucast ((sc - (sc div 10) * 10) + (sc div 10) * 16)\<rparr>)"

subsection \<open>Reading sectors\<close>

record 'd cdvdman =
  device :: 'd
  err :: cd_err
  probed :: bool
  compressed :: bool
  logo_key :: u8
  mediaLsnCount :: u32
  accu_reads :: bool
  ReadPos :: u32
  cdvdman_buf :: "u8 list"

text \<open>A store of bytes in a buffer, from an offset on.\<close>

definition store :: "u8 list \<Rightarrow> nat \<Rightarrow> u8 list \<Rightarrow> ub + u8 list" where
  "store buf pos bs = (if pos + length bs \<le> length buf then Inr (write_at buf pos bs) else Inl OutOfBounds)"

definition ZSO_MAGIC :: "u8 list" where "ZSO_MAGIC = [0x5A, 0x49, 0x53, 0x4F]"

definition ProbeZSO :: "'d disc_read \<Rightarrow> (u8 list \<Rightarrow> 'd \<Rightarrow> 'd) \<Rightarrow> u8 list \<Rightarrow> 'd cdvdman \<Rightarrow> ub + bool \<times> u8 list \<times> 'd cdvdman" where
  "ProbeZSO rd zinit buf s =
     bindR (rd 0 1 (device s)) (\<lambda>(e, bs, d).
     bindR (store buf 0 bs) (\<lambda>buf.
       let s = s\<lparr>device := d\<rparr>
       in if e \<noteq> ErNO then Inr (False, buf, s)
          else let s = s\<lparr>probed := True\<rparr>
               in Inr (True, buf, if take 4 buf = ZSO_MAGIC then s\<lparr>device := zinit (take 2048 buf) (device s), compressed := True\<rparr> else s)))"

definition DeviceReadSectorsPtr :: "'d disc_read \<Rightarrow> 'd disc_read \<Rightarrow> 'd cdvdman \<Rightarrow> 'd disc_read" where
  "DeviceReadSectorsPtr rd zrd s = (if compressed s then zrd else rd)"

text \<open>One byte of the logo.\<close>

definition unscramble :: "u8 \<Rightarrow> u8 \<Rightarrow> u8" where
  "unscramble key b = (let b = b XOR key in push_bit 3 b OR drop_bit 5 b)"

definition unscramble_logo :: "u32 \<Rightarrow> nat \<Rightarrow> nat \<Rightarrow> u8 list \<Rightarrow> u8 \<Rightarrow> u8 list \<times> u8" where
  "unscramble_logo lsn pos n buf key =
     (if lsn < 13
      then let key = (if lsn = 0 then buf ! pos else key)
           in (if key \<noteq> 0 then take pos buf @ map (unscramble key) (take n (drop pos buf)) @ drop (pos + n) buf else buf, key)
      else (buf, key))"

function read_loop :: "'d disc_read \<Rightarrow> 'd disc_read \<Rightarrow> u32 \<Rightarrow> u32 \<Rightarrow> nat \<Rightarrow> u8 list \<Rightarrow> 'd cdvdman \<Rightarrow> ub + u8 list \<times> 'd cdvdman" where
  "read_loop rd zrd lsn remaining pos buf s =
     (if remaining = 0 then Inr (buf, s)
      else let SectorsToRead = (if accu_reads s \<and> 8 < remaining then 8 else remaining)
           in bindR (DeviceReadSectorsPtr rd zrd s (ucast lsn) SectorsToRead (device s)) (\<lambda>(e, bs, d).
              bindR (store buf pos bs) (\<lambda>buf.
                let s = s\<lparr>device := d, err := e\<rparr>
                in if e \<noteq> ErNO then Inr (buf, s)
                   else let (buf, key) = unscramble_logo lsn pos (unat (SectorsToRead * 2048)) buf (logo_key s)
                        in read_loop rd zrd (lsn + SectorsToRead) (remaining - SectorsToRead) (pos + unat (SectorsToRead * 2048)) buf
                             (s\<lparr>logo_key := key, ReadPos := ReadPos s + SectorsToRead * 2048\<rparr>))))"
  by pat_completeness auto
termination
proof (relation "measure (\<lambda>(rd, zrd, lsn, remaining, pos, buf, s). unat remaining)", goal_cases)
  case (2 rd zrd lsn remaining pos buf s SectorsToRead)
  then have "SectorsToRead \<le> remaining" "SectorsToRead \<noteq> 0" by (auto split: if_splits)
  then show ?case using less_sub_word by simp
qed simp

declare read_loop.simps [simp del]

definition cdvdman_read_sectors ::
  "'d disc_read \<Rightarrow> 'd disc_read \<Rightarrow> (u8 list \<Rightarrow> 'd \<Rightarrow> 'd) \<Rightarrow> u32 \<Rightarrow> u32 \<Rightarrow> u8 list \<Rightarrow> 'd cdvdman \<Rightarrow> ub + u8 list \<times> 'd cdvdman" where
  "cdvdman_read_sectors rd zrd zinit lsn sectors buf s =
     (if mediaLsnCount s \<noteq> 0 \<and> mediaLsnCount s \<le> lsn then Inr (buf, s\<lparr>err := ErIPI\<rparr>)
      else let endOfMedia = (mediaLsnCount s \<noteq> 0 \<and> mediaLsnCount s < lsn + sectors);
               sectors = (if endOfMedia then mediaLsnCount s - lsn else sectors)
           in bindR (if probed s then Inr (True, buf, s) else ProbeZSO rd zinit buf s) (\<lambda>(ok, buf, s).
                if \<not> ok then Inr (buf, s)
                else bindR (read_loop rd zrd lsn sectors 0 buf (s\<lparr>err := ErNO\<rparr>)) (\<lambda>(buf, s).
                       Inr (buf, if endOfMedia then s\<lparr>err := ErEOM\<rparr> else s))))"

subsection \<open>Reading into a caller's buffer\<close>

definition CDVDMAN_BUF_SECTORS :: "bool \<Rightarrow> u32" where
  "CDVDMAN_BUF_SECTORS disk = (if disk then 2 else 1)"

text \<open>What is put in front of a sector of 2340 bytes.\<close>

definition sector_header :: "u32 \<Rightarrow> u8 list" where
  "sector_header rpos = (let p = sceCdIntToPos (rpos - 1) in [minute p, second p, sector p, 0, 0, 0, 8, 0, 0, 0, 8, 0])"

function copy_loop :: "'d disc_read \<Rightarrow> 'd disc_read \<Rightarrow> (u8 list \<Rightarrow> 'd \<Rightarrow> 'd) \<Rightarrow> bool \<Rightarrow> u32 \<Rightarrow> u32 \<Rightarrow> u32 \<Rightarrow> nat \<Rightarrow> u8 list
    \<Rightarrow> 'd cdvdman \<Rightarrow> ub + u8 list \<times> 'd cdvdman" where
  "copy_loop rd zrd zinit disk sector_size rpos sectors pos buf s =
     (if sectors = 0 then Inr (buf, s)
      else let nsectors = (if CDVDMAN_BUF_SECTORS disk < sectors then CDVDMAN_BUF_SECTORS disk else sectors);
               nsectors = (if sector_size \<noteq> 2048 then 1 else nsectors)
           in bindR (cdvdman_read_sectors rd zrd zinit rpos nsectors (cdvdman_buf s) s) (\<lambda>(cbuf, s).
                let s = s\<lparr>cdvdman_buf := cbuf\<rparr>; rpos = rpos + nsectors; nbytes = unat (nsectors * sector_size);
                    offset = (if sector_size = 2340 then 12 else 0)
                in if length cbuf < nbytes then Inl OutOfBounds
                   else bindR (store buf (pos + offset) (take nbytes cbuf)) (\<lambda>buf.
                        bindR (if sector_size = 2340 then store buf pos (sector_header rpos) else Inr buf) (\<lambda>buf.
                          copy_loop rd zrd zinit disk sector_size rpos (sectors - nsectors) (pos + nbytes) buf s))))"
  by pat_completeness auto
termination
proof (relation "measure (\<lambda>(rd, zrd, zinit, disk, sz, rpos, sectors, pos, buf, s). unat sectors)", goal_cases)
  case (2 rd zrd zinit disk sz rpos sectors pos buf s n0 nsectors)
  have "1 \<le> sectors" using 2(1) by (simp add: word_le_nat_alt Suc_le_eq unat_gt_0)
  then have "nsectors \<le> sectors" "nsectors \<noteq> 0" using 2(1-3) by (auto simp: CDVDMAN_BUF_SECTORS_def split: if_splits)
  then show ?case using less_sub_word by simp
qed simp

declare copy_loop.simps [simp del]

text \<open>\<open>aligned\<close> tells whether the address of the buffer is a multiple of four.\<close>

definition cdvdman_read ::
  "'d disc_read \<Rightarrow> 'd disc_read \<Rightarrow> (u8 list \<Rightarrow> 'd \<Rightarrow> 'd) \<Rightarrow> bool \<Rightarrow> bool \<Rightarrow> u32 \<Rightarrow> u32 \<Rightarrow> u16 \<Rightarrow> u8 list \<Rightarrow> 'd cdvdman \<Rightarrow> ub + u8 list \<times> 'd cdvdman" where
  "cdvdman_read rd zrd zinit disk aligned lsn sectors sector_size buf s =
     bindR (if \<not> aligned \<or> sector_size \<noteq> 2048 then copy_loop rd zrd zinit disk (ucast sector_size) lsn sectors 0 buf s
            else cdvdman_read_sectors rd zrd zinit lsn sectors buf s)
       (\<lambda>(buf, s). Inr (buf, s\<lparr>ReadPos := 0\<rparr>))"

subsection \<open>Reads of whole sectors\<close>

lemma write_at_join: "pos + length xs + length ys \<le> length buf \<Longrightarrow> write_at (write_at buf pos xs) (pos + length xs) ys = write_at buf pos (xs @ ys)"
  by (simp add: write_at_def add.commute add.left_commute)

lemma write_at_nothing [simp]: "pos \<le> length buf \<Longrightarrow> write_at buf pos [] = buf"
  by (simp add: write_at_def)

lemma unat_add_small: "unat x + unat y < 2 ^ 32 \<Longrightarrow> unat (x + y :: u32) = unat x + unat y"
  by (simp add: unat_plus_if')

lemma unat_sectors: "2048 * unat (n :: u32) < 2 ^ 32 \<Longrightarrow> unat (n * 2048) = 2048 * unat n"
proof -
  assume "2048 * unat n < 2 ^ 32"
  moreover have "n * 2048 = of_nat (2048 * unat n)" by simp
  ultimately show ?thesis by (simp only: unat_of_nat_u32)
qed

lemma unat_u64: "unat (ucast (x :: u32) :: u64) = unat x"
proof -
  have "unat x < 2 ^ 32" using unsigned_less [of x, where ?'a = nat] by simp
  then have "unat x < 2 ^ 64" by simp
  then show ?thesis by (simp add: unsigned_ucast_eq take_bit_nat_eq_self)
qed

text \<open>What a read leaves as it is.\<close>

definition same_disc :: "'d cdvdman \<Rightarrow> 'd cdvdman \<Rightarrow> bool" where
  "same_disc s s' = (probed s' = probed s \<and> compressed s' = compressed s \<and> logo_key s' = logo_key s \<and> mediaLsnCount s' = mediaLsnCount s
     \<and> accu_reads s' = accu_reads s \<and> cdvdman_buf s' = cdvdman_buf s)"

text \<open>What every read leaves as it is, those through the buffer in between too.\<close>

definition same_medium :: "'d cdvdman \<Rightarrow> 'd cdvdman \<Rightarrow> bool" where
  "same_medium s s' = (mediaLsnCount s' = mediaLsnCount s \<and> length (cdvdman_buf s') = length (cdvdman_buf s))"

text \<open>Sectors behind the logo that the medium has, as far as it is known.\<close>

definition on_disc :: "u32 \<Rightarrow> nat \<Rightarrow> 'd cdvdman \<Rightarrow> bool" where
  "on_disc lsn n s = (13 \<le> lsn \<and> unat lsn + n < 2 ^ 32 \<and> 2048 * n < 2 ^ 32
     \<and> (mediaLsnCount s = 0 \<or> lsn < mediaLsnCount s \<and> unat lsn + n \<le> unat (mediaLsnCount s)))"

context disc_device
begin

lemma read_loop_plain:
  "\<lbrakk>\<not> compressed s; usable (device s); n = 0 \<or> fits (unat lsn) (unat n); 13 \<le> lsn; unat lsn + unat n < 2 ^ 32; 2048 * unat n < 2 ^ 32;
     pos + 2048 * unat n \<le> length buf\<rbrakk>
   \<Longrightarrow> \<exists>s'. read_loop read zrd lsn n pos buf s = Inr (write_at buf pos (bytes_at img (2048 * unat lsn) (2048 * unat n)), s')
     \<and> usable (device s') \<and> same_disc s s' \<and> err s' = (if n = 0 then err s else ErNO)"
proof (induction "unat n" arbitrary: lsn n pos buf s rule: less_induct)
  case less
  show ?case
  proof (cases "n = 0")
    case True
    then show ?thesis using less.prems by (simp add: read_loop.simps [of _ _ _ 0] bytes_at_def same_disc_def)
  next
    case False
    define m where "m = (if accu_reads s \<and> 8 < n then 8 else n)"
    have m: "m \<noteq> 0" "unat m \<le> unat n" using False by (auto simp: m_def word_less_nat_alt)
    then have m0: "0 < unat m" by (simp add: unat_gt_0)
    have fits: "fits (unat lsn) (unat m)" using fits_part [of "unat lsn" "unat n" 0 "unat m"] less.prems(3) False m m0 by simp
    have l: "unat (ucast lsn :: u64) = unat lsn" by (rule unat_u64)
    obtain d where d: "read (ucast lsn) m (device s) = Inr (ErNO, bytes_at img (2048 * unat lsn) (2048 * unat m), d)" "usable d"
      using read_fits [OF less.prems(2), of "ucast lsn" m] fits m(1) l by auto
    define s1 where "s1 = s\<lparr>device := d, err := ErNO, ReadPos := ReadPos s + m * 2048\<rparr>"
    have s1: "\<not> compressed s1" "usable (device s1)" "same_disc s s1" "err s1 = ErNO" using less.prems(1) d(2) by (simp_all add: s1_def same_disc_def)
    let ?bs = "bytes_at img (2048 * unat lsn) (2048 * unat m)" and ?buf = "write_at buf pos (bytes_at img (2048 * unat lsn) (2048 * unat m))"
    have nm: "unat (n - m) = unat n - unat m" using m(2) by (simp add: unat_sub word_le_nat_alt)
    have lm: "unat (lsn + m) = unat lsn + unat m" using less.prems(5) m(2) by (intro unat_add_small) simp
    have sm: "unat (m * 2048) = 2048 * unat m" using less.prems(6) m(2) by (intro unat_sectors) simp
    have u: "unscramble_logo lsn pos k b key = (b, key)" for k b key using less.prems(4) by (simp add: unscramble_logo_def not_le [symmetric])
    have "pos + 2048 * unat m \<le> length buf" using less.prems(7) m(2) by simp
    then have step: "read_loop read zrd lsn n pos buf s = read_loop read zrd (lsn + m) (n - m) (pos + 2048 * unat m) ?buf s1"
      using False less.prems(1) d u unfolding read_loop.simps [of _ _ lsn n] m_def [symmetric]
      by (simp add: Let_def DeviceReadSectorsPtr_def store_def s1_def sm m_def [symmetric])
    have "n - m = 0 \<or> fits (unat (lsn + m)) (unat (n - m))"
    proof (cases "n - m = 0")
      case rest: False
      then have "0 < unat (n - m)" unfolding unat_gt_0 .
      then show ?thesis using fits_part [of "unat lsn" "unat n" "unat m" "unat (n - m)"] less.prems(3) False m nm lm by simp
    qed simp
    moreover have n2: "2048 * unat m + 2048 * unat (n - m) = 2048 * unat n" using nm m(2) by arith
    moreover from n2 have "pos + 2048 * unat m + 2048 * unat (n - m) \<le> length ?buf" "2048 * unat (n - m) < 2 ^ 32" using less.prems(6,7) by simp_all
    moreover have "unat (n - m) < unat n" using nm m0 m(2) by simp
    moreover have "13 \<le> lsn + m" using less.prems(4) lm by (simp add: word_le_nat_alt)
    moreover have "unat (lsn + m) + unat (n - m) < 2 ^ 32" using less.prems(5) nm lm m(2) by simp
    ultimately obtain s' where r: "read_loop read zrd (lsn + m) (n - m) (pos + 2048 * unat m) ?buf s1
        = Inr (write_at ?buf (pos + 2048 * unat m) (bytes_at img (2048 * unat (lsn + m)) (2048 * unat (n - m))), s')"
        "usable (device s')" "same_disc s1 s'" "err s' = (if n - m = 0 then err s1 else ErNO)"
      using less.hyps [of "n - m" s1 "lsn + m" "pos + 2048 * unat m" ?buf] s1(1,2) by blast
    have "?bs @ bytes_at img (2048 * unat (lsn + m)) (2048 * unat (n - m)) = bytes_at img (2048 * unat lsn) (2048 * unat n)"
      using bytes_at_append [of img "2048 * unat lsn" "2048 * unat m" "2048 * unat (n - m)"] by (simp only: lm n2 distrib_left)
    moreover have "write_at ?buf (pos + 2048 * unat m) (bytes_at img (2048 * unat (lsn + m)) (2048 * unat (n - m)))
        = write_at buf pos (?bs @ bytes_at img (2048 * unat (lsn + m)) (2048 * unat (n - m)))"
      using write_at_join [of pos ?bs "bytes_at img (2048 * unat (lsn + m)) (2048 * unat (n - m))" buf] less.prems(7) n2 by simp
    ultimately show ?thesis using r step s1 False by (auto simp: same_disc_def)
  qed
qed

definition ready :: "'d cdvdman \<Rightarrow> bool" where
  "ready s = (probed s \<and> \<not> compressed s \<and> usable (device s))"

lemma read_sectors_plain:
  assumes "ready s" "n = 0 \<or> fits (unat lsn) (unat n)" "on_disc lsn (unat n) s" "2048 * unat n \<le> length buf"
  shows "\<exists>s'. cdvdman_read_sectors read zrd zinit lsn n buf s = Inr (write_at buf 0 (bytes_at img (2048 * unat lsn) (2048 * unat n)), s')
     \<and> ready s' \<and> same_disc s s' \<and> err s' = ErNO"
proof -
  have "\<not> (mediaLsnCount s \<noteq> 0 \<and> mediaLsnCount s \<le> lsn)" using assms(3) by (auto simp: on_disc_def not_le [symmetric])
  moreover have "\<not> (mediaLsnCount s \<noteq> 0 \<and> mediaLsnCount s < lsn + n)"
    using assms(3) unat_add_small [of lsn n] by (auto simp: on_disc_def word_less_nat_alt)
  moreover obtain s' where "read_loop read zrd lsn n 0 buf (s\<lparr>err := ErNO\<rparr>) = Inr (write_at buf 0 (bytes_at img (2048 * unat lsn) (2048 * unat n)), s')"
      "usable (device s')" "same_disc (s\<lparr>err := ErNO\<rparr>) s'" "err s' = ErNO"
    using read_loop_plain [of "s\<lparr>err := ErNO\<rparr>" n lsn 0 buf zrd] assms by (auto simp: ready_def on_disc_def)
  ultimately show ?thesis using assms(1) by (auto simp: cdvdman_read_sectors_def ready_def same_disc_def)
qed

lemma copy_loop_plain:
  "\<lbrakk>ready s; n = 0 \<or> fits (unat lsn) (unat n); on_disc lsn (unat n) s; pos + 2048 * unat n \<le> length buf;
     length (cdvdman_buf s) = 2048 * unat (CDVDMAN_BUF_SECTORS disk)\<rbrakk>
   \<Longrightarrow> \<exists>s'. copy_loop read zrd zinit disk 2048 lsn n pos buf s = Inr (write_at buf pos (bytes_at img (2048 * unat lsn) (2048 * unat n)), s')
     \<and> ready s' \<and> (n \<noteq> 0 \<longrightarrow> err s' = ErNO) \<and> same_medium s s'"
proof (induction "unat n" arbitrary: lsn n pos buf s rule: less_induct)
  case less
  show ?case
  proof (cases "n = 0")
    case True
    then show ?thesis using less.prems by (simp add: copy_loop.simps [of _ _ _ _ _ _ 0] bytes_at_def same_medium_def)
  next
    case False
    define m where "m = (if CDVDMAN_BUF_SECTORS disk < n then CDVDMAN_BUF_SECTORS disk else n)"
    have m: "m \<noteq> 0" "unat m \<le> unat n" "unat m \<le> unat (CDVDMAN_BUF_SECTORS disk)"
      using False by (auto simp: m_def word_less_nat_alt CDVDMAN_BUF_SECTORS_def)
    then have m0: "0 < unat m" by (simp add: unat_gt_0)
    have o: "13 \<le> lsn" "unat lsn + unat n < 2 ^ 32" "2048 * unat n < 2 ^ 32"
      "mediaLsnCount s = 0 \<or> lsn < mediaLsnCount s \<and> unat lsn + unat n \<le> unat (mediaLsnCount s)" using less.prems(3) by (simp_all add: on_disc_def)
    have nm: "unat (n - m) = unat n - unat m" using m(2) by (simp add: unat_sub word_le_nat_alt)
    have lm: "unat (lsn + m) = unat lsn + unat m" using o(2) m(2) by (intro unat_add_small) simp
    have sm: "unat (m * 2048) = 2048 * unat m" using o(3) m(2) by (intro unat_sectors) simp
    have n2: "2048 * unat m + 2048 * unat (n - m) = 2048 * unat n" using nm m(2) by arith
    let ?bs = "bytes_at img (2048 * unat lsn) (2048 * unat m)" and ?buf = "write_at buf pos (bytes_at img (2048 * unat lsn) (2048 * unat m))"
    have "fits (unat lsn) (unat m)" using fits_part [of "unat lsn" "unat n" 0 "unat m"] less.prems(2) False m m0 by simp
    moreover have "on_disc lsn (unat m) s" using o m by (auto simp: on_disc_def)
    ultimately obtain s1 where r1: "cdvdman_read_sectors read zrd zinit lsn m (cdvdman_buf s) s = Inr (write_at (cdvdman_buf s) 0 ?bs, s1)"
        "ready s1" "same_disc s s1" "err s1 = ErNO"
      using read_sectors_plain [of s m lsn "cdvdman_buf s" zrd zinit] less.prems(1,5) m(3) by auto
    define s2 where "s2 = s1\<lparr>cdvdman_buf := write_at (cdvdman_buf s) 0 ?bs\<rparr>"
    have s2: "ready s2" "mediaLsnCount s2 = mediaLsnCount s" "length (cdvdman_buf s2) = 2048 * unat (CDVDMAN_BUF_SECTORS disk)" "err s2 = ErNO"
      using r1 less.prems(5) m(3) by (simp_all add: s2_def ready_def same_disc_def)
    have p: "pos + 2048 * unat m \<le> length buf" using less.prems(4) m(2) by simp
    have "take (2048 * unat m) (write_at (cdvdman_buf s) 0 ?bs) = ?bs" using less.prems(5) m(3) by (simp add: write_at_def)
    then have step: "copy_loop read zrd zinit disk 2048 lsn n pos buf s = copy_loop read zrd zinit disk 2048 (lsn + m) (n - m) (pos + 2048 * unat m) ?buf s2"
      using False r1(1) p s2(3) m(3) unfolding copy_loop.simps [of _ _ _ _ _ lsn n] m_def [symmetric]
      by (simp add: Let_def store_def s2_def sm m_def [symmetric])
    have "n - m = 0 \<or> fits (unat (lsn + m)) (unat (n - m))"
    proof (cases "n - m = 0")
      case rest: False
      then have "0 < unat (n - m)" unfolding unat_gt_0 .
      then show ?thesis using fits_part [of "unat lsn" "unat n" "unat m" "unat (n - m)"] less.prems(2) False m nm lm by simp
    qed simp
    moreover have "n - m = 0 \<or> on_disc (lsn + m) (unat (n - m)) s2"
    proof (cases "n - m = 0")
      case rest: False
      then have "0 < unat (n - m)" unfolding unat_gt_0 .
      then show ?thesis using o nm lm m(2) s2(2) by (auto simp: on_disc_def word_le_nat_alt word_less_nat_alt)
    qed simp
    moreover have "pos + 2048 * unat m + 2048 * unat (n - m) \<le> length ?buf" using less.prems(4) n2 by simp
    moreover have "unat (n - m) < unat n" using nm m0 m(2) by simp
    ultimately have "\<exists>s'. copy_loop read zrd zinit disk 2048 (lsn + m) (n - m) (pos + 2048 * unat m) ?buf s2
        = Inr (write_at ?buf (pos + 2048 * unat m) (bytes_at img (2048 * unat (lsn + m)) (2048 * unat (n - m))), s') \<and> ready s' \<and> err s' = ErNO
          \<and> same_medium s s'"
      using less.hyps [of "n - m" s2 "lsn + m" "pos + 2048 * unat m" ?buf] s2 less.prems(5)
      by (cases "n - m = 0") (auto simp: copy_loop.simps [of _ _ _ _ _ _ 0] bytes_at_def p same_medium_def)
    moreover have "?bs @ bytes_at img (2048 * unat (lsn + m)) (2048 * unat (n - m)) = bytes_at img (2048 * unat lsn) (2048 * unat n)"
      using bytes_at_append [of img "2048 * unat lsn" "2048 * unat m" "2048 * unat (n - m)"] by (simp only: lm n2 distrib_left)
    moreover have "write_at ?buf (pos + 2048 * unat m) (bytes_at img (2048 * unat (lsn + m)) (2048 * unat (n - m)))
        = write_at buf pos (?bs @ bytes_at img (2048 * unat (lsn + m)) (2048 * unat (n - m)))"
      using write_at_join [of pos ?bs "bytes_at img (2048 * unat (lsn + m)) (2048 * unat (n - m))" buf] less.prems(4) n2 by simp
    ultimately show ?thesis using step by auto
  qed
qed

lemma raw_copy_overflow:
  "\<lbrakk>ready s; n \<noteq> 0; fits (unat lsn) (unat n); on_disc lsn (unat n) s; length buf = pos + 2340 * unat n; 2340 * unat n < 2 ^ 32;
     length (cdvdman_buf s) = 2048 * unat (CDVDMAN_BUF_SECTORS disk)\<rbrakk>
   \<Longrightarrow> copy_loop read zrd zinit disk 2340 lsn n pos buf s = Inl OutOfBounds"
proof (induction "unat n" arbitrary: lsn n pos buf s rule: less_induct)
  case less
  have n0: "0 < unat n" using less.prems(2) by (simp add: unat_gt_0)
  have o: "13 \<le> lsn" "unat lsn + unat n < 2 ^ 32" "2048 * unat n < 2 ^ 32"
    "mediaLsnCount s = 0 \<or> lsn < mediaLsnCount s \<and> unat lsn + unat n \<le> unat (mediaLsnCount s)" using less.prems(4) by (simp_all add: on_disc_def)
  have "fits (unat lsn) (unat (1 :: u32))" using fits_part [of "unat lsn" "unat n" 0 1] less.prems(3) n0 by simp
  moreover have "on_disc lsn (unat (1 :: u32)) s" using o n0 by (auto simp: on_disc_def)
  moreover have "2048 * unat (1 :: u32) \<le> length (cdvdman_buf s)" using less.prems(7) by (simp add: CDVDMAN_BUF_SECTORS_def)
  ultimately obtain s1 where r1: "cdvdman_read_sectors read zrd zinit lsn 1 (cdvdman_buf s) s = Inr (write_at (cdvdman_buf s) 0 (bytes_at img (2048 * unat lsn) (2048 * unat (1 :: u32))), s1)"
      "ready s1" "same_disc s s1"
    using read_sectors_plain [of s 1 lsn "cdvdman_buf s" zrd zinit] less.prems(1) by blast
  define cbuf where "cbuf = write_at (cdvdman_buf s) 0 (bytes_at img (2048 * unat lsn) (2048 * unat (1 :: u32)))"
  have c: "length cbuf = 2048 * unat (CDVDMAN_BUF_SECTORS disk)" using less.prems(7) by (simp add: cbuf_def CDVDMAN_BUF_SECTORS_def)
  define s2 where "s2 = s1\<lparr>cdvdman_buf := cbuf\<rparr>"
  have step: "copy_loop read zrd zinit disk 2340 lsn n pos buf s =
      (if length cbuf < 2340 then Inl OutOfBounds
       else bindR (store buf (pos + 12) (take 2340 cbuf)) (\<lambda>buf. bindR (store buf pos (sector_header (lsn + 1))) (\<lambda>buf.
              copy_loop read zrd zinit disk 2340 (lsn + 1) (n - 1) (pos + 2340) buf s2)))"
    using less.prems(2) r1(1) unfolding copy_loop.simps [of _ _ _ _ _ lsn n] cbuf_def [symmetric] by (simp add: Let_def s2_def)
  show ?case
  proof (cases disk)
    case False
    then show ?thesis unfolding step using c by (simp add: CDVDMAN_BUF_SECTORS_def)
  next
    case disk: True
    then have c: "length cbuf = 4096" using c by (simp add: CDVDMAN_BUF_SECTORS_def)
    have h: "length (sector_header r) = 12" for r by (simp add: sector_header_def Let_def)
    show ?thesis
    proof (cases "unat n = 1")
      case True
      then show ?thesis unfolding step using c less.prems(5) by (simp add: store_def)
    next
      case False
      then have n2: "2 \<le> unat n" using n0 by simp
      have nm: "unat (n - 1) = unat n - 1" using n2 by (simp add: unat_sub word_le_nat_alt)
      have lm: "unat (lsn + 1) = unat lsn + 1" using o(2) n2 unat_add_small [of lsn 1] by simp
      let ?buf = "write_at (write_at buf (pos + 12) (take 2340 cbuf)) pos (sector_header (lsn + 1))"
      have l: "length ?buf = pos + 2340 + 2340 * unat (n - 1)" using less.prems(5) c h n2 nm by (simp add: diff_mult_distrib2)
      have "copy_loop read zrd zinit disk 2340 (lsn + 1) (n - 1) (pos + 2340) ?buf s2 = Inl OutOfBounds"
      proof (rule less.hyps)
        show "unat (n - 1) < unat n" using nm n2 by simp
        show "ready s2" using r1(2) by (simp add: s2_def ready_def)
        show "n - 1 \<noteq> 0" using nm n2 by (metis diff_is_0_eq unat_0 not_less_eq_eq numeral_2_eq_2 One_nat_def)
        show "fits (unat (lsn + 1)) (unat (n - 1))" using fits_part [of "unat lsn" "unat n" 1 "unat (n - 1)"] less.prems(3) nm lm n2 by simp
        show "on_disc (lsn + 1) (unat (n - 1)) s2"
          using o nm lm n2 r1(3) by (auto simp: on_disc_def s2_def same_disc_def word_le_nat_alt word_less_nat_alt)
        show "length ?buf = pos + 2340 + 2340 * unat (n - 1)" by (rule l)
        show "2340 * unat (n - 1) < 2 ^ 32" using less.prems(6) nm by simp
        show "length (cdvdman_buf s2) = 2048 * unat (CDVDMAN_BUF_SECTORS disk)" using c disk by (simp add: s2_def CDVDMAN_BUF_SECTORS_def)
      qed
      then show ?thesis unfolding step using c h less.prems(5) n2 by (simp add: store_def)
    qed
  qed
qed

lemma read_delivers:
  assumes "ready s" "n \<noteq> 0" "fits (unat lsn) (unat n)" "on_disc lsn (unat n) s" "2048 * unat n \<le> length buf"
    "length (cdvdman_buf s) = 2048 * unat (CDVDMAN_BUF_SECTORS disk)"
  shows "\<exists>s'. cdvdman_read read zrd zinit disk aligned lsn n 2048 buf s
      = Inr (bytes_at img (2048 * unat lsn) (2048 * unat n) @ drop (2048 * unat n) buf, s') \<and> ready s' \<and> err s' = ErNO
    \<and> same_medium s s'"
proof -
  have w: "write_at buf 0 (bytes_at img (2048 * unat lsn) (2048 * unat n)) = bytes_at img (2048 * unat lsn) (2048 * unat n) @ drop (2048 * unat n) buf"
    by (simp add: write_at_def)
  show ?thesis
  proof (cases aligned)
    case True
    then show ?thesis using read_sectors_plain [of s n lsn buf zrd zinit] assms w by (auto simp: cdvdman_read_def ready_def same_disc_def same_medium_def)
  next
    case False
    then show ?thesis using copy_loop_plain [of s n lsn 0 buf disk zrd zinit] assms w by (auto simp: cdvdman_read_def ready_def same_medium_def)
  qed
qed

end

text \<open>
  C27. For an uncompressed image on a block device, a read of whole sectors behind the logo (from sector 13 on) and inside the medium
  puts exactly those sectors of the disc into the caller's buffer and reports no error, whatever the buffer's alignment, the limit of the
  transfers and the size of the buffer in between.  (Sectors of the logo: \<open>cd_logo_transfer\<close>; the end of the medium:
  \<open>cd_read_end\<close>; a hard disk: \<open>hdd_read_ahead_wrong\<close>.)
\<close>

theorem cd_read_correct:
  assumes "probed s" "\<not> compressed s" "bdm_usable img (device s)" "n \<noteq> 0" "fits_disc extent (unat lsn) (unat n)" "on_disc lsn (unat n) s"
    and "2048 * unat n \<le> length buf" "length (cdvdman_buf s) = 2048 * unat (CDVDMAN_BUF_SECTORS disk)"
  shows "\<exists>s'. cdvdman_read (bdm_DeviceReadSectors defrag_image) zrd zinit disk aligned lsn n 2048 buf s
      = Inr (bytes_at img (2048 * unat lsn) (2048 * unat n) @ drop (2048 * unat n) buf, s')
    \<and> probed s' \<and> \<not> compressed s' \<and> bdm_usable img (device s') \<and> err s' = ErNO"
  using bdm_disc.read_delivers [of img s n extent lsn buf disk zrd zinit aligned] assms by (auto simp: bdm_disc.ready_def)

definition bdm_example :: "image bdm" where
  "bdm_example = \<lparr>g_bd = Some \<lparr>bd_id = 0, devNr = 1, sectorSize = 512\<rparr>, g_bd_sectors_per_sector = 4, bdm_io_sema = 1, bdDeviceId = 1,
     media = \<lambda>p. of_nat (p div 2048)\<rparr>"

definition cdvdman_example :: "u32 \<Rightarrow> image bdm cdvdman" where
  "cdvdman_example m = \<lparr>device = bdm_example, err = ErNO, probed = True, compressed = False, logo_key = 7, mediaLsnCount = m, accu_reads = True,
     ReadPos = 0, cdvdman_buf = replicate 4096 0\<rparr>"

theorem cd_read_correct_witness:
  "\<exists>s'. cdvdman_read (bdm_DeviceReadSectors defrag_image) (bdm_DeviceReadSectors defrag_image) (\<lambda>b d. d) True False 100 20 2048 (replicate 50000 0) (cdvdman_example 1000)
      = Inr (bytes_at (\<lambda>p. of_nat (p div 2048)) (2048 * unat (100 :: u32)) (2048 * unat (20 :: u32)) @ drop (2048 * unat (20 :: u32)) (replicate 50000 0), s')
    \<and> probed s' \<and> \<not> compressed s' \<and> bdm_usable (\<lambda>p. of_nat (p div 2048)) (device s') \<and> err s' = ErNO"
  by (rule cd_read_correct [where extent = 10000])
    (simp_all add: cdvdman_example_def bdm_example_def bdm_usable_def fits_disc_def on_disc_def CDVDMAN_BUF_SECTORS_def)

text \<open>
  At the end of the medium an aligned read delivers the sectors that there are and reports the end; behind it the buffer is left
  alone and the parameters are reported as wrong.
\<close>

theorem cd_read_end:
  assumes "probed s" "\<not> compressed s" "bdm_usable img (device s)" "13 \<le> lsn" "mediaLsnCount s \<noteq> 0" "unat lsn + unat n < 2 ^ 32"
    "unat (mediaLsnCount s) < unat lsn + unat n" "2048 * unat n < 2 ^ 32" "2048 * unat n \<le> length buf" "fits_disc extent (unat lsn) (unat n)"
  shows "\<exists>s'. cdvdman_read (bdm_DeviceReadSectors defrag_image) zrd zinit disk True lsn n 2048 buf s
      = Inr (if mediaLsnCount s \<le> lsn then buf else write_at buf 0 (bytes_at img (2048 * unat lsn) (2048 * (unat (mediaLsnCount s) - unat lsn))), s')
    \<and> err s' = (if mediaLsnCount s \<le> lsn then ErIPI else ErEOM)"
proof (cases "mediaLsnCount s \<le> lsn")
  case True
  then show ?thesis using assms(5) by (simp add: cdvdman_read_def cdvdman_read_sectors_def)
next
  case False
  define m where "m = mediaLsnCount s - lsn"
  have l: "lsn < mediaLsnCount s" using False by simp
  have m: "unat m = unat (mediaLsnCount s) - unat lsn" "unat lsn \<le> unat (mediaLsnCount s)" using l by (simp_all add: m_def unat_sub word_less_nat_alt word_le_nat_alt)
  then have m': "unat m < unat n" using assms(7) by simp
  have "fits_disc extent (unat lsn) (unat m)" using assms(10) m' by (simp add: fits_disc_def)
  then have "m = 0 \<or> fits_disc extent (unat lsn) (unat m)" by simp
  then obtain s1 where s1: "read_loop (bdm_DeviceReadSectors defrag_image) zrd lsn m 0 buf (s\<lparr>err := ErNO\<rparr>)
      = Inr (write_at buf 0 (bytes_at img (2048 * unat lsn) (2048 * unat m)), s1)"
    using bdm_disc.read_loop_plain [of "s\<lparr>err := ErNO\<rparr>" img m extent lsn 0 buf zrd] assms(2,3,4,6,8,9) m' by auto
  have "mediaLsnCount s < lsn + n" using assms(6,7) unat_add_small [of lsn n] by (simp add: word_less_nat_alt)
  then show ?thesis using False assms(1,5) s1 m by (simp add: cdvdman_read_def cdvdman_read_sectors_def m_def)
qed

theorem cd_read_end_witness:
  "\<exists>s'. cdvdman_read (bdm_DeviceReadSectors defrag_image) (bdm_DeviceReadSectors defrag_image) (\<lambda>b d. d) True True 100 20 2048 (replicate 50000 0) (cdvdman_example 110)
      = Inr (if mediaLsnCount (cdvdman_example 110) \<le> 100 then replicate 50000 0 else write_at (replicate 50000 0) 0 (bytes_at (\<lambda>p. of_nat (p div 2048))
          (2048 * unat (100 :: u32)) (2048 * (unat (mediaLsnCount (cdvdman_example 110)) - unat (100 :: u32)))), s')
    \<and> err s' = (if mediaLsnCount (cdvdman_example 110) \<le> 100 then ErIPI else ErEOM)"
  by (rule cd_read_end [where extent = 10000]) (simp_all add: cdvdman_example_def bdm_example_def bdm_usable_def fits_disc_def)

text \<open>
  The time code of a sector gives back the sector, for every sector a time code of 100 minutes can name.
\<close>

lemma bcd_roundtrip:
  assumes "unat (w :: u32) < 100"
  shows "drop_bit 4 (ucast (ucast ((w div 10) * 16 + w - (w div 10) * 10) :: u8)) * 10
    + (ucast (ucast ((w div 10) * 16 + w - (w div 10) * 10) :: u8) AND 0xF) = w"
proof -
  have "list_all (\<lambda>w :: u32. drop_bit 4 (ucast (ucast ((w div 10) * 16 + w - (w div 10) * 10) :: u8)) * 10
      + (ucast (ucast ((w div 10) * 16 + w - (w div 10) * 10) :: u8) AND 0xF) = w) (map of_nat [0..<100])" by code_simp
  moreover have "w \<in> set (map of_nat [0..<100])" using assms by (auto intro!: image_eqI [of _ _ "unat w"])
  ultimately show ?thesis unfolding list_all_iff by blast
qed

theorem time_code_roundtrip:
  assumes "unat i + 150 < 450000"
  shows "sceCdPosToInt (sceCdIntToPos i) = i"
proof -
  define se where "se = (i + 150) div 75"
  define sc where "sc = i + 150 - se * 75"
  define mi where "mi = se div 60"
  define se' where "se' = se - mi * 60"
  have i: "unat (i + 150) = unat i + 150" using assms unat_add_small [of i 150] by simp
  have b: "unat mi < 100" "unat se' < 100" "unat sc < 100"
  proof -
    have se: "unat se = (unat i + 150) div 75" by (simp add: se_def unat_div_distrib i)
    then have "unat mi = (unat i + 150) div 75 div 60" by (simp add: mi_def unat_div_distrib)
    then show "unat mi < 100" using assms by linarith
    have "se' = se mod 60" by (simp add: se'_def mi_def minus_div_mult_eq_mod)
    then show "unat se' < 100" by (simp add: unat_mod_distrib)
    have "sc = (i + 150) mod 75" by (simp add: sc_def se_def minus_div_mult_eq_mod)
    then show "unat sc < 100" by (simp add: unat_mod_distrib)
  qed
  have s: "sc - (sc div 10) * 10 + (sc div 10) * 16 = (sc div 10) * 16 + sc - (sc div 10) * 10" by simp
  have "sceCdPosToInt (sceCdIntToPos i) = (mi * 60 + se') * 75 + sc - 150"
    unfolding sceCdPosToInt_def sceCdIntToPos_def Let_def se_def [symmetric] sc_def [symmetric] mi_def [symmetric] se'_def [symmetric] s
    by (simp only: sceCdlLOCCD.simps bcd_roundtrip [OF b(1)] bcd_roundtrip [OF b(2)] bcd_roundtrip [OF b(3)])
  then show ?thesis by (simp add: se'_def sc_def)
qed

theorem time_code_roundtrip_witness: "sceCdPosToInt (sceCdIntToPos 333000) = 333000"
  by (rule time_code_roundtrip) simp

text \<open>
  A read of raw sectors of 2340 bytes never stays in the caller's buffer: where the buffer in between holds two sectors, the last
  raw sector ends 12 bytes behind a buffer with room for exactly all of them; where it holds one, the copy reads behind it.
\<close>

theorem cd_raw_read_overflow:
  assumes "probed s" "\<not> compressed s" "bdm_usable img (device s)" "n \<noteq> 0" "fits_disc extent (unat lsn) (unat n)" "on_disc lsn (unat n) s"
    and "length buf = 2340 * unat n" "2340 * unat n < 2 ^ 32" "length (cdvdman_buf s) = 2048 * unat (CDVDMAN_BUF_SECTORS disk)"
  shows "cdvdman_read (bdm_DeviceReadSectors defrag_image) zrd zinit disk aligned lsn n 2340 buf s = Inl OutOfBounds"
  using bdm_disc.raw_copy_overflow [of img s n extent lsn buf 0 disk zrd zinit] assms by (simp add: bdm_disc.ready_def cdvdman_read_def)

theorem cd_raw_read_overflow_witness:
  "cdvdman_read (bdm_DeviceReadSectors defrag_image) (bdm_DeviceReadSectors defrag_image) (\<lambda>b d. d) True True 100 3 2340 (replicate 7020 0) (cdvdman_example 0) = Inl OutOfBounds"
  by (rule cd_raw_read_overflow [where extent = 10000])
    (simp_all add: cdvdman_example_def bdm_example_def bdm_usable_def fits_disc_def on_disc_def CDVDMAN_BUF_SECTORS_def)

text \<open>
  The logo is unscrambled in whole transfers: one that starts in the logo changes every sector it has, those behind the logo too.
\<close>

theorem cd_logo_transfer:
  assumes "probed s" "\<not> compressed s" "bdm_usable img (device s)" "\<not> accu_reads s" "mediaLsnCount s = 0" "logo_key s \<noteq> 0"
    "lsn \<noteq> 0" "lsn < 13" "n \<noteq> 0" "fits_disc extent (unat lsn) (unat n)" "2048 * unat n < 2 ^ 32" "2048 * unat n \<le> length buf"
  shows "\<exists>s'. cdvdman_read (bdm_DeviceReadSectors defrag_image) zrd zinit disk True lsn n 2048 buf s
    = Inr (map (unscramble (logo_key s)) (bytes_at img (2048 * unat lsn) (2048 * unat n)) @ drop (2048 * unat n) buf, s')"
proof -
  have l: "unat (ucast lsn :: u64) = unat lsn" by (rule unat_u64)
  obtain d where d: "bdm_DeviceReadSectors defrag_image (ucast lsn) n (device s) = Inr (ErNO, bytes_at img (2048 * unat lsn) (2048 * unat n), d)"
    using bdm_disc.read_fits [of img "device s" extent "ucast lsn" n] assms(3,9,10) l by auto
  have sm: "unat (n * 2048) = 2048 * unat n" by (rule unat_sectors) (rule assms(11))
  have "read_loop (bdm_DeviceReadSectors defrag_image) zrd lsn n 0 buf (s\<lparr>err := ErNO\<rparr>)
      = Inr (map (unscramble (logo_key s)) (bytes_at img (2048 * unat lsn) (2048 * unat n)) @ drop (2048 * unat n) buf,
          s\<lparr>device := d, err := ErNO, logo_key := logo_key s, ReadPos := ReadPos s + n * 2048\<rparr>)"
    using assms d unfolding read_loop.simps [of _ _ lsn n]
    by (simp add: Let_def DeviceReadSectorsPtr_def store_def write_at_def unscramble_logo_def sm read_loop.simps [of _ _ _ 0])
  then show ?thesis using assms(1,5) by (simp add: cdvdman_read_def cdvdman_read_sectors_def)
qed

end
