(* ===== verification/SmbDevice.thy ===== *)
theory SmbDevice
  imports SmbFile CdRead
begin

text \<open>
  The share as the device of the disc (\<open>src/modules/iopcore/cdvdman/device-smb.c\<close>): opening the parts of the image, and reading
  its sectors through a read-ahead buffer of 64.
\<close>

subsection \<open>The code\<close>

definition SMB_READ_AHEAD_SECTORS :: u32 where "SMB_READ_AHEAD_SECTORS = 64"

record 'n smb_device =
  smb_client :: "'n smb"
  smb_FIDs :: "u16 list"
  smb_NumParts :: nat
  smb_ahead_buf :: "u8 list"
  smb_ahead_lsn :: u32
  smb_ahead_valid :: bool
  smb_ahead_part :: nat

text \<open>
  The paths on the share: \<open>\prefix\CD\file\<close> or \<open>\prefix\DVD\file\<close> of an image, \<open>\prefix\file.00\<close> and so on of the parts of one
  (\<open>media\<close> is 0x12 for a CD).  \<open>hex2\<close> is \<open>%02x\<close>.
\<close>

definition hex_digit :: "nat \<Rightarrow> u8" where
  "hex_digit d = (if d < 10 then of_nat (0x30 + d) else of_nat (0x57 + d))"

definition hex2 :: "nat \<Rightarrow> u8 list" where
  "hex2 i = (if i < 16 then [0x30, hex_digit i] else [hex_digit (i div 16), hex_digit (i mod 16)])"

definition image_path :: "u8 list \<Rightarrow> u8 \<Rightarrow> u8 list \<Rightarrow> u8 list" where
  "image_path prefix media_type filename =
     (if prefix \<noteq> [] then 0x5C # prefix else []) @ [0x5C] @ (if media_type = 0x12 then [0x43, 0x44] else [0x44, 0x56, 0x44]) @ [0x5C] @ filename"

definition part_path :: "u8 list \<Rightarrow> u8 list \<Rightarrow> nat \<Rightarrow> u8 list" where
  "part_path prefix filename i = (if prefix \<noteq> [] then 0x5C # prefix else []) @ [0x5C] @ filename @ [0x2E] @ hex2 i"

text \<open>A file that cannot be opened leaves its identifier as it was.\<close>

definition open_part :: "nat \<Rightarrow> 'n network \<Rightarrow> u8 list \<Rightarrow> nat \<Rightarrow> 'n smb_device \<Rightarrow> ub + 'n smb_device" where
  "open_part fuel net path i d =
     bindR (smb_OpenAndX fuel net path False (smb_client d)) (\<lambda>(r, fid, s).
       let d = d\<lparr>smb_client := s\<rparr>
       in case fid of None \<Rightarrow> Inr d
          | Some fid \<Rightarrow> if i < length (smb_FIDs d) then Inr (d\<lparr>smb_FIDs := (smb_FIDs d)[i := fid]\<rparr>) else Inl OutOfBounds)"

fun open_parts :: "nat \<Rightarrow> 'n network \<Rightarrow> u8 list \<Rightarrow> u8 list \<Rightarrow> nat list \<Rightarrow> 'n smb_device \<Rightarrow> ub + 'n smb_device" where
  "open_parts fuel net prefix filename [] d = Inr d"
| "open_parts fuel net prefix filename (i # is) d =
     bindR (open_part fuel net (part_path prefix filename i) i d) (open_parts fuel net prefix filename is)"

definition smb_DeviceFSInit ::
  "nat \<Rightarrow> 'n network \<Rightarrow> u32 \<Rightarrow> u8 list \<Rightarrow> u8 list \<Rightarrow> bool \<Rightarrow> u8 list \<Rightarrow> u8 \<Rightarrow> u8 list \<Rightarrow> 'n smb_device \<Rightarrow> ub + 'n smb_device" where
  "smb_DeviceFSInit fuel net ServerCapabilities ip share usbld prefix media_type filename d =
     bindR (smb_SessionSetupAndX fuel net ServerCapabilities (smb_client d)) (\<lambda>(r, s).
     bindR (smb_TreeConnectAndX fuel net ([0x5C, 0x5C] @ ip @ [0x5C] @ share) s) (\<lambda>(r, s).
       let d = d\<lparr>smb_client := s\<rparr>
       in if \<not> usbld then open_part fuel net (image_path prefix media_type filename) 0 d
          else open_parts fuel net prefix filename [0..<smb_NumParts d] d))"

definition smb_DeviceUnmount :: "nat \<Rightarrow> 'n network \<Rightarrow> 'n smb_device \<Rightarrow> ub + 'n smb_device" where
  "smb_DeviceUnmount fuel net d =
     bindR (smb_CloseAll fuel net (smb_NumParts d) (smb_FIDs d) (smb_client d)) (\<lambda>(FIDs, s).
       Inr (d\<lparr>smb_FIDs := FIDs, smb_client := smb_Disconnect s\<rparr>))"

definition ahead_size :: "u32 \<Rightarrow> u32 \<Rightarrow> u32" where
  "ahead_size sectors_to_read max_sectors =
     (let read_size = (if sectors_to_read < SMB_READ_AHEAD_SECTORS then SMB_READ_AHEAD_SECTORS else sectors_to_read)
      in if max_sectors < read_size then max_sectors else read_size)"

text \<open>The copy out of the read-ahead buffer, and the part of a read that is in one file.\<close>

definition ahead_copy :: "u32 \<Rightarrow> u32 \<Rightarrow> u8 list \<Rightarrow> ub + u8 list" where
  "ahead_copy offset n buf =
     (if unat offset + unat (n * 2048) \<le> length buf then Inr (take (unat (n * 2048)) (drop (unat offset) buf)) else Inl OutOfBounds)"

definition smb_part_read :: "nat \<Rightarrow> 'n network \<Rightarrow> nat \<Rightarrow> u32 \<Rightarrow> u32 \<Rightarrow> u32 \<Rightarrow> 'n smb_device \<Rightarrow> ub + cd_err \<times> u8 list \<times> 'n smb_device" where
  "smb_part_read fuel net i ubound offslsn sectors_to_read d =
     (if smb_ahead_valid d \<and> smb_ahead_part d = i \<and> smb_ahead_lsn d \<le> offslsn
         \<and> offslsn + sectors_to_read \<le> smb_ahead_lsn d + SMB_READ_AHEAD_SECTORS
      then bindR (ahead_copy ((offslsn - smb_ahead_lsn d) * 2048) sectors_to_read (smb_ahead_buf d)) (\<lambda>bs. Inr (ErNO, bs, d))
      else bindR (smb_ReadCD fuel net (smb_FIDs d) offslsn (ahead_size sectors_to_read (ubound - offslsn)) (smb_ahead_buf d) i (smb_client d))
        (\<lambda>(r, buf, s).
          let d = d\<lparr>smb_ahead_buf := buf, smb_client := s\<rparr>
          in if r \<le> 0 then Inr (ErREAD, [], d\<lparr>smb_ahead_valid := False\<rparr>)
             else bindR (ahead_copy 0 sectors_to_read buf) (\<lambda>bs.
                    Inr (ErNO, bs, d\<lparr>smb_ahead_lsn := offslsn, smb_ahead_part := i, smb_ahead_valid := True\<rparr>))))"

fun smb_read_parts :: "nat \<Rightarrow> 'n network \<Rightarrow> nat list \<Rightarrow> u32 \<Rightarrow> u32 \<Rightarrow> u32 \<Rightarrow> u64 \<Rightarrow> u32 \<Rightarrow> u32 \<Rightarrow> u32 \<Rightarrow> u8 list \<Rightarrow> 'n smb_device
    \<Rightarrow> ub + cd_err \<times> u8 list \<times> 'n smb_device" where
  "smb_read_parts fuel net [] lbound ubound offslsn lsn sectors sectors_to_read nlsn out d = Inr (ErNO, out, d)"
| "smb_read_parts fuel net (i # is) lbound ubound offslsn lsn sectors sectors_to_read nlsn out d =
     (if lbound \<le> ucast lsn \<and> ucast lsn < ubound
      then let split = ubound - 1 < ucast lsn + sectors;
               sectors_to_read = (if split then ubound - ucast lsn else sectors_to_read);
               sectors = (if split then sectors - sectors_to_read else sectors);
               nlsn = (if split then ubound else nlsn)
           in bindR (smb_part_read fuel net i ubound offslsn sectors_to_read d) (\<lambda>(e, bs, d).
                if e \<noteq> ErNO then Inr (e, out, d)
                else if \<not> split then Inr (ErNO, out @ bs, d)
                else smb_read_parts fuel net is ubound (ubound + 0x80000) (offslsn + sectors_to_read - 0x80000) (ucast nlsn) sectors sectors nlsn (out @ bs) d)
      else smb_read_parts fuel net is ubound (ubound + 0x80000) (offslsn - 0x80000) lsn sectors sectors_to_read nlsn out d)"

definition smb_DeviceReadSectors :: "nat \<Rightarrow> 'n network \<Rightarrow> 'n smb_device disc_read" where
  "smb_DeviceReadSectors fuel net lsn sectors d =
     smb_read_parts fuel net [0..<smb_NumParts d] 0 (if 1 < smb_NumParts d then 0x80000 else 0xFFFFFFFF) (ucast lsn) lsn sectors sectors 0 [] d"

subsection \<open>Reading an image of one part\<close>

definition smb_dev_usable :: "nat \<Rightarrow> 'n network \<Rightarrow> ('n \<Rightarrow> bool) \<Rightarrow> u16 \<Rightarrow> image \<Rightarrow> nat \<Rightarrow> 'n smb_device \<Rightarrow> bool" where
  "smb_dev_usable fuel net I fid img extent d =
     (serves_file net I fid img (2048 * extent) \<and> 8192 < fuel \<and> smb_usable I (smb_client d) \<and> smb_NumParts d = 1 \<and> smb_FIDs d \<noteq> [] \<and> smb_FIDs d ! 0 = fid
      \<and> length (smb_ahead_buf d) = 131072
      \<and> (smb_ahead_valid d \<longrightarrow> unat (smb_ahead_lsn d) + 64 \<le> extent \<and> smb_ahead_buf d = bytes_at img (2048 * unat (smb_ahead_lsn d)) 131072))"

definition smb_fits :: "nat \<Rightarrow> nat \<Rightarrow> nat \<Rightarrow> bool" where
  "smb_fits extent l n = (0 < n \<and> n \<le> 64 \<and> l + n + 63 \<le> extent \<and> extent < 2 ^ 31)"

text \<open>The read-ahead buffer holds the sectors.\<close>

definition ahead_covers :: "'n smb_device \<Rightarrow> nat \<Rightarrow> nat \<Rightarrow> bool" where
  "ahead_covers d l n = (smb_ahead_valid d \<and> smb_ahead_part d = 0 \<and> unat (smb_ahead_lsn d) \<le> l \<and> l + n \<le> unat (smb_ahead_lsn d) + 64)"

lemma lsn_offset: "unat (drop_bit 21 l :: u32) * 2 ^ 32 + unat (l * 2048) = 2048 * unat l"
proof -
  have "unat (drop_bit 21 l) = unat l div 2 ^ 21" by (simp only: unat_drop_bit_eq) (simp add: drop_bit_eq_div)
  moreover have "unat (l * 2048) = unat l * 2048 mod 2 ^ 32" by (simp add: unat_word_ariths)
  moreover have "unat l div 2 ^ 21 = unat l * 2048 div 2 ^ 32" using div_mult_mult2 [of 2048 "unat l" "2 ^ 21"] by simp
  ultimately have "unat (drop_bit 21 l) * 2 ^ 32 + unat (l * 2048) = unat l * 2048 div 2 ^ 32 * 2 ^ 32 + unat l * 2048 mod 2 ^ 32" by simp
  also have "\<dots> = unat l * 2048" by (rule div_mult_mod_eq)
  finally show ?thesis by simp
qed

lemma ahead_64:
  assumes "unat n \<le> 64" "64 \<le> unat m"
  shows "ahead_size n m = 64"
proof -
  have "\<not> m < 64" using assms(2) by (simp add: word_less_nat_alt)
  moreover have "n < 64 \<or> n = 64" using assms(1) by (auto simp: word_less_nat_alt word_unat_eq_iff)
  ultimately show ?thesis by (auto simp: ahead_size_def SMB_READ_AHEAD_SECTORS_def Let_def)
qed

text \<open>A read-ahead of 64 sectors: inside the image, and where it reaches beyond the end.\<close>

lemma read_ahead:
  assumes u: "smb_dev_usable fuel net I fid img extent d" and e: "extent < 2 ^ 31" "unat l \<le> extent"
  shows "\<exists>s'. (if unat l + 64 \<le> extent
      then smb_ReadCD fuel net (smb_FIDs d) l 64 (smb_ahead_buf d) 0 (smb_client d) = Inr (131072, bytes_at img (2048 * unat l) 131072, s') \<and> smb_usable I s'
      else \<exists>buf. smb_ReadCD fuel net (smb_FIDs d) l 64 (smb_ahead_buf d) 0 (smb_client d) = Inr (0, buf, s') \<and> smb_io_sema s' = 0)"
proof -
  let ?n = "131072 :: nat"
  have f: "smb_ReadCD fuel net (smb_FIDs d) l 64 (smb_ahead_buf d) 0 (smb_client d)
      = smb_ReadFile fuel net fid (l * 2048) (drop_bit 21 l) (smb_ahead_buf d) (int ?n) (smb_client d)"
    using u by (simp add: smb_ReadCD_def smb_dev_usable_def)
  have a: "serves_file net I fid img (2048 * extent)" "smb_usable I (smb_client d)" "?n \<le> length (smb_ahead_buf d)" "8192 < fuel"
    and l: "length (smb_ahead_buf d) = ?n"
    using u by (simp_all add: smb_dev_usable_def)
  have b: "2048 * unat l + ?n < 2 ^ 64" using e by simp
  have n: "0 < ?n" by simp
  obtain s' where s': "if 2048 * unat l + ?n \<le> 2048 * extent
      then smb_ReadFile fuel net fid (l * 2048) (drop_bit 21 l) (smb_ahead_buf d) (int ?n) (smb_client d)
          = Inr (int ?n, bytes_at img (2048 * unat l) ?n @ drop ?n (smb_ahead_buf d), s') \<and> smb_usable I s'
      else smb_ReadFile fuel net fid (l * 2048) (drop_bit 21 l) (smb_ahead_buf d) (int ?n) (smb_client d)
          = Inr (0, bytes_at img (2048 * unat l) (min ?n (2048 * extent - 2048 * unat l)) @ drop (min ?n (2048 * extent - 2048 * unat l)) (smb_ahead_buf d), s')
        \<and> smb_io_sema s' = 0"
    using ReadFile_serves [OF a(1,2) lsn_offset b a(3,4) n] by blast
  show ?thesis
  proof (cases "unat l + 64 \<le> extent")
    case True
    then have "2048 * unat l + ?n \<le> 2048 * extent" by simp
    then show ?thesis using s' True l f by (intro exI [of _ s']) simp
  next
    case False
    then have "\<not> 2048 * unat l + ?n \<le> 2048 * extent" by simp
    then show ?thesis using s' False f by (intro exI [of _ s']) (simp del: drop_append)
  qed
qed

text \<open>A read that the buffer covers is a copy out of it, and one that it does not cover fetches 64 sectors.\<close>

lemma part_read_buffer:
  assumes u: "smb_dev_usable fuel net I fid img extent d" and e: "extent < 2 ^ 31" and b: "unat l < extent" "unat n \<le> 64"
  shows "smb_part_read fuel net 0 0xFFFFFFFF l n d =
    (if ahead_covers d (unat l) (unat n) then Inr (ErNO, bytes_at img (2048 * unat l) (2048 * unat n), d)
     else bindR (smb_ReadCD fuel net (smb_FIDs d) l 64 (smb_ahead_buf d) 0 (smb_client d)) (\<lambda>(r, buf, s).
       let d = d\<lparr>smb_ahead_buf := buf, smb_client := s\<rparr>
       in if r \<le> 0 then Inr (ErREAD, [], d\<lparr>smb_ahead_valid := False\<rparr>)
          else bindR (ahead_copy 0 n buf) (\<lambda>bs. Inr (ErNO, bs, d\<lparr>smb_ahead_lsn := l, smb_ahead_part := 0, smb_ahead_valid := True\<rparr>))))"
proof -
  define a where "a = smb_ahead_lsn d"
  have n2: "unat (n * 2048) = 2048 * unat n" using b(2) by (intro unat_sectors) simp
  have sn: "unat (l + n) = unat l + unat n" using b e unat_add_small [of l n] by simp
  have a: "unat a + 64 \<le> extent" "smb_ahead_buf d = bytes_at img (2048 * unat a) 131072" if "smb_ahead_valid d"
    using u that by (simp_all add: smb_dev_usable_def a_def)
  have sa: "unat (a + 64) = unat a + 64" if "smb_ahead_valid d"
    using a(1) [OF that] e unat_add_small [of a 64] by simp
  have c: "(smb_ahead_valid d \<and> smb_ahead_part d = 0 \<and> smb_ahead_lsn d \<le> l \<and> l + n \<le> smb_ahead_lsn d + SMB_READ_AHEAD_SECTORS)
      \<longleftrightarrow> ahead_covers d (unat l) (unat n)"
    using sa by (auto simp: ahead_covers_def a_def [symmetric] word_le_nat_alt SMB_READ_AHEAD_SECTORS_def sn)
  show ?thesis
  proof (cases "ahead_covers d (unat l) (unat n)")
    case True
    then have v: "smb_ahead_valid d" and r: "unat a \<le> unat l" "unat l + unat n \<le> unat a + 64"
      by (simp_all add: ahead_covers_def a_def)
    have "unat (l - a) = unat l - unat a" using r(1) by (simp add: unat_sub word_le_nat_alt)
    define w where "w = (l - a) * 2048"
    have o: "unat w = 2048 * (unat l - unat a)"
      unfolding w_def using r b e \<open>unat (l - a) = unat l - unat a\<close> by (subst unat_sectors) (simp_all del: right_diff_distrib left_diff_distrib)
    have "take (2048 * unat n) (drop (2048 * (unat l - unat a)) (bytes_at img (2048 * unat a) 131072)) = bytes_at img (2048 * unat l) (2048 * unat n)"
    proof -
      have "2048 * unat a + 2048 * (unat l - unat a) = 2048 * unat l" using r(1) by simp
      then show ?thesis using r by (simp add: drop_bytes_at take_bytes_at)
    qed
    then have "ahead_copy w n (smb_ahead_buf d) = Inr (bytes_at img (2048 * unat l) (2048 * unat n))"
      using r by (simp add: ahead_copy_def o n2 a(2) [OF v])
    then show ?thesis using True unfolding smb_part_read_def c if_P [OF True] unfolding a_def [symmetric] w_def [symmetric] by simp
  next
    case False
    have "l \<le> 0xFFFFFFFF" by (simp add: word_le_nat_alt) (use b e in simp)
    then have "unat (0xFFFFFFFF - l) = 0xFFFFFFFF - unat l" by (simp add: unat_sub)
    then have m: "ahead_size n (0xFFFFFFFF - l) = 64" using b e by (intro ahead_64) simp_all
    show ?thesis unfolding smb_part_read_def c if_not_P [OF False] m by (rule refl)
  qed
qed

lemma part_read_fits:
  assumes u: "smb_dev_usable fuel net I fid img extent d" and f: "smb_fits extent (unat l) (unat n)"
  shows "\<exists>d'. smb_part_read fuel net 0 0xFFFFFFFF l n d = Inr (ErNO, bytes_at img (2048 * unat l) (2048 * unat n), d')
    \<and> smb_dev_usable fuel net I fid img extent d'"
proof -
  have b: "0 < unat n" "unat n \<le> 64" "unat l + unat n + 63 \<le> extent" "extent < 2 ^ 31" using f by (simp_all add: smb_fits_def)
  have n2: "unat (n * 2048) = 2048 * unat n" using b(2) by (intro unat_sectors) simp
  have le: "unat l < extent" using b by simp
  note pr = part_read_buffer [OF u b(4) le b(2)]
  show ?thesis
  proof (cases "ahead_covers d (unat l) (unat n)")
    case True
    then show ?thesis using u unfolding pr if_P [OF True] by blast
  next
    case False
    obtain s' where s': "smb_ReadCD fuel net (smb_FIDs d) l 64 (smb_ahead_buf d) 0 (smb_client d) = Inr (131072, bytes_at img (2048 * unat l) 131072, s')"
      "smb_usable I s'"
      using read_ahead [OF u, of l] b by auto
    have "ahead_copy 0 n (bytes_at img (2048 * unat l) 131072) = Inr (bytes_at img (2048 * unat l) (2048 * unat n))"
      using b(2) by (simp add: ahead_copy_def n2 take_bytes_at)
    then show ?thesis using s' u b unfolding pr if_not_P [OF False]
      by (simp add: Let_def smb_dev_usable_def)
  qed
qed

lemma one_part_read:
  assumes "smb_NumParts d = 1" "unat (ucast lsn :: u32) + unat n < 0xFFFFFFFF"
  shows "smb_DeviceReadSectors fuel net lsn n d = bindR (smb_part_read fuel net 0 0xFFFFFFFF (ucast lsn) n d) (\<lambda>(e, bs, d).
    Inr (e, if e \<noteq> ErNO then [] else bs, d))"
proof -
  define l where "l = (ucast lsn :: u32)"
  have "unat (l + n) = unat l + unat n" using assms(2) by (intro unat_add_small) (simp add: l_def)
  then have "\<not> 0xFFFFFFFE < l + n" "l < 0xFFFFFFFF" using assms(2) by (simp_all add: word_less_nat_alt l_def [symmetric])
  then show ?thesis using assms(1)
    by (simp add: smb_DeviceReadSectors_def l_def [symmetric] Let_def bindR_def split: sum.splits prod.splits)
qed

lemma smb_device_reads:
  assumes "smb_dev_usable fuel net I fid img extent d" "smb_fits extent (unat lsn) (unat n)"
  shows "\<exists>d'. smb_DeviceReadSectors fuel net lsn n d = Inr (ErNO, bytes_at img (2048 * unat lsn) (2048 * unat n), d')
    \<and> smb_dev_usable fuel net I fid img extent d'"
proof -
  have b: "unat lsn + unat n + 63 \<le> extent" "extent < 2 ^ 31" using assms(2) by (simp_all add: smb_fits_def)
  then have l: "unat (ucast lsn :: u32) = unat lsn" by (simp add: unsigned_ucast_eq take_bit_nat_eq_self)
  have "smb_NumParts d = 1" using assms(1) by (simp add: smb_dev_usable_def)
  then show ?thesis using one_part_read [of d lsn n fuel net] part_read_fits [OF assms(1), of "ucast lsn" n] assms(2) b by (auto simp: l)
qed

text \<open>The share keeps the contract of a device for reads of up to 64 sectors the last of which has 63 more sectors of the image behind it.\<close>

interpretation smb_disc: disc_device "smb_DeviceReadSectors fuel net" "smb_dev_usable fuel net I fid img extent" img "smb_fits extent"
  for fuel net I fid img extent
proof unfold_locales
  show "\<exists>d'. smb_DeviceReadSectors fuel net lsn n d = Inr (ErNO, bytes_at img (2048 * unat lsn) (2048 * unat n), d')
      \<and> smb_dev_usable fuel net I fid img extent d'"
    if "smb_dev_usable fuel net I fid img extent d" "smb_fits extent (unat lsn) (unat n)" "n \<noteq> 0" for d :: "'a smb_device" and lsn :: u64 and n :: u32
    by (rule smb_device_reads [OF that(1,2)])
qed (simp add: smb_fits_def)

text \<open>
  C29. A game that runs from a share, from an uncompressed image in one part, reads whole sectors behind the logo exactly as they are in
  the image on the server, through the layers of the drive, the read-ahead buffer, the SMB client and the sockets, when it reads at most 64
  of them and 63 more follow the last one.  The first buffer of each answer of the server holds the whole header.
\<close>

theorem game_read_over_smb:
  assumes "probed s" "\<not> compressed s" "smb_dev_usable fuel net I fid img extent (device s)" "n \<noteq> 0" "smb_fits extent (unat lsn) (unat n)"
    and "on_disc lsn (unat n) s" "2048 * unat n \<le> length buf" "length (cdvdman_buf s) = 2048 * unat (CDVDMAN_BUF_SECTORS disk)"
  shows "\<exists>s'. cdvdman_read (smb_DeviceReadSectors fuel net) zrd zinit disk aligned lsn n 2048 buf s
      = Inr (bytes_at img (2048 * unat lsn) (2048 * unat n) @ drop (2048 * unat n) buf, s')
    \<and> probed s' \<and> \<not> compressed s' \<and> smb_dev_usable fuel net I fid img extent (device s') \<and> err s' = ErNO"
  using smb_disc.read_delivers [of fuel net I fid img extent s n lsn buf disk zrd zinit aligned] assms by (auto simp: smb_disc.ready_def)

lemma part_read_blocked:
  assumes "\<not> smb_ahead_valid d" "smb_io_sema (smb_client d) = 0" "i < length (smb_FIDs d)"
  shows "smb_part_read fuel net i ubound l n d = Inl Diverges"
  using assms by (simp add: smb_part_read_def smb_ReadCD_def smb_ReadFile_def WAITIOSEMA_def)

text \<open>
  C33. A read of up to 64 sectors that starts in the last 63 sectors of the image succeeds when the read-ahead buffer holds them all.
  Otherwise, with a valid buffer or without one, it fails, because the read-ahead reaches beyond the end, and the next read waits for ever for
  the semaphore that the failed one has kept.
\<close>

theorem last_sectors_block:
  assumes u: "smb_dev_usable fuel net I fid img extent d" and n: "n \<noteq> 0" "unat n \<le> 64"
    and l: "unat lsn < extent" "extent < unat lsn + 64" "extent < 2 ^ 31"
    and l': "unat (ucast lsn' :: u32) + unat n' < 0xFFFFFFFF"
  shows "if ahead_covers d (unat lsn) (unat n)
    then smb_DeviceReadSectors fuel net lsn n d = Inr (ErNO, bytes_at img (2048 * unat lsn) (2048 * unat n), d)
    else \<exists>d'. smb_DeviceReadSectors fuel net lsn n d = Inr (ErREAD, [], d') \<and> smb_DeviceReadSectors fuel net lsn' n' d' = Inl Diverges"
proof -
  define k where "k = (ucast lsn :: u32)"
  have k: "unat k = unat lsn" using l by (simp add: k_def unsigned_ucast_eq take_bit_nat_eq_self)
  have one: "smb_NumParts d = 1" "smb_FIDs d \<noteq> []" using u by (simp_all add: smb_dev_usable_def)
  have "unat k < extent" using l(1) k by simp
  note pr = part_read_buffer [OF u l(3) this n(2), unfolded k]
  note rd = one_part_read [of d lsn n fuel net, folded k_def]
  have small: "unat k + unat n < 0xFFFFFFFF" using l n(2) k by simp
  show ?thesis
  proof (cases "ahead_covers d (unat lsn) (unat n)")
    case True
    then show ?thesis using rd [OF one(1) small] by (simp add: pr)
  next
    case False
    obtain s' buf where s': "smb_ReadCD fuel net (smb_FIDs d) k 64 (smb_ahead_buf d) 0 (smb_client d) = Inr (0, buf, s')" "smb_io_sema s' = 0"
      using read_ahead [OF u l(3), of k] l k by auto
    define d' where "d' = d\<lparr>smb_ahead_buf := buf, smb_client := s', smb_ahead_valid := False\<rparr>"
    have "smb_part_read fuel net 0 0xFFFFFFFF k n d = Inr (ErREAD, [], d')" unfolding pr if_not_P [OF False] using s' by (simp add: d'_def)
    then have "smb_DeviceReadSectors fuel net lsn n d = Inr (ErREAD, [], d')"
      using rd [OF one(1) small] by simp
    moreover have "smb_DeviceReadSectors fuel net lsn' n' d' = Inl Diverges"
      using one_part_read [of d' lsn' n' fuel net] part_read_blocked [of d' 0 fuel net] one l' s'(2) by (simp add: d'_def)
    ultimately show ?thesis using False by auto
  qed
qed

definition smb_dev_example :: "netbuf list smb_device" where
  "smb_dev_example = \<lparr>smb_client = smb_example (Some (idle [])) [], smb_FIDs = replicate 10 5, smb_NumParts = 1, smb_ahead_buf = replicate 131072 0,
     smb_ahead_lsn = 0xFFFFFFFF, smb_ahead_valid = False, smb_ahead_part = 10\<rparr>"

lemma smb_dev_example_usable: "smb_dev_usable 9000 (file_server img (2048 * extent)) (\<lambda>c. c = []) 5 img extent smb_dev_example"
  using file_server_serves [of img "2048 * extent" 5] by (simp add: smb_dev_usable_def smb_dev_example_def smb_usable_def smb_example_def)

theorem game_read_over_smb_witness:
  "\<exists>s'. cdvdman_read (smb_DeviceReadSectors 9000 (file_server (\<lambda>p. of_nat p) (2048 * 1000))) (smb_DeviceReadSectors 9000 refusing_server) (\<lambda>b d. d)
        False True 100 20 2048 (replicate 50000 0)
        \<lparr>device = smb_dev_example, err = ErNO, probed = True, compressed = False, logo_key = 7, mediaLsnCount = 1000, accu_reads = False,
          ReadPos = 0, cdvdman_buf = replicate (2048 * unat (CDVDMAN_BUF_SECTORS False)) 0\<rparr>
      = Inr (bytes_at (\<lambda>p. of_nat p) (2048 * unat (100 :: u32)) (2048 * unat (20 :: u32)) @ drop (2048 * unat (20 :: u32)) (replicate 50000 0), s')
    \<and> probed s' \<and> \<not> compressed s'
    \<and> smb_dev_usable 9000 (file_server (\<lambda>p. of_nat p) (2048 * 1000)) (\<lambda>c. c = []) 5 (\<lambda>p. of_nat p) 1000 (device s') \<and> err s' = ErNO"
  by (rule game_read_over_smb) (simp_all add: smb_fits_def on_disc_def, rule smb_dev_example_usable [where extent = 1000, simplified])

definition smb_dev_ahead :: "u32 \<Rightarrow> netbuf list smb_device" where
  "smb_dev_ahead l = smb_dev_example\<lparr>smb_ahead_buf := bytes_at (\<lambda>p. of_nat p) (2048 * unat l) 131072, smb_ahead_lsn := l, smb_ahead_valid := True,
     smb_ahead_part := 0\<rparr>"

lemma smb_dev_ahead_usable:
  "unat l + 64 \<le> extent \<Longrightarrow> smb_dev_usable 9000 (file_server (\<lambda>p. of_nat p) (2048 * extent)) (\<lambda>c. c = []) 5 (\<lambda>p. of_nat p) extent (smb_dev_ahead l)"
  using smb_dev_example_usable [of "\<lambda>p. of_nat p" extent] by (simp add: smb_dev_usable_def smb_dev_ahead_def smb_dev_example_def)

theorem last_sectors_block_witness:
  "smb_DeviceReadSectors 9000 (file_server (\<lambda>p. of_nat p) (2048 * 1000)) 990 10 (smb_dev_ahead 936)
      = Inr (ErNO, bytes_at (\<lambda>p. of_nat p) (2048 * 990) (2048 * 10), smb_dev_ahead 936)
    \<and> (\<exists>d'. smb_DeviceReadSectors 9000 (file_server (\<lambda>p. of_nat p) (2048 * 1000)) 990 10 (smb_dev_ahead 900) = Inr (ErREAD, [], d')
      \<and> smb_DeviceReadSectors 9000 (file_server (\<lambda>p. of_nat p) (2048 * 1000)) 16 1 d' = Inl Diverges)"
proof
  note u = smb_dev_ahead_usable [where extent = 1000]
  have c: "ahead_covers (smb_dev_ahead 936) 990 10" "\<not> ahead_covers (smb_dev_ahead 900) 990 10"
    by (simp_all add: ahead_covers_def smb_dev_ahead_def)
  show "smb_DeviceReadSectors 9000 (file_server (\<lambda>p. of_nat p) (2048 * 1000)) 990 10 (smb_dev_ahead 936)
      = Inr (ErNO, bytes_at (\<lambda>p. of_nat p) (2048 * 990) (2048 * 10), smb_dev_ahead 936)"
    using last_sectors_block [OF u [of 936], of 10 990 16 1] c(1) by simp
  show "\<exists>d'. smb_DeviceReadSectors 9000 (file_server (\<lambda>p. of_nat p) (2048 * 1000)) 990 10 (smb_dev_ahead 900) = Inr (ErREAD, [], d')
      \<and> smb_DeviceReadSectors 9000 (file_server (\<lambda>p. of_nat p) (2048 * 1000)) 16 1 d' = Inl Diverges"
    using last_sectors_block [OF u [of 900], of 10 990 16 1] c(2) by simp
qed

end
