(* ===== verification/CdCache.thy ===== *)
theory CdCache
  imports CdRead
begin

text \<open>
  The cache of sectors below the reader of compressed images, and the raw reads through it
  (\<open>src/modules/iopcore/cdvdman/cdvdman.c\<close>), against the raw read of \<open>Zso\<close> that has no cache.
\<close>

subsection \<open>The code\<close>

text \<open>A cache that is not allocated is empty; \<open>cur_sector\<close> is all ones while the cache holds nothing.\<close>

record 'd sector_reader =
  below :: 'd
  MAX_SECTOR_CACHE :: nat
  sector_cache :: "u8 list"
  cur_sector :: u64

definition initCache :: "u8 \<Rightarrow> u8 list \<Rightarrow> 'd sector_reader \<Rightarrow> 'd sector_reader" where
  "initCache cache_size mem s =
     (if cache_size \<noteq> 0 \<and> sector_cache s = []
      then if mem \<noteq> [] then s\<lparr>sector_cache := mem, MAX_SECTOR_CACHE := unat cache_size\<rparr> else s
      else s)"

definition DeviceReadSectorsCached :: "'d disc_read \<Rightarrow> 'd sector_reader disc_read" where
  "DeviceReadSectorsCached rd lsn sectors s =
     (if unat sectors < MAX_SECTOR_CACHE s
      then bindR (if cur_sector s = - 1 \<or> lsn < cur_sector s \<or> of_nat (MAX_SECTOR_CACHE s) < lsn + ucast sectors - cur_sector s
                  then bindR (rd lsn (of_nat (MAX_SECTOR_CACHE s)) (below s)) (\<lambda>(e, bs, d).
                         bindR (store (sector_cache s) 0 bs) (\<lambda>cache. Inr (s\<lparr>below := d, sector_cache := cache, cur_sector := lsn\<rparr>)))
                  else Inr s)
             (\<lambda>s. let pos = unat (lsn - cur_sector s) * 2048; n = 2048 * unat sectors
                  in if pos + n \<le> length (sector_cache s) then Inr (ErNO, take n (drop pos (sector_cache s)), s) else Inl OutOfBounds)
      else bindR (rd lsn sectors (below s)) (\<lambda>(e, bs, d). Inr (e, bs, s\<lparr>below := d\<rparr>)))"

definition read_uncached :: "'d disc_read \<Rightarrow> 'd sector_reader disc_read" where
  "read_uncached rd lsn sectors s = bindR (rd lsn sectors (below s)) (\<lambda>(e, bs, d). Inr (e, bs, s\<lparr>below := d\<rparr>))"

text \<open>
  \<open>read_raw_data\<close>: the bytes put at \<open>addr\<close>, and the new contents of \<open>ziso_tmp_buf\<close>.  \<open>index\<close> tells that the bytes go to the cache of
  the index, which is read past the cache of sectors.
\<close>

definition read_raw_data :: "'d disc_read \<Rightarrow> bool \<Rightarrow> nat \<Rightarrow> nat \<Rightarrow> nat \<Rightarrow> u8 list \<Rightarrow> 'd sector_reader \<Rightarrow> ub + u8 list \<times> u8 list \<times> 'd sector_reader" where
  "read_raw_data rd index size0 offset shift tmp s =
     (let ReadSectors = (if index then read_uncached rd else DeviceReadSectorsCached rd);
          lba = raw_lba offset shift; pos = raw_pos offset shift; r0 = (if pos \<noteq> 0 then min size0 (2048 - pos) else 0)
      in bindR (if pos \<noteq> 0
                then bindR (ReadSectors (of_nat lba) 1 s) (\<lambda>(e, bs, s). bindR (store tmp 0 bs) (\<lambda>tmp. Inr (take r0 (drop pos tmp), tmp, lba + 1, s)))
                else Inr ([], tmp, lba, s)) (\<lambda>(part0, tmp, lba, s).
         let size1 = size0 - r0; n_blocks = (if size1 mod 2048 \<noteq> 0 then size1 div 2048 + 1 else size1 div 2048)
         in bindR (if 1 < n_blocks then bindR (ReadSectors (of_nat lba) (of_nat (n_blocks - 1)) s) (\<lambda>(e, bs, s). Inr (bs, lba + (n_blocks - 1), s))
                   else Inr ([], lba, s)) (\<lambda>(part1, lba, s).
            let size2 = size1 - (if 1 < n_blocks then 2048 * (n_blocks - 1) else 0)
            in bindR (if size2 \<noteq> 0 then bindR (ReadSectors (of_nat lba) 1 s) (\<lambda>(e, bs, s). bindR (store tmp 0 bs) (\<lambda>tmp. Inr (take size2 tmp, tmp, s)))
                      else Inr ([], tmp, s)) (\<lambda>(part2, tmp, s).
               Inr (part0 @ part1 @ part2, tmp, s)))))"

subsection \<open>Reads through the cache\<close>

definition cache_ok :: "image \<Rightarrow> 'd sector_reader \<Rightarrow> bool" where
  "cache_ok img s = (length (sector_cache s) = 2048 * MAX_SECTOR_CACHE s \<and> MAX_SECTOR_CACHE s < 256
     \<and> (cur_sector s \<noteq> - 1 \<longrightarrow> sector_cache s = bytes_at img (2048 * unat (cur_sector s)) (2048 * MAX_SECTOR_CACHE s)))"

lemma unat_of_nat_u64: "n < 2 ^ 64 \<Longrightarrow> unat (of_nat n :: u64) = n"
  by (simp add: unat_of_nat)

context disc_device
begin

lemma cached_read:
  assumes "usable (below s)" "cache_ok img s" "0 < n" "n < 2 ^ 32" "fits l n" "fits l (MAX_SECTOR_CACHE s)" "l < 2 ^ 40"
  shows "\<exists>s'. DeviceReadSectorsCached read (of_nat l) (of_nat n) s = Inr (ErNO, bytes_at img (2048 * l) (2048 * n), s')
    \<and> usable (below s') \<and> cache_ok img s' \<and> MAX_SECTOR_CACHE s' = MAX_SECTOR_CACHE s"
proof -
  let ?m = "MAX_SECTOR_CACHE s"
  have l: "unat (of_nat l :: u64) = l" using assms(7) by (intro unat_of_nat_u64) simp
  have n: "unat (of_nat n :: u32) = n" using assms(4) by (rule unat_of_nat_u32)
  have m: "?m < 256" "unat (of_nat ?m :: u32) = ?m" "length (sector_cache s) = 2048 * ?m"
    using assms(2) by (simp_all add: cache_ok_def unat_of_nat_u32)
  show ?thesis
  proof (cases "n < ?m")
    case False
    have "(of_nat n :: u32) \<noteq> 0" using n assms(3) by (metis unat_0 less_irrefl)
    then obtain d where "read (of_nat l) (of_nat n) (below s) = Inr (ErNO, bytes_at img (2048 * l) (2048 * n), d)" "usable d"
      using read_fits [of "below s" "of_nat l" "of_nat n"] assms l n by auto
    then show ?thesis using False n assms(2) by (auto simp: DeviceReadSectorsCached_def cache_ok_def)
  next
    case small: True
    show ?thesis
    proof (cases "cur_sector s = - 1 \<or> of_nat l < cur_sector s \<or> of_nat ?m < of_nat l + ucast (of_nat n :: u32) - cur_sector s")
      case True
      have "(of_nat ?m :: u32) \<noteq> 0" using m small by (metis unat_0 gr_implies_not0)
      then obtain d where "read (of_nat l) (of_nat ?m) (below s) = Inr (ErNO, bytes_at img (2048 * l) (2048 * ?m), d)" "usable d"
        using read_fits [of "below s" "of_nat l" "of_nat ?m"] assms l m by auto
      then show ?thesis using True small n m l by (auto simp: DeviceReadSectorsCached_def store_def write_at_def cache_ok_def take_bytes_at)
    next
      case False
      define c where "c = unat (cur_sector s)"
      have c: "c \<le> l" using False l by (simp add: c_def not_less word_le_nat_alt)
      have e: "of_nat l + ucast (of_nat n :: u32) - cur_sector s = of_nat (l + n - c)"
      proof -
        have "ucast (of_nat n :: u32) = (of_nat n :: u64)" by (rule word_unat_eq_iff [THEN iffD2]) (simp add: unat_u64 n unat_of_nat_u64 assms(4) less_trans [OF assms(4)])
        moreover have "cur_sector s = of_nat c" by (simp add: c_def)
        ultimately show ?thesis using c by (simp add: of_nat_diff)
      qed
      have "unat (of_nat (l + n - c) :: u64) = l + n - c" using assms(4,7) by (intro unat_of_nat_u64) simp
      moreover have "unat (of_nat ?m :: u64) = ?m" using m(1) by (intro unat_of_nat_u64) simp
      ultimately have b: "l + n - c \<le> ?m" using False unfolding e by (simp add: not_less word_le_nat_alt)
      have p: "unat (of_nat l - cur_sector s) = l - c" using c l by (simp add: c_def unat_sub word_le_nat_alt)
      have k: "sector_cache s = bytes_at img (2048 * c) (2048 * ?m)" using assms(2) False by (simp add: cache_ok_def c_def)
      have "take (2048 * n) (drop ((l - c) * 2048) (sector_cache s)) = bytes_at img (2048 * l) (2048 * n)"
        using b c by (simp add: k drop_bytes_at take_bytes_at algebra_simps flip: distrib_left)
      moreover have "(l - c) * 2048 + 2048 * n \<le> 2048 * ?m" using b c by simp
      ultimately show ?thesis using False small n p m(3) assms(1,2) by (simp add: DeviceReadSectorsCached_def Let_def)
    qed
  qed
qed

lemma uncached_read:
  assumes "usable (below s)" "cache_ok img s" "0 < n" "n < 2 ^ 32" "fits l n" "l < 2 ^ 40"
  shows "\<exists>s'. read_uncached read (of_nat l) (of_nat n) s = Inr (ErNO, bytes_at img (2048 * l) (2048 * n), s')
    \<and> usable (below s') \<and> cache_ok img s' \<and> MAX_SECTOR_CACHE s' = MAX_SECTOR_CACHE s"
proof -
  have l: "unat (of_nat l :: u64) = l" using assms(6) by (intro unat_of_nat_u64) simp
  have n: "unat (of_nat n :: u32) = n" using assms(4) by (rule unat_of_nat_u32)
  have "(of_nat n :: u32) \<noteq> 0" using n assms(3) by (metis unat_0 less_irrefl)
  then obtain d where "read (of_nat l) (of_nat n) (below s) = Inr (ErNO, bytes_at img (2048 * l) (2048 * n), d)" "usable d"
    using read_fits [of "below s" "of_nat l" "of_nat n"] assms l n by auto
  then show ?thesis using assms(2) by (auto simp: read_uncached_def cache_ok_def)
qed

text \<open>The three parts of a raw read are those of the reader without a cache, from the same sectors.\<close>

lemma raw_read:
  assumes s: "usable (below s)" "cache_ok img s" and tmp: "length tmp = 2048"
    and all_fit: "\<And>l n. l + n \<le> extent \<Longrightarrow> fits l n" and extent: "raw_lba offset shift + len0 div 2048 + 258 \<le> extent" "extent < 2 ^ 32"
  shows "\<exists>s'. read_raw_data read index len0 offset shift tmp s = Inr (fst (read_raw_hdd img len0 offset shift tmp), snd (read_raw_hdd img len0 offset shift tmp), s')
    \<and> usable (below s') \<and> cache_ok img s'"
proof -
  define R where "R = (if index then read_uncached read else DeviceReadSectorsCached read)"
  define lba where "lba = raw_lba offset shift"
  define pos where "pos = raw_pos offset shift"
  define r0 where "r0 = (if pos \<noteq> 0 then min len0 (2048 - pos) else 0)"
  define size1 where "size1 = len0 - r0"
  define n_blocks where "n_blocks = (if size1 mod 2048 \<noteq> 0 then size1 div 2048 + 1 else size1 div 2048)"
  define whole where "whole = (if 1 < n_blocks then n_blocks - 1 else 0)"
  define lba1 where "lba1 = (if pos \<noteq> 0 then lba + 1 else lba)"
  define size2 where "size2 = size1 - 2048 * whole"
  have R: "\<exists>s'. R (of_nat l) (of_nat n) s = Inr (ErNO, bytes_at img (2048 * l) (2048 * n), s') \<and> usable (below s') \<and> cache_ok img s'"
    if "0 < n" "l + n + 256 \<le> extent" "usable (below s)" "cache_ok img s" for l n s
  proof -
    have "MAX_SECTOR_CACHE s < 256" using that(4) by (simp add: cache_ok_def)
    then have "fits l n" "fits l (MAX_SECTOR_CACHE s)" using that(2) by (auto intro: all_fit)
    then show ?thesis using cached_read [of s n l] uncached_read [of s n l] that extent(2) by (cases index) (auto simp: R_def)
  qed
  have w: "lba1 + whole + 1 + 256 \<le> extent"
  proof -
    have "whole \<le> size1 div 2048" by (auto simp: whole_def n_blocks_def)
    moreover have "size1 div 2048 \<le> len0 div 2048" by (simp add: size1_def div_le_mono)
    moreover have "lba1 \<le> lba + 1" by (simp add: lba1_def)
    ultimately show ?thesis using extent(1) by (simp add: lba_def)
  qed
  have one: "\<exists>s'. R (of_nat l) 1 s = Inr (ErNO, ReadHDDSectors img l 1, s') \<and> usable (below s') \<and> cache_ok img s'"
    if "l + 1 + 256 \<le> extent" "usable (below s)" "cache_ok img s" for l s
    using R [of 1 l s] that by (simp add: ReadHDDSectors_bytes mult.commute)
  define tmp1 where "tmp1 = (if pos \<noteq> 0 then ReadHDDSectors img lba 1 else tmp)"
  have t: "length (ReadHDDSectors img l 1) = 2048" for l by (simp add: ReadHDDSectors_bytes)
  have "\<exists>s1. (if pos \<noteq> 0
      then bindR (R (of_nat lba) 1 s) (\<lambda>(e, bs, s). bindR (store tmp 0 bs) (\<lambda>tmp. Inr (take r0 (drop pos tmp), tmp, lba + 1, s)))
      else Inr ([], tmp, lba, s)) = Inr (if pos \<noteq> 0 then take r0 (drop pos tmp1) else [], tmp1, lba1, s1) \<and> usable (below s1) \<and> cache_ok img s1"
    using one [of lba s] s w tmp t by (auto simp: tmp1_def lba1_def store_def write_at_def)
  then obtain s1 where s1: "(if pos \<noteq> 0
      then bindR (R (of_nat lba) 1 s) (\<lambda>(e, bs, s). bindR (store tmp 0 bs) (\<lambda>tmp. Inr (take r0 (drop pos tmp), tmp, lba + 1, s)))
      else Inr ([], tmp, lba, s)) = Inr (if pos \<noteq> 0 then take r0 (drop pos tmp1) else [], tmp1, lba1, s1)" "usable (below s1)" "cache_ok img s1" by blast
  have "\<exists>s2. (if 1 < n_blocks then bindR (R (of_nat lba1) (of_nat (n_blocks - 1)) s1) (\<lambda>(e, bs, s). Inr (bs, lba1 + (n_blocks - 1), s)) else Inr ([], lba1, s1))
      = Inr (ReadHDDSectors img lba1 whole, lba1 + whole, s2) \<and> usable (below s2) \<and> cache_ok img s2"
  proof (cases "1 < n_blocks")
    case True
    then show ?thesis using R [of "n_blocks - 1" lba1 s1] s1(2,3) w by (auto simp: whole_def ReadHDDSectors_bytes mult.commute simp del: of_nat_diff)
  qed (use s1 in \<open>simp add: whole_def ReadHDDSectors_bytes bytes_at_def\<close>)
  then obtain s2 where s2: "(if 1 < n_blocks then bindR (R (of_nat lba1) (of_nat (n_blocks - 1)) s1) (\<lambda>(e, bs, s). Inr (bs, lba1 + (n_blocks - 1), s)) else Inr ([], lba1, s1))
      = Inr (ReadHDDSectors img lba1 whole, lba1 + whole, s2)" "usable (below s2)" "cache_ok img s2" by blast
  define tmp2 where "tmp2 = (if size2 \<noteq> 0 then ReadHDDSectors img (lba1 + whole) 1 else tmp1)"
  have "length tmp1 = 2048" using tmp t by (simp add: tmp1_def)
  then have "\<exists>s3. (if size2 \<noteq> 0 then bindR (R (of_nat (lba1 + whole)) 1 s2) (\<lambda>(e, bs, s). bindR (store tmp1 0 bs) (\<lambda>tmp. Inr (take size2 tmp, tmp, s)))
      else Inr ([], tmp1, s2)) = Inr (if size2 \<noteq> 0 then take size2 tmp2 else [], tmp2, s3) \<and> usable (below s3) \<and> cache_ok img s3"
    using one [of "lba1 + whole" s2] s2(2,3) w t by (auto simp: tmp2_def store_def write_at_def)
  then obtain s3 where s3: "(if size2 \<noteq> 0 then bindR (R (of_nat (lba1 + whole)) 1 s2) (\<lambda>(e, bs, s). bindR (store tmp1 0 bs) (\<lambda>tmp. Inr (take size2 tmp, tmp, s)))
      else Inr ([], tmp1, s2)) = Inr (if size2 \<noteq> 0 then take size2 tmp2 else [], tmp2, s3)" "usable (below s3)" "cache_ok img s3" by blast
  have z: "size1 - (if 1 < n_blocks then 2048 * (n_blocks - 1) else 0) = size2" by (simp add: size2_def whole_def)
  have "read_raw_data read index len0 offset shift tmp s = Inr ((if pos \<noteq> 0 then take r0 (drop pos tmp1) else []) @ ReadHDDSectors img lba1 whole
      @ (if size2 \<noteq> 0 then take size2 tmp2 else []), tmp2, s3)"
    unfolding read_raw_data_def Let_def R_def [symmetric] lba_def [symmetric] pos_def [symmetric] r0_def [symmetric] s1(1) bindR_simps prod.case
      size1_def [symmetric] n_blocks_def [symmetric] s2(1) z s3(1) ..
  moreover have "read_raw_hdd img len0 offset shift tmp = ((if pos \<noteq> 0 then take r0 (drop pos tmp1) else []) @ ReadHDDSectors img lba1 whole
      @ (if size2 \<noteq> 0 then take size2 tmp2 else []), tmp2)"
    unfolding read_raw_hdd_def Let_def lba_def [symmetric] pos_def [symmetric] r0_def [symmetric] size1_def [symmetric] n_blocks_def [symmetric] whole_def [symmetric]
      lba1_def [symmetric] size2_def [symmetric] tmp1_def [symmetric] tmp2_def [symmetric] ..
  ultimately show ?thesis using s3 by simp
qed

end

text \<open>
  A raw read of a compressed image through the cache of sectors, of any offset and length, delivers the same bytes and leaves the
  same buffer behind as the read without a cache, and the cache stays a copy of the disc.
\<close>

theorem cached_raw_read:
  assumes "bdm_usable img (below s)" "cache_ok img s" "length tmp = 2048"
    and "raw_lba offset shift + len div 2048 + 258 \<le> extent" "extent < 2 ^ 30"
  shows "\<exists>s'. read_raw_data (bdm_DeviceReadSectors defrag_image) index len offset shift tmp s
      = Inr (fst (read_raw_hdd img len offset shift tmp), snd (read_raw_hdd img len offset shift tmp), s')
    \<and> bdm_usable img (below s') \<and> cache_ok img s'"
  using bdm_disc.raw_read [of img s tmp extent extent offset shift len index] assms by (auto simp: fits_disc_def)

theorem cached_raw_read_witness:
  "\<exists>s'. read_raw_data (bdm_DeviceReadSectors defrag_image) False 5000 1000000 2 (replicate 2048 0)
        (initCache 8 (replicate (2048 * 8) 0) \<lparr>below = bdm_example, MAX_SECTOR_CACHE = 0, sector_cache = [], cur_sector = - 1\<rparr>)
      = Inr (fst (read_raw_hdd (\<lambda>p. of_nat (p div 2048)) 5000 1000000 2 (replicate 2048 0)), snd (read_raw_hdd (\<lambda>p. of_nat (p div 2048)) 5000 1000000 2 (replicate 2048 0)), s')
    \<and> bdm_usable (\<lambda>p. of_nat (p div 2048)) (below s') \<and> cache_ok (\<lambda>p. of_nat (p div 2048)) s'"
  by (rule cached_raw_read [where extent = 10000])
    (simp_all add: initCache_def bdm_example_def bdm_usable_def cache_ok_def raw_lba_def)

text \<open>A read of the device that fails is not noticed: the cache counts as filled, and the caller gets what was in it before.\<close>

theorem cached_read_hides_error:
  assumes "rd lsn (of_nat (MAX_SECTOR_CACHE s)) (below s) = Inr (e, [], d)" "cur_sector s = - 1"
    "unat n < MAX_SECTOR_CACHE s" "length (sector_cache s) = 2048 * MAX_SECTOR_CACHE s"
  shows "DeviceReadSectorsCached rd lsn n s = Inr (ErNO, take (2048 * unat n) (sector_cache s), s\<lparr>below := d, cur_sector := lsn\<rparr>)"
  using assms by (simp add: DeviceReadSectorsCached_def store_def write_at_def)

end
