(* ===== verification/CdSearch.thy ===== *)
theory CdSearch
  imports CdRead DirToc
begin

text \<open>
  Finding a file of the disc for a game (\<open>src/modules/iopcore/cdvdman/searchfile.c\<close>): reading the volume descriptor, and the search
  of a path in the directories, of which the first 12 characters of a name decide.  The semaphore of the search is taken and given
  back on every path, so that a search is one operation.
\<close>

subsection \<open>State\<close>

record layer_info_t =
  rootDirtocLBA :: u32
  rootDirtocLength :: u32

record FHANDLE =
  owner :: "nat option"
  fh_lsn :: u32
  filesize :: u32
  position :: u32

definition closed_handle :: FHANDLE where
  "closed_handle = \<lparr>owner = None, fh_lsn = 0, filesize = 0, position = 0\<rparr>"

definition MAX_FDHANDLES :: nat where "MAX_FDHANDLES = 64"

text \<open>
  \<open>locked\<close> tells of the calls of \<open>sceCdRead\<close> to come whether another read holds the drive (\<open>sync_flag\<close>) when they are made; none
  does behind its end.  \<open>emu_dvddl\<close> and \<open>skip_videos\<close> are the flags of the configuration.
\<close>

record 'd cd_files =
  drive :: "'d cdvdman"
  locked :: "bool list"
  emu_dvddl :: bool
  skip_videos :: bool
  layer1_start :: u32
  layer0 :: layer_info_t
  layer1 :: layer_info_t
  cdvdman_fdhandles :: "FHANDLE list"
  cdvdman_fs_buf :: "u8 list"
  inited :: bool

text \<open>What the module is linked with: reading sectors for a buffer that is aligned or not, and preparing the device.\<close>

record 'd drive_ops =
  cdread :: "bool \<Rightarrow> u32 \<Rightarrow> u32 \<Rightarrow> u8 list \<Rightarrow> 'd cdvdman \<Rightarrow> ub + u8 list \<times> 'd cdvdman"
  DeviceFSInit :: "'d \<Rightarrow> 'd"

text \<open>\<open>sceCdRead\<close> with \<open>sceCdSync(0)\<close> behind it; it fails when the drive is in use.\<close>

definition read_sync :: "'d drive_ops \<Rightarrow> bool \<Rightarrow> u32 \<Rightarrow> u32 \<Rightarrow> u8 list \<Rightarrow> 'd cd_files \<Rightarrow> ub + bool \<times> u8 list \<times> 'd cd_files" where
  "read_sync ops al lsn n buf st =
     (case locked st of
        True # l \<Rightarrow> Inr (False, buf, st\<lparr>locked := l\<rparr>)
      | _ \<Rightarrow> bindR (cdread ops al lsn n buf (drive st)) (\<lambda>(buf, s). Inr (True, buf, st\<lparr>drive := s, locked := tl (locked st)\<rparr>)))"

text \<open>A sector to \<open>cdvdman_buf\<close>.\<close>

definition read_toc :: "'d drive_ops \<Rightarrow> u32 \<Rightarrow> 'd cd_files \<Rightarrow> ub + bool \<times> 'd cd_files" where
  "read_toc ops lsn st =
     bindR (read_sync ops True lsn 1 (cdvdman_buf (drive st)) st) (\<lambda>(ok, buf, st).
       Inr (ok, st\<lparr>drive := (drive st)\<lparr>cdvdman_buf := buf\<rparr>\<rparr>))"

definition sceCdReadDvdDualInfo :: "'d cd_files \<Rightarrow> bool \<times> u32" where
  "sceCdReadDvdDualInfo st = (if emu_dvddl st then (True, 0) else (0 < layer1_start st, layer1_start st))"

subsection \<open>Starting up\<close>

definition volume_root :: "u8 list \<Rightarrow> layer_info_t" where
  "volume_root b = (let e = entry_at b 0x9C in \<lparr>rootDirtocLBA = of_nat (fileLBA e), rootDirtocLength = of_nat (fileSize e)\<rparr>)"

definition volume_size :: "u8 list \<Rightarrow> u32" where
  "volume_size b = of_nat (u32_at b 0x50)"

definition set_media :: "u32 \<Rightarrow> 'd cd_files \<Rightarrow> 'd cd_files" where
  "set_media n st = st\<lparr>drive := (drive st)\<lparr>mediaLsnCount := n\<rparr>\<rparr>"

definition cdvdman_searchfile_init :: "'d drive_ops \<Rightarrow> 'd cd_files \<Rightarrow> ub + 'd cd_files" where
  "cdvdman_searchfile_init ops st =
     bindR (read_toc ops 16 st) (\<lambda>(_, st).
       let b = cdvdman_buf (drive st); lsn0 = volume_size b; st = set_media lsn0 (st\<lparr>layer0 := volume_root b\<rparr>);
           (on_dual, start) = sceCdReadDvdDualInfo st
       in if \<not> emu_dvddl st \<and> on_dual
          then bindR (read_toc ops (start + 16) (set_media 0 st)) (\<lambda>(_, st).
                 let b = cdvdman_buf (drive st); r = volume_root b
                 in Inr (set_media (lsn0 + volume_size b - 16) (st\<lparr>layer1 := r\<lparr>rootDirtocLBA := start + rootDirtocLBA r\<rparr>\<rparr>)))
          else Inr st)"

definition cdvdman_init :: "'d drive_ops \<Rightarrow> 'd cd_files \<Rightarrow> ub + 'd cd_files" where
  "cdvdman_init ops st =
     (if inited st then Inr st
      else let s = drive st
           in bindR (cdvdman_searchfile_init ops
                (st\<lparr>drive := s\<lparr>err := ErNO, device := DeviceFSInit ops (device s)\<rparr>, cdvdman_fdhandles := replicate MAX_FDHANDLES closed_handle\<rparr>))
                (\<lambda>st. Inr (st\<lparr>inited := True\<rparr>)))"

subsection \<open>The search\<close>

text \<open>The array of 32 characters for a part of the path has no check of its length.\<close>

definition path_part :: "string \<Rightarrow> ub + string \<times> string option" where
  "path_part p0 =
     (let p = skip_slashes p0
      in case find_slash p of
           Some len \<Rightarrow> if 32 \<le> len then Inl OutOfBounds else Inr (take len p, Some (drop (len + 1) p))
         | None \<Rightarrow> if 32 \<le> length p then Inl OutOfBounds else Inr (p, None))"

text \<open>\<open>cdvdman_curdir\<close>: the name of a record, up to its length or a NUL.\<close>

definition curdir :: "u8 list \<Rightarrow> nat \<Rightarrow> string" where
  "curdir b pos = map (\<lambda>c. char_of (unat c)) (takeWhile (\<lambda>c. c \<noteq> 0) (take (unat (b ! (pos + 32))) (drop (pos + 33) b)))"

fun scan_sector :: "nat \<Rightarrow> u8 list \<Rightarrow> string \<Rightarrow> bool \<Rightarrow> int \<Rightarrow> ub + scan" where
  "scan_sector 0 b dirname slash tocPos = Inl Diverges"
| "scan_sector (Suc fuel) b dirname slash tocPos =
     (let pos = nat tocPos; filename_len = unat (b ! (pos + 32))
      in if tocPos < 0 \<or> length b < pos + 33 then Inl OutOfBounds
         else if record_length b pos = 0 then Inr NotHere
         else if filename_len \<noteq> 0
         then if 15 \<le> filename_len \<or> length b < pos + 33 + filename_len then Inl OutOfBounds
              else let same = strncmp_eq 12 dirname (curdir b pos)
                   in if same \<and> \<not> slash then Inr (Found (entry_at b pos))
                      else if same \<and> fileProperties (entry_at b pos) AND 2 \<noteq> 0 then Inr (Descend (entry_at b pos))
                      else let tocPos = tocPos + record_length b pos
                           in if tocPos < 2016 then scan_sector fuel b dirname slash tocPos else Inr NotHere
         else if tocPos < 2016 then scan_sector fuel b dirname slash tocPos else Inr NotHere)"

function search_dir :: "'d drive_ops \<Rightarrow> nat \<Rightarrow> string \<Rightarrow> bool \<Rightarrow> u32 \<Rightarrow> int \<Rightarrow> 'd cd_files \<Rightarrow> ub + scan \<times> 'd cd_files" where
  "search_dir ops fuel dirname slash tocLBA tocLength st =
     (if 0 < tocLength
      then bindR (read_toc ops tocLBA st) (\<lambda>(ok, st).
             if \<not> ok then Inr (NotHere, st)
             else bindR (scan_sector fuel (cdvdman_buf (drive st)) dirname slash 0) (\<lambda>s.
                    if s = NotHere then search_dir ops fuel dirname slash (tocLBA + 1) (tocLength - 2048) st else Inr (s, st)))
      else Inr (NotHere, st))"
  by auto
termination by (relation "measure (\<lambda>(ops, fuel, dirname, slash, tocLBA, tocLength, st). nat tocLength)") auto

declare search_dir.simps [simp del]

lemma path_part_shorter: "path_part p = Inr (d, Some q) \<Longrightarrow> length q < length p"
proof -
  assume a: "path_part p = Inr (d, Some q)"
  have l: "length (skip_slashes p) \<le> length p"
    unfolding skip_slashes_def by (meson le_trans length_dropWhile_le)
  obtain k where k: "find_slash (skip_slashes p) = Some k" "q = drop (k + 1) (skip_slashes p)"
    using a by (auto simp: path_part_def Let_def split: option.splits if_splits)
  have "k < length (skip_slashes p)"
    using k(1) strchr_Some_less by (auto simp: find_slash_def split: option.splits)
  then show ?thesis using k(2) l by simp
qed

function cdvdman_locatefile :: "'d drive_ops \<Rightarrow> nat \<Rightarrow> string \<Rightarrow> u32 \<Rightarrow> int \<Rightarrow> bool \<Rightarrow> 'd cd_files \<Rightarrow> ub + dirTocEntry option \<times> 'd cd_files" where
  "cdvdman_locatefile ops fuel name tocLBA tocLength layer st =
     bindR (path_part name) (\<lambda>(dirname, p).
     bindR (search_dir ops fuel dirname (p \<noteq> None) tocLBA tocLength st) (\<lambda>(s, st).
       case s of
         NotHere \<Rightarrow> Inr (None, st)
       | Found e \<Rightarrow> Inr (Some e, st)
       | Descend e \<Rightarrow>
           (case p of
              None \<Rightarrow> Inl NullPointer
            | Some q \<Rightarrow>
                let lba = of_nat (fileLBA e)
                in cdvdman_locatefile ops fuel q
                     (if \<not> emu_dvddl st \<and> layer then lba + snd (sceCdReadDvdDualInfo st) else lba)
                     (to_int (fileSize e)) layer st)))"
  by pat_completeness auto
termination
  by (relation "measure (\<lambda>(ops, fuel, name, tocLBA, tocLength, layer, st). length name)") (auto dest: path_part_shorter)

declare cdvdman_locatefile.simps [simp del]

record sceCdlFILE =
  cdl_lsn :: u32
  cdl_size :: u32
  cdl_name :: string

text \<open>The six characters before the end of the path, which must have as many.\<close>

definition is_video :: "string \<Rightarrow> ub + bool" where
  "is_video path =
     (if length path < 6 then Inl OutOfBounds
      else let e = drop (length path - 6) path in Inr (strncmp_eq 4 e ''.PSS'' \<or> strncmp_eq 4 e ''.pss''))"

text \<open>\<open>layer\<close> tells whether the second layer is meant.\<close>

definition find_on_layer :: "'d drive_ops \<Rightarrow> nat \<Rightarrow> string \<Rightarrow> bool \<Rightarrow> 'd cd_files \<Rightarrow> ub + sceCdlFILE option \<times> 'd cd_files" where
  "find_on_layer ops fuel name layer st =
     (let info = (if layer then layer1 st else layer0 st); path = trimspaces (bounded 256 name)
      in if rootDirtocLBA info = 0 then Inr (None, st)
         else bindR (cdvdman_locatefile ops fuel path (rootDirtocLBA info) (sint (rootDirtocLength info)) layer st) (\<lambda>(e, st).
           case e of
             None \<Rightarrow> Inr (None, st)
           | Some e \<Rightarrow>
               let lsn = (if layer then of_nat (fileLBA e) + snd (sceCdReadDvdDualInfo st) else of_nat (fileLBA e))
               in bindR (if skip_videos st then is_video path else Inr False) (\<lambda>video.
                    case strrchr name (CHR 0x5C) of
                      None \<Rightarrow> Inl NullPointer
                    | Some k \<Rightarrow> if 16 \<le> length (drop (k + 1) name) then Inl OutOfBounds
                                else Inr (Some \<lparr>cdl_lsn = lsn, cdl_size = (if video then 0 else of_nat (fileSize e)), cdl_name = drop (k + 1) name\<rparr>, st))))"

definition cdvdman_findfile :: "'d drive_ops \<Rightarrow> nat \<Rightarrow> string \<Rightarrow> int \<Rightarrow> 'd cd_files \<Rightarrow> ub + sceCdlFILE option \<times> 'd cd_files" where
  "cdvdman_findfile ops fuel name layer st =
     bindR (cdvdman_init ops st) (\<lambda>st. find_on_layer ops fuel name (layer \<noteq> 0 \<and> \<not> emu_dvddl st) st)"

definition sceCdSearchFile :: "'d drive_ops \<Rightarrow> nat \<Rightarrow> string \<Rightarrow> 'd cd_files \<Rightarrow> ub + sceCdlFILE option \<times> 'd cd_files" where
  "sceCdSearchFile ops fuel name st = cdvdman_findfile ops fuel name 0 st"

definition sceCdLayerSearchFile :: "'d drive_ops \<Rightarrow> nat \<Rightarrow> string \<Rightarrow> int \<Rightarrow> 'd cd_files \<Rightarrow> ub + sceCdlFILE option \<times> 'd cd_files" where
  "sceCdLayerSearchFile ops fuel name layer st = cdvdman_findfile ops fuel name layer st"

subsection \<open>The contract of a drive\<close>

text \<open>
  A drive that is \<open>good\<close> delivers the sectors that fit and stays good, whatever the alignment of the buffer.
\<close>

locale cd_drive =
  fixes ops :: "'d drive_ops" and good :: "'d cdvdman \<Rightarrow> bool" and img :: image and fits :: "nat \<Rightarrow> nat \<Rightarrow> bool"
  assumes read_good: "\<lbrakk>good s; n \<noteq> 0; fits (unat lsn) (unat n); 2048 * unat n \<le> length buf\<rbrakk>
      \<Longrightarrow> \<exists>s'. cdread ops al lsn n buf s = Inr (bytes_at img (2048 * unat lsn) (2048 * unat n) @ drop (2048 * unat n) buf, s') \<and> good s'
          \<and> length (cdvdman_buf s') = length (cdvdman_buf s)"
    and good_buf: "\<lbrakk>good s; length b = length (cdvdman_buf s)\<rbrakk> \<Longrightarrow> good (s\<lparr>cdvdman_buf := b\<rparr>)"
    and buf_room: "good s \<Longrightarrow> 2048 \<le> length (cdvdman_buf s)"
    and fits_sectors: "\<lbrakk>fits l j; k + m \<le> j; 0 < m\<rbrakk> \<Longrightarrow> fits (l + k) m"
    and fits_bound: "fits l j \<Longrightarrow> l + j < 2 ^ 31"

text \<open>The records of a sector, with names of at most 14 characters as level 1 of the standard has them.\<close>

fun sector_lists :: "u8 list \<Rightarrow> nat \<Rightarrow> entry list \<Rightarrow> bool" where
  "sector_lists b pos [] = (2016 \<le> pos \<or> record_length b pos = 0)"
| "sector_lists b pos ((nm, e) # es) =
     (pos < 2016 \<and> 0 < record_length b pos \<and> b ! (pos + 32) \<noteq> 0 \<and> unat (b ! (pos + 32)) < 15 \<and> pos + 33 + unat (b ! (pos + 32)) \<le> length b
      \<and> nm = curdir b pos \<and> e = entry_at b pos \<and> sector_lists b (pos + nat (record_length b pos)) es)"

text \<open>The first record that matches in 12 characters.\<close>

fun pick12 :: "string \<Rightarrow> bool \<Rightarrow> entry list \<Rightarrow> scan" where
  "pick12 d slash [] = NotHere"
| "pick12 d slash ((nm, e) # es) =
     (if strncmp_eq 12 d nm \<and> \<not> slash then Found e else if strncmp_eq 12 d nm \<and> is_dir e then Descend e else pick12 d slash es)"

lemma pick12_append: "pick12 d slash (es @ fs) = (if pick12 d slash es = NotHere then pick12 d slash fs else pick12 d slash es)"
  by (induction d slash es rule: pick12.induct) auto

lemma pick12_Descend: "pick12 d slash es = Descend e \<Longrightarrow> slash \<and> is_dir e \<and> (\<exists>nm. (nm, e) \<in> set es)"
  by (induction d slash es rule: pick12.induct) (auto split: if_splits)

lemma pick12_Found: "pick12 d slash es = Found e \<Longrightarrow> \<not> slash \<and> (\<exists>nm. (nm, e) \<in> set es)"
  by (induction d slash es rule: pick12.induct) (auto split: if_splits)

lemma sector_parts_append:
  assumes "pos + 33 \<le> length b"
  shows "record_length (b @ r) pos = record_length b pos" "entry_at (b @ r) pos = entry_at b pos"
  using assms by (simp_all add: record_length_def entry_at_def u32_at_def nth_append)

lemma curdir_append:
  assumes "pos + 33 + unat (b ! (pos + 32)) \<le> length b"
  shows "curdir (b @ r) pos = curdir b pos"
  using assms by (simp add: curdir_def nth_append)

lemma scan_sector_ok:
  "\<lbrakk>sector_lists b pos es; pos < 2016; length b = 2048; 2016 - pos < fuel\<rbrakk>
   \<Longrightarrow> scan_sector fuel (b @ r) d slash (int pos) = Inr (pick12 d slash es)"
proof (induction es arbitrary: pos fuel)
  case Nil
  then show ?case using sector_parts_append [of pos b r] by (cases fuel) auto
next
  case (Cons e es)
  obtain nm t where e: "e = (nm, t)" by (cases e)
  obtain k where k: "fuel = Suc k" using Cons.prems(4) by (cases fuel) auto
  define l where "l = record_length b pos"
  define pos' where "pos' = pos + nat l"
  define n where "n = unat (b ! (pos + 32))"
  have B: "0 < l" "n \<noteq> 0" "n < 15" "pos + 33 + n \<le> length b" "nm = curdir b pos" "t = entry_at b pos" "sector_lists b pos' es"
    using Cons.prems(1) by (simp_all add: e l_def pos'_def n_def unat_eq_0)
  have sp: "record_length (b @ r) pos = l" "entry_at (b @ r) pos = t" "curdir (b @ r) pos = nm" "unat ((b @ r) ! (pos + 32)) = n"
    using sector_parts_append [of pos b r] curdir_append [of pos b r] B(4-6) by (simp_all add: l_def n_def nth_append)
  have p: "int pos + l = int pos'" using B(1) by (simp add: pos'_def)
  have nx: "pos' < 2016 \<Longrightarrow> scan_sector k (b @ r) d slash (int pos') = Inr (pick12 d slash es)"
    "\<not> pos' < 2016 \<Longrightarrow> pick12 d slash es = NotHere"
  proof -
    assume "pos' < 2016"
    moreover have "2016 - pos' < k" using Cons.prems(2,4) k B(1) by (simp add: pos'_def)
    ultimately show "scan_sector k (b @ r) d slash (int pos') = Inr (pick12 d slash es)" using Cons.IH [OF B(7)] Cons.prems(3) by simp
  next
    assume "\<not> pos' < 2016"
    then have "es = []" using B(7) by (cases es) auto
    then show "pick12 d slash es = NotHere" by simp
  qed
  show ?case using nx B(1-4) Cons.prems(2,3) unfolding k scan_sector.simps e pick12.simps Let_def
    by (auto simp: p is_dir_def sp)
qed

text \<open>A directory of \<open>sz\<close> bytes at \<open>lba\<close>, as the drive delivers it.\<close>

definition dir_has :: "image \<Rightarrow> (nat \<Rightarrow> nat \<Rightarrow> bool) \<Rightarrow> nat \<Rightarrow> nat \<Rightarrow> entry list \<Rightarrow> bool" where
  "dir_has img fits lba sz es =
     (\<exists>bss. es = concat bss \<and> length bss = (sz + 2047) div 2048 \<and> sz < 2 ^ 31 \<and> lba < 2 ^ 32 \<and> (bss \<noteq> [] \<longrightarrow> fits lba (length bss))
        \<and> (\<forall>k<length bss. sector_lists (bytes_at img (2048 * (lba + k)) 2048) 0 (bss ! k)))"

context cd_drive
begin

lemma read_sync_free:
  assumes "good (drive st)" "locked st = []" "n \<noteq> 0" "fits (unat lsn) (unat n)" "2048 * unat n \<le> length buf"
  shows "\<exists>d. read_sync ops al lsn n buf st = Inr (True, bytes_at img (2048 * unat lsn) (2048 * unat n) @ drop (2048 * unat n) buf, st\<lparr>drive := d\<rparr>) \<and> good d
    \<and> length (cdvdman_buf d) = length (cdvdman_buf (drive st))"
proof -
  obtain d where "cdread ops al lsn n buf (drive st) = Inr (bytes_at img (2048 * unat lsn) (2048 * unat n) @ drop (2048 * unat n) buf, d)" "good d"
      "length (cdvdman_buf d) = length (cdvdman_buf (drive st))"
    using read_good [OF assms(1,3-5)] by blast
  moreover have "st\<lparr>drive := d, locked := []\<rparr> = st\<lparr>drive := d\<rparr>" using assms(2) by (cases st) simp
  ultimately show ?thesis using assms(2) by (intro exI [of _ d]) (simp add: read_sync_def)
qed

lemma read_toc_free:
  assumes "good (drive st)" "locked st = []" "fits (unat lsn) 1"
  shows "\<exists>d r. read_toc ops lsn st = Inr (True, st\<lparr>drive := d\<rparr>) \<and> good d \<and> cdvdman_buf d = bytes_at img (2048 * unat lsn) 2048 @ r"
proof -
  have u: "unat (1 :: u32) = 1" by simp
  obtain d where d: "read_sync ops True lsn 1 (cdvdman_buf (drive st)) st
      = Inr (True, bytes_at img (2048 * unat lsn) 2048 @ drop 2048 (cdvdman_buf (drive st)), st\<lparr>drive := d\<rparr>)" "good d"
      "length (cdvdman_buf d) = length (cdvdman_buf (drive st))"
    using read_sync_free [OF assms(1,2), of 1 lsn "cdvdman_buf (drive st)" True] assms(3) buf_room [OF assms(1)] by auto
  show ?thesis
  proof (intro exI conjI)
    show "read_toc ops lsn st = Inr (True, st\<lparr>drive := d\<lparr>cdvdman_buf := bytes_at img (2048 * unat lsn) 2048 @ drop 2048 (cdvdman_buf (drive st))\<rparr>\<rparr>)"
      by (simp add: read_toc_def d(1))
    show "good (d\<lparr>cdvdman_buf := bytes_at img (2048 * unat lsn) 2048 @ drop 2048 (cdvdman_buf (drive st))\<rparr>)" using d(2,3) buf_room [OF assms(1)] by (intro good_buf) simp_all
  qed simp
qed

lemma search_dir_sectors:
  "\<lbrakk>good (drive st); locked st = []; bss \<noteq> [] \<longrightarrow> fits (unat lba) (length bss); length bss = nat ((len + 2047) div 2048);
    \<forall>k<length bss. sector_lists (bytes_at img (2048 * (unat lba + k)) 2048) 0 (bss ! k); 2016 < fuel\<rbrakk>
   \<Longrightarrow> \<exists>d. search_dir ops fuel dirname slash lba len st = Inr (pick12 dirname slash (concat bss), st\<lparr>drive := d\<rparr>) \<and> good d"
proof (induction bss arbitrary: lba len st)
  case Nil
  then have "len \<le> 0" by auto
  moreover have "st\<lparr>drive := drive st\<rparr> = st" by simp
  ultimately show ?case using Nil.prems(1) by (intro exI [of _ "drive st"]) (simp add: search_dir.simps)
next
  case (Cons es bss)
  have len: "0 < len" "length bss = nat ((len - 2048 + 2047) div 2048)" using Cons.prems(4) by auto
  have f: "fits (unat lba) (Suc (length bss))" using Cons.prems(3) by simp
  have f1: "fits (unat lba) 1" using fits_sectors [OF f, of 0 1] by simp
  obtain d r where d: "read_toc ops lba st = Inr (True, st\<lparr>drive := d\<rparr>)" "good d" "cdvdman_buf d = bytes_at img (2048 * unat lba) 2048 @ r"
    using read_toc_free [OF Cons.prems(1,2) f1] by blast
  have "sector_lists (bytes_at img (2048 * unat lba) 2048) 0 es" using Cons.prems(5) by auto
  from scan_sector_ok [OF this _ _ , of fuel r dirname slash] Cons.prems(6)
  have scan: "scan_sector fuel (cdvdman_buf d) dirname slash 0 = Inr (pick12 dirname slash es)" by (simp add: d(3))
  have step: "search_dir ops fuel dirname slash lba len st =
      (if pick12 dirname slash es = NotHere then search_dir ops fuel dirname slash (lba + 1) (len - 2048) (st\<lparr>drive := d\<rparr>)
       else Inr (pick12 dirname slash es, st\<lparr>drive := d\<rparr>))"
    using len(1) d(1) scan by (subst search_dir.simps) simp
  show ?case
  proof (cases "pick12 dirname slash es = NotHere")
    case True
    have lb: "unat (lba + 1) = unat lba + 1" using fits_bound [OF f1] unat_add_small [of lba 1] by simp
    have "bss \<noteq> [] \<longrightarrow> fits (unat (lba + 1)) (length bss)" using fits_sectors [OF f, of 1 "length bss"] lb by auto
    moreover have "\<forall>k<length bss. sector_lists (bytes_at img (2048 * (unat (lba + 1) + k)) 2048) 0 (bss ! k)"
    proof (intro allI impI)
      fix k assume "k < length bss"
      then have "sector_lists (bytes_at img (2048 * (unat lba + Suc k)) 2048) 0 ((es # bss) ! Suc k)" using Cons.prems(5) by (metis Suc_mono length_Cons)
      then show "sector_lists (bytes_at img (2048 * (unat (lba + 1) + k)) 2048) 0 (bss ! k)" by (simp add: lb)
    qed
    ultimately obtain d' where "search_dir ops fuel dirname slash (lba + 1) (len - 2048) (st\<lparr>drive := d\<rparr>)
        = Inr (pick12 dirname slash (concat bss), st\<lparr>drive := d\<rparr>\<lparr>drive := d'\<rparr>)" "good d'"
      using Cons.IH [of "st\<lparr>drive := d\<rparr>" "lba + 1" "len - 2048"] d(2) Cons.prems(2,6) len(2) by auto
    then show ?thesis using True step by (auto simp: pick12_append)
  next
    case False
    then show ?thesis using step d(2) by (auto simp: pick12_append)
  qed
qed

lemma search_dir_ok:
  assumes "good (drive st)" "locked st = []" "dir_has img fits (unat lba) sz es" "2016 < fuel"
  shows "\<exists>d. search_dir ops fuel dirname slash lba (int sz) st = Inr (pick12 dirname slash es, st\<lparr>drive := d\<rparr>) \<and> good d"
proof -
  obtain bss where b: "es = concat bss" "length bss = (sz + 2047) div 2048" "bss \<noteq> [] \<longrightarrow> fits (unat lba) (length bss)"
    "\<forall>k<length bss. sector_lists (bytes_at img (2048 * (unat lba + k)) 2048) 0 (bss ! k)" using assms(3) by (auto simp: dir_has_def)
  have "length bss = nat ((int sz + 2047) div 2048)" unfolding b(2) by (simp add: nat_div_distrib nat_add_distrib)
  then show ?thesis using search_dir_sectors [OF assms(1,2) b(3) _ b(4) assms(4)] b(1) by simp
qed

end

subsection \<open>Paths\<close>

text \<open>
  Looking up a path in a tree of directories by the first 12 characters of its names.  The addresses in the records of the second
  layer count from \<open>base\<close>.
\<close>

fun resolve12 :: "(nat \<Rightarrow> nat \<Rightarrow> entry list) \<Rightarrow> nat \<Rightarrow> nat \<Rightarrow> nat \<Rightarrow> string list \<Rightarrow> dirTocEntry option" where
  "resolve12 contents base lba sz [] = None"
| "resolve12 contents base lba sz [c] = (case pick12 c False (contents lba sz) of Found e \<Rightarrow> Some e | _ \<Rightarrow> None)"
| "resolve12 contents base lba sz (c # c' # cs) =
     (case pick12 c True (contents lba sz) of
        Descend e \<Rightarrow> resolve12 contents base (fileLBA e + base) (fileSize e) (c' # cs) | _ \<Rightarrow> None)"

definition tree_has :: "image \<Rightarrow> (nat \<Rightarrow> nat \<Rightarrow> bool) \<Rightarrow> nat \<Rightarrow> (nat \<Rightarrow> nat \<Rightarrow> entry list) \<Rightarrow> (nat \<times> nat) set \<Rightarrow> bool" where
  "tree_has img fits base contents dirs =
     (\<forall>(lba, sz) \<in> dirs. dir_has img fits lba sz (contents lba sz)
        \<and> (\<forall>(nm, e) \<in> set (contents lba sz). is_dir e \<longrightarrow> (fileLBA e + base, fileSize e) \<in> dirs))"

definition part_ok :: "string \<Rightarrow> bool" where
  "part_ok c = (plain_name c \<and> length c < 32)"

lemma path_part_join:
  assumes "\<forall>x \<in> set (c # cs). part_ok x" "sep = CHR ''/'' \<or> sep = CHR 0x5C"
  shows "path_part (replicate n (CHR ''/'') @ replicate m (CHR 0x5C) @ join sep (c # cs))
    = Inr (c, if cs = [] then None else Some (join sep cs))"
proof -
  have p: "\<forall>x \<in> set (c # cs). plain_name x" using assms(1) by (simp add: part_ok_def)
  then have "plain_name c" by simp
  then show ?thesis using assms
    unfolding path_part_def Let_def skip_slashes_join [OF \<open>plain_name c\<close> assms(2)] find_slash_join [OF p assms(2)]
    by (cases cs) (auto simp: part_ok_def)
qed

text \<open>What addresses of the records of a layer count from.\<close>

definition layer_base :: "bool \<Rightarrow> 'd cd_files \<Rightarrow> u32" where
  "layer_base layer st = (if \<not> emu_dvddl st \<and> layer then snd (sceCdReadDvdDualInfo st) else 0)"

lemma layer_base_drive [simp]: "layer_base layer (st\<lparr>drive := d\<rparr>) = layer_base layer st"
  by (simp add: layer_base_def sceCdReadDvdDualInfo_def)

lemma unat_of_nat_add: "n + unat (b :: u32) < 2 ^ 32 \<Longrightarrow> unat (of_nat n + b) = n + unat b"
  by (metis add_lessD1 unat_add_small unat_of_nat_u32)

context cd_drive
begin

lemma locatefile_found:
  "\<lbrakk>good (drive st); locked st = []; tree_has img fits (unat (layer_base layer st)) contents dirs; (unat lba, sz) \<in> dirs;
    \<forall>c \<in> set cs. part_ok c; cs \<noteq> []; sep = CHR ''/'' \<or> sep = CHR 0x5C; 2016 < fuel\<rbrakk>
   \<Longrightarrow> \<exists>d. cdvdman_locatefile ops fuel (replicate n (CHR ''/'') @ replicate m (CHR 0x5C) @ join sep cs) lba (int sz) layer st
        = Inr (resolve12 contents (unat (layer_base layer st)) (unat lba) sz cs, st\<lparr>drive := d\<rparr>) \<and> good d"
proof (induction contents "unat (layer_base layer st)" "unat lba" sz cs arbitrary: n m st lba rule: resolve12.induct)
  case (2 contents sz c)
  have dh: "dir_has img fits (unat lba) sz (contents (unat lba) sz)" using 2(3,4) by (auto simp: tree_has_def)
  obtain d where s: "search_dir ops fuel c False lba (int sz) st = Inr (pick12 c False (contents (unat lba) sz), st\<lparr>drive := d\<rparr>)" "good d"
    using search_dir_ok [OF 2(1,2) dh 2(8)] by blast
  have "path_part (replicate n (CHR ''/'') @ replicate m (CHR 0x5C) @ join sep [c]) = Inr (c, None)"
    using path_part_join [of c "[]" sep n m] 2(5,7) by simp
  then show ?case using s
    by (subst cdvdman_locatefile.simps) (auto dest: pick12_Descend split: scan.split)
next
  case (3 contents sz c c' cs)
  define base where "base = layer_base layer st"
  have dh: "dir_has img fits (unat lba) sz (contents (unat lba) sz)" using 3(4,5) by (auto simp: tree_has_def)
  obtain d where s: "search_dir ops fuel c True lba (int sz) st = Inr (pick12 c True (contents (unat lba) sz), st\<lparr>drive := d\<rparr>)" "good d"
    using search_dir_ok [OF 3(2,3) dh 3(9)] by blast
  have h: "path_part (replicate n (CHR ''/'') @ replicate m (CHR 0x5C) @ join sep (c # c' # cs)) = Inr (c, Some (join sep (c' # cs)))"
    using path_part_join [of c "c' # cs" sep n m] 3(6,8) by simp
  show ?case
  proof (cases "pick12 c True (contents (unat lba) sz)")
    case (Descend e)
    have e: "(fileLBA e + unat base, fileSize e) \<in> dirs"
      using pick12_Descend [OF Descend] 3(4,5) by (auto simp: tree_has_def base_def)
    then have b: "fileSize e < 2 ^ 31" "fileLBA e + unat base < 2 ^ 32" using 3(4) by (auto simp: tree_has_def dir_has_def)
    have z: "to_int (fileSize e) = int (fileSize e)" by (rule to_int_small) (rule b(1))
    have u: "unat (of_nat (fileLBA e) + base) = fileLBA e + unat base" by (rule unat_of_nat_add) (rule b(2))
    have lb: "(if \<not> emu_dvddl st \<and> layer then of_nat (fileLBA e) + snd (sceCdReadDvdDualInfo (st\<lparr>drive := d\<rparr>)) else of_nat (fileLBA e))
        = of_nat (fileLBA e) + base" by (simp add: base_def layer_base_def sceCdReadDvdDualInfo_def)
    have st: "good (drive (st\<lparr>drive := d\<rparr>))" "locked (st\<lparr>drive := d\<rparr>) = []" "layer_base layer (st\<lparr>drive := d\<rparr>) = layer_base layer st"
      using s(2) 3(3) by simp_all
    from 3(1) [OF Descend, of "st\<lparr>drive := d\<rparr>" "of_nat (fileLBA e) + base" 0 0] 3(4,6-9) st e u obtain d' where
      "cdvdman_locatefile ops fuel (join sep (c' # cs)) (of_nat (fileLBA e) + base) (int (fileSize e)) layer (st\<lparr>drive := d\<rparr>)
        = Inr (resolve12 contents (unat base) (fileLBA e + unat base) (fileSize e) (c' # cs), st\<lparr>drive := d\<rparr>\<lparr>drive := d'\<rparr>)" "good d'"
      by (auto simp: base_def)
    then show ?thesis using h s Descend
      by (subst cdvdman_locatefile.simps) (auto simp: lb z base_def)
  next
    case (Found e)
    then show ?thesis using pick12_Found by blast
  next
    case NotHere
    then show ?thesis using h s by (subst cdvdman_locatefile.simps) auto
  qed
qed simp

end

text \<open>A path that the search takes as it stands.\<close>

definition path_taken :: "string list \<Rightarrow> bool" where
  "path_taken cs = (cs \<noteq> [] \<and> (\<forall>c \<in> set cs. part_ok c) \<and> length (join (CHR 0x5C) cs) < 255
     \<and> last (join (CHR 0x5C) cs) \<notin> {CHR '' '', CHR ''.''} \<and> length (last cs) < 16)"

definition layer_of :: "bool \<Rightarrow> 'd cd_files \<Rightarrow> layer_info_t" where
  "layer_of layer st = (if layer then layer1 st else layer0 st)"

text \<open>A path in a tree of directories on a layer.\<close>

definition resolve_path :: "(nat \<Rightarrow> nat \<Rightarrow> entry list) \<Rightarrow> bool \<Rightarrow> string list \<Rightarrow> 'd cd_files \<Rightarrow> dirTocEntry option" where
  "resolve_path contents layer cs st =
     resolve12 contents (unat (layer_base layer st)) (unat (rootDirtocLBA (layer_of layer st))) (unat (rootDirtocLength (layer_of layer st))) cs"

definition tree_mounted :: "image \<Rightarrow> (nat \<Rightarrow> nat \<Rightarrow> bool) \<Rightarrow> (nat \<Rightarrow> nat \<Rightarrow> entry list) \<Rightarrow> bool \<Rightarrow> 'd cd_files \<Rightarrow> bool" where
  "tree_mounted img fits contents layer st =
     (inited st \<and> rootDirtocLBA (layer_of layer st) \<noteq> 0
      \<and> (\<exists>dirs. tree_has img fits (unat (layer_base layer st)) contents dirs
           \<and> (unat (rootDirtocLBA (layer_of layer st)), unat (rootDirtocLength (layer_of layer st))) \<in> dirs))"

text \<open>The answer to a search.\<close>

definition file_found :: "bool \<Rightarrow> string list \<Rightarrow> 'd cd_files \<Rightarrow> dirTocEntry \<Rightarrow> sceCdlFILE" where
  "file_found layer cs st e =
     \<lparr>cdl_lsn = of_nat (fileLBA e) + layer_base layer st,
      cdl_size = (if skip_videos st \<and> is_video (CHR 0x5C # join (CHR 0x5C) cs) = Inr True then 0 else of_nat (fileSize e)),
      cdl_name = last cs\<rparr>"

lemma sint_small: "unat (w :: u32) < 2 ^ 31 \<Longrightarrow> sint w = int (unat w)"
  using to_int_small [of "unat w"] by (simp add: to_int_def)

context cd_drive
begin

lemma findfile_found:
  assumes g: "good (drive st)" and l: "locked st = []" and t: "tree_mounted img fits contents layer st" and p: "path_taken cs"
    and v: "skip_videos st \<Longrightarrow> 5 \<le> length (join (CHR 0x5C) cs)" and fuel: "2016 < fuel"
    and ly: "layer = (n \<noteq> 0 \<and> \<not> emu_dvddl st)"
  shows "\<exists>d. cdvdman_findfile ops fuel (CHR 0x5C # join (CHR 0x5C) cs) n st
      = Inr (map_option (file_found layer cs st) (resolve_path contents layer cs st), st\<lparr>drive := d\<rparr>) \<and> good d"
proof -
  let ?p = "CHR 0x5C # join (CHR 0x5C) cs"
  have cs: "cs \<noteq> []" "\<forall>c \<in> set cs. part_ok c" "length (join (CHR 0x5C) cs) < 255" using p by (simp_all add: path_taken_def)
  have ne: "join (CHR 0x5C) cs \<noteq> []" using cs by (cases "(CHR 0x5C, cs)" rule: join.cases) (auto simp: part_ok_def plain_name_def)
  have tr: "trimspaces (bounded 256 ?p) = ?p"
    using cs(3) p ne by (subst bounded_id) (simp_all add: trimspaces_id path_taken_def)
  let ?li = "layer_of layer st"
  obtain dirs where d: "inited st" "rootDirtocLBA ?li \<noteq> 0" "tree_has img fits (unat (layer_base layer st)) contents dirs"
    "(unat (rootDirtocLBA ?li), unat (rootDirtocLength ?li)) \<in> dirs" using t by (auto simp: tree_mounted_def)
  have "unat (rootDirtocLength ?li) < 2 ^ 31" using d(3,4) by (auto simp: tree_has_def dir_has_def)
  then have len: "sint (rootDirtocLength ?li) = int (unat (rootDirtocLength ?li))" by (rule sint_small)
  from locatefile_found [OF g l d(3,4) cs(2,1) _ fuel, of "CHR 0x5C" 0 1]
  obtain s where s: "cdvdman_locatefile ops fuel ?p (rootDirtocLBA ?li) (sint (rootDirtocLength ?li)) layer st
      = Inr (resolve_path contents layer cs st, st\<lparr>drive := s\<rparr>)" "good s" by (auto simp: len resolve_path_def)
  obtain xs where xs: "?p = xs @ CHR 0x5C # last cs" using join_last [OF cs(1)] by blast
  have "part_ok (last cs)" using cs by simp
  then have k: "strrchr ?p (CHR 0x5C) = Some (length xs)" unfolding xs by (intro strrchr_last) (auto simp: part_ok_def plain_name_def)
  have nm: "drop (length xs + 1) ?p = last cs" unfolding xs by simp
  have ln: "\<not> 16 \<le> length (last cs)" using p by (simp add: path_taken_def)
  define q where "q = ?p"
  have v: "skip_videos st \<Longrightarrow> is_video q = Inr (is_video q = Inr True)"
    using v by (auto simp: is_video_def Let_def q_def)
  have b: "layer \<Longrightarrow> snd (sceCdReadDvdDualInfo (st\<lparr>drive := s\<rparr>)) = layer_base layer st" "\<not> layer \<Longrightarrow> layer_base layer st = 0"
    using ly by (auto simp add: layer_base_def sceCdReadDvdDualInfo_def)
  define vid where "vid = (is_video q = Inr True)"
  have "find_on_layer ops fuel q layer st = Inr (map_option (file_found layer cs st) (resolve_path contents layer cs st), st\<lparr>drive := s\<rparr>)"
  proof (cases "resolve_path contents layer cs st")
    case None
    then show ?thesis using s d(2) tr by (simp add: find_on_layer_def layer_of_def Let_def flip: q_def)
  next
    case (Some e)
    have "file_found layer cs st e = \<lparr>cdl_lsn = of_nat (fileLBA e) + layer_base layer st, cdl_size = (if skip_videos st \<and> vid then 0 else of_nat (fileSize e)),
        cdl_name = last cs\<rparr>" by (simp add: file_found_def vid_def q_def)
    then show ?thesis using Some s d(2) tr k nm ln v b unfolding vid_def [symmetric]
      by (cases layer; cases "skip_videos st") (simp_all add: find_on_layer_def layer_of_def Let_def flip: q_def)
  qed
  then show ?thesis using s(2) d(1) ly by (intro exI [of _ s]) (simp add: cdvdman_findfile_def cdvdman_init_def q_def)
qed

text \<open>A search that is started while the drive reads for someone else finds nothing.\<close>

lemma findfile_busy:
  assumes "inited st" "locked st = True # ls" "rootDirtocLBA (layer0 st) \<noteq> 0" "0 < sint (rootDirtocLength (layer0 st))"
    "path_part (trimspaces (bounded 256 name)) = Inr (d, p)"
  shows "cdvdman_findfile ops fuel name 0 st = Inr (None, st\<lparr>locked := ls\<rparr>)"
  using assms
  by (simp add: cdvdman_findfile_def cdvdman_init_def find_on_layer_def cdvdman_locatefile.simps search_dir.simps [of _ _ _ _ "rootDirtocLBA (layer0 st)"]
      read_toc_def read_sync_def Let_def)

end

subsection \<open>Names that differ\<close>

text \<open>Where the names of a directory differ in their first 12 characters, each is found.\<close>

lemma pick12_exact:
  "\<lbrakk>(nm, e) \<in> set es; \<forall>(nm', e') \<in> set es. strncmp_eq 12 nm nm' \<longrightarrow> e' = e; slash \<longrightarrow> is_dir e\<rbrakk>
   \<Longrightarrow> pick12 nm slash es = (if slash then Descend e else Found e)"
  by (induction es) auto

subsection \<open>The drive over a block device\<close>

definition disk_ops :: "'d disc_read \<Rightarrow> 'd disc_read \<Rightarrow> (u8 list \<Rightarrow> 'd \<Rightarrow> 'd) \<Rightarrow> bool \<Rightarrow> ('d \<Rightarrow> 'd) \<Rightarrow> 'd drive_ops" where
  "disk_ops rd zrd zinit disk fsi =
     \<lparr>cdread = (\<lambda>al lsn n buf s. cdvdman_read rd zrd zinit disk al lsn n 2048 buf s), DeviceFSInit = fsi\<rparr>"

text \<open>A drive on an image of \<open>extent\<close> sectors that is ready, and not limited to less by its medium.\<close>

definition bdm_good :: "image \<Rightarrow> bool \<Rightarrow> nat \<Rightarrow> image bdm cdvdman \<Rightarrow> bool" where
  "bdm_good img disk extent s =
     (probed s \<and> \<not> compressed s \<and> bdm_usable img (device s) \<and> length (cdvdman_buf s) = 2048 * unat (CDVDMAN_BUF_SECTORS disk)
      \<and> (mediaLsnCount s = 0 \<or> extent \<le> unat (mediaLsnCount s)))"

text \<open>Sectors behind the logo, fewer at once than 4 GB.\<close>

definition drive_fits :: "nat \<Rightarrow> nat \<Rightarrow> nat \<Rightarrow> bool" where
  "drive_fits extent l n = (13 \<le> l \<and> l + n \<le> extent \<and> n < 2 ^ 21 \<and> extent < 2 ^ 30)"

interpretation bdm_drive: cd_drive "disk_ops (bdm_DeviceReadSectors defrag_image) zrd zinit disk fsi" "bdm_good img disk extent" img "drive_fits extent"
  for zrd zinit disk fsi img extent
proof unfold_locales
  fix s :: "image bdm cdvdman" and n lsn :: u32 and buf :: "u8 list" and al
  assume g: "bdm_good img disk extent s" and n: "n \<noteq> 0" and f: "drive_fits extent (unat lsn) (unat n)" and b: "2048 * unat n \<le> length buf"
  have r: "bdm_disc.ready img s" using g by (simp add: bdm_good_def bdm_disc.ready_def)
  have fd: "fits_disc extent (unat lsn) (unat n)" using f by (simp add: drive_fits_def fits_disc_def)
  have "13 \<le> lsn" using f by (simp add: drive_fits_def word_le_nat_alt)
  moreover have "0 < unat n" using n by (simp add: unat_gt_0)
  ultimately have o: "on_disc lsn (unat n) s" using f g
    by (auto simp: drive_fits_def bdm_good_def on_disc_def word_less_nat_alt)
  obtain s' where s': "cdvdman_read (bdm_DeviceReadSectors defrag_image) zrd zinit disk al lsn n 2048 buf s
      = Inr (bytes_at img (2048 * unat lsn) (2048 * unat n) @ drop (2048 * unat n) buf, s')" "bdm_disc.ready img s'" "same_medium s s'"
    using bdm_disc.read_delivers [OF r n fd o b, where disk = disk and zrd = zrd and zinit = zinit and aligned = al] g by (auto simp: bdm_good_def)
  then show "\<exists>s'. cdread (disk_ops (bdm_DeviceReadSectors defrag_image) zrd zinit disk fsi) al lsn n buf s
      = Inr (bytes_at img (2048 * unat lsn) (2048 * unat n) @ drop (2048 * unat n) buf, s') \<and> bdm_good img disk extent s'
      \<and> length (cdvdman_buf s') = length (cdvdman_buf s)"
    using g by (auto simp: disk_ops_def bdm_good_def bdm_disc.ready_def same_medium_def)
qed (auto simp: bdm_good_def drive_fits_def CDVDMAN_BUF_SECTORS_def bdm_usable_def)

text \<open>The first call reads the volume descriptor; the medium must not claim to be shorter than the image.\<close>

lemma volume_append:
  assumes "length b = 2048"
  shows "volume_root (b @ r) = volume_root b" "volume_size (b @ r) = volume_size b"
  using assms by (simp_all add: volume_root_def volume_size_def u32_at_def nth_append sector_parts_append)

lemma volume_read:
  assumes g: "bdm_good img disk extent ((drive st)\<lparr>err := ErNO, device := fsi (device (drive st))\<rparr>)" and l: "locked st = []"
    and i: "\<not> inited st" "17 \<le> extent" "extent < 2 ^ 30" and one: "emu_dvddl st \<or> layer1_start st = 0"
    and v: "v = bytes_at img (2048 * 16) 2048" "volume_size v = 0 \<or> extent \<le> unat (volume_size v)"
  shows "\<exists>d. cdvdman_init (disk_ops (bdm_DeviceReadSectors defrag_image) zrd zinit disk fsi) st
      = Inr (st\<lparr>drive := d, layer0 := volume_root v, cdvdman_fdhandles := replicate MAX_FDHANDLES closed_handle, inited := True\<rparr>)
    \<and> bdm_good img disk extent d \<and> mediaLsnCount d = volume_size v"
proof -
  let ?ops = "disk_ops (bdm_DeviceReadSectors defrag_image) zrd zinit disk fsi"
  let ?st = "st\<lparr>drive := (drive st)\<lparr>err := ErNO, device := fsi (device (drive st))\<rparr>, cdvdman_fdhandles := replicate MAX_FDHANDLES closed_handle\<rparr>"
  have "drive_fits extent (unat (16 :: u32)) 1" using i by (simp add: drive_fits_def)
  from bdm_drive.read_toc_free [where st = ?st and lsn = 16 and img = img and disk = disk and extent = extent and zrd = zrd and zinit = zinit and fsi = fsi, OF _ _ this] g l obtain d r where
    d: "read_toc ?ops 16 ?st = Inr (True, ?st\<lparr>drive := d\<rparr>)" "bdm_good img disk extent d" "cdvdman_buf d = v @ r" by (auto simp: v(1))
  have vol: "volume_root (cdvdman_buf d) = volume_root v" "volume_size (cdvdman_buf d) = volume_size v"
    unfolding d(3) by (rule volume_append; simp add: v(1))+
  have "cdvdman_searchfile_init ?ops ?st = Inr (set_media (volume_size v) (?st\<lparr>drive := d, layer0 := volume_root v\<rparr>))"
    using d(1) one by (auto simp: cdvdman_searchfile_init_def vol sceCdReadDvdDualInfo_def set_media_def Let_def)
  moreover have "DeviceFSInit ?ops = fsi" by (simp add: disk_ops_def)
  ultimately have "cdvdman_init ?ops st = Inr (st\<lparr>drive := d\<lparr>mediaLsnCount := volume_size v\<rparr>, layer0 := volume_root v,
      cdvdman_fdhandles := replicate MAX_FDHANDLES closed_handle, inited := True\<rparr>)"
    using i(1) by (simp add: cdvdman_init_def Let_def set_media_def)
  moreover have "bdm_good img disk extent (d\<lparr>mediaLsnCount := volume_size v\<rparr>)" using d(2) v(2) by (simp add: bdm_good_def)
  ultimately show ?thesis by (intro exI [of _ "d\<lparr>mediaLsnCount := volume_size v\<rparr>"]) simp
qed


subsection \<open>A disc\<close>

text \<open>One directory with one file, \<open>A.B;1\<close>.\<close>

definition disc_dir :: "u8 list" where
  "disc_dir = [40, 0, 24, 0, 0, 0, 0, 0, 0, 24, 0xB8, 0x0B, 0, 0, 0, 0, 0x0B, 0xB8, 0, 0, 0, 0, 0, 0, 0, 0,
     0, 0, 0, 0, 0, 0, 5, 65, 46, 66, 59, 49, 0, 0] @ replicate 2008 0"

definition disc_sector :: "nat \<Rightarrow> u8 list" where
  "disc_sector i = (if i = 22 then disc_dir else replicate 2048 (of_nat i))"

definition disc_file :: dirTocEntry where "disc_file = \<lparr>fileLBA = 24, fileSize = 3000, fileProperties = 0\<rparr>"

definition disc_contents :: "nat \<Rightarrow> nat \<Rightarrow> entry list" where
  "disc_contents lba sz = [(''A.B;1'', disc_file)]"

definition disc_example :: "image bdm cd_files" where
  "disc_example = \<lparr>drive = (cdvdman_example 0)\<lparr>device := bdm_example\<lparr>media := plain disc_sector\<rparr>\<rparr>, locked = [], emu_dvddl = False, skip_videos = False,
     layer1_start = 0, layer0 = \<lparr>rootDirtocLBA = 22, rootDirtocLength = 2048\<rparr>, layer1 = \<lparr>rootDirtocLBA = 0, rootDirtocLength = 0\<rparr>,
     cdvdman_fdhandles = replicate MAX_FDHANDLES closed_handle, cdvdman_fs_buf = replicate 16448 0, inited = True\<rparr>"

lemma disc_good: "bdm_good (plain disc_sector) True 100 (drive disc_example)"
  by (simp add: bdm_good_def disc_example_def cdvdman_example_def bdm_example_def bdm_usable_def CDVDMAN_BUF_SECTORS_def)

lemma disc_lists: "sector_lists disc_dir 0 [(''A.B;1'', disc_file)]"
  by (simp add: disc_dir_def curdir_def record_length_def entry_at_def disc_file_def u32_at_def le32_def nth_append)
    (simp add: char_of_def bit_0)

lemma disc_tree: "tree_mounted (plain disc_sector) (drive_fits 100) disc_contents False disc_example"
proof -
  have "bytes_at (plain disc_sector) (2048 * 22) 2048 = disc_dir"
    using plain_sector [of disc_sector 22] by (simp add: disc_sector_def disc_dir_def)
  then have "dir_has (plain disc_sector) (drive_fits 100) 22 2048 (disc_contents 22 2048)"
    unfolding dir_has_def disc_contents_def using disc_lists
    by (intro exI [of _ "[[(''A.B;1'', disc_file)]]"]) (simp add: drive_fits_def)
  then have "tree_has (plain disc_sector) (drive_fits 100) 0 disc_contents {(22, 2048)}"
    by (simp add: tree_has_def disc_contents_def is_dir_def disc_file_def)
  then show ?thesis by (auto simp: tree_mounted_def layer_of_def layer_base_def disc_example_def)
qed

lemma disc_resolve: "resolve_path disc_contents False [''A.B;1''] disc_example = Some disc_file"
  by (simp add: resolve_path_def disc_contents_def strncmp_eq_def)


end
