(* ===== verification/CdFile.thy ===== *)
theory CdFile
  imports CdSearch
begin

text \<open>
  Files of the disc for a game (\<open>src/modules/iopcore/cdvdman/ioops.c\<close>): the device \<open>cdrom\<close> with its handles, opening by a path
  that may lack the version, reading, seeking, and listing a directory.  The semaphore \<open>cdrom_io_sema\<close> is taken and given back by
  every operation, so that each is one step.  The commands that only pass a call on (\<open>devctl\<close>, \<open>ioctl2\<close>) are not modelled.
\<close>

definition EPERM :: int where "EPERM = 1"
definition ENOENT :: int where "ENOENT = 2"
definition EINVAL :: int where "EINVAL = 22"
definition EMFILE :: int where "EMFILE = 24"
definition O_RDONLY :: int where "O_RDONLY = 1"

text \<open>\<open>iop_file_t\<close>; \<open>privdata\<close> is the index of a handle.\<close>

record iop_file =
  file_ptr :: nat
  unit_no :: int
  mode :: int
  privdata :: "nat option"

subsection \<open>Opening and closing\<close>

fun getfilefreeslot :: "FHANDLE list \<Rightarrow> nat option" where
  "getfilefreeslot [] = None"
| "getfilefreeslot (fh # fhs) = (if owner fh = None then Some 0 else map_option Suc (getfilefreeslot fhs))"

definition set_handle :: "nat \<Rightarrow> FHANDLE \<Rightarrow> 'd cd_files \<Rightarrow> 'd cd_files" where
  "set_handle i fh st = st\<lparr>cdvdman_fdhandles := (cdvdman_fdhandles st)[i := fh]\<rparr>"

definition cdvdman_open :: "'d drive_ops \<Rightarrow> nat \<Rightarrow> iop_file \<Rightarrow> string \<Rightarrow> 'd cd_files \<Rightarrow> ub + int \<times> iop_file \<times> 'd cd_files" where
  "cdvdman_open ops fuel f filename st =
     bindR (cdvdman_init ops st) (\<lambda>st.
       if unit_no f < 2
       then case getfilefreeslot (cdvdman_fdhandles st) of
              None \<Rightarrow> Inr (- EMFILE, f, st)
            | Some i \<Rightarrow>
                bindR (sceCdLayerSearchFile ops fuel filename (unit_no f) st) (\<lambda>(cdfile, st).
                  case cdfile of
                    None \<Rightarrow> Inr (- ENOENT, f, st)
                  | Some cd \<Rightarrow>
                      Inr (0, f\<lparr>privdata := Some i\<rparr>,
                        set_handle i \<lparr>owner = Some (file_ptr f), fh_lsn = cdl_lsn cd, filesize = cdl_size cd, position = 0\<rparr> st))
       else Inr (- ENOENT, f, st))"

text \<open>
  The copy of the path in an array of 128 characters, with the version that it lacks.  A path of 128 characters or more is copied
  without its terminator, so that its length is read from behind the array.
\<close>

definition cdrom_purifyPath :: "string \<Rightarrow> ub + string" where
  "cdrom_purifyPath filename =
     (let path = filename; len = length path
      in if 128 \<le> len then Inl OutOfBounds
         else if 3 \<le> len
         then if path ! (len - 2) = CHR '';'' \<and> path ! (len - 1) = CHR ''1'' then Inr path
              else if path ! (len - 1) = CHR '';'' then (if len + 1 < 128 then Inr (path @ ''1'') else Inl OutOfBounds)
              else (if len + 2 < 128 then Inr (path @ '';1'') else Inl OutOfBounds)
         else Inr path)"

definition cdrom_open :: "'d drive_ops \<Rightarrow> nat \<Rightarrow> iop_file \<Rightarrow> string \<Rightarrow> 'd cd_files \<Rightarrow> ub + int \<times> iop_file \<times> 'd cd_files" where
  "cdrom_open ops fuel f filename st =
     bindR (cdrom_purifyPath filename) (\<lambda>path_buffer.
     bindR (cdvdman_open ops fuel f path_buffer st) (\<lambda>(result, f, st).
       Inr (result, if 0 \<le> result then f\<lparr>mode := O_RDONLY\<rparr> else f, st)))"

definition cdrom_dopen :: "'d drive_ops \<Rightarrow> nat \<Rightarrow> iop_file \<Rightarrow> string \<Rightarrow> 'd cd_files \<Rightarrow> ub + int \<times> iop_file \<times> 'd cd_files" where
  "cdrom_dopen ops fuel f dirname st = cdvdman_open ops fuel f dirname st"

definition cdrom_close :: "iop_file \<Rightarrow> 'd cd_files \<Rightarrow> ub + int \<times> iop_file \<times> 'd cd_files" where
  "cdrom_close f st = (case privdata f of None \<Rightarrow> Inl NullPointer | Some i \<Rightarrow> Inr (0, f\<lparr>mode := 0\<rparr>, set_handle i closed_handle st))"

definition cdrom_getstat :: "'d drive_ops \<Rightarrow> nat \<Rightarrow> iop_file \<Rightarrow> string \<Rightarrow> 'd cd_files \<Rightarrow> ub + int \<times> sceCdlFILE option \<times> 'd cd_files" where
  "cdrom_getstat ops fuel f filename st =
     bindR (cdrom_purifyPath filename) (\<lambda>path_buffer.
     bindR (sceCdLayerSearchFile ops fuel path_buffer (unit_no f) st) (\<lambda>(cd, st). Inr (if cd = None then - 1 else 0, cd, st)))"

text \<open>The operations of a file system that the disc does not have.\<close>

definition cdrom_dummy :: int where "cdrom_dummy = - EPERM"

definition cdrom_ioctl :: "nat \<Rightarrow> int" where
  "cdrom_ioctl cmd = (if cmd \<noteq> 0x10000 then - EINVAL else 0)"

subsection \<open>Reading and seeking\<close>

lemma read_sync_refused: "read_sync ops al lsn n buf st = Inr (False, b, st') \<Longrightarrow> locked st = True # locked st' \<and> st' = st\<lparr>locked := locked st'\<rparr> \<and> b = buf"
  by (auto simp: read_sync_def result_iff split: list.splits bool.splits)

text \<open>A read that is tried again until the drive is free.\<close>

function read_wait :: "'d drive_ops \<Rightarrow> bool \<Rightarrow> u32 \<Rightarrow> u32 \<Rightarrow> u8 list \<Rightarrow> 'd cd_files \<Rightarrow> ub + u8 list \<times> 'd cd_files" where
  "read_wait ops al lsn n buf st =
     bindR (read_sync ops al lsn n buf st) (\<lambda>(ok, buf, st). if ok then Inr (buf, st) else read_wait ops al lsn n buf st)"
  by pat_completeness auto
termination
  by (relation "measure (\<lambda>(ops, al, lsn, n, buf, st). length (locked st))")
    (auto dest: read_sync_refused)

declare read_wait.simps [simp del]

text \<open>
  The three phases of a read: the rest of a sector, whole sectors, the beginning of a sector.  The result is the number of bytes
  and what is in the buffer, which is taken from the current address (\<open>addr\<close>) on.
\<close>

definition read_head :: "'d drive_ops \<Rightarrow> u32 \<Rightarrow> u32 \<Rightarrow> nat \<Rightarrow> u8 list \<Rightarrow> 'd cd_files \<Rightarrow> ub + nat \<times> u8 list \<times> 'd cd_files" where
  "read_head ops lsn pos sz buf st =
     (let offset = unat (pos mod 2048)
      in if offset = 0 then Inr (0, buf, st)
         else let nbytes = min sz (2048 - offset)
              in bindR (read_wait ops True (lsn + pos div 2048) 1 (cdvdman_fs_buf st) st) (\<lambda>(b, st).
                   if length buf < nbytes \<or> length b < offset + nbytes then Inl OutOfBounds
                   else Inr (nbytes, write_at buf 0 (take nbytes (drop offset b)), st\<lparr>cdvdman_fs_buf := b\<rparr>)))"

definition read_middle :: "'d drive_ops \<Rightarrow> u32 \<Rightarrow> u32 \<Rightarrow> nat \<Rightarrow> nat \<Rightarrow> u8 list \<Rightarrow> 'd cd_files \<Rightarrow> ub + nat \<times> u8 list \<times> 'd cd_files" where
  "read_middle ops lsn pos sz addr buf st =
     (let nsectors = sz div 2048
      in if 0 < nsectors
         then bindR (read_wait ops (addr mod 4 = 0) (lsn + pos div 2048) (of_nat nsectors) buf st) (\<lambda>(buf, st). Inr (nsectors * 2048, buf, st))
         else Inr (0, buf, st))"

definition read_tail :: "'d drive_ops \<Rightarrow> u32 \<Rightarrow> u32 \<Rightarrow> nat \<Rightarrow> u8 list \<Rightarrow> 'd cd_files \<Rightarrow> ub + nat \<times> u8 list \<times> 'd cd_files" where
  "read_tail ops lsn pos sz buf st =
     (if 0 < sz
      then bindR (read_wait ops True (lsn + pos div 2048) 1 (cdvdman_fs_buf st) st) (\<lambda>(b, st).
             if length buf < sz \<or> length b < sz then Inl OutOfBounds
             else Inr (sz, write_at buf 0 (take sz b), st\<lparr>cdvdman_fs_buf := b\<rparr>))
      else Inr (0, buf, st))"

definition read_parts :: "'d drive_ops \<Rightarrow> u32 \<Rightarrow> u32 \<Rightarrow> nat \<Rightarrow> nat \<Rightarrow> u8 list \<Rightarrow> 'd cd_files \<Rightarrow> ub + nat \<times> u8 list \<times> 'd cd_files" where
  "read_parts ops lsn pos sz addr buf st =
     bindR (read_head ops lsn pos sz buf st) (\<lambda>(n1, buf, st).
     bindR (read_middle ops lsn (pos + of_nat n1) (sz - n1) (addr + n1) (drop n1 buf) st) (\<lambda>(n2, buf2, st).
     bindR (read_tail ops lsn (pos + of_nat n1 + of_nat n2) (sz - n1 - n2) (drop n2 buf2) st) (\<lambda>(n3, buf3, st).
       Inr (n1 + n2 + n3, take n1 buf @ take n2 buf2 @ buf3, st))))"

text \<open>The size that is left; position and size are unsigned, the size asked for is an \<open>int\<close>.\<close>

definition read_size :: "FHANDLE \<Rightarrow> int \<Rightarrow> int" where
  "read_size fh sz = (if filesize fh < position fh + of_int sz then sint (filesize fh - position fh) else sz)"

definition cdrom_read :: "'d drive_ops \<Rightarrow> iop_file \<Rightarrow> nat \<Rightarrow> u8 list \<Rightarrow> int \<Rightarrow> 'd cd_files \<Rightarrow> ub + int \<times> u8 list \<times> 'd cd_files" where
  "cdrom_read ops f addr buf asked st =
     (case privdata f of
        None \<Rightarrow> Inl NullPointer
      | Some i \<Rightarrow>
          let fh = cdvdman_fdhandles st ! i; sz = read_size fh asked
          in if 0 < sz
             then bindR (read_parts ops (fh_lsn fh) (position fh) (nat sz) addr buf st) (\<lambda>(rpos, buf, st).
                    Inr (int rpos, buf, set_handle i (fh\<lparr>position := position fh + of_nat rpos\<rparr>) st))
             else Inr (0, buf, st))"

datatype whence = SEEK_SET | SEEK_CUR | SEEK_END | SEEK_OTHER

definition seek_position :: "FHANDLE \<Rightarrow> int \<Rightarrow> whence \<Rightarrow> u32" where
  "seek_position fh offset wh =
     (let p = (case wh of SEEK_CUR \<Rightarrow> position fh + of_int offset | SEEK_SET \<Rightarrow> of_int offset | SEEK_END \<Rightarrow> filesize fh - of_int offset
               | SEEK_OTHER \<Rightarrow> position fh)
      in if filesize fh < p then filesize fh else p)"

definition cdrom_lseek :: "iop_file \<Rightarrow> int \<Rightarrow> whence \<Rightarrow> 'd cd_files \<Rightarrow> ub + int \<times> 'd cd_files" where
  "cdrom_lseek f offset wh st =
     (case privdata f of
        None \<Rightarrow> Inl NullPointer
      | Some i \<Rightarrow>
          let fh = cdvdman_fdhandles st ! i; p = seek_position fh offset wh
          in Inr (sint p, set_handle i (fh\<lparr>position := p\<rparr>) st))"

subsection \<open>Listing a directory\<close>

record iox_dirent =
  d_mode :: u32
  d_size :: u32
  d_name :: string

definition dirent_at :: "u8 list \<Rightarrow> nat \<Rightarrow> iox_dirent" where
  "dirent_at b p =
     \<lparr>d_mode = (if fileProperties (entry_at b p) AND 2 \<noteq> 0 then 0x116D else 0x2124), d_size = of_nat (fileSize (entry_at b p)),
      d_name = curdir b p\<rparr>"

text \<open>Whether there is a record, its place, and the next position; records with a name of one character are skipped.\<close>

fun next_record :: "nat \<Rightarrow> u8 list \<Rightarrow> u32 \<Rightarrow> ub + bool \<times> nat \<times> u32" where
  "next_record 0 b pos = Inl Diverges"
| "next_record (Suc fuel) b pos =
     (let p = unat pos
      in if length b < p + 33 then Inl OutOfBounds
         else if record_length b p = 0 then Inr (False, p, pos)
         else let pos = pos + of_int (record_length b p)
              in if b ! (p + 32) = 1 then next_record fuel b pos else Inr (True, p, pos))"

text \<open>The entry is filled in even where there is no record.\<close>

definition cdrom_dread :: "'d drive_ops \<Rightarrow> nat \<Rightarrow> iop_file \<Rightarrow> 'd cd_files \<Rightarrow> ub + int \<times> iox_dirent option \<times> 'd cd_files" where
  "cdrom_dread ops fuel f st =
     (case privdata f of
        None \<Rightarrow> Inl NullPointer
      | Some i \<Rightarrow>
          let fh = cdvdman_fdhandles st ! i
          in bindR (read_sync ops True (fh_lsn fh) 1 (cdvdman_fs_buf st) st) (\<lambda>(ok, b, st).
               if \<not> ok then Inr (0, None, st)
               else bindR (next_record fuel b (position fh)) (\<lambda>(r, p, pos).
                      if length b < p + 33 + unat (b ! (p + 32)) then Inl OutOfBounds
                      else Inr (if r then 1 else 0, Some (dirent_at b p), set_handle i (fh\<lparr>position := pos\<rparr>) (st\<lparr>cdvdman_fs_buf := b\<rparr>)))))"

subsection \<open>Reads\<close>

context cd_drive
begin

lemma read_wait_ok:
  "\<lbrakk>good (drive st); n \<noteq> 0; fits (unat lsn) (unat n); 2048 * unat n \<le> length buf\<rbrakk>
   \<Longrightarrow> \<exists>d l. read_wait ops al lsn n buf st
    = Inr (bytes_at img (2048 * unat lsn) (2048 * unat n) @ drop (2048 * unat n) buf, st\<lparr>drive := d, locked := l\<rparr>) \<and> good d"
proof (induction "locked st" arbitrary: st)
  case Nil
  obtain d where d: "cdread ops al lsn n buf (drive st) = Inr (bytes_at img (2048 * unat lsn) (2048 * unat n) @ drop (2048 * unat n) buf, d)" "good d"
    using read_good [OF Nil.prems] by blast
  then show ?case using Nil.hyps by (subst read_wait.simps) (auto simp: read_sync_def)
next
  case (Cons b ls)
  show ?case
  proof (cases b)
    case True
    then have "read_wait ops al lsn n buf st = read_wait ops al lsn n buf (st\<lparr>locked := ls\<rparr>)"
      using Cons.hyps(2) by (subst read_wait.simps) (simp add: read_sync_def flip: Cons.hyps(2))
    then show ?thesis using Cons.hyps(1) [of "st\<lparr>locked := ls\<rparr>"] Cons.prems by simp
  next
    case False
    obtain d where d: "cdread ops al lsn n buf (drive st) = Inr (bytes_at img (2048 * unat lsn) (2048 * unat n) @ drop (2048 * unat n) buf, d)" "good d"
      using read_good [OF Cons.prems] by blast
    then show ?thesis using False by (subst read_wait.simps) (auto simp: read_sync_def simp flip: Cons.hyps(2))
  qed
qed

text \<open>What a part of a read leaves as it is.\<close>

definition only_read :: "'d cd_files \<Rightarrow> 'd cd_files \<Rightarrow> bool" where
  "only_read st st' = (st' = st\<lparr>drive := drive st', locked := locked st', cdvdman_fs_buf := cdvdman_fs_buf st'\<rparr>
     \<and> good (drive st') \<and> length (cdvdman_fs_buf st') = length (cdvdman_fs_buf st))"

lemma only_read_trans: "only_read s s' \<Longrightarrow> only_read s' s'' \<Longrightarrow> only_read s s''"
  by (cases s; cases s'; cases s'') (simp add: only_read_def)

lemma only_read_refl: "good (drive st) \<Longrightarrow> only_read st st"
  by (cases st) (simp add: only_read_def)

lemma only_read_good: "only_read s s' \<Longrightarrow> good (drive s') \<and> length (cdvdman_fs_buf s') = length (cdvdman_fs_buf s)"
  by (simp add: only_read_def)

text \<open>The sector that holds a position.\<close>

lemma sector_of:
  assumes "fits (unat lsn) k" "unat pos div 2048 < k"
  shows "unat (lsn + pos div 2048 :: u32) = unat lsn + unat pos div 2048"
  using fits_bound [OF assms(1)] assms(2) by (subst unat_add_small) (simp_all add: unat_div)

lemma sector_bytes:
  assumes "k + n \<le> 2048"
  shows "take n (drop k (bytes_at img (2048 * l) 2048 @ r)) = bytes_at img (2048 * l + k) n"
  using assms by (simp add: drop_bytes_at take_bytes_at)

lemma read_sector_ok:
  assumes "good (drive st)" "fits (unat lsn) k" "unat pos div 2048 < k" "2048 \<le> length (cdvdman_fs_buf st)"
  shows "\<exists>st' r. read_wait ops True (lsn + pos div 2048) 1 (cdvdman_fs_buf st) st
      = Inr (bytes_at img (2048 * (unat lsn + unat pos div 2048)) 2048 @ r, st')
    \<and> only_read st (st'\<lparr>cdvdman_fs_buf := bytes_at img (2048 * (unat lsn + unat pos div 2048)) 2048 @ r\<rparr>)"
proof -
  have u: "unat (1 :: u32) = 1" by simp
  have "fits (unat lsn + unat pos div 2048) 1" using fits_sectors [OF assms(2), of "unat pos div 2048" 1] assms(3) by simp
  then have "fits (unat (lsn + pos div 2048)) (unat (1 :: u32))" using sector_of [OF assms(2,3)] by simp
  from read_wait_ok [OF assms(1) _ this, of "cdvdman_fs_buf st" True] assms(4) obtain d l where
    "read_wait ops True (lsn + pos div 2048) 1 (cdvdman_fs_buf st) st
      = Inr (bytes_at img (2048 * (unat lsn + unat pos div 2048)) 2048 @ drop 2048 (cdvdman_fs_buf st), st\<lparr>drive := d, locked := l\<rparr>)" "good d"
    unfolding sector_of [OF assms(2,3)] by auto
  then show ?thesis using assms(4) unfolding only_read_def
    by (intro exI [of _ "st\<lparr>drive := d, locked := l\<rparr>"] exI [of _ "drop 2048 (cdvdman_fs_buf st)"] conjI) simp_all
qed

lemma phase1_ok:
  assumes "good (drive st)" "fits (unat lsn) ((unat pos + sz + 2047) div 2048)" "0 < sz" "sz \<le> length buf" "2048 \<le> length (cdvdman_fs_buf st)"
    and n: "n = (if unat pos mod 2048 = 0 then 0 else min sz (2048 - unat pos mod 2048))"
  shows "\<exists>st'. read_head ops lsn pos sz buf st = Inr (n, bytes_at img (2048 * unat lsn + unat pos) n @ drop n buf, st') \<and> only_read st st'"
proof (cases "unat pos mod 2048 = 0")
  case True
  then show ?thesis using n only_read_refl [OF assms(1)] by (auto simp: read_head_def unat_mod bytes_at_def)
next
  case False
  have "unat pos div 2048 < (unat pos + sz + 2047) div 2048" using assms(3) by simp
  from read_sector_ok [OF assms(1,2) this assms(5)] obtain st' r where
    s: "read_wait ops True (lsn + pos div 2048) 1 (cdvdman_fs_buf st) st = Inr (bytes_at img (2048 * (unat lsn + unat pos div 2048)) 2048 @ r, st')"
    "only_read st (st'\<lparr>cdvdman_fs_buf := bytes_at img (2048 * (unat lsn + unat pos div 2048)) 2048 @ r\<rparr>)" by blast
  have o: "unat pos mod 2048 + n \<le> 2048" "n \<le> length buf" using n False assms(4) mod_less_divisor [of 2048 "unat pos"] by auto
  have "2048 * (unat lsn + unat pos div 2048) + unat pos mod 2048 = 2048 * unat lsn + unat pos" by simp
  then have "take n (drop (unat pos mod 2048) (bytes_at img (2048 * (unat lsn + unat pos div 2048)) 2048 @ r)) = bytes_at img (2048 * unat lsn + unat pos) n"
    using sector_bytes [OF o(1), of "unat lsn + unat pos div 2048" r] by (simp only:)
  moreover have "min sz (2048 - unat pos mod 2048) = n" using n False by simp
  ultimately show ?thesis using s o False by (auto simp: read_head_def unat_mod Let_def write_at_def)
qed

lemma phase2_ok:
  assumes "good (drive st)" "fits (unat lsn) ((unat pos + sz + 2047) div 2048) \<or> sz = 0" "unat pos mod 2048 = 0 \<or> sz = 0" "sz \<le> length buf" "sz < 2 ^ 31"
    and n: "n = sz div 2048 * 2048"
  shows "\<exists>st'. read_middle ops lsn pos sz addr buf st = Inr (n, bytes_at img (2048 * unat lsn + unat pos) n @ drop n buf, st') \<and> only_read st st'"
proof (cases "sz div 2048 = 0")
  case True
  then show ?thesis using n only_read_refl [OF assms(1)] by (auto simp: read_middle_def bytes_at_def)
next
  case False
  then have a: "fits (unat lsn) ((unat pos + sz + 2047) div 2048)" "unat pos mod 2048 = 0" "0 < sz" using assms(2,3) by auto
  define k where "k = sz div 2048"
  have k: "unat (of_nat k :: u32) = k" "(of_nat k :: u32) \<noteq> 0" "n = 2048 * k" "n \<le> sz"
    using assms(5) False n unat_of_nat_u32 [of k] by (auto simp: k_def unat_eq_0 [symmetric])
  have p: "unat pos div 2048 + k \<le> (unat pos + sz + 2047) div 2048"
  proof -
    have "unat pos div 2048 * 2048 = unat pos" using a(2) by (simp add: mod_0_imp_dvd)
    then have "(unat pos div 2048 + k) * 2048 \<le> unat pos + sz + 2047" using n k(4) by (simp add: k_def)
    then show ?thesis by (simp add: less_eq_div_iff_mult_less_eq)
  qed
  have "0 < k" using False by (simp add: k_def)
  have q: "unat pos div 2048 < (unat pos + sz + 2047) div 2048" using a(3) by simp
  have "fits (unat lsn + unat pos div 2048) k" using fits_sectors [OF a(1) p] \<open>0 < k\<close> by simp
  then have "fits (unat (lsn + pos div 2048)) (unat (of_nat k :: u32))" by (simp add: sector_of [OF a(1) q] k(1))
  from read_wait_ok [OF assms(1) k(2) this, of buf "addr mod 4 = 0"] assms(4) k obtain d l where
    "read_wait ops (addr mod 4 = 0) (lsn + pos div 2048) (of_nat k) buf st
      = Inr (bytes_at img (2048 * (unat lsn + unat pos div 2048)) n @ drop n buf, st\<lparr>drive := d, locked := l\<rparr>)" "good d"
    unfolding sector_of [OF a(1) q] by auto
  moreover have "2048 * (unat lsn + unat pos div 2048) = 2048 * unat lsn + unat pos" using a(2) by (simp add: mod_0_imp_dvd)
  moreover have "only_read st (st\<lparr>drive := d, locked := l\<rparr>)" using \<open>good d\<close> by (simp add: only_read_def)
  ultimately show ?thesis using \<open>0 < k\<close> k(3) by (auto simp: read_middle_def Let_def simp flip: k_def)
qed

lemma phase3_ok:
  assumes "good (drive st)" "fits (unat lsn) ((unat pos + sz + 2047) div 2048) \<or> sz = 0" "unat pos mod 2048 = 0 \<or> sz = 0" "sz \<le> length buf" "sz < 2048"
    "2048 \<le> length (cdvdman_fs_buf st)"
  shows "\<exists>st'. read_tail ops lsn pos sz buf st = Inr (sz, bytes_at img (2048 * unat lsn + unat pos) sz @ drop sz buf, st') \<and> only_read st st'"
proof (cases "sz = 0")
  case True
  then show ?thesis using only_read_refl [OF assms(1)] by (auto simp: read_tail_def bytes_at_def)
next
  case False
  then have a: "fits (unat lsn) ((unat pos + sz + 2047) div 2048)" "unat pos mod 2048 = 0" "0 < sz" using assms(2,3) by auto
  have "unat pos div 2048 < (unat pos + sz + 2047) div 2048" using a(3) by simp
  from read_sector_ok [OF assms(1) a(1) this assms(6)] obtain st' r where
    s: "read_wait ops True (lsn + pos div 2048) 1 (cdvdman_fs_buf st) st = Inr (bytes_at img (2048 * (unat lsn + unat pos div 2048)) 2048 @ r, st')"
    "only_read st (st'\<lparr>cdvdman_fs_buf := bytes_at img (2048 * (unat lsn + unat pos div 2048)) 2048 @ r\<rparr>)" by blast
  have "2048 * (unat lsn + unat pos div 2048) = 2048 * unat lsn + unat pos" using a(2) by (simp add: mod_0_imp_dvd)
  then have "take sz (bytes_at img (2048 * (unat lsn + unat pos div 2048)) 2048 @ r) = bytes_at img (2048 * unat lsn + unat pos) sz"
    using sector_bytes [of 0 sz "unat lsn + unat pos div 2048" r] assms(5) by simp
  then show ?thesis using s assms(4,5) a(3) by (auto simp: read_tail_def write_at_def)
qed

lemma phases_ok:
  assumes g: "good (drive st)" and f: "fits (unat lsn) ((unat pos + sz + 2047) div 2048)" and z: "0 < sz" "sz \<le> length buf" "unat pos + sz < 2 ^ 31"
    and b: "2048 \<le> length (cdvdman_fs_buf st)"
  shows "\<exists>st'. read_parts ops lsn pos sz addr buf st = Inr (sz, bytes_at img (2048 * unat lsn + unat pos) sz @ drop sz buf, st') \<and> only_read st st'"
proof -
  define n1 where "n1 = (if unat pos mod 2048 = 0 then 0 else min sz (2048 - unat pos mod 2048))"
  define n2 where "n2 = (sz - n1) div 2048 * 2048"
  define n3 where "n3 = sz - n1 - n2"
  have n: "n1 \<le> sz" "n1 + n2 \<le> sz" "n1 + n2 + n3 = sz" "n3 < 2048"
  proof -
    show "n1 \<le> sz" by (simp add: n1_def)
    moreover have "(sz - n1) div 2048 * 2048 + (sz - n1) mod 2048 = sz - n1" by simp
    moreover have "(sz - n1) mod 2048 < 2048" by simp
    ultimately show "n1 + n2 \<le> sz" "n1 + n2 + n3 = sz" "n3 < 2048" unfolding n3_def n2_def by linarith+
  qed
  have m: "(unat pos + n1) mod 2048 = 0 \<or> sz - n1 = 0"
  proof (cases "unat pos mod 2048 = 0 \<or> sz \<le> 2048 - unat pos mod 2048")
    case False
    then have "n1 = 2048 - unat pos mod 2048" by (simp add: n1_def)
    moreover have "unat pos + (2048 - unat pos mod 2048) = 2048 * (unat pos div 2048 + 1)"
    proof -
      define q r where "q = unat pos div 2048" and "r = unat pos mod 2048"
      have "unat pos = 2048 * q + r" "r < 2048" by (simp_all add: q_def r_def)
      then show ?thesis unfolding q_def [symmetric] r_def [symmetric] by arith
    qed
    ultimately have "unat pos + n1 = 2048 * (unat pos div 2048 + 1)" by simp
    then show ?thesis by (simp only: mod_mult_self1_is_0) simp
  qed (auto simp: n1_def)
  have m2: "(unat pos + n1 + n2) mod 2048 = 0 \<or> n3 = 0" using m by (auto simp: n2_def n3_def)
  have p1: "unat (pos + of_nat n1) = unat pos + n1" "unat (pos + of_nat n1 + of_nat n2) = unat pos + n1 + n2"
    using z(3) n unat_of_nat_add [of n1 pos] unat_of_nat_add [of n2 "pos + of_nat n1"] by (simp_all add: ac_simps)
  have e: "unat pos + n1 + (sz - n1) = unat pos + sz" "unat pos + n1 + n2 + n3 = unat pos + sz" using n by simp_all
  obtain s1 where 1: "read_head ops lsn pos sz buf st = Inr (n1, bytes_at img (2048 * unat lsn + unat pos) n1 @ drop n1 buf, s1)" "only_read st s1"
    using phase1_ok [OF g f z(1,2) b n1_def] by blast
  note g1 = only_read_good [OF 1(2)]
  have le1: "sz - n1 \<le> length (drop n1 buf)" "sz - n1 < 2 ^ 31" using z n by simp_all
  obtain s2 where 2: "read_middle ops lsn (pos + of_nat n1) (sz - n1) (addr + n1) (drop n1 buf) s1
      = Inr (n2, bytes_at img (2048 * unat lsn + (unat pos + n1)) n2 @ drop n2 (drop n1 buf), s2)" "only_read s1 s2"
    using phase2_ok [of s1 lsn "pos + of_nat n1" "sz - n1" "drop n1 buf" n2 "addr + n1"] conjunct1 [OF g1] f m le1 n2_def unfolding p1(1) e(1) by blast
  note g2 = only_read_good [OF 2(2)]
  have le2: "n3 \<le> length (drop n2 (drop n1 buf))" "2048 \<le> length (cdvdman_fs_buf s2)" using z n g1 g2 b by simp_all
  obtain s3 where 3: "read_tail ops lsn (pos + of_nat n1 + of_nat n2) n3 (drop n2 (drop n1 buf)) s2
      = Inr (n3, bytes_at img (2048 * unat lsn + (unat pos + n1 + n2)) n3 @ drop n3 (drop n2 (drop n1 buf)), s3)" "only_read s2 s3"
    using phase3_ok [of s2 lsn "pos + of_nat n1 + of_nat n2" n3 "drop n2 (drop n1 buf)"] conjunct1 [OF g2] f m2 le2 n(4) unfolding p1(2) e(2) by blast
  have t: "take n1 (bytes_at img k n1 @ xs) = bytes_at img k n1" "drop n1 (bytes_at img k n1 @ xs) = xs" for n1 k xs by simp_all
  have B: "bytes_at img (2048 * unat lsn + unat pos) n1 @ bytes_at img (2048 * unat lsn + (unat pos + n1)) n2 @ bytes_at img (2048 * unat lsn + (unat pos + n1 + n2)) n3
      = bytes_at img (2048 * unat lsn + unat pos) sz"
    using bytes_at_append [of img "2048 * unat lsn + unat pos" n1 "n2 + n3"] bytes_at_append [of img "2048 * unat lsn + (unat pos + n1)" n2 n3] n(3)
    by (simp add: add.assoc)
  have D: "drop n3 (drop n2 (drop n1 buf)) = drop sz buf" using n(3) by (simp add: ac_simps flip: n(3))
  have n3: "sz - n1 - n2 = n3" by (simp add: n3_def)
  have "read_parts ops lsn pos sz addr buf st = Inr (sz, (bytes_at img (2048 * unat lsn + unat pos) n1 @ bytes_at img (2048 * unat lsn + (unat pos + n1)) n2
      @ bytes_at img (2048 * unat lsn + (unat pos + n1 + n2)) n3) @ drop n3 (drop n2 (drop n1 buf)), s3)"
    unfolding read_parts_def 1(1) bindR_simps prod.case t 2(1) n3 3(1) n(3) by (simp only: append_assoc)
  then show ?thesis using only_read_trans [OF only_read_trans [OF 1(2) 2(2)] 3(2)] unfolding B D by blast
qed

lemma read_size_left:
  assumes "position fh \<le> filesize fh" "unat (filesize fh) < 2 ^ 31" "0 \<le> sz" "sz < 2 ^ 31"
  shows "read_size fh sz = int (min (nat sz) (unat (filesize fh) - unat (position fh)))"
proof -
  have p: "unat (position fh) \<le> unat (filesize fh)" using assms(1) by (simp add: word_le_nat_alt)
  have a: "unat (position fh + of_int sz) = unat (position fh) + nat sz"
    using unat_of_nat_add [of "nat sz" "position fh"] p assms(2-4) by (simp add: add.commute nat_less_iff)
  have "unat (filesize fh - position fh) = unat (filesize fh) - unat (position fh)" using assms(1) by (simp add: unat_sub)
  then have "sint (filesize fh - position fh) = int (unat (filesize fh) - unat (position fh))" using sint_small [of "filesize fh - position fh"] assms(2) by simp
  then show ?thesis using assms(3) p by (auto simp: read_size_def word_less_nat_alt a min_def)
qed

text \<open>\<open>n\<close> is the number of bytes left, at most what is asked for.\<close>

lemma cdrom_read_ok:
  assumes g: "good (drive st)" "2048 \<le> length (cdvdman_fs_buf st)"
    and fh: "privdata f = Some i" "i < length (cdvdman_fdhandles st)" "cdvdman_fdhandles st ! i = fh"
    and pos: "position fh \<le> filesize fh" "unat (filesize fh) < 2 ^ 31" "filesize fh \<noteq> 0 \<longrightarrow> fits (unat (fh_lsn fh)) ((unat (filesize fh) + 2047) div 2048)"
    and sz: "0 \<le> sz" "sz < 2 ^ 31" and n: "n = min (nat sz) (unat (filesize fh) - unat (position fh))" "n \<le> length buf"
  shows "\<exists>st'. cdrom_read ops f addr buf sz st = Inr (int n, bytes_at img (2048 * unat (fh_lsn fh) + unat (position fh)) n @ drop n buf, st')
    \<and> good (drive st') \<and> length (cdvdman_fs_buf st') = length (cdvdman_fs_buf st)
    \<and> cdvdman_fdhandles st' = (cdvdman_fdhandles st)[i := fh\<lparr>position := position fh + of_nat n\<rparr>]"
proof (cases "n = 0")
  case True
  have "(cdvdman_fdhandles st)[i := fh\<lparr>position := position fh\<rparr>] = cdvdman_fdhandles st"
    using fh(3) by (metis FHANDLE.surjective FHANDLE.update_convs(4) list_update_id)
  then show ?thesis using True g fh(1,3) read_size_left [OF pos(1,2) sz] n(1) by (simp add: cdrom_read_def bytes_at_def)
next
  case False
  have p: "unat (position fh) \<le> unat (filesize fh)" using pos(1) by (simp add: word_le_nat_alt)
  have rs: "read_size fh sz = int n" using read_size_left [OF pos(1,2) sz] n(1) by simp
  have nf: "unat (position fh) + n \<le> unat (filesize fh)" using n(1) p by simp
  then have "unat (filesize fh) \<noteq> 0" using False by simp
  then have F: "fits (unat (fh_lsn fh)) ((unat (filesize fh) + 2047) div 2048)" using pos(3) by (auto simp: unat_eq_0)
  define k where "k = (unat (position fh) + n + 2047) div 2048"
  have "0 < k" "k \<le> (unat (filesize fh) + 2047) div 2048" using False nf by (simp_all add: k_def div_le_mono)
  then have "fits (unat (fh_lsn fh)) k" using fits_sectors [OF F, of 0 k] by simp
  with phases_ok [OF g(1) _ _ n(2), of "fh_lsn fh" "position fh" addr] False nf pos(2) g(2) obtain st' where
    st': "read_parts ops (fh_lsn fh) (position fh) n addr buf st = Inr (n, bytes_at img (2048 * unat (fh_lsn fh) + unat (position fh)) n @ drop n buf, st')"
    "only_read st st'" by (auto simp: k_def)
  have h: "cdvdman_fdhandles st' = cdvdman_fdhandles st" using st'(2) unfolding only_read_def by (metis cd_files.select_convs(8) cd_files.surjective cd_files.update_convs(1,2,9))
  show ?thesis using st'(1) fh False rs only_read_good [OF st'(2)]
    by (intro exI [of _ "set_handle i (fh\<lparr>position := position fh + of_nat n\<rparr>) st'"]) (simp add: cdrom_read_def Let_def set_handle_def h)
qed

subsection \<open>Opening by a path\<close>

lemma cdrom_open_ok:
  assumes g: "good (drive st)" and l: "locked st = []" and t: "tree_mounted img fits contents layer st" and p: "path_taken cs"
    and v: "skip_videos st \<Longrightarrow> 5 \<le> length (join (CHR 0x5C) cs)" and fuel: "2016 < fuel"
    and ly: "layer = (unit_no f \<noteq> 0 \<and> \<not> emu_dvddl st)" "unit_no f < 2"
    and nm: "cdrom_purifyPath filename = Inr (CHR 0x5C # join (CHR 0x5C) cs)" and slot: "getfilefreeslot (cdvdman_fdhandles st) = Some i"
  shows "\<exists>d. good d \<and> cdrom_open ops fuel f filename st =
    (case resolve_path contents layer cs st of
       None \<Rightarrow> Inr (- ENOENT, f, st\<lparr>drive := d\<rparr>)
     | Some e \<Rightarrow> Inr (0, f\<lparr>privdata := Some i, mode := O_RDONLY\<rparr>,
         set_handle i \<lparr>owner = Some (file_ptr f), fh_lsn = cdl_lsn (file_found layer cs st e), filesize = cdl_size (file_found layer cs st e), position = 0\<rparr>
           (st\<lparr>drive := d\<rparr>)))"
proof -
  obtain d where d: "cdvdman_findfile ops fuel (CHR 0x5C # join (CHR 0x5C) cs) (unit_no f) st
      = Inr (map_option (file_found layer cs st) (resolve_path contents layer cs st), st\<lparr>drive := d\<rparr>)" "good d"
    using findfile_found [OF g l t p v fuel ly(1)] by blast
  have "inited st" using t by (simp add: tree_mounted_def)
  then show ?thesis using d ly(2) slot
    by (intro exI [of _ d])
      (simp add: cdrom_open_def nm cdvdman_open_def cdvdman_init_def sceCdLayerSearchFile_def ENOENT_def set_handle_def split: option.split)
qed

end

lemma free_slot_less: "getfilefreeslot fhs = Some i \<Longrightarrow> i < length fhs"
  by (induction fhs arbitrary: i) (auto split: if_splits)

text \<open>A seek to a place in the file goes there; every other one goes to the end.\<close>

lemma seek_in_file: "\<lbrakk>0 \<le> off; off \<le> int (unat (filesize fh))\<rbrakk> \<Longrightarrow> seek_position fh off SEEK_SET = of_int off"
proof -
  assume a: "0 \<le> off" "off \<le> int (unat (filesize fh))"
  define F where "F = unat (filesize fh)"
  have F: "F < 2 ^ 32" "off \<le> int F" using a unsigned_less [of "filesize fh", where ?'a = nat] by (simp_all add: F_def)
  have "unat (of_nat (nat off) :: u32) = nat off" by (rule unat_of_nat_u32) (use F in arith)
  moreover have "(of_nat (nat off) :: u32) = of_int off" using a(1) by simp
  moreover have "\<not> F < nat off" using F by arith
  ultimately show ?thesis by (simp add: seek_position_def Let_def word_less_nat_alt F_def)
qed

lemma seek_stays: "seek_position fh off wh \<le> filesize fh"
  by (auto simp: seek_position_def Let_def not_less)

lemma seek_before: "\<lbrakk>off < 0; - (2 ^ 31) \<le> off; unat (filesize fh) < 2 ^ 31\<rbrakk> \<Longrightarrow> seek_position fh off SEEK_SET = filesize fh"
proof -
  assume a: "off < 0" "- (2 ^ 31) \<le> off" "unat (filesize fh) < 2 ^ 31"
  have "(of_int off :: u32) = of_int (off + 2 ^ 32)" by simp
  also have "\<dots> = of_nat (nat (off + 2 ^ 32))" using a by simp
  finally have "(of_int off :: u32) = of_nat (nat (off + 2 ^ 32))" .
  moreover have "unat (of_nat (nat (off + 2 ^ 32)) :: u32) = nat (off + 2 ^ 32)" by (rule unat_of_nat_u32) (use a in \<open>simp add: nat_less_iff\<close>)
  ultimately have "unat (of_int off :: u32) = nat (off + 2 ^ 32)" by (simp only:)
  then have "filesize fh < of_int off" using a by (simp add: word_less_nat_alt)
  then show ?thesis by (simp add: seek_position_def Let_def)
qed

subsection \<open>Opening, seeking and reading\<close>

context cd_drive
begin

lemma open_seek_read:
  assumes g: "good (drive st)" "2048 \<le> length (cdvdman_fs_buf st)" and l: "locked st = []" and t: "tree_mounted img fits contents layer st"
    and p: "path_taken cs" "\<not> skip_videos st" and fuel: "2016 < fuel" and ly: "layer = (unit_no f \<noteq> 0 \<and> \<not> emu_dvddl st)" "unit_no f < 2"
    and nm: "cdrom_purifyPath filename = Inr (CHR 0x5C # join (CHR 0x5C) cs)" and slot: "getfilefreeslot (cdvdman_fdhandles st) = Some i"
    and e: "resolve_path contents layer cs st = Some e" "0 < fileSize e" "fileSize e < 2 ^ 31" "start = fileLBA e + unat (layer_base layer st)"
      "fits start ((fileSize e + 2047) div 2048)"
    and off: "0 \<le> off" "off \<le> int (fileSize e)" and sz: "0 \<le> sz" "sz < 2 ^ 31" and n: "n = min (nat sz) (fileSize e - nat off)" "n \<le> length buf"
  shows "\<exists>f' st1 st2 st3. cdrom_open ops fuel f filename st = Inr (0, f', st1) \<and> cdrom_lseek f' off SEEK_SET st1 = Inr (off, st2)
    \<and> cdrom_read ops f' addr buf sz (st2\<lparr>locked := ls\<rparr>) = Inr (int n, bytes_at img (2048 * start + nat off) n @ drop n buf, st3) \<and> good (drive st3)"
proof -
  define fh where "fh = \<lparr>owner = Some (file_ptr f), fh_lsn = cdl_lsn (file_found layer cs st e), filesize = cdl_size (file_found layer cs st e), position = 0\<rparr>"
  define f' where "f' = f\<lparr>privdata := Some i, mode := O_RDONLY\<rparr>"
  obtain d where d: "cdrom_open ops fuel f filename st = Inr (0, f', set_handle i fh (st\<lparr>drive := d\<rparr>))" "good d"
    using cdrom_open_ok [OF g(1) l t p(1) _ fuel ly nm slot] p(2) e(1) by (auto simp: fh_def f'_def)
  have size: "unat (filesize fh) = fileSize e" using e(3) p(2) unat_of_nat_u32 [of "fileSize e"] by (simp add: fh_def file_found_def)
  have lsn: "unat (fh_lsn fh) = start" using fits_bound [OF e(5)] e(4) unat_of_nat_add [of "fileLBA e" "layer_base layer st"]
    by (simp add: fh_def file_found_def)
  define pos where "pos = (of_int off :: u32)"
  have "pos = of_nat (nat off)" using off(1) by (simp add: pos_def)
  then have pos: "unat pos = nat off" using unat_of_nat_u32 [of "nat off"] off e(3) by simp
  have sp: "sint pos = off" using sint_small [of pos] pos off e(3) by simp
  define fh2 where "fh2 = fh\<lparr>position := pos\<rparr>"
  define st2 where "st2 = set_handle i fh2 (set_handle i fh (st\<lparr>drive := d\<rparr>))"
  have i: "i < length (cdvdman_fdhandles st)" using slot by (rule free_slot_less)
  have seek: "cdrom_lseek f' off SEEK_SET (set_handle i fh (st\<lparr>drive := d\<rparr>)) = Inr (off, st2)"
    using i seek_in_file [of off fh] off size sp by (simp add: cdrom_lseek_def f'_def set_handle_def Let_def pos_def st2_def fh2_def)
  let ?st = "st2\<lparr>locked := ls\<rparr>"
  have "filesize fh \<noteq> 0" using size e(2) by auto
  from cdrom_read_ok [of ?st f' i fh2 sz n buf addr] obtain st3 where
    "cdrom_read ops f' addr buf sz ?st = Inr (int n, bytes_at img (2048 * start + nat off) n @ drop n buf, st3)" "good (drive st3)"
    using d(2) g(2) i size lsn pos e(3,5) off sz n by (auto simp: st2_def set_handle_def f'_def fh2_def word_le_nat_alt nat_le_iff)
  then show ?thesis using d(1) seek by blast
qed

end

text \<open>
  C35. What a game gets of a file: after opening it by its path, with or without the version, while the drive is free, and seeking to a
  place in it, a read delivers the bytes of the disc there, up to the end of the file, whatever its alignment and however often the drive is
  then in use by others.  (An open while the drive is in use finds nothing, \<open>findfile_busy\<close>.)
\<close>

theorem game_reads_file:
  assumes "bdm_good img disk extent (drive st)" "2048 \<le> length (cdvdman_fs_buf st)" "locked st = []"
    and "tree_mounted img (drive_fits extent) contents layer st" "path_taken cs" "\<not> skip_videos st" "2016 < fuel"
    and "layer = (unit_no f \<noteq> 0 \<and> \<not> emu_dvddl st)" "unit_no f < 2"
    and "cdrom_purifyPath filename = Inr (CHR 0x5C # join (CHR 0x5C) cs)" "getfilefreeslot (cdvdman_fdhandles st) = Some i"
    and "resolve_path contents layer cs st = Some e" "0 < fileSize e" "fileSize e < 2 ^ 31" "start = fileLBA e + unat (layer_base layer st)"
      "drive_fits extent start ((fileSize e + 2047) div 2048)"
    and "0 \<le> off" "off \<le> int (fileSize e)" "0 \<le> sz" "sz < 2 ^ 31" "n = min (nat sz) (fileSize e - nat off)" "n \<le> length buf"
  shows "\<exists>f' st1 st2 st3. cdrom_open (disk_ops (bdm_DeviceReadSectors defrag_image) zrd zinit disk fsi) fuel f filename st = Inr (0, f', st1)
    \<and> cdrom_lseek f' off SEEK_SET st1 = Inr (off, st2)
    \<and> cdrom_read (disk_ops (bdm_DeviceReadSectors defrag_image) zrd zinit disk fsi) f' addr buf sz (st2\<lparr>locked := ls\<rparr>)
        = Inr (int n, bytes_at img (2048 * start + nat off) n @ drop n buf, st3) \<and> bdm_good img disk extent (drive st3)"
  by (rule bdm_drive.open_seek_read [OF assms])

theorem game_reads_file_witness:
  "\<exists>f' st1 st2 st3. cdrom_open (disk_ops (bdm_DeviceReadSectors defrag_image) (bdm_DeviceReadSectors defrag_image) (\<lambda>b d. d) True (\<lambda>d. d)) 2017
        \<lparr>file_ptr = 1, unit_no = 0, mode = 0, privdata = None\<rparr> (CHR 0x5C # ''A.B'') disc_example = Inr (0, f', st1)
    \<and> cdrom_lseek f' 1000 SEEK_SET st1 = Inr (1000, st2)
    \<and> cdrom_read (disk_ops (bdm_DeviceReadSectors defrag_image) (bdm_DeviceReadSectors defrag_image) (\<lambda>b d. d) True (\<lambda>d. d)) f' 3 (replicate 5000 0) 4000
          (st2\<lparr>locked := [True, True]\<rparr>)
        = Inr (int 2000, bytes_at (plain disc_sector) (2048 * 24 + nat 1000) 2000 @ drop 2000 (replicate 5000 0), st3)
    \<and> bdm_good (plain disc_sector) True 100 (drive st3)"
proof (rule game_reads_file [OF disc_good _ _ disc_tree, where cs = "[''A.B;1'']" and e = disc_file])
  show "getfilefreeslot (cdvdman_fdhandles disc_example) = Some 0"
    by (simp add: disc_example_def MAX_FDHANDLES_def closed_handle_def eval_nat_numeral)
qed (simp_all add: disc_resolve disc_file_def path_taken_def part_ok_def plain_name_def NUL_def cdrom_purifyPath_def drive_fits_def,
  simp_all add: disc_example_def layer_base_def sceCdReadDvdDualInfo_def)

subsection \<open>Listing a directory\<close>

text \<open>The places of the records of a sector, up to the end of the list.\<close>

fun record_places :: "u8 list \<Rightarrow> nat \<Rightarrow> nat list \<Rightarrow> bool" where
  "record_places b p [] = (p + 33 \<le> length b \<and> record_length b p = 0)"
| "record_places b p (q # qs) =
     (q = p \<and> 0 < record_length b p \<and> p + 33 + unat (b ! (p + 32)) \<le> length b \<and> record_places b (p + nat (record_length b p)) qs)"

lemma record_places_bound: "record_places b p ps \<Longrightarrow> p + 33 \<le> length b"
  by (cases ps) auto

lemma next_record_ok:
  "\<lbrakk>record_places b p ps; length b = 2048; length ps < fuel\<rbrakk>
   \<Longrightarrow> case dropWhile (\<lambda>q. b ! (q + 32) = 1) ps of
         [] \<Rightarrow> \<exists>q. next_record fuel (b @ r) (of_nat p) = Inr (False, q, of_nat q) \<and> record_places b q []
       | q # qs \<Rightarrow> next_record fuel (b @ r) (of_nat p) = Inr (True, q, of_nat (q + nat (record_length b q))) \<and> record_places b q (q # qs)"
proof (induction ps arbitrary: p fuel)
  case Nil
  then obtain k where "fuel = Suc k" by (cases fuel) auto
  moreover have "unat (of_nat p :: u32) = p" using Nil.prems by (intro unat_of_nat_u32) simp
  ultimately show ?case using Nil.prems sector_parts_append(1) [of p b r] by (auto simp: Let_def)
next
  case (Cons q ps)
  then obtain k where k: "fuel = Suc k" by (cases fuel) auto
  define l where "l = record_length b p"
  have P: "q = p" "0 < l" "p + 33 + unat (b ! (p + 32)) \<le> 2048" "record_places b (p + nat l) ps" using Cons.prems(1,2) by (simp_all add: l_def)
  have u: "unat (of_nat p :: u32) = p" using P(3) by (intro unat_of_nat_u32) simp
  have sp: "record_length (b @ r) p = l" "(b @ r) ! (p + 32) = b ! (p + 32)"
    using P(3) Cons.prems(2) sector_parts_append(1) [of p b r] by (simp_all add: l_def nth_append)
  have "(of_int l :: u32) = of_nat (nat l)" using P(2) by simp
  then have nx: "(of_nat p + of_int l :: u32) = of_nat (p + nat l)" by simp
  have step: "next_record fuel (b @ r) (of_nat p) = (if b ! (p + 32) = 1 then next_record k (b @ r) (of_nat (p + nat l)) else Inr (True, p, of_nat (p + nat l)))"
    using P(2,3) Cons.prems(2) unfolding k next_record.simps Let_def u sp nx by simp
  show ?case
  proof (cases "b ! (p + 32) = 1")
    case True
    then have e: "next_record fuel (b @ r) (of_nat p) = next_record k (b @ r) (of_nat (p + nat l))" using step by (simp only: if_True refl)
    have dw: "dropWhile (\<lambda>q. b ! (q + 32) = 1) (q # ps) = dropWhile (\<lambda>q. b ! (q + 32) = 1) ps" using True P(1) by simp
    have "length ps < k" using Cons.prems(3) k by simp
    from Cons.IH [OF P(4) Cons.prems(2) this] show ?thesis unfolding dw e .
  next
    case False
    then show ?thesis using step P(1) Cons.prems(1) by (simp add: l_def)
  qed
qed

text \<open>A client that reads entries until there is none, \<open>k\<close> calls at most.\<close>

fun list_dir :: "'d drive_ops \<Rightarrow> nat \<Rightarrow> nat \<Rightarrow> iop_file \<Rightarrow> 'd cd_files \<Rightarrow> ub + iox_dirent list" where
  "list_dir ops fuel 0 f st = Inl Diverges"
| "list_dir ops fuel (Suc k) f st =
     bindR (cdrom_dread ops fuel f st) (\<lambda>(r, d, st).
       if r = 1 then bindR (list_dir ops fuel k f st) (\<lambda>ds. Inr (the d # ds)) else Inr [])"

context cd_drive
begin

lemma list_dir_ok:
  "\<lbrakk>good (drive st); locked st = []; 2048 + 288 \<le> length (cdvdman_fs_buf st); privdata f = Some i; i < length (cdvdman_fdhandles st);
     cdvdman_fdhandles st ! i = fh; position fh = of_nat p; fits (unat (fh_lsn fh)) 1; b = bytes_at img (2048 * unat (fh_lsn fh)) 2048;
     record_places b p ps; length ps < fuel; length ps < k\<rbrakk>
   \<Longrightarrow> list_dir ops fuel k f st = Inr (map (dirent_at b) (filter (\<lambda>q. b ! (q + 32) \<noteq> 1) ps))"
proof (induction "length ps" arbitrary: ps p k st fh rule: less_induct)
  case less
  obtain m where m: "k = Suc m" using less.prems(12) by (cases k) auto
  have u: "unat (1 :: u32) = 1" by simp
  define r where "r = drop 2048 (cdvdman_fs_buf st)"
  have lb: "length b = 2048" "288 \<le> length r" using less.prems(3,9) by (simp_all add: r_def)
  obtain d where d: "read_sync ops True (fh_lsn fh) 1 (cdvdman_fs_buf st) st = Inr (True, b @ r, st\<lparr>drive := d\<rparr>)" "good d"
    using read_sync_free [OF less.prems(1,2), of 1 "fh_lsn fh" "cdvdman_fs_buf st" True] less.prems(3,8,9) by (auto simp: r_def)
  define st' where "st' = (\<lambda>pos. set_handle i (fh\<lparr>position := pos\<rparr>) (st\<lparr>drive := d, cdvdman_fs_buf := b @ r\<rparr>))"
  have da: "q + 33 + unat (b ! (q + 32)) \<le> 2048 \<Longrightarrow> dirent_at (b @ r) q = dirent_at b q" for q
    using lb(1) sector_parts_append(2) [of q b r] curdir_append [of q b r] by (simp add: dirent_at_def)
  have dread: "cdrom_dread ops fuel f st = (if length (b @ r) < q + 33 + unat ((b @ r) ! (q + 32)) then Inl OutOfBounds
      else Inr (if x then 1 else 0, Some (dirent_at (b @ r) q), st' pos))"
    if "next_record fuel (b @ r) (of_nat p) = Inr (x, q, pos)" for x q pos
    using that less.prems(4,6,7) d(1) by (simp add: cdrom_dread_def Let_def st'_def)
  have nb: "unat (w :: u8) < 256" for w using unsigned_less [of w, where ?'a = nat] by simp
  define skip where "skip = (\<lambda>q. b ! (q + 32) = 1)"
  note nr = next_record_ok [OF less.prems(10) lb(1) less.prems(11), of r, folded skip_def]
  have fl: "filter (\<lambda>q. b ! (q + 32) \<noteq> 1) ps = filter (\<lambda>q. \<not> skip q) (dropWhile skip ps)"
    unfolding skip_def by (induction ps) auto
  show ?case
  proof (cases "dropWhile skip ps")
    case Nil
    then obtain q where q: "next_record fuel (b @ r) (of_nat p) = Inr (False, q, of_nat q)" "q + 33 \<le> 2048" using nr lb(1) unfolding Nil list.case by auto
    have "\<not> length (b @ r) < q + 33 + unat ((b @ r) ! (q + 32))" using q(2) lb nb [of "(b @ r) ! (q + 32)"] by simp
    moreover have "filter (\<lambda>q. b ! (q + 32) \<noteq> 1) ps = []" unfolding fl Nil by simp
    ultimately show ?thesis using dread [OF q(1)] by (simp add: m)
  next
    case (Cons q qs)
    have q: "next_record fuel (b @ r) (of_nat p) = Inr (True, q, of_nat (q + nat (record_length b q)))"
      "q + 33 + unat (b ! (q + 32)) \<le> 2048" "record_places b (q + nat (record_length b q)) qs" using nr lb(1) unfolding Cons list.case by auto
    have qr: "(b @ r) ! (q + 32) = b ! (q + 32)" using q(2) lb(1) by (simp add: nth_append)
    have c: "length qs < length ps" "\<not> skip q"
      using Cons length_dropWhile_le [of skip ps] dropWhile_eq_Cons_conv [of skip ps q qs] by auto
    define s where "s = st' (of_nat (q + nat (record_length b q)))"
    have dr: "cdrom_dread ops fuel f st = Inr (1, Some (dirent_at b q), s)"
      using dread [OF q(1)] q(2) lb qr da [OF q(2)] by (simp add: s_def)
    have s: "good (drive s)" "locked s = []" "2048 + 288 \<le> length (cdvdman_fs_buf s)" "i < length (cdvdman_fdhandles s)"
      "cdvdman_fdhandles s ! i = fh\<lparr>position := of_nat (q + nat (record_length b q))\<rparr>"
      using d(2) less.prems(2,5) lb by (simp_all add: s_def st'_def set_handle_def)
    have "list_dir ops fuel m f s = Inr (map (dirent_at b) (filter (\<lambda>q. b ! (q + 32) \<noteq> 1) qs))"
      using less.hyps [OF c(1) s(1-3) less.prems(4) s(4,5) _ _ _ q(3)] less.prems(8,9,11,12) c(1) m by simp
    then show ?thesis using dr Cons c(2) fl by (simp add: m skip_def)
  qed
qed

end

text \<open>
  Listing a directory of the disc from its start gives the records of its first sector in order, without those whose names have one
  character, and ends: files in later sectors and files or directories with a name of one letter are never listed.
\<close>

theorem directory_listed:
  assumes "bdm_good img disk extent (drive st)" "locked st = []" "2048 + 288 \<le> length (cdvdman_fs_buf st)"
    and "privdata f = Some i" "i < length (cdvdman_fdhandles st)" "cdvdman_fdhandles st ! i = fh" "position fh = 0"
    and "drive_fits extent (unat (fh_lsn fh)) 1" "b = bytes_at img (2048 * unat (fh_lsn fh)) 2048" "record_places b 0 ps"
    and "length ps < fuel" "length ps < k"
  shows "list_dir (disk_ops (bdm_DeviceReadSectors defrag_image) zrd zinit disk fsi) fuel k f st
      = Inr (map (dirent_at b) (filter (\<lambda>p. b ! (p + 32) \<noteq> 1) ps))"
  using bdm_drive.list_dir_ok [OF assms(1-6) _ assms(8-12), of zrd zinit fsi] assms(7) by simp

theorem directory_listed_witness:
  "list_dir (disk_ops (bdm_DeviceReadSectors defrag_image) (bdm_DeviceReadSectors defrag_image) (\<lambda>b d. d) True (\<lambda>d. d)) 9 9
      \<lparr>file_ptr = 1, unit_no = 0, mode = 8, privdata = Some 0\<rparr>
      (set_handle 0 \<lparr>owner = Some 1, fh_lsn = 22, filesize = 2048, position = 0\<rparr> disc_example)
    = Inr (map (dirent_at disc_dir) (filter (\<lambda>p. disc_dir ! (p + 32) \<noteq> 1) [0]))"
proof (rule directory_listed [where i = 0 and ps = "[0]" and b = disc_dir])
  show "disc_dir = bytes_at (plain disc_sector) (2048 * unat (fh_lsn \<lparr>owner = Some 1, fh_lsn = 22, filesize = 2048, position = 0\<rparr>)) 2048"
    using plain_sector [of disc_sector 22] by (simp add: disc_sector_def disc_dir_def)
  show "record_places disc_dir 0 [0]" by (simp add: disc_dir_def record_length_def nth_append)
  show "bdm_good (plain disc_sector) True 100 (drive (set_handle 0 \<lparr>owner = Some 1, fh_lsn = 22, filesize = 2048, position = 0\<rparr> disc_example))"
    using disc_good by (simp add: set_handle_def)
qed (simp_all add: set_handle_def disc_example_def MAX_FDHANDLES_def drive_fits_def)

end
