(* ===== verification/Hdd.thy ===== *)
theory Hdd
  imports DirToc
begin

text \<open>
  Games on the partitions of a hard disk (\<open>src/src/hdd.c\<close>, with the list and its cache in \<open>src/src/hddsupport.c\<close>): collecting the
  partitions of each game, reading and changing the header of a game, and the file that keeps the list between starts.  The
  sectors and the entries of the disk come from its driver, which is a parameter; a list of the heap is an Isabelle list.
\<close>

subsection \<open>Data\<close>

definition APA_IDMAX :: nat where "APA_IDMAX = 32"
definition HDL_GAME_NAME_MAX :: nat where "HDL_GAME_NAME_MAX = 64"
definition HDL_FS_MAGIC :: u32 where "HDL_FS_MAGIC = 0x1337"
definition APA_FLAG_SUB :: u32 where "APA_FLAG_SUB = 1"
definition HDL_GAME_DATA_OFFSET :: u32 where "HDL_GAME_DATA_OFFSET = 0x100000"

record hdl_game_info =
  partition_name :: string
  game_name :: string
  game_startup :: string
  hdl_compat_flags :: u8
  ops2l_compat_flags :: u8
  dma_type :: u8
  dma_mode :: u8
  disctype :: u8
  layer_break :: u32
  start_sector :: u32
  total_size_in_kb :: u32

record hdl_games_list =
  games_count :: nat
  games :: "hdl_game_info list option"

text \<open>An entry of the directory of partitions: name, and what the code reads of its state.\<close>

record partition_dirent =
  d_name :: string
  d_mode :: u32
  d_attr :: u32
  d_private_5 :: u32
  d_size :: u32

record GameDataEntry =
  g_lba :: u32
  g_size :: u32
  g_id :: string

subsection \<open>The header of a game\<close>

text \<open>
  The two sectors of the header: name (160 bytes) at 8, flags and transfer mode at 168, start-up file (60) at 172, second layer at 232,
  type of the disc at 236.
\<close>

definition text_at :: "u8 list \<Rightarrow> nat \<Rightarrow> nat \<Rightarrow> string" where
  "text_at b i n = map (\<lambda>c. char_of (unat c)) (takeWhile (\<lambda>c. c \<noteq> 0) (take n (drop i b)))"

definition hddGetHDLGameInfo :: "(u32 \<Rightarrow> u8 list option) \<Rightarrow> GameDataEntry \<Rightarrow> int \<times> hdl_game_info option" where
  "hddGetHDLGameInfo hddReadSectors game =
     (case hddReadSectors (g_lba game) of
        None \<Rightarrow> (- 1, None)
      | Some b \<Rightarrow> (0, Some \<lparr>partition_name = take APA_IDMAX (g_id game), game_name = text_at b 8 HDL_GAME_NAME_MAX, game_startup = text_at b 172 12,
          hdl_compat_flags = b ! 168, ops2l_compat_flags = b ! 169, dma_type = b ! 170, dma_mode = b ! 171, disctype = b ! 236,
          layer_break = of_nat (u32_at b 232), start_sector = g_lba game, total_size_in_kb = g_size game * 2\<rparr>))"

definition new_header :: "hdl_game_info \<Rightarrow> u8 list \<Rightarrow> u8 list" where
  "new_header ginfo b =
     (let n = map of_char (game_name ginfo); b = write_at b 8 (take 159 (n @ replicate (160 - length n) 0) @ [0])
      in b[169 := ops2l_compat_flags ginfo, 170 := dma_type ginfo, 171 := dma_mode ginfo])"

text \<open>
  The disk gives the two sectors from each address on; reading and writing can fail.  A write changes what is read at its own address only:
  the headers of two partitions are at least 128 megabytes apart, so reads that overlap without being equal do not arise.
\<close>

definition hddSetHDLGameInfo :: "(u32 \<Rightarrow> u8 list option) \<Rightarrow> (u32 \<Rightarrow> bool) \<Rightarrow> hdl_game_info \<Rightarrow> int \<times> (u32 \<Rightarrow> u8 list option)" where
  "hddSetHDLGameInfo disk write_ok ginfo =
     (case disk (start_sector ginfo) of
        None \<Rightarrow> (- 5, disk)
      | Some b \<Rightarrow> if write_ok (start_sector ginfo) then (0, disk(start_sector ginfo := Some (new_header ginfo b))) else (- 5, disk))"

subsection \<open>The list of games\<close>

fun GetGameListRecord :: "GameDataEntry list \<Rightarrow> string \<Rightarrow> nat option" where
  "GetGameListRecord [] nm = None"
| "GetGameListRecord (e # es) nm = (if strncmp_eq APA_IDMAX (g_id e) nm then Some 0 else map_option Suc (GetGameListRecord es nm))"

text \<open>What a partition adds to the record of its game.\<close>

definition add_partition :: "partition_dirent \<Rightarrow> GameDataEntry \<Rightarrow> GameDataEntry" where
  "add_partition d e =
     (let e = (if d_attr d AND APA_FLAG_SUB = 0 then e\<lparr>g_lba := d_private_5 d + (HDL_GAME_DATA_OFFSET + 4096) div 512\<rparr> else e)
      in e\<lparr>g_size := g_size e + d_size d div 4\<rparr>)"

text \<open>\<open>malloc_ok\<close> tells of the n-th record whether there is memory for it; the scan ends where there is none.\<close>

fun scan_partitions :: "(nat \<Rightarrow> bool) \<Rightarrow> GameDataEntry list \<Rightarrow> partition_dirent list \<Rightarrow> GameDataEntry list" where
  "scan_partitions malloc_ok es [] = es"
| "scan_partitions malloc_ok es (d # ds) =
     (if d_mode d = HDL_FS_MAGIC
      then case GetGameListRecord es (d_name d) of
             Some i \<Rightarrow> scan_partitions malloc_ok (es[i := add_partition d (es ! i)]) ds
           | None \<Rightarrow>
               if malloc_ok (length es)
               then scan_partitions malloc_ok (es @ [add_partition d \<lparr>g_lba = 0, g_size = 0, g_id = take APA_IDMAX (d_name d)\<rparr>]) ds
               else es
      else scan_partitions malloc_ok es ds)"

text \<open>The first header that cannot be read ends the loop.\<close>

fun read_games :: "(u32 \<Rightarrow> u8 list option) \<Rightarrow> GameDataEntry list \<Rightarrow> int \<times> hdl_game_info list" where
  "read_games disk [] = (0, [])"
| "read_games disk (e # es) =
     (case hddGetHDLGameInfo disk e of
        (r, Some g) \<Rightarrow> (let (r, gs) = read_games disk es in (r, g # gs))
      | (r, None) \<Rightarrow> (r, []))"

definition hddFreeHDLGamelist :: "hdl_games_list \<Rightarrow> hdl_games_list" where
  "hddFreeHDLGamelist l = (if games l \<noteq> None then \<lparr>games_count = 0, games = None\<rparr> else l)"

text \<open>\<open>fd\<close> is the result of opening the directory; its entries follow, and whether there is memory for records and games.\<close>

definition hddGetHDLGamelist ::
  "(u32 \<Rightarrow> u8 list option) \<Rightarrow> int \<Rightarrow> partition_dirent list \<Rightarrow> (nat \<Rightarrow> bool) \<Rightarrow> bool \<Rightarrow> hdl_games_list \<Rightarrow> int \<times> hdl_games_list" where
  "hddGetHDLGamelist disk fd ds malloc_ok games_ok l =
     (let l = hddFreeHDLGamelist l
      in if 0 \<le> fd
         then let es = scan_partitions malloc_ok [] ds
              in if es \<noteq> []
                 then if games_ok
                      then let (r, gs) = read_games disk es
                           in if r \<noteq> 0 then (r, l\<lparr>games := None\<rparr>) else (0, l\<lparr>games := Some gs, games_count := length es\<rparr>)
                      else (12, l\<lparr>games := None\<rparr>)
                 else (0, l)
         else (fd, l))"

subsection \<open>The file that keeps the list\<close>

text \<open>\<open>games_bin\<close> is the file: the records it holds.\<close>

definition hddLoadGameListCache :: "bool \<Rightarrow> hdl_game_info list option \<Rightarrow> bool \<Rightarrow> bool \<Rightarrow> hdl_games_list \<Rightarrow> int \<times> hdl_games_list" where
  "hddLoadGameListCache gHDDGameListCache games_bin memalign_ok fread_ok cache =
     (if \<not> gHDDGameListCache then (1, cache)
      else let cache = hddFreeHDLGamelist cache
           in case games_bin of
                None \<Rightarrow> (2, cache)
              | Some gs \<Rightarrow>
                  if gs \<noteq> []
                  then if memalign_ok then (if fread_ok then (0, cache\<lparr>games_count := length gs, games := Some gs\<rparr>) else (5, cache)) else (12, cache)
                  else (- 1, cache))"

definition same_partition :: "hdl_game_info \<Rightarrow> hdl_game_info \<Rightarrow> bool" where
  "same_partition g h = strncmp_eq (APA_IDMAX + 1) (partition_name g) (partition_name h)"

definition list_modified :: "hdl_games_list \<Rightarrow> hdl_games_list \<Rightarrow> bool" where
  "list_modified cache game_list =
     (if 0 < games_count cache
      then (\<exists>g \<in> set (the (games cache)). \<forall>h \<in> set (case games game_list of None \<Rightarrow> [] | Some hs \<Rightarrow> hs). \<not> same_partition g h)
        \<or> games_count game_list \<noteq> games_count cache
      else 0 < games_count game_list)"

text \<open>\<open>written\<close> is the number of records that can be written.\<close>

definition hddUpdateGameListCache :: "bool \<Rightarrow> bool \<Rightarrow> nat \<Rightarrow> hdl_games_list \<Rightarrow> hdl_games_list \<Rightarrow> hdl_game_info list option
    \<Rightarrow> int \<times> hdl_game_info list option" where
  "hddUpdateGameListCache gHDDGameListCache fopen_ok written cache game_list games_bin =
     (if \<not> gHDDGameListCache then (1, games_bin)
      else if \<not> list_modified cache game_list then (0, games_bin)
      else if 0 < games_count game_list
      then if fopen_ok
           then (if games_count game_list \<le> written then 0 else 5, map_option (take (min written (games_count game_list))) (games game_list))
           else (5, games_bin)
      else (0, None))"

subsection \<open>The list of the menu\<close>

text \<open>The globals of \<open>hddsupport.c\<close>, the option to keep the list, and what is on the disk: the file, the headers and the partitions.\<close>

record hdd_support =
  hddGames :: hdl_games_list
  hddForceUpdate :: bool
  gHDDGameListCache :: bool
  games_file :: "hdl_game_info list option"
  hdd_disk :: "u32 \<Rightarrow> u8 list option"
  hdd0 :: "partition_dirent list"

text \<open>Files, memory and the directory of partitions are at hand.\<close>

definition hddUpdateGameList :: "hdd_support \<Rightarrow> nat \<times> hdd_support" where
  "hddUpdateGameList st =
     (let (ret, cached) = hddLoadGameListCache (gHDDGameListCache st) (games_file st) True True (hddGames st);
          st = st\<lparr>hddGames := cached\<rparr>
      in if ret \<noteq> 0 \<or> hddForceUpdate st
         then let (ret, new) = hddGetHDLGamelist (hdd_disk st) 0 (hdd0 st) (\<lambda>n. True) True \<lparr>games_count = 0, games = None\<rparr>
              in if ret = 0
                 then let st = st\<lparr>games_file := snd (hddUpdateGameListCache (gHDDGameListCache st) True (games_count new) (hddGames st) new (games_file st)),
                            hddGames := new, hddForceUpdate := True\<rparr>
                      in (games_count (hddGames st), st)
                 else (0, st\<lparr>hddForceUpdate := True\<rparr>)
         else (games_count (hddGames st), st\<lparr>hddForceUpdate := True\<rparr>))"

definition hddRenameGame :: "nat \<Rightarrow> string \<Rightarrow> hdd_support \<Rightarrow> ub + hdd_support" where
  "hddRenameGame i newName st =
     (case games (hddGames st) of
        None \<Rightarrow> Inl NullPointer
      | Some gs \<Rightarrow>
          if length gs \<le> i then Inl OutOfBounds
          else let g = (gs ! i)\<lparr>game_name := take HDL_GAME_NAME_MAX newName\<rparr>
               in Inr (st\<lparr>hddGames := (hddGames st)\<lparr>games := Some (gs[i := g])\<rparr>, hdd_disk := snd (hddSetHDLGameInfo (hdd_disk st) (\<lambda>n. True) g),
                    hddForceUpdate := True\<rparr>))"

subsection \<open>A changed header\<close>

lemma unat_of_char: "unat (of_char c :: u8) = of_char c"
  using of_char_of [where 'a = nat] by (simp add: of_char_def)

lemma char_byte [simp]: "char_of (unat (of_char c :: u8)) = c"
  by (simp add: unat_of_char)

lemma text_in:
  assumes "NUL \<notin> set s" "length s \<le> n" "drop i b = map of_char s @ replicate k 0 @ r" "n - length s \<le> k"
  shows "text_at b i n = s"
proof -
  have "takeWhile (\<lambda>c. c \<noteq> 0) (map of_char s @ replicate m (0 :: u8)) = map of_char s" for m
  proof -
    have "(0 :: u8) \<notin> set (map of_char s)" using assms(1) of_char_0 by fastforce
    then show ?thesis using takeWhile_neq_append_Cons [of 0 "map of_char s"] takeWhile_neq_none [of 0 "map of_char s"] by (cases m) simp_all
  qed
  moreover have "take n (drop i b) = map of_char s @ replicate (n - length s) 0" using assms by (simp add: min_def)
  ultimately show ?thesis by (simp add: text_at_def comp_def)
qed

lemma new_header_parts:
  assumes "length b = 1024" "NUL \<notin> set (game_name g)" "length (game_name g) \<le> 64"
  shows "text_at (new_header g b) 8 64 = game_name g" "new_header g b ! 169 = ops2l_compat_flags g" "new_header g b ! 170 = dma_type g"
    "new_header g b ! 171 = dma_mode g" "length (new_header g b) = 1024" "new_header g b ! 168 = b ! 168" "drop 172 (new_header g b) = drop 172 b"
proof -
  define n where "n = (map of_char (game_name g) :: u8 list)"
  define w where "w = write_at b 8 (take 159 (n @ replicate (160 - length n) 0) @ [0])"
  have n: "length n \<le> 64" using assms(3) by (simp add: n_def)
  have h: "new_header g b = w[169 := ops2l_compat_flags g, 170 := dma_type g, 171 := dma_mode g]" by (simp add: new_header_def w_def n_def Let_def)
  have t: "take 159 (n @ replicate (160 - length n) 0) = n @ replicate (159 - length n) 0" using n by simp
  have lw: "length w = 1024" using assms(1) n by (simp add: w_def t)
  have w: "w = take 8 b @ n @ replicate (160 - length n) 0 @ drop 168 b"
  proof -
    have "160 - length n = Suc (159 - length n)" using n by simp
    then have "replicate (159 - length n) 0 @ [0] = (replicate (160 - length n) 0 :: u8 list)" by (simp add: replicate_append_same)
    then show ?thesis using n assms(1) by (simp add: w_def write_at_def t)
  qed
  show "new_header g b ! 169 = ops2l_compat_flags g" "new_header g b ! 170 = dma_type g" "new_header g b ! 171 = dma_mode g"
    "length (new_header g b) = 1024" using lw by (simp_all add: h)
  show "new_header g b ! 168 = b ! 168" using n assms(1) by (simp add: h w nth_append)
  show "drop 172 (new_header g b) = drop 172 b" using n assms(1) by (simp add: h w drop_update_cancel)
  have "drop 8 (new_header g b) = (drop 8 w)[161 := ops2l_compat_flags g, 162 := dma_type g, 163 := dma_mode g]" by (simp add: h drop_update_swap)
  also have "\<dots> = n @ replicate (160 - length n) 0 @ (drop 168 b)[1 := ops2l_compat_flags g, 2 := dma_type g, 3 := dma_mode g]"
    using n assms(1) by (simp add: w list_update_append)
  finally show "text_at (new_header g b) 8 64 = game_name g"
    using n assms(2,3) by (intro text_in [where k = "160 - length n"]) (auto simp: n_def)
qed

text \<open>What is read of a header that has been changed: the new name, the rest as it was.\<close>

lemma header_reread:
  assumes "disk (g_lba e) = Some b" "length b = 1024" "NUL \<notin> set (game_name g)" "length (game_name g) \<le> 64"
    and "hddGetHDLGameInfo disk e = (0, Some g')" "g = g'\<lparr>game_name := nm\<rparr>"
  shows "hddSetHDLGameInfo disk (\<lambda>n. True) g = (0, disk(g_lba e := Some (new_header g b)))"
    "hddGetHDLGameInfo (disk(g_lba e := Some (new_header g b))) e = (0, Some g)"
proof -
  note P = new_header_parts [OF assms(2-4)]
  have g': "g' = \<lparr>partition_name = take APA_IDMAX (g_id e), game_name = text_at b 8 HDL_GAME_NAME_MAX, game_startup = text_at b 172 12,
      hdl_compat_flags = b ! 168, ops2l_compat_flags = b ! 169, dma_type = b ! 170, dma_mode = b ! 171, disctype = b ! 236,
      layer_break = of_nat (u32_at b 232), start_sector = g_lba e, total_size_in_kb = g_size e * 2\<rparr>"
    using assms(1,5) by (simp add: hddGetHDLGameInfo_def)
  have nth: "new_header g b ! (172 + k) = b ! (172 + k)" for k
    using nth_drop [of 172 "new_header g b" k] nth_drop [of 172 b k] P(5,7) assms(2) by simp
  show "hddSetHDLGameInfo disk (\<lambda>n. True) g = (0, disk(g_lba e := Some (new_header g b)))"
    using assms(1,6) g' by (simp add: hddSetHDLGameInfo_def)
  have t: "text_at (new_header g b) 172 12 = text_at b 172 12" by (simp add: text_at_def P(7))
  have u: "u32_at (new_header g b) 232 = u32_at b 232" "new_header g b ! 236 = b ! 236"
    using nth [of 60] nth [of 61] nth [of 62] nth [of 63] nth [of 64] by (simp_all add: u32_at_def)
  define nb where "nb = new_header g b"
  have f: "game_name g = nm" "ops2l_compat_flags g = b ! 169" "dma_type g = b ! 170" "dma_mode g = b ! 171" using assms(6) g' by simp_all
  note N = P(1-4,6) [unfolded f, folded nb_def] t [folded nb_def] u [folded nb_def]
  show "hddGetHDLGameInfo (disk(g_lba e := Some (new_header g b))) e = (0, Some g)"
    unfolding nb_def [symmetric] using N assms(6) g' by (simp add: hddGetHDLGameInfo_def HDL_GAME_NAME_MAX_def)
qed

subsection \<open>Which games there are\<close>

text \<open>The names of the games, in the order in which their first partitions are met.\<close>

definition new_name :: "string list \<Rightarrow> string \<Rightarrow> string list" where
  "new_name ids nm = (if nm \<in> set ids then ids else ids @ [nm])"

definition hdl_parts :: "partition_dirent list \<Rightarrow> partition_dirent list" where
  "hdl_parts ds = filter (\<lambda>d. d_mode d = HDL_FS_MAGIC) ds"

definition game_ids :: "partition_dirent list \<Rightarrow> string list" where
  "game_ids ds = foldl new_name [] (map d_name (hdl_parts ds))"

text \<open>The partitions of a game; its header is behind the beginning of its last main partition, its size the sum of all.\<close>

definition parts_of :: "string \<Rightarrow> partition_dirent list \<Rightarrow> partition_dirent list" where
  "parts_of nm ds = filter (\<lambda>d. d_name d = nm) (hdl_parts ds)"

definition game_record :: "partition_dirent list \<Rightarrow> string \<Rightarrow> GameDataEntry" where
  "game_record ds nm =
     \<lparr>g_lba = (let ms = filter (\<lambda>d. d_attr d AND APA_FLAG_SUB = 0) (parts_of nm ds)
               in if ms = [] then 0 else d_private_5 (last ms) + (HDL_GAME_DATA_OFFSET + 4096) div 512),
      g_size = sum_list (map (\<lambda>d. d_size d div 4) (parts_of nm ds)), g_id = nm\<rparr>"

lemma game_ids_snoc: "game_ids (ds @ [d]) = (if d_mode d = HDL_FS_MAGIC then new_name (game_ids ds) (d_name d) else game_ids ds)"
  by (simp add: game_ids_def hdl_parts_def)

lemma foldl_names: "distinct ids \<Longrightarrow> distinct (foldl new_name ids xs) \<and> set (foldl new_name ids xs) = set ids \<union> set xs"
  by (induction xs arbitrary: ids) (auto simp: new_name_def)

lemma game_ids_set: "distinct (game_ids ds)" "set (game_ids ds) = d_name ` set (hdl_parts ds)"
  using foldl_names [of "[]" "map d_name (hdl_parts ds)"] by (simp_all add: game_ids_def)

lemma game_record_other: "nm \<noteq> d_name d \<or> d_mode d \<noteq> HDL_FS_MAGIC \<Longrightarrow> game_record (ds @ [d]) nm = game_record ds nm"
  by (auto simp: game_record_def parts_of_def hdl_parts_def)

lemma game_record_part: "d_mode d = HDL_FS_MAGIC \<Longrightarrow> game_record (ds @ [d]) (d_name d) = add_partition d (game_record ds (d_name d))"
  by (simp add: game_record_def add_partition_def parts_of_def hdl_parts_def Let_def)

lemma game_record_none: "nm \<notin> set (game_ids ds) \<Longrightarrow> game_record ds nm = \<lparr>g_lba = 0, g_size = 0, g_id = nm\<rparr>"
proof -
  assume "nm \<notin> set (game_ids ds)"
  then have "parts_of nm ds = []" by (auto simp: game_ids_set parts_of_def filter_empty_conv)
  then show ?thesis by (simp add: game_record_def)
qed

lemma GetGameListRecord_ids:
  "\<lbrakk>\<forall>x \<in> set ids. length x \<le> 32; length nm \<le> 32\<rbrakk>
   \<Longrightarrow> case GetGameListRecord (map (game_record ds) ids) nm of None \<Rightarrow> nm \<notin> set ids | Some i \<Rightarrow> i < length ids \<and> ids ! i = nm"
  by (induction ids) (auto simp: game_record_def strncmp_eq_def APA_IDMAX_def split: option.splits)

lemma map_update_one:
  "\<lbrakk>distinct ids; i < length ids; \<And>x. x \<noteq> ids ! i \<Longrightarrow> g x = f x\<rbrakk> \<Longrightarrow> (map f ids)[i := g (ids ! i)] = map g ids"
  by (intro nth_equalityI) (auto simp: nth_list_update nth_eq_iff_index_eq)

lemma scan_partitions_records:
  "\<forall>d \<in> set (pre @ ds). length (d_name d) \<le> 32
   \<Longrightarrow> scan_partitions (\<lambda>n. True) (map (game_record pre) (game_ids pre)) ds = map (game_record (pre @ ds)) (game_ids (pre @ ds))"
proof (induction ds arbitrary: pre)
  case (Cons d ds)
  have IH: "scan_partitions (\<lambda>n. True) (map (game_record (pre @ [d])) (game_ids (pre @ [d]))) ds = map (game_record (pre @ d # ds)) (game_ids (pre @ d # ds))"
    using Cons.IH [of "pre @ [d]"] Cons.prems by simp
  show ?case
  proof (cases "d_mode d = HDL_FS_MAGIC")
    case False
    then have "map (game_record (pre @ [d])) (game_ids (pre @ [d])) = map (game_record pre) (game_ids pre)"
      by (simp add: game_ids_snoc game_record_other)
    then show ?thesis using IH False by simp
  next
    case True
    have "\<forall>x \<in> set (game_ids pre). length x \<le> 32" "length (d_name d) \<le> 32" using Cons.prems by (auto simp: game_ids_set hdl_parts_def)
    note G = GetGameListRecord_ids [OF this, of pre]
    show ?thesis
    proof (cases "GetGameListRecord (map (game_record pre) (game_ids pre)) (d_name d)")
      case None
      then have n: "d_name d \<notin> set (game_ids pre)" using G by simp
      have a: "add_partition d \<lparr>g_lba = 0, g_size = 0, g_id = take APA_IDMAX (d_name d)\<rparr> = game_record (pre @ [d]) (d_name d)"
        using game_record_part [OF True, of pre] game_record_none [OF n] Cons.prems by (simp add: APA_IDMAX_def)
      have m: "map (game_record pre) (game_ids pre) = map (game_record (pre @ [d])) (game_ids pre)"
        using n by (intro map_cong refl) (metis game_record_other)
      have "scan_partitions (\<lambda>n. True) (map (game_record pre) (game_ids pre)) (d # ds)
          = scan_partitions (\<lambda>n. True) (map (game_record pre) (game_ids pre) @ [game_record (pre @ [d]) (d_name d)]) ds"
        using None True by (simp add: a)
      also have "\<dots> = scan_partitions (\<lambda>n. True) (map (game_record (pre @ [d])) (game_ids (pre @ [d]))) ds"
        unfolding m using True n by (simp add: game_ids_snoc new_name_def)
      finally show ?thesis using IH by simp
    next
      case (Some i)
      then have i: "i < length (game_ids pre)" "game_ids pre ! i = d_name d" using G by simp_all
      have "(map (game_record pre) (game_ids pre))[i := game_record (pre @ [d]) (game_ids pre ! i)] = map (game_record (pre @ [d])) (game_ids pre)"
        using i by (intro map_update_one game_ids_set) (simp_all add: game_record_other)
      moreover have "d_name d \<in> set (game_ids pre)" using i by (metis nth_mem)
      ultimately show ?thesis using IH Some True i game_record_part [OF True, of pre] by (simp add: game_ids_snoc new_name_def)
    qed
  qed
qed simp

definition game_of :: "(u32 \<Rightarrow> u8 list option) \<Rightarrow> GameDataEntry \<Rightarrow> hdl_game_info" where
  "game_of rd e = the (snd (hddGetHDLGameInfo rd e))"

lemma read_games_all: "\<forall>e \<in> set es. rd (g_lba e) \<noteq> None \<Longrightarrow> read_games rd es = (0, map (game_of rd) es)"
  by (induction es) (auto simp: hddGetHDLGameInfo_def game_of_def)

text \<open>
  C37. The list of games of a hard disk: one for each name of an HDLoader partition, in the order in which the names are first met, with the header
  behind its main partition and the sum of the sizes of all its partitions, as long as every header can be read.
\<close>

theorem hdl_games_listed:
  assumes "\<forall>d \<in> set ds. length (d_name d) \<le> 32" "\<forall>nm \<in> set (game_ids ds). rd (g_lba (game_record ds nm)) \<noteq> None" "hdl_parts ds \<noteq> []"
  shows "hddGetHDLGamelist rd 0 ds (\<lambda>n. True) True l
    = (0, \<lparr>games_count = length (game_ids ds), games = Some (map (\<lambda>nm. game_of rd (game_record ds nm)) (game_ids ds))\<rparr>)"
proof -
  have "scan_partitions (\<lambda>n. True) [] ds = map (game_record ds) (game_ids ds)"
    using scan_partitions_records [of "[]" ds] assms(1) by (simp add: game_ids_def hdl_parts_def)
  moreover have "game_ids ds \<noteq> []" using assms(3) game_ids_set(2) [of ds] by force
  moreover have "read_games rd (map (game_record ds) (game_ids ds)) = (0, map (\<lambda>nm. game_of rd (game_record ds nm)) (game_ids ds))"
    using read_games_all [of "map (game_record ds) (game_ids ds)" rd] assms(2) by (simp add: comp_def)
  ultimately show ?thesis by (simp add: hddGetHDLGamelist_def Let_def hddFreeHDLGamelist_def)
qed

definition disk_example :: "partition_dirent list" where
  "disk_example = [\<lparr>d_name = ''__mbr'', d_mode = 1, d_attr = 0, d_private_5 = 0, d_size = 262144\<rparr>,
     \<lparr>d_name = ''PP.HDL.B'', d_mode = 0x1337, d_attr = 0, d_private_5 = 262144, d_size = 400\<rparr>,
     \<lparr>d_name = ''PP.HDL.A'', d_mode = 0x1337, d_attr = 0, d_private_5 = 524288, d_size = 800\<rparr>,
     \<lparr>d_name = ''PP.HDL.B'', d_mode = 0x1337, d_attr = 1, d_private_5 = 786432, d_size = 200\<rparr>]"

theorem hdl_games_listed_witness:
  "hddGetHDLGamelist (\<lambda>n. Some (replicate 1024 65)) 0 disk_example (\<lambda>n. True) True \<lparr>games_count = 0, games = None\<rparr>
    = (0, \<lparr>games_count = length (game_ids disk_example),
        games = Some (map (\<lambda>nm. game_of (\<lambda>n. Some (replicate 1024 65)) (game_record disk_example nm)) (game_ids disk_example))\<rparr>)
   \<and> map (\<lambda>nm. g_size (game_record disk_example nm)) (game_ids disk_example) = [150, 200]"
proof
  show "hddGetHDLGamelist (\<lambda>n. Some (replicate 1024 65)) 0 disk_example (\<lambda>n. True) True \<lparr>games_count = 0, games = None\<rparr>
    = (0, \<lparr>games_count = length (game_ids disk_example),
        games = Some (map (\<lambda>nm. game_of (\<lambda>n. Some (replicate 1024 65)) (game_record disk_example nm)) (game_ids disk_example))\<rparr>)"
    by (rule hdl_games_listed) (simp_all add: disk_example_def hdl_parts_def HDL_FS_MAGIC_def)
qed (simp add: game_ids_def hdl_parts_def new_name_def game_record_def parts_of_def disk_example_def HDL_FS_MAGIC_def)

subsection \<open>A game that is renamed\<close>

definition listed :: "(u32 \<Rightarrow> u8 list option) \<Rightarrow> partition_dirent list \<Rightarrow> hdl_game_info list" where
  "listed rd ds = map (\<lambda>nm. game_of rd (game_record ds nm)) (game_ids ds)"

text \<open>A disk whose games can be read, with headers of their own.\<close>

definition hdl_disk :: "(u32 \<Rightarrow> u8 list option) \<Rightarrow> partition_dirent list \<Rightarrow> bool" where
  "hdl_disk rd ds =
     ((\<forall>d \<in> set ds. length (d_name d) \<le> 32) \<and> hdl_parts ds \<noteq> []
      \<and> (\<forall>nm \<in> set (game_ids ds). \<exists>b. rd (g_lba (game_record ds nm)) = Some b \<and> length b = 1024)
      \<and> inj_on (\<lambda>nm. g_lba (game_record ds nm)) (set (game_ids ds)))"

lemma hdl_disk_scan: "hdl_disk rd ds \<Longrightarrow> hddGetHDLGamelist rd 0 ds (\<lambda>n. True) True l = (0, \<lparr>games_count = length (listed rd ds), games = Some (listed rd ds)\<rparr>)"
proof -
  assume d: "hdl_disk rd ds"
  have "scan_partitions (\<lambda>n. True) [] ds = map (game_record ds) (game_ids ds)"
    using scan_partitions_records [of "[]" ds] d by (simp add: hdl_disk_def game_ids_def hdl_parts_def)
  moreover have "game_ids ds \<noteq> []" using d game_ids_set(2) [of ds] by (force simp: hdl_disk_def)
  moreover have "read_games rd (map (game_record ds) (game_ids ds)) = (0, listed rd ds)"
    using read_games_all [of "map (game_record ds) (game_ids ds)" rd] d by (auto simp: listed_def comp_def hdl_disk_def)
  ultimately show ?thesis by (simp add: hddGetHDLGamelist_def Let_def hddFreeHDLGamelist_def listed_def)
qed

text \<open>The list after a header has been changed.\<close>

lemma listed_renamed:
  assumes d: "hdl_disk rd ds" and i: "i < length (listed rd ds)" and nm: "NUL \<notin> set nm" "length nm \<le> 64" and g: "g = (listed rd ds ! i)\<lparr>game_name := nm\<rparr>"
  shows "hdl_disk (snd (hddSetHDLGameInfo rd (\<lambda>n. True) g)) ds"
    "listed (snd (hddSetHDLGameInfo rd (\<lambda>n. True) g)) ds = (listed rd ds)[i := g]"
proof -
  define x where "x = game_ids ds ! i"
  define e where "e = game_record ds x"
  have ix: "i < length (game_ids ds)" "x \<in> set (game_ids ds)" using i by (simp_all add: listed_def x_def)
  obtain b where b: "rd (g_lba e) = Some b" "length b = 1024" using d ix(2) by (auto simp: hdl_disk_def e_def)
  have g': "listed rd ds ! i = game_of rd e" using ix(1) by (simp add: listed_def e_def x_def)
  have r: "hddGetHDLGameInfo rd e = (0, Some (game_of rd e))" using b by (simp add: game_of_def hddGetHDLGameInfo_def)
  have gn: "NUL \<notin> set (game_name g)" "length (game_name g) \<le> 64" using nm g by simp_all
  note H = header_reread [OF b gn r, of nm]
  define rd' where "rd' = rd(g_lba e := Some (new_header g b))"
  have s: "snd (hddSetHDLGameInfo rd (\<lambda>n. True) g) = rd'" using H(1) g g' by (simp add: rd'_def)
  show "hdl_disk (snd (hddSetHDLGameInfo rd (\<lambda>n. True) g)) ds"
    using d new_header_parts(5) [OF b(2) gn] unfolding s by (auto simp: hdl_disk_def rd'_def)
  have "game_of rd' e = g" using H(2) g g' by (simp add: rd'_def game_of_def)
  moreover have "game_of rd' (game_record ds y) = game_of rd (game_record ds y)" if "y \<in> set (game_ids ds)" "y \<noteq> x" for y
  proof -
    have "g_lba (game_record ds y) \<noteq> g_lba e" using d that ix(2) by (auto simp: hdl_disk_def e_def dest: inj_onD)
    then show ?thesis by (simp add: game_of_def hddGetHDLGameInfo_def rd'_def)
  qed
  ultimately show "listed (snd (hddSetHDLGameInfo rd (\<lambda>n. True) g)) ds = (listed rd ds)[i := g]"
    unfolding s using ix(1) game_ids_set(1) [of ds]
    by (intro nth_equalityI) (auto simp: listed_def nth_list_update e_def x_def nth_eq_iff_index_eq)
qed

text \<open>The comparison looks at the partitions only.\<close>

lemma rename_not_modified:
  assumes "i < length gs"
  shows "\<not> list_modified \<lparr>games_count = length gs, games = Some gs\<rparr> \<lparr>games_count = length gs, games = Some (gs[i := (gs ! i)\<lparr>game_name := nm\<rparr>])\<rparr>"
proof -
  have "\<exists>h \<in> set (gs[i := (gs ! i)\<lparr>game_name := nm\<rparr>]). same_partition g h" if g: "g \<in> set gs" for g
  proof -
    obtain j where j: "j < length gs" "g = gs ! j" using g by (auto simp: in_set_conv_nth)
    have "same_partition g (gs[i := (gs ! i)\<lparr>game_name := nm\<rparr>] ! j)" using j assms by (cases "j = i") (simp_all add: same_partition_def)
    then show ?thesis using j(1) by (intro bexI [of _ "gs[i := (gs ! i)\<lparr>game_name := nm\<rparr>] ! j"]) simp_all
  qed
  then show ?thesis by (auto simp: list_modified_def)
qed

lemma rename_then_restart:
  assumes d: "hdl_disk (hdd_disk st) (hdd0 st)" and gs: "gs = listed (hdd_disk st) (hdd0 st)"
    and st: "gHDDGameListCache st" "games_file st = Some gs" "hddGames st = \<lparr>games_count = length gs, games = Some gs\<rparr>"
    and i: "i < length gs" and nm: "NUL \<notin> set nm" "length nm \<le> 64"
  shows "\<exists>st1 st2 st3. hddRenameGame i nm st = Inr st1 \<and> hddUpdateGameList st1 = (length gs, st2)
    \<and> games (hddGames st2) = Some (gs[i := (gs ! i)\<lparr>game_name := nm\<rparr>])
    \<and> hddUpdateGameList (st2\<lparr>hddGames := \<lparr>games_count = 0, games = None\<rparr>, hddForceUpdate := False\<rparr>) = (length gs, st3)
    \<and> games (hddGames st3) = Some gs"
proof -
  define g where "g = (gs ! i)\<lparr>game_name := nm\<rparr>"
  define rd where "rd = snd (hddSetHDLGameInfo (hdd_disk st) (\<lambda>n. True) g)"
  have r: "hdl_disk rd (hdd0 st)" "listed rd (hdd0 st) = gs[i := g]"
    using listed_renamed [OF d _ nm, of i g] i gs by (simp_all add: rd_def g_def)
  define st1 where "st1 = st\<lparr>hddGames := \<lparr>games_count = length gs, games = Some (gs[i := g])\<rparr>, hdd_disk := rd, hddForceUpdate := True\<rparr>"
  have 1: "hddRenameGame i nm st = Inr st1" using st(3) i nm(2) by (simp add: hddRenameGame_def st1_def g_def rd_def HDL_GAME_NAME_MAX_def Let_def)
  have ne: "gs \<noteq> []" using i by auto
  have scan: "hddGetHDLGamelist rd 0 (hdd0 st) (\<lambda>n. True) True \<lparr>games_count = 0, games = None\<rparr> = (0, \<lparr>games_count = length gs, games = Some (gs[i := g])\<rparr>)"
    using hdl_disk_scan [OF r(1)] r(2) by simp
  define st2 where "st2 = st1\<lparr>games_file := Some gs, hddGames := \<lparr>games_count = length gs, games = Some (gs[i := g])\<rparr>, hddForceUpdate := True\<rparr>"
  have "hddUpdateGameListCache True True (length gs) \<lparr>games_count = length gs, games = Some gs\<rparr> \<lparr>games_count = length gs, games = Some (gs[i := g])\<rparr> (Some gs) = (0, Some gs)"
    using rename_not_modified [OF i, of nm] by (simp add: hddUpdateGameListCache_def g_def)
  then have 2: "hddUpdateGameList st1 = (length gs, st2)"
    using st(1,2) ne scan by (simp add: hddUpdateGameList_def hddLoadGameListCache_def hddFreeHDLGamelist_def st1_def st2_def Let_def)
  define st3 where "st3 = snd (hddUpdateGameList (st2\<lparr>hddGames := \<lparr>games_count = 0, games = None\<rparr>, hddForceUpdate := False\<rparr>))"
  have "hddUpdateGameList (st2\<lparr>hddGames := \<lparr>games_count = 0, games = None\<rparr>, hddForceUpdate := False\<rparr>) = (length gs, st3)"
    "games (hddGames st3) = Some gs"
    using st(1) ne by (simp_all add: st3_def hddUpdateGameList_def hddLoadGameListCache_def hddFreeHDLGamelist_def st1_def st2_def Let_def)
  then show ?thesis using 1 2 by (intro exI [of _ st1] exI [of _ st2] exI [of _ st3]) (simp add: st2_def g_def)
qed

text \<open>
  C38. A game that is renamed while the list is kept in a file has its new name on the disk and in the menu until the program ends; after
  the next start it has its old name again, since the file is only written when the partitions differ.
\<close>

theorem rename_forgotten:
  assumes "hdl_disk (hdd_disk st) (hdd0 st)" "gs = listed (hdd_disk st) (hdd0 st)"
    and "gHDDGameListCache st" "games_file st = Some gs" "hddGames st = \<lparr>games_count = length gs, games = Some gs\<rparr>"
    and "i < length gs" "NUL \<notin> set nm" "length nm \<le> 64"
  shows "\<exists>st1 st2 st3. hddRenameGame i nm st = Inr st1 \<and> hddUpdateGameList st1 = (length gs, st2)
    \<and> games (hddGames st2) = Some (gs[i := (gs ! i)\<lparr>game_name := nm\<rparr>])
    \<and> hddUpdateGameList (st2\<lparr>hddGames := \<lparr>games_count = 0, games = None\<rparr>, hddForceUpdate := False\<rparr>) = (length gs, st3)
    \<and> games (hddGames st3) = Some gs"
  by (rule rename_then_restart [OF assms])

definition hdd_example :: hdd_support where
  "hdd_example = (let gs = listed (\<lambda>n. Some (replicate 1024 65)) disk_example in
     \<lparr>hddGames = \<lparr>games_count = length gs, games = Some gs\<rparr>, hddForceUpdate = True, gHDDGameListCache = True, games_file = Some gs,
      hdd_disk = (\<lambda>n. Some (replicate 1024 65)), hdd0 = disk_example\<rparr>)"

lemma disk_example_ids: "game_ids disk_example = [''PP.HDL.B'', ''PP.HDL.A'']"
  by (simp add: game_ids_def hdl_parts_def new_name_def disk_example_def HDL_FS_MAGIC_def)

theorem rename_forgotten_witness:
  "\<exists>st1 st2 st3. hddRenameGame 1 ''New'' hdd_example = Inr st1
    \<and> hddUpdateGameList st1 = (length (listed (\<lambda>n. Some (replicate 1024 65)) disk_example), st2)
    \<and> games (hddGames st2) = Some ((listed (\<lambda>n. Some (replicate 1024 65)) disk_example)
        [1 := (listed (\<lambda>n. Some (replicate 1024 65)) disk_example ! 1)\<lparr>game_name := ''New''\<rparr>])
    \<and> hddUpdateGameList (st2\<lparr>hddGames := \<lparr>games_count = 0, games = None\<rparr>, hddForceUpdate := False\<rparr>)
        = (length (listed (\<lambda>n. Some (replicate 1024 65)) disk_example), st3)
    \<and> games (hddGames st3) = Some (listed (\<lambda>n. Some (replicate 1024 65)) disk_example)"
proof (rule rename_forgotten)
  have "g_lba (game_record disk_example ''PP.HDL.B'') \<noteq> g_lba (game_record disk_example ''PP.HDL.A'')"
    by (simp add: game_record_def parts_of_def hdl_parts_def disk_example_def HDL_FS_MAGIC_def APA_FLAG_SUB_def HDL_GAME_DATA_OFFSET_def)
  then show "hdl_disk (hdd_disk hdd_example) (hdd0 hdd_example)"
    by (simp add: hdl_disk_def hdd_example_def Let_def disk_example_ids) (simp add: disk_example_def hdl_parts_def HDL_FS_MAGIC_def)
qed (simp_all add: hdd_example_def Let_def listed_def disk_example_ids NUL_def)

end
