(* ===== verification/TexCache.thy ===== *)
theory TexCache
  imports Prelude
begin

text \<open>
  The cache of cover art (\<open>src/src/texcache.c\<close>): a pool of requests, the caches with their entries, and for each of the first
  eight caches a doubly linked list that should order its entries by use.  Pictures are loaded by the worker of \<open>IoMan\<close>, whose queue
  is here the list of the requests it still has to run.
\<close>

subsection \<open>Data\<close>

definition TEXCACHE_POOL_SIZE :: nat where "TEXCACHE_POOL_SIZE = 32"
definition TEXCACHE_MAX_ENTRIES :: nat where "TEXCACHE_MAX_ENTRIES = 128"

text \<open>A cache is known by its address, an entry by the address of its cache and its index.\<close>

type_synonym cache_ptr = nat
type_synonym entry_ptr = "nat \<times> nat"

record 'p GSTEXTURE =
  tex_Mem :: "'p option"
  tex_Clut :: "'p option"
  tex_Vram :: u32
  tex_VramClut :: u32
  tex_ClutStorageMode :: u8

record 'p cache_entry =
  texture :: "'p GSTEXTURE"
  qr :: "nat option"
  lastUsed :: u32
  entry_UID :: u32

record 'p image_cache =
  cache_userId :: int
  cache_count :: nat
  cache_prefix :: "string option"
  isPrefixRelative :: bool
  cache_suffix :: "string option"
  nextUID :: u32
  content :: "'p cache_entry list"

record 'l load_image_request =
  req_value :: "string option"
  req_cache :: "cache_ptr option"
  req_entry :: "entry_ptr option"
  req_list :: "'l option"
  cacheUID :: u32

record 'l request_pool =
  pool_requests :: "'l load_image_request list"
  pool_used :: "bool list"
  free_list :: "nat list"
  free_count :: nat

text \<open>The list: its two ends are nodes of their own.\<close>

datatype lru_ptr = Head | Tail | Node nat

record lru_cache =
  lru_owner :: cache_ptr
  lru_next :: "lru_ptr \<Rightarrow> lru_ptr option"
  lru_prev :: "lru_ptr \<Rightarrow> lru_ptr option"
  lru_entry :: "lru_ptr \<Rightarrow> entry_ptr option"
  node_count :: nat
  frame_counter :: u32
  nodes_last_drawn :: "u16 list"

record ('p, 'l) texcache =
  req_pool :: "'l request_pool"
  lru_caches :: "lru_cache list"
  lru_cache_count :: nat
  caches :: "cache_ptr \<Rightarrow> 'p image_cache option"
  art_requests :: "nat list"
  guiFrameId :: u32
  guiInactiveFrames :: int

text \<open>Pointers that the code follows.\<close>

definition follow :: "'a option \<Rightarrow> ub + 'a" where
  "follow p = (case p of None \<Rightarrow> Inl NullPointer | Some a \<Rightarrow> Inr a)"

definition the_cache :: "cache_ptr \<Rightarrow> ('p, 'l) texcache \<Rightarrow> ub + 'p image_cache" where
  "the_cache c st = (case caches st c of None \<Rightarrow> Inl UseAfterFree | Some x \<Rightarrow> Inr x)"

definition the_entry :: "entry_ptr \<Rightarrow> ('p, 'l) texcache \<Rightarrow> ub + 'p cache_entry" where
  "the_entry e st = bindR (the_cache (fst e) st) (\<lambda>c. if snd e < length (content c) then Inr (content c ! snd e) else Inl OutOfBounds)"

definition set_entry :: "entry_ptr \<Rightarrow> ('p cache_entry \<Rightarrow> 'p cache_entry) \<Rightarrow> ('p, 'l) texcache \<Rightarrow> ub + ('p, 'l) texcache" where
  "set_entry e f st = bindR (the_cache (fst e) st) (\<lambda>c.
     if snd e < length (content c)
     then Inr (st\<lparr>caches := (caches st)(fst e \<mapsto> c\<lparr>content := (content c)[snd e := f (content c ! snd e)]\<rparr>)\<rparr>)
     else Inl OutOfBounds)"

subsection \<open>The pool of requests\<close>

definition request_pool_init :: "'l request_pool \<Rightarrow> 'l request_pool" where
  "request_pool_init p = p\<lparr>free_list := [0..<TEXCACHE_POOL_SIZE], pool_used := replicate TEXCACHE_POOL_SIZE False, free_count := TEXCACHE_POOL_SIZE\<rparr>"

definition request_pool_alloc :: "'l request_pool \<Rightarrow> nat option \<times> 'l request_pool" where
  "request_pool_alloc p =
     (if free_count p = 0 then (None, p)
      else let idx = free_list p ! (free_count p - 1)
           in (Some idx, p\<lparr>free_count := free_count p - 1, pool_used := (pool_used p)[idx := True]\<rparr>))"

definition request_pool_free :: "nat \<Rightarrow> 'l request_pool \<Rightarrow> 'l request_pool" where
  "request_pool_free idx p =
     (let p = p\<lparr>pool_requests := (pool_requests p)[idx := (pool_requests p ! idx)\<lparr>req_value := None\<rparr>]\<rparr>
      in if idx < TEXCACHE_POOL_SIZE \<and> pool_used p ! idx
         then p\<lparr>pool_used := (pool_used p)[idx := False], free_list := (free_list p)[free_count p := idx], free_count := free_count p + 1\<rparr>
         else p)"

subsection \<open>The list of an order of use\<close>

definition lru_init :: "cache_ptr \<Rightarrow> lru_cache \<Rightarrow> lru_cache" where
  "lru_init c l = l\<lparr>lru_owner := c, lru_next := (lru_next l)(Head := Some Tail, Tail := None),
     lru_prev := (lru_prev l)(Tail := Some Head, Head := None), node_count := 0, frame_counter := 0,
     nodes_last_drawn := replicate TEXCACHE_MAX_ENTRIES 0\<rparr>"

text \<open>Taking a node out of its place and putting it behind the head.\<close>

definition unlink_node :: "lru_ptr \<Rightarrow> lru_cache \<Rightarrow> ub + lru_cache" where
  "unlink_node n l =
     bindR (follow (lru_prev l n)) (\<lambda>p. let l = l\<lparr>lru_next := (lru_next l)(p := lru_next l n)\<rparr>
      in bindR (follow (lru_next l n)) (\<lambda>x. Inr (l\<lparr>lru_prev := (lru_prev l)(x := lru_prev l n)\<rparr>)))"

definition link_front :: "lru_ptr \<Rightarrow> lru_cache \<Rightarrow> ub + lru_cache" where
  "link_front n l =
     (let l = l\<lparr>lru_next := (lru_next l)(n := lru_next l Head), lru_prev := (lru_prev l)(n := Some Head)\<rparr>
      in bindR (follow (lru_next l Head)) (\<lambda>x.
           Inr (l\<lparr>lru_prev := (lru_prev l)(x := Some n), lru_next := (lru_next l)(Head := Some n)\<rparr>)))"

definition set_lru :: "nat \<Rightarrow> lru_cache \<Rightarrow> ('p, 'l) texcache \<Rightarrow> ('p, 'l) texcache" where
  "set_lru i l st = st\<lparr>lru_caches := (lru_caches st)[i := l]\<rparr>"

text \<open>An entry that is not NULL gets the frame of its list.\<close>

definition stamp :: "entry_ptr option \<Rightarrow> u32 \<Rightarrow> ('p, 'l) texcache \<Rightarrow> ub + ('p, 'l) texcache" where
  "stamp e t st = (case e of None \<Rightarrow> Inr st | Some e \<Rightarrow> set_entry e (\<lambda>x. x\<lparr>lastUsed := t\<rparr>) st)"

definition lru_move_to_front :: "nat \<Rightarrow> lru_ptr \<Rightarrow> ('p, 'l) texcache \<Rightarrow> ub + ('p, 'l) texcache" where
  "lru_move_to_front i n st =
     bindR (unlink_node n (lru_caches st ! i)) (\<lambda>l. bindR (link_front n l) (\<lambda>l.
       stamp (lru_entry l n) (frame_counter l) (set_lru i l st)))"

definition lru_add :: "nat \<Rightarrow> entry_ptr option \<Rightarrow> ('p, 'l) texcache \<Rightarrow> ub + ('p, 'l) texcache" where
  "lru_add i e st =
     (let l = lru_caches st ! i
      in if TEXCACHE_MAX_ENTRIES \<le> node_count l then Inr st
         else let n = Node (node_count l);
                  l = l\<lparr>node_count := node_count l + 1, lru_entry := (lru_entry l)(n := e)\<rparr>
              in bindR (stamp e (frame_counter l) (set_lru i l st)) (lru_move_to_front i n))"

text \<open>The loop of the eviction, from \<open>node\<close> towards the head.\<close>

definition older :: "entry_ptr option \<Rightarrow> entry_ptr option \<Rightarrow> ('p, 'l) texcache \<Rightarrow> ub + bool" where
  "older e f st = (case (e, f) of
       (Some e, Some f) \<Rightarrow> bindR (the_entry e st) (\<lambda>x. bindR (the_entry f st) (\<lambda>y. Inr (sint (lastUsed x) < sint (lastUsed y))))
     | _ \<Rightarrow> Inr False)"

fun evict_loop :: "nat \<Rightarrow> lru_cache \<Rightarrow> ('p, 'l) texcache \<Rightarrow> lru_ptr \<Rightarrow> lru_ptr \<Rightarrow> ub + lru_ptr" where
  "evict_loop fuel l st oldest Head = Inr oldest"
| "evict_loop 0 l st oldest node = Inl Diverges"
| "evict_loop (Suc fuel) l st oldest node =
     bindR (older (lru_entry l node) (lru_entry l oldest) st) (\<lambda>b.
     bindR (follow (lru_prev l node)) (\<lambda>p. evict_loop fuel l st (if b then node else oldest) p))"

definition lru_evict :: "nat \<Rightarrow> nat \<Rightarrow> ('p, 'l) texcache \<Rightarrow> ub + entry_ptr option \<times> ('p, 'l) texcache" where
  "lru_evict fuel i st =
     (let l = lru_caches st ! i
      in if lru_prev l Tail = Some Head then Inr (None, st)
         else bindR (follow (lru_prev l Tail)) (\<lambda>t. bindR (follow (lru_prev l t)) (\<lambda>n.
              bindR (evict_loop fuel l st t n) (\<lambda>oldest. bindR (follow (lru_prev l oldest)) (\<lambda>p.
                Inr (lru_entry l oldest,
                  set_lru i (l\<lparr>lru_next := (lru_next l)(p := Some Tail, oldest := None),
                    lru_prev := (lru_prev l)(Tail := Some p, oldest := None)\<rparr>) st))))))"

subsection \<open>Caches\<close>

definition cacheInit :: "('p, 'l) texcache \<Rightarrow> ('p, 'l) texcache" where
  "cacheInit st = st\<lparr>req_pool := request_pool_init (req_pool st)\<rparr>"

definition cacheAdvanceFrame :: "('p, 'l) texcache \<Rightarrow> ('p, 'l) texcache" where
  "cacheAdvanceFrame st =
     st\<lparr>lru_caches := map (\<lambda>l. l\<lparr>frame_counter := frame_counter l + 1\<rparr>) (take (lru_cache_count st) (lru_caches st))
          @ drop (lru_cache_count st) (lru_caches st)\<rparr>"

text \<open>An entry that has been cleared; its pixels have been freed with \<open>freeTxt\<close>, which leaves the same values.\<close>

definition cacheClearItem :: "'p cache_entry \<Rightarrow> 'p cache_entry" where
  "cacheClearItem item =
     item\<lparr>texture := \<lparr>tex_Mem = None, tex_Clut = None, tex_Vram = 0, tex_VramClut = 0, tex_ClutStorageMode = 0\<rparr>,
          qr := None, lastUsed := - 1, entry_UID := 0\<rparr>"

text \<open>\<open>p\<close>: the address from \<open>malloc\<close> and what the entries of the new block held, if there was memory; \<open>ok\<close>: for the other strings.\<close>

definition cacheInitCache :: "(cache_ptr \<times> 'p cache_entry list option) option \<Rightarrow> (nat \<Rightarrow> bool) \<Rightarrow> int \<Rightarrow> string option \<Rightarrow> bool \<Rightarrow> string \<Rightarrow> int
    \<Rightarrow> ('p, 'l) texcache \<Rightarrow> cache_ptr option \<times> ('p, 'l) texcache" where
  "cacheInitCache p ok uid prefix rel suffix cnt st =
     (let cnt = (if int TEXCACHE_MAX_ENTRIES < cnt then int TEXCACHE_MAX_ENTRIES else cnt);
          cnt = (if cnt < 1 then 1 else cnt)
      in case p of
           Some (a, Some junk) \<Rightarrow>
             let c = \<lparr>cache_userId = uid, cache_count = nat cnt,
                   cache_prefix = (if ok 0 then prefix else None), isPrefixRelative = rel,
                   cache_suffix = (if ok 1 then Some suffix else None), nextUID = 1,
                   content = map (\<lambda>i. cacheClearItem (junk ! i)) [0..<nat cnt]\<rparr>;
                 st = st\<lparr>caches := (caches st)(a \<mapsto> c)\<rparr>
             in (Some a, if lru_cache_count st < 8
                         then st\<lparr>lru_caches := (lru_caches st)[lru_cache_count st := lru_init a (lru_caches st ! lru_cache_count st)],
                                lru_cache_count := lru_cache_count st + 1\<rparr>
                         else st)
         | _ \<Rightarrow> (None, st))"

definition cacheDestroyCache :: "cache_ptr option \<Rightarrow> ('p, 'l) texcache \<Rightarrow> ('p, 'l) texcache" where
  "cacheDestroyCache p st = (case p of None \<Rightarrow> st | Some c \<Rightarrow> st\<lparr>caches := (caches st)(c := None)\<rparr>)"

definition find_lru :: "cache_ptr \<Rightarrow> ('p, 'l) texcache \<Rightarrow> nat option" where
  "find_lru c st = find (\<lambda>i. lru_owner (lru_caches st ! i) = c) [0..<lru_cache_count st]"

subsection \<open>Loading a picture\<close>

definition texFree :: "'p GSTEXTURE \<Rightarrow> 'p GSTEXTURE" where
  "texFree t = t\<lparr>tex_Mem := None, tex_Clut := None\<rparr>"

definition free_request :: "nat \<Rightarrow> ('p, 'l) texcache \<Rightarrow> ('p, 'l) texcache" where
  "free_request r st = st\<lparr>req_pool := request_pool_free r (req_pool st)\<rparr>"

text \<open>\<open>getImage\<close> is the device's \<open>itemGetImage\<close>: a result, and the texture as it leaves it.\<close>

definition cacheLoadImage ::
  "('l \<Rightarrow> string option \<Rightarrow> bool \<Rightarrow> string option \<Rightarrow> string option \<Rightarrow> 'p GSTEXTURE \<Rightarrow> int \<times> 'p GSTEXTURE)
    \<Rightarrow> nat option \<Rightarrow> ('p, 'l) texcache \<Rightarrow> ub + ('p, 'l) texcache" where
  "cacheLoadImage getImage data st =
     (case data of
        None \<Rightarrow> Inr st
      | Some r \<Rightarrow>
          let req = pool_requests (req_pool st) ! r
          in case (req_entry req, req_cache req, req_list req) of
               (Some e, Some c, Some handler) \<Rightarrow>
                 bindR (the_entry e st) (\<lambda>entry.
                 if cacheUID req \<noteq> entry_UID entry then Inr (free_request r st)
                 else bindR (the_cache c st) (\<lambda>cache.
                 let (result, t) = getImage handler (cache_prefix cache) (isPrefixRelative cache) (req_value req) (cache_suffix cache) (texFree (texture entry))
                 in bindR (set_entry e (\<lambda>x. x\<lparr>texture := t\<rparr>) st) (\<lambda>st.
                    bindR (if result < 0 then set_entry e (\<lambda>x. x\<lparr>lastUsed := 0\<rparr>) st
                           else bindR (set_entry e (\<lambda>x. x\<lparr>lastUsed := guiFrameId st\<rparr>) st) (\<lambda>st.
                                case find_lru c st of None \<Rightarrow> Inr st | Some i \<Rightarrow> lru_add i (Some e) st)) (\<lambda>st.
                    bindR (set_entry e (\<lambda>x. x\<lparr>qr := None\<rparr>) st) (\<lambda>st. Inr (free_request r st))))))
             | _ \<Rightarrow> Inr (free_request r st))"

subsection \<open>Asking for a picture\<close>

text \<open>A picture that is there is marked as used; its node is the first one of the list with its entry.\<close>

definition touch :: "cache_ptr \<Rightarrow> nat \<Rightarrow> ('p, 'l) texcache \<Rightarrow> ub + ('p, 'l) texcache" where
  "touch c k st =
     bindR (set_entry (c, k) (\<lambda>x. x\<lparr>lastUsed := guiFrameId st\<rparr>) st) (\<lambda>st.
       case find_lru c st of
         None \<Rightarrow> Inr st
       | Some i \<Rightarrow>
           (case find (\<lambda>n. lru_entry (lru_caches st ! i) (Node n) = Some (c, k)) [0..<node_count (lru_caches st ! i)] of
              None \<Rightarrow> Inr st
            | Some n \<Rightarrow> lru_move_to_front i (Node n) st))"

definition evict_of :: "nat \<Rightarrow> cache_ptr \<Rightarrow> ('p, 'l) texcache \<Rightarrow> ub + entry_ptr option \<times> ('p, 'l) texcache" where
  "evict_of fuel c st = (case find_lru c st of None \<Rightarrow> Inr (None, st) | Some i \<Rightarrow> lru_evict fuel i st)"

text \<open>The request for a new picture, in the entry \<open>k\<close>.\<close>

definition request_art :: "bool \<Rightarrow> bool \<Rightarrow> cache_ptr \<Rightarrow> 'l \<Rightarrow> string \<Rightarrow> nat \<Rightarrow> int \<Rightarrow> u32 \<Rightarrow> ('p, 'l) texcache \<Rightarrow> ub + int \<times> u32 \<times> ('p, 'l) texcache" where
  "request_art malloc_ok put_ok c ls val k cacheId UID st =
     (let (r, pl) = request_pool_alloc (req_pool st); st = st\<lparr>req_pool := pl\<rparr>
      in case r of
           None \<Rightarrow> Inr (cacheId, UID, st)
         | Some r \<Rightarrow>
             if \<not> malloc_ok then Inr (cacheId, UID, free_request r st)
             else bindR (the_cache c st) (\<lambda>cache.
               let uid = nextUID cache;
                   st = st\<lparr>req_pool := (req_pool st)\<lparr>pool_requests := (pool_requests (req_pool st))
                     [r := \<lparr>req_value = Some val, req_cache = Some c, req_entry = Some (c, k), req_list = Some ls, cacheUID = uid\<rparr>]\<rparr>\<rparr>
               in bindR (set_entry (c, k) (\<lambda>x. (cacheClearItem x)\<lparr>qr := Some r, entry_UID := uid\<rparr>) st) (\<lambda>st.
                  let st = st\<lparr>caches := (caches st)(c := map_option (\<lambda>x. x\<lparr>nextUID := uid + 1\<rparr>) (caches st c))\<rparr>
                  in if put_ok then Inr (int k, uid, st\<lparr>art_requests := art_requests st @ [r]\<rparr>)
                     else bindR (set_entry (c, k) cacheClearItem st) (\<lambda>st. Inr (- 1, uid, free_request r st)))))"

text \<open>The result: the entry whose texture is returned, \<open>*cacheId\<close> and \<open>*UID\<close>.  A list is its value and its delay.\<close>

definition cacheGetTexture :: "nat \<Rightarrow> bool \<Rightarrow> bool \<Rightarrow> cache_ptr option \<Rightarrow> ('l \<times> int) option \<Rightarrow> int \<Rightarrow> u32 \<Rightarrow> string option
    \<Rightarrow> ('p, 'l) texcache \<Rightarrow> ub + entry_ptr option \<times> int \<times> u32 \<times> ('p, 'l) texcache" where
  "cacheGetTexture fuel malloc_ok put_ok cp lp cacheId UID vp st =
     (case (cp, lp, vp) of
        (Some c, Some (ls, delay), Some val) \<Rightarrow>
          bindR (the_cache c st) (\<lambda>cache.
          let known = (cacheId \<noteq> - 1 \<and> cacheId \<noteq> - 2 \<and> cacheId < int (cache_count cache))
          in if known \<and> cacheId < 0 then Inl OutOfBounds
             else let k = nat cacheId; entry = content cache ! k
             in if known \<and> entry_UID entry = UID \<and> qr entry = None \<and> 0 < sint (lastUsed entry)
                then bindR (touch c k st) (\<lambda>st. Inr (Some (c, k), cacheId, UID, st))
                else if known \<and> entry_UID entry = UID \<and> lastUsed entry = 0 \<and> qr entry = None then Inr (None, - 2, UID, st)
                else let cacheId = (if known then - 1 else cacheId)
                     in if guiInactiveFrames st < delay then Inr (None, cacheId, UID, st)
                        else bindR (evict_of fuel c st) (\<lambda>(victim, st).
                          case victim of
                            None \<Rightarrow> Inr (None, cacheId, UID, st)
                          | Some (c', k') \<Rightarrow>
                              if c' = c \<and> k' < cache_count cache
                              then bindR (request_art malloc_ok put_ok c ls val k' cacheId UID st) (\<lambda>(cacheId, UID, st). Inr (None, cacheId, UID, st))
                              else Inr (None, cacheId, UID, st)))
      | _ \<Rightarrow> Inr (None, cacheId, UID, st))"

subsection \<open>The pool hands out each request once\<close>

definition pool_ok :: "'l request_pool \<Rightarrow> bool" where
  "pool_ok p = (length (free_list p) = TEXCACHE_POOL_SIZE \<and> length (pool_used p) = TEXCACHE_POOL_SIZE \<and> free_count p \<le> TEXCACHE_POOL_SIZE
     \<and> distinct (take (free_count p) (free_list p))
     \<and> set (take (free_count p) (free_list p)) = {i. i < TEXCACHE_POOL_SIZE \<and> \<not> pool_used p ! i})"

lemma pool_ok_init: "pool_ok (request_pool_init p)"
  by (auto simp: pool_ok_def request_pool_init_def TEXCACHE_POOL_SIZE_def)

lemma pool_ok_alloc:
  assumes "pool_ok p" "request_pool_alloc p = (Some r, p')"
  shows "pool_ok p'" "r < TEXCACHE_POOL_SIZE" "\<not> pool_used p ! r" "pool_used p' = (pool_used p)[r := True]"
proof -
  define n where "n = free_count p - 1"
  have n: "free_count p = Suc n" "r = free_list p ! n" and p': "p' = p\<lparr>free_count := n, pool_used := (pool_used p)[r := True]\<rparr>"
    using assms(2) by (auto simp: request_pool_alloc_def n_def Let_def split: if_splits)
  have t: "take (free_count p) (free_list p) = take n (free_list p) @ [r]"
    using assms(1) n by (simp add: pool_ok_def take_Suc_conv_app_nth)
  have a: "r \<notin> set (take n (free_list p))" "insert r (set (take n (free_list p))) = {i. i < TEXCACHE_POOL_SIZE \<and> \<not> pool_used p ! i}"
    "distinct (take n (free_list p))" "length (pool_used p) = TEXCACHE_POOL_SIZE"
    using assms(1) unfolding pool_ok_def t by auto
  show r: "r < TEXCACHE_POOL_SIZE" "\<not> pool_used p ! r" using a(2) by auto
  have "set (take n (free_list p)) = {i. i < TEXCACHE_POOL_SIZE \<and> \<not> pool_used p ! i} - {r}" using a(1,2) by blast
  also have "\<dots> = {i. i < TEXCACHE_POOL_SIZE \<and> \<not> (pool_used p)[r := True] ! i}"
    using a(4) r(1) by (auto simp: nth_list_update)
  finally have "set (take n (free_list p)) = {i. i < TEXCACHE_POOL_SIZE \<and> \<not> (pool_used p)[r := True] ! i}" .
  then show "pool_ok p'" using assms(1) a(3) n by (simp add: pool_ok_def p')
  show "pool_used p' = (pool_used p)[r := True]" by (simp add: p')
qed

lemma pool_ok_free:
  assumes "pool_ok p" shows "pool_ok (request_pool_free r p)"
proof (cases "r < TEXCACHE_POOL_SIZE \<and> pool_used p ! r")
  case True
  have l: "free_count p < TEXCACHE_POOL_SIZE"
  proof (rule ccontr)
    assume "\<not> free_count p < TEXCACHE_POOL_SIZE"
    then have c: "free_count p = TEXCACHE_POOL_SIZE" using assms by (simp add: pool_ok_def)
    define F where "F = take (free_count p) (free_list p)"
    have F: "distinct F" "{i. i < TEXCACHE_POOL_SIZE \<and> \<not> pool_used p ! i} = set F" "length (free_list p) = TEXCACHE_POOL_SIZE"
      using assms unfolding pool_ok_def F_def [symmetric] by blast+
    have "length F = TEXCACHE_POOL_SIZE" using F(3) c by (simp add: F_def)
    then have "card {i. i < TEXCACHE_POOL_SIZE \<and> \<not> pool_used p ! i} = TEXCACHE_POOL_SIZE"
      using distinct_card [of F] F(1) unfolding F(2) by simp
    moreover have "card {i. i < TEXCACHE_POOL_SIZE \<and> \<not> pool_used p ! i} \<le> card ({..<TEXCACHE_POOL_SIZE} - {r})"
      using True by (intro card_mono) auto
    moreover have "card ({..<TEXCACHE_POOL_SIZE} - {r}) < TEXCACHE_POOL_SIZE" using True by (simp add: card_Diff_singleton_if)
    ultimately show False by simp
  qed
  have t: "take (Suc (free_count p)) ((free_list p)[free_count p := r]) = take (free_count p) (free_list p) @ [r]"
    using l assms by (simp add: pool_ok_def take_Suc_conv_app_nth)
  have "set (take (free_count p) (free_list p)) = {i. i < TEXCACHE_POOL_SIZE \<and> \<not> pool_used p ! i}" using assms by (simp add: pool_ok_def)
  moreover have "{i. i < TEXCACHE_POOL_SIZE \<and> \<not> (pool_used p)[r := False] ! i} = insert r {i. i < TEXCACHE_POOL_SIZE \<and> \<not> pool_used p ! i}"
    using True assms by (auto simp: pool_ok_def nth_list_update)
  ultimately show ?thesis using assms True l t by (auto simp: pool_ok_def request_pool_free_def Let_def)
next
  case False
  then show ?thesis using assms by (auto simp: pool_ok_def request_pool_free_def Let_def)
qed

subsection \<open>The list as a list\<close>

fun links :: "lru_cache \<Rightarrow> lru_ptr list \<Rightarrow> bool" where
  "links l (a # b # ns) = (lru_next l a = Some b \<and> lru_prev l b = Some a \<and> links l (b # ns))"
| "links l _ = True"

definition lru_list :: "lru_cache \<Rightarrow> nat list \<Rightarrow> bool" where
  "lru_list l ns = (distinct ns \<and> links l (Head # map Node ns @ [Tail]))"

lemma links_append: "links l (xs @ a # ys) = (links l (xs @ [a]) \<and> links l (a # ys))"
proof (induction xs)
  case (Cons x xs) then show ?case by (cases xs) auto
qed simp

text \<open>Only the forward links of all but the last and the backward links of all but the first are read.\<close>

lemma links_cong:
  "\<lbrakk>\<And>n. n \<in> set (butlast ns) \<Longrightarrow> lru_next l' n = lru_next l n; \<And>n. n \<in> set (tl ns) \<Longrightarrow> lru_prev l' n = lru_prev l n\<rbrakk> \<Longrightarrow> links l' ns = links l ns"
proof (induction ns rule: induct_list012)
  case (3 a b ns)
  have "links l' (b # ns) = links l (b # ns)" by (rule 3(2)) (use 3(3,4) in \<open>auto split: if_splits\<close>)
  then show ?case using 3(3) [of a] 3(4) [of b] by simp
qed simp_all

lemma set_tlD: "x \<in> set (tl xs) \<Longrightarrow> x \<in> set xs"
  by (cases xs) simp_all

lemma lru_init_list: "lru_list (lru_init c l) []"
  by (simp add: lru_list_def lru_init_def)

lemma unlink_link:
  assumes "lru_list l ns" "n \<in> set ns"
  shows "\<exists>l1 l'. unlink_node (Node n) l = Inr l1 \<and> link_front (Node n) l1 = Inr l' \<and> lru_list l' (n # remove1 n ns)
    \<and> lru_entry l' = lru_entry l \<and> node_count l' = node_count l \<and> frame_counter l' = frame_counter l \<and> lru_owner l' = lru_owner l"
proof -
  obtain as bs where ns: "ns = as @ n # bs" "n \<notin> set as" using assms(2) by (meson split_list_first)
  have d: "distinct (as @ n # bs)" and lk: "links l (Head # map Node (as @ n # bs) @ [Tail])" using assms(1) by (simp_all add: lru_list_def ns)
  define P where "P = Head # map Node as"
  define Q where "Q = map Node bs @ [Tail]"
  obtain P' p where P: "P = P' @ [p]" unfolding P_def by (metis rev_exhaust list.distinct(1))
  obtain q Q' where Q: "Q = q # Q'" unfolding Q_def by (cases "map Node bs @ [Tail]") auto
  have "links l (P @ Node n # Q)" using lk by (simp add: P_def Q_def)
  then have L: "links l (P' @ [p])" "lru_next l p = Some (Node n)" "lru_prev l (Node n) = Some p"
      "lru_next l (Node n) = Some q" "lru_prev l q = Some (Node n)" "links l (q # Q')"
    using links_append [of l P' p "Node n # Q"] by (simp_all add: P Q)
  have D: "distinct (P' @ p # Node n # q # Q')"
  proof -
    have "distinct (P @ Node n # Q)" using d by (auto simp: P_def Q_def distinct_map inj_on_def)
    then show ?thesis by (simp add: P Q)
  qed
  define l1 where "l1 = l\<lparr>lru_next := (lru_next l)(p := Some q), lru_prev := (lru_prev l)(q := Some p)\<rparr>"
  have u: "unlink_node (Node n) l = Inr l1" using L D by (simp add: unlink_node_def follow_def l1_def Let_def)
  have pq: "links l1 (P @ Q)"
  proof -
    have "links l1 (P' @ [p]) = links l (P' @ [p])" using D by (intro links_cong) (auto simp: l1_def P_def dest: set_tlD)
    moreover have "links l1 (q # Q') = links l (q # Q')" using D by (intro links_cong) (auto simp: l1_def dest: in_set_butlastD split: if_splits)
    ultimately show ?thesis using L links_append [of l1 P' p Q] by (simp add: P Q l1_def)
  qed
  obtain x R where R: "P @ Q = Head # x # R" unfolding P_def Q_def by (cases as; cases bs) auto
  have DR: "Node n \<notin> set (P @ Q)" "distinct (P @ Q)" using D by (auto simp: P Q)
  have hx: "lru_next l1 Head = Some x" "lru_prev l1 x = Some Head" "links l1 (x # R)" using pq by (simp_all add: R)
  define l' where "l' = l1\<lparr>lru_next := (lru_next l1)(Node n := Some x, Head := Some (Node n)), lru_prev := (lru_prev l1)(Node n := Some Head, x := Some (Node n))\<rparr>"
  have f: "link_front (Node n) l1 = Inr l'" using hx DR by (simp add: link_front_def follow_def l'_def Let_def R)
  have "links l' (x # R) = links l1 (x # R)" using DR by (intro links_cong) (auto simp: l'_def R dest: in_set_butlastD split: if_splits)
  then have "links l' (Head # Node n # x # R)" using hx DR by (simp add: l'_def R)
  moreover have "Head # Node n # x # R = Head # map Node (n # remove1 n ns) @ [Tail]"
    using R ns by (simp add: P_def Q_def remove1_append)
  ultimately have "lru_list l' (n # remove1 n ns)" using d ns by (auto simp: lru_list_def remove1_append)
  then show ?thesis using u f by (simp add: l'_def l1_def)
qed

text \<open>A picture that is shown goes to the front.\<close>

lemma move_to_front:
  assumes "lru_list (lru_caches st ! i) ns" "n \<in> set ns" "i < length (lru_caches st)" "lru_entry (lru_caches st ! i) (Node n) = None"
  shows "\<exists>st'. lru_move_to_front i (Node n) st = Inr st' \<and> lru_list (lru_caches st' ! i) (n # remove1 n ns)"
  using unlink_link [OF assms(1,2)] assms(3,4) by (auto simp: lru_move_to_front_def stamp_def set_lru_def)

subsection \<open>What an eviction does to the list\<close>

definition used_at :: "lru_cache \<Rightarrow> ('p, 'l) texcache \<Rightarrow> nat \<Rightarrow> int option" where
  "used_at l st n = (case lru_entry l (Node n) of None \<Rightarrow> None
     | Some e \<Rightarrow> (case the_entry e st of Inl _ \<Rightarrow> None | Inr x \<Rightarrow> Some (sint (lastUsed x))))"

lemma older_used: "\<lbrakk>used_at l st n = Some a; used_at l st m = Some b\<rbrakk> \<Longrightarrow> older (lru_entry l (Node n)) (lru_entry l (Node m)) st = Inr (a < b)"
  by (auto simp: used_at_def older_def split: option.splits sum.splits)

lemma evict_loop_oldest:
  assumes "links l (Head # map Node ns)" "used_at l st m = Some b" "\<forall>n \<in> set ns. used_at l st n = Some (t n)" "length ns \<le> fuel"
  shows "(evict_loop fuel l st (Node m) (last (Head # map Node ns)) = Inr (Node m) \<and> (\<forall>n \<in> set ns. b \<le> t n))
    \<or> (\<exists>i < length ns. evict_loop fuel l st (Node m) (last (Head # map Node ns)) = Inr (Node (ns ! i)) \<and> t (ns ! i) < b
        \<and> (\<forall>j < length ns. t (ns ! i) \<le> t (ns ! j) \<and> (i < j \<longrightarrow> t (ns ! i) < t (ns ! j))))"
  using assms
proof (induction ns arbitrary: m b fuel rule: rev_induct)
  case (snoc n ns)
  obtain f where f: "fuel = Suc f" "length ns \<le> f" using snoc.prems(4) by (cases fuel) auto
  obtain P p where P: "Head # map Node ns = P @ [p]" by (metis rev_exhaust list.distinct(1))
  have lk: "links l (Head # map Node ns)" "lru_prev l (Node n) = Some p"
    using snoc.prems(1) links_append [of l P p "[Node n]"] P by (simp_all del: links.simps add: append_Cons [symmetric]) simp
  have p: "p = last (Head # map Node ns)" unfolding P by simp
  define m' where "m' = (if t n < b then n else m)"
  define b' where "b' = (if t n < b then t n else b)"
  have m': "used_at l st m' = Some b'" using snoc.prems(2,3) by (simp add: m'_def b'_def)
  have "evict_loop fuel l st (Node m) (last (Head # map Node (ns @ [n]))) = evict_loop f l st (Node m') (last (Head # map Node ns))"
    using older_used [of l st n "t n" m b] snoc.prems(2,3) lk(2) by (simp add: f(1) follow_def p m'_def)
  note run = this
  have "\<forall>n \<in> set ns. used_at l st n = Some (t n)" using snoc.prems(3) by simp
  note E = run snoc.IH [OF lk(1) m' this f(2)]
  from E(2) show ?case
  proof (elim disjE)
    assume a: "evict_loop f l st (Node m') (last (Head # map Node ns)) = Inr (Node m') \<and> (\<forall>n \<in> set ns. b' \<le> t n)"
    show ?case
    proof (cases "t n < b")
      case True
      then show ?thesis using a E(1) by (intro disjI2 exI [of _ "length ns"]) (auto simp: m'_def b'_def nth_append less_Suc_eq)
    qed (use a E(1) in \<open>auto simp: m'_def b'_def\<close>)
  next
    assume "\<exists>i < length ns. evict_loop f l st (Node m') (last (Head # map Node ns)) = Inr (Node (ns ! i)) \<and> t (ns ! i) < b'
        \<and> (\<forall>j < length ns. t (ns ! i) \<le> t (ns ! j) \<and> (i < j \<longrightarrow> t (ns ! i) < t (ns ! j)))"
    then obtain i where "i < length ns" "evict_loop f l st (Node m') (last (Head # map Node ns)) = Inr (Node (ns ! i))" "t (ns ! i) < b'"
        "\<forall>j < length ns. t (ns ! i) \<le> t (ns ! j) \<and> (i < j \<longrightarrow> t (ns ! i) < t (ns ! j))" by blast
    then show ?case using E(1) by (intro disjI2 exI [of _ i]) (auto simp: b'_def nth_append less_Suc_eq split: if_splits)
  qed
qed simp

text \<open>The node is taken out as if it were the last one: what stood behind it is no longer on the list.\<close>

definition cut_node :: "lru_ptr \<Rightarrow> lru_ptr \<Rightarrow> lru_cache \<Rightarrow> lru_cache" where
  "cut_node p n l = l\<lparr>lru_next := (lru_next l)(p := Some Tail, n := None), lru_prev := (lru_prev l)(Tail := Some p, n := None)\<rparr>"

lemma cut_list:
  assumes "lru_list l ns" "k < length ns"
  shows "\<exists>p. lru_prev l (Node (ns ! k)) = Some p \<and> lru_list (cut_node p (Node (ns ! k)) l) (take k ns)"
proof -
  define n where "n = ns ! k"
  define P where "P = Head # map Node (take k ns)"
  define Q where "Q = map Node (drop (Suc k) ns) @ [Tail]"
  have ns: "ns = take k ns @ n # drop (Suc k) ns" using assms(2) by (simp add: n_def id_take_nth_drop)
  have "distinct (take k ns @ n # drop (Suc k) ns)" using assms(1) ns by (simp add: lru_list_def)
  then have D: "Node n \<notin> set P" "Tail \<notin> set P" "distinct P" "distinct (take k ns)"
    by (auto simp: P_def distinct_map inj_on_def)
  have path: "Head # map Node ns @ [Tail] = P @ Node n # Q" by (subst ns) (simp add: P_def Q_def)
  obtain P' p where P: "P = P' @ [p]" unfolding P_def by (metis rev_exhaust list.distinct(1))
  have "links l (P' @ p # Node n # Q)" using assms(1) path by (simp add: lru_list_def P)
  then have L: "links l (P' @ [p])" "lru_prev l (Node n) = Some p" using links_append [of l P' p "Node n # Q"] by simp_all
  have "links (cut_node p (Node n) l) (P' @ [p]) = links l (P' @ [p])"
    using D by (intro links_cong) (auto simp: cut_node_def P dest: set_tlD)
  then have "links (cut_node p (Node n) l) (P' @ p # [Tail])"
    using L(1) D links_append [of "cut_node p (Node n) l" P' p "[Tail]"] by (auto simp: cut_node_def P)
  moreover have path': "P' @ p # [Tail] = Head # map Node (take k ns) @ [Tail]" using P by (simp add: P_def)
  ultimately have "lru_list (cut_node p (Node n) l) (take k ns)" using D(4) unfolding path' lru_list_def by blast
  then show ?thesis using L(2) by (auto simp: n_def [symmetric])
qed

lemma evicted:
  assumes l: "l = lru_caches st ! i" "lru_list l ns" "i < length (lru_caches st)"
    and ns: "ns \<noteq> []" "\<forall>n \<in> set ns. used_at l st n = Some (t n)" "length ns \<le> fuel"
  shows "\<exists>k < length ns. \<exists>st'. lru_evict fuel i st = Inr (lru_entry l (Node (ns ! k)), st')
    \<and> (\<forall>j < length ns. t (ns ! k) \<le> t (ns ! j) \<and> (k < j \<longrightarrow> t (ns ! k) < t (ns ! j))) \<and> lru_list (lru_caches st' ! i) (take k ns)"
proof -
  obtain ms m where m: "ns = ms @ [m]" using ns(1) by (metis rev_exhaust)
  obtain P p where P: "Head # map Node ms = P @ [p]" by (metis rev_exhaust list.distinct(1))
  have "links l ((P @ [p]) @ [Node m, Tail])" using l(2) m unfolding P [symmetric] by (simp add: lru_list_def)
  then have L: "links l (Head # map Node ms)" "lru_prev l (Node m) = Some (last (Head # map Node ms))" "lru_prev l Tail = Some (Node m)"
    using links_append [of l P p "[Node m, Tail]"] unfolding P by simp_all
  have ms: "used_at l st m = Some (t m)" "\<forall>n \<in> set ms. used_at l st n = Some (t n)" "length ms \<le> fuel" using ns m by auto
  have "\<exists>k < length ns. evict_loop fuel l st (Node m) (last (Head # map Node ms)) = Inr (Node (ns ! k))
      \<and> (\<forall>j < length ns. t (ns ! k) \<le> t (ns ! j) \<and> (k < j \<longrightarrow> t (ns ! k) < t (ns ! j)))"
    using evict_loop_oldest [OF L(1) ms]
  proof (elim disjE exE conjE)
    assume "evict_loop fuel l st (Node m) (last (Head # map Node ms)) = Inr (Node m)" "\<forall>n \<in> set ms. t m \<le> t n"
    then show ?thesis by (intro exI [of _ "length ms"]) (auto simp: m nth_append less_Suc_eq)
  next
    fix k assume "k < length ms" "evict_loop fuel l st (Node m) (last (Head # map Node ms)) = Inr (Node (ms ! k))" "t (ms ! k) < t m"
      "\<forall>j < length ms. t (ms ! k) \<le> t (ms ! j) \<and> (k < j \<longrightarrow> t (ms ! k) < t (ms ! j))"
    then show ?thesis by (intro exI [of _ k]) (auto simp: m nth_append less_Suc_eq)
  qed
  then obtain k where k: "k < length ns" "evict_loop fuel l st (Node m) (last (Head # map Node ms)) = Inr (Node (ns ! k))"
      "\<forall>j < length ns. t (ns ! k) \<le> t (ns ! j) \<and> (k < j \<longrightarrow> t (ns ! k) < t (ns ! j))" by blast
  obtain p where p: "lru_prev l (Node (ns ! k)) = Some p" "lru_list (cut_node p (Node (ns ! k)) l) (take k ns)" using cut_list [OF l(2) k(1)] by blast
  have "lru_evict fuel i st = Inr (lru_entry l (Node (ns ! k)), set_lru i (cut_node p (Node (ns ! k)) l) st)"
    using L(2,3) k(2) p(1) by (simp add: lru_evict_def follow_def Let_def cut_node_def l(1) [symmetric])
  then show ?thesis using k(1,3) p(2) l(3) by (intro exI [of _ k]) (auto simp: set_lru_def)
qed

text \<open>
  Making room in a full list: the entry that is given away is one that has been used least recently, the last such one of the list; but
  all entries behind it leave the list with it.
\<close>

theorem lru_evict_drops:
  assumes "lru_list (lru_caches st ! i) ns" "i < length (lru_caches st)" "ns \<noteq> []"
    and "\<forall>n \<in> set ns. used_at (lru_caches st ! i) st n = Some (t n)" "length ns \<le> fuel"
  shows "\<exists>k < length ns. \<exists>st'. lru_evict fuel i st = Inr (lru_entry (lru_caches st ! i) (Node (ns ! k)), st')
    \<and> (\<forall>j < length ns. t (ns ! k) \<le> t (ns ! j) \<and> (k < j \<longrightarrow> t (ns ! k) < t (ns ! j))) \<and> lru_list (lru_caches st' ! i) (take k ns)"
  by (rule evicted [OF refl assms])

text \<open>Three entries, the first of which is the oldest: the list is empty afterwards.\<close>

definition no_pixels :: "'p GSTEXTURE" where
  "no_pixels = \<lparr>tex_Mem = None, tex_Clut = None, tex_Vram = 0, tex_VramClut = 0, tex_ClutStorageMode = 0\<rparr>"

definition entry_used :: "u32 \<Rightarrow> nat cache_entry" where
  "entry_used t = \<lparr>texture = no_pixels, qr = None, lastUsed = t, entry_UID = 1\<rparr>"

definition lru_three :: lru_cache where
  "lru_three = \<lparr>lru_owner = 7,
     lru_next = (\<lambda>_. None)(Head := Some (Node 0), Node 0 := Some (Node 1), Node 1 := Some (Node 2), Node 2 := Some Tail),
     lru_prev = (\<lambda>_. None)(Node 0 := Some Head, Node 1 := Some (Node 0), Node 2 := Some (Node 1), Tail := Some (Node 2)),
     lru_entry = (\<lambda>p. case p of Node n \<Rightarrow> Some (7, n) | _ \<Rightarrow> None), node_count = 3, frame_counter = 9, nodes_last_drawn = []\<rparr>"

definition tex_three :: "(nat, nat) texcache" where
  "tex_three = \<lparr>req_pool = \<lparr>pool_requests = [], pool_used = [], free_list = [], free_count = 0\<rparr>, lru_caches = [lru_three], lru_cache_count = 1,
     caches = (\<lambda>_. None)(7 \<mapsto> \<lparr>cache_userId = 0, cache_count = 3, cache_prefix = None, isPrefixRelative = True, cache_suffix = None, nextUID = 5,
       content = [entry_used 2, entry_used 6, entry_used 4]\<rparr>), art_requests = [], guiFrameId = 9, guiInactiveFrames = 0\<rparr>"

theorem lru_evict_drops_witness:
  "\<exists>k < length [0::nat, 1, 2]. \<exists>st'. lru_evict 3 0 tex_three = Inr (lru_entry (lru_caches tex_three ! 0) (Node ([0, 1, 2] ! k)), st')
    \<and> (\<forall>j < length [0::nat, 1, 2]. [2::int, 6, 4] ! ([0, 1, 2] ! k) \<le> [2, 6, 4] ! ([0, 1, 2] ! j)
        \<and> (k < j \<longrightarrow> [2::int, 6, 4] ! ([0, 1, 2] ! k) < [2, 6, 4] ! ([0, 1, 2] ! j)))
    \<and> lru_list (lru_caches st' ! 0) (take k [0, 1, 2])"
  by (rule lru_evict_drops)
    (simp_all add: tex_three_def lru_list_def lru_three_def used_at_def the_entry_def the_cache_def entry_used_def)

subsection \<open>No picture is ever loaded\<close>

text \<open>
  What can happen to the caches: a theme makes and destroys caches, a frame begins, a picture is asked for, the worker
  runs the next request.  At the start all memory is zero and the pool is set up.
\<close>

inductive tex_step :: "('l \<Rightarrow> string option \<Rightarrow> bool \<Rightarrow> string option \<Rightarrow> string option \<Rightarrow> 'p GSTEXTURE \<Rightarrow> int \<times> 'p GSTEXTURE)
    \<Rightarrow> ('p, 'l) texcache \<Rightarrow> ('p, 'l) texcache \<Rightarrow> bool" for getImage where
  tex_create: "\<lbrakk>\<forall>a j. p = Some (a, j) \<longrightarrow> caches st a = None; cacheInitCache p ok uid prefix rel suffix n st = (cp, st')\<rbrakk> \<Longrightarrow> tex_step getImage st st'"
| tex_destroy: "tex_step getImage st (cacheDestroyCache cp st)"
| tex_frame: "tex_step getImage st (cacheAdvanceFrame (st\<lparr>guiFrameId := guiFrameId st + 1, guiInactiveFrames := n\<rparr>))"
| tex_get: "cacheGetTexture fuel malloc_ok put_ok cp lp cid uid vp st = Inr (r, cid', uid', st') \<Longrightarrow> tex_step getImage st st'"
| tex_load: "\<lbrakk>art_requests st = r # rs; cacheLoadImage getImage (Some r) (st\<lparr>art_requests := rs\<rparr>) = Inr st'\<rbrakk> \<Longrightarrow> tex_step getImage st st'"

definition tex_start :: "'l load_image_request list \<Rightarrow> ('p, 'l) texcache" where
  "tex_start reqs = cacheInit \<lparr>req_pool = \<lparr>pool_requests = reqs, pool_used = [], free_list = [], free_count = 0\<rparr>,
     lru_caches = replicate 8 \<lparr>lru_owner = 0, lru_next = (\<lambda>_. None), lru_prev = (\<lambda>_. None), lru_entry = (\<lambda>_. None), node_count = 0,
       frame_counter = 0, nodes_last_drawn = []\<rparr>,
     lru_cache_count = 0, caches = (\<lambda>_. None), art_requests = [], guiFrameId = 0, guiInactiveFrames = 0\<rparr>"

text \<open>Every list is empty, every entry unused, and nothing waits to be loaded.\<close>

definition all_idle :: "('p, 'l) texcache \<Rightarrow> bool" where
  "all_idle st = (art_requests st = [] \<and> length (lru_caches st) = 8 \<and> lru_cache_count st \<le> 8
     \<and> (\<forall>i < lru_cache_count st. lru_prev (lru_caches st ! i) Tail = Some Head)
     \<and> (\<forall>a c. caches st a = Some c \<longrightarrow> length (content c) = cache_count c \<and> (\<forall>e \<in> set (content c). lastUsed e = - 1)))"

lemma all_idle_start: "all_idle (tex_start reqs)"
  by (simp add: all_idle_def tex_start_def cacheInit_def)

lemma all_idle_create:
  assumes "all_idle st" "cacheInitCache p ok uid prefix rel suffix n st = (cp, st')" shows "all_idle st'"
proof (cases "\<exists>a junk. p = Some (a, Some junk)")
  case True
  then obtain a junk where p: "p = Some (a, Some junk)" by blast
  define m where "m = nat (if (if int TEXCACHE_MAX_ENTRIES < n then int TEXCACHE_MAX_ENTRIES else n) < 1 then 1 else (if int TEXCACHE_MAX_ENTRIES < n then int TEXCACHE_MAX_ENTRIES else n))"
  define c where "c = \<lparr>cache_userId = uid, cache_count = m, cache_prefix = (if ok 0 then prefix else None), isPrefixRelative = rel,
      cache_suffix = (if ok 1 then Some suffix else None), nextUID = 1, content = map (\<lambda>i. cacheClearItem (junk ! i)) [0..<m]\<rparr>"
  define st1 where "st1 = st\<lparr>caches := (caches st)(a \<mapsto> c)\<rparr>"
  have st': "st' = (if lru_cache_count st1 < 8
      then st1\<lparr>lru_caches := (lru_caches st1)[lru_cache_count st1 := lru_init a (lru_caches st1 ! lru_cache_count st1)], lru_cache_count := lru_cache_count st1 + 1\<rparr>
      else st1)"
    using assms(2) by (simp only: p cacheInitCache_def Let_def option.case prod.case m_def [symmetric] c_def [symmetric] st1_def [symmetric] prod.inject)
  have "length (content c) = cache_count c" "\<forall>e \<in> set (content c). lastUsed e = - 1" by (auto simp: c_def cacheClearItem_def)
  then have 1: "all_idle st1" using assms(1) by (simp add: all_idle_def st1_def)
  have "lru_prev (lru_init a l) Tail = Some Head" for l by (simp add: lru_init_def)
  then show ?thesis using 1 unfolding st' by (auto simp: all_idle_def nth_list_update less_Suc_eq)
next
  case False
  then have "st' = st" using assms(2) by (auto simp: cacheInitCache_def Let_def split: option.splits prod.splits)
  then show ?thesis using assms(1) by simp
qed

lemma all_idle_get:
  assumes "all_idle st" "caches st c = Some cache" "cid < 0 \<longrightarrow> cid = - 1 \<or> cid = - 2"
  shows "cacheGetTexture fuel malloc_ok put_ok (Some c) (Some (ls, delay)) cid uid (Some val) st
    = Inr (None, if 0 \<le> cid \<and> cid < int (cache_count cache) then - 1 else cid, uid, st)"
proof -
  have e: "evict_of fuel c st = Inr (None, st)"
    using assms(1) by (auto simp: evict_of_def find_lru_def find_Some_iff lru_evict_def all_idle_def split: option.splits)
  have "lastUsed (content cache ! nat cid) = - 1" if "0 \<le> cid" "cid < int (cache_count cache)"
    using assms(1,2) that by (simp add: all_idle_def nat_less_iff)
  then show ?thesis using assms(2,3) e by (auto simp: cacheGetTexture_def the_cache_def Let_def)
qed

lemma all_idle_get_any:
  assumes "all_idle st" "cacheGetTexture fuel malloc_ok put_ok cp lp cid uid vp st = Inr (r, cid', uid', st')" shows "st' = st"
proof (cases "\<exists>c ls delay val cache. cp = Some c \<and> lp = Some (ls, delay) \<and> vp = Some val \<and> caches st c = Some cache")
  case True
  then obtain c ls delay val cache where x: "cp = Some c" "lp = Some (ls, delay)" "vp = Some val" "caches st c = Some cache" by blast
  show ?thesis
  proof (cases "cid < 0 \<longrightarrow> cid = - 1 \<or> cid = - 2")
    case True then show ?thesis using all_idle_get [OF assms(1) x(4) True] assms(2) x by simp
  next
    case False then show ?thesis using assms(2) x by (auto simp: cacheGetTexture_def the_cache_def Let_def)
  qed
next
  case False
  then show ?thesis using assms(2) by (auto simp: cacheGetTexture_def the_cache_def split: option.splits prod.splits)
qed

lemma all_idle_step: "tex_step getImage st st' \<Longrightarrow> all_idle st \<Longrightarrow> all_idle st'"
proof (induction rule: tex_step.induct)
  case tex_create then show ?case using all_idle_create by blast
next
  case tex_destroy then show ?case by (auto simp: all_idle_def cacheDestroyCache_def split: option.splits)
next
  case tex_frame then show ?case by (auto simp: all_idle_def cacheAdvanceFrame_def nth_append)
next
  case tex_get then show ?case using all_idle_get_any by metis
next
  case tex_load then show ?case by (simp add: all_idle_def)
qed

lemma all_idle_reach: "(tex_step getImage)\<^sup>*\<^sup>* (tex_start reqs) st \<Longrightarrow> all_idle st"
  by (induction rule: rtranclp_induct) (auto intro: all_idle_start all_idle_step)

text \<open>
  C39. Whatever caches have been made and however often pictures have been asked for, no picture is ever requested and none is returned: the lists
  of use start empty, only the arrival of a picture would fill them, and a picture is only requested when the list gives an entry away.
\<close>

theorem art_never_loaded:
  assumes "(tex_step getImage)\<^sup>*\<^sup>* (tex_start reqs) st" "caches st c = Some cache" "cid < 0 \<longrightarrow> cid = - 1 \<or> cid = - 2"
  shows "cacheGetTexture fuel malloc_ok put_ok (Some c) (Some (ls, delay)) cid uid (Some val) st
      = Inr (None, if 0 \<le> cid \<and> cid < int (cache_count cache) then - 1 else cid, uid, st) \<and> art_requests st = []"
  using all_idle_reach [OF assms(1)] all_idle_get [OF _ assms(2,3)] by (auto simp: all_idle_def)

definition art_example :: "(nat, nat) texcache" where
  "art_example = snd (cacheInitCache (Some (7, Some [entry_used 3])) (\<lambda>_. True) 0 (Some ''ART'') True ''COV'' 1 (tex_start []))"

theorem art_never_loaded_witness:
  "cacheGetTexture 5 True True (Some 7) (Some (3 :: nat, 0)) 0 0 (Some ''SLUS_200.71'') art_example
      = Inr (None, if 0 \<le> (0::int) \<and> (0::int) < int (cache_count (the (caches art_example 7))) then - 1 else 0, 0, art_example)
    \<and> art_requests art_example = []"
proof (rule art_never_loaded [where getImage = "\<lambda>h p rel v s t. (0, t)" and reqs = "[]"])
  have "cacheInitCache (Some (7, Some [entry_used 3])) (\<lambda>_. True) 0 (Some ''ART'') True ''COV'' 1 (tex_start []) = (Some 7, art_example)"
    unfolding art_example_def by (simp add: cacheInitCache_def Let_def)
  moreover have "caches (tex_start [] :: (nat, nat) texcache) 7 = None" by (simp add: tex_start_def cacheInit_def)
  ultimately have "tex_step (\<lambda>h p rel v s t. (0, t)) (tex_start []) art_example" by (intro tex_create) auto
  then show "(tex_step (\<lambda>h p rel v s t. (0, t)))\<^sup>*\<^sup>* (tex_start []) art_example" by blast
  show "caches art_example 7 = Some (the (caches art_example 7))" by (simp add: art_example_def cacheInitCache_def Let_def)
qed simp

subsection \<open>A picture that would be loaded\<close>

lemma set_entry_frame:
  assumes "the_entry e st = Inr x"
  shows "\<exists>st'. set_entry e f st = Inr st' \<and> the_entry e st' = Inr (f x) \<and> lru_caches st' = lru_caches st
    \<and> lru_cache_count st' = lru_cache_count st \<and> guiFrameId st' = guiFrameId st"
proof -
  obtain c where c: "caches st (fst e) = Some c" "snd e < length (content c)" "x = content c ! snd e"
    using assms by (auto simp: the_entry_def the_cache_def bindR_Inr_iff split: option.splits if_splits)
  then show ?thesis by (simp add: set_entry_def the_entry_def the_cache_def)
qed

lemma lru_add_fresh:
  assumes "the_entry e st = Inr x" "i < length (lru_caches st)" "node_count (lru_caches st ! i) < TEXCACHE_MAX_ENTRIES"
    and "lru_prev (lru_caches st ! i) (Node (node_count (lru_caches st ! i))) = None"
  shows "lru_add i (Some e) st = Inl NullPointer"
proof -
  define l where "l = lru_caches st ! i"
  define l' where "l' = l\<lparr>node_count := node_count l + 1, lru_entry := (lru_entry l)(Node (node_count l) := Some e)\<rparr>"
  have "the_entry e (set_lru i l' st) = Inr x" using assms(1) by (simp add: set_lru_def the_entry_def the_cache_def)
  then obtain st' where st': "set_entry e (\<lambda>y. y\<lparr>lastUsed := frame_counter l'\<rparr>) (set_lru i l' st) = Inr st'" "lru_caches st' = (lru_caches st)[i := l']"
    using set_entry_frame [of e "set_lru i l' st" x "\<lambda>y. y\<lparr>lastUsed := frame_counter l'\<rparr>"] by (auto simp: set_lru_def)
  have "lru_move_to_front i (Node (node_count l)) st' = Inl NullPointer"
    using assms(2,4) st'(2) by (simp add: lru_move_to_front_def unlink_node_def follow_def l'_def l_def)
  then show ?thesis using assms(3) st'(1) unfolding lru_add_def stamp_def by (simp add: Let_def l_def [symmetric]) (simp add: l'_def)
qed

text \<open>
  C40. Were a picture requested, its arrival would follow a null pointer: the node that is taken for its entry is not on the list yet, but is unlinked
  from it first.
\<close>

theorem loaded_picture_faults:
  assumes "pool_requests (req_pool st) ! r = \<lparr>req_value = v, req_cache = Some c, req_entry = Some e, req_list = Some h, cacheUID = entry_UID x\<rparr>"
    and "the_entry e st = Inr x" "caches st c = Some cache"
    and "getImage h (cache_prefix cache) (isPrefixRelative cache) v (cache_suffix cache) (texFree (texture x)) = (result, t)" "0 \<le> result"
    and "find_lru c st = Some i" "i < length (lru_caches st)" "node_count (lru_caches st ! i) < TEXCACHE_MAX_ENTRIES"
    and "lru_prev (lru_caches st ! i) (Node (node_count (lru_caches st ! i))) = None"
  shows "cacheLoadImage getImage (Some r) st = Inl NullPointer"
proof -
  obtain st1 where 1: "set_entry e (\<lambda>x. x\<lparr>texture := t\<rparr>) st = Inr st1" "the_entry e st1 = Inr (x\<lparr>texture := t\<rparr>)"
      "lru_caches st1 = lru_caches st" "lru_cache_count st1 = lru_cache_count st"
    using set_entry_frame [OF assms(2), of "\<lambda>x. x\<lparr>texture := t\<rparr>"] by blast
  obtain st2 where 2: "set_entry e (\<lambda>x. x\<lparr>lastUsed := guiFrameId st1\<rparr>) st1 = Inr st2" "the_entry e st2 = Inr (x\<lparr>texture := t, lastUsed := guiFrameId st1\<rparr>)"
      "lru_caches st2 = lru_caches st" "lru_cache_count st2 = lru_cache_count st"
    using set_entry_frame [OF 1(2), of "\<lambda>x. x\<lparr>lastUsed := guiFrameId st1\<rparr>"] 1(3,4) by auto
  have "find_lru c st2 = Some i" using assms(6) 2(3,4) by (simp add: find_lru_def)
  moreover have "lru_add i (Some e) st2 = Inl NullPointer" using lru_add_fresh [OF 2(2), of i] assms(7-9) 2(3) by simp
  ultimately show ?thesis using assms(1-5) 1(1) 2(1) by (simp add: cacheLoadImage_def the_cache_def)
qed

text \<open>One entry, its request, and the list as it was set up.\<close>

definition art_loading :: "(nat, nat) texcache" where
  "art_loading = art_example\<lparr>req_pool := (req_pool art_example)\<lparr>pool_requests :=
     [\<lparr>req_value = Some ''SLUS_200.71'', req_cache = Some 7, req_entry = Some (7, 0), req_list = Some 3, cacheUID = 0\<rparr>]\<rparr>\<rparr>"

theorem loaded_picture_faults_witness:
  "cacheLoadImage (\<lambda>h p rel v s t. (0, t\<lparr>tex_Mem := Some 1\<rparr>)) (Some 0) art_loading = Inl NullPointer"
proof (rule loaded_picture_faults [where e = "(7, 0)" and c = 7 and i = 0 and h = 3 and result = 0 and v = "Some ''SLUS_200.71''"
      and x = "cacheClearItem (entry_used 3)" and cache = "the (caches art_example 7)"
      and t = "no_pixels\<lparr>tex_Mem := Some 1\<rparr>"])
  have c: "caches art_loading 7 = caches art_example 7" "lru_caches art_loading = lru_caches art_example" "lru_cache_count art_loading = lru_cache_count art_example"
    by (simp_all add: art_loading_def)
  have a: "caches art_example 7 = Some \<lparr>cache_userId = 0, cache_count = 1, cache_prefix = Some ''ART'', isPrefixRelative = True,
      cache_suffix = Some ''COV'', nextUID = 1, content = [cacheClearItem (entry_used 3)]\<rparr>"
    by (simp add: art_example_def cacheInitCache_def TEXCACHE_MAX_ENTRIES_def Let_def)
  have l: "lru_caches art_example ! 0 = lru_init 7 \<lparr>lru_owner = 0, lru_next = (\<lambda>_. None), lru_prev = (\<lambda>_. None), lru_entry = (\<lambda>_. None), node_count = 0,
       frame_counter = 0, nodes_last_drawn = []\<rparr>" "length (lru_caches art_example) = 8" "lru_cache_count art_example = 1"
    by (simp_all add: art_example_def cacheInitCache_def tex_start_def cacheInit_def Let_def)
  show "the_entry (7, 0) art_loading = Inr (cacheClearItem (entry_used 3))" "caches art_loading 7 = Some (the (caches art_example 7))"
    by (simp_all add: the_entry_def the_cache_def c a)
  show "pool_requests (req_pool art_loading) ! 0 = \<lparr>req_value = Some ''SLUS_200.71'', req_cache = Some 7, req_entry = Some (7, 0), req_list = Some 3,
      cacheUID = entry_UID (cacheClearItem (entry_used 3))\<rparr>" by (simp add: art_loading_def cacheClearItem_def)
  show "find_lru 7 art_loading = Some 0" by (simp add: find_lru_def c l lru_init_def)
  show "0 < length (lru_caches art_loading)" "node_count (lru_caches art_loading ! 0) < TEXCACHE_MAX_ENTRIES"
    "lru_prev (lru_caches art_loading ! 0) (Node (node_count (lru_caches art_loading ! 0))) = None"
    by (simp_all add: c l lru_init_def TEXCACHE_MAX_ENTRIES_def)
qed (simp_all add: cacheClearItem_def texFree_def no_pixels_def)

end
